(* ===== verification/Peek_Prelude.thy ===== *)
theory Peek_Prelude
  imports Main "HOL-Library.Multiset" "HOL-Library.AList" "HOL-Library.Product_Lexorder"
begin

text \<open>
  Shared vocabulary of the development: Python's insertion-ordered dictionaries (association
  lists with distinct keys), Python's stable sorts, the grouping idiom
  \<open>groups[key(r)].append(r)\<close> on a \<open>defaultdict(list)\<close>, and the queue-reordering contract that
  every scheduler of the program has to respect (no request is lost, none is duplicated).
\<close>

named_theorems queue_simps \<open>facts about the requests a reordering step returns\<close>
named_theorems dict_simps \<open>facts about ordered dictionaries\<close>

section \<open>Insertion-ordered dictionaries\<close>

text \<open>
  A Python dict iterates in insertion order and an assignment to an existing key keeps the
  key's position: \<open>AList.update\<close>. \<open>del d[k]\<close> and \<open>d.pop(k, None)\<close> are \<open>AList.delete\<close>.
\<close>

type_synonym ('k, 'v) pydict = "('k \<times> 'v) list"

abbreviation dget :: "('k, 'v) pydict \<Rightarrow> 'k \<Rightarrow> 'v option" where
  "dget d k \<equiv> map_of d k"

definition dget_or :: "('k, 'v) pydict \<Rightarrow> 'k \<Rightarrow> 'v \<Rightarrow> 'v" where
  "dget_or d k v = (case map_of d k of None \<Rightarrow> v | Some w \<Rightarrow> w)"

abbreviation dset :: "'k \<Rightarrow> 'v \<Rightarrow> ('k, 'v) pydict \<Rightarrow> ('k, 'v) pydict" where
  "dset k v d \<equiv> AList.update k v d"

abbreviation ddel :: "'k \<Rightarrow> ('k, 'v) pydict \<Rightarrow> ('k, 'v) pydict" where
  "ddel k d \<equiv> AList.delete k d"

abbreviation dkeys :: "('k, 'v) pydict \<Rightarrow> 'k list" where
  "dkeys d \<equiv> map fst d"

abbreviation dvals :: "('k, 'v) pydict \<Rightarrow> 'v list" where
  "dvals d \<equiv> map snd d"

definition wf_dict :: "('k, 'v) pydict \<Rightarrow> bool" where
  "wf_dict d = distinct (map fst d)"

lemma wf_dict_Nil [simp]: "wf_dict []"
  by (simp add: wf_dict_def)

lemma wf_dict_Cons [simp]: "wf_dict ((k, v) # d) \<longleftrightarrow> k \<notin> fst ` set d \<and> wf_dict d"
  by (simp add: wf_dict_def)

lemma wf_dset [simp, intro]: "wf_dict d \<Longrightarrow> wf_dict (dset k v d)"
  by (simp add: wf_dict_def distinct_update)

lemma wf_ddel [simp, intro]: "wf_dict d \<Longrightarrow> wf_dict (ddel k d)"
  by (simp add: wf_dict_def distinct_delete)

lemma dget_dset [dict_simps]: "dget (dset k v d) k' = (if k' = k then Some v else dget d k')"
  by (simp add: update_conv')

lemma dget_ddel [dict_simps]: "dget (ddel k d) k' = (if k' = k then None else dget d k')"
  by (simp add: delete_conv')

lemma dget_or_dset [dict_simps]: "dget_or (dset k v d) k' w = (if k' = k then v else dget_or d k' w)"
  by (simp add: dget_or_def dict_simps)

lemma dget_or_ddel [dict_simps]: "dget_or (ddel k d) k' w = (if k' = k then w else dget_or d k' w)"
  by (simp add: dget_or_def dict_simps)

lemma dget_Some_iff_mem: "wf_dict d \<Longrightarrow> dget d k = Some v \<longleftrightarrow> (k, v) \<in> set d"
  by (simp add: wf_dict_def)

lemma dget_None_iff: "dget d k = None \<longleftrightarrow> k \<notin> fst ` set d"
  by (simp add: map_of_eq_None_iff)

lemma dset_append: "k \<notin> fst ` set d \<Longrightarrow> dset k v d = d @ [(k, v)]"
  by (induction d) auto

lemma ddel_append_fresh: "k \<notin> fst ` set d \<Longrightarrow> ddel k (d @ [(k, v)]) = d"
  by (induction d) (auto simp: AList.delete_eq)

lemma set_dset_subset: "set (dset k v d) \<subseteq> insert (k, v) (set d)"
  by (induction d) auto

lemma set_ddel_subset: "set (ddel k d) \<subseteq> set d"
  by (induction d) auto

text \<open>Replacing the value of a present key splits the dictionary around it.\<close>

lemma dset_split:
  assumes "wf_dict d" and "dget d k = Some v"
  obtains d1 d2 where "d = d1 @ (k, v) # d2" and "k \<notin> fst ` set d1" and "k \<notin> fst ` set d2"
    and "\<And>w. dset k w d = d1 @ (k, w) # d2" and "ddel k d = d1 @ d2"
proof -
  from assms have "(k, v) \<in> set d" by (simp add: dget_Some_iff_mem)
  then obtain d1 d2 where d: "d = d1 @ (k, v) # d2" by (meson split_list)
  with assms(1) have 1: "k \<notin> fst ` set d1" and 2: "k \<notin> fst ` set d2"
    by (auto simp: wf_dict_def)
  have "dset k w (d1 @ (k, v) # d2) = d1 @ (k, w) # d2" for w
    using 1 by (induction d1) auto
  moreover have "ddel k (d1 @ (k, v) # d2) = d1 @ d2"
    using 1 2 by (induction d1) auto
  ultimately show ?thesis using that d 1 2 by blast
qed

section \<open>Python's sorts\<close>

text \<open>
  \<open>xs.sort(key=f)\<close> is stable: \<open>sort_key f xs\<close>. With \<open>reverse=True\<close> CPython reverses the list,
  sorts it and reverses the result, which keeps equal elements in their original order.
\<close>

definition sort_rev :: "('a \<Rightarrow> 'k::linorder) \<Rightarrow> 'a list \<Rightarrow> 'a list" where
  "sort_rev f xs = rev (sort_key f (rev xs))"

lemma mset_sort_rev [simp, queue_simps]: "mset (sort_rev f xs) = mset xs"
  by (simp add: sort_rev_def)

lemma set_sort_rev [simp]: "set (sort_rev f xs) = set xs"
  by (simp add: sort_rev_def)

lemma length_sort_rev [simp]: "length (sort_rev f xs) = length xs"
  by (simp add: sort_rev_def)

lemma sorted_sort_rev: "sorted_wrt (\<lambda>x y. f y \<le> f x) (sort_rev f xs)"
proof -
  have "sorted_wrt (\<lambda>x y. f x \<le> f y) (sort_key f (rev xs))"
    using sorted_sort_key [of f "rev xs"] by (simp add: sorted_map)
  then show ?thesis by (simp add: sort_rev_def sorted_wrt_rev)
qed

lemma sort_rev_stable: "filter (\<lambda>x. f x = k) (sort_rev f xs) = filter (\<lambda>x. f x = k) xs"
proof -
  have "filter (\<lambda>x. f x = k) (sort_key f (rev xs)) = filter (\<lambda>x. f x = k) (rev xs)"
    by (metis sort_key_stable)
  then show ?thesis by (simp add: sort_rev_def flip: rev_filter)
qed

lemma sort_key_sorted_wrt: "sorted_wrt (\<lambda>x y. f x \<le> f y) (sort_key f xs)"
  using sorted_sort_key [of f xs] by (simp add: sorted_map)

lemma sort_rev_Nil [simp]: "sort_rev f [] = []"
  by (simp add: sort_rev_def)

section \<open>Grouping: \<open>groups[key(r)].append(r)\<close>\<close>

definition dappend :: "'k \<Rightarrow> 'r \<Rightarrow> ('k, 'r list) pydict \<Rightarrow> ('k, 'r list) pydict" where
  "dappend k r d = dset k (dget_or d k [] @ [r]) d"

definition group_by :: "('r \<Rightarrow> 'k) \<Rightarrow> 'r list \<Rightarrow> ('k, 'r list) pydict" where
  "group_by f rs = foldl (\<lambda>d r. dappend (f r) r d) [] rs"

lemma group_by_Nil [simp]: "group_by f [] = []"
  by (simp add: group_by_def)

lemma group_by_snoc [simp]: "group_by f (rs @ [r]) = dappend (f r) r (group_by f rs)"
  by (simp add: group_by_def)

lemma wf_dappend [simp]: "wf_dict d \<Longrightarrow> wf_dict (dappend k r d)"
  by (simp add: dappend_def wf_dset)

lemma wf_group_by [simp]: "wf_dict (group_by f rs)"
  by (induction rs rule: rev_induct) auto

lemma keys_group_by: "fst ` set (group_by f rs) = f ` set rs"
  by (induction rs rule: rev_induct) (auto simp: dappend_def dom_update)

lemma dget_group_by:
  "dget (group_by f rs) k =
     (if k \<in> f ` set rs then Some (filter (\<lambda>r. f r = k) rs) else None)"
proof (induction rs arbitrary: k rule: rev_induct)
  case Nil
  then show ?case by simp
next
  case (snoc r rs)
  have "dget_or (group_by f rs) (f r) [] = filter (\<lambda>x. f x = f r) rs"
  proof (cases "f r \<in> f ` set rs")
    case True
    then show ?thesis using snoc.IH by (auto simp: dget_or_def split: option.splits if_splits)
  next
    case False
    then have "filter (\<lambda>x. f x = f r) rs = []" by (metis (mono_tags, lifting) filter_False image_eqI)
    then show ?thesis using False by (simp add: dget_or_def dget_None_iff keys_group_by split: option.split)
      (metis False dget_None_iff keys_group_by option.distinct(1))
  qed
  then show ?case using snoc.IH by (auto simp: dappend_def dict_simps)
qed

lemma group_by_members:
  "(k, ms) \<in> set (group_by f rs) \<Longrightarrow> ms = filter (\<lambda>r. f r = k) rs \<and> k \<in> f ` set rs"
  using dget_group_by [of f rs k] dget_Some_iff_mem [OF wf_group_by, of f rs k ms]
  by (auto split: if_splits)

lemma group_by_nonempty: "(k, ms) \<in> set (group_by f rs) \<Longrightarrow> ms \<noteq> []"
  by (auto dest!: group_by_members simp: filter_empty_conv)

lemma group_by_key: "(k, ms) \<in> set (group_by f rs) \<Longrightarrow> r \<in> set ms \<Longrightarrow> f r = k"
  by (auto dest!: group_by_members)

lemma mset_concat_dappend:
  assumes "wf_dict d"
  shows "mset (concat (dvals (dappend k r d))) = add_mset r (mset (concat (dvals d)))"
proof (cases "dget d k")
  case None
  then have "k \<notin> fst ` set d" by (simp add: dget_None_iff)
  with None show ?thesis by (simp add: dappend_def dget_or_def dset_append)
next
  case (Some ms)
  with assms obtain d1 d2 where "d = d1 @ (k, ms) # d2"
    and "\<And>w. dset k w d = d1 @ (k, w) # d2"
    using dset_split by metis
  with Some show ?thesis by (simp add: dappend_def dget_or_def)
qed

text \<open>No request is lost or duplicated by grouping.\<close>

lemma mset_group_by [simp, queue_simps]: "mset (concat (dvals (group_by f rs))) = mset rs"
  by (induction rs rule: rev_induct) (simp_all add: mset_concat_dappend)

lemma mset_concat_perm: "mset xss = mset yss \<Longrightarrow> mset (concat xss) = mset (concat yss)"
  by (metis mset_concat mset_map sum_mset_sum_list)

lemma set_group_by_members: "(k, ms) \<in> set (group_by f rs) \<Longrightarrow> set ms \<subseteq> set rs"
  by (auto dest!: group_by_members)

section \<open>The contract of a scheduler: a queue is only reordered\<close>

text \<open>
  Every scheduler of the program takes the waiting queue and puts the same requests back in
  another order. The laws a client may rely on follow from the multiset equation alone.
\<close>

locale queue_reorder =
  fixes reorder :: "'r list \<Rightarrow> 'r list"
  assumes reorder_mset: "mset (reorder q) = mset q"
begin

lemma reorder_set: "set (reorder q) = set q"
  using reorder_mset by (metis set_mset_mset)

lemma reorder_length: "length (reorder q) = length q"
  using reorder_mset by (metis size_mset)

lemma reorder_distinct: "distinct (reorder q) \<longleftrightarrow> distinct q"
  using reorder_mset by (metis distinct_count_atmost_1 set_mset_mset)

lemma reorder_nil: "reorder q = [] \<longleftrightarrow> q = []"
  using reorder_mset by (metis mset_zero_iff)

lemma reorder_admits: "r \<in> set q \<Longrightarrow> \<exists>i < length q. reorder q ! i = r"
  using reorder_set reorder_length by (metis in_set_conv_nth)

end

section \<open>Lists\<close>

text \<open>\<open>xs[:n]\<close>: a negative bound counts from the end.\<close>

definition py_prefix :: "int \<Rightarrow> 'a list \<Rightarrow> 'a list" where
  "py_prefix n xs = take (nat (if n < 0 then int (length xs) + n else n)) xs"

lemma py_prefix_nonneg: "0 \<le> n \<Longrightarrow> py_prefix n xs = take (nat n) xs"
  by (simp add: py_prefix_def)

lemma nth_map_upt_id: "map ((!) xs) [0..<length xs] = xs"
  by (rule map_nth)

lemma mset_map_nth_perm: "mset idx = mset [0..<length xs] \<Longrightarrow> mset (map ((!) xs) idx) = mset xs"
  by (metis mset_map map_nth)

lemma take_nat_min: "take (nat (min (int (length xs)) m)) xs = take (nat m) xs"
  by (cases "m \<le> int (length xs)") (simp_all add: min_def)

text \<open>The largest whole number of pages.\<close>

lemma whole_pages_le: "0 < p \<Longrightarrow> (x::int) div p * p \<le> x"
  using pos_mod_sign [of p x] div_mod_decomp_int [of x p] by linarith

end
