(* ===== verification/Py_Float.thy ===== *)
theory Py_Float
  imports Complex_Main Peek_Prelude
begin

text \<open>
  Python's \<open>float\<close> is an IEEE binary64 number and every operation of the program rounds its
  exact result to the nearest such number, ties to the even significand. A finite float is
  modelled by the rational number it stands for, and \<open>fl\<close> is the rounding (53-bit
  significands, gradual underflow at exponent -1074). Values of magnitude beyond
  \<open>2^1024\<close>, infinities and NaN are outside the model; the one infinity the program uses is
  modelled where it occurs. What is proved of \<open>fl\<close>: it is monotone, odd and exact on
  integers up to \<open>2^53\<close>, which is what the order-theoretic properties of scores need.
\<close>

type_synonym pyfloat = rat

fun nlog2 :: "nat \<Rightarrow> nat" where
  "nlog2 n = (if n \<le> 1 then 0 else Suc (nlog2 (n div 2)))"

declare nlog2.simps [simp del]

lemma nlog2_bounds: "0 < n \<Longrightarrow> 2 ^ nlog2 n \<le> n \<and> n < 2 ^ Suc (nlog2 n)"
proof (induction n rule: nlog2.induct)
  case (1 n)
  show ?case
  proof (cases "n \<le> 1")
    case True
    with "1.prems" show ?thesis by (simp add: nlog2.simps [of n])
  next
    case False
    then have "0 < n div 2" by simp
    with "1.IH" False have "2 ^ nlog2 (n div 2) \<le> n div 2 \<and> n div 2 < 2 ^ Suc (nlog2 (n div 2))"
      by simp
    then have "2 * 2 ^ nlog2 (n div 2) \<le> n \<and> n < 4 * 2 ^ nlog2 (n div 2)" by auto
    with False show ?thesis by (simp add: nlog2.simps [of n])
  qed
qed

text \<open>The binary exponent of a positive rational: \<open>2 powi e \<le> x < 2 powi (e + 1)\<close>.\<close>

definition rlog2 :: "rat \<Rightarrow> int" where
  "rlog2 x = (let (p, q) = quotient_of x; d = int (nlog2 (nat p)) - int (nlog2 (nat q))
              in if 2 powi d \<le> x then d else d - 1)"

definition round_half_even :: "rat \<Rightarrow> int" where
  "round_half_even y = (let f = \<lfloor>y\<rfloor>; r = y - of_int f in
     if r < 1/2 then f else if 1/2 < r then f + 1 else if even f then f else f + 1)"

definition ulp_exp :: "rat \<Rightarrow> int" where
  "ulp_exp x = max (rlog2 x) (-1022) - 52"

definition fl_pos :: "rat \<Rightarrow> pyfloat" where
  "fl_pos x = of_int (round_half_even (x / 2 powi ulp_exp x)) * 2 powi ulp_exp x"

definition fl :: "rat \<Rightarrow> pyfloat" where
  "fl x = (if x = 0 then 0 else if x < 0 then - fl_pos (- x) else fl_pos x)"

section \<open>Python's operators on floats\<close>

definition fadd :: "pyfloat \<Rightarrow> pyfloat \<Rightarrow> pyfloat" where "fadd a b = fl (a + b)"
definition fsub :: "pyfloat \<Rightarrow> pyfloat \<Rightarrow> pyfloat" where "fsub a b = fl (a - b)"
definition fmul :: "pyfloat \<Rightarrow> pyfloat \<Rightarrow> pyfloat" where "fmul a b = fl (a * b)"
definition fdiv :: "pyfloat \<Rightarrow> pyfloat \<Rightarrow> pyfloat" where "fdiv a b = fl (a / b)"

text \<open>\<open>a / b\<close> on two ints is the correctly rounded quotient; an int operand of a float
  operation is first converted to float.\<close>

definition int_div :: "int \<Rightarrow> int \<Rightarrow> pyfloat" where "int_div a b = fl (of_int a / of_int b)"
definition of_pyint :: "int \<Rightarrow> pyfloat" where "of_pyint n = fl (of_int n)"

text \<open>\<open>int(x)\<close> truncates towards zero.\<close>

definition py_trunc :: "pyfloat \<Rightarrow> int" where
  "py_trunc x = (if 0 \<le> x then \<lfloor>x\<rfloor> else - \<lfloor>- x\<rfloor>)"

section \<open>The exponent\<close>

lemma powi_two_pos [simp]: "(0::rat) < 2 powi k"
  by (simp add: zero_less_power_int)

lemma powi_two_mono: "j \<le> k \<Longrightarrow> (2::rat) powi j \<le> 2 powi k"
  by (rule power_int_increasing) auto

lemma powi_two_less_cancel: "(2::rat) powi j < 2 powi k \<Longrightarrow> j < k"
  using powi_two_mono [of k j] by (meson leD leI)

lemma rlog2_bounds:
  assumes "0 < x"
  shows "2 powi rlog2 x \<le> x \<and> x < 2 powi (rlog2 x + 1)"
proof -
  obtain p q where pq: "quotient_of x = (p, q)" by fastforce
  then have q: "0 < q" and x: "x = of_int p / of_int q"
    using quotient_of_denom_pos quotient_of_div by auto
  with assms have p: "0 < p" by (simp add: zero_less_divide_iff)
  define a where "a = nlog2 (nat p)"
  define b where "b = nlog2 (nat q)"
  have P: "2 ^ a \<le> p" "p < 2 ^ Suc a" and Q: "2 ^ b \<le> q" "q < 2 ^ Suc b"
    using nlog2_bounds [of "nat p"] nlog2_bounds [of "nat q"] p q
    unfolding a_def b_def by (auto simp: le_nat_iff nat_less_iff zless_nat_eq_int_zless)
  have P': "(2::rat) ^ a \<le> of_int p" "of_int p < (2::rat) ^ Suc a"
    and Q': "(2::rat) ^ b \<le> of_int q" "of_int q < (2::rat) ^ Suc b"
    using P Q by (metis of_int_le_iff of_int_less_iff of_int_numeral of_int_power)+
  define d where "d = int a - int b"
  have up: "x < 2 powi (d + 1)"
  proof -
    have "x < 2 ^ Suc a / 2 ^ b"
      unfolding x using P' Q' p q by (intro frac_less) auto
    also have "\<dots> = 2 powi (d + 1)"
      by (simp add: d_def power_int_diff power_int_add)
    finally show ?thesis .
  qed
  have low: "2 powi (d - 1) < x"
  proof -
    have "(2::rat) powi (d - 1) = 2 ^ a / 2 ^ Suc b"
      by (simp add: d_def power_int_diff)
    also have "\<dots> < x"
      unfolding x using P' Q' p q by (intro frac_less2) auto
    finally show ?thesis .
  qed
  have "rlog2 x = (if 2 powi d \<le> x then d else d - 1)"
    by (simp add: rlog2_def pq a_def b_def d_def)
  with up low show ?thesis by auto
qed

lemma rlog2_mono: "0 < x \<Longrightarrow> x \<le> y \<Longrightarrow> rlog2 x \<le> rlog2 y"
proof -
  assume "0 < x" "x \<le> y"
  then have "2 powi rlog2 x < (2::rat) powi (rlog2 y + 1)"
    using rlog2_bounds [of x] rlog2_bounds [of y] by auto
  then show ?thesis using powi_two_less_cancel by fastforce
qed

section \<open>Rounding to integers\<close>

lemma round_half_even_of_int [simp]: "round_half_even (of_int n) = n"
  by (simp add: round_half_even_def)

lemma round_half_even_near: "\<bar>of_int (round_half_even y) - y\<bar> \<le> 1/2"
  unfolding round_half_even_def Let_def using floor_correct [of y] by (auto simp: abs_le_iff)

lemma round_half_even_ge: "of_int n \<le> y \<Longrightarrow> n \<le> round_half_even y"
proof -
  assume "of_int n \<le> y"
  then have "n \<le> \<lfloor>y\<rfloor>" by (simp add: le_floor_iff)
  then show ?thesis unfolding round_half_even_def Let_def by auto
qed

lemma round_half_even_le: "y \<le> of_int n \<Longrightarrow> round_half_even y \<le> n"
proof -
  assume y: "y \<le> of_int n"
  show ?thesis
  proof (cases "y = of_int n")
    case True then show ?thesis by simp
  next
    case False
    with y have "\<lfloor>y\<rfloor> < n" by (simp add: floor_less_iff)
    then show ?thesis unfolding round_half_even_def Let_def by auto
  qed
qed

lemma round_half_even_mono: "x \<le> y \<Longrightarrow> round_half_even x \<le> round_half_even y"
proof (cases "\<lfloor>x\<rfloor> = \<lfloor>y\<rfloor>")
  case True
  assume "x \<le> y"
  with True show ?thesis unfolding round_half_even_def Let_def by auto
next
  case False
  assume "x \<le> y"
  with False have "\<lfloor>x\<rfloor> < \<lfloor>y\<rfloor>" by (simp add: floor_mono order.not_eq_order_implies_strict)
  then have "\<lfloor>x\<rfloor> + 1 \<le> \<lfloor>y\<rfloor>" by simp
  moreover have "round_half_even x \<le> \<lfloor>x\<rfloor> + 1" and "\<lfloor>y\<rfloor> \<le> round_half_even y"
    unfolding round_half_even_def Let_def by auto
  ultimately show ?thesis by linarith
qed

section \<open>Rounding to floats\<close>

lemma fl_pos_nonneg: "0 < x \<Longrightarrow> 0 \<le> fl_pos x"
proof -
  assume "0 < x"
  then have "0 \<le> x / 2 powi ulp_exp x" by simp
  then have "0 \<le> round_half_even (x / 2 powi ulp_exp x)"
    using round_half_even_ge [of 0] by simp
  then show ?thesis by (simp add: fl_pos_def)
qed

lemma fl_pos_mono:
  assumes "0 < x" and "x \<le> y"
  shows "fl_pos x \<le> fl_pos y"
proof (cases "ulp_exp x = ulp_exp y")
  case True
  have "x / 2 powi ulp_exp y \<le> y / 2 powi ulp_exp y"
    using assms by (simp add: divide_right_mono)
  then show ?thesis
    unfolding fl_pos_def True by (simp add: round_half_even_mono mult_right_mono)
next
  case False
  define e where "e = rlog2 y"
  from assms have "rlog2 x \<le> rlog2 y" by (rule rlog2_mono)
  with False have lt: "rlog2 x < e" and e: "-1022 < e" and ue: "ulp_exp y = e - 52"
    and ux: "ulp_exp x \<le> e - 53" by (auto simp: ulp_exp_def e_def)
  have y: "2 powi e \<le> y" using assms rlog2_bounds [of y] by (auto simp: e_def)
  have x: "x \<le> 2 powi e"
    using rlog2_bounds [OF assms(1)] powi_two_mono [of "rlog2 x + 1" e] lt by linarith
  have int1: "(2::rat) powi e / 2 powi ulp_exp x = of_int (2 ^ nat (e - ulp_exp x))"
  proof -
    have "(2::rat) powi e / 2 powi ulp_exp x = 2 powi (e - ulp_exp x)"
      by (simp add: power_int_diff)
    also have "\<dots> = 2 ^ nat (e - ulp_exp x)" using ux by (simp add: power_int_def)
    finally show ?thesis by simp
  qed
  have int2: "(2::rat) powi e / 2 powi ulp_exp y = of_int (2 ^ 52)"
    by (simp add: ue power_int_diff)
  have "fl_pos x \<le> 2 powi e"
  proof -
    have "x / 2 powi ulp_exp x \<le> of_int (2 ^ nat (e - ulp_exp x))"
      using x by (simp only: int1 [symmetric] divide_right_mono less_imp_le powi_two_pos)
    then have "round_half_even (x / 2 powi ulp_exp x) \<le> 2 ^ nat (e - ulp_exp x)"
      by (rule round_half_even_le)
    then have "(of_int (round_half_even (x / 2 powi ulp_exp x)) :: rat) \<le> 2 powi e / 2 powi ulp_exp x"
      unfolding int1 by (simp only: of_int_le_iff)
    then show ?thesis by (simp add: fl_pos_def pos_le_divide_eq)
  qed
  also have "2 powi e \<le> fl_pos y"
  proof -
    have "of_int (2 ^ 52) \<le> y / 2 powi ulp_exp y"
      using y by (simp only: int2 [symmetric] divide_right_mono less_imp_le powi_two_pos)
    then have "2 ^ 52 \<le> round_half_even (y / 2 powi ulp_exp y)" by (rule round_half_even_ge)
    then have "2 powi e / 2 powi ulp_exp y \<le> (of_int (round_half_even (y / 2 powi ulp_exp y)) :: rat)"
      unfolding int2 by (simp only: of_int_le_iff)
    then show ?thesis by (simp add: fl_pos_def pos_divide_le_eq)
  qed
  finally show ?thesis .
qed

lemma fl_0 [simp]: "fl 0 = 0"
  by (simp add: fl_def)

lemma fl_minus [simp]: "fl (- x) = - fl x"
  by (simp add: fl_def)

lemma fl_nonneg: "0 \<le> x \<Longrightarrow> 0 \<le> fl x"
  by (simp add: fl_def fl_pos_nonneg)

lemma fl_nonpos: "x \<le> 0 \<Longrightarrow> fl x \<le> 0"
  using fl_nonneg [of "- x"] by simp

theorem fl_mono: "x \<le> y \<Longrightarrow> fl x \<le> fl y"
proof -
  assume xy: "x \<le> y"
  consider "0 < x" | "y < 0" | "x \<le> 0" "0 \<le> y" by linarith
  then show ?thesis
  proof cases
    case 1 then show ?thesis using xy by (simp add: fl_def fl_pos_mono)
  next
    case 2 then show ?thesis using xy by (simp add: fl_def fl_pos_mono)
  next
    case 3 then show ?thesis using fl_nonneg fl_nonpos by fastforce
  qed
qed

text \<open>Integers of magnitude up to \<open>2^53\<close> are floats.\<close>

lemma fl_pos_exact:
  assumes "0 < n" and "n < 2 ^ 53"
  shows "fl_pos (of_int n) = of_int n"
proof -
  let ?u = "ulp_exp (of_int n)"
  have "2 powi rlog2 (of_int n) \<le> (of_int n :: rat)"
    using rlog2_bounds [of "of_int n"] assms by auto
  also have "(of_int n :: rat) < of_int (2 ^ 53)" using assms(2) by (simp only: of_int_less_iff)
  also have "(of_int (2 ^ 53) :: rat) = 2 powi 53" by simp
  finally have "rlog2 (of_int n) < 53" by (rule powi_two_less_cancel)
  then have "?u \<le> 0" by (simp add: ulp_exp_def)
  then obtain k where u: "?u = - int k" by (metis int_nat_eq neg_0_le_iff_le minus_minus nat_0_le)
  have "(of_int n :: rat) / 2 powi ?u = of_int (n * 2 ^ k)"
    by (simp add: u power_int_minus divide_inverse)
  then show ?thesis
    unfolding fl_pos_def by (simp only: round_half_even_of_int) (simp add: u power_int_minus divide_inverse)
qed

text \<open>Fractions of powers of two are floats.\<close>

lemma fl_pos_dyadic:
  assumes "0 < n" and "n < 2 ^ 53" and "k \<le> 1000"
  shows "fl_pos (of_int n / 2 ^ k) = of_int n / 2 ^ k"
proof -
  let ?x = "of_int n / 2 ^ k :: rat"
  let ?u = "ulp_exp ?x"
  have "2 powi rlog2 ?x \<le> ?x" using rlog2_bounds [of ?x] assms by auto
  also have "?x < of_int (2 ^ 53) / 2 ^ k"
    using assms(2) by (intro divide_strict_right_mono) (simp_all only: of_int_less_iff zero_less_power zero_less_numeral)
  also have "(of_int (2 ^ 53) / 2 ^ k :: rat) = 2 powi (53 - int k)" by (simp add: power_int_diff)
  finally have "rlog2 ?x < 53 - int k" by (rule powi_two_less_cancel)
  then have "?u \<le> - int k" using assms(3) by (simp add: ulp_exp_def)
  moreover define j where "j = nat (- int k - ?u)"
  ultimately have "?u = - int (k + j)" by simp
  then have u: "(2 :: rat) powi ?u = inverse (2 ^ k * 2 ^ j)"
    by (simp only: power_int_minus power_int_of_nat power_add)
  have "?x / 2 powi ?u = of_int (n * 2 ^ j)"
    unfolding u by (simp add: field_simps)
  then show ?thesis unfolding fl_pos_def by (simp only: round_half_even_of_int u) (simp add: field_simps)
qed

lemma fl_of_int: "\<bar>n\<bar> < 2 ^ 53 \<Longrightarrow> fl (of_int n) = of_int n"
  using fl_pos_exact [of n] fl_pos_exact [of "- n"] by (auto simp: fl_def)

lemma fl_1 [simp]: "fl 1 = 1"
  using fl_of_int [of 1] by simp

lemma fl_le_1: "x \<le> 1 \<Longrightarrow> fl x \<le> 1"
  using fl_mono [of x 1] by simp

lemma int_div_nonneg: "0 \<le> a \<Longrightarrow> 0 \<le> b \<Longrightarrow> 0 \<le> int_div a b"
  by (simp add: int_div_def fl_nonneg)

lemma int_div_le_1: "0 \<le> b \<Longrightarrow> a \<le> b \<Longrightarrow> int_div a b \<le> 1"
  by (cases "b = 0") (auto simp: int_div_def intro!: fl_le_1)

lemma int_div_mono: "0 < b \<Longrightarrow> a \<le> a' \<Longrightarrow> int_div a b \<le> int_div a' b"
  by (auto simp: int_div_def intro!: fl_mono divide_right_mono)

lemma int_div_0 [simp]: "int_div 0 b = 0"
  by (simp add: int_div_def)

lemma of_pyint_mono: "a \<le> b \<Longrightarrow> of_pyint a \<le> of_pyint b"
  by (simp add: of_pyint_def fl_mono)

lemma py_trunc_of_int [simp]: "py_trunc (of_int n) = n"
  by (simp add: py_trunc_def flip: of_int_minus)

lemma py_trunc_mono:
  assumes "x \<le> y"
  shows "py_trunc x \<le> py_trunc y"
proof -
  consider "0 \<le> x" | "y < 0" | "x < 0" "0 \<le> y" by linarith
  then show ?thesis
  proof cases
    case 1
    then show ?thesis using assms by (simp add: py_trunc_def floor_mono)
  next
    case 2
    then show ?thesis using assms floor_mono [of "- y" "- x"] by (simp add: py_trunc_def)
  next
    case 3
    then have "0 \<le> \<lfloor>- x\<rfloor>" and "0 \<le> \<lfloor>y\<rfloor>" by (auto simp only: zero_le_floor)
    with 3 show ?thesis by (simp add: py_trunc_def del: zero_le_floor)
  qed
qed

end
