(* ===== verification/Prefix_Trie.thy ===== *)
theory Prefix_Trie
  imports Peek_Prelude Py_Float "HOL-Library.Sublist"
begin

text \<open>
  \<open>src/python/peek/offline/trie.py\<close>: the prefix trie of the offline mode. A \<open>TrieNode\<close> is a
  datatype with the source's three slots; a \<open>PrefixTrie\<close> is a record. The walks that the
  source runs with an explicit stack are loops over a list whose head is the top of the stack;
  each is proved equal to a recursive depth-first traversal, and the contents of the trie are
  abstracted to the multiset of its (path, prompt index) entries.
\<close>

section \<open>Nodes and the trie\<close>

datatype tnode = TNode
  (children: "(int, tnode) pydict") (prompt_indices: "int list") (node_count: int)

definition new_node :: tnode where
  "new_node = TNode [] [] 0"

record prefix_trie =
  root :: tnode
  max_depth :: int
  num_prompts :: int

definition trie_init :: "int \<Rightarrow> prefix_trie" where
  "trie_init d = \<lparr>root = new_node, max_depth = d, num_prompts = 0\<rparr>"

text \<open>The default \<open>max_depth\<close> of the constructor.\<close>

definition default_max_depth :: int where
  "default_max_depth = 128"

fun bump :: "int \<Rightarrow> tnode \<Rightarrow> tnode" where
  "bump z (TNode ch ps c) = TNode ch ps (c + z)"

text \<open>
  The insertion loop walks down from the root, creating missing children and incrementing the
  count of every node it enters, and appends the index at the last node.
\<close>

fun tn_insert :: "int list \<Rightarrow> int \<Rightarrow> tnode \<Rightarrow> tnode" where
  "tn_insert [] idx (TNode ch ps c) = TNode ch (ps @ [idx]) c"
| "tn_insert (t # ts) idx (TNode ch ps c) =
     TNode (dset t (tn_insert ts idx (bump 1 (dget_or ch t new_node))) ch) ps c"

text \<open>\<open>depth = min(len(token_ids), self.max_depth)\<close>; the loops read \<open>token_ids[0..depth)\<close>.\<close>

definition walk_tokens :: "prefix_trie \<Rightarrow> int list \<Rightarrow> int list" where
  "walk_tokens T toks = take (nat (min (int (length toks)) (max_depth T))) toks"

definition trie_insert :: "int list \<Rightarrow> int \<Rightarrow> prefix_trie \<Rightarrow> prefix_trie" where
  "trie_insert toks idx T =
     T\<lparr>root := tn_insert (walk_tokens T toks) idx (root T), num_prompts := num_prompts T + 1\<rparr>"

text \<open>
  \<open>remove\<close> walks the path (a missing child: not found), removes the first occurrence of the
  index at its end (\<open>ValueError\<close>: not found), decrements the counts, and prunes empty nodes
  bottom-up until the first node that is not empty. The flag is that loop's \<open>break\<close>.
\<close>

definition prunable :: "tnode \<Rightarrow> bool" where
  "prunable n \<longleftrightarrow> node_count n = 0 \<and> children n = [] \<and> prompt_indices n = []"

fun tn_remove :: "int list \<Rightarrow> int \<Rightarrow> tnode \<Rightarrow> (tnode \<times> bool) option" where
  "tn_remove [] idx (TNode ch ps c) =
     (if idx \<in> set ps then Some (TNode ch (remove1 idx ps) c, True) else None)"
| "tn_remove (t # ts) idx (TNode ch ps c) =
     (case dget ch t of
        None \<Rightarrow> None
      | Some child \<Rightarrow>
          (case tn_remove ts idx child of
             None \<Rightarrow> None
           | Some (child', pruning) \<Rightarrow>
               let child'' = bump (- 1) child' in
               if pruning \<and> prunable child'' then Some (TNode (ddel t ch) ps c, True)
               else Some (TNode (dset t child'' ch) ps c, False)))"

definition trie_remove :: "int list \<Rightarrow> int \<Rightarrow> prefix_trie \<Rightarrow> prefix_trie \<times> bool" where
  "trie_remove toks idx T =
     (case tn_remove (walk_tokens T toks) idx (root T) of
        None \<Rightarrow> (T, False)
      | Some (r, _) \<Rightarrow> (T\<lparr>root := r, num_prompts := num_prompts T - 1\<rparr>, True))"

definition trie_clear :: "prefix_trie \<Rightarrow> prefix_trie" where
  "trie_clear T = T\<lparr>root := new_node, num_prompts := 0\<rparr>"

text \<open>\<open>build\<close>: \<open>for idx, prompt in enumerate(prompts): self.insert(prompt.token_ids, idx)\<close>.\<close>

fun insert_from :: "int \<Rightarrow> int list list \<Rightarrow> prefix_trie \<Rightarrow> prefix_trie" where
  "insert_from i [] T = T"
| "insert_from i (toks # rest) T = insert_from (i + 1) rest (trie_insert toks i T)"

definition trie_build :: "int list list \<Rightarrow> prefix_trie \<Rightarrow> prefix_trie" where
  "trie_build seqs T = insert_from 0 seqs T"

section \<open>The traversals, as the source's stack loops\<close>

text \<open>The order in which a node's children are pushed (the last one pushed is visited first).\<close>

definition push_order :: "bool \<Rightarrow> (int, tnode) pydict \<Rightarrow> (int, tnode) pydict" where
  "push_order count_aware ch =
     (if count_aware \<and> 1 < length ch then sort_key (\<lambda>x. node_count (snd x)) ch else rev ch)"

fun tsize :: "tnode \<Rightarrow> nat" where
  "tsize (TNode ch ps c) = Suc (sum_list (map (\<lambda>x. tsize (snd x)) ch))"

definition stack_size :: "('b \<Rightarrow> tnode) \<Rightarrow> 'b list \<Rightarrow> nat" where
  "stack_size f st = sum_list (map (\<lambda>x. tsize (f x)) st)"

lemma stack_size_simps [simp]:
  "stack_size f [] = 0"
  "stack_size f (x # st) = tsize (f x) + stack_size f st"
  "stack_size f (st @ st') = stack_size f st + stack_size f st'"
  "stack_size f (rev st) = stack_size f st"
  by (auto simp: stack_size_def simp flip: rev_map)

lemma stack_size_map [simp]: "stack_size f (map g st) = stack_size (\<lambda>x. f (g x)) st"
  by (simp add: stack_size_def comp_def)

lemma tsize_children: "tsize n = Suc (stack_size snd (children n))"
  by (cases n) (simp add: stack_size_def)

lemma stack_size_id [simp]: "stack_size (\<lambda>x. id (g x)) st = stack_size g st"
  by simp

lemma stack_size_mset: "mset xs = mset ys \<Longrightarrow> stack_size f xs = stack_size f ys"
  unfolding stack_size_def by (metis mset_map sum_mset_sum_list)

lemma mset_push_order [simp]: "mset (push_order ca ch) = mset ch"
  by (simp add: push_order_def)

lemma set_push_order [simp]: "set (push_order ca ch) = set ch"
  by (simp add: push_order_def)

lemma stack_size_push_order [simp]: "stack_size f (push_order ca ch) = stack_size f ch"
  by (rule stack_size_mset) simp

function group_keys_loop ::
  "bool \<Rightarrow> (tnode \<times> int list) list \<Rightarrow> int list list \<Rightarrow> int list list" where
  "group_keys_loop ca [] keys = keys"
| "group_keys_loop ca ((node, path) # stack) keys =
     group_keys_loop ca
       (rev (map (\<lambda>(token, child). (child, path @ [token])) (push_order ca (children node))) @ stack)
       (if prompt_indices node \<noteq> [] then keys @ [path] else keys)"
  by pat_completeness auto
termination
  by (relation "measure (\<lambda>(_, stack, _). stack_size fst stack)")
    (auto simp: tsize_children case_prod_beta)

definition dfs_group_keys :: "bool \<Rightarrow> prefix_trie \<Rightarrow> int list list" where
  "dfs_group_keys ca T = group_keys_loop ca [(root T, [])] []"

function dfs_loop :: "bool \<Rightarrow> tnode list \<Rightarrow> int list \<Rightarrow> int list" where
  "dfs_loop ca [] order = order"
| "dfs_loop ca (n # stack) order =
     dfs_loop ca (rev (map snd (push_order ca (children n))) @ stack) (order @ prompt_indices n)"
  by pat_completeness auto
termination
  by (relation "measure (\<lambda>(_, stack, _). stack_size id stack)") (auto simp: tsize_children)

definition dfs_order :: "bool \<Rightarrow> prefix_trie \<Rightarrow> int list" where
  "dfs_order ca T = dfs_loop ca [root T] []"

text \<open>
  \<open>_all_indices\<close> starts with the node's own indices and pushes children in dictionary order.
\<close>

function all_loop :: "tnode list \<Rightarrow> int list \<Rightarrow> int list" where
  "all_loop [] result = result"
| "all_loop (n # stack) result =
     all_loop (rev (map snd (children n)) @ stack) (result @ prompt_indices n)"
  by pat_completeness auto
termination
  by (relation "measure (\<lambda>(stack, _). stack_size id stack)") (auto simp: tsize_children)

definition all_indices :: "tnode \<Rightarrow> int list" where
  "all_indices node = all_loop (rev (map snd (children node))) (prompt_indices node)"

text \<open>
  \<open>prefix_groups\<close> and \<open>prefix_groups_with_tokens\<close>: a node at depth at least the minimum with two
  or more indices below it is one group and is not entered; any other node is.
\<close>

function collect_groups :: "int \<Rightarrow> (tnode \<times> int) list \<Rightarrow> int list list \<Rightarrow> int list list" where
  "collect_groups m [] groups = groups"
| "collect_groups m ((n, d) # stack) groups =
     (if m \<le> d \<and> 2 \<le> length (all_indices n)
      then collect_groups m stack (groups @ [all_indices n])
      else collect_groups m (rev (map (\<lambda>x. (snd x, d + 1)) (children n)) @ stack) groups)"
  by pat_completeness auto
termination
  by (relation "measure (\<lambda>(_, stack, _). stack_size fst stack)")
    (auto simp: tsize_children)

definition prefix_groups :: "int \<Rightarrow> prefix_trie \<Rightarrow> int list list" where
  "prefix_groups m T = collect_groups m [(root T, 0)] []"

function groups_tok_loop ::
  "int \<Rightarrow> (tnode \<times> int \<times> int list) list \<Rightarrow> (int list \<times> int list) list \<Rightarrow> (int list \<times> int list) list"
where
  "groups_tok_loop m [] groups = groups"
| "groups_tok_loop m ((n, d, pfx) # stack) groups =
     (if m \<le> d \<and> 2 \<le> length (all_indices n)
      then groups_tok_loop m stack (groups @ [(pfx, all_indices n)])
      else groups_tok_loop m
             (rev (map (\<lambda>(token, child). (child, d + 1, pfx @ [token])) (children n)) @ stack)
             groups)"
  by pat_completeness auto
termination
  by (relation "measure (\<lambda>(_, stack, _). stack_size fst stack)")
    (auto simp: tsize_children case_prod_beta)

definition prefix_groups_with_tokens :: "int \<Rightarrow> prefix_trie \<Rightarrow> (int list \<times> int list) list" where
  "prefix_groups_with_tokens m T = groups_tok_loop m [(root T, 0, [])] []"

text \<open>
  \<open>sharing_score\<close>. The inner loop walks down a chain of single children that hold no index and
  returns the depth where the shared prefix really ends.
\<close>

function chain_depth :: "tnode \<Rightarrow> int \<Rightarrow> int" where
  "chain_depth (TNode ch ps c) real_depth =
     (case ch of
        [(_, walk)] \<Rightarrow> if ps = [] then chain_depth walk (real_depth + 1) else real_depth
      | _ \<Rightarrow> real_depth)"
  by pat_completeness auto
termination
  by (relation "measure (\<lambda>(n, _). tsize n)") auto

record score_state =
  grouped :: int
  max_group :: int
  depth_sum :: int

function score_loop :: "int \<Rightarrow> (tnode \<times> int) list \<Rightarrow> score_state \<Rightarrow> score_state" where
  "score_loop m [] s = s"
| "score_loop m ((node, depth) # stack) s =
     (if m \<le> depth \<and> 2 \<le> node_count node
      then score_loop m stack
             \<lparr>grouped = grouped s + node_count node,
              max_group = (if max_group s < node_count node then node_count node else max_group s),
              depth_sum = depth_sum s + chain_depth node depth * node_count node\<rparr>
      else score_loop m (rev (map (\<lambda>x. (snd x, depth + 1)) (children node)) @ stack) s)"
  by pat_completeness auto
termination
  by (relation "measure (\<lambda>(_, stack, _). stack_size fst stack)")
    (auto simp: tsize_children)

definition sharing_score :: "int \<Rightarrow> prefix_trie \<Rightarrow> pyfloat \<times> int \<times> pyfloat" where
  "sharing_score min_depth T =
     (if num_prompts T = 0 then (0, 0, 0)
      else let s = score_loop min_depth [(root T, 0)] \<lparr>grouped = 0, max_group = 0, depth_sum = 0\<rparr> in
        (int_div (grouped s) (num_prompts T), max_group s,
         if 0 < grouped s then int_div (depth_sum s) (grouped s) else 0))"

section \<open>Contents of a trie\<close>

lemma tsize_child_less [termination_simp]: "x \<in> set ch \<Longrightarrow> tsize (snd x) < Suc (stack_size snd ch)"
proof (induction ch)
  case (Cons y ch)
  then show ?case by (auto simp: stack_size_def)
qed simp

lemma tsize_TNode: "tsize (TNode ch ps c) = Suc (stack_size snd ch)"
  by (simp add: stack_size_def)

declare tsize.simps [simp del] tsize_TNode [simp]

text \<open>
  The reference traversal: the entries (path, prompt index) below a node, in depth-first order.
  With \<open>count_aware\<close> unset, children come in dictionary order.
\<close>

function dfs_entries :: "bool \<Rightarrow> tnode \<Rightarrow> (int list \<times> int) list" where
  "dfs_entries ca (TNode ch ps c) =
     map (Pair []) ps @
     concat (map (\<lambda>x. map (\<lambda>e. (fst x # fst e, snd e)) (dfs_entries ca (snd x)))
       (rev (push_order ca ch)))"
  by pat_completeness auto
termination
  by (relation "measure (\<lambda>(_, n). tsize n)") (auto dest: tsize_child_less)

abbreviation entries :: "tnode \<Rightarrow> (int list \<times> int) list" where
  "entries \<equiv> dfs_entries False"

definition below :: "(int \<times> tnode) \<Rightarrow> (int list \<times> int) list" where
  "below x = map (\<lambda>e. (fst x # fst e, snd e)) (entries (snd x))"

lemma entries_TNode: "entries (TNode ch ps c) = map (Pair []) ps @ concat (map below ch)"
  by (simp add: push_order_def below_def [abs_def])

declare dfs_entries.simps [simp del]

lemma mset_dfs_entries: "mset (dfs_entries ca n) = mset (entries n)"
proof (induction n rule: measure_induct_rule [of tsize])
  case (less n)
  obtain ch ps c where n: "n = TNode ch ps c" by (cases n)
  have IH: "mset (dfs_entries ca (snd x)) = mset (entries (snd x))" if "x \<in> set ch" for x
    using less.IH [of "snd x"] tsize_child_less [OF that] n by simp
  let ?f = "\<lambda>b x. map (\<lambda>e. (fst x # fst e, snd e)) (dfs_entries b (snd x))"
  have "mset (concat (map (?f ca) (rev (push_order ca ch)))) = mset (concat (map (?f ca) ch))"
    by (rule mset_concat_perm) simp
  also have "\<dots> = mset (concat (map (?f False) ch))"
    using IH by (induction ch) auto
  finally show ?case
    unfolding n by (simp add: dfs_entries.simps push_order_def)
qed

lemma entries_bump [simp]: "entries (bump z n) = entries n"
  by (cases n) (simp add: entries_TNode)

lemma children_bump [simp]: "children (bump z n) = children n"
  and prompt_indices_bump [simp]: "prompt_indices (bump z n) = prompt_indices n"
  and node_count_bump [simp]: "node_count (bump z n) = node_count n + z"
  by (cases n; simp)+

lemma entries_new_node [simp]: "entries new_node = []"
  by (simp add: new_node_def entries_TNode)

lemma node_count_new_node [simp]: "node_count new_node = 0"
  by (simp add: new_node_def)

text \<open>
  Well-formed nodes: dictionaries have distinct keys, every child's count is the number of
  entries below it, and no child is empty.
\<close>

function wf_node :: "tnode \<Rightarrow> bool" where
  "wf_node (TNode ch ps c) \<longleftrightarrow> wf_dict ch \<and>
     (\<forall>x \<in> set ch. wf_node (snd x) \<and> node_count (snd x) = int (length (entries (snd x)))
        \<and> entries (snd x) \<noteq> [])"
  by pat_completeness auto
termination
  by (relation "measure tsize") (auto dest: tsize_child_less)

definition ok_child :: "tnode \<Rightarrow> bool" where
  "ok_child n \<longleftrightarrow> wf_node n \<and> node_count n = int (length (entries n)) \<and> entries n \<noteq> []"

lemma wf_node_iff: "wf_node (TNode ch ps c) \<longleftrightarrow> wf_dict ch \<and> (\<forall>x \<in> set ch. ok_child (snd x))"
  by (simp add: ok_child_def)

declare wf_node.simps [simp del]

definition wf_trie :: "prefix_trie \<Rightarrow> bool" where
  "wf_trie T \<longleftrightarrow> wf_node (root T) \<and> node_count (root T) = 0
     \<and> num_prompts T = int (length (entries (root T)))"

definition contents :: "prefix_trie \<Rightarrow> (int list \<times> int) multiset" where
  "contents T = mset (entries (root T))"

lemma wf_node_bump [simp]: "wf_node (bump z n) = wf_node n"
  by (cases n) (simp add: wf_node_iff)

lemma wf_new_node [simp]: "wf_node new_node"
  by (simp add: new_node_def wf_node_iff)

lemma below_prefix: "e \<in> set (below (t, n)) \<longleftrightarrow> (\<exists>p. fst e = t # p \<and> (p, snd e) \<in> set (entries n))"
  by (cases e) (force simp: below_def)

lemma mset_below: "mset (below (t, n)) = image_mset (\<lambda>e. (t # fst e, snd e)) (mset (entries n))"
  by (simp add: below_def)

lemma length_below [simp]: "length (below x) = length (entries (snd x))"
  by (simp add: below_def)

text \<open>Updating one child changes the contents below that child only.\<close>

lemma mset_concat_below_dset:
  assumes "wf_dict ch"
  shows "mset (concat (map below (dset t n ch))) + mset (below (t, dget_or ch t new_node)) =
         mset (concat (map below ch)) + mset (below (t, n))"
proof (cases "dget ch t")
  case None
  then have "t \<notin> fst ` set ch" by (simp add: dget_None_iff)
  then show ?thesis using None by (simp add: dset_append dget_or_def below_def)
next
  case (Some m)
  with assms obtain d1 d2 where "ch = d1 @ (t, m) # d2" "\<And>w. dset t w ch = d1 @ (t, w) # d2"
    using dset_split by metis
  with Some show ?thesis by (simp add: dget_or_def)
qed

lemma mset_concat_below_ddel:
  assumes "wf_dict ch" and "dget ch t = Some m"
  shows "mset (concat (map below (ddel t ch))) + mset (below (t, m)) = mset (concat (map below ch))"
proof -
  from assms obtain d1 d2 where "ch = d1 @ (t, m) # d2" "ddel t ch = d1 @ d2"
    using dset_split by metis
  then show ?thesis by simp
qed

lemma ok_child_dget: "wf_node (TNode ch ps c) \<Longrightarrow> dget ch t = Some n \<Longrightarrow> ok_child n"
  by (fastforce simp: wf_node_iff dest: map_of_SomeD)

lemma wf_node_dset:
  "wf_node (TNode ch ps c) \<Longrightarrow> ok_child n \<Longrightarrow> wf_node (TNode (dset t n ch) ps' c')"
  by (auto simp: wf_node_iff dest!: subsetD [OF set_dset_subset])

section \<open>Insertion and removal against the contents\<close>

lemma entries_insert:
  "wf_node n \<Longrightarrow> mset (entries (tn_insert ts idx n)) = add_mset (ts, idx) (mset (entries n))"
proof (induction ts idx n rule: tn_insert.induct)
  case (1 idx ch ps c)
  then show ?case by (simp add: entries_TNode)
next
  case (2 t ts idx ch ps c)
  let ?old = "dget_or ch t new_node"
  have old: "wf_node ?old"
    using ok_child_dget [OF "2.prems"] by (auto simp: dget_or_def ok_child_def split: option.split)
  let ?new = "tn_insert ts idx (bump 1 ?old)"
  have new: "mset (below (t, ?new)) = add_mset (t # ts, idx) (mset (below (t, ?old)))"
    using "2.IH" old by (simp add: mset_below)
  have "wf_dict ch" using "2.prems" by (simp add: wf_node_iff)
  from mset_concat_below_dset [OF this, of t ?new] new
  have "mset (concat (map below (dset t ?new ch))) = add_mset (t # ts, idx) (mset (concat (map below ch)))"
    by simp
  then show ?case by (simp add: entries_TNode)
qed

lemma node_count_insert [simp]: "node_count (tn_insert ts idx n) = node_count n"
  by (cases ts; cases n) auto

lemma wf_node_insert: "wf_node n \<Longrightarrow> wf_node (tn_insert ts idx n)"
proof (induction ts idx n rule: tn_insert.induct)
  case (1 idx ch ps c)
  then show ?case by (simp add: wf_node_iff)
next
  case (2 t ts idx ch ps c)
  let ?old = "dget_or ch t new_node"
  let ?new = "tn_insert ts idx (bump 1 ?old)"
  have old: "wf_node ?old \<and> node_count ?old = int (length (entries ?old))"
    using ok_child_dget [OF "2.prems"] by (auto simp: dget_or_def ok_child_def split: option.split)
  then have len: "length (entries ?new) = Suc (length (entries ?old))"
    using entries_insert [of "bump 1 ?old" ts idx] by (metis entries_bump size_add_mset size_mset wf_node_bump)
  then have "ok_child ?new" using old "2.IH" by (auto simp: ok_child_def)
  with "2.prems" show ?case by (auto intro: wf_node_dset)
qed

lemma wf_trie_init: "wf_trie (trie_init d)"
  by (simp add: wf_trie_def trie_init_def)

lemma contents_init [simp]: "contents (trie_init d) = {#}"
  by (simp add: contents_def trie_init_def)

lemma max_depth_init [simp]: "max_depth (trie_init d) = d"
  by (simp add: trie_init_def)

lemma walk_tokens_insert [simp]: "walk_tokens (trie_insert s i T) = walk_tokens T"
  by (auto simp: walk_tokens_def trie_insert_def)

lemma walk_tokens_eq: "walk_tokens T toks = take (nat (max_depth T)) toks"
  by (simp add: walk_tokens_def take_nat_min)

lemma contents_insert:
  "wf_trie T \<Longrightarrow> contents (trie_insert toks idx T) = add_mset (walk_tokens T toks, idx) (contents T)"
  by (simp add: contents_def trie_insert_def entries_insert wf_trie_def)

lemma size_contents: "size (contents T) = length (entries (root T))"
  by (simp add: contents_def)

lemma wf_trie_insert:
  assumes "wf_trie T"
  shows "wf_trie (trie_insert toks idx T)"
proof -
  have "length (entries (root (trie_insert toks idx T))) = Suc (length (entries (root T)))"
    using contents_insert [OF assms, of toks idx] by (metis size_add_mset size_contents)
  with assms show ?thesis by (simp add: wf_trie_def trie_insert_def wf_node_insert)
qed

text \<open>Removal: the entry is found exactly when it is there; the counts and the pruning keep the
  node well-formed.\<close>

lemma wf_node_empty:
  "wf_node n \<Longrightarrow> entries n = [] \<longleftrightarrow> children n = [] \<and> prompt_indices n = []"
proof (cases n)
  case (TNode ch ps c)
  assume "wf_node n"
  then have "\<forall>x \<in> set ch. below x \<noteq> []" by (auto simp: TNode wf_node_iff ok_child_def below_def)
  then have "concat (map below ch) = [] \<longleftrightarrow> ch = []" by (cases ch) auto
  then show ?thesis by (auto simp: TNode entries_TNode simp del: concat_eq_Nil_conv)
qed

lemma tn_remove_flag: "tn_remove ts idx n = Some (n', False) \<Longrightarrow> children n' \<noteq> []"
  by (cases ts; cases n) (auto split: if_splits option.splits prod.splits simp: Let_def)

lemma tn_remove_count: "tn_remove ts idx n = Some (n', b) \<Longrightarrow> node_count n' = node_count n"
  by (cases ts; cases n) (auto split: if_splits option.splits prod.splits simp: Let_def)

lemma tn_remove_Some:
  "tn_remove ts idx n = Some (n', b) \<Longrightarrow> wf_node n \<Longrightarrow>
     wf_node n' \<and> mset (entries n) = add_mset (ts, idx) (mset (entries n'))"
proof (induction ts idx n arbitrary: n' b rule: tn_remove.induct)
  case (1 idx ch ps c)
  then have "idx \<in> set ps" and n': "n' = TNode ch (remove1 idx ps) c" by (auto split: if_splits)
  then have "mset ps = add_mset idx (mset (remove1 idx ps))" by simp
  then have "image_mset (Pair []) (mset ps) = add_mset ([], idx) (image_mset (Pair []) (mset (remove1 idx ps)))"
    by (metis image_mset_add_mset)
  with "1.prems" show ?case unfolding n' by (simp add: entries_TNode wf_node_iff)
next
  case (2 t ts idx ch ps c)
  from "2.prems" obtain m m' p where m: "dget ch t = Some m" and m': "tn_remove ts idx m = Some (m', p)"
    by (auto split: option.splits)
  from ok_child_dget [OF "2.prems"(2) m] have okm: "ok_child m" .
  with "2.IH" [OF m m'] have w': "wf_node m'"
    and e': "mset (entries m) = add_mset (ts, idx) (mset (entries m'))"
    by (auto simp: ok_child_def)
  have cnt: "node_count (bump (- 1) m') = int (length (entries m'))"
    using okm e' tn_remove_count [OF m'] by (auto simp: ok_child_def dest: arg_cong [of _ _ size])
  have bel: "mset (below (t, m)) = add_mset (t # ts, idx) (mset (below (t, bump (- 1) m')))"
    by (simp add: mset_below e')
  have wd: "wf_dict ch" using "2.prems"(2) by (simp add: wf_node_iff)
  show ?case
  proof (cases "p \<and> prunable (bump (- 1) m')")
    case True
    then have n': "n' = TNode (ddel t ch) ps c" and "entries m' = []"
      using "2.prems"(1) m m' w' by (auto simp: prunable_def wf_node_empty)
    then have "mset (concat (map below ch)) = add_mset (t # ts, idx) (mset (concat (map below (ddel t ch))))"
      using mset_concat_below_ddel [OF wd m] bel by (simp add: mset_below)
    then show ?thesis using "2.prems"(2) set_ddel_subset unfolding n'
      by (fastforce simp: entries_TNode wf_node_iff)
  next
    case False
    have ne: "entries m' \<noteq> []"
    proof
      assume "entries m' = []"
      with w' cnt have "prunable (bump (- 1) m')" and "children m' = []"
        by (simp_all add: prunable_def wf_node_empty)
      with False m' tn_remove_flag show False by (cases p) auto
    qed
    from False have n': "n' = TNode (dset t (bump (- 1) m') ch) ps c"
      using "2.prems"(1) m m' by (auto simp: Let_def split: if_splits)
    have "ok_child (bump (- 1) m')" using w' cnt ne by (simp add: ok_child_def)
    then have "wf_node n'" unfolding n' using "2.prems"(2) by (rule wf_node_dset [rotated])
    moreover have "mset (concat (map below ch)) =
        add_mset (t # ts, idx) (mset (concat (map below (dset t (bump (- 1) m') ch))))"
      using mset_concat_below_dset [OF wd, of t "bump (- 1) m'"] bel m by (simp add: dget_or_def)
    ultimately show ?thesis unfolding n' by (simp add: entries_TNode)
  qed
qed

lemma entries_mem_TNode:
  "wf_dict ch \<Longrightarrow> (t # ts, idx) \<in> set (entries (TNode ch ps c)) \<longleftrightarrow>
     (\<exists>m. dget ch t = Some m \<and> (ts, idx) \<in> set (entries m))"
proof -
  assume wd: "wf_dict ch"
  have "(t # ts, idx) \<in> set (entries (TNode ch ps c)) \<longleftrightarrow> (\<exists>x \<in> set ch. (t # ts, idx) \<in> set (below x))"
    by (auto simp: entries_TNode)
  also have "\<dots> \<longleftrightarrow> (\<exists>m. (t, m) \<in> set ch \<and> (ts, idx) \<in> set (entries m))"
    by (force simp: below_prefix)
  finally show ?thesis by (simp add: dget_Some_iff_mem [OF wd])
qed

lemma tn_remove_None:
  "wf_node n \<Longrightarrow> tn_remove ts idx n = None \<longleftrightarrow> (ts, idx) \<notin> set (entries n)"
proof (induction ts idx n rule: tn_remove.induct)
  case (1 idx ch ps c)
  have "([], idx) \<notin> set (concat (map below ch))" by (auto simp: below_def)
  then show ?case by (auto simp: entries_TNode)
next
  case (2 t ts idx ch ps c)
  have wd: "wf_dict ch" using "2.prems" by (simp add: wf_node_iff)
  show ?case
  proof (cases "dget ch t")
    case None
    then show ?thesis by (simp add: entries_mem_TNode [OF wd])
  next
    case (Some m)
    then have "wf_node m" using ok_child_dget [OF "2.prems"] by (simp add: ok_child_def)
    with "2.IH" [OF Some] Some show ?thesis
      by (auto simp: entries_mem_TNode [OF wd] Let_def split: option.splits)
  qed
qed

lemma trie_remove_found:
  assumes "wf_trie T"
  shows "snd (trie_remove toks idx T) \<longleftrightarrow> (walk_tokens T toks, idx) \<in># contents T"
  using assms tn_remove_None [of "root T" "walk_tokens T toks" idx]
  by (auto simp: trie_remove_def contents_def wf_trie_def split: option.split)

lemma contents_remove:
  assumes "wf_trie T"
  shows "contents (fst (trie_remove toks idx T)) = contents T - {# (walk_tokens T toks, idx) #}"
proof (cases "tn_remove (walk_tokens T toks) idx (root T)")
  case None
  then have "(walk_tokens T toks, idx) \<notin># contents T"
    using assms tn_remove_None by (simp add: contents_def wf_trie_def)
  then show ?thesis using None by (simp add: trie_remove_def diff_single_trivial)
next
  case (Some r)
  then obtain n b where "tn_remove (walk_tokens T toks) idx (root T) = Some (n, b)" by (cases r) auto
  with tn_remove_Some [OF this] assms show ?thesis
    by (simp add: trie_remove_def contents_def wf_trie_def)
qed

lemma wf_trie_remove:
  assumes "wf_trie T"
  shows "wf_trie (fst (trie_remove toks idx T))"
proof (cases "tn_remove (walk_tokens T toks) idx (root T)")
  case None
  then show ?thesis using assms by (simp add: trie_remove_def)
next
  case (Some r)
  then obtain n b where r: "tn_remove (walk_tokens T toks) idx (root T) = Some (n, b)" by (cases r) auto
  from tn_remove_Some [OF r] assms
  have "wf_node n" and "mset (entries (root T)) = add_mset (walk_tokens T toks, idx) (mset (entries n))"
    by (simp_all add: wf_trie_def)
  moreover from this(2) have "length (entries (root T)) = Suc (length (entries n))"
    by (metis size_add_mset size_mset)
  ultimately show ?thesis using assms tn_remove_count [OF r] r by (simp add: trie_remove_def wf_trie_def)
qed

text \<open>Inserting a prompt and removing it restores the very same trie, dictionary order included.\<close>

lemma bump_bump [simp]: "bump z (bump y n) = bump (y + z) n"
  by (cases n) simp

lemma bump_0 [simp]: "bump 0 n = n"
  by (cases n) simp

lemma tn_insert_bump: "tn_insert ts idx (bump z n) = bump z (tn_insert ts idx n)"
  by (cases ts; cases n) simp_all

lemma tn_remove_bump:
  "tn_remove ts idx (bump z n) = map_option (\<lambda>(m, b). (bump z m, b)) (tn_remove ts idx n)"
  by (cases ts; cases n) (auto simp: Let_def split: option.splits)

lemma not_prunable_ok: "ok_child n \<Longrightarrow> \<not> prunable n"
  by (cases n) (auto simp: ok_child_def prunable_def)

lemma tn_remove_insert:
  "wf_node n \<Longrightarrow> (ts, idx) \<notin> set (entries n) \<Longrightarrow> \<exists>b. tn_remove ts idx (tn_insert ts idx n) = Some (n, b)
     \<and> (children n = [] \<longrightarrow> b)"
proof (induction ts idx n rule: tn_insert.induct)
  case (1 idx ch ps c)
  have "idx \<notin> set ps" using "1.prems"(2) by (auto simp: entries_TNode)
  then show ?case by (auto simp: remove1_append)
next
  case (2 t ts idx ch ps c)
  let ?old = "dget_or ch t new_node"
  have wd: "wf_dict ch" using "2.prems"(1) by (simp add: wf_node_iff)
  have old: "wf_node ?old"
    using ok_child_dget [OF "2.prems"(1)] by (auto simp: dget_or_def ok_child_def split: option.split)
  have "(ts, idx) \<notin> set (entries ?old)"
    using "2.prems"(2) by (auto simp: entries_mem_TNode [OF wd] dget_or_def split: option.splits)
  then obtain b where b: "tn_remove ts idx (tn_insert ts idx (bump 1 ?old)) = Some (bump 1 ?old, b)"
    and fresh: "children ?old = [] \<Longrightarrow> b"
    using "2.IH" old by auto
  show ?case
  proof (cases "dget ch t")
    case None
    then have "?old = new_node" and t: "t \<notin> fst ` set ch" by (simp add: dget_or_def) (simp add: dget_None_iff [symmetric] None)
    with b fresh have "tn_remove (t # ts) idx (tn_insert (t # ts) idx (TNode ch ps c)) = Some (TNode ch ps c, True)"
      using t None by (simp add: dset_append ddel_append_fresh prunable_def new_node_def map_add_def)
    then show ?thesis by blast
  next
    case (Some m)
    then have "ok_child m" using ok_child_dget [OF "2.prems"(1)] by simp
    moreover have "?old = m" using Some by (simp add: dget_or_def)
    ultimately have "tn_remove (t # ts) idx (tn_insert (t # ts) idx (TNode ch ps c)) = Some (TNode (dset t m ch) ps c, False)"
      using b by (simp add: dget_dset not_prunable_ok)
    moreover have "dset t m ch = ch" using Some by (simp add: update_triv)
    moreover have "ch \<noteq> []" using Some by auto
    ultimately show ?thesis by auto
  qed
qed

lemma trie_remove_insert_id:
  assumes "wf_trie T" and "(walk_tokens T toks, idx) \<notin># contents T"
  shows "trie_remove toks idx (trie_insert toks idx T) = (T, True)"
proof -
  have "walk_tokens (trie_insert toks idx T) toks = walk_tokens T toks" by simp
  moreover obtain b where "tn_remove (walk_tokens T toks) idx (tn_insert (walk_tokens T toks) idx (root T)) = Some (root T, b)"
    using tn_remove_insert assms unfolding wf_trie_def contents_def by fastforce
  ultimately show ?thesis by (simp add: trie_remove_def trie_insert_def)
qed

section \<open>The stack loops are depth-first traversals\<close>

lemma dfs_entries_node:
  "dfs_entries ca n = map (Pair []) (prompt_indices n) @
     concat (map (\<lambda>x. map (\<lambda>e. (fst x # fst e, snd e)) (dfs_entries ca (snd x)))
       (rev (push_order ca (children n))))"
  by (cases n) (simp add: dfs_entries.simps)

lemma dfs_loop_eq:
  "dfs_loop ca stack order = order @ concat (map (\<lambda>n. map snd (dfs_entries ca n)) stack)"
proof (induction ca stack order rule: dfs_loop.induct)
  case (2 ca n stack order)
  have "map snd (dfs_entries ca n) =
    prompt_indices n @ concat (map (\<lambda>n. map snd (dfs_entries ca n)) (rev (map snd (push_order ca (children n)))))"
    by (subst dfs_entries_node) (simp add: map_concat comp_def rev_map)
  then show ?case using 2 by simp
qed simp

lemma dfs_order_eq: "dfs_order ca T = map snd (dfs_entries ca (root T))"
  by (simp add: dfs_order_def dfs_loop_eq)

lemma mset_dfs_order: "mset (dfs_order ca T) = image_mset snd (contents T)"
  by (simp add: dfs_order_eq contents_def mset_dfs_entries [of ca])

text \<open>The keys of the groups, as a recursion.\<close>

function dfs_keys :: "bool \<Rightarrow> tnode \<Rightarrow> int list list" where
  "dfs_keys ca (TNode ch ps c) = (if ps \<noteq> [] then [[]] else []) @
     concat (map (\<lambda>x. map ((#) (fst x)) (dfs_keys ca (snd x))) (rev (push_order ca ch)))"
  by pat_completeness auto
termination
  by (relation "measure (\<lambda>(_, n). tsize n)") (auto dest: tsize_child_less)

declare dfs_keys.simps [simp del]

lemma dfs_keys_node:
  "dfs_keys ca n = (if prompt_indices n \<noteq> [] then [[]] else []) @
     concat (map (\<lambda>x. map ((#) (fst x)) (dfs_keys ca (snd x))) (rev (push_order ca (children n))))"
  by (cases n) (simp add: dfs_keys.simps)

lemma append_snoc_fun: "(@) (xs @ [x]) = (\<lambda>ys. xs @ x # ys)"
  by (rule ext) simp

lemma group_keys_loop_eq:
  "group_keys_loop ca stack keys = keys @ concat (map (\<lambda>x. map ((@) (snd x)) (dfs_keys ca (fst x))) stack)"
proof (induction ca stack keys rule: group_keys_loop.induct)
  case (2 ca node path stack keys)
  have "map ((@) path) (dfs_keys ca node) = (if prompt_indices node \<noteq> [] then [path] else []) @
      concat (map (\<lambda>x. map ((@) (snd x)) (dfs_keys ca (fst x)))
        (rev (map (\<lambda>(token, child). (child, path @ [token])) (push_order ca (children node)))))"
    unfolding dfs_keys_node [of ca node] by (simp add: map_concat comp_def rev_map case_prod_beta append_snoc_fun)
  then show ?case using 2 by simp
qed simp

lemma dfs_group_keys_eq: "dfs_group_keys ca T = dfs_keys ca (root T)"
  by (simp add: dfs_group_keys_def group_keys_loop_eq map_idI)

lemma wf_children: "wf_node n \<Longrightarrow> x \<in> set (children n) \<Longrightarrow> ok_child (snd x)"
  by (cases n) (auto simp: wf_node_iff)

lemma wf_dict_children: "wf_node n \<Longrightarrow> wf_dict (children n)"
  by (cases n) (auto simp: wf_node_iff)

lemma distinct_push_order: "wf_dict ch \<Longrightarrow> distinct (map fst (rev (push_order ca ch)))"
proof -
  assume "wf_dict ch"
  then have d: "distinct (map fst ch)" by (simp add: wf_dict_def)
  have "mset (map fst (rev (push_order ca ch))) = mset (map fst ch)" by simp
  with d show ?thesis using mset_eq_imp_distinct_iff by blast
qed

lemma set_entries_node:
  "set (entries n) = Pair [] ` set (prompt_indices n) \<union> (\<Union>x \<in> set (children n). set (below x))"
  by (cases n) (auto simp: entries_TNode)

lemma set_dfs_keys: "wf_node n \<Longrightarrow> set (dfs_keys ca n) = fst ` set (entries n)"
proof (induction n rule: measure_induct_rule [of tsize])
  case (less n)
  have IH: "set (dfs_keys ca (snd x)) = fst ` set (entries (snd x))" if "x \<in> set (children n)" for x
    using less.IH [of "snd x"] that tsize_child_less [OF that] wf_children [OF less.prems that]
    by (auto simp: ok_child_def tsize_children)
  have "set (dfs_keys ca n) = (if prompt_indices n \<noteq> [] then {[]} else {}) \<union>
      (\<Union>x \<in> set (children n). (#) (fst x) ` set (dfs_keys ca (snd x)))"
    by (subst dfs_keys_node) simp
  also have "(\<Union>x \<in> set (children n). (#) (fst x) ` set (dfs_keys ca (snd x))) =
      (\<Union>x \<in> set (children n). fst ` set (below x))"
    using IH by (simp add: below_def image_image)
  finally show ?case unfolding set_entries_node by (simp add: image_Un image_image image_UN image_constant_conv)
qed

lemma distinct_concat_tagged:
  assumes "distinct (map fst xs)" and "\<And>x. x \<in> set xs \<Longrightarrow> distinct (f (snd x))"
  shows "distinct (concat (map (\<lambda>x. map ((#) (fst x)) (f (snd x))) xs))"
  using assms
proof (induction xs)
  case (Cons x xs)
  then show ?case by (auto simp: distinct_map inj_on_def)
qed simp

lemma distinct_dfs_keys: "wf_node n \<Longrightarrow> distinct (dfs_keys ca n)"
proof (induction n rule: measure_induct_rule [of tsize])
  case (less n)
  have "distinct (dfs_keys ca (snd x))" if "x \<in> set (children n)" for x
    using less.IH [of "snd x"] that tsize_child_less [OF that] wf_children [OF less.prems that]
    by (auto simp: ok_child_def tsize_children)
  then have "distinct (concat (map (\<lambda>x. map ((#) (fst x)) (dfs_keys ca (snd x))) (rev (push_order ca (children n)))))"
    using distinct_push_order [OF wf_dict_children [OF less.prems]]
    by (intro distinct_concat_tagged) auto
  then show ?case by (subst dfs_keys_node) auto
qed

text \<open>Prompts with a common prefix are adjacent in every traversal.\<close>

lemma dfs_entries_contiguous:
  "wf_node n \<Longrightarrow> \<exists>pre mid post. dfs_entries ca n = pre @ mid @ post \<and>
     (\<forall>e \<in> set mid. prefix p (fst e)) \<and> (\<forall>e \<in> set pre \<union> set post. \<not> prefix p (fst e))"
proof (induction p arbitrary: n)
  case Nil
  show ?case by (rule exI [of _ "[]"], rule exI [of _ "dfs_entries ca n"], rule exI [of _ "[]"]) simp
next
  case (Cons t p)
  let ?f = "\<lambda>x. map (\<lambda>e. (fst x # fst e, snd e)) (dfs_entries ca (snd x))"
  let ?L = "rev (push_order ca (children n))"
  let ?own = "map (Pair []) (prompt_indices n) :: (int list \<times> int) list"
  have n: "dfs_entries ca n = ?own @ concat (map ?f ?L)" by (rule dfs_entries_node)
  have own: "\<forall>e \<in> set ?own. \<not> prefix (t # p) (fst e)" by auto
  have dist: "distinct (map fst ?L)"
    using distinct_push_order [OF wf_dict_children [OF Cons.prems]] .
  have other: "\<not> prefix (t # p) (fst e)" if "e \<in> set (?f x)" "fst x \<noteq> t" for e x
    using that by auto
  show ?case
  proof (cases "t \<in> fst ` set ?L")
    case False
    then have "\<forall>x \<in> set ?L. fst x \<noteq> t" by (metis image_eqI)
    then have "\<not> prefix (t # p) (fst e)" if "e \<in> set (concat (map ?f ?L))" for e
      using that other by fastforce
    with own have "\<forall>e \<in> set (dfs_entries ca n). \<not> prefix (t # p) (fst e)"
      unfolding n set_append by blast
    then show ?thesis by (intro exI [of _ "dfs_entries ca n"] exI [of _ "[]"]) (simp del: prefix_Cons)
  next
    case True
    then obtain m where "(t, m) \<in> set ?L" by auto
    then obtain L1 L2 where L: "?L = L1 @ (t, m) # L2" by (meson split_list)
    with dist have L12: "\<forall>x \<in> set L1 \<union> set L2. fst x \<noteq> t" by force
    have "(t, m) \<in> set (children n)" using L by (metis in_set_conv_decomp set_push_order set_rev)
    then have "wf_node m" using wf_children [OF Cons.prems] by (force simp: ok_child_def)
    from Cons.IH [OF this] obtain a b c where m: "dfs_entries ca m = a @ b @ c"
      and b: "\<forall>e \<in> set b. prefix p (fst e)" and ac: "\<forall>e \<in> set a \<union> set c. \<not> prefix p (fst e)" by blast
    let ?g = "map (\<lambda>e. (t # fst e, snd e))"
    let ?pre = "?own @ concat (map ?f L1) @ ?g a" and ?post = "?g c @ concat (map ?f L2)"
    have eq: "dfs_entries ca n = ?pre @ ?g b @ ?post"
      unfolding n L using m by simp
    have "\<forall>e \<in> set (?g b). prefix (t # p) (fst e)" using b by auto
    moreover have "\<forall>e \<in> set ?pre \<union> set ?post. \<not> prefix (t # p) (fst e)"
    proof -
      have "\<not> prefix (t # p) (fst e)" if "e \<in> set (concat (map ?f L))" "\<forall>x \<in> set L. fst x \<noteq> t" for e L
        using that other by fastforce
      then have "\<forall>e \<in> set (concat (map ?f L1)) \<union> set (concat (map ?f L2)). \<not> prefix (t # p) (fst e)"
        using L12 by blast
      moreover have "\<forall>e \<in> set (?g a) \<union> set (?g c). \<not> prefix (t # p) (fst e)" using ac by (simp add: ball_Un)
      ultimately show ?thesis using own unfolding set_append by blast
    qed
    ultimately show ?thesis using eq by blast
  qed
qed

section \<open>Groups\<close>

lemma mset_all_loop:
  "mset (all_loop stack result) = mset result + mset (concat (map (\<lambda>n. map snd (entries n)) stack))"
proof (induction stack result rule: all_loop.induct)
  case (2 n stack result)
  have n: "mset (map snd (entries n)) = mset (prompt_indices n) +
      mset (concat (map (\<lambda>n. map snd (entries n)) (map snd (children n))))"
    by (cases n) (simp add: entries_TNode map_concat comp_def below_def [abs_def])
  have "mset (concat (map (\<lambda>n. map snd (entries n)) (rev (map snd (children n))))) =
      mset (concat (map (\<lambda>n. map snd (entries n)) (map snd (children n))))"
    by (rule mset_concat_perm) (simp add: multiset.map_comp)
  with n 2 show ?case by simp
qed simp

lemma mset_all_indices: "mset (all_indices n) = image_mset snd (mset (entries n))"
proof -
  have "all_indices n = all_loop [n] []" by (simp add: all_indices_def)
  then have "mset (all_indices n) = mset (concat (map (\<lambda>n. map snd (entries n)) [n]))"
    by (simp only: mset_all_loop) simp
  then show ?thesis by simp
qed

lemma length_all_indices: "length (all_indices n) = length (entries n)"
  using mset_all_indices [of n] by (metis size_image_mset size_mset)

text \<open>Groups as a recursion: the path from the node to each group and the group's indices.\<close>

function groups_ref :: "int \<Rightarrow> int \<Rightarrow> tnode \<Rightarrow> (int list \<times> int list) list" where
  "groups_ref m d (TNode ch ps c) =
     (if m \<le> d \<and> 2 \<le> length (all_indices (TNode ch ps c)) then [([], all_indices (TNode ch ps c))]
      else concat (map (\<lambda>x. map (\<lambda>g. (fst x # fst g, snd g)) (groups_ref m (d + 1) (snd x))) (rev ch)))"
  by pat_completeness auto
termination
  by (relation "measure (\<lambda>(_, _, n). tsize n)") (auto dest: tsize_child_less)

declare groups_ref.simps [simp del]

lemma groups_ref_node:
  "groups_ref m d n =
     (if m \<le> d \<and> 2 \<le> length (all_indices n) then [([], all_indices n)]
      else concat (map (\<lambda>x. map (\<lambda>g. (fst x # fst g, snd g)) (groups_ref m (d + 1) (snd x)))
        (rev (children n))))"
  by (cases n) (simp add: groups_ref.simps)

lemma groups_tok_loop_eq:
  "groups_tok_loop m stack groups = groups @
     concat (map (\<lambda>(n, d, pfx). map (\<lambda>g. (pfx @ fst g, snd g)) (groups_ref m d n)) stack)"
proof (induction m stack groups rule: groups_tok_loop.induct)
  case (2 m n d pfx stack groups)
  show ?case
  proof (cases "m \<le> d \<and> 2 \<le> length (all_indices n)")
    case True
    with 2 show ?thesis by (simp add: groups_ref_node [of m d n])
  next
    case False
    have "map (\<lambda>g. (pfx @ fst g, snd g)) (groups_ref m d n) =
      concat (map (\<lambda>(n, d, pfx). map (\<lambda>g. (pfx @ fst g, snd g)) (groups_ref m d n))
        (rev (map (\<lambda>(token, child). (child, d + 1, pfx @ [token])) (children n))))"
      unfolding groups_ref_node [of m d n] if_not_P [OF False]
      by (simp add: map_concat comp_def rev_map case_prod_beta)
    with 2(2) [OF False] False show ?thesis by (simp only: groups_tok_loop.simps collect_groups.simps if_False list.map concat.simps concat_append map_append append_assoc split_conv)
  qed
qed simp

lemma prefix_groups_with_tokens_eq: "prefix_groups_with_tokens m T = groups_ref m 0 (root T)"
  by (simp add: prefix_groups_with_tokens_def groups_tok_loop_eq)

lemma collect_groups_eq:
  "collect_groups m stack groups = groups @ concat (map (\<lambda>(n, d). map snd (groups_ref m d n)) stack)"
proof (induction m stack groups rule: collect_groups.induct)
  case (2 m n d stack groups)
  show ?case
  proof (cases "m \<le> d \<and> 2 \<le> length (all_indices n)")
    case True
    with 2 show ?thesis by (simp add: groups_ref_node [of m d n])
  next
    case False
    have "map snd (groups_ref m d n) =
      concat (map (\<lambda>(n, d). map snd (groups_ref m d n)) (rev (map (\<lambda>x. (snd x, d + 1)) (children n))))"
      unfolding groups_ref_node [of m d n] if_not_P [OF False]
      by (simp add: map_concat comp_def rev_map case_prod_beta)
    with 2(2) [OF False] False show ?thesis by (simp only: groups_tok_loop.simps collect_groups.simps if_False list.map concat.simps concat_append map_append append_assoc split_conv)
  qed
qed simp

text \<open>The entries of a node that extend a path below one of its children.\<close>

definition extending :: "int list \<Rightarrow> tnode \<Rightarrow> (int list \<times> int) multiset" where
  "extending p n = filter_mset (\<lambda>e. prefix p (fst e)) (mset (entries n))"

lemma extending_Nil [simp]: "extending [] n = mset (entries n)"
  by (simp add: extending_def)

lemma filter_below_other: "t \<noteq> fst x \<Longrightarrow> filter (\<lambda>e. prefix (t # p) (fst e)) (below x) = []"
  by (cases x) (auto simp: filter_empty_conv below_prefix)

lemma filter_below_same:
  "mset (filter (\<lambda>e. prefix (t # p) (fst e)) (below (t, n))) = image_mset (\<lambda>e. (t # fst e, snd e)) (extending p n)"
  by (simp add: extending_def below_def filter_map comp_def)

lemma extending_Cons:
  assumes "wf_node n" and "(t, k) \<in> set (children n)"
  shows "extending (t # p) n = image_mset (\<lambda>e. (t # fst e, snd e)) (extending p k)"
proof -
  obtain d1 d2 where ch: "children n = d1 @ (t, k) # d2" using assms(2) by (meson split_list)
  then have ne: "\<forall>x \<in> set d1 \<union> set d2. t \<noteq> fst x"
    using wf_dict_children [OF assms(1)] by (force simp: wf_dict_def)
  have nil: "filter (\<lambda>e. prefix (t # p) (fst e)) (concat (map below d)) = []" if "\<forall>x \<in> set d. t \<noteq> fst x" for d
    using that filter_below_other by (induction d) auto
  have "entries n = map (Pair []) (prompt_indices n) @ concat (map below (children n))"
    by (cases n) (simp add: entries_TNode)
  then have "extending (t # p) n = mset (filter (\<lambda>e. prefix (t # p) (fst e)) (below (t, k)))"
    using ne by (simp add: extending_def ch nil filter_empty_conv flip: mset_filter del: prefix_Cons)
      (auto simp: filter_empty_conv)
  then show ?thesis by (simp only: filter_below_same)
qed

text \<open>Each group is exactly the set of prompts below its prefix, and is as deep as asked for.\<close>

lemma groups_ref_members:
  "wf_node n \<Longrightarrow> (p, ids) \<in> set (groups_ref m d n) \<Longrightarrow>
     m \<le> d + int (length p) \<and> 2 \<le> length ids \<and> mset ids = image_mset snd (extending p n)"
proof (induction p arbitrary: d n)
  case Nil
  then have "m \<le> d \<and> 2 \<le> length (all_indices n) \<and> ids = all_indices n"
    unfolding groups_ref_node [of m d n] by (auto split: if_splits)
  then show ?case by (simp add: mset_all_indices)
next
  case (Cons t p)
  then obtain k where k: "(t, k) \<in> set (children n)" "(p, ids) \<in> set (groups_ref m (d + 1) k)"
    unfolding groups_ref_node [of m d n] by (force split: if_splits)
  then have "wf_node k" using wf_children [OF Cons.prems(1)] by (force simp: ok_child_def)
  from Cons.IH [OF this k(2)] extending_Cons [OF Cons.prems(1) k(1), of p]
  show ?case by (simp add: multiset.map_comp comp_def)
qed

lemma concat_map_concat: "concat (map (\<lambda>x. concat (f x)) xs) = concat (concat (map f xs))"
  by (induction xs) auto

lemma mset_concat_mono:
  "(\<And>x. x \<in> set xs \<Longrightarrow> mset (f x) \<subseteq># image_mset h (mset (g x))) \<Longrightarrow>
     mset (concat (map f xs)) \<subseteq># image_mset h (mset (concat (map g xs)))"
proof (induction xs)
  case (Cons x xs)
  have "mset (f x) \<subseteq># image_mset h (mset (g x))" by (rule Cons.prems) simp
  moreover have "mset (concat (map f xs)) \<subseteq># image_mset h (mset (concat (map g xs)))"
    by (rule Cons.IH) (simp add: Cons.prems)
  ultimately show ?case by (simp add: subset_mset.add_mono)
qed simp

text \<open>The groups are disjoint parts of the contents.\<close>

lemma sum_subset_entries:
  "mset (concat (map snd (groups_ref m d n))) \<subseteq># image_mset snd (mset (entries n))"
proof (induction n arbitrary: d rule: measure_induct_rule [of tsize])
  case (less n)
  show ?case
  proof (cases "m \<le> d \<and> 2 \<le> length (all_indices n)")
    case True
    then show ?thesis by (simp add: groups_ref_node [of m d n] mset_all_indices)
  next
    case False
    have sub: "mset (concat (map snd (groups_ref m (d + 1) (snd x)))) \<subseteq># image_mset snd (mset (below x))"
      if "x \<in> set (children n)" for x
      using less.IH [of "snd x" "d + 1"] that tsize_child_less [OF that]
      by (simp add: tsize_children below_def multiset.map_comp comp_def)
    have "mset (concat (map snd (groups_ref m d n))) =
        mset (concat (map (\<lambda>x. concat (map snd (groups_ref m (d + 1) (snd x)))) (rev (children n))))"
      unfolding groups_ref_node [of m d n] if_not_P [OF False]
      by (simp add: map_concat comp_def concat_map_concat)
    also have "\<dots> = mset (concat (map (\<lambda>x. concat (map snd (groups_ref m (d + 1) (snd x)))) (children n)))"
      by (rule mset_concat_perm) simp
    also have "\<dots> \<subseteq># image_mset snd (mset (concat (map below (children n))))"
      using sub by (rule mset_concat_mono)
    finally show ?thesis
      by (cases n) (auto simp: entries_TNode intro: subset_mset.order_trans)
  qed
qed

text \<open>Whatever is left ungrouped shares no prefix of the minimum length with another prompt.\<close>

lemma ungrouped_single:
  "wf_node n \<Longrightarrow> (q, i) \<in># mset (entries n) \<Longrightarrow>
     (\<forall>(p, ids) \<in> set (groups_ref m d n). \<not> prefix p q) \<Longrightarrow>
     prefix p q \<Longrightarrow> m \<le> d + int (length p) \<Longrightarrow> size (extending p n) = 1"
proof (induction p arbitrary: q d n)
  case Nil
  then have "\<not> 2 \<le> length (all_indices n)"
    unfolding groups_ref_node [of m d n] by (auto split: if_splits)
  then have "length (entries n) < 2" by (simp add: length_all_indices)
  moreover have "0 < length (entries n)" using Nil.prems(2) by auto
  ultimately have "length (entries n) = 1" by linarith
  then show ?case by simp
next
  case (Cons t p)
  then obtain q' where q: "q = t # q'" "prefix p q'" by (cases q) auto
  then obtain k where k: "(t, k) \<in> set (children n)" "(q', i) \<in> set (entries k)"
    using Cons.prems(1,2) by (cases n) (auto simp: entries_mem_TNode wf_node_iff dget_Some_iff_mem)
  then have wk: "wf_node k" using wf_children [OF Cons.prems(1)] by (force simp: ok_child_def)
  have nroot: "\<not> (m \<le> d \<and> 2 \<le> length (all_indices n))"
    using Cons.prems(3) unfolding groups_ref_node [of m d n] by (auto split: if_splits)
  have "\<forall>(p, ids) \<in> set (groups_ref m (d + 1) k). \<not> prefix p q'"
  proof (clarify)
    fix p' ids assume "(p', ids) \<in> set (groups_ref m (d + 1) k)" "prefix p' q'"
    then have "(t # p', ids) \<in> set (groups_ref m d n)" "prefix (t # p') q"
      using k(1) nroot q unfolding groups_ref_node [of m d n] by force+
    then show False using Cons.prems(3) by blast
  qed
  then have "size (extending p k) = 1"
    using Cons.IH [OF wk, of q' "d + 1"] k(2) q Cons.prems(5) by auto
  then show ?case by (simp add: extending_Cons [OF Cons.prems(1) k(1)])
qed

section \<open>Sharing score\<close>

definition countable_node :: "tnode \<Rightarrow> bool" where
  "countable_node n \<longleftrightarrow> wf_node n \<and> 0 \<le> node_count n \<and> node_count n \<le> int (length (entries n))"

lemma countable_child: "wf_node n \<Longrightarrow> x \<in> set (children n) \<Longrightarrow> countable_node (snd x)"
  by (auto simp: countable_node_def ok_child_def dest: wf_children)

definition stack_entries :: "(tnode \<times> int) list \<Rightarrow> int" where
  "stack_entries st = int (sum_list (map (\<lambda>x. length (entries (fst x))) st))"

lemma stack_entries_simps [simp]:
  "stack_entries [] = 0"
  "stack_entries (x # st) = int (length (entries (fst x))) + stack_entries st"
  "stack_entries (st @ st') = stack_entries st + stack_entries st'"
  by (auto simp: stack_entries_def)

lemma stack_entries_children:
  "stack_entries (rev (map (\<lambda>x. (snd x, d)) (children n))) \<le> int (length (entries n))"
proof -
  have "stack_entries (rev (map (\<lambda>x. (snd x, d)) ch)) = int (length (concat (map below ch)))" for ch
    by (induction ch) auto
  moreover have "length (concat (map below (children n))) \<le> length (entries n)"
    by (cases n) (simp add: entries_TNode)
  ultimately show ?thesis by simp
qed

lemma chain_depth_ge: "d \<le> chain_depth n d"
proof (induction n d rule: chain_depth.induct)
  case (1 ch ps c d)
  have "d \<le> chain_depth w (d + 1)" if "ch = [(t, w)]" "ps = []" for t w
    using "1.IH" [of "(t, w)" "[]" t w] that by simp
  then show ?case by (auto split: list.split)
qed

declare chain_depth.simps [simp del]

lemma score_loop_bounds:
  "(\<forall>x \<in> set stack. countable_node (fst x)) \<Longrightarrow>
     0 \<le> max_group s \<Longrightarrow> max_group s \<le> grouped s \<Longrightarrow> m * grouped s \<le> depth_sum s \<Longrightarrow>
     grouped s \<le> grouped (score_loop m stack s)
     \<and> grouped (score_loop m stack s) \<le> grouped s + stack_entries stack
     \<and> max_group s \<le> max_group (score_loop m stack s)
     \<and> max_group (score_loop m stack s) \<le> grouped (score_loop m stack s)
     \<and> m * grouped (score_loop m stack s) \<le> depth_sum (score_loop m stack s)"
proof (induction m stack s rule: score_loop.induct)
  case (1 m s)
  then show ?case by simp
next
  case (2 m node depth stack s)
  have cn: "countable_node node" using "2.prems"(1) by simp
  show ?case
  proof (cases "m \<le> depth \<and> 2 \<le> node_count node")
    case True
    have "m * node_count node \<le> chain_depth node depth * node_count node"
      using True chain_depth_ge [of depth node] by (intro mult_right_mono) auto
    from add_mono [OF "2.prems"(4) this] have sum:
      "m * (grouped s + node_count node) \<le> depth_sum s + chain_depth node depth * node_count node"
      by (simp only: distrib_left)
    have eq: "score_loop m ((node, depth) # stack) s = score_loop m stack
        \<lparr>grouped = grouped s + node_count node,
         max_group = (if max_group s < node_count node then node_count node else max_group s),
         depth_sum = depth_sum s + chain_depth node depth * node_count node\<rparr>" (is "_ = score_loop m stack ?s")
      using True by simp
    have "0 \<le> max_group ?s" "max_group ?s \<le> grouped ?s" using "2.prems" True by auto
    moreover have "m * grouped ?s \<le> depth_sum ?s" using sum by simp
    moreover have "\<forall>x \<in> set stack. countable_node (fst x)" using "2.prems"(1) by simp
    ultimately have "grouped ?s \<le> grouped (score_loop m stack ?s)
      \<and> grouped (score_loop m stack ?s) \<le> grouped ?s + stack_entries stack
      \<and> max_group ?s \<le> max_group (score_loop m stack ?s)
      \<and> max_group (score_loop m stack ?s) \<le> grouped (score_loop m stack ?s)
      \<and> m * grouped (score_loop m stack ?s) \<le> depth_sum (score_loop m stack ?s)"
      using "2.IH"(1) [OF True] by blast
    moreover have "grouped ?s = grouped s + node_count node" "max_group s \<le> max_group ?s" by simp_all
    moreover have "node_count node \<le> int (length (entries node))" using cn by (simp add: countable_node_def)
    ultimately show ?thesis unfolding eq using True by (simp del: score_loop.simps)
  next
    case False
    have "\<forall>x \<in> set (rev (map (\<lambda>x. (snd x, depth + 1)) (children node)) @ stack). countable_node (fst x)"
      using "2.prems"(1) cn countable_child by (auto simp: countable_node_def)
    from "2.IH"(2) [OF False this "2.prems"(2-4)] show ?thesis
      using False stack_entries_children [of "depth + 1" node] by auto
  qed
qed

lemma contents_insert_from:
  "wf_trie T \<Longrightarrow> wf_trie (insert_from i seqs T) \<and> max_depth (insert_from i seqs T) = max_depth T \<and>
     contents (insert_from i seqs T) =
       contents T + mset (map (\<lambda>(j, toks). (walk_tokens T toks, j)) (zip [i..i + int (length seqs) - 1] seqs))"
proof (induction i seqs T rule: insert_from.induct)
  case (2 i toks rest T)
  have "[i..i + int (length (toks # rest)) - 1] = i # [i + 1..i + 1 + int (length rest) - 1]"
    by (simp add: upto_rec1)
  moreover have "max_depth (trie_insert toks i T) = max_depth T" by (simp add: trie_insert_def)
  ultimately show ?case
    using 2 contents_insert [OF 2(2), of toks i] wf_trie_insert [OF 2(2), of toks i] by simp
qed simp

lemma wf_trie_build: "wf_trie T \<Longrightarrow> wf_trie (trie_build seqs T)"
  by (simp add: trie_build_def contents_insert_from)

section \<open>Properties\<close>

text \<open>
  C1: The trie refines a multiset of (truncated token path, prompt index) entries. Insertion adds
  one entry; removal reports whether the entry was there and takes exactly that one away; both
  keep every pass-through count equal to the number of entries below the node and leave no empty
  node behind.
\<close>

theorem trie_operations_correct:
  assumes "wf_trie T"
  shows "wf_trie (trie_insert toks i T)
    \<and> contents (trie_insert toks i T) = add_mset (walk_tokens T toks, i) (contents T)
    \<and> (snd (trie_remove toks i T) \<longleftrightarrow> (walk_tokens T toks, i) \<in># contents T)
    \<and> wf_trie (fst (trie_remove toks i T))
    \<and> contents (fst (trie_remove toks i T)) = contents T - {# (walk_tokens T toks, i) #}"
  using assms by (simp add: wf_trie_insert contents_insert trie_remove_found wf_trie_remove contents_remove)

theorem trie_operations_correct_witness:
  "wf_trie (trie_init 2) \<and> contents (trie_insert [1, 2, 3] 7 (trie_init 2)) = {# ([1, 2], 7) #}"
  using trie_operations_correct [OF wf_trie_init [of 2], of "[1, 2, 3]" 7]
  by (simp add: walk_tokens_eq wf_trie_init)

text \<open>
  Removing a prompt that was just inserted under a fresh index restores the trie exactly:
  the same nodes, the same counts, the same dictionary order, nothing left to prune.
\<close>

lemma trie_remove_undoes_insert:
  assumes "wf_trie T" and "(walk_tokens T toks, i) \<notin># contents T"
  shows "trie_remove toks i (trie_insert toks i T) = (T, True)"
  using assms by (rule trie_remove_insert_id)


text \<open>
  C2: The depth-first order is a permutation of the stored prompt indices in which, for every
  token prefix, the prompts that start with it stand next to each other: the claim that reordering
  places prompts sharing the longest common prefixes adjacently.
\<close>

theorem dfs_order_adjacent:
  assumes "wf_trie T"
  shows "\<exists>pre mid post. dfs_order ca T = map snd (pre @ mid @ post)
    \<and> mset (pre @ mid @ post) = contents T
    \<and> (\<forall>e \<in> set mid. prefix p (fst e)) \<and> (\<forall>e \<in> set pre \<union> set post. \<not> prefix p (fst e))"
proof -
  from assms have "wf_node (root T)" by (simp add: wf_trie_def)
  from dfs_entries_contiguous [OF this, of ca p] obtain pre mid post
    where eq: "dfs_entries ca (root T) = pre @ mid @ post"
      and "\<forall>e \<in> set mid. prefix p (fst e)" "\<forall>e \<in> set pre \<union> set post. \<not> prefix p (fst e)" by blast
  moreover have "mset (pre @ mid @ post) = contents T"
    unfolding contents_def eq [symmetric] by (rule mset_dfs_entries)
  ultimately show ?thesis
    unfolding dfs_order_eq eq by (intro exI conjI) (rule refl, assumption+)
qed

theorem dfs_order_adjacent_witness:
  "\<exists>pre mid post. dfs_order True (trie_build [[1, 2], [3], [1, 4]] (trie_init 128)) = map snd (pre @ mid @ post)
    \<and> mset (pre @ mid @ post) = contents (trie_build [[1, 2], [3], [1, 4]] (trie_init 128))
    \<and> (\<forall>e \<in> set mid. prefix [1] (fst e)) \<and> (\<forall>e \<in> set pre \<union> set post. \<not> prefix [1] (fst e))"
  by (rule dfs_order_adjacent) (intro wf_trie_build wf_trie_init)

text \<open>
  \<open>dfs_group_keys\<close> returns one key per group: the distinct token paths at which a prompt is
  stored, each once, in the same depth-first order in which \<open>dfs_order\<close> visits the groups.
\<close>

lemma dfs_group_keys_correct:
  assumes "wf_trie T"
  shows "distinct (dfs_group_keys ca T) \<and> set (dfs_group_keys ca T) = fst ` set_mset (contents T)"
  using assms by (simp add: dfs_group_keys_eq wf_trie_def distinct_dfs_keys set_dfs_keys contents_def)


text \<open>
  \<open>prefix_groups_with_tokens\<close> is sound, disjoint and complete: each group has at least two
  members, is at least as deep as asked for and consists of exactly the prompts that start with its
  prefix; no prompt is in two groups; and a prompt left out shares no prefix of the minimum length
  with any other prompt. \<open>prefix_groups\<close> returns the same groups without their prefixes.
\<close>

lemma prefix_groups_correct:
  assumes "wf_trie T"
  shows "(\<forall>(p, ids) \<in> set (prefix_groups_with_tokens m T).
            m \<le> int (length p) \<and> 2 \<le> length ids
            \<and> mset ids = image_mset snd {# e \<in># contents T. prefix p (fst e) #})
    \<and> mset (concat (map snd (prefix_groups_with_tokens m T))) \<subseteq># image_mset snd (contents T)
    \<and> (\<forall>q i p. (q, i) \<in># contents T \<longrightarrow> (\<forall>(g, ids) \<in> set (prefix_groups_with_tokens m T). \<not> prefix g q) \<longrightarrow>
          prefix p q \<longrightarrow> m \<le> int (length p) \<longrightarrow> size {# e \<in># contents T. prefix p (fst e) #} = 1)
    \<and> prefix_groups m T = map snd (prefix_groups_with_tokens m T)"
proof (intro conjI)
  have wf: "wf_node (root T)" using assms by (simp add: wf_trie_def)
  show "\<forall>(p, ids) \<in> set (prefix_groups_with_tokens m T).
      m \<le> int (length p) \<and> 2 \<le> length ids
      \<and> mset ids = image_mset snd {# e \<in># contents T. prefix p (fst e) #}"
    unfolding prefix_groups_with_tokens_eq contents_def
    using groups_ref_members [OF wf, of _ _ m 0] by (auto simp: extending_def)
  show "mset (concat (map snd (prefix_groups_with_tokens m T))) \<subseteq># image_mset snd (contents T)"
    unfolding prefix_groups_with_tokens_eq contents_def by (rule sum_subset_entries)
  show "\<forall>q i p. (q, i) \<in># contents T \<longrightarrow> (\<forall>(g, ids) \<in> set (prefix_groups_with_tokens m T). \<not> prefix g q) \<longrightarrow>
      prefix p q \<longrightarrow> m \<le> int (length p) \<longrightarrow> size {# e \<in># contents T. prefix p (fst e) #} = 1"
    unfolding prefix_groups_with_tokens_eq contents_def
    using ungrouped_single [OF wf, of _ _ m 0] by (simp add: extending_def)
  show "prefix_groups m T = map snd (prefix_groups_with_tokens m T)"
    by (simp add: prefix_groups_def collect_groups_eq prefix_groups_with_tokens_eq)
qed


text \<open>
  C3: The sharing score is well scaled: the coverage lies between 0 and 1, the largest group is no
  larger than the number of prompts, and whenever any group is found the average sharing depth is
  at least the depth asked for.
\<close>

theorem sharing_score_bounds:
  assumes "wf_trie T" and "sharing_score m T = (coverage, max_size, avg_depth)"
  shows "0 \<le> coverage \<and> coverage \<le> 1 \<and> 0 \<le> max_size \<and> max_size \<le> num_prompts T
    \<and> (0 < max_size \<longrightarrow> of_pyint m \<le> avg_depth)"
proof (cases "num_prompts T = 0")
  case True
  then show ?thesis using assms by (simp add: sharing_score_def)
next
  case False
  let ?s = "score_loop m [(root T, 0)] \<lparr>grouped = 0, max_group = 0, depth_sum = 0\<rparr>"
  have cn: "countable_node (root T)" using assms(1) by (simp add: countable_node_def wf_trie_def)
  have b: "0 \<le> grouped ?s" "grouped ?s \<le> num_prompts T" "0 \<le> max_group ?s"
    "max_group ?s \<le> grouped ?s" "m * grouped ?s \<le> depth_sum ?s"
    using score_loop_bounds [of "[(root T, 0)]" "\<lparr>grouped = 0, max_group = 0, depth_sum = 0\<rparr>" m] cn assms(1)
    by (simp_all add: wf_trie_def)
  from False assms(2) have r: "coverage = int_div (grouped ?s) (num_prompts T)" "max_size = max_group ?s"
    "avg_depth = (if 0 < grouped ?s then int_div (depth_sum ?s) (grouped ?s) else 0)"
    by (auto simp: sharing_score_def Let_def)
  have "of_pyint m \<le> int_div (depth_sum ?s) (grouped ?s)" if "0 < grouped ?s"
  proof -
    have "(of_int m :: rat) \<le> of_int (depth_sum ?s) / of_int (grouped ?s)"
      using b(5) that by (simp add: pos_le_divide_eq flip: of_int_mult)
    then show ?thesis unfolding of_pyint_def int_div_def by (rule fl_mono)
  qed
  then show ?thesis unfolding r using b by (auto simp: int_div_nonneg int_div_le_1)
qed

theorem sharing_score_bounds_witness:
  "0 \<le> fst (sharing_score 1 (trie_build [[1, 2], [3], [1, 4]] (trie_init 128)))
   \<and> fst (sharing_score 1 (trie_build [[1, 2], [3], [1, 4]] (trie_init 128))) \<le> 1"
  using sharing_score_bounds [OF wf_trie_build [OF wf_trie_init], of 1 "[[1, 2], [3], [1, 4]]" 128]
  by (metis prod.collapse)

end
