(* ===== verification/Py_Str.thy ===== *)
theory Py_Str
  imports Peek_Prelude "HOL-Library.Char_ord" "HOL-Library.List_Lexorder"
begin

text \<open>
  Errors as values and the string operations the program uses: decimal formatting, \<open>int(s)\<close>,
  \<open>str.split(sep, n)\<close>, \<open>str.startswith\<close>, \<open>str.lower\<close>, \<open>str.strip\<close>. A \<open>string\<close> stands for a
  Python string over the code points below 256; comparison is by code point.
\<close>

section \<open>Exceptions\<close>

datatype py_error =
  KeyError | IndexError | ValueError | AttributeError | TypeError | AssertionError | RuntimeError

type_synonym 'a res = "py_error + 'a"

definition rbind :: "'a res \<Rightarrow> ('a \<Rightarrow> 'b res) \<Rightarrow> 'b res" where
  "rbind m f = (case m of Inl e \<Rightarrow> Inl e | Inr a \<Rightarrow> f a)"

lemma rbind_simps [simp]: "rbind (Inl e) f = Inl e" "rbind (Inr a) f = f a"
  by (simp_all add: rbind_def)

lemma rbind_Inr_iff: "rbind m f = Inr b \<longleftrightarrow> (\<exists>a. m = Inr a \<and> f a = Inr b)"
  by (cases m) auto

text \<open>\<open>d[k]\<close> raises \<open>KeyError\<close> on a missing key, \<open>xs[0]\<close> raises \<open>IndexError\<close> on an empty list.\<close>

definition lookup_key :: "('k, 'v) pydict \<Rightarrow> 'k \<Rightarrow> 'v res" where
  "lookup_key d k = (case map_of d k of None \<Rightarrow> Inl KeyError | Some v \<Rightarrow> Inr v)"

definition head_of :: "'a list \<Rightarrow> 'a res" where
  "head_of xs = (case xs of [] \<Rightarrow> Inl IndexError | x # _ \<Rightarrow> Inr x)"

fun map_res :: "('a \<Rightarrow> 'b res) \<Rightarrow> 'a list \<Rightarrow> 'b list res" where
  "map_res f [] = Inr []"
| "map_res f (x # xs) = rbind (f x) (\<lambda>y. rbind (map_res f xs) (\<lambda>ys. Inr (y # ys)))"

lemma map_res_total: "(\<And>x. x \<in> set xs \<Longrightarrow> f x = Inr (g x)) \<Longrightarrow> map_res f xs = Inr (map g xs)"
  by (induction xs) auto

section \<open>Decimal numbers\<close>

definition digit_char :: "nat \<Rightarrow> char" where
  "digit_char d = char_of (48 + d)"

definition is_digit :: "char \<Rightarrow> bool" where
  "is_digit c \<longleftrightarrow> 48 \<le> (of_char c :: nat) \<and> (of_char c :: nat) \<le> 57"

definition digit_val :: "char \<Rightarrow> int" where
  "digit_val c = int (of_char c :: nat) - 48"

fun show_nat :: "nat \<Rightarrow> string" where
  "show_nat n = (if n < 10 then [digit_char n] else show_nat (n div 10) @ [digit_char (n mod 10)])"

declare show_nat.simps [simp del]

definition show_int :: "int \<Rightarrow> string" where
  "show_int i = (if i < 0 then CHR ''-'' # show_nat (nat (- i)) else show_nat (nat i))"

text \<open>
  \<open>int(s)\<close>: surrounding whitespace is ignored, one sign is allowed, underscores only between
  digits; anything else is a \<open>ValueError\<close>.
\<close>

definition is_space :: "char \<Rightarrow> bool" where
  "is_space c \<longleftrightarrow> (let n = (of_char c :: nat) in
     (9 \<le> n \<and> n \<le> 13) \<or> (28 \<le> n \<and> n \<le> 32) \<or> n = 133 \<or> n = 160)"

definition strip :: "string \<Rightarrow> string" where
  "strip s = rev (dropWhile is_space (rev (dropWhile is_space s)))"

fun read_digits :: "int \<Rightarrow> bool \<Rightarrow> string \<Rightarrow> int option" where
  "read_digits acc prev [] = (if prev then Some acc else None)"
| "read_digits acc prev (c # cs) =
     (if is_digit c then read_digits (acc * 10 + digit_val c) True cs
      else if c = CHR ''_'' \<and> prev then read_digits acc False cs
      else None)"

definition py_int :: "string \<Rightarrow> int res" where
  "py_int s = (let t = strip s;
       r = (case t of [] \<Rightarrow> None
            | c # u \<Rightarrow> if c = CHR ''-'' then map_option uminus (read_digits 0 False u)
                       else if c = CHR ''+'' then read_digits 0 False u
                       else read_digits 0 False t)
     in case r of None \<Rightarrow> Inl ValueError | Some i \<Rightarrow> Inr i)"

section \<open>Splitting and case\<close>

fun split_n :: "char \<Rightarrow> nat \<Rightarrow> string \<Rightarrow> string list" where
  "split_n sep 0 s = [s]"
| "split_n sep (Suc n) s =
     (case dropWhile (\<lambda>c. c \<noteq> sep) s of
        [] \<Rightarrow> [s]
      | _ # rest \<Rightarrow> takeWhile (\<lambda>c. c \<noteq> sep) s # split_n sep n rest)"

definition startswith :: "string \<Rightarrow> string \<Rightarrow> bool" where
  "startswith s p \<longleftrightarrow> take (length p) s = p"

definition lower_char :: "char \<Rightarrow> char" where
  "lower_char c = (let n = (of_char c :: nat) in
     if (65 \<le> n \<and> n \<le> 90) \<or> (192 \<le> n \<and> n \<le> 222 \<and> n \<noteq> 215) then char_of (n + 32) else c)"

definition lower :: "string \<Rightarrow> string" where
  "lower s = map lower_char s"

section \<open>Facts\<close>

lemma is_digit_digit_char [simp]: "d < 10 \<Longrightarrow> is_digit (digit_char d)"
  by (simp add: is_digit_def digit_char_def)

lemma digit_val_digit_char [simp]: "d < 10 \<Longrightarrow> digit_val (digit_char d) = int d"
  by (simp add: digit_val_def digit_char_def)

lemma digits_show_nat: "\<forall>c \<in> set (show_nat n). is_digit c"
proof (induction n rule: show_nat.induct)
  case (1 n)
  then show ?case by (subst show_nat.simps) auto
qed

lemma show_nat_nonempty [simp]: "show_nat n \<noteq> []"
  by (subst show_nat.simps) simp

lemma read_digits_append:
  "\<forall>c \<in> set s. is_digit c \<Longrightarrow> s \<noteq> [] \<or> prev \<Longrightarrow>
     read_digits acc prev (s @ [c]) = (case read_digits acc prev s of
        None \<Rightarrow> None | Some v \<Rightarrow> read_digits v True [c])"
  by (induction s arbitrary: acc prev) auto

lemma read_digits_show: "read_digits 0 False (show_nat n) = Some (int n)"
proof (induction n rule: show_nat.induct)
  case (1 n)
  show ?case
  proof (cases "n < 10")
    case True
    then show ?thesis by (simp add: show_nat.simps [of n])
  next
    case False
    then have "read_digits 0 False (show_nat (n div 10) @ [digit_char (n mod 10)]) =
        Some (int (n div 10) * 10 + int (n mod 10))"
      using 1 digits_show_nat by (simp add: read_digits_append)
    also have "int (n div 10) * 10 + int (n mod 10) = int n"
      by (metis div_mult_mod_eq of_nat_add of_nat_mult of_nat_numeral)
    finally show ?thesis using False by (simp add: show_nat.simps [of n])
  qed
qed

lemma is_digit_not_space: "is_digit c \<Longrightarrow> \<not> is_space c"
  by (auto simp: is_digit_def is_space_def Let_def)

lemma strip_nospace: "\<forall>c \<in> set s. \<not> is_space c \<Longrightarrow> strip s = s"
  by (simp add: strip_def dropWhile_eq_self_iff hd_rev) (metis dropWhile_eq_self_iff hd_in_set hd_rev rev_rev_ident set_rev)

lemma show_int_nospace: "\<forall>c \<in> set (show_int i). \<not> is_space c"
  using digits_show_nat is_digit_not_space
  by (auto simp: show_int_def is_space_def [of "CHR ''-''"])

lemma show_int_chars: "c \<in> set (show_int i) \<Longrightarrow> is_digit c \<or> c = CHR ''-''"
  using digits_show_nat by (auto simp: show_int_def split: if_splits)

text \<open>\<open>int(str(i)) = i\<close>.\<close>

lemma py_int_show [simp]: "py_int (show_int i) = Inr i"
proof -
  have s: "strip (show_int i) = show_int i" by (rule strip_nospace) (rule show_int_nospace)
  show ?thesis
  proof (cases "i < 0")
    case True
    then show ?thesis unfolding py_int_def s by (simp add: show_int_def read_digits_show)
  next
    case False
    obtain c u where cu: "show_nat (nat i) = c # u" by (meson show_nat_nonempty neq_Nil_conv)
    then have "is_digit c" using digits_show_nat by (metis list.set_intros(1))
    then have "c \<noteq> CHR ''-''" "c \<noteq> CHR ''+''" by (auto simp: is_digit_def)
    then show ?thesis
      using False read_digits_show [of "nat i"] unfolding py_int_def s by (simp add: show_int_def cu)
  qed
qed

lemma takeWhile_sep [simp]: "sep \<notin> set a \<Longrightarrow> takeWhile (\<lambda>c. c \<noteq> sep) (a @ sep # b) = a"
  by (induction a) auto

lemma dropWhile_sep [simp]: "sep \<notin> set a \<Longrightarrow> dropWhile (\<lambda>c. c \<noteq> sep) (a @ sep # b) = sep # b"
  by (induction a) auto

lemma split_n_Suc: "sep \<notin> set a \<Longrightarrow> split_n sep (Suc n) (a @ sep # b) = a # split_n sep n b"
  by simp

end
