(* ===== verification/Cache_Store.thy ===== *)
theory Cache_Store
  imports Py_Str Py_Float
begin

text \<open>
  \<open>CacheStateStore\<close> of \<open>src/python/peek/offline/engine.py\<close>: the shared store through which the
  server publishes cached fractions per prefix group and the client publishes its pending counts.
  Every method body runs under the store's lock, so each operation is one atomic state change and
  a run of the two threads is a sequence of these operations.
\<close>

section \<open>The store and its operations\<close>

record cache_store =
  group_cache_frac :: "(int, pyfloat) pydict"
  client_pending :: "(int, int) pydict"
  scheduled_rids :: "string list"

definition store_init :: cache_store where
  "store_init = \<lparr>group_cache_frac = [], client_pending = [], scheduled_rids = []\<rparr>"

text \<open>\<open>d.update(e)\<close> assigns the items of \<open>e\<close> one after the other; so does a dict comprehension.\<close>

definition dict_update :: "('k, 'v) pydict \<Rightarrow> ('k \<times> 'v) list \<Rightarrow> ('k, 'v) pydict" where
  "dict_update d e = foldl (\<lambda>d (k, v). dset k v d) d e"

definition store_update :: "(int, pyfloat) pydict \<Rightarrow> cache_store \<Rightarrow> cache_store" where
  "store_update group_fracs s =
     s\<lparr>group_cache_frac := dict_update (group_cache_frac s) group_fracs\<rparr>"

definition get_cache_frac :: "cache_store \<Rightarrow> int \<Rightarrow> pyfloat" where
  "get_cache_frac s group_key_hash = dget_or (group_cache_frac s) group_key_hash (- 1)"

definition store_snapshot :: "cache_store \<Rightarrow> (int, pyfloat) pydict" where
  "store_snapshot s = group_cache_frac s"

definition update_client_pending :: "(int, int) pydict \<Rightarrow> cache_store \<Rightarrow> cache_store" where
  "update_client_pending pending s = s\<lparr>client_pending := pending\<rparr>"

definition get_client_pending :: "cache_store \<Rightarrow> (int, int) pydict" where
  "get_client_pending s = client_pending s"

definition push_scheduled :: "string list \<Rightarrow> cache_store \<Rightarrow> cache_store" where
  "push_scheduled rids s = s\<lparr>scheduled_rids := rids\<rparr>"

definition pop_scheduled :: "cache_store \<Rightarrow> cache_store \<times> string list" where
  "pop_scheduled s = (s\<lparr>scheduled_rids := []\<rparr>, scheduled_rids s)"

section \<open>Facts\<close>

lemma dict_update_Nil [simp]: "dict_update d [] = d"
  by (simp add: dict_update_def)

lemma dict_update_Cons [simp]: "dict_update d ((k, v) # e) = dict_update (dset k v d) e"
  by (simp add: dict_update_def)

lemma dict_update_append: "dict_update d (e @ e') = dict_update (dict_update d e) e'"
  by (simp add: dict_update_def)

lemma wf_dict_update [simp]: "wf_dict d \<Longrightarrow> wf_dict (dict_update d e)"
proof (induction e arbitrary: d)
  case (Cons x e)
  then show ?case by (cases x) (simp add: wf_dset)
qed simp

lemma dget_dict_update:
  "dget (dict_update d e) k = (case dget (rev e) k of Some v \<Rightarrow> Some v | None \<Rightarrow> dget d k)"
  by (induction e arbitrary: d) (auto simp: dict_simps map_add_def split: option.splits)

lemma dget_rev: "wf_dict e \<Longrightarrow> dget (rev e) k = dget e k"
proof -
  assume "wf_dict e"
  then have d: "distinct (map fst e)" and d': "distinct (map fst (rev e))"
    by (simp_all add: wf_dict_def rev_map [symmetric])
  have "dget (rev e) k = Some v \<longleftrightarrow> dget e k = Some v" for v
    using map_of_eq_Some_iff [OF d] map_of_eq_Some_iff [OF d'] by simp
  then show ?thesis by (cases "dget e k"; cases "dget (rev e) k") auto
qed

lemma dget_dict_update_wf:
  "wf_dict e \<Longrightarrow> dget (dict_update d e) k = (case dget e k of Some v \<Rightarrow> Some v | None \<Rightarrow> dget d k)"
  by (simp add: dget_dict_update dget_rev)

lemma keys_dict_update: "fst ` set (dict_update d e) = fst ` set d \<union> fst ` set e"
proof (induction e arbitrary: d)
  case (Cons x e)
  obtain k v where x: "x = (k, v)" by (cases x)
  have "fst ` set (dset k v d) = insert k (fst ` set d)"
    by (simp add: dom_update)
  then show ?case using Cons by (auto simp: x)
qed simp

lemma dict_update_fresh:
  "distinct (map fst e) \<Longrightarrow> fst ` set e \<inter> fst ` set d = {} \<Longrightarrow> dict_update d e = d @ e"
proof (induction e arbitrary: d)
  case (Cons x e)
  obtain k v where x: "x = (k, v)" by (cases x)
  have "dset k v d = d @ [(k, v)]" using Cons.prems x by (intro dset_append) auto
  moreover have "dict_update (d @ [(k, v)]) e = (d @ [(k, v)]) @ e"
    using Cons.prems x by (intro Cons.IH) auto
  ultimately show ?case by (simp add: x)
qed simp

section \<open>Interleavings of the two threads\<close>

text \<open>
  The server's and the client's calls, as the sequence in which they get the lock. What a reader
  gets is determined by the last writer of the cell it reads.
\<close>

datatype store_op =
    ServerFracs "(int, pyfloat) pydict"
  | ClientPending "(int, int) pydict"
  | PushRids "string list"
  | PopRids

fun store_step :: "store_op \<Rightarrow> cache_store \<Rightarrow> cache_store" where
  "store_step (ServerFracs f) s = store_update f s"
| "store_step (ClientPending p) s = update_client_pending p s"
| "store_step (PushRids r) s = push_scheduled r s"
| "store_step PopRids s = fst (pop_scheduled s)"

definition store_run :: "store_op list \<Rightarrow> cache_store \<Rightarrow> cache_store" where
  "store_run ops s = foldl (\<lambda>s p. store_step p s) s ops"

definition pending_writes :: "store_op list \<Rightarrow> (int, int) pydict list" where
  "pending_writes ops = concat (map (\<lambda>p. case p of ClientPending q \<Rightarrow> [q] | _ \<Rightarrow> []) ops)"

definition frac_writes :: "store_op list \<Rightarrow> (int \<times> pyfloat) list" where
  "frac_writes ops = concat (map (\<lambda>p. case p of ServerFracs f \<Rightarrow> f | _ \<Rightarrow> []) ops)"

lemmas store_defs = store_update_def update_client_pending_def push_scheduled_def pop_scheduled_def

lemma store_run_snoc [simp]: "store_run (ops @ [p]) s = store_step p (store_run ops s)"
  by (simp add: store_run_def)

lemma store_run_Nil [simp]: "store_run [] s = s"
  by (simp add: store_run_def)

lemma writes_snoc [simp]:
  "pending_writes (ops @ [p]) = pending_writes ops @ (case p of ClientPending q \<Rightarrow> [q] | _ \<Rightarrow> [])"
  "frac_writes (ops @ [p]) = frac_writes ops @ (case p of ServerFracs f \<Rightarrow> f | _ \<Rightarrow> [])"
  by (simp_all add: pending_writes_def frac_writes_def)

lemma store_run_cells:
  "client_pending (store_run ops s) = last (client_pending s # pending_writes ops)
   \<and> group_cache_frac (store_run ops s) = dict_update (group_cache_frac s) (frac_writes ops)"
  by (induction ops rule: rev_induct)
    (auto simp: store_defs dict_update_append pending_writes_def frac_writes_def split: store_op.split)

text \<open>
  In every interleaving of the server's and the client's calls the server reads the pending
  counts the client wrote last, whole and unaffected by its own writes, and the client reads for
  each group the fraction the server wrote last, or -1 when it never wrote one.
\<close>

lemma store_exchange_isolated:
  "get_client_pending (store_run ops store_init) = last ([] # pending_writes ops)
   \<and> get_cache_frac (store_run ops store_init) h =
       (case dget (rev (frac_writes ops)) h of Some f \<Rightarrow> f | None \<Rightarrow> - 1)"
  using store_run_cells [of ops store_init]
  by (auto simp: get_client_pending_def get_cache_frac_def store_init_def dget_or_def
      dget_dict_update split: option.splits)

end
