(* ===== verification/Client_Reorder.thy ===== *)
theory Client_Reorder
  imports Prefix_Trie Cache_Store
begin

text \<open>
  \<open>src/python/peek/offline/reorder.py\<close> and \<open>prompt.py\<close>: the offline reordering of a batch of
  prompts and the incremental group tagger \<open>PeekDispatcher\<close>. \<open>hash\<close> is a parameter of \<open>submit\<close>;
  the state store is the shared object that is passed along (\<open>None\<close> when it could not be imported).
\<close>

unbundle bit_operations_syntax

section \<open>Configuration and prompts\<close>

record peek_config =
  max_pending_queue :: "int option"
  enable_queue_aware_eviction :: bool

definition default_config :: peek_config where
  "default_config = \<lparr>max_pending_queue = None, enable_queue_aware_eviction = True\<rparr>"

definition should_reorder :: "peek_config \<Rightarrow> int \<Rightarrow> bool" where
  "should_reorder cfg pending_queue_len = True"

definition schedule_policy_for :: "peek_config \<Rightarrow> int \<Rightarrow> string" where
  "schedule_policy_for cfg pending_queue_len = ''fcfs''"

record prompt_request =
  pr_id :: string
  pr_token_ids :: "int list"
  arrival_time :: pyfloat
  wait_count :: int
  metadata :: "(string, string) pydict"

definition prompt_age :: "pyfloat \<Rightarrow> prompt_request \<Rightarrow> pyfloat" where
  "prompt_age now r = fsub now (arrival_time r)"

definition increment_wait :: "prompt_request \<Rightarrow> prompt_request" where
  "increment_wait r = r\<lparr>wait_count := wait_count r + 1\<rparr>"

section \<open>Reordering a batch\<close>

definition count_seq :: "(int list, int) pydict \<Rightarrow> int list \<Rightarrow> (int list, int) pydict" where
  "count_seq counts seq = dset seq (dget_or counts seq 0 + 1) counts"

definition full_duplication_ratio :: "int list list \<Rightarrow> pyfloat" where
  "full_duplication_ratio sequences =
     (if sequences = [] then 0
      else int_div (sum_list (filter (\<lambda>c. 2 \<le> c) (dvals (foldl count_seq [] sequences))))
             (int (length sequences)))"

definition reorder_for_prefix_sharing ::
  "int \<Rightarrow> pyfloat \<Rightarrow> pyfloat \<Rightarrow> pyfloat \<Rightarrow> int list list \<Rightarrow> int list"
where
  "reorder_for_prefix_sharing min_sharing_depth min_coverage min_avg_sharing_depth max_duplication seqs =
     (let n = int (length seqs) in
      if n = 0 then []
      else if max_duplication < full_duplication_ratio seqs then [0..n - 1]
      else
        let trie = insert_from 0 seqs (trie_init default_max_depth);
            (coverage, _, avg_sharing_depth) = sharing_score min_sharing_depth trie in
        if coverage < min_coverage then [0..n - 1]
        else if avg_sharing_depth < min_avg_sharing_depth then [0..n - 1]
        else dfs_order True trie)"

text \<open>The keyword defaults.\<close>

definition default_reorder :: "int list list \<Rightarrow> int list" where
  "default_reorder = reorder_for_prefix_sharing 32 (fl (1 / 10)) 64 (fl (1 / 2))"

section \<open>The dispatcher\<close>

text \<open>
  A request is a Python dict with the keys the dispatcher touches (\<open>req_is_dict\<close>), or any other
  object, which is only sent. \<open>None\<close> means that the key is absent.
\<close>

record disp_request =
  req_is_dict :: bool
  req_token_ids :: "int list"
  req_id :: "string option"
  req_rid :: "string option"
  peek_group_order :: "int option"
  peek_group_key :: "int option"

record dispatcher =
  disp_max_depth :: int
  disp_trie :: prefix_trie
  next_idx :: int
  group_count :: "(int list, int) pydict"
  group_hashes :: "(int list, int) pydict"
  disp_dfs_keys :: "int list list"
  structure_dirty :: bool
  rid_to_remove_info :: "(string, int list \<times> int) pydict"
  sent :: "disp_request list"

definition dispatcher_init :: "int \<Rightarrow> dispatcher" where
  "dispatcher_init depth =
     \<lparr>disp_max_depth = depth, disp_trie = trie_init depth, next_idx = 0, group_count = [],
      group_hashes = [], disp_dfs_keys = [], structure_dirty = False, rid_to_remove_info = [],
      sent = []\<rparr>"

text \<open>
  \<open>_push_pending_to_server\<close>: the dict comprehension looks up the hash of every group
  (\<open>KeyError\<close> if one is missing); two groups with equal hashes share an entry, the last one wins.
\<close>

definition pending_by_hash :: "dispatcher \<Rightarrow> (int, int) pydict res" where
  "pending_by_hash d =
     rbind (map_res (\<lambda>(key, count). rbind (lookup_key (group_hashes d) key) (\<lambda>h. Inr (h, count)))
              (group_count d))
       (\<lambda>items. Inr (dict_update [] items))"

definition push_pending_to_server ::
  "dispatcher \<Rightarrow> cache_store option \<Rightarrow> cache_store option res" where
  "push_pending_to_server d store =
     (case store of
        None \<Rightarrow> Inr None
      | Some s \<Rightarrow> rbind (pending_by_hash d) (\<lambda>pending. Inr (Some (update_client_pending pending s))))"

definition recompute_dfs_keys :: "dispatcher \<Rightarrow> dispatcher" where
  "recompute_dfs_keys d =
     d\<lparr>disp_dfs_keys := dfs_group_keys True (disp_trie d), structure_dirty := False\<rparr>"

definition mask32 :: "int \<Rightarrow> int" where
  "mask32 h = h AND 0xFFFFFFFF"

definition peek_tag :: "int \<Rightarrow> int \<Rightarrow> string \<Rightarrow> string" where
  "peek_tag rank h orig = ''peek:'' @ show_int rank @ '':'' @ show_int h @ '':'' @ orig"

definition orig_rid :: "disp_request \<Rightarrow> int \<Rightarrow> string" where
  "orig_rid req idx =
     (case req_id req of
        Some i \<Rightarrow> i
      | None \<Rightarrow> (case req_rid req of Some r \<Rightarrow> r | None \<Rightarrow> ''req-'' @ show_int idx))"

text \<open>Steps 1 to 3 of \<open>submit\<close>: trie, counts, hashes and the DFS keys.\<close>

definition submit_group :: "(int list \<Rightarrow> int) \<Rightarrow> int list \<Rightarrow> dispatcher \<Rightarrow> dispatcher" where
  "submit_group hash_of toks d =
     (let idx = next_idx d;
          key = py_prefix (disp_max_depth d) toks;
          is_new_group = (dget (group_count d) key = None);
          d1 = d\<lparr>next_idx := idx + 1,
                 disp_trie := trie_insert toks idx (disp_trie d),
                 group_count := dset key (dget_or (group_count d) key 0 + 1) (group_count d)\<rparr>;
          d2 = (if dget (group_hashes d1) key = None
                then d1\<lparr>group_hashes := dset key (mask32 (hash_of key)) (group_hashes d1)\<rparr> else d1)
      in if is_new_group \<or> structure_dirty d2 then recompute_dfs_keys d2 else d2)"

text \<open>Step 4: the rank of a group among all groups, by descending pending count.\<close>

definition ranked_keys :: "dispatcher \<Rightarrow> int list list" where
  "ranked_keys d = sort_rev (\<lambda>gk. dget_or (group_count d) gk 0) (disp_dfs_keys d)"

definition group_rank :: "dispatcher \<Rightarrow> int list \<Rightarrow> int" where
  "group_rank d key =
     dget_or (dict_update [] (zip (ranked_keys d) [0..int (length (ranked_keys d)) - 1])) key 0"

definition tag_request :: "int \<Rightarrow> int \<Rightarrow> string \<Rightarrow> disp_request \<Rightarrow> disp_request" where
  "tag_request rank h orig req =
     req\<lparr>req_rid := Some (peek_tag rank h orig), peek_group_order := Some rank,
         peek_group_key := Some h\<rparr>"

definition submit ::
  "(int list \<Rightarrow> int) \<Rightarrow> disp_request \<Rightarrow> dispatcher \<times> cache_store option \<Rightarrow>
     (dispatcher \<times> cache_store option) res"
where
  "submit hash_of req ds =
     (let (d, store) = ds;
          idx = next_idx d;
          toks = req_token_ids req;
          key = py_prefix (disp_max_depth d) toks;
          d1 = submit_group hash_of toks d;
          rank = group_rank d1 key
      in rbind (lookup_key (group_hashes d1) key) (\<lambda>group_key_hash.
           let orig = orig_rid req idx;
               d2 = (if req_is_dict req
                     then d1\<lparr>rid_to_remove_info := dset orig (toks, idx) (rid_to_remove_info d1),
                             sent := sent d1 @ [tag_request rank group_key_hash orig req]\<rparr>
                     else d1\<lparr>sent := sent d1 @ [req]\<rparr>)
           in rbind (push_pending_to_server d2 store) (\<lambda>store'. Inr (d2, store'))))"

text \<open>The count and the hash of a group are dropped when its last pending request leaves.\<close>

definition remove_group :: "int list \<Rightarrow> dispatcher \<Rightarrow> dispatcher" where
  "remove_group key d =
     (case dget (group_count d) key of
        None \<Rightarrow> d
      | Some c \<Rightarrow>
          if c - 1 \<le> 0
          then d\<lparr>group_count := ddel key (group_count d), group_hashes := ddel key (group_hashes d),
                 structure_dirty := True\<rparr>
          else d\<lparr>group_count := dset key (c - 1) (group_count d)\<rparr>)"

definition drop_request :: "int list \<Rightarrow> int \<Rightarrow> dispatcher \<Rightarrow> dispatcher" where
  "drop_request toks i d =
     remove_group (py_prefix (disp_max_depth d) toks)
       (d\<lparr>disp_trie := fst (trie_remove toks i (disp_trie d))\<rparr>)"

definition disp_remove ::
  "int list \<Rightarrow> int \<Rightarrow> dispatcher \<times> cache_store option \<Rightarrow> (dispatcher \<times> cache_store option) res"
where
  "disp_remove toks prompt_index ds =
     (let (d, store) = ds;
          d1 = drop_request toks prompt_index d
      in rbind (push_pending_to_server d1 store) (\<lambda>store'. Inr (d1, store')))"

section \<open>The batch order is a permutation\<close>

lemma mset_snd_enumerate:
  "length xs = length ys \<Longrightarrow> image_mset snd {# (f y, j). (j, y) \<in># mset (zip xs ys) #} = mset xs"
  by (induction xs ys rule: list_induct2) auto

lemma mset_upto_contents:
  "image_mset snd (contents (insert_from 0 seqs (trie_init d))) = mset [0..int (length seqs) - 1]"
  by (simp add: contents_insert_from wf_trie_init mset_snd_enumerate)

lemma reorder_mset_upto:
  "mset (reorder_for_prefix_sharing msd mc mas md seqs) = mset [0..int (length seqs) - 1]"
  by (simp add: reorder_for_prefix_sharing_def Let_def case_prod_beta mset_dfs_order
      mset_upto_contents)

lemma sum_list_filter_le: "(\<And>x. x \<in> set xs \<Longrightarrow> (0::int) \<le> x) \<Longrightarrow> sum_list (filter P xs) \<le> sum_list xs"
  by (induction xs) (auto simp: add_increasing)

lemma counts_fold:
  "wf_dict (foldl count_seq [] seqs) \<and> (\<forall>c \<in> set (dvals (foldl count_seq [] seqs)). 1 \<le> c)
   \<and> sum_list (dvals (foldl count_seq [] seqs)) = int (length seqs)"
proof (induction seqs rule: rev_induct)
  case (snoc s seqs)
  let ?d = "foldl count_seq [] seqs"
  have wf: "wf_dict ?d" and pos: "\<forall>c \<in> set (dvals ?d). 1 \<le> c"
    and sum: "sum_list (dvals ?d) = int (length seqs)" using snoc.IH by auto
  show ?case
  proof (cases "dget ?d s")
    case None
    then have "dset s (dget_or ?d s 0 + 1) ?d = ?d @ [(s, 1)]"
      by (simp add: dset_append dget_or_def flip: dget_None_iff)
    then have e: "foldl count_seq [] (seqs @ [s]) = ?d @ [(s, 1)]" by (simp add: count_seq_def)
    have "wf_dict (?d @ [(s, 1)])" using wf None by (auto simp: wf_dict_def dget_None_iff)
    then show ?thesis unfolding e using pos sum by auto
  next
    case (Some c)
    obtain d1 d2 where d: "?d = d1 @ (s, c) # d2" "\<And>w. dset s w ?d = d1 @ (s, w) # d2"
      using dset_split [OF wf Some] by metis
    have e: "foldl count_seq [] (seqs @ [s]) = d1 @ (s, c + 1) # d2"
      using d(2) Some by (simp add: count_seq_def dget_or_def)
    have "wf_dict (d1 @ (s, c + 1) # d2)" using wf unfolding d(1) by (simp add: wf_dict_def)
    then show ?thesis unfolding e using pos sum unfolding d(1) by auto
  qed
qed simp

lemma full_duplication_ratio_bounds:
  "0 \<le> full_duplication_ratio seqs \<and> full_duplication_ratio seqs \<le> 1"
proof -
  have pos: "\<And>c. c \<in> set (dvals (foldl count_seq [] seqs)) \<Longrightarrow> 1 \<le> c"
    and sum: "sum_list (dvals (foldl count_seq [] seqs)) = int (length seqs)"
    using counts_fold [of seqs] by blast+
  let ?s = "sum_list (filter (\<lambda>c. 2 \<le> c) (dvals (foldl count_seq [] seqs)))"
  have "?s \<le> int (length seqs)"
    using sum_list_filter_le [of "dvals (foldl count_seq [] seqs)" "\<lambda>c. 2 \<le> c"] pos sum by force
  moreover have "0 \<le> ?s" by (rule sum_list_nonneg) auto
  ultimately show ?thesis
    by (simp add: full_duplication_ratio_def int_div_nonneg int_div_le_1)
qed

section \<open>The dispatcher's invariant\<close>

definition key_mult :: "dispatcher \<Rightarrow> int list \<Rightarrow> nat" where
  "key_mult d k = size {# e \<in># contents (disp_trie d). fst e = k #}"

lemma key_mult_trie: "disp_trie d' = disp_trie d \<Longrightarrow> key_mult d' = key_mult d"
  by (simp add: key_mult_def [abs_def])

lemma key_mult_update [simp]:
  "key_mult (d\<lparr>rid_to_remove_info := info\<rparr>) = key_mult d"
  "key_mult (d\<lparr>sent := s\<rparr>) = key_mult d"
  "key_mult (d\<lparr>group_count := c\<rparr>) = key_mult d"
  "key_mult (d\<lparr>group_hashes := hs\<rparr>) = key_mult d"
  "key_mult (d\<lparr>structure_dirty := b\<rparr>) = key_mult d"
  by (rule key_mult_trie, simp)+

text \<open>
  The counts are the number of trie entries of each group, a hash is kept exactly for the live
  groups, the DFS keys are current unless flagged, indices are never reused, and every request the
  engine can still take out stands in the trie under its recorded tokens and index.
\<close>

definition wf_disp :: "(int list \<Rightarrow> int) \<Rightarrow> dispatcher \<Rightarrow> bool" where
  "wf_disp h d \<longleftrightarrow>
     wf_trie (disp_trie d) \<and> max_depth (disp_trie d) = disp_max_depth d \<and> 0 \<le> disp_max_depth d
     \<and> wf_dict (group_count d)
     \<and> (\<forall>k. dget (group_count d) k = (if key_mult d k = 0 then None else Some (int (key_mult d k))))
     \<and> (\<forall>k. dget (group_hashes d) k = (if key_mult d k = 0 then None else Some (mask32 (h k))))
     \<and> (\<not> structure_dirty d \<longrightarrow> distinct (disp_dfs_keys d)
          \<and> set (disp_dfs_keys d) = fst ` set_mset (contents (disp_trie d)))
     \<and> (\<forall>e \<in># contents (disp_trie d). snd e < next_idx d)
     \<and> wf_dict (rid_to_remove_info d)
     \<and> distinct (map snd (dvals (rid_to_remove_info d)))
     \<and> (\<forall>v \<in> set (dvals (rid_to_remove_info d)).
          (py_prefix (disp_max_depth d) (fst v), snd v) \<in># contents (disp_trie d))"

lemma wf_disp_init: "0 \<le> depth \<Longrightarrow> wf_disp h (dispatcher_init depth)"
  by (simp add: wf_disp_def dispatcher_init_def wf_trie_init key_mult_def)

lemma key_walk: "wf_disp h d \<Longrightarrow> py_prefix (disp_max_depth d) toks = walk_tokens (disp_trie d) toks"
  by (simp add: wf_disp_def walk_tokens_eq py_prefix_nonneg)

lemma key_mult_pos: "key_mult d k = 0 \<longleftrightarrow> k \<notin> fst ` set_mset (contents (disp_trie d))"
  by (force simp: key_mult_def)

lemma wf_disp_hash: "wf_disp h d \<Longrightarrow> (k, c) \<in> set (group_count d) \<Longrightarrow> lookup_key (group_hashes d) k = Inr (mask32 (h k))"
  by (auto simp: wf_disp_def lookup_key_def simp flip: dget_Some_iff_mem split: if_splits)

lemma keys_group_count:
  assumes "wf_disp h d"
  shows "set (dkeys (group_count d)) = fst ` set_mset (contents (disp_trie d))"
proof -
  have "dget (group_count d) k = (if key_mult d k = 0 then None else Some (int (key_mult d k)))" for k
    using assms unfolding wf_disp_def by blast
  then have "k \<in> fst ` set (group_count d) \<longleftrightarrow> k \<in> fst ` set_mset (contents (disp_trie d))" for k
    using dget_None_iff [of "group_count d" k] key_mult_pos [of d k] by (metis option.distinct(1))
  then show ?thesis by auto
qed

lemma pending_by_hash_total:
  assumes "wf_disp h d"
  shows "pending_by_hash d = Inr (dict_update [] (map (\<lambda>(k, c). (mask32 (h k), c)) (group_count d)))"
proof -
  have "map_res (\<lambda>(key, count). rbind (lookup_key (group_hashes d) key) (\<lambda>h. Inr (h, count))) (group_count d)
      = Inr (map (\<lambda>(k, c). (mask32 (h k), c)) (group_count d))"
    by (rule map_res_total) (use assms wf_disp_hash in \<open>auto split: prod.splits\<close>)
  then show ?thesis by (simp add: pending_by_hash_def)
qed

text \<open>What the server reads: a group's count under its hash, when no other live group shares it.\<close>

definition published :: "(int list \<Rightarrow> int) \<Rightarrow> dispatcher \<Rightarrow> cache_store option \<Rightarrow> bool" where
  "published h d store = (case store of None \<Rightarrow> True | Some s \<Rightarrow>
     (\<forall>k c. dget (group_count d) k = Some c \<longrightarrow>
        (\<forall>k' \<in> set (dkeys (group_count d)). mask32 (h k') = mask32 (h k) \<longrightarrow> k' = k) \<longrightarrow>
        dget (get_client_pending s) (mask32 (h k)) = Some c))"

lemma dget_dict_update_unique:
  "(v, c) \<in> set items \<Longrightarrow> (\<And>c'. (v, c') \<in> set items \<Longrightarrow> c' = c) \<Longrightarrow> dget (dict_update d items) v = Some c"
proof -
  assume 1: "(v, c) \<in> set items" and 2: "\<And>c'. (v, c') \<in> set items \<Longrightarrow> c' = c"
  have "dget (rev items) v \<noteq> None" using 1 by (metis dget_None_iff fst_conv imageI set_rev)
  then obtain c' where c': "dget (rev items) v = Some c'" by auto
  then have "(v, c') \<in> set items" by (metis map_of_SomeD set_rev)
  then show ?thesis using 2 c' by (simp add: dget_dict_update)
qed

lemma push_pending_total:
  assumes "wf_disp h d"
  shows "\<exists>store'. push_pending_to_server d store = Inr store' \<and> published h d store'"
proof (cases store)
  case None
  then show ?thesis by (simp add: push_pending_to_server_def published_def)
next
  case (Some s)
  let ?items = "map (\<lambda>(k, c). (mask32 (h k), c)) (group_count d)"
  have wf: "wf_dict (group_count d)" using assms by (simp add: wf_disp_def)
  have "dget (dict_update [] ?items) (mask32 (h k)) = Some c"
    if k: "dget (group_count d) k = Some c"
      and u: "\<forall>k' \<in> set (dkeys (group_count d)). mask32 (h k') = mask32 (h k) \<longrightarrow> k' = k" for k c
  proof (rule dget_dict_update_unique)
    have kc: "(k, c) \<in> set (group_count d)" using k wf by (simp add: dget_Some_iff_mem)
    then show "(mask32 (h k), c) \<in> set ?items" by force
    show "c' = c" if "(mask32 (h k), c') \<in> set ?items" for c'
    proof -
      from that obtain k' where "mask32 (h k') = mask32 (h k)" "(k', c') \<in> set (group_count d)" by auto
      with u have "(k, c') \<in> set (group_count d)" by force
      then show ?thesis using k wf by (simp add: dget_Some_iff_mem [symmetric])
    qed
  qed
  then show ?thesis
    by (simp add: Some push_pending_to_server_def pending_by_hash_total [OF assms] published_def
        get_client_pending_def update_client_pending_def)
qed

section \<open>Every operation preserves the invariant\<close>

lemma submit_group_fields:
  "rid_to_remove_info (submit_group h toks d) = rid_to_remove_info d"
  "disp_max_depth (submit_group h toks d) = disp_max_depth d"
  "next_idx (submit_group h toks d) = next_idx d + 1"
  "sent (submit_group h toks d) = sent d"
  "disp_trie (submit_group h toks d) = trie_insert toks (next_idx d) (disp_trie d)"
  by (simp_all add: submit_group_def recompute_dfs_keys_def Let_def)

lemma dget_group_count_submit:
  "dget (group_count (submit_group h toks d)) k =
     (if k = py_prefix (disp_max_depth d) toks then Some (dget_or (group_count d) k 0 + 1)
      else dget (group_count d) k)"
  by (simp add: submit_group_def recompute_dfs_keys_def Let_def dict_simps)

lemma dget_group_hashes_submit:
  "dget (group_hashes (submit_group h toks d)) k =
     (if k = py_prefix (disp_max_depth d) toks \<and> dget (group_hashes d) k = None
      then Some (mask32 (h k)) else dget (group_hashes d) k)"
  by (auto simp: submit_group_def recompute_dfs_keys_def Let_def dict_simps)

lemma dfs_keys_contents:
  "wf_trie T \<Longrightarrow> distinct (dfs_group_keys ca T) \<and> set (dfs_group_keys ca T) = fst ` set_mset (contents T)"
  by (simp add: dfs_group_keys_eq wf_trie_def distinct_dfs_keys set_dfs_keys contents_def)

lemma submit_group_keys:
  assumes wf: "wf_disp h d"
  shows "\<not> structure_dirty (submit_group h toks d)
    \<and> distinct (disp_dfs_keys (submit_group h toks d))
    \<and> set (disp_dfs_keys (submit_group h toks d))
        = fst ` set_mset (contents (disp_trie (submit_group h toks d)))"
proof -
  let ?k = "py_prefix (disp_max_depth d) toks"
  let ?T = "trie_insert toks (next_idx d) (disp_trie d)"
  have T: "wf_trie ?T" using wf by (simp add: wf_disp_def wf_trie_insert)
  have c: "contents ?T = add_mset (?k, next_idx d) (contents (disp_trie d))"
    using wf key_walk [OF wf] by (simp add: contents_insert wf_disp_def)
  show ?thesis
  proof (cases "dget (group_count d) ?k = None \<or> structure_dirty d")
    case True
    then have "\<not> structure_dirty (submit_group h toks d)"
      and "disp_dfs_keys (submit_group h toks d) = dfs_group_keys True ?T"
      by (auto simp: submit_group_def Let_def recompute_dfs_keys_def)
    then show ?thesis using dfs_keys_contents [OF T] by (simp add: submit_group_fields)
  next
    case False
    then have e: "disp_dfs_keys (submit_group h toks d) = disp_dfs_keys d"
      and dirty: "\<not> structure_dirty (submit_group h toks d)"
      by (auto simp: submit_group_def Let_def)
    have "key_mult d ?k \<noteq> 0"
      using False wf unfolding wf_disp_def by (metis option.distinct(1))
    then have "?k \<in> fst ` set_mset (contents (disp_trie d))" by (simp add: key_mult_pos)
    then show ?thesis using False wf dirty
      by (auto simp: e submit_group_fields c wf_disp_def)
  qed
qed

lemma wf_submit_group:
  assumes wf: "wf_disp h d"
  shows "wf_disp h (submit_group h toks d)"
proof -
  let ?k = "py_prefix (disp_max_depth d) toks" and ?d = "submit_group h toks d"
  have c: "contents (trie_insert toks (next_idx d) (disp_trie d)) = add_mset (?k, next_idx d) (contents (disp_trie d))"
    using wf key_walk [OF wf] by (simp add: contents_insert wf_disp_def)
  then have km: "key_mult ?d k = key_mult d k + (if k = ?k then 1 else 0)" for k
    by (simp add: key_mult_def submit_group_fields)
  have gc: "dget (group_count d) k = (if key_mult d k = 0 then None else Some (int (key_mult d k)))"
    "dget (group_hashes d) k = (if key_mult d k = 0 then None else Some (mask32 (h k)))" for k
    using wf by (auto simp: wf_disp_def)
  have "wf_dict (group_count ?d)"
    using wf by (auto simp: submit_group_def recompute_dfs_keys_def Let_def wf_disp_def)
  moreover have "dget (group_count ?d) k = (if key_mult ?d k = 0 then None else Some (int (key_mult ?d k)))" for k
    using gc(1) by (auto simp: dget_group_count_submit dget_or_def km)
  moreover have "dget (group_hashes ?d) k = (if key_mult ?d k = 0 then None else Some (mask32 (h k)))" for k
    using gc(2) by (auto simp: dget_group_hashes_submit km)
  moreover have "\<forall>e \<in># contents (disp_trie ?d). snd e < next_idx ?d"
    using wf by (auto simp: c submit_group_fields wf_disp_def)
  moreover have "max_depth (disp_trie ?d) = disp_max_depth ?d" "wf_trie (disp_trie ?d)"
    using wf by (simp_all add: wf_disp_def submit_group_fields wf_trie_insert) (simp add: trie_insert_def)
  moreover have "\<forall>v \<in> set (dvals (rid_to_remove_info ?d)).
      (py_prefix (disp_max_depth ?d) (fst v), snd v) \<in># contents (disp_trie ?d)"
    using wf by (auto simp: c submit_group_fields wf_disp_def)
  ultimately show ?thesis
    using wf submit_group_keys [OF wf, of toks] unfolding wf_disp_def
    by (simp add: submit_group_fields)
qed

lemma wf_disp_sent: "wf_disp h (d\<lparr>sent := s\<rparr>) = wf_disp h d"
  by (simp add: wf_disp_def)

text \<open>Recording a fresh index under a request id keeps the recorded indices distinct.\<close>

lemma distinct_vals_dset:
  "wf_dict d \<Longrightarrow> distinct (map snd (dvals d)) \<Longrightarrow> (\<forall>v \<in> set (dvals d). snd v \<noteq> snd w) \<Longrightarrow>
     distinct (map snd (dvals (dset k w d)))"
proof (induction d)
  case (Cons x d)
  obtain k' v where x: "x = (k', v)" by (cases x)
  have "snd ` set (dvals (dset k w d)) \<subseteq> insert (snd w) (snd ` set (dvals d))"
    using set_dset_subset [of k w d] by force
  moreover have "snd v \<noteq> snd w" "snd v \<notin> snd ` set (dvals d)"
    using Cons.prems by (auto simp: x image_image)
  ultimately have "snd v \<notin> snd ` set (dvals (dset k w d))" by blast
  moreover have "distinct (map snd (dvals (dset k w d)))" using Cons by (simp add: x)
  ultimately show ?case using Cons.prems by (auto simp: x image_image)
qed simp

lemma wf_disp_info:
  assumes wf: "wf_disp h d" and "(py_prefix (disp_max_depth d) toks, i) \<in># contents (disp_trie d)"
    and "\<forall>v \<in> set (dvals (rid_to_remove_info d)). snd v \<noteq> i"
  shows "wf_disp h (d\<lparr>rid_to_remove_info := dset r (toks, i) (rid_to_remove_info d)\<rparr>)"
proof -
  have "wf_dict (dset r (toks, i) (rid_to_remove_info d))" using wf by (simp add: wf_disp_def wf_dset)
  moreover have "distinct (map snd (dvals (dset r (toks, i) (rid_to_remove_info d))))"
    using wf assms(3) by (intro distinct_vals_dset) (auto simp: wf_disp_def)
  moreover have "\<forall>v \<in> set (dvals (dset r (toks, i) (rid_to_remove_info d))).
      (py_prefix (disp_max_depth d) (fst v), snd v) \<in># contents (disp_trie d)"
    using wf assms(2) set_dset_subset [of r "(toks, i)" "rid_to_remove_info d"]
    by (fastforce simp: wf_disp_def)
  ultimately show ?thesis using wf by (simp add: wf_disp_def)
qed

lemma max_depth_remove [simp]: "max_depth (fst (trie_remove toks i T)) = max_depth T"
  by (simp add: trie_remove_def split: option.split)

lemma remove_group_fields [simp]:
  "disp_trie (remove_group k d) = disp_trie d"
  "disp_max_depth (remove_group k d) = disp_max_depth d"
  "next_idx (remove_group k d) = next_idx d"
  "rid_to_remove_info (remove_group k d) = rid_to_remove_info d"
  "disp_dfs_keys (remove_group k d) = disp_dfs_keys d"
  "sent (remove_group k d) = sent d"
  by (simp_all add: remove_group_def split: option.split)

lemma remove_group_dget:
  "dget (group_count d) k = Some c \<Longrightarrow>
     dget (group_count (remove_group k d)) k' =
       (if k' = k then (if c \<le> 1 then None else Some (c - 1)) else dget (group_count d) k')"
  "dget (group_count d) k = Some c \<Longrightarrow>
     dget (group_hashes (remove_group k d)) k' =
       (if k' = k \<and> c \<le> 1 then None else dget (group_hashes d) k')"
  "dget (group_count d) k = Some c \<Longrightarrow>
     structure_dirty (remove_group k d) \<longleftrightarrow> structure_dirty d \<or> c \<le> 1"
  by (auto simp: remove_group_def dict_simps)

lemma wf_dict_remove_group: "wf_dict (group_count d) \<Longrightarrow> wf_dict (group_count (remove_group k d))"
  by (simp add: remove_group_def wf_dset wf_ddel split: option.split)

lemma wf_drop_request:
  assumes wf: "wf_disp h d" and mem: "(py_prefix (disp_max_depth d) toks, i) \<in># contents (disp_trie d)"
    and fresh: "\<forall>v \<in> set (dvals (rid_to_remove_info d)). snd v \<noteq> i"
  shows "wf_disp h (drop_request toks i d)"
proof -
  let ?k = "py_prefix (disp_max_depth d) toks" and ?T = "fst (trie_remove toks i (disp_trie d))"
  let ?d = "drop_request toks i d" and ?d1 = "d\<lparr>disp_trie := ?T\<rparr>"
  have T: "wf_trie (disp_trie d)" using wf by (simp add: wf_disp_def)
  have c: "contents ?T = contents (disp_trie d) - {# (?k, i) #}"
    using contents_remove [OF T] key_walk [OF wf] by simp
  have tr: "disp_trie ?d = ?T" by (simp add: drop_request_def)
  have km: "key_mult ?d k = key_mult d k - (if k = ?k then 1 else 0)" for k
    using mem by (auto simp: key_mult_def tr c size_Diff_singleton)
  have gc: "dget (group_count d) k = (if key_mult d k = 0 then None else Some (int (key_mult d k)))"
    "dget (group_hashes d) k = (if key_mult d k = 0 then None else Some (mask32 (h k)))" for k
    using wf by (auto simp: wf_disp_def)
  have pos: "key_mult d ?k \<noteq> 0" unfolding key_mult_pos using mem by force
  then have k1: "dget (group_count ?d1) ?k = Some (int (key_mult d ?k))" using gc(1) by simp
  note dd = remove_group_dget [OF k1]
  have 1: "dget (group_count ?d) k = (if key_mult ?d k = 0 then None else Some (int (key_mult ?d k)))" for k
    using pos gc(1) unfolding drop_request_def dd(1) km [unfolded drop_request_def] by (auto simp: of_nat_diff)
  have 2: "dget (group_hashes ?d) k = (if key_mult ?d k = 0 then None else Some (mask32 (h k)))" for k
    using pos gc(2) unfolding drop_request_def dd(2) km [unfolded drop_request_def] by auto
  have 3: "distinct (disp_dfs_keys ?d) \<and> set (disp_dfs_keys ?d) = fst ` set_mset (contents (disp_trie ?d))"
    if "\<not> structure_dirty ?d"
  proof -
    have nd: "\<not> structure_dirty d" and "1 < key_mult d ?k"
      using that unfolding drop_request_def dd(3) by auto
    then have "key_mult ?d k = 0 \<longleftrightarrow> key_mult d k = 0" for k by (simp add: km)
    then have "fst ` set_mset (contents (disp_trie ?d)) = fst ` set_mset (contents (disp_trie d))"
      unfolding key_mult_pos by blast
    then show ?thesis using wf nd by (simp add: wf_disp_def drop_request_def)
  qed
  have 4: "\<forall>e \<in># contents (disp_trie ?d). snd e < next_idx ?d"
    using wf by (auto simp: tr c wf_disp_def drop_request_def dest: in_diffD)
  have 5: "\<forall>v \<in> set (dvals (rid_to_remove_info ?d)).
      (py_prefix (disp_max_depth ?d) (fst v), snd v) \<in># contents (disp_trie ?d)"
  proof -
    have "(py_prefix (disp_max_depth d) (fst v), snd v) \<in># contents ?T"
      if "v \<in> set (dvals (rid_to_remove_info d))" for v
    proof -
      have "snd v \<noteq> i" using fresh that by blast
      moreover have "(py_prefix (disp_max_depth d) (fst v), snd v) \<in># contents (disp_trie d)"
        using wf that unfolding wf_disp_def by blast
      ultimately show ?thesis by (auto simp: c in_diff_count)
    qed
    then show ?thesis unfolding tr by (force simp: drop_request_def)
  qed
  have 6: "wf_dict (group_count ?d)"
    unfolding drop_request_def by (rule wf_dict_remove_group) (use wf in \<open>simp add: wf_disp_def\<close>)
  show ?thesis
    using wf 1 2 3 4 5 6 wf_trie_remove [OF T, of toks i]
    unfolding wf_disp_def tr by (simp add: drop_request_def)
qed

section \<open>Ranks\<close>

lemma dict_update_Nil_distinct: "distinct (map fst e) \<Longrightarrow> dict_update [] e = e"
  using dict_update_fresh [of e "[]"] by simp

lemma position_lookup:
  assumes "distinct ks" and "j < length ks"
  shows "dget_or (dict_update [] (zip ks [0..int (length ks) - 1])) (ks ! j) 0 = int j"
proof -
  have "map fst (zip ks [0..int (length ks) - 1]) = ks" by simp
  then have "dict_update [] (zip ks [0..int (length ks) - 1]) = zip ks [0..int (length ks) - 1]"
    using assms(1) by (intro dict_update_Nil_distinct) simp
  moreover have "map_of (zip ks [0..int (length ks) - 1]) (ks ! j) = Some ([0..int (length ks) - 1] ! j)"
    using assms by (intro map_of_zip_nth) auto
  ultimately show ?thesis using assms(2) by (simp add: dget_or_def nth_upto)
qed

lemma sort_rev_position:
  assumes "distinct xs" and "x \<in> set xs"
  obtains j where "j < length xs" and "sort_rev f xs ! j = x"
    and "card {y \<in> set xs. f x < f y} \<le> j" and "j < card {y \<in> set xs. f x \<le> f y}"
proof -
  let ?ys = "sort_rev f xs"
  have d: "distinct ?ys" using assms(1) by (metis mset_sort_rev mset_eq_imp_distinct_iff)
  obtain j where j: "j < length xs" "?ys ! j = x"
    using assms(2) by (metis in_set_conv_nth length_sort_rev set_sort_rev)
  have mono: "f (?ys ! b) \<le> f (?ys ! a)" if "a < b" "b < length xs" for a b
    using sorted_sort_rev [of f xs] that by (simp add: sorted_wrt_iff_nth_less)
  have "{y \<in> set xs. f x < f y} \<subseteq> set (take j ?ys)"
  proof
    fix y assume y: "y \<in> {y \<in> set xs. f x < f y}"
    then obtain a where a: "a < length xs" "?ys ! a = y"
      by (metis (lifting) in_set_conv_nth length_sort_rev mem_Collect_eq set_sort_rev)
    have "a < j"
    proof (rule ccontr)
      assume "\<not> a < j"
      then have "f y \<le> f x" using mono [of j a] a j by (cases "a = j") auto
      then show False using y by auto
    qed
    then have "take j ?ys ! a = y" "a < length (take j ?ys)" using a j by simp_all
    then show "y \<in> set (take j ?ys)" using nth_mem by blast
  qed
  then have "card {y \<in> set xs. f x < f y} \<le> card (set (take j ?ys))" by (intro card_mono) auto
  also have "\<dots> \<le> j" by (metis card_length length_take min.cobounded2 order_trans)
  finally have lo: "card {y \<in> set xs. f x < f y} \<le> j" .
  have sub: "set (take (Suc j) ?ys) \<subseteq> {y \<in> set xs. f x \<le> f y}"
  proof
    fix y assume "y \<in> set (take (Suc j) ?ys)"
    then obtain a where a: "a < Suc j" "a < length xs" "?ys ! a = y"
      by (auto simp: in_set_conv_nth)
    then have "f x \<le> f y" using mono [of a j] j by (cases "a = j") auto
    moreover have "y \<in> set xs" using a by (metis length_sort_rev nth_mem set_sort_rev)
    ultimately show "y \<in> {y \<in> set xs. f x \<le> f y}" by simp
  qed
  have "card (set (take (Suc j) ?ys)) = Suc j" using d j by (simp add: distinct_card)
  then have "j < card {y \<in> set xs. f x \<le> f y}" using card_mono [OF _ sub] by simp
  then show ?thesis using that j lo by blast
qed

lemma group_rank_bounds:
  assumes "distinct (disp_dfs_keys d)" and "key \<in> set (disp_dfs_keys d)"
  defines "cnt \<equiv> \<lambda>k. dget_or (group_count d) k 0"
  shows "int (card {k \<in> set (disp_dfs_keys d). cnt key < cnt k}) \<le> group_rank d key
    \<and> group_rank d key < int (card {k \<in> set (disp_dfs_keys d). cnt key \<le> cnt k})"
proof -
  obtain j where j: "j < length (disp_dfs_keys d)" "ranked_keys d ! j = key"
    "card {k \<in> set (disp_dfs_keys d). cnt key < cnt k} \<le> j"
    "j < card {k \<in> set (disp_dfs_keys d). cnt key \<le> cnt k}"
    by (rule sort_rev_position [OF assms(1,2), of cnt]) (rule that, auto simp: ranked_keys_def cnt_def)
  have "distinct (ranked_keys d)"
    using assms(1) unfolding ranked_keys_def by (metis mset_sort_rev mset_eq_imp_distinct_iff)
  then have "group_rank d key = int j"
    using position_lookup [of "ranked_keys d" j] j by (simp add: group_rank_def) (simp add: ranked_keys_def)
  then show ?thesis using j by simp
qed

section \<open>The operations never fail on a well-formed dispatcher\<close>

text \<open>What the engine does with a recorded request: \<open>pop\<close> its entry, then \<open>remove\<close>.\<close>

definition forget_rid :: "string \<Rightarrow> dispatcher \<Rightarrow> dispatcher" where
  "forget_rid r d = d\<lparr>rid_to_remove_info := ddel r (rid_to_remove_info d)\<rparr>"

lemma distinct_map_subset_ddel: "distinct (map f d) \<Longrightarrow> distinct (map f (ddel k d))"
  unfolding AList.delete_eq by (rule distinct_map_filter)

lemma wf_forget_rid: "wf_disp h d \<Longrightarrow> wf_disp h (forget_rid r d)"
proof -
  assume wf: "wf_disp h d"
  then have "distinct (map (snd \<circ> snd) (ddel r (rid_to_remove_info d)))"
    by (intro distinct_map_subset_ddel) (simp add: wf_disp_def)
  moreover have "set (ddel r (rid_to_remove_info d)) \<subseteq> set (rid_to_remove_info d)" by (rule set_ddel_subset)
  ultimately show ?thesis using wf unfolding wf_disp_def forget_rid_def
    by (auto simp: wf_ddel)
qed

lemma info_mem:
  "wf_disp h d \<Longrightarrow> v \<in> set (dvals (rid_to_remove_info d)) \<Longrightarrow>
     (py_prefix (disp_max_depth d) (fst v), snd v) \<in># contents (disp_trie d)"
  unfolding wf_disp_def by blast

lemma forget_rid_fresh:
  assumes "wf_disp h d" and r: "dget (rid_to_remove_info d) r = Some (toks, i)"
  shows "\<forall>v \<in> set (dvals (rid_to_remove_info (forget_rid r d))). snd v \<noteq> i"
proof -
  have wf: "wf_dict (rid_to_remove_info d)" "distinct (map snd (dvals (rid_to_remove_info d)))"
    using assms by (simp_all add: wf_disp_def)
  obtain d1 d2 where "rid_to_remove_info d = d1 @ (r, (toks, i)) # d2" "ddel r (rid_to_remove_info d) = d1 @ d2"
    using dset_split [OF wf(1) r] by metis
  then show ?thesis using wf(2) by (force simp: forget_rid_def)
qed

lemma disp_remove_eq: "push_pending_to_server (drop_request toks i d) store = Inr store' \<Longrightarrow>
    disp_remove toks i (d, store) = Inr (drop_request toks i d, store')"
  by (simp add: disp_remove_def)

lemma contents_drop_request:
  "wf_disp h d \<Longrightarrow> contents (disp_trie (drop_request toks i d)) =
     contents (disp_trie d) - {# (py_prefix (disp_max_depth d) toks, i) #}"
  by (simp add: drop_request_def contents_remove key_walk) (simp add: wf_disp_def contents_remove)

lemma info_in_trie:
  assumes "wf_disp h d" and "dget (rid_to_remove_info d) r = Some (toks, i)"
  shows "(py_prefix (disp_max_depth d) toks, i) \<in># contents (disp_trie d)"
proof -
  have "(toks, i) \<in> set (dvals (rid_to_remove_info d))"
    using assms(2) by (metis map_of_SomeD in_set_zipE zip_map_fst_snd)
  then show ?thesis using info_mem [OF assms(1)] by force
qed

text \<open>The dispatcher after \<open>submit\<close>, written out.\<close>

definition submitted :: "(int list \<Rightarrow> int) \<Rightarrow> disp_request \<Rightarrow> dispatcher \<Rightarrow> dispatcher" where
  "submitted h req d =
     (let key = py_prefix (disp_max_depth d) (req_token_ids req);
          d1 = submit_group h (req_token_ids req) d;
          orig = orig_rid req (next_idx d)
      in if req_is_dict req
         then d1\<lparr>rid_to_remove_info := dset orig (req_token_ids req, next_idx d) (rid_to_remove_info d1),
                 sent := sent d1 @ [tag_request (group_rank d1 key) (mask32 (h key)) orig req]\<rparr>
         else d1\<lparr>sent := sent d1 @ [req]\<rparr>)"

lemma contents_submit_group:
  "wf_disp h d \<Longrightarrow> contents (disp_trie (submit_group h toks d)) =
     add_mset (py_prefix (disp_max_depth d) toks, next_idx d) (contents (disp_trie d))"
  by (simp add: submit_group_fields key_walk) (simp add: wf_disp_def contents_insert)

lemma wf_submitted:
  assumes wf: "wf_disp h d"
  shows "wf_disp h (submitted h req d)"
proof -
  let ?t = "req_token_ids req" and ?d = "submit_group h (req_token_ids req) d"
  have wfd: "wf_disp h ?d" by (rule wf_submit_group [OF wf])
  have mem: "(py_prefix (disp_max_depth ?d) ?t, next_idx d) \<in># contents (disp_trie ?d)"
    using contents_submit_group [OF wf, of ?t] by (simp add: submit_group_fields(2))
  have "snd v \<noteq> next_idx d" if "v \<in> set (dvals (rid_to_remove_info ?d))" for v
  proof -
    from that have "(py_prefix (disp_max_depth d) (fst v), snd v) \<in># contents (disp_trie d)"
      by (intro info_mem [OF wf]) (simp add: submit_group_fields)
    then show ?thesis using wf by (auto simp: wf_disp_def)
  qed
  from wf_disp_info [OF wfd mem, of "orig_rid req (next_idx d)"] this
  have "wf_disp h (?d\<lparr>rid_to_remove_info :=
      dset (orig_rid req (next_idx d)) (?t, next_idx d) (rid_to_remove_info ?d)\<rparr>)" by blast
  then show ?thesis using wfd by (simp add: submitted_def Let_def wf_disp_sent)
qed

lemma submit_total:
  assumes wf: "wf_disp h d"
  shows "\<exists>store'. submit h req (d, store) = Inr (submitted h req d, store')
    \<and> published h (submitted h req d) store'"
proof -
  let ?k = "py_prefix (disp_max_depth d) (req_token_ids req)" and ?d = "submit_group h (req_token_ids req) d"
  have wfd: "wf_disp h ?d" by (rule wf_submit_group [OF wf])
  have "key_mult ?d ?k \<noteq> 0" unfolding key_mult_pos contents_submit_group [OF wf] by simp
  then have "lookup_key (group_hashes ?d) ?k = Inr (mask32 (h ?k))"
    using wfd by (simp add: lookup_key_def wf_disp_def)
  moreover obtain store' where "push_pending_to_server (submitted h req d) store = Inr store'"
    "published h (submitted h req d) store'"
    using push_pending_total [OF wf_submitted [OF wf]] by blast
  ultimately show ?thesis by (simp add: submit_def submitted_def Let_def)
qed

section \<open>Properties\<close>

text \<open>
  Whatever the thresholds, the batch reordering returns each index of the batch exactly once:
  no prompt is lost and none is sent twice.
\<close>

lemma reorder_is_permutation:
  "mset (reorder_for_prefix_sharing msd mc mas md seqs) = mset [0..int (length seqs) - 1]
   \<and> distinct (reorder_for_prefix_sharing msd mc mas md seqs)
   \<and> length (reorder_for_prefix_sharing msd mc mas md seqs) = length seqs"
proof -
  have m: "mset (reorder_for_prefix_sharing msd mc mas md seqs) = mset [0..int (length seqs) - 1]"
    by (rule reorder_mset_upto)
  then have "length (reorder_for_prefix_sharing msd mc mas md seqs) = length seqs"
    by (metis length_upto mset_eq_length nat_int diff_add_cancel diff_0_right)
  then show ?thesis using m by (metis distinct_upto mset_eq_imp_distinct_iff)
qed

text \<open>
  \<open>submit\<close> never raises on a well-formed dispatcher and keeps it well formed: exactly the new
  request is added to the trie, the counts and hashes follow, the DFS keys are current afterwards,
  the request is sent last, and the server can read every group's pending count (groups whose
  32-bit hashes collide excepted).
\<close>

lemma submit_correct:
  assumes "wf_disp h d"
  shows "\<exists>d' store' out. submit h req (d, store) = Inr (d', store')
    \<and> wf_disp h d' \<and> \<not> structure_dirty d' \<and> sent d' = sent d @ [out]
    \<and> contents (disp_trie d') =
        add_mset (py_prefix (disp_max_depth d) (req_token_ids req), next_idx d) (contents (disp_trie d))
    \<and> published h d' store'"
proof -
  obtain store' where s: "submit h req (d, store) = Inr (submitted h req d, store')"
    "published h (submitted h req d) store'" using submit_total [OF assms] by blast
  have "\<not> structure_dirty (submitted h req d)"
    using submit_group_keys [OF assms] by (simp add: submitted_def Let_def)
  moreover have "contents (disp_trie (submitted h req d)) =
      add_mset (py_prefix (disp_max_depth d) (req_token_ids req), next_idx d) (contents (disp_trie d))"
    using contents_submit_group [OF assms] by (simp add: submitted_def Let_def)
  moreover have "\<exists>out. sent (submitted h req d) = sent d @ [out]"
    by (simp add: submitted_def Let_def submit_group_fields)
  ultimately show ?thesis using s wf_submitted [OF assms] by blast
qed

definition sample_request :: disp_request where
  "sample_request = \<lparr>req_is_dict = True, req_token_ids = [1, 2, 3], req_id = Some ''a:b'',
     req_rid = None, peek_group_order = None, peek_group_key = None\<rparr>"


text \<open>
  The rank in the tag is the group's place in the order of descending pending counts: at
  least as many groups precede it as have strictly more pending requests, and fewer than have at
  least as many. The tag carries the group's masked hash and the request's own id.
\<close>

lemma submit_rank_correct:
  assumes "wf_disp h d" and "req_is_dict req" and "submit h req (d, store) = Inr (d', store')"
  shows "\<exists>rank. let key = py_prefix (disp_max_depth d) (req_token_ids req);
                    cnt = (\<lambda>k. dget_or (group_count d') k 0) in
    last (sent d') = tag_request rank (mask32 (h key)) (orig_rid req (next_idx d)) req
    \<and> int (card {k \<in> set (dkeys (group_count d')). cnt key < cnt k}) \<le> rank
    \<and> rank < int (card {k \<in> set (dkeys (group_count d')). cnt key \<le> cnt k})"
proof -
  let ?key = "py_prefix (disp_max_depth d) (req_token_ids req)"
  let ?d = "submit_group h (req_token_ids req) d"
  have d': "d' = submitted h req d" using submit_total [OF assms(1), of req store] assms(3) by auto
  have wfd: "wf_disp h ?d" by (rule wf_submit_group [OF assms(1)])
  have gc: "group_count d' = group_count ?d" by (simp add: d' submitted_def Let_def)
  have keys: "set (dkeys (group_count ?d)) = fst ` set_mset (contents (disp_trie ?d))"
    by (rule keys_group_count [OF wfd])
  have k: "set (disp_dfs_keys ?d) = set (dkeys (group_count ?d))" "distinct (disp_dfs_keys ?d)"
    using submit_group_keys [OF assms(1)] keys by simp_all
  have "?key \<in> set (disp_dfs_keys ?d)" unfolding k keys contents_submit_group [OF assms(1)] by simp
  from group_rank_bounds [OF k(2) this] have
    "int (card {k \<in> set (dkeys (group_count ?d)). dget_or (group_count ?d) ?key 0 < dget_or (group_count ?d) k 0})
       \<le> group_rank ?d ?key
     \<and> group_rank ?d ?key
       < int (card {k \<in> set (dkeys (group_count ?d)). dget_or (group_count ?d) ?key 0 \<le> dget_or (group_count ?d) k 0})"
    unfolding k(1) .
  moreover have "last (sent d') =
      tag_request (group_rank ?d ?key) (mask32 (h ?key)) (orig_rid req (next_idx d)) req"
    using assms(2) by (simp add: d' submitted_def Let_def)
  ultimately show ?thesis unfolding Let_def gc by blast
qed


text \<open>
  C5: The engine's removal of an admitted request (pop its record, then \<open>remove\<close>) never raises,
  keeps the dispatcher well formed, takes exactly that request out of the trie and publishes the
  new counts.
\<close>

theorem remove_recorded_correct:
  assumes "wf_disp h d" and "dget (rid_to_remove_info d) r = Some (toks, i)"
  shows "\<exists>d' store'. disp_remove toks i (forget_rid r d, store) = Inr (d', store')
    \<and> wf_disp h d' \<and> published h d' store'
    \<and> contents (disp_trie d') = contents (disp_trie d) - {# (py_prefix (disp_max_depth d) toks, i) #}"
proof -
  let ?d = "forget_rid r d"
  have wf: "wf_disp h ?d" by (rule wf_forget_rid [OF assms(1)])
  have "(py_prefix (disp_max_depth ?d) toks, i) \<in># contents (disp_trie ?d)"
    using info_in_trie [OF assms] by (simp add: forget_rid_def)
  from wf_drop_request [OF wf this forget_rid_fresh [OF assms]] have wf': "wf_disp h (drop_request toks i ?d)" .
  moreover have "contents (disp_trie (drop_request toks i ?d)) =
      contents (disp_trie d) - {# (py_prefix (disp_max_depth d) toks, i) #}"
    unfolding contents_drop_request [OF wf] by (simp add: forget_rid_def)
  ultimately show ?thesis using push_pending_total [OF wf', of store] disp_remove_eq by metis
qed

theorem remove_recorded_correct_witness:
  "\<exists>d' store'. disp_remove [1, 2, 3] 0
     (forget_rid ''a:b'' (submitted (\<lambda>k. 7) sample_request (dispatcher_init 128)), None) = Inr (d', store')
    \<and> wf_disp (\<lambda>k. 7) d'"
proof -
  have wf: "wf_disp (\<lambda>k. 7) (submitted (\<lambda>k. 7) sample_request (dispatcher_init 128))"
    by (intro wf_submitted wf_disp_init) simp
  have "dget (rid_to_remove_info (submitted (\<lambda>k. 7) sample_request (dispatcher_init 128))) ''a:b''
      = Some ([1, 2, 3], 0)"
    by (simp add: submitted_def Let_def sample_request_def orig_rid_def dispatcher_init_def dict_simps)
  from remove_recorded_correct [OF wf this] show ?thesis by blast
qed

text \<open>
  Submitting a request and then removing it leaves no trace in the scheduling state: the trie
  is restored exactly and every group has the count it had before.
\<close>

lemma submit_remove_roundtrip:
  assumes "wf_disp h d" and "submit h req (d, store) = Inr (d1, store1)"
    and "disp_remove (req_token_ids req) (next_idx d) (d1, store1) = Inr (d2, store2)"
  shows "disp_trie d2 = disp_trie d \<and> (\<forall>k. dget (group_count d2) k = dget (group_count d) k)"
proof -
  let ?toks = "req_token_ids req" and ?k = "py_prefix (disp_max_depth d) (req_token_ids req)"
  have d1: "d1 = submitted h req d" using submit_total [OF assms(1), of req store] assms(2) by auto
  have d2: "d2 = drop_request ?toks (next_idx d) d1"
    using assms(3) by (auto simp: disp_remove_def Let_def rbind_Inr_iff)
  have T: "wf_trie (disp_trie d)" using assms(1) by (simp add: wf_disp_def)
  have "(walk_tokens (disp_trie d) ?toks, next_idx d) \<notin># contents (disp_trie d)"
    using assms(1) by (auto simp: wf_disp_def)
  from trie_remove_insert_id [OF T this] have tr: "disp_trie d2 = disp_trie d"
    by (simp add: d2 d1 drop_request_def submitted_def Let_def submit_group_fields)
  have md: "disp_max_depth d1 = disp_max_depth d"
    by (simp add: d1 submitted_def Let_def submit_group_fields)
  let ?c = "dget_or (group_count d) ?k 0"
  have gk: "dget (group_count d1) k =
      (if k = ?k then Some (?c + 1) else dget (group_count d) k)" for k
    by (simp add: d1 submitted_def Let_def dget_group_count_submit)
  have "dget (group_count d2) k = dget (group_count d) k" for k
  proof -
    have "dget (group_count d2) k = (if k = ?k then (if ?c + 1 \<le> 1 then None else Some ?c)
        else dget (group_count d) k)"
      unfolding d2 drop_request_def md
      by (subst remove_group_dget(1) [where c = "?c + 1"]) (simp_all add: gk)
    moreover have "dget (group_count d) ?k = (if key_mult d ?k = 0 then None else Some (int (key_mult d ?k)))"
      using assms(1) unfolding wf_disp_def by blast
    ultimately show ?thesis by (auto simp: dget_or_def split: if_splits)
  qed
  with tr show ?thesis by blast
qed


end
