(* ===== verification/Radix_Cache.thy ===== *)
theory Radix_Cache
  imports Py_Str Py_Float
begin

text \<open>
  \<open>src/python/peek/offline/sglang_patches/patched_files/radix_cache.py\<close>: the server's radix tree
  with PEEK's queue reference counts, cached depths and read-only matching. Nodes are shared and
  mutated through references (a request keeps a pointer to its last node), so the tree is a heap of
  node records addressed by \<open>TreeNode.id\<close>; a total function, because a Python reference is never
  dangling. Tensors of KV indices are lists of integers. Clock readings are arguments: \<open>tm k\<close> is the
  \<open>k\<close>-th reading of the operation.
\<close>

section \<open>Keys\<close>

record radix_key =
  token_ids :: "int list"
  extra_key :: "string option"
  is_bigram :: bool

text \<open>
  The key of a child in its parent's dictionary: the first token or the first page of tokens,
  paired with the extra key when there is one.
\<close>

datatype plain_key = Tok int | Page "int list"

type_synonym child_key = "string option \<times> plain_key"

definition key_len :: "radix_key \<Rightarrow> int" where
  "key_len k = int (length (token_ids k))"

text \<open>Slicing builds a new key with the default \<open>is_bigram\<close> flag.\<close>

definition key_drop :: "int \<Rightarrow> radix_key \<Rightarrow> radix_key" where
  "key_drop n k = k\<lparr>token_ids := drop (nat n) (token_ids k), is_bigram := False\<rparr>"

definition key_take :: "int \<Rightarrow> radix_key \<Rightarrow> radix_key" where
  "key_take n k = k\<lparr>token_ids := take (nat n) (token_ids k), is_bigram := False\<rparr>"

text \<open>Only called on non-empty keys (\<open>token_ids[0]\<close> would raise \<open>IndexError\<close>).\<close>

definition get_child_key :: "int \<Rightarrow> radix_key \<Rightarrow> child_key" where
  "get_child_key page_size k =
     (extra_key k, if page_size = 1 then Tok (hd (token_ids k))
                   else Page (take (nat page_size) (token_ids k)))"

definition check_extra_key :: "radix_key \<Rightarrow> radix_key \<Rightarrow> unit res" where
  "check_extra_key k0 k1 = (if extra_key k0 \<noteq> extra_key k1 then Inl ValueError else Inr ())"

fun match_tokens :: "int list \<Rightarrow> int list \<Rightarrow> int" where
  "match_tokens (a # as) (b # bs) = (if a \<noteq> b then 0 else 1 + match_tokens as bs)"
| "match_tokens _ _ = 0"

definition key_match_page_size1 :: "radix_key \<Rightarrow> radix_key \<Rightarrow> int res" where
  "key_match_page_size1 k0 k1 =
     rbind (check_extra_key k0 k1) (\<lambda>_. Inr (match_tokens (token_ids k0) (token_ids k1)))"

text \<open>The loop compares page-sized slices from \<open>i\<close> on while \<open>i < min_len\<close>; \<open>page_size > 0\<close>.\<close>

function match_pages :: "nat \<Rightarrow> int list \<Rightarrow> int list \<Rightarrow> int" where
  "match_pages p as bs =
     (if p = 0 \<or> as = [] \<or> bs = [] then 0
      else if take p as \<noteq> take p bs then 0
      else int p + match_pages p (drop p as) (drop p bs))"
  by pat_completeness auto
termination
  by (relation "measure (\<lambda>(p, as, bs). length as)") auto

declare match_pages.simps [simp del]

definition key_match_paged :: "int \<Rightarrow> radix_key \<Rightarrow> radix_key \<Rightarrow> int res" where
  "key_match_paged page_size k0 k1 =
     rbind (check_extra_key k0 k1)
       (\<lambda>_. Inr (match_pages (nat page_size) (token_ids k0) (token_ids k1)))"

definition key_match :: "int \<Rightarrow> radix_key \<Rightarrow> radix_key \<Rightarrow> int res" where
  "key_match page_size k0 k1 =
     (if page_size = 1 then key_match_page_size1 k0 k1 else key_match_paged page_size k0 k1)"

text \<open>Splitting the per-page hashes of a node; Python's floor division.\<close>

definition split_node_hash_value ::
  "string list option \<Rightarrow> int \<Rightarrow> int \<Rightarrow> string list option \<times> string list option"
where
  "split_node_hash_value child_hash split_len page_size =
     (case child_hash of
        None \<Rightarrow> (None, None)
      | Some hs \<Rightarrow>
          let split_pages = (if page_size = 1 then split_len else split_len div page_size)
          in (Some (take (nat split_pages) hs), Some (drop (nat split_pages) hs)))"

section \<open>Nodes and the cache\<close>

record rnode =
  rchildren :: "(child_key, nat) pydict"
  rparent :: "nat option"
  rkey :: radix_key
  rvalue :: "int list option"
  lock_ref :: int
  last_access_time :: pyfloat
  creation_time :: pyfloat
  hit_count :: int
  host_ref_counter :: int
  hash_value :: "string list option"
  priority :: int
  queue_ref_count :: int
  rdepth :: int

definition empty_key :: radix_key where
  "empty_key = \<lparr>token_ids = [], extra_key = None, is_bigram = False\<rparr>"

definition new_tree_node :: "pyfloat \<Rightarrow> pyfloat \<Rightarrow> int \<Rightarrow> rnode" where
  "new_tree_node t0 t1 prio =
     \<lparr>rchildren = [], rparent = None, rkey = empty_key, rvalue = None, lock_ref = 0,
      last_access_time = t0, creation_time = t1, hit_count = 0, host_ref_counter = 0,
      hash_value = None, priority = prio, queue_ref_count = 0, rdepth = 0\<rparr>"

definition evicted :: "rnode \<Rightarrow> bool" where
  "evicted n \<longleftrightarrow> rvalue n = None"

definition protect_host :: "rnode \<Rightarrow> rnode" where
  "protect_host n = n\<lparr>host_ref_counter := host_ref_counter n + 1\<rparr>"

text \<open>
  The cache: the heap, the next id (the class counter), the root, the two size counters, the set of
  evictable leaves and the indices handed back to the allocator. \<open>page_size\<close>, \<open>disable\<close> and the
  optional bigram conversion (\<open>is_eagle\<close>, a function of SGLang) are fixed at construction.
\<close>

record rc_config =
  disable :: bool
  page_size :: int
  bigram :: "(int list \<Rightarrow> int list) option"

record radix_cache =
  heap :: "nat \<Rightarrow> rnode"
  counter :: nat
  root_node :: nat
  evictable_size :: int
  protected_size :: int
  evictable_leaves :: "nat list"
  freed :: "int list"

definition upd_node :: "nat \<Rightarrow> (rnode \<Rightarrow> rnode) \<Rightarrow> radix_cache \<Rightarrow> radix_cache" where
  "upd_node n f c = c\<lparr>heap := (heap c)(n := f (heap c n))\<rparr>"

definition alloc_node :: "rnode \<Rightarrow> radix_cache \<Rightarrow> radix_cache \<times> nat" where
  "alloc_node nd c = (c\<lparr>heap := (heap c)(counter c := nd), counter := counter c + 1\<rparr>, counter c)"

text \<open>\<open>-sys.maxsize\<close> on the supported 64-bit platforms.\<close>

definition root_priority :: int where
  "root_priority = - 9223372036854775807"

definition cache_reset :: "(nat \<Rightarrow> pyfloat) \<Rightarrow> radix_cache \<Rightarrow> radix_cache" where
  "cache_reset tm c =
     (let nd = (new_tree_node (tm 0) (tm 1) root_priority)
                 \<lparr>rvalue := Some [], lock_ref := 1, hash_value := Some []\<rparr>;
          (c1, r) = alloc_node nd c
      in c1\<lparr>root_node := r, evictable_size := 0, protected_size := 0, evictable_leaves := []\<rparr>)"

definition cache_init :: "(nat \<Rightarrow> pyfloat) \<Rightarrow> radix_cache" where
  "cache_init tm = cache_reset tm
     \<lparr>heap = (\<lambda>_. new_tree_node 0 0 0), counter = 0, root_node = 0, evictable_size = 0,
      protected_size = 0, evictable_leaves = [], freed = []\<rparr>"

text \<open>\<open>evictable_leaves\<close> is a set: \<open>add\<close> and \<open>remove\<close> are guarded by membership tests.\<close>

definition update_leaf_status :: "nat \<Rightarrow> radix_cache \<Rightarrow> radix_cache" where
  "update_leaf_status n c =
     (let nd = heap c n in
      if evicted nd \<or> 0 < lock_ref nd
         \<or> (\<exists>ch \<in> set (dvals (rchildren nd)). \<not> evicted (heap c ch))
      then c\<lparr>evictable_leaves := filter (\<lambda>m. m \<noteq> n) (evictable_leaves c)\<rparr>
      else if n \<in> set (evictable_leaves c) then c
      else c\<lparr>evictable_leaves := evictable_leaves c @ [n]\<rparr>)"

section \<open>Splitting, matching and insertion\<close>

definition split_node ::
  "rc_config \<Rightarrow> (nat \<Rightarrow> pyfloat) \<Rightarrow> nat \<Rightarrow> int \<Rightarrow> radix_cache \<Rightarrow> (radix_cache \<times> nat) res"
where
  "split_node cfg tm child split_len c =
     (let cd = heap c child; key = rkey cd; ps = page_size cfg;
          (h_new, h_child) = split_node_hash_value (hash_value cd) split_len ps
      in case rparent cd of
           None \<Rightarrow> Inl AttributeError
         | Some p \<Rightarrow>
             let nd = (new_tree_node (tm 1) (tm 2) (priority cd))
                   \<lparr>rchildren := [(get_child_key ps (key_drop split_len key), child)],
                    rparent := Some p,
                    lock_ref := lock_ref cd,
                    queue_ref_count := queue_ref_count cd,
                    rkey := key_take split_len key,
                    rvalue := map_option (take (nat split_len)) (rvalue cd),
                    rdepth := rdepth (heap c p) + split_len,
                    hash_value := h_new\<rparr>;
                 (c1, new) = alloc_node nd c;
                 c2 = upd_node child (\<lambda>x. x\<lparr>rparent := Some new, rkey := key_drop split_len key,
                        rvalue := map_option (drop (nat split_len)) (rvalue x),
                        hash_value := h_child\<rparr>) c1;
                 c3 = upd_node p (\<lambda>x. x\<lparr>rchildren := dset (get_child_key ps key) new (rchildren x)\<rparr>) c2
             in Inr (c3, new))"

definition set_access :: "bool \<Rightarrow> pyfloat \<Rightarrow> nat \<Rightarrow> radix_cache \<Rightarrow> radix_cache" where
  "set_access update_lru t n c =
     (if update_lru then upd_node n (\<lambda>x. x\<lparr>last_access_time := t\<rparr>) c else c)"

definition add_hit :: "bool \<Rightarrow> nat \<Rightarrow> radix_cache \<Rightarrow> radix_cache" where
  "add_hit update_lru n c =
     (if update_lru then upd_node n (\<lambda>x. x\<lparr>hit_count := hit_count x + 1\<rparr>) c else c)"

definition node_values :: "rnode \<Rightarrow> int list" where
  "node_values n = (case rvalue n of None \<Rightarrow> [] | Some v \<Rightarrow> v)"

text \<open>
  The loops below follow dictionary entries and parent pointers, so they may fail to end on a heap
  that is not a tree: \<open>None\<close> is a run that does not return, \<open>Some (Inl e)\<close> one that raises.
\<close>

type_synonym 'a run = "'a res option"

definition ret :: "'a \<Rightarrow> 'a run" where
  "ret a = Some (Inr a)"

definition obind :: "'a run \<Rightarrow> ('a \<Rightarrow> 'b run) \<Rightarrow> 'b run" where
  "obind m f = (case m of None \<Rightarrow> None | Some (Inl e) \<Rightarrow> Some (Inl e) | Some (Inr a) \<Rightarrow> f a)"

lemma obind_simps [simp]:
  "obind None f = None" "obind (Some (Inl e)) f = Some (Inl e)" "obind (Some (Inr a)) f = f a"
  "obind (ret a) f = f a"
  by (simp_all add: obind_def ret_def)

partial_function (option) match_loop ::
  "rc_config \<Rightarrow> (nat \<Rightarrow> pyfloat) \<Rightarrow> bool \<Rightarrow> radix_key \<Rightarrow> nat \<Rightarrow> int list \<Rightarrow> radix_cache \<Rightarrow>
     (radix_cache \<times> int list \<times> nat) run"
where
  "match_loop cfg tm update_lru key node value c =
     (if token_ids key = [] then ret (c, value, node)
      else case dget (rchildren (heap c node)) (get_child_key (page_size cfg) key) of
        None \<Rightarrow> ret (c, value, node)
      | Some child \<Rightarrow>
          let c1 = set_access update_lru (tm 0) child c in
          case key_match (page_size cfg) (rkey (heap c1 child)) key of
            Inl e \<Rightarrow> Some (Inl e)
          | Inr prefix_len \<Rightarrow>
              if prefix_len < key_len (rkey (heap c1 child))
              then (case split_node cfg tm child prefix_len c1 of
                      Inl e \<Rightarrow> Some (Inl e)
                    | Inr (c2, new) \<Rightarrow>
                        let c3 = add_hit update_lru new c2
                        in ret (c3, value @ node_values (heap c3 new), new))
              else let c2 = add_hit update_lru child c1
                   in match_loop cfg tm update_lru (key_drop prefix_len key) child
                        (value @ node_values (heap c2 child)) c2)"

declare match_loop.simps [code]

record match_result =
  device_indices :: "int list"
  last_device_node :: nat
  last_host_node :: nat

definition maybe_bigram_convert :: "rc_config \<Rightarrow> radix_key \<Rightarrow> radix_key" where
  "maybe_bigram_convert cfg key =
     (case bigram cfg of
        None \<Rightarrow> key
      | Some conv \<Rightarrow> if is_bigram key then key else key\<lparr>token_ids := conv (token_ids key)\<rparr>)"

definition page_align :: "rc_config \<Rightarrow> radix_key \<Rightarrow> radix_key" where
  "page_align cfg key =
     (if page_size cfg \<noteq> 1 then key_take (key_len key div page_size cfg * page_size cfg) key else key)"

definition match_with ::
  "bool \<Rightarrow> rc_config \<Rightarrow> (nat \<Rightarrow> pyfloat) \<Rightarrow> radix_key \<Rightarrow> radix_cache \<Rightarrow> (radix_cache \<times> match_result) run"
where
  "match_with update_lru cfg tm key0 c =
     (let key1 = maybe_bigram_convert cfg key0;
          empty = \<lparr>device_indices = [], last_device_node = root_node c, last_host_node = root_node c\<rparr> in
      if disable cfg \<or> key_len key1 = 0 then ret (c, empty)
      else let key = page_align cfg key1 in
        if key_len key = 0 then ret (c, empty)
        else obind (match_loop cfg tm update_lru key (root_node c) []
                     (set_access update_lru (tm 0) (root_node c) c))
               (\<lambda>(c', value, node).
                  ret (c', \<lparr>device_indices = value, last_device_node = node, last_host_node = node\<rparr>)))"

definition match_prefix where "match_prefix = match_with True"
definition match_prefix_readonly where "match_prefix_readonly = match_with False"

text \<open>\<open>_insert_helper\<close>: walk, split at a partial match and go on, then add what is left as a leaf.\<close>

definition raise_priority :: "int \<Rightarrow> nat \<Rightarrow> radix_cache \<Rightarrow> radix_cache" where
  "raise_priority p n c = upd_node n (\<lambda>x. x\<lparr>priority := max (priority x) p\<rparr>) c"

partial_function (option) insert_loop ::
  "rc_config \<Rightarrow> (nat \<Rightarrow> pyfloat) \<Rightarrow> int \<Rightarrow> radix_key \<Rightarrow> int list \<Rightarrow> nat \<Rightarrow> int \<Rightarrow> radix_cache \<Rightarrow>
     (radix_cache \<times> radix_key \<times> int list \<times> nat \<times> int) run"
where
  "insert_loop cfg tm prio key value node tot c =
     (if token_ids key = [] then ret (c, key, value, node, tot)
      else case dget (rchildren (heap c node)) (get_child_key (page_size cfg) key) of
        None \<Rightarrow> ret (c, key, value, node, tot)
      | Some child \<Rightarrow>
          let c1 = upd_node child (\<lambda>x. x\<lparr>last_access_time := tm 0\<rparr>) c in
          case key_match (page_size cfg) (rkey (heap c1 child)) key of
            Inl e \<Rightarrow> Some (Inl e)
          | Inr prefix_len \<Rightarrow>
              let key' = key_drop prefix_len key; value' = drop (nat prefix_len) value;
                  tot' = tot + prefix_len in
              if prefix_len < key_len (rkey (heap c1 child))
              then (case split_node cfg tm child prefix_len c1 of
                      Inl e \<Rightarrow> Some (Inl e)
                    | Inr (c2, new) \<Rightarrow>
                        insert_loop cfg tm prio key' value' new tot' (raise_priority prio new c2))
              else insert_loop cfg tm prio key' value' child tot' (raise_priority prio child c1))"

declare insert_loop.simps [code]

definition add_leaf ::
  "rc_config \<Rightarrow> (nat \<Rightarrow> pyfloat) \<Rightarrow> int \<Rightarrow> radix_key \<Rightarrow> int list \<Rightarrow> nat \<Rightarrow> radix_cache \<Rightarrow> radix_cache"
where
  "add_leaf cfg tm prio key value node c =
     (let nd = (new_tree_node (tm 3) (tm 4) prio)
             \<lparr>rparent := Some node, rkey := key, rvalue := Some value,
              rdepth := rdepth (heap c node) + key_len key\<rparr>;
          (c1, new) = alloc_node nd c;
          c2 = upd_node node (\<lambda>x. x\<lparr>rchildren :=
                 dset (get_child_key (page_size cfg) key) new (rchildren x)\<rparr>) c1;
          c3 = c2\<lparr>evictable_size := evictable_size c2 + key_len key\<rparr>
      in update_leaf_status new (update_leaf_status node c3))"

definition insert_helper ::
  "rc_config \<Rightarrow> (nat \<Rightarrow> pyfloat) \<Rightarrow> radix_key \<Rightarrow> int list \<Rightarrow> int option \<Rightarrow> radix_cache \<Rightarrow> (radix_cache \<times> int) run"
where
  "insert_helper cfg tm key value prio0 c =
     (let prio = (case prio0 of None \<Rightarrow> 0 | Some p \<Rightarrow> p);
          r = root_node c;
          c1 = raise_priority prio r (upd_node r (\<lambda>x. x\<lparr>last_access_time := tm 0\<rparr>) c) in
      if token_ids key = [] then ret (c1, 0)
      else obind (insert_loop cfg tm prio key value r 0 c1)
        (\<lambda>(c2, key', value', node, tot).
           ret (if token_ids key' \<noteq> [] then add_leaf cfg tm prio key' value' node c2 else c2, tot)))"

text \<open>\<open>value[: len(key)]\<close> cuts the values to the bigram length; a missing value is the tokens.\<close>

definition cache_insert ::
  "rc_config \<Rightarrow> (nat \<Rightarrow> pyfloat) \<Rightarrow> radix_key \<Rightarrow> int list option \<Rightarrow> int option \<Rightarrow> radix_cache \<Rightarrow>
     (radix_cache \<times> int) run"
where
  "cache_insert cfg tm key0 value0 prio c =
     (if disable cfg then ret (c, 0)
      else let value1 = (case value0 of None \<Rightarrow> token_ids key0 | Some v \<Rightarrow> v);
               key = maybe_bigram_convert cfg key0;
               value = (case bigram cfg of None \<Rightarrow> value1
                        | Some _ \<Rightarrow> if is_bigram key0 then value1 else take (nat (key_len key)) value1)
           in insert_helper cfg tm key value prio c)"

section \<open>Walks up the tree\<close>

text \<open>
  \<open>while node != root: step; node = node.parent\<close>. Running off the tree meets \<open>None\<close>: the next
  attribute access raises (\<open>on_none = Some e\<close>), or the loop tests for it (\<open>on_none = None\<close>).
\<close>

partial_function (option) up_loop ::
  "py_error option \<Rightarrow> ('s \<Rightarrow> radix_cache) \<Rightarrow> (nat \<Rightarrow> 's \<Rightarrow> 's) \<Rightarrow> nat option \<Rightarrow> 's \<Rightarrow> 's run"
where
  "up_loop on_none cache step no s =
     (case no of
        None \<Rightarrow> (case on_none of None \<Rightarrow> ret s | Some e \<Rightarrow> Some (Inl e))
      | Some n \<Rightarrow>
          if n = root_node (cache s) then ret s
          else let s' = step n s in up_loop on_none cache step (rparent (heap (cache s') n)) s')"

declare up_loop.simps [code]

definition lock_step :: "nat \<Rightarrow> radix_cache \<times> int \<Rightarrow> radix_cache \<times> int" where
  "lock_step n s =
     (let (c, delta) = s; nd = heap c n; len = key_len (rkey nd);
          (c1, delta1) = (if lock_ref nd = 0
             then (c\<lparr>evictable_size := evictable_size c - len,
                    protected_size := protected_size c + len\<rparr>, delta - len)
             else (c, delta));
          c2 = upd_node n (\<lambda>x. x\<lparr>lock_ref := lock_ref x + 1\<rparr>) c1
      in (update_leaf_status n c2, delta1))"

definition inc_lock_ref :: "rc_config \<Rightarrow> nat \<Rightarrow> radix_cache \<Rightarrow> (radix_cache \<times> int) run" where
  "inc_lock_ref cfg node c =
     (if disable cfg then ret (c, 0)
      else up_loop (Some AttributeError) fst lock_step (Some node) (c, 0))"

definition unlock_step :: "nat \<Rightarrow> radix_cache \<times> int \<Rightarrow> radix_cache \<times> int" where
  "unlock_step n s =
     (let (c, delta) = s; nd = heap c n; len = key_len (rkey nd);
          (c1, delta1) = (if lock_ref nd = 1
             then (c\<lparr>evictable_size := evictable_size c + len,
                    protected_size := protected_size c - len\<rparr>, delta + len)
             else (c, delta));
          c2 = upd_node n (\<lambda>x. x\<lparr>lock_ref := lock_ref x - 1\<rparr>) c1
      in (update_leaf_status n c2, delta1))"

text \<open>Here a parentless node that is not the root fails the assertion.\<close>

definition dec_lock_ref :: "rc_config \<Rightarrow> nat \<Rightarrow> radix_cache \<Rightarrow> (radix_cache \<times> int) run" where
  "dec_lock_ref cfg node c =
     (if disable cfg then ret (c, 0)
      else up_loop (Some AssertionError) fst unlock_step (Some node) (c, 0))"

definition inc_queue_ref :: "nat \<Rightarrow> radix_cache \<Rightarrow> radix_cache run" where
  "inc_queue_ref node c =
     up_loop (Some AttributeError) id
       (\<lambda>n. upd_node n (\<lambda>x. x\<lparr>queue_ref_count := queue_ref_count x + 1\<rparr>)) (Some node) c"

definition dec_queue_ref :: "nat \<Rightarrow> radix_cache \<Rightarrow> radix_cache run" where
  "dec_queue_ref node c =
     up_loop (Some AttributeError) id
       (\<lambda>n. upd_node n (\<lambda>x. x\<lparr>queue_ref_count := max 0 (queue_ref_count x - 1)\<rparr>)) (Some node) c"

definition clear_queue_ref :: "nat \<Rightarrow> radix_cache \<Rightarrow> radix_cache" where
  "clear_queue_ref n = upd_node n (\<lambda>x. x\<lparr>queue_ref_count := 0\<rparr>)"

partial_function (option) reset_refs_loop :: "nat list \<Rightarrow> radix_cache \<Rightarrow> radix_cache option" where
  "reset_refs_loop stack c =
     (case stack of
        [] \<Rightarrow> Some c
      | n # rest \<Rightarrow> reset_refs_loop (rev (dvals (rchildren (heap c n))) @ rest) (clear_queue_ref n c))"

declare reset_refs_loop.simps [code]

definition reset_all_queue_refs :: "radix_cache \<Rightarrow> radix_cache option" where
  "reset_all_queue_refs c = reset_refs_loop [root_node c] c"

text \<open>\<open>total_size\<close>: the values of every node that is not evicted, over the whole tree.\<close>

partial_function (option) total_size_loop :: "nat list \<Rightarrow> int \<Rightarrow> radix_cache \<Rightarrow> int option" where
  "total_size_loop stack acc c =
     (case stack of
        [] \<Rightarrow> Some acc
      | n # rest \<Rightarrow>
          total_size_loop
            (rev (filter (\<lambda>ch. \<not> evicted (heap c ch)) (dvals (rchildren (heap c n)))) @ rest)
            (acc + int (length (node_values (heap c n)))) c)"

declare total_size_loop.simps [code]

definition total_size :: "radix_cache \<Rightarrow> int option" where
  "total_size c = total_size_loop [root_node c] 0 c"

section \<open>Eviction\<close>

text \<open>
  \<open>heapq\<close> pops the least pair (priority, node), where two nodes compare by last access time; pairs
  that are equal in both come in the order of the list. The priority of a node is a list of
  numbers, compared lexicographically as Python compares tuples; the strategy reads the node when
  it is pushed.
\<close>

type_synonym heap_entry = "pyfloat list \<times> nat"

definition entry_key :: "radix_cache \<Rightarrow> heap_entry \<Rightarrow> pyfloat list" where
  "entry_key c e = fst e @ [last_access_time (heap c (snd e))]"

fun pop_min :: "('e \<Rightarrow> 'k::linorder) \<Rightarrow> 'e list \<Rightarrow> ('e \<times> 'e list) option" where
  "pop_min f [] = None"
| "pop_min f (x # xs) =
     (case pop_min f xs of
        None \<Rightarrow> Some (x, [])
      | Some (y, ys) \<Rightarrow> if f y < f x then Some (y, x # ys) else Some (x, y # ys))"

definition delete_leaf :: "rc_config \<Rightarrow> nat \<Rightarrow> radix_cache \<Rightarrow> (radix_cache \<times> nat) res" where
  "delete_leaf cfg n c =
     (let nd = heap c n; k = get_child_key (page_size cfg) (rkey nd) in
      case rparent nd of
        None \<Rightarrow> Inl AttributeError
      | Some p \<Rightarrow>
          if dget (rchildren (heap c p)) k \<noteq> Some n then Inl AssertionError
          else
            let c1 = upd_node p (\<lambda>x. x\<lparr>rchildren := ddel k (rchildren x)\<rparr>) c;
                c2 = c1\<lparr>evictable_size := evictable_size c1 - key_len (rkey nd),
                        evictable_leaves := filter (\<lambda>m. m \<noteq> n) (evictable_leaves c1)\<rparr>
            in Inr (update_leaf_status p c2, p))"

partial_function (option) evict_loop ::
  "rc_config \<Rightarrow> (rnode \<Rightarrow> pyfloat list) \<Rightarrow> int \<Rightarrow> int \<Rightarrow> heap_entry list \<Rightarrow> radix_cache \<Rightarrow>
     (radix_cache \<times> int) run"
where
  "evict_loop cfg prio num_tokens num_evicted hp c =
     (if num_evicted < num_tokens then
        (case pop_min (entry_key c) hp of
           None \<Rightarrow> ret (c, num_evicted)
         | Some ((_, x), hp') \<Rightarrow>
             let vals = node_values (heap c x); c0 = c\<lparr>freed := freed c @ vals\<rparr> in
             case delete_leaf cfg x c0 of
               Inl e \<Rightarrow> Some (Inl e)
             | Inr (c1, p) \<Rightarrow>
                 evict_loop cfg prio num_tokens (num_evicted + int (length vals))
                   (if rchildren (heap c1 p) = [] \<and> lock_ref (heap c1 p) = 0
                    then hp' @ [(prio (heap c1 p), p)] else hp') c1)
      else ret (c, num_evicted))"

declare evict_loop.simps [code]

definition evict ::
  "rc_config \<Rightarrow> (rnode \<Rightarrow> pyfloat list) \<Rightarrow> int \<Rightarrow> radix_cache \<Rightarrow> (radix_cache \<times> int) run" where
  "evict cfg prio num_tokens c =
     (if disable cfg then ret (c, 0)
      else evict_loop cfg prio num_tokens 0
             (map (\<lambda>n. (prio (heap c n), n)) (evictable_leaves c)) c)"

end
