(* ===== verification/Radix_Tree.thy ===== *)
theory Radix_Tree
  imports Radix_Cache
begin

text \<open>
  The shape invariant of the radix tree and its consequences: the set of live nodes is a tree whose
  parent pointers, child dictionaries, cached depths and value lengths agree; the walks along parent
  pointers end at the root; splitting, matching and inserting return on every input and keep the
  invariant.
\<close>

section \<open>The invariant\<close>

abbreviation ckey :: "rc_config \<Rightarrow> radix_cache \<Rightarrow> nat \<Rightarrow> child_key" where
  "ckey cfg c n \<equiv> get_child_key (page_size cfg) (rkey (heap c n))"

definition node_ok :: "rc_config \<Rightarrow> nat set \<Rightarrow> radix_cache \<Rightarrow> nat \<Rightarrow> bool" where
  "node_ok cfg S c n \<longleftrightarrow>
     (case rparent (heap c n) of
        None \<Rightarrow> False
      | Some p \<Rightarrow> p \<in> S \<and> dget (rchildren (heap c p)) (ckey cfg c n) = Some n
          \<and> rdepth (heap c n) = rdepth (heap c p) + key_len (rkey (heap c n)))
     \<and> token_ids (rkey (heap c n)) \<noteq> []
     \<and> (case rvalue (heap c n) of None \<Rightarrow> False | Some v \<Rightarrow> int (length v) = key_len (rkey (heap c n)))"

definition child_ok :: "rc_config \<Rightarrow> nat set \<Rightarrow> radix_cache \<Rightarrow> nat \<Rightarrow> bool" where
  "child_ok cfg S c p \<longleftrightarrow> wf_dict (rchildren (heap c p))
     \<and> (\<forall>k n. dget (rchildren (heap c p)) k = Some n \<longrightarrow>
           n \<in> S \<and> n \<noteq> root_node c \<and> rparent (heap c n) = Some p \<and> k = ckey cfg c n)"

definition tree_ok :: "rc_config \<Rightarrow> nat set \<Rightarrow> radix_cache \<Rightarrow> bool" where
  "tree_ok cfg S c \<longleftrightarrow> finite S \<and> root_node c \<in> S \<and> (\<forall>n \<in> S. n < counter c)
     \<and> rdepth (heap c (root_node c)) = 0 \<and> rvalue (heap c (root_node c)) = Some []
     \<and> 0 < lock_ref (heap c (root_node c))
     \<and> (\<forall>n \<in> S - {root_node c}. node_ok cfg S c n) \<and> (\<forall>p \<in> S. child_ok cfg S c p)"

lemma tree_ok_init: "tree_ok cfg {root_node (cache_init tm)} (cache_init tm)"
  by (simp add: tree_ok_def child_ok_def cache_init_def cache_reset_def Let_def alloc_node_def
      new_tree_node_def)

lemma tree_ok_nodeD:
  assumes "tree_ok cfg S c" and "n \<in> S" and "n \<noteq> root_node c"
  obtains p v where "rparent (heap c n) = Some p" and "p \<in> S"
    and "dget (rchildren (heap c p)) (ckey cfg c n) = Some n"
    and "rdepth (heap c n) = rdepth (heap c p) + key_len (rkey (heap c n))"
    and "token_ids (rkey (heap c n)) \<noteq> []" and "rvalue (heap c n) = Some v"
    and "int (length v) = key_len (rkey (heap c n))"
proof -
  have "node_ok cfg S c n" using assms(1-3) unfolding tree_ok_def by blast
  then show ?thesis using that
    by (cases "rparent (heap c n)"; cases "rvalue (heap c n)") (simp_all add: node_ok_def)
qed

lemma tree_ok_childD:
  assumes "tree_ok cfg S c" and "p \<in> S" and "dget (rchildren (heap c p)) k = Some n"
  shows "n \<in> S" and "n \<noteq> root_node c" and "rparent (heap c n) = Some p" and "k = ckey cfg c n"
proof -
  have "child_ok cfg S c p" using assms(1,2) unfolding tree_ok_def by blast
  then show "n \<in> S" and "n \<noteq> root_node c" and "rparent (heap c n) = Some p" and "k = ckey cfg c n"
    using assms(3) unfolding child_ok_def by blast+
qed

section \<open>Paths to the root\<close>

fun up_path :: "radix_cache \<Rightarrow> nat \<Rightarrow> nat list \<Rightarrow> bool" where
  "up_path c n [] \<longleftrightarrow> n = root_node c"
| "up_path c n (m # ms) \<longleftrightarrow> m = n \<and> n \<noteq> root_node c
     \<and> (case rparent (heap c n) of None \<Rightarrow> False | Some p \<Rightarrow> up_path c p ms)"

lemma up_path_unique: "up_path c n ns \<Longrightarrow> up_path c n ms \<Longrightarrow> ns = ms"
proof (induction ns arbitrary: n ms)
  case Nil
  then show ?case by (cases ms) auto
next
  case (Cons a ns)
  then show ?case by (cases ms) (auto split: option.splits)
qed

lemma up_path_suffix: "up_path c n (as @ m # bs) \<Longrightarrow> up_path c m (m # bs)"
proof (induction as arbitrary: n)
  case (Cons a as)
  then show ?case by (cases "rparent (heap c n)") (simp, metis append_Cons option.simps(5) up_path.simps(2))
qed auto

lemma up_path_distinct: "up_path c n ns \<Longrightarrow> distinct ns"
proof (induction ns arbitrary: n)
  case (Cons a ns)
  have "a \<notin> set ns"
  proof
    assume "a \<in> set ns"
    then obtain as bs where ns: "ns = as @ a # bs" by (meson split_list)
    have "up_path c a (a # ns)" using Cons.prems by simp
    moreover have "up_path c a (a # bs)"
    proof (rule up_path_suffix)
      show "up_path c n ((a # as) @ a # bs)" using Cons.prems by (simp only: ns append_Cons)
    qed
    ultimately have "a # ns = a # bs" by (rule up_path_unique)
    then show False by (simp add: ns)
  qed
  then show ?case using Cons by (auto split: option.splits)
qed simp

lemma depth_less_parent:
  "tree_ok cfg S c \<Longrightarrow> n \<in> S \<Longrightarrow> n \<noteq> root_node c \<Longrightarrow> rparent (heap c n) = Some p \<Longrightarrow>
     rdepth (heap c p) < rdepth (heap c n)"
  by (erule tree_ok_nodeD) (auto simp: key_len_def)

text \<open>Every node of a tree has a path: depths are positive below the root, and decrease upwards.\<close>

lemma infinite_descent_depth:
  assumes t: "tree_ok cfg S c" and "n \<in> S"
  shows "\<exists>ns. up_path c n ns \<and> set ns \<subseteq> S"
proof -
  define lo where "lo = Min ((\<lambda>m. rdepth (heap c m)) ` S)"
  have fin: "finite S" using t by (simp add: tree_ok_def)
  have lo: "lo \<le> rdepth (heap c m)" if "m \<in> S" for m
    unfolding lo_def using fin that by (intro Min_le) auto
  show ?thesis using \<open>n \<in> S\<close>
  proof (induction n rule: measure_induct_rule [of "\<lambda>m. nat (rdepth (heap c m) - lo)"])
    case (less n)
    show ?case
    proof (cases "n = root_node c")
      case True
      then have "up_path c n []" by simp
      then show ?thesis by fastforce
    next
      case False
      then obtain p where p: "rparent (heap c n) = Some p" "p \<in> S"
        using tree_ok_nodeD [OF t less.prems] by metis
      have "nat (rdepth (heap c p) - lo) < nat (rdepth (heap c n) - lo)"
        using depth_less_parent [OF t less.prems False p(1)] lo [OF p(2)] by linarith
      from less.IH [OF this p(2)] obtain ns where "up_path c p ns" "set ns \<subseteq> S" by blast
      then have "up_path c n (n # ns) \<and> set (n # ns) \<subseteq> S" using p False less.prems by simp
      then show ?thesis by blast
    qed
  qed
qed

text \<open>The walk visits exactly the path, in order, when its step leaves the pointers alone.\<close>

definition same_shape :: "radix_cache \<Rightarrow> radix_cache \<Rightarrow> bool" where
  "same_shape c c' \<longleftrightarrow> root_node c' = root_node c \<and> (\<forall>n. rparent (heap c' n) = rparent (heap c n))"

lemma same_shape_refl [simp]: "same_shape c c"
  by (simp add: same_shape_def)

lemma up_path_same_shape: "same_shape c c' \<Longrightarrow> up_path c' n ns = up_path c n ns"
  by (induction ns arbitrary: n) (auto simp: same_shape_def split: option.splits)

lemma up_loop_path:
  assumes "\<And>m s. same_shape (cache s) (cache (step m s))"
  shows "up_path (cache s) n ns \<Longrightarrow> up_loop e cache step (Some n) s = ret (fold step ns s)"
proof (induction ns arbitrary: n s)
  case Nil
  then show ?case by (simp add: up_loop.simps)
next
  case (Cons m ms)
  then obtain p where p: "m = n" "n \<noteq> root_node (cache s)" "rparent (heap (cache s) n) = Some p"
    "up_path (cache s) p ms" by (auto split: option.splits)
  have "up_path (cache (step n s)) p ms" using p(4) up_path_same_shape [OF assms] by simp
  then have "up_loop e cache step (Some p) (step n s) = ret (fold step ms (step n s))" by (rule Cons.IH)
  moreover have "rparent (heap (cache (step n s)) n) = Some p"
    using p(3) assms [of s n] by (simp add: same_shape_def)
  ultimately show ?case using p by (subst up_loop.simps) simp
qed

section \<open>Counters along a path\<close>

text \<open>
  Queue references and locks are both counters that a walk changes on every node of a path. The
  contract of such a field; the laws are proved once.
\<close>

locale node_counter =
  fixes cnt :: "rnode \<Rightarrow> int" and upd :: "(int \<Rightarrow> int) \<Rightarrow> rnode \<Rightarrow> rnode"
  assumes cnt_upd: "cnt (upd f x) = f (cnt x)"
    and upd_parent: "rparent (upd f x) = rparent x"
    and upd_upd: "upd g (upd f x) = upd (\<lambda>i. g (f i)) x"
    and upd_same: "f (cnt x) = cnt x \<Longrightarrow> upd f x = x"
begin

lemma shape: "same_shape c (upd_node n (upd f) c)"
  by (simp add: same_shape_def upd_node_def upd_parent)

lemma heap_fold:
  "distinct ns \<Longrightarrow>
     heap (fold (\<lambda>n. upd_node n (upd f)) ns c) m = (if m \<in> set ns then upd f (heap c m) else heap c m)"
  by (induction ns arbitrary: c) (auto simp: upd_node_def)

lemma fold_fields:
  "counter (fold (\<lambda>n. upd_node n (upd f)) ns c) = counter c"
  "root_node (fold (\<lambda>n. upd_node n (upd f)) ns c) = root_node c"
  "evictable_size (fold (\<lambda>n. upd_node n (upd f)) ns c) = evictable_size c"
  "protected_size (fold (\<lambda>n. upd_node n (upd f)) ns c) = protected_size c"
  "evictable_leaves (fold (\<lambda>n. upd_node n (upd f)) ns c) = evictable_leaves c"
  "freed (fold (\<lambda>n. upd_node n (upd f)) ns c) = freed c"
  by (induction ns arbitrary: c) (auto simp: upd_node_def)

lemma walk:
  assumes "up_path c n ns"
  shows "up_loop e id (\<lambda>n. upd_node n (upd f)) (Some n) c = ret (fold (\<lambda>n. upd_node n (upd f)) ns c)"
  using assms by (intro up_loop_path) (simp_all add: shape)

lemma walk_count:
  assumes "up_path c n ns" and "up_loop e id (\<lambda>n. upd_node n (upd f)) (Some n) c = ret c'"
  shows "cnt (heap c' m) = (if m \<in> set ns then f (cnt (heap c m)) else cnt (heap c m))"
proof -
  have "c' = fold (\<lambda>n. upd_node n (upd f)) ns c" using walk [OF assms(1)] assms(2) by (simp add: ret_def)
  then show ?thesis using heap_fold [OF up_path_distinct [OF assms(1)]] by (simp add: cnt_upd)
qed

text \<open>A second walk whose effect undoes the first one restores the cache.\<close>

lemma walk_undo:
  assumes "up_path c n ns" and "up_loop e id (\<lambda>n. upd_node n (upd f)) (Some n) c = ret c'"
    and "\<And>m. m \<in> set ns \<Longrightarrow> g (f (cnt (heap c m))) = cnt (heap c m)"
  shows "up_loop e' id (\<lambda>n. upd_node n (upd g)) (Some n) c' = ret c"
proof -
  have c': "c' = fold (\<lambda>n. upd_node n (upd f)) ns c" using walk [OF assms(1)] assms(2) by (simp add: ret_def)
  note d = up_path_distinct [OF assms(1)]
  have "same_shape c c'"
    unfolding same_shape_def c' fold_fields heap_fold [OF d] by (simp add: upd_parent)
  then have p': "up_path c' n ns" using assms(1) by (simp add: up_path_same_shape)
  let ?c = "fold (\<lambda>n. upd_node n (upd g)) ns c'"
  have "heap ?c m = heap c m" for m
    unfolding heap_fold [OF d] c' using assms(3) [of m] by (simp add: upd_upd upd_same)
  then have "?c = c"
    by (intro radix_cache.equality ext) (simp_all add: fold_fields c')
  then show ?thesis using walk [OF p', of e' g] by simp
qed

end

definition upd_queue :: "(int \<Rightarrow> int) \<Rightarrow> rnode \<Rightarrow> rnode" where
  "upd_queue f x = x\<lparr>queue_ref_count := f (queue_ref_count x)\<rparr>"

interpretation qref: node_counter queue_ref_count upd_queue
  by unfold_locales (auto simp: upd_queue_def)

definition upd_lock :: "(int \<Rightarrow> int) \<Rightarrow> rnode \<Rightarrow> rnode" where
  "upd_lock f x = x\<lparr>lock_ref := f (lock_ref x)\<rparr>"

interpretation lref: node_counter lock_ref upd_lock
  by unfold_locales (auto simp: upd_lock_def)

lemma inc_queue_ref_eq: "inc_queue_ref n c = up_loop (Some AttributeError) id (\<lambda>n. upd_node n (upd_queue (\<lambda>i. i + 1))) (Some n) c"
  by (simp add: inc_queue_ref_def upd_queue_def [abs_def])

lemma dec_queue_ref_eq: "dec_queue_ref n c = up_loop (Some AttributeError) id (\<lambda>n. upd_node n (upd_queue (\<lambda>i. max 0 (i - 1)))) (Some n) c"
  by (simp add: dec_queue_ref_def upd_queue_def [abs_def])

section \<open>Size accounting and the set of evictable leaves\<close>

definition leaf_status :: "radix_cache \<Rightarrow> nat \<Rightarrow> bool" where
  "leaf_status c n \<longleftrightarrow> \<not> evicted (heap c n) \<and> lock_ref (heap c n) \<le> 0
     \<and> (\<forall>ch \<in> set (dvals (rchildren (heap c n))). evicted (heap c ch))"

definition ev_len :: "rnode \<Rightarrow> int" where
  "ev_len x = (if lock_ref x = 0 then key_len (rkey x) else 0)"

definition pr_len :: "rnode \<Rightarrow> int" where
  "pr_len x = (if lock_ref x = 0 then 0 else key_len (rkey x))"

definition acct_ok :: "nat set \<Rightarrow> radix_cache \<Rightarrow> bool" where
  "acct_ok S c \<longleftrightarrow> (\<forall>n \<in> S. 0 \<le> lock_ref (heap c n))
     \<and> evictable_size c = (\<Sum>n \<in> S - {root_node c}. ev_len (heap c n))
     \<and> protected_size c = (\<Sum>n \<in> S - {root_node c}. pr_len (heap c n))
     \<and> (\<forall>n. n \<in> set (evictable_leaves c) \<longleftrightarrow> n \<in> S \<and> leaf_status c n)
     \<and> distinct (evictable_leaves c)"

lemma acct_ok_init: "acct_ok {root_node (cache_init tm)} (cache_init tm)"
  by (simp add: acct_ok_def leaf_status_def cache_init_def cache_reset_def Let_def alloc_node_def
      new_tree_node_def)

lemma update_leaf_status_fields [simp]:
  "heap (update_leaf_status n c) = heap c" "counter (update_leaf_status n c) = counter c"
  "root_node (update_leaf_status n c) = root_node c" "freed (update_leaf_status n c) = freed c"
  "evictable_size (update_leaf_status n c) = evictable_size c"
  "protected_size (update_leaf_status n c) = protected_size c"
  by (simp_all add: update_leaf_status_def Let_def)

lemma leaf_status_update [simp]: "leaf_status (update_leaf_status n c) = leaf_status c"
  by (simp add: leaf_status_def [abs_def])

lemma update_leaf_status_mem:
  "m \<in> set (evictable_leaves (update_leaf_status n c)) \<longleftrightarrow>
     (if m = n then leaf_status c n else m \<in> set (evictable_leaves c))"
  by (auto simp: update_leaf_status_def Let_def leaf_status_def)

lemma update_leaf_status_distinct:
  "distinct (evictable_leaves c) \<Longrightarrow> distinct (evictable_leaves (update_leaf_status n c))"
  by (auto simp: update_leaf_status_def Let_def)

lemma sum_one_changed:
  fixes f g :: "nat \<Rightarrow> int"
  assumes "finite A" and "n \<in> A" and "\<And>m. m \<in> A \<Longrightarrow> m \<noteq> n \<Longrightarrow> g m = f m"
  shows "sum g A = sum f A + (g n - f n)"
proof -
  have "sum g (A - {n}) = sum f (A - {n})" using assms(3) by (intro sum.cong) auto
  then show ?thesis using assms(1,2) by (simp add: sum.remove [of A n])
qed

text \<open>Changing one lock count by a step that moves the node's length between the two counters.\<close>

lemma acct_lock_change:
  assumes t: "finite S" and a: "acct_ok S c" and n: "n \<in> S" "n \<noteq> root_node c"
    and k: "0 \<le> k"
    and c1: "c1 = upd_node n (\<lambda>x. x\<lparr>lock_ref := k\<rparr>) c"
    and ev: "ev' = evictable_size c + (ev_len (heap c1 n) - ev_len (heap c n))"
    and pr: "pr' = protected_size c + (pr_len (heap c1 n) - pr_len (heap c n))"
  shows "acct_ok S (update_leaf_status n (c1\<lparr>evictable_size := ev', protected_size := pr'\<rparr>))"
proof -
  let ?c = "c1\<lparr>evictable_size := ev', protected_size := pr'\<rparr>"
  have other: "heap c1 m = heap c m" if "m \<noteq> n" for m using that by (simp add: c1 upd_node_def)
  have r: "root_node c1 = root_node c" by (simp add: c1 upd_node_def)
  have fin: "finite (S - {root_node c})" "n \<in> S - {root_node c}" using t n by auto
  have s1: "(\<Sum>m \<in> S - {root_node c}. ev_len (heap c1 m)) = ev'"
    using sum_one_changed [OF fin, of "\<lambda>m. ev_len (heap c1 m)" "\<lambda>m. ev_len (heap c m)"] other a
    by (simp add: ev acct_ok_def)
  have s2: "(\<Sum>m \<in> S - {root_node c}. pr_len (heap c1 m)) = pr'"
    using sum_one_changed [OF fin, of "\<lambda>m. pr_len (heap c1 m)" "\<lambda>m. pr_len (heap c m)"] other a
    by (simp add: pr acct_ok_def)
  have ls: "leaf_status ?c m = leaf_status c m" if "m \<noteq> n" for m
    using that by (auto simp: leaf_status_def c1 upd_node_def evicted_def)
  have ls': "leaf_status ?c n = leaf_status (c1\<lparr>evictable_size := ev', protected_size := pr'\<rparr>) n" by simp
  have l: "0 \<le> lock_ref (heap c1 m)" if "m \<in> S" for m
    using a k that by (auto simp: acct_ok_def c1 upd_node_def)
  have e: "evictable_leaves ?c = evictable_leaves c" by (simp add: c1 upd_node_def)
  have "m \<in> set (evictable_leaves (update_leaf_status n ?c)) \<longleftrightarrow> m \<in> S \<and> leaf_status ?c m" for m
    using a n ls [of m] unfolding update_leaf_status_mem e by (auto simp: acct_ok_def)
  moreover have "distinct (evictable_leaves (update_leaf_status n ?c))"
    by (rule update_leaf_status_distinct) (use a in \<open>simp add: e acct_ok_def\<close>)
  ultimately show ?thesis using s1 s2 l r unfolding acct_ok_def by simp
qed

lemma lock_step_eq:
  "lock_step n (c, delta) =
     (let k = lock_ref (heap c n) + 1; c1 = upd_node n (\<lambda>x. x\<lparr>lock_ref := k\<rparr>) c;
          d = (if lock_ref (heap c n) = 0 then key_len (rkey (heap c n)) else 0)
      in (update_leaf_status n (c1\<lparr>evictable_size := evictable_size c - d, protected_size := protected_size c + d\<rparr>),
          delta - d))"
  by (cases c) (simp add: lock_step_def Let_def upd_node_def)

lemma unlock_step_eq:
  "unlock_step n (c, delta) =
     (let k = lock_ref (heap c n) - 1; c1 = upd_node n (\<lambda>x. x\<lparr>lock_ref := k\<rparr>) c;
          d = (if lock_ref (heap c n) = 1 then key_len (rkey (heap c n)) else 0)
      in (update_leaf_status n (c1\<lparr>evictable_size := evictable_size c + d, protected_size := protected_size c - d\<rparr>),
          delta + d))"
  by (cases c) (simp add: unlock_step_def Let_def upd_node_def)

lemma acct_lock_step:
  assumes "finite S" and a: "acct_ok S c" and n: "n \<in> S" "n \<noteq> root_node c"
  shows "acct_ok S (fst (lock_step n (c, delta)))"
  unfolding lock_step_eq Let_def fst_conv
proof (rule acct_lock_change [OF assms(1) a n])
  have "0 \<le> lock_ref (heap c n)" using a n by (simp add: acct_ok_def)
  then show "0 \<le> lock_ref (heap c n) + 1"
    "evictable_size c - (if lock_ref (heap c n) = 0 then key_len (rkey (heap c n)) else 0) = evictable_size c +
      (ev_len (heap (upd_node n (\<lambda>x. x\<lparr>lock_ref := lock_ref (heap c n) + 1\<rparr>) c) n) - ev_len (heap c n))"
    "protected_size c + (if lock_ref (heap c n) = 0 then key_len (rkey (heap c n)) else 0) = protected_size c +
      (pr_len (heap (upd_node n (\<lambda>x. x\<lparr>lock_ref := lock_ref (heap c n) + 1\<rparr>) c) n) - pr_len (heap c n))"
    by (auto simp: ev_len_def pr_len_def upd_node_def)
qed simp

lemma acct_unlock_step:
  assumes "finite S" and a: "acct_ok S c" and n: "n \<in> S" "n \<noteq> root_node c" and l: "0 < lock_ref (heap c n)"
  shows "acct_ok S (fst (unlock_step n (c, delta)))"
  unfolding unlock_step_eq Let_def fst_conv
proof (rule acct_lock_change [OF assms(1) a n])
  show "0 \<le> lock_ref (heap c n) - 1"
    "evictable_size c + (if lock_ref (heap c n) = 1 then key_len (rkey (heap c n)) else 0) = evictable_size c +
      (ev_len (heap (upd_node n (\<lambda>x. x\<lparr>lock_ref := lock_ref (heap c n) - 1\<rparr>) c) n) - ev_len (heap c n))"
    "protected_size c - (if lock_ref (heap c n) = 1 then key_len (rkey (heap c n)) else 0) = protected_size c +
      (pr_len (heap (upd_node n (\<lambda>x. x\<lparr>lock_ref := lock_ref (heap c n) - 1\<rparr>) c) n) - pr_len (heap c n))"
    using l by (auto simp: ev_len_def pr_len_def upd_node_def)
qed simp

text \<open>What a whole lock walk does, from what one step does.\<close>

definition lock_fold_spec :: "(int \<Rightarrow> int) \<Rightarrow> nat list \<Rightarrow> radix_cache \<times> int \<Rightarrow> radix_cache \<times> int \<Rightarrow> bool" where
  "lock_fold_spec f ns s s' \<longleftrightarrow>
     (\<forall>m. heap (fst s') m = (if m \<in> set ns then upd_lock f (heap (fst s) m) else heap (fst s) m))
     \<and> counter (fst s') = counter (fst s) \<and> root_node (fst s') = root_node (fst s)
     \<and> freed (fst s') = freed (fst s)
     \<and> evictable_size (fst s') + protected_size (fst s') = evictable_size (fst s) + protected_size (fst s)
     \<and> snd s' - snd s = evictable_size (fst s') - evictable_size (fst s)"

lemma lock_step_spec: "lock_fold_spec (\<lambda>i. i + 1) [n] s (lock_step n s)"
  by (cases s) (simp add: lock_step_eq Let_def lock_fold_spec_def upd_lock_def upd_node_def)

lemma unlock_step_spec: "lock_fold_spec (\<lambda>i. i - 1) [n] s (unlock_step n s)"
  by (cases s) (simp add: unlock_step_eq Let_def lock_fold_spec_def upd_lock_def upd_node_def)

lemma lock_fold_spec_trans:
  "lock_fold_spec f [n] s s' \<Longrightarrow> lock_fold_spec f ns s' s'' \<Longrightarrow> n \<notin> set ns \<Longrightarrow> lock_fold_spec f (n # ns) s s''"
  unfolding lock_fold_spec_def by (intro conjI allI) (auto simp del: One_nat_def)

lemma fold_spec:
  assumes "\<And>n s. lock_fold_spec f [n] s (step n s)"
  shows "distinct ns \<Longrightarrow> lock_fold_spec f ns s (fold step ns s)"
proof (induction ns arbitrary: s)
  case Nil
  then show ?case by (simp add: lock_fold_spec_def)
next
  case (Cons n ns)
  then have "lock_fold_spec f ns (step n s) (fold step ns (step n s))" "n \<notin> set ns" by simp_all
  from lock_fold_spec_trans [OF assms this] show ?case by simp
qed

lemma lock_spec_shape: "lock_fold_spec f ns s s' \<Longrightarrow> same_shape (fst s) (fst s')"
  by (simp add: lock_fold_spec_def same_shape_def upd_lock_def)

lemma acct_lock_fold:
  "finite S \<Longrightarrow> acct_ok S (fst s) \<Longrightarrow> set ns \<subseteq> S - {root_node (fst s)} \<Longrightarrow>
     acct_ok S (fst (fold lock_step ns s))"
proof (induction ns arbitrary: s)
  case (Cons n ns)
  obtain c d where s: "s = (c, d)" by (cases s)
  have r: "root_node (fst (lock_step n s)) = root_node (fst s)"
    using lock_step_spec [of n s] by (simp add: lock_fold_spec_def)
  have "acct_ok S (fst (lock_step n s))" unfolding s by (rule acct_lock_step) (use Cons.prems s in auto)
  from Cons.IH [OF Cons.prems(1) this] Cons.prems(3) show ?case by (simp add: r)
qed simp

lemma acct_unlock_fold:
  "finite S \<Longrightarrow> acct_ok S (fst s) \<Longrightarrow> set ns \<subseteq> S - {root_node (fst s)} \<Longrightarrow> distinct ns \<Longrightarrow>
     (\<forall>n \<in> set ns. 0 < lock_ref (heap (fst s) n)) \<Longrightarrow> acct_ok S (fst (fold unlock_step ns s))"
proof (induction ns arbitrary: s)
  case (Cons n ns)
  obtain c d where s: "s = (c, d)" by (cases s)
  have sp: "lock_fold_spec (\<lambda>i. i - 1) [n] s (unlock_step n s)" by (rule unlock_step_spec)
  have r: "root_node (fst (unlock_step n s)) = root_node (fst s)"
    using sp by (simp add: lock_fold_spec_def)
  have "acct_ok S (fst (unlock_step n s))" unfolding s by (rule acct_unlock_step) (use Cons.prems s in auto)
  moreover have "\<forall>m \<in> set ns. 0 < lock_ref (heap (fst (unlock_step n s)) m)"
    using sp Cons.prems(4,5) by (auto simp: lock_fold_spec_def)
  ultimately show ?case using Cons.IH [OF Cons.prems(1)] Cons.prems by (simp add: r)
qed simp

lemma up_path_no_root: "up_path c n ns \<Longrightarrow> root_node c \<notin> set ns"
  by (induction ns arbitrary: n) (auto split: option.splits)

lemma tree_ok_lock_spec:
  assumes t: "tree_ok cfg S (fst s)" and sp: "lock_fold_spec f ns s s'" and r: "root_node (fst s) \<notin> set ns"
  shows "tree_ok cfg S (fst s')"
proof -
  have h: "rparent (heap (fst s') n) = rparent (heap (fst s) n)" "rkey (heap (fst s') n) = rkey (heap (fst s) n)"
    "rdepth (heap (fst s') n) = rdepth (heap (fst s) n)" "rvalue (heap (fst s') n) = rvalue (heap (fst s) n)"
    "rchildren (heap (fst s') n) = rchildren (heap (fst s) n)" for n
    using sp by (simp_all add: lock_fold_spec_def upd_lock_def)
  have "root_node (fst s') = root_node (fst s)" "counter (fst s') = counter (fst s)"
    "lock_ref (heap (fst s') (root_node (fst s))) = lock_ref (heap (fst s) (root_node (fst s)))"
    using sp r by (simp_all add: lock_fold_spec_def)
  then show ?thesis using t unfolding tree_ok_def node_ok_def child_ok_def h by simp
qed

lemma lock_walk:
  assumes t: "tree_ok cfg S c" and a: "acct_ok S c" and "n \<in> S" and "\<not> disable cfg"
  obtains ns c' delta where "up_path c n ns" and "set ns \<subseteq> S" and "inc_lock_ref cfg n c = ret (c', delta)"
    and "lock_fold_spec (\<lambda>i. i + 1) ns (c, 0) (c', delta)" and "tree_ok cfg S c'" and "acct_ok S c'"
proof -
  obtain ns where ns: "up_path c n ns" "set ns \<subseteq> S" using infinite_descent_depth [OF t assms(3)] by blast
  note d = up_path_distinct [OF ns(1)]
  have "inc_lock_ref cfg n c = ret (fold lock_step ns (c, 0))"
    using assms(4) up_loop_path [of fst lock_step "(c, 0)" n ns] ns(1) lock_spec_shape [OF lock_step_spec]
    by (simp add: inc_lock_ref_def)
  moreover have sp: "lock_fold_spec (\<lambda>i. i + 1) ns (c, 0) (fold lock_step ns (c, 0))"
    by (rule fold_spec [OF lock_step_spec d])
  moreover have "acct_ok S (fst (fold lock_step ns (c, 0)))"
    by (rule acct_lock_fold) (use t a ns up_path_no_root [OF ns(1)] in \<open>auto simp: tree_ok_def\<close>)
  moreover have "tree_ok cfg S (fst (fold lock_step ns (c, 0)))"
    by (rule tree_ok_lock_spec [OF _ sp]) (use t up_path_no_root [OF ns(1)] in auto)
  ultimately show ?thesis using that ns by (metis prod.collapse)
qed

lemma unlock_walk:
  assumes t: "tree_ok cfg S c" and a: "acct_ok S c" and "\<not> disable cfg" and ns: "up_path c n ns" "set ns \<subseteq> S"
    and l: "\<And>m. m \<in> set ns \<Longrightarrow> 0 < lock_ref (heap c m)"
  obtains c' delta where "dec_lock_ref cfg n c = ret (c', delta)"
    and "lock_fold_spec (\<lambda>i. i - 1) ns (c, 0) (c', delta)" and "tree_ok cfg S c'" and "acct_ok S c'"
proof -
  note d = up_path_distinct [OF ns(1)]
  have "dec_lock_ref cfg n c = ret (fold unlock_step ns (c, 0))"
    using assms(3) up_loop_path [of fst unlock_step "(c, 0)" n ns] ns(1) lock_spec_shape [OF unlock_step_spec]
    by (simp add: dec_lock_ref_def)
  moreover have sp: "lock_fold_spec (\<lambda>i. i - 1) ns (c, 0) (fold unlock_step ns (c, 0))"
    by (rule fold_spec [OF unlock_step_spec d])
  moreover have "acct_ok S (fst (fold unlock_step ns (c, 0)))"
    by (rule acct_unlock_fold) (use t a ns l d up_path_no_root [OF ns(1)] in \<open>auto simp: tree_ok_def\<close>)
  moreover have "tree_ok cfg S (fst (fold unlock_step ns (c, 0)))"
    by (rule tree_ok_lock_spec [OF _ sp]) (use t up_path_no_root [OF ns(1)] in auto)
  ultimately show ?thesis using that by (metis prod.collapse)
qed

section \<open>Splitting a node\<close>

lemma ckey_take: "0 < page \<Longrightarrow> page \<le> k \<Longrightarrow> token_ids key \<noteq> [] \<Longrightarrow> get_child_key page (key_take k key) = get_child_key page key"
  by (cases "token_ids key") (auto simp: get_child_key_def key_take_def take_Cons' min_def)

lemma key_len_take: "0 \<le> k \<Longrightarrow> k \<le> key_len key \<Longrightarrow> key_len (key_take k key) = k"
  by (simp add: key_len_def key_take_def)

lemma key_len_drop: "0 \<le> k \<Longrightarrow> k \<le> key_len key \<Longrightarrow> key_len (key_drop k key) = key_len key - k"
  by (simp add: key_len_def key_drop_def)

text \<open>The heap after a split, node by node.\<close>

definition split_ok :: "rc_config \<Rightarrow> nat \<Rightarrow> nat \<Rightarrow> nat \<Rightarrow> int \<Rightarrow> radix_cache \<Rightarrow> radix_cache \<Rightarrow> bool" where
  "split_ok cfg p child new k c c' \<longleftrightarrow>
     root_node c' = root_node c \<and> counter c' = Suc (counter c) \<and> freed c' = freed c
     \<and> evictable_size c' = evictable_size c \<and> protected_size c' = protected_size c
     \<and> evictable_leaves c' = evictable_leaves c
     \<and> (\<forall>m. m \<noteq> new \<longrightarrow> m \<noteq> child \<longrightarrow> m \<noteq> p \<longrightarrow> heap c' m = heap c m)
     \<and> rchildren (heap c' p) = dset (ckey cfg c child) new (rchildren (heap c p))
     \<and> rparent (heap c' p) = rparent (heap c p) \<and> rkey (heap c' p) = rkey (heap c p)
     \<and> rvalue (heap c' p) = rvalue (heap c p) \<and> rdepth (heap c' p) = rdepth (heap c p)
     \<and> lock_ref (heap c' p) = lock_ref (heap c p) \<and> queue_ref_count (heap c' p) = queue_ref_count (heap c p)
     \<and> rchildren (heap c' child) = rchildren (heap c child) \<and> rparent (heap c' child) = Some new
     \<and> rkey (heap c' child) = key_drop k (rkey (heap c child))
     \<and> rvalue (heap c' child) = map_option (drop (nat k)) (rvalue (heap c child))
     \<and> rdepth (heap c' child) = rdepth (heap c child)
     \<and> lock_ref (heap c' child) = lock_ref (heap c child)
     \<and> queue_ref_count (heap c' child) = queue_ref_count (heap c child)
     \<and> rchildren (heap c' new) = [(get_child_key (page_size cfg) (key_drop k (rkey (heap c child))), child)]
     \<and> rparent (heap c' new) = Some p \<and> rkey (heap c' new) = key_take k (rkey (heap c child))
     \<and> rvalue (heap c' new) = map_option (take (nat k)) (rvalue (heap c child))
     \<and> rdepth (heap c' new) = rdepth (heap c p) + k
     \<and> lock_ref (heap c' new) = lock_ref (heap c child)
     \<and> queue_ref_count (heap c' new) = queue_ref_count (heap c child)"

lemma split_node_ok:
  assumes "rparent (heap c child) = Some p" and "p \<noteq> child" and "p \<noteq> counter c" and "child \<noteq> counter c"
  shows "\<exists>c'. split_node cfg tm child k c = Inr (c', counter c) \<and> split_ok cfg p child (counter c) k c c'"
  using assms
  by (simp add: split_node_def Let_def case_prod_beta alloc_node_def upd_node_def split_ok_def new_tree_node_def)

lemma tree_ok_split:
  assumes t: "tree_ok cfg S c" and ch: "child \<in> S" "child \<noteq> root_node c" and p: "rparent (heap c child) = Some p"
    and k: "0 < page_size cfg" "page_size cfg \<le> k" "k < key_len (rkey (heap c child))"
    and new: "new = counter c" and sp: "split_ok cfg p child new k c c'"
  shows "tree_ok cfg (insert new S) c'"
proof -
  obtain v where pS: "p \<in> S" and pc: "dget (rchildren (heap c p)) (ckey cfg c child) = Some child"
    and dep: "rdepth (heap c child) = rdepth (heap c p) + key_len (rkey (heap c child))"
    and tk: "token_ids (rkey (heap c child)) \<noteq> []" and v: "rvalue (heap c child) = Some v"
    and vl: "int (length v) = key_len (rkey (heap c child))"
    using tree_ok_nodeD [OF t ch] p by (metis option.inject)
  have nS: "new \<notin> S" using t by (auto simp: tree_ok_def new)
  have pch: "p \<noteq> child" using depth_less_parent [OF t ch p] by auto
  have np: "new \<noteq> p" "new \<noteq> child" "new \<noteq> root_node c" using nS pS ch t by (auto simp: tree_ok_def)
  note sd = sp [unfolded split_ok_def]
  have oth: "heap c' m = heap c m" if "m \<noteq> new" "m \<noteq> child" "m \<noteq> p" for m using sd that by blast
  have rt: "root_node c' = root_node c" using sd by blast
  have ck: "get_child_key (page_size cfg) (key_take k (rkey (heap c child))) = ckey cfg c child"
    using ckey_take [OF k(1,2) tk] .
  have keep: "rparent (heap c' m) = rparent (heap c m)" "rkey (heap c' m) = rkey (heap c m)"
    "rvalue (heap c' m) = rvalue (heap c m)" if "m \<noteq> new" "m \<noteq> child" for m
    using that sd oth by (cases "m = p"; simp)+
  have kd: "rdepth (heap c' m) = rdepth (heap c m)" if "m \<noteq> new" for m
    using that sd oth by (cases "m = p"; cases "m = child"; simp)
  have kc: "rchildren (heap c' m) = rchildren (heap c m)" if "m \<noteq> new" "m \<noteq> p" for m
    using that sd oth by (cases "m = child"; simp)
  have node: "node_ok cfg (insert new S) c' n" if n: "n \<in> S" "n \<noteq> root_node c" "n \<noteq> child" for n
  proof -
    obtain q w where q: "rparent (heap c n) = Some q" "q \<in> S" "dget (rchildren (heap c q)) (ckey cfg c n) = Some n"
      "rdepth (heap c n) = rdepth (heap c q) + key_len (rkey (heap c n))"
      "token_ids (rkey (heap c n)) \<noteq> []" "rvalue (heap c n) = Some w" "int (length w) = key_len (rkey (heap c n))"
      by (rule tree_ok_nodeD [OF t n(1,2)])
    have nn: "n \<noteq> new" "q \<noteq> new" using n q nS by auto
    have "dget (rchildren (heap c' q)) (ckey cfg c n) = Some n"
    proof (cases "q = p")
      case True
      have "ckey cfg c n \<noteq> ckey cfg c child" using q(3) pc n(3) True by auto
      then show ?thesis using sd q(3) True by (simp add: dict_simps)
    next
      case False
      then show ?thesis using kc [OF nn(2) False] q(3) by simp
    qed
    then show ?thesis using q keep [OF nn(1) n(3)] kd nn by (simp add: node_ok_def)
  qed
  have nch: "node_ok cfg (insert new S) c' child"
    using sd np tk v vl k dep by (simp add: node_ok_def key_len_drop) (simp add: key_drop_def key_len_def)
  have nnew: "node_ok cfg (insert new S) c' new"
    using sd np pS v vl k tk ck kd [of p]
    by (simp add: node_ok_def key_len_take dict_simps) (simp add: key_take_def key_len_def)
  have cnew: "child_ok cfg (insert new S) c' new"
    using sd np ch rt by (auto simp: child_ok_def split: if_splits)
  have cS: "child_ok cfg (insert new S) c' q" if q: "q \<in> S" for q
  proof -
    have wf: "wf_dict (rchildren (heap c q))" using t q by (simp add: tree_ok_def child_ok_def)
    have qn: "q \<noteq> new" using q nS by auto
    show ?thesis
    proof (cases "q = p")
      case True
      have "n \<in> insert new S \<and> n \<noteq> root_node c' \<and> rparent (heap c' n) = Some p \<and> kk = ckey cfg c' n"
        if n: "dget (rchildren (heap c' p)) kk = Some n" for kk n
      proof (cases "kk = ckey cfg c child")
        case True
        then have "n = new" using n sd by (simp add: dict_simps)
        then show ?thesis using sd True ck np rt by simp
      next
        case False
        then have d: "dget (rchildren (heap c p)) kk = Some n" using n sd by (simp add: dict_simps)
        note f = tree_ok_childD [OF t pS d]
        have "n \<noteq> child" using f(4) False by auto
        moreover have "n \<noteq> new" using f(1) nS by auto
        ultimately show ?thesis using f keep rt by simp
      qed
      moreover have "wf_dict (rchildren (heap c' p))" using sd wf True by (simp add: wf_dset)
      ultimately show ?thesis using True unfolding child_ok_def by blast
    next
      case False
      have "n \<in> insert new S \<and> n \<noteq> root_node c' \<and> rparent (heap c' n) = Some q \<and> kk = ckey cfg c' n"
        if n: "dget (rchildren (heap c' q)) kk = Some n" for kk n
      proof -
        have d: "dget (rchildren (heap c q)) kk = Some n" using n kc [OF qn False] by simp
        note f = tree_ok_childD [OF t q d]
        have "n \<noteq> child" using f(3) p False by auto
        moreover have "n \<noteq> new" using f(1) nS by auto
        ultimately show ?thesis using f keep rt by simp
      qed
      then show ?thesis using wf kc [OF qn False] unfolding child_ok_def by simp
    qed
  qed
  have rootv: "rvalue (heap c' (root_node c)) = rvalue (heap c (root_node c))"
    "rdepth (heap c' (root_node c)) = rdepth (heap c (root_node c))"
    using keep(3) [of "root_node c"] kd [of "root_node c"] np ch by auto
  have rootl: "lock_ref (heap c' (root_node c)) = lock_ref (heap c (root_node c))"
  proof (cases "root_node c = p")
    case True
    then show ?thesis using sd by simp
  next
    case False
    then show ?thesis using oth [of "root_node c"] np ch by simp
  qed
  show ?thesis
    unfolding tree_ok_def rt rootv rootl
  proof (intro conjI ballI)
    show "n < counter c'" if "n \<in> insert new S" for n
      using that t sd by (auto simp: tree_ok_def new less_Suc_eq)
    show "node_ok cfg (insert new S) c' n" if "n \<in> insert new S - {root_node c}" for n
      using that node nch nnew by (cases "n = new"; cases "n = child") auto
    show "child_ok cfg (insert new S) c' n" if "n \<in> insert new S" for n
      using that cnew cS by blast
  qed (use t in \<open>auto simp: tree_ok_def\<close>)
qed

end
