(* ===== verification/Radix_Locks.thy ===== *)
theory Radix_Locks
  imports Radix_Tree
begin

text \<open>
  Who holds the locks: the lock count of every node below the root is the number of holders whose path
  leads through it. The holders are a multiset of nodes, one for each request that has locked its node.
  Splits, new leaves and evictions keep that, a lock adds a holder and an unlock takes one away.
\<close>

section \<open>Holders\<close>

definition above :: "radix_cache \<Rightarrow> nat \<Rightarrow> nat \<Rightarrow> bool" where
  "above c m a \<longleftrightarrow> (\<exists>ns. up_path c a ns \<and> m \<in> set ns)"

definition holders :: "radix_cache \<Rightarrow> nat multiset \<Rightarrow> nat \<Rightarrow> nat" where
  "holders c A m = size (filter_mset (above c m) A)"

definition locks_ok :: "nat set \<Rightarrow> radix_cache \<Rightarrow> nat multiset \<Rightarrow> bool" where
  "locks_ok S c A \<longleftrightarrow> set_mset A \<subseteq> S \<and> (\<forall>m \<in> S - {root_node c}. lock_ref (heap c m) = int (holders c A m))"

definition keeps_locks :: "nat set \<Rightarrow> radix_cache \<Rightarrow> nat set \<Rightarrow> radix_cache \<Rightarrow> bool" where
  "keeps_locks S c S' c' \<longleftrightarrow> (\<forall>A. locks_ok S c A \<longrightarrow> locks_ok S' c' A)"

lemma keeps_locks_trans: "keeps_locks S c S1 c1 \<Longrightarrow> keeps_locks S1 c1 S' c' \<Longrightarrow> keeps_locks S c S' c'"
  by (simp add: keeps_locks_def)

lemma above_path: "up_path c a ns \<Longrightarrow> above c m a \<longleftrightarrow> m \<in> set ns"
  unfolding above_def using up_path_unique by blast

lemma above_shape: "same_shape c c' \<Longrightarrow> above c' m a = above c m a"
  by (simp add: above_def up_path_same_shape)

lemma holders_shape: "same_shape c c' \<Longrightarrow> holders c' A m = holders c A m"
  by (simp add: holders_def above_shape cong: filter_mset_cong)

lemma holders_cong: "(\<And>a. a \<in># A \<Longrightarrow> above c' m' a = above c m a) \<Longrightarrow> holders c' A m' = holders c A m"
  unfolding holders_def by (metis filter_mset_cong)

lemma holders_add: "holders c (add_mset a A) m = (if above c m a then 1 else 0) + holders c A m"
  by (simp add: holders_def)

lemma keeps_locks_pointers:
  assumes "same_shape c c'" and "\<And>m. m \<in> S \<Longrightarrow> lock_ref (heap c' m) = lock_ref (heap c m)"
  shows "keeps_locks S c S c'"
  using assms by (simp add: keeps_locks_def locks_ok_def holders_shape) (simp add: same_shape_def)

lemma path_in_tree:
  assumes "tree_ok cfg S c" and "a \<in> S" and "up_path c a ns"
  shows "set ns \<subseteq> S - {root_node c}"
proof -
  obtain ms where "up_path c a ms" "set ms \<subseteq> S" using infinite_descent_depth [OF assms(1,2)] by blast
  moreover from this(1) have "ms = ns" using assms(3) by (rule up_path_unique)
  ultimately show ?thesis using up_path_no_root [OF assms(3)] by blast
qed

section \<open>Splits and new leaves\<close>

lemma up_path_split:
  assumes t: "tree_ok cfg S c" and ch: "child \<in> S" "child \<noteq> root_node c" and p: "rparent (heap c child) = Some p"
    and new: "new = counter c" and sp: "split_ok cfg p child new k c c'"
  shows "a \<in> S \<Longrightarrow> up_path c a ns \<Longrightarrow> up_path c' a (concat (map (\<lambda>m. if m = child then [child, new] else [m]) ns))"
proof (induction ns arbitrary: a)
  case Nil
  then show ?case using sp by (simp add: split_ok_def)
next
  case (Cons m ms)
  note sd = sp [unfolded split_ok_def]
  obtain q where q: "m = a" "a \<noteq> root_node c" "rparent (heap c a) = Some q" "up_path c q ms"
    using Cons.prems(2) by (auto split: option.splits)
  have qS: "q \<in> S" using tree_ok_nodeD [OF t Cons.prems(1) q(2)] q(3) by (metis option.inject)
  have nS: "new \<notin> S" and rS: "root_node c \<in> S" using t by (auto simp: tree_ok_def new)
  note IH = Cons.IH [OF qS q(4)]
  show ?case
  proof (cases "a = child")
    case True
    then have "q = p" using p q(3) by simp
    moreover have "new \<noteq> root_node c" using nS rS by blast
    ultimately show ?thesis using IH True q sd ch(2) by simp
  next
    case False
    have "a \<noteq> new" using Cons.prems(1) nS by blast
    then have "rparent (heap c' a) = Some q" using sd False q(3) by (cases "a = p") simp_all
    then show ?thesis using IH q False sd by simp
  qed
qed

lemma keeps_locks_split:
  assumes t: "tree_ok cfg S c" and ch: "child \<in> S" "child \<noteq> root_node c" and p: "rparent (heap c child) = Some p"
    and new: "new = counter c" and sp: "split_ok cfg p child new k c c'"
  shows "keeps_locks S c (insert new S) c'"
  unfolding keeps_locks_def
proof (intro allI impI)
  fix A assume l: "locks_ok S c A"
  note sd = sp [unfolded split_ok_def]
  have nS: "new \<notin> S" and rS: "root_node c \<in> S" using t by (auto simp: tree_ok_def new)
  have ab: "above c' m a \<longleftrightarrow> above c (if m = new then child else m) a" if "a \<in># A" for m a
  proof -
    have a: "a \<in> S" using l that by (auto simp: locks_ok_def)
    obtain ns where ns: "up_path c a ns" "set ns \<subseteq> S" using infinite_descent_depth [OF t a] by blast
    have "new \<notin> set ns" "new \<noteq> child" using ns(2) nS ch(1) by blast+
    then show ?thesis
      unfolding above_path [OF up_path_split [OF t ch p new sp a ns(1)]] above_path [OF ns(1)] by auto
  qed
  have h: "holders c' A m = holders c A (if m = new then child else m)" for m
    by (rule holders_cong [OF ab])
  have "lock_ref (heap c' m) = int (holders c' A m)" if m: "m \<in> insert new S - {root_node c'}" for m
  proof (cases "m = new")
    case True
    then show ?thesis using l ch sd unfolding h by (simp add: locks_ok_def)
  next
    case False
    then have "m \<in> S - {root_node c}" using m sd by simp
    moreover have "lock_ref (heap c' m) = lock_ref (heap c m)" using sd False by (cases "m = p"; cases "m = child") simp_all
    ultimately show ?thesis using l False unfolding h by (simp add: locks_ok_def)
  qed
  then show "locks_ok (insert new S) c' A" using l by (auto simp: locks_ok_def)
qed

lemma keeps_locks_leaf:
  assumes t: "tree_ok cfg S c" and nS: "new \<notin> S" and rt: "root_node c' = root_node c" and l0: "lock_ref (heap c' new) = 0"
    and keep: "\<And>m. m \<in> S \<Longrightarrow> rparent (heap c' m) = rparent (heap c m) \<and> lock_ref (heap c' m) = lock_ref (heap c m)"
  shows "keeps_locks S c (insert new S) c'"
  unfolding keeps_locks_def
proof (intro allI impI)
  fix A assume l: "locks_ok S c A"
  have up: "set ns \<subseteq> S \<Longrightarrow> up_path c a ns \<Longrightarrow> up_path c' a ns" for a ns
    by (induction ns arbitrary: a) (auto simp: rt keep split: option.splits)
  have ab: "above c' m a \<longleftrightarrow> above c m a \<and> m \<noteq> new" if "a \<in># A" for m a
  proof -
    have a: "a \<in> S" using l that by (auto simp: locks_ok_def)
    obtain ns where ns: "up_path c a ns" "set ns \<subseteq> S" using infinite_descent_depth [OF t a] by blast
    then show ?thesis using nS unfolding above_path [OF up [OF ns(2,1)]] above_path [OF ns(1)] by auto
  qed
  have "filter_mset (above c' new) A = filter_mset (\<lambda>_. False) A" by (rule filter_mset_cong) (use ab in auto)
  then have n0: "holders c' A new = 0" by (simp add: holders_def)
  have h: "holders c' A m = holders c A m" if "m \<noteq> new" for m by (rule holders_cong) (use ab that in simp)
  have "lock_ref (heap c' m) = int (holders c' A m)" if "m \<in> insert new S - {root_node c'}" for m
    using that l l0 n0 h keep rt nS by (cases "m = new") (auto simp: locks_ok_def)
  then show "locks_ok (insert new S) c' A" using l by (auto simp: locks_ok_def)
qed

section \<open>Locking and unlocking\<close>

lemma locks_ok_lock:
  assumes t: "tree_ok cfg S c" and l: "locks_ok S c A" and n: "n \<in> S" "up_path c n ns"
    and sp: "lock_fold_spec (\<lambda>i. i + 1) ns (c, d) (c', d')"
  shows "locks_ok S c' (add_mset n A)"
proof -
  have s: "same_shape c c'" using lock_spec_shape [OF sp] by simp
  have "lock_ref (heap c' m) = int (holders c' (add_mset n A) m)" if "m \<in> S - {root_node c'}" for m
  proof -
    have "lock_ref (heap c m) = int (holders c A m)" using that l s by (simp add: locks_ok_def same_shape_def)
    then show ?thesis
      using sp unfolding holders_shape [OF s] holders_add above_shape [OF s] above_path [OF n(2)] by (simp add: lock_fold_spec_def upd_lock_def)
  qed
  then show ?thesis using l n(1) by (simp add: locks_ok_def)
qed

lemma locks_ok_unlock:
  assumes t: "tree_ok cfg S c" and l: "locks_ok S c (add_mset n A)" and n: "up_path c n ns"
    and sp: "lock_fold_spec (\<lambda>i. i - 1) ns (c, d) (c', d')"
  shows "locks_ok S c' A"
proof -
  have s: "same_shape c c'" using lock_spec_shape [OF sp] by simp
  have "lock_ref (heap c' m) = int (holders c' A m)" if "m \<in> S - {root_node c'}" for m
  proof -
    have "lock_ref (heap c m) = int (holders c (add_mset n A) m)" using that l s by (simp add: locks_ok_def same_shape_def)
    then show ?thesis
      using sp unfolding holders_shape [OF s] holders_add above_shape [OF s] above_path [OF n] by (simp add: lock_fold_spec_def upd_lock_def)
  qed
  then show ?thesis using l by (simp add: locks_ok_def)
qed

lemma held_path_locked:
  assumes t: "tree_ok cfg S c" and l: "locks_ok S c A" and n: "n \<in># A" "up_path c n ns" and m: "m \<in> set ns"
  shows "0 < lock_ref (heap c m)"
proof -
  have "n \<in> S" using l n(1) by (auto simp: locks_ok_def)
  then have "m \<in> S - {root_node c}" using path_in_tree [OF t _ n(2)] m by blast
  then have "lock_ref (heap c m) = int (holders c A m)" using l by (simp add: locks_ok_def)
  moreover obtain B where "A = add_mset n B" using n(1) by (metis multi_member_split)
  ultimately show ?thesis using above_path [OF n(2), of m] m by (simp add: holders_add)
qed

text \<open>Without holders nothing but the root is locked.\<close>

lemma no_holders: "locks_ok S c {#} \<Longrightarrow> m \<in> S \<Longrightarrow> m \<noteq> root_node c \<Longrightarrow> lock_ref (heap c m) = 0"
  by (simp add: locks_ok_def holders_def)

end
