(* ===== verification/Radix_Insert.thy ===== *)
theory Radix_Insert
  imports Radix_Locks
begin

text \<open>
  Matching and inserting in the radix tree: both return on every well-formed tree, keep the shape
  and the accounting invariant, and mean what they should: the node a match returns spells a prefix
  of the key and holds its indices, an insertion makes the whole key reachable, and neither
  disturbs what the tree held before.
\<close>

section \<open>Changes that do not touch the tree\<close>

text \<open>Timestamps, hit counts and priorities are invisible to the invariants.\<close>

definition same_tree :: "radix_cache \<Rightarrow> radix_cache \<Rightarrow> bool" where
  "same_tree c c' \<longleftrightarrow> root_node c' = root_node c \<and> counter c' = counter c \<and> freed c' = freed c
     \<and> evictable_size c' = evictable_size c \<and> protected_size c' = protected_size c
     \<and> evictable_leaves c' = evictable_leaves c
     \<and> (\<forall>n. rchildren (heap c' n) = rchildren (heap c n) \<and> rparent (heap c' n) = rparent (heap c n)
          \<and> rkey (heap c' n) = rkey (heap c n) \<and> rvalue (heap c' n) = rvalue (heap c n)
          \<and> rdepth (heap c' n) = rdepth (heap c n) \<and> lock_ref (heap c' n) = lock_ref (heap c n)
          \<and> queue_ref_count (heap c' n) = queue_ref_count (heap c n))"

lemma same_tree_refl [simp]: "same_tree c c"
  by (simp add: same_tree_def)

lemma same_tree_trans: "same_tree c c' \<Longrightarrow> same_tree c' c'' \<Longrightarrow> same_tree c c''"
  by (simp add: same_tree_def)

lemma same_tree_ops [simp]:
  "same_tree c (set_access b t n c)" "same_tree c (add_hit b n c)" "same_tree c (raise_priority pr n c)"
  "same_tree c (upd_node n (\<lambda>x. x\<lparr>last_access_time := t\<rparr>) c)"
  by (simp_all add: same_tree_def set_access_def add_hit_def raise_priority_def upd_node_def)

lemma same_tree_fields:
  assumes "same_tree c c'"
  shows "root_node c' = root_node c" "counter c' = counter c"
    "rchildren (heap c' n) = rchildren (heap c n)" "rparent (heap c' n) = rparent (heap c n)"
    "rkey (heap c' n) = rkey (heap c n)" "rvalue (heap c' n) = rvalue (heap c n)"
    "rdepth (heap c' n) = rdepth (heap c n)" "lock_ref (heap c' n) = lock_ref (heap c n)"
  using assms by (simp_all add: same_tree_def)

lemma tree_ok_same:
  assumes "same_tree c c'"
  shows "tree_ok cfg S c' = tree_ok cfg S c"
  unfolding tree_ok_def node_ok_def child_ok_def same_tree_fields [OF assms] by (rule refl)

lemma acct_ok_same:
  assumes "same_tree c c'"
  shows "acct_ok S c' = acct_ok S c"
proof -
  have "ev_len (heap c' n) = ev_len (heap c n)" "pr_len (heap c' n) = pr_len (heap c n)"
    "evicted (heap c' n) = evicted (heap c n)" "leaf_status c' n = leaf_status c n" for n
    by (simp_all add: ev_len_def pr_len_def evicted_def leaf_status_def same_tree_fields [OF assms])
  then show ?thesis using assms by (simp add: acct_ok_def same_tree_def)
qed

section \<open>What a node stands for\<close>

text \<open>The tokens on the path from the root to a node, and the KV indices stored along it.\<close>

inductive reaches :: "radix_cache \<Rightarrow> nat \<Rightarrow> int list \<Rightarrow> int list \<Rightarrow> bool" for c where
  reaches_root: "reaches c (root_node c) [] []"
| reaches_step: "n \<noteq> root_node c \<Longrightarrow> rparent (heap c n) = Some p \<Longrightarrow> reaches c p ts vs \<Longrightarrow>
     reaches c n (ts @ token_ids (rkey (heap c n))) (vs @ node_values (heap c n))"

inductive_cases reaches_rootE: "reaches c (root_node c) ts vs"
inductive_cases reaches_stepE: "reaches c n ts vs"

lemma reaches_same:
  assumes "same_tree c c'" and "reaches c n ts vs"
  shows "reaches c' n ts vs"
  using assms(2)
proof induction
  case reaches_root
  then show ?case using reaches.reaches_root [of c'] by (simp add: same_tree_fields [OF assms(1)])
next
  case (reaches_step n p ts vs)
  then show ?case using reaches.reaches_step [of n c' p ts vs]
    by (simp add: same_tree_fields [OF assms(1)] node_values_def)
qed

text \<open>Nothing that was reachable is lost.\<close>

definition keeps :: "nat set \<Rightarrow> radix_cache \<Rightarrow> radix_cache \<Rightarrow> bool" where
  "keeps S c c' \<longleftrightarrow> (\<forall>n \<in> S. \<forall>ts vs. reaches c n ts vs \<longrightarrow> reaches c' n ts vs)"

lemma keeps_same: "same_tree c c' \<Longrightarrow> keeps S c c'"
  using reaches_same by (auto simp: keeps_def)

lemma keeps_trans: "keeps S c c' \<Longrightarrow> keeps S' c' c'' \<Longrightarrow> S \<subseteq> S' \<Longrightarrow> keeps S c c''"
  by (auto simp: keeps_def)

lemma keeps_split:
  assumes t: "tree_ok cfg S c" and ch: "child \<in> S" "child \<noteq> root_node c" and p: "rparent (heap c child) = Some p"
    and new: "new = counter c" and sp: "split_ok cfg p child new k c c'"
  shows "keeps S c c'"
  unfolding keeps_def
proof (intro ballI allI impI)
  fix n ts vs
  assume "n \<in> S" and "reaches c n ts vs"
  note sd = sp [unfolded split_ok_def]
  have nS: "new \<notin> S" using t by (auto simp: tree_ok_def new)
  from \<open>reaches c n ts vs\<close> \<open>n \<in> S\<close> show "reaches c' n ts vs"
  proof induction
    case reaches_root
    then show ?case using reaches.reaches_root [of c'] sd by simp
  next
    case (reaches_step n q ts vs)
    have qS: "q \<in> S" using tree_ok_nodeD [OF t reaches_step.prems reaches_step.hyps(1)] reaches_step.hyps(2) by (metis option.inject)
    have IH: "reaches c' q ts vs" by (rule reaches_step.IH [OF qS])
    have nr: "n \<noteq> root_node c'" "new \<noteq> root_node c'" using reaches_step.hyps(1) sd nS t by (auto simp: tree_ok_def)
    have nn: "n \<noteq> new" using reaches_step.prems nS by auto
    show ?case
    proof (cases "n = child")
      case True
      obtain v where v: "rvalue (heap c child) = Some v" using tree_ok_nodeD [OF t ch] by metis
      have q: "q = p" using p reaches_step.hyps(2) True by simp
      have "reaches c' new (ts @ token_ids (rkey (heap c' new))) (vs @ node_values (heap c' new))"
        by (rule reaches.reaches_step [OF nr(2) _ IH]) (use sd q in simp)
      then have "reaches c' child ((ts @ token_ids (rkey (heap c' new))) @ token_ids (rkey (heap c' child)))
          ((vs @ node_values (heap c' new)) @ node_values (heap c' child))"
        by (rule reaches.reaches_step [rotated 2]) (use sd nr True in auto)
      then show ?thesis using sd v True by (simp add: key_take_def key_drop_def node_values_def)
    next
      case False
      have f: "rparent (heap c' n) = Some q" "rkey (heap c' n) = rkey (heap c n)" "rvalue (heap c' n) = rvalue (heap c n)"
        using sd False nn reaches_step.hyps(2) by (cases "n = p"; simp)+
      show ?thesis using reaches.reaches_step [OF nr(1) f(1) IH] by (simp add: f node_values_def)
    qed
  qed
qed

section \<open>Paths that a request can hold\<close>

text \<open>
  A path all of whose edges are whole pages under one extra key and, with the flag, locked: what the
  node of a running request stands on.
\<close>

definition tidy :: "bool \<Rightarrow> rc_config \<Rightarrow> string option \<Rightarrow> rnode \<Rightarrow> bool" where
  "tidy lk cfg ex x \<longleftrightarrow> extra_key (rkey x) = ex \<and> page_size cfg dvd key_len (rkey x) \<and> (lk \<longrightarrow> 0 < lock_ref x)"

inductive path_ok :: "bool \<Rightarrow> rc_config \<Rightarrow> string option \<Rightarrow> radix_cache \<Rightarrow> nat \<Rightarrow> int list \<Rightarrow> int list \<Rightarrow> bool"
  for lk cfg ex c
where
  path_root: "path_ok lk cfg ex c (root_node c) [] []"
| path_step: "n \<noteq> root_node c \<Longrightarrow> rparent (heap c n) = Some p \<Longrightarrow> path_ok lk cfg ex c p ts vs \<Longrightarrow> tidy lk cfg ex (heap c n) \<Longrightarrow>
     path_ok lk cfg ex c n (ts @ token_ids (rkey (heap c n))) (vs @ node_values (heap c n))"

lemma path_ok_reaches: "path_ok lk cfg ex c n ts vs \<Longrightarrow> reaches c n ts vs"
  by (induction rule: path_ok.induct) (auto intro: reaches.intros)

lemma path_ok_unlocked: "path_ok lk cfg ex c n ts vs \<Longrightarrow> path_ok False cfg ex c n ts vs"
  by (induction rule: path_ok.induct) (auto intro: path_ok.intros simp: tidy_def)

lemma path_ok_same:
  assumes "same_tree c c'" and "path_ok lk cfg ex c n ts vs"
  shows "path_ok lk cfg ex c' n ts vs"
  using assms(2)
proof induction
  case path_root
  then show ?case using path_ok.path_root [of lk cfg ex c'] by (simp add: same_tree_fields [OF assms(1)])
next
  case (path_step n p ts vs)
  then show ?case using path_ok.path_step [of n c' p lk cfg ex ts vs]
    by (simp add: same_tree_fields [OF assms(1)] node_values_def tidy_def)
qed

text \<open>The KV indices the nodes hold, and what every walk leaves alone.\<close>

definition held :: "nat set \<Rightarrow> radix_cache \<Rightarrow> int multiset" where
  "held S c = (\<Sum>n \<in> S. mset (node_values (heap c n)))"

definition keeps_paths :: "rc_config \<Rightarrow> nat set \<Rightarrow> radix_cache \<Rightarrow> radix_cache \<Rightarrow> bool" where
  "keeps_paths cfg S c c' \<longleftrightarrow>
     (\<forall>lk ex. \<forall>n \<in> S. \<forall>ts vs. path_ok lk cfg ex c n ts vs \<longrightarrow> path_ok lk cfg ex c' n ts vs)"

definition carries :: "rc_config \<Rightarrow> nat set \<Rightarrow> radix_cache \<Rightarrow> nat set \<Rightarrow> radix_cache \<Rightarrow> bool" where
  "carries cfg S c S' c' \<longleftrightarrow> held S' c' = held S c \<and> keeps_paths cfg S c c' \<and> freed c' = freed c
     \<and> (\<forall>n \<in> S. lock_ref (heap c' n) = lock_ref (heap c n)) \<and> keeps_locks S c S' c'"

lemma keeps_locks_same: "same_tree c c' \<Longrightarrow> keeps_locks S c S c'"
  by (rule keeps_locks_pointers) (simp_all add: same_tree_def same_shape_def)

lemma carries_same: "same_tree c c' \<Longrightarrow> carries cfg S c S c'"
  using path_ok_same [of c c'] same_tree_fields(6) [of c c']
  using keeps_locks_same [of c c']
  by (auto simp: carries_def held_def keeps_paths_def node_values_def same_tree_def)

lemma carries_refl [simp]: "carries cfg S c S c"
  by (rule carries_same [OF same_tree_refl])

lemma carries_trans: "carries cfg S c S1 c1 \<Longrightarrow> carries cfg S1 c1 S' c' \<Longrightarrow> S \<subseteq> S1 \<Longrightarrow> carries cfg S c S' c'"
  using keeps_locks_trans [of S c S1 c1 S' c'] by (auto simp: carries_def keeps_paths_def)

lemma keeps_paths_split:
  assumes t: "tree_ok cfg S c" and ch: "child \<in> S" "child \<noteq> root_node c" and p: "rparent (heap c child) = Some p"
    and new: "new = counter c" and sp: "split_ok cfg p child new k c c'"
    and k: "page_size cfg dvd k" "0 \<le> k" "k \<le> key_len (rkey (heap c child))"
  shows "keeps_paths cfg S c c'"
  unfolding keeps_paths_def
proof (intro allI ballI impI)
  fix lk ex n ts vs
  assume "n \<in> S" and "path_ok lk cfg ex c n ts vs"
  note sd = sp [unfolded split_ok_def]
  have nS: "new \<notin> S" using t by (auto simp: tree_ok_def new)
  from \<open>path_ok lk cfg ex c n ts vs\<close> \<open>n \<in> S\<close> show "path_ok lk cfg ex c' n ts vs"
  proof induction
    case path_root
    then show ?case using path_ok.path_root [of lk cfg ex c'] sd by simp
  next
    case (path_step n q ts vs)
    have qS: "q \<in> S" using tree_ok_nodeD [OF t path_step.prems path_step.hyps(1)] path_step.hyps(2) by (metis option.inject)
    have IH: "path_ok lk cfg ex c' q ts vs" by (rule path_step.IH [OF qS])
    have nr: "n \<noteq> root_node c'" "new \<noteq> root_node c'" using path_step.hyps(1) sd nS t by (auto simp: tree_ok_def)
    have nn: "n \<noteq> new" using path_step.prems nS by auto
    show ?case
    proof (cases "n = child")
      case True
      obtain v where v: "rvalue (heap c child) = Some v" using tree_ok_nodeD [OF t ch] by metis
      have q: "q = p" using p path_step.hyps(2) True by simp
      have len: "key_len (rkey (heap c' new)) = k" "key_len (rkey (heap c' child)) = key_len (rkey (heap c child)) - k"
        using sd key_len_take [OF k(2,3)] key_len_drop [OF k(2,3)] by simp_all
      have td: "tidy lk cfg ex (heap c' new)" "tidy lk cfg ex (heap c' child)"
        using path_step.hyps(4) True sd k(1) len by (simp_all add: tidy_def key_take_def key_drop_def)
      have "path_ok lk cfg ex c' new (ts @ token_ids (rkey (heap c' new))) (vs @ node_values (heap c' new))"
        by (rule path_ok.path_step [OF nr(2) _ IH td(1)]) (use sd q in simp)
      then have "path_ok lk cfg ex c' child ((ts @ token_ids (rkey (heap c' new))) @ token_ids (rkey (heap c' child)))
          ((vs @ node_values (heap c' new)) @ node_values (heap c' child))"
        by (rule path_ok.path_step [rotated 2]) (use sd nr True td in auto)
      then show ?thesis using sd v True by (simp add: key_take_def key_drop_def node_values_def)
    next
      case False
      have f: "rparent (heap c' n) = Some q" "rkey (heap c' n) = rkey (heap c n)" "rvalue (heap c' n) = rvalue (heap c n)"
        "lock_ref (heap c' n) = lock_ref (heap c n)"
        using sd False nn path_step.hyps(2) by (cases "n = p"; simp)+
      have "tidy lk cfg ex (heap c' n)" using path_step.hyps(4) by (simp add: tidy_def f)
      then show ?thesis using path_ok.path_step [OF nr(1) f(1) IH] by (simp add: f node_values_def)
    qed
  qed
qed

lemma held_split:
  assumes t: "tree_ok cfg S c" and ch: "child \<in> S" "child \<noteq> root_node c"
    and new: "new = counter c" and sp: "split_ok cfg p child new k c c'"
  shows "held (insert new S) c' = held S c"
proof -
  note sd = sp [unfolded split_ok_def]
  have fin: "finite S" and nS: "new \<notin> S" using t by (auto simp: tree_ok_def new)
  obtain v where v: "rvalue (heap c child) = Some v" using tree_ok_nodeD [OF t ch] by metis
  have "node_values (heap c' m) = node_values (heap c m)" if "m \<in> S - {child}" for m
    using that sd nS by (cases "m = p") (auto simp: node_values_def)
  then have "(\<Sum>m \<in> S - {child}. mset (node_values (heap c' m))) = (\<Sum>m \<in> S - {child}. mset (node_values (heap c m)))"
    by (intro sum.cong) simp_all
  moreover have "mset (node_values (heap c' new)) + mset (node_values (heap c' child)) = mset (node_values (heap c child))"
    using sd v by (simp add: node_values_def flip: mset_append)
  ultimately show ?thesis
    unfolding held_def sum.insert [OF fin nS] sum.remove [OF fin ch(1)] by (simp add: ac_simps)
qed

section \<open>The comparison of two keys\<close>

definition matched :: "rc_config \<Rightarrow> int \<Rightarrow> int list \<Rightarrow> int list \<Rightarrow> bool" where
  "matched cfg k as bs \<longleftrightarrow> 0 < k \<and> page_size cfg \<le> k
     \<and> (if k < int (length as) then k \<le> int (length bs) \<and> take (nat k) as = take (nat k) bs
        else bs = as @ drop (nat k) bs)"

lemma match_tokens_spec:
  "0 \<le> match_tokens as bs \<and> nat (match_tokens as bs) \<le> length as \<and> nat (match_tokens as bs) \<le> length bs
   \<and> take (nat (match_tokens as bs)) as = take (nat (match_tokens as bs)) bs"
  by (induction as bs rule: match_tokens.induct) (auto simp: nat_add_distrib)

lemma match_pages_Nil [simp]: "match_pages p [] bs = 0"
  by (simp add: match_pages.simps)

lemma match_pages_spec:
  "0 < p \<Longrightarrow> 0 \<le> match_pages p as bs
    \<and> (if match_pages p as bs < int (length as)
       then match_pages p as bs \<le> int (length bs)
          \<and> take (nat (match_pages p as bs)) as = take (nat (match_pages p as bs)) bs
       else bs = as @ drop (nat (match_pages p as bs)) bs)"
proof (induction p as bs rule: match_pages.induct)
  case (1 p as bs)
  show ?case
  proof (cases "p = 0 \<or> as = [] \<or> bs = [] \<or> take p as \<noteq> take p bs")
    case True
    then have "match_pages p as bs = 0" by (auto simp: match_pages.simps [of p as bs])
    then show ?thesis by simp
  next
    case False
    then have e: "match_pages p as bs = int p + match_pages p (drop p as) (drop p bs)" (is "_ = int p + ?k")
      by (simp add: match_pages.simps [of p as bs])
    have eq: "take p as = take p bs" using False by blast
    have "0 \<le> ?k \<and> (if ?k < int (length (drop p as)) then ?k \<le> int (length (drop p bs))
        \<and> take (nat ?k) (drop p as) = take (nat ?k) (drop p bs) else drop p bs = drop p as @ drop (nat ?k) (drop p bs))"
      by (rule "1.IH") (use "1.prems" False in simp_all)
    note IH = this [THEN conjunct1] this [THEN conjunct2]
    have n: "nat (int p + ?k) = p + nat ?k" using IH(1) by (simp add: nat_add_distrib)
    have tk: "take (p + nat ?k) xs = take p xs @ take (nat ?k) (drop p xs)" for xs :: "int list"
      by (simp add: take_add)
    show ?thesis
    proof (cases "int p + ?k < int (length as)")
      case True
      then have lp: "p \<le> length as" and l: "?k < int (length (drop p as))" using IH(1) by auto
      have lb: "length (take p bs) = p" using lp eq by (metis length_take min.absorb2)
      then have "p \<le> length bs" by simp
      moreover have "?k \<le> int (length (drop p bs)) \<and> take (nat ?k) (drop p as) = take (nat ?k) (drop p bs)"
        using IH(2) by (simp only: l if_True)
      ultimately show ?thesis using True IH(1) eq unfolding e n tk by (simp add: of_nat_diff)
    next
      case False
      then have "\<not> ?k < int (length (drop p as))"
        using IH(1) by (cases "p \<le> length as") (auto simp: of_nat_diff)
      then have "drop p bs = drop p as @ drop (nat ?k) (drop p bs)" using IH(2) by simp
      then have "take p bs @ drop p bs = take p as @ drop p as @ drop (nat ?k) (drop p bs)" by (simp add: eq)
      then have "bs = as @ drop (nat ?k) (drop p bs)" by (simp flip: append_assoc)
      then show ?thesis using IH(1) False unfolding e n by (simp add: add.commute)
    qed
  qed
qed

lemma key_match_spec:
  assumes pg: "0 < page_size cfg" and ne: "token_ids k0 \<noteq> []" "token_ids k1 \<noteq> []"
    and ck: "get_child_key (page_size cfg) k0 = get_child_key (page_size cfg) k1"
  obtains k where "key_match (page_size cfg) k0 k1 = Inr k" and "matched cfg k (token_ids k0) (token_ids k1)"
proof (cases "page_size cfg = 1")
  case True
  have "hd (token_ids k0) = hd (token_ids k1)" "extra_key k0 = extra_key k1"
    using ck True by (simp_all add: get_child_key_def)
  then have h: "0 < match_tokens (token_ids k0) (token_ids k1)"
    using ne match_tokens_spec by (cases "token_ids k0"; cases "token_ids k1") (auto simp: add_pos_nonneg)
  note m = match_tokens_spec [of "token_ids k0" "token_ids k1"]
  have "matched cfg (match_tokens (token_ids k0) (token_ids k1)) (token_ids k0) (token_ids k1)"
    unfolding matched_def using h m True
    by (auto simp: not_less) (metis append_take_drop_id le_antisym nat_le_iff take_all_iff)+
  then show ?thesis using that True \<open>extra_key k0 = extra_key k1\<close>
    by (simp add: key_match_def key_match_page_size1_def check_extra_key_def)
next
  case False
  have tk: "take (nat (page_size cfg)) (token_ids k0) = take (nat (page_size cfg)) (token_ids k1)"
    and ex: "extra_key k0 = extra_key k1" using ck False by (simp_all add: get_child_key_def)
  have p0: "0 < nat (page_size cfg)" using pg by simp
  have "match_pages (nat (page_size cfg)) (token_ids k0) (token_ids k1) =
      int (nat (page_size cfg)) + match_pages (nat (page_size cfg))
        (drop (nat (page_size cfg)) (token_ids k0)) (drop (nat (page_size cfg)) (token_ids k1))"
    using p0 ne tk by (subst match_pages.simps) simp
  then have "page_size cfg \<le> match_pages (nat (page_size cfg)) (token_ids k0) (token_ids k1)"
    using match_pages_spec [OF p0] pg by simp
  then have "matched cfg (match_pages (nat (page_size cfg)) (token_ids k0) (token_ids k1)) (token_ids k0) (token_ids k1)"
    using match_pages_spec [OF p0, of "token_ids k0" "token_ids k1"] pg by (simp add: matched_def)
  then show ?thesis using that False ex
    by (simp add: key_match_def key_match_paged_def check_extra_key_def)
qed

text \<open>A match is a whole number of pages, and a full match of a whole number of pages is a whole number of pages.\<close>

lemma match_pages_dvd: "int p dvd match_pages p as bs"
proof (induction p as bs rule: match_pages.induct)
  case (1 p as bs)
  then show ?case by (subst match_pages.simps) (auto intro: dvd_add)
qed

lemma match_pages_full:
  "0 < p \<Longrightarrow> p dvd length bs \<Longrightarrow> int (length as) \<le> match_pages p as bs \<Longrightarrow> p dvd length as"
proof (induction p as bs rule: match_pages.induct)
  case (1 p as bs)
  show ?case
  proof (cases "as = [] \<or> bs = [] \<or> take p as \<noteq> take p bs")
    case True
    then have "match_pages p as bs = 0" by (auto simp: match_pages.simps [of p as bs])
    then show ?thesis using "1.prems" by simp
  next
    case False
    have le: "p \<le> length bs" using "1.prems"(2) False by (auto dest: dvd_imp_le)
    then have la: "p \<le> length as" using False by (metis length_take min.absorb2 min.cobounded1)
    have "match_pages p as bs = int p + match_pages p (drop p as) (drop p bs)"
      using False "1.prems"(1) by (subst match_pages.simps) auto
    then have "p dvd length (drop p as)"
      using "1.IH" "1.prems" False la le by (simp add: of_nat_diff)
    then show ?thesis using la dvd_diffD [of p "length as" p] by simp
  qed
qed

lemma match_pages_le: "0 < p \<Longrightarrow> p dvd length bs \<Longrightarrow> match_pages p as bs \<le> int (length bs)"
proof (induction p as bs rule: match_pages.induct)
  case (1 p as bs)
  show ?case
  proof (cases "as = [] \<or> bs = [] \<or> take p as \<noteq> take p bs")
    case True
    then have "match_pages p as bs = 0" by (auto simp: match_pages.simps [of p as bs])
    then show ?thesis by simp
  next
    case False
    have le: "p \<le> length bs" using "1.prems"(2) False by (auto dest: dvd_imp_le)
    have "match_pages p as bs = int p + match_pages p (drop p as) (drop p bs)"
      using False "1.prems"(1) by (subst match_pages.simps) auto
    then show ?thesis using "1.IH" "1.prems" False le by (simp add: of_nat_diff)
  qed
qed

lemma key_match_facts:
  assumes pg: "0 < page_size cfg" and m: "key_match (page_size cfg) k0 k1 = Inr k"
  shows "extra_key k0 = extra_key k1" and "page_size cfg dvd k"
    and "page_size cfg dvd key_len k1 \<Longrightarrow> \<not> k < key_len k0 \<Longrightarrow> page_size cfg dvd key_len k0"
    and "page_size cfg dvd key_len k1 \<Longrightarrow> k \<le> key_len k1"
proof -
  show "extra_key k0 = extra_key k1"
    using m by (auto simp: key_match_def key_match_page_size1_def key_match_paged_def check_extra_key_def split: if_splits)
  have k: "k = match_pages (nat (page_size cfg)) (token_ids k0) (token_ids k1)" if "page_size cfg \<noteq> 1"
    using m that by (auto simp: key_match_def key_match_paged_def check_extra_key_def split: if_splits)
  have e: "int (nat (page_size cfg)) = page_size cfg" using pg by simp
  show "page_size cfg dvd k"
    using k match_pages_dvd [of "nat (page_size cfg)" "token_ids k0" "token_ids k1"] e by (cases "page_size cfg = 1") simp_all
  show "k \<le> key_len k1" if "page_size cfg dvd key_len k1"
  proof (cases "page_size cfg = 1")
    case True
    then have "k = match_tokens (token_ids k0) (token_ids k1)"
      using m by (auto simp: key_match_def key_match_page_size1_def check_extra_key_def split: if_splits)
    then show ?thesis using match_tokens_spec [of "token_ids k0" "token_ids k1"] by (simp add: key_len_def nat_le_iff)
  next
    case False
    have "nat (page_size cfg) dvd length (token_ids k1)" using that(1) e by (metis int_dvd_int_iff key_len_def)
    then show ?thesis using match_pages_le [of "nat (page_size cfg)" "token_ids k1" "token_ids k0"] k [OF False] pg by (simp add: key_len_def)
  qed
  show "page_size cfg dvd key_len k0" if "page_size cfg dvd key_len k1" "\<not> k < key_len k0"
  proof (cases "page_size cfg = 1")
    case False
    have "nat (page_size cfg) dvd length (token_ids k1)" using that(1) e by (metis int_dvd_int_iff key_len_def)
    then have "nat (page_size cfg) dvd length (token_ids k0)"
      using match_pages_full [of "nat (page_size cfg)" "token_ids k1" "token_ids k0"] that(2) k [OF False] pg by (simp add: key_len_def)
    then show ?thesis using e by (metis int_dvd_int_iff key_len_def)
  qed simp
qed

section \<open>The accounting of a split and of a new leaf\<close>

lemma leaf_status_tree:
  assumes t: "tree_ok cfg S c" and n: "n \<in> S"
  shows "leaf_status c n \<longleftrightarrow> lock_ref (heap c n) \<le> 0 \<and> rchildren (heap c n) = []"
proof -
  have ev: "\<not> evicted (heap c m)" if "m \<in> S" for m
  proof (cases "m = root_node c")
    case True
    then show ?thesis using t by (simp add: evicted_def tree_ok_def)
  next
    case False
    from t that False show ?thesis by (rule tree_ok_nodeD) (simp add: evicted_def)
  qed
  have wf: "wf_dict (rchildren (heap c n))" using t n by (simp add: tree_ok_def child_ok_def)
  have "\<not> evicted (heap c ch)" if "ch \<in> set (dvals (rchildren (heap c n)))" for ch
  proof -
    from that obtain k where "(k, ch) \<in> set (rchildren (heap c n))" by auto
    then have "dget (rchildren (heap c n)) k = Some ch" using wf by (simp add: dget_Some_iff_mem)
    then show ?thesis using tree_ok_childD [OF t n] ev by blast
  qed
  then show ?thesis using ev [OF n] by (cases "rchildren (heap c n)") (auto simp: leaf_status_def)
qed

lemma dset_nonempty [simp]: "dset k v d \<noteq> []"
  by (cases d) auto

lemma acct_ok_split:
  assumes t: "tree_ok cfg S c" and a: "acct_ok S c"
    and ch: "child \<in> S" "child \<noteq> root_node c" and p: "rparent (heap c child) = Some p"
    and k: "0 < page_size cfg" "page_size cfg \<le> k" "k < key_len (rkey (heap c child))"
    and new: "new = counter c" and sp: "split_ok cfg p child new k c c'"
  shows "acct_ok (insert new S) c'"
proof -
  note sd = sp [unfolded split_ok_def]
  have t': "tree_ok cfg (insert new S) c'" by (rule tree_ok_split [OF t ch p k new sp])
  have nS: "new \<notin> S" using t by (auto simp: tree_ok_def new)
  have fin: "finite S" and rS: "root_node c \<in> S" using t by (simp_all add: tree_ok_def)
  have pS: "p \<in> S" using tree_ok_nodeD [OF t ch] p by (metis option.inject)
  have pc: "rchildren (heap c p) \<noteq> []"
    using tree_ok_nodeD [OF t ch] p by (metis map_of.simps(1) option.distinct(1) option.inject)
  have nn: "new \<noteq> p" "new \<noteq> child" "new \<noteq> root_node c" using nS pS ch rS by auto
  have pch: "p \<noteq> child" using depth_less_parent [OF t ch p] by auto
  have oth: "heap c' m = heap c m" if "m \<noteq> new" "m \<noteq> child" "m \<noteq> p" for m using sd that by blast
  have key: "rkey (heap c' m) = rkey (heap c m)" if "m \<noteq> new" "m \<noteq> child" for m
    using that sd oth by (cases "m = p"; simp)
  have lk: "lock_ref (heap c' m) = lock_ref (heap c m)" if "m \<noteq> new" for m
    using that sd oth by (cases "m = p"; cases "m = child"; simp)
  have kc: "rchildren (heap c' m) = [] \<longleftrightarrow> rchildren (heap c m) = []" if "m \<noteq> new" for m
    using that sd oth pc by (cases "m = child"; cases "m = p"; simp)
  let ?A = "S - {root_node c}"
  have chA: "child \<in> ?A" using ch by simp
  have finA: "finite ?A" using fin by simp
  have A: "insert new S - {root_node c} = insert new ?A" using nn by auto
  have nA: "new \<notin> ?A" using nS by simp
  have k0: "0 \<le> k" "k \<le> key_len (rkey (heap c child))" using k by auto
  have sums: "(\<Sum>m \<in> insert new ?A. F (heap c' m)) = (\<Sum>m \<in> ?A. F (heap c m))"
    if F: "\<And>x. F x = (if lock_ref x = 0 then u else v) * key_len (rkey x)" for F and u v :: int
  proof -
    have "(\<Sum>m \<in> ?A. F (heap c' m)) = (\<Sum>m \<in> ?A. F (heap c m)) + (F (heap c' child) - F (heap c child))"
    proof (rule sum_one_changed [OF finA chA])
      fix m assume m: "m \<in> ?A" "m \<noteq> child"
      then have "m \<noteq> new" using nA by auto
      then show "F (heap c' m) = F (heap c m)" using m(2) by (simp add: F lk key)
    qed
    moreover have "F (heap c' new) + F (heap c' child) = F (heap c child)"
      using sd by (simp add: F key_len_take [OF k0] key_len_drop [OF k0] algebra_simps flip: distrib_left)
    ultimately show ?thesis using finA nA by simp
  qed
  have ev: "(\<Sum>m \<in> insert new ?A. ev_len (heap c' m)) = (\<Sum>m \<in> ?A. ev_len (heap c m))"
    by (rule sums [of ev_len 1 0]) (simp add: ev_len_def)
  have pr: "(\<Sum>m \<in> insert new ?A. pr_len (heap c' m)) = (\<Sum>m \<in> ?A. pr_len (heap c m))"
    by (rule sums [of pr_len 0 1]) (simp add: pr_len_def)
  have leaf: "m \<in> set (evictable_leaves c') \<longleftrightarrow> m \<in> insert new S \<and> leaf_status c' m" for m
  proof (cases "m = new")
    case True
    have "\<not> leaf_status c' new" using leaf_status_tree [OF t', of new] sd by simp
    then show ?thesis using True a sd nS by (auto simp: acct_ok_def)
  next
    case False
    have "leaf_status c' m = leaf_status c m" if "m \<in> S"
      using leaf_status_tree [OF t' insertI2 [OF that]] leaf_status_tree [OF t that] lk [OF False] kc [OF False] by simp
    then show ?thesis using False a sd by (auto simp: acct_ok_def)
  qed
  have "0 \<le> lock_ref (heap c' m)" if "m \<in> insert new S" for m
    using that a lk [of m] sd ch by (cases "m = new") (auto simp: acct_ok_def)
  then show ?thesis using a sd ev pr leaf unfolding acct_ok_def by (simp add: A)
qed

lemma split_step:
  assumes t: "tree_ok cfg S c" and a: "acct_ok S c"
    and ch: "child \<in> S" "child \<noteq> root_node c" and p: "rparent (heap c child) = Some p"
    and k: "0 < page_size cfg" "page_size cfg \<le> k" "k < key_len (rkey (heap c child))" and dv: "page_size cfg dvd k"
  obtains c' new where "split_node cfg tm child k c = Inr (c', new)" and "new \<notin> S"
    and "tree_ok cfg (insert new S) c'" and "acct_ok (insert new S) c'" and "keeps S c c'"
    and "split_ok cfg p child new k c c'" and "new \<noteq> root_node c'" and "carries cfg S c (insert new S) c'"
proof -
  have pS: "p \<in> S" using tree_ok_nodeD [OF t ch] p by (metis option.inject)
  have pch: "p \<noteq> child" using depth_less_parent [OF t ch p] by auto
  have lt: "\<And>n. n \<in> S \<Longrightarrow> n \<noteq> counter c" and r: "root_node c \<noteq> counter c" using t by (auto simp: tree_ok_def)
  obtain c' where c': "split_node cfg tm child k c = Inr (c', counter c)" "split_ok cfg p child (counter c) k c c'"
    using split_node_ok [OF p pch lt [OF pS] lt [OF ch(1)]] by blast
  note f = tree_ok_split [OF t ch p k refl c'(2)] acct_ok_split [OF t a ch p k refl c'(2)]
    keeps_split [OF t ch p refl c'(2)]
  have "freed c' = freed c" using c'(2) by (simp add: split_ok_def)
  moreover have "keeps_paths cfg S c c'"
    by (rule keeps_paths_split [OF t ch p refl c'(2) dv]) (use k in linarith)+
  moreover have "lock_ref (heap c' n) = lock_ref (heap c n)" if "n \<in> S" for n
    using c'(2) lt [OF that] by (cases "n = p"; cases "n = child") (auto simp: split_ok_def)
  ultimately have "carries cfg S c (insert (counter c) S) c'"
    using held_split [OF t ch refl c'(2)] keeps_locks_split [OF t ch p refl c'(2)] by (simp add: carries_def)
  moreover have "counter c \<notin> S" using lt by blast
  moreover have "counter c \<noteq> root_node c'" using c'(2) r by (simp add: split_ok_def)
  ultimately show ?thesis using that c' f by blast
qed

section \<open>Matching\<close>

definition rc_ok :: "rc_config \<Rightarrow> nat set \<Rightarrow> radix_cache \<Rightarrow> bool" where
  "rc_ok cfg S c \<longleftrightarrow> tree_ok cfg S c \<and> acct_ok S c"

lemma rc_ok_same: "same_tree c c' \<Longrightarrow> rc_ok cfg S c' = rc_ok cfg S c"
  by (simp add: rc_ok_def tree_ok_same acct_ok_same)

lemma rc_ok_init: "rc_ok cfg {root_node (cache_init tm)} (cache_init tm)"
  by (simp add: rc_ok_def tree_ok_init acct_ok_init)

text \<open>A child found under the key's first token or page, and how far the two keys agree.\<close>

lemma found_child:
  assumes ok: "rc_ok cfg S c" and n: "node \<in> S" and pg: "0 < page_size cfg" and ne: "token_ids key \<noteq> []"
    and d: "dget (rchildren (heap c node)) (get_child_key (page_size cfg) key) = Some child"
  obtains k where "child \<in> S" and "child \<noteq> root_node c" and "rparent (heap c child) = Some node"
    and "key_match (page_size cfg) (rkey (heap c child)) key = Inr k"
    and "matched cfg k (token_ids (rkey (heap c child))) (token_ids key)" and "page_size cfg dvd k"
    and "extra_key (rkey (heap c child)) = extra_key key"
    and "page_size cfg dvd key_len key \<longrightarrow> \<not> k < key_len (rkey (heap c child)) \<longrightarrow> page_size cfg dvd key_len (rkey (heap c child))"
    and "page_size cfg dvd key_len key \<longrightarrow> k \<le> key_len key"
proof -
  have t: "tree_ok cfg S c" using ok by (simp add: rc_ok_def)
  note f = tree_ok_childD [OF t n d]
  have tk: "token_ids (rkey (heap c child)) \<noteq> []" by (rule tree_ok_nodeD [OF t f(1,2)])
  obtain k where k: "key_match (page_size cfg) (rkey (heap c child)) key = Inr k"
    "matched cfg k (token_ids (rkey (heap c child))) (token_ids key)"
    by (rule key_match_spec [OF pg tk ne f(4) [symmetric]])
  show ?thesis using that [OF f(1-3) k] key_match_facts [OF pg k(1)] by blast
qed

definition loop_result ::
  "rc_config \<Rightarrow> nat set \<Rightarrow> radix_cache \<Rightarrow> int list \<Rightarrow> nat set \<Rightarrow> radix_cache \<Rightarrow> nat \<Rightarrow> int list \<Rightarrow> bool" where
  "loop_result cfg S c toks S' c' node' vs' \<longleftrightarrow> S \<subseteq> S' \<and> rc_ok cfg S' c' \<and> keeps S c c'
     \<and> root_node c' = root_node c \<and> node' \<in> S' \<and> carries cfg S c S' c'
     \<and> (\<exists>ts' rest. reaches c' node' ts' vs' \<and> toks = ts' @ rest)"

lemma loop_result_trans:
  assumes "S \<subseteq> S1" and "keeps S c c1" and "root_node c1 = root_node c" and "carries cfg S c S1 c1"
    and "loop_result cfg S1 c1 toks S' c' node' vs'"
  shows "loop_result cfg S c toks S' c' node' vs'"
  using assms keeps_trans [of S c c1 S1 c'] carries_trans [of cfg S c S1 c1 S' c'] unfolding loop_result_def by auto

text \<open>Where a walk along a key ends: the indices only grow, and a path of whole pages stays one.\<close>

definition follows ::
  "rc_config \<Rightarrow> radix_key \<Rightarrow> radix_cache \<Rightarrow> nat \<Rightarrow> int list \<Rightarrow> int list \<Rightarrow> radix_cache \<Rightarrow> nat \<Rightarrow> int list \<Rightarrow> bool"
where
  "follows cfg key c node ts vs c' node' vs' \<longleftrightarrow> (\<exists>more. vs' = vs @ more)
     \<and> (page_size cfg dvd key_len key \<longrightarrow> path_ok False cfg (extra_key key) c node ts vs \<longrightarrow>
          (\<exists>ts'. path_ok False cfg (extra_key key) c' node' ts' vs'))"

lemma follows_refl: "follows cfg key c node ts vs c node vs"
  by (auto simp: follows_def)

lemma follows_step:
  assumes "follows cfg key1 c1 node1 ts1 vs1 c' node' vs'" and "\<exists>more. vs1 = vs @ more" and "extra_key key1 = extra_key key"
    and "page_size cfg dvd key_len key \<Longrightarrow> path_ok False cfg (extra_key key) c node ts vs \<Longrightarrow>
      page_size cfg dvd key_len key1 \<and> path_ok False cfg (extra_key key) c1 node1 ts1 vs1"
  shows "follows cfg key c node ts vs c' node' vs'"
  using assms by (auto simp: follows_def)

lemma path_ok_split_end:
  assumes "carries cfg S c (insert new S) c'" and "node \<in> S" and "split_ok cfg node child new k c c'" and "new \<noteq> root_node c'"
    and "extra_key (rkey (heap c child)) = ex" and "page_size cfg dvd k" and "0 \<le> k" "k \<le> key_len (rkey (heap c child))"
    and "path_ok False cfg ex c node ts vs"
  shows "path_ok False cfg ex c' new (ts @ take (nat k) (token_ids (rkey (heap c child)))) (vs @ node_values (heap c' new))"
proof -
  have f: "rparent (heap c' new) = Some node" "rkey (heap c' new) = key_take k (rkey (heap c child))"
    using assms(3) by (simp_all add: split_ok_def)
  have "path_ok False cfg ex c' node ts vs" using assms(1,2,9) by (simp add: carries_def keeps_paths_def)
  moreover have "tidy False cfg ex (heap c' new)"
    using key_len_take [OF assms(7,8)] assms(5,6) by (simp add: tidy_def f) (simp add: key_take_def)
  ultimately have "path_ok False cfg ex c' new (ts @ token_ids (rkey (heap c' new))) (vs @ node_values (heap c' new))"
    using path_step [OF assms(4) f(1)] by blast
  then show ?thesis by (simp add: f key_take_def)
qed

lemma key_drop_fields: "extra_key (key_drop k key) = extra_key key"
  "0 \<le> k \<Longrightarrow> k \<le> key_len key \<Longrightarrow> page_size cfg dvd k \<Longrightarrow> page_size cfg dvd key_len key \<Longrightarrow> page_size cfg dvd key_len (key_drop k key)"
  by (simp add: key_drop_def) (simp add: key_len_drop)

lemma split_reaches:
  assumes sp: "split_ok cfg p child new k c c'" and keep: "keeps S c c'" and "p \<in> S" and r: "reaches c p ts vs"
    and "new \<noteq> root_node c'"
  shows "reaches c' new (ts @ take (nat k) (token_ids (rkey (heap c child)))) (vs @ node_values (heap c' new))"
proof -
  have "reaches c' p ts vs" using keep assms(3) r by (simp add: keeps_def)
  moreover have "rparent (heap c' new) = Some p" "token_ids (rkey (heap c' new)) = take (nat k) (token_ids (rkey (heap c child)))"
    using sp by (simp_all add: split_ok_def key_take_def)
  ultimately show ?thesis using reaches_step [OF assms(5), of p ts vs] by simp
qed

text \<open>The end of a full edge.\<close>

lemma path_full_child:
  assumes s: "same_tree c c2" and pg: "0 < page_size cfg" and ch: "child \<noteq> root_node c" "rparent (heap c child) = Some node"
    and m: "matched cfg k (token_ids (rkey (heap c child))) (token_ids key)" "page_size cfg dvd k"
      "extra_key (rkey (heap c child)) = extra_key key"
      "page_size cfg dvd key_len key \<longrightarrow> \<not> k < key_len (rkey (heap c child)) \<longrightarrow> page_size cfg dvd key_len (rkey (heap c child))"
    and full: "\<not> k < key_len (rkey (heap c child))" and dv: "page_size cfg dvd key_len key"
    and r: "path_ok False cfg (extra_key key) c node ts vs"
  shows "page_size cfg dvd key_len (key_drop k key)
    \<and> path_ok False cfg (extra_key key) c2 child (ts @ token_ids (rkey (heap c child))) (vs @ node_values (heap c2 child))"
proof -
  note f = same_tree_fields [OF s]
  have "page_size cfg dvd key_len (key_drop k key)"
  proof (cases "k \<le> key_len key")
    case True
    then show ?thesis using key_drop_fields(2) [of k key cfg] m(1,2) dv by (simp add: matched_def)
  next
    case False
    then have "key_len (key_drop k key) = 0" by (simp add: key_len_def key_drop_def)
    then show ?thesis by simp
  qed
  moreover have "tidy False cfg (extra_key key) (heap c child)" using m(3,4) dv full by (simp add: tidy_def)
  then have "path_ok False cfg (extra_key key) c child (ts @ token_ids (rkey (heap c child))) (vs @ node_values (heap c child))"
    by (rule path_step [OF ch r])
  from path_ok_same [OF s this] have
    "path_ok False cfg (extra_key key) c2 child (ts @ token_ids (rkey (heap c child))) (vs @ node_values (heap c2 child))"
    by (simp add: node_values_def f)
  ultimately show ?thesis by blast
qed

lemma match_loop_ok:
  assumes pg: "0 < page_size cfg"
  shows "rc_ok cfg S c \<Longrightarrow> node \<in> S \<Longrightarrow> reaches c node ts vs \<Longrightarrow>
    \<exists>c' S' node' vs'. match_loop cfg tm lru key node vs c = ret (c', vs', node')
      \<and> loop_result cfg S c (ts @ token_ids key) S' c' node' vs' \<and> follows cfg key c node ts vs c' node' vs'"
proof (induction "length (token_ids key)" arbitrary: key node ts vs c S rule: less_induct)
  case less
  note ok = less.prems(1) and nS = less.prems(2) and r = less.prems(3)
  let ?d = "dget (rchildren (heap c node)) (get_child_key (page_size cfg) key)"
  show ?case
  proof (cases "token_ids key = [] \<or> ?d = None")
    case True
    then have "match_loop cfg tm lru key node vs c = ret (c, vs, node)"
      by (subst match_loop.simps) auto
    moreover have "loop_result cfg S c (ts @ token_ids key) S c node vs"
      using ok nS r by (auto simp: loop_result_def keeps_def)
    ultimately show ?thesis using follows_refl by blast
  next
    case False
    then obtain child where ne: "token_ids key \<noteq> []" and d: "?d = Some child" by blast
    obtain k where ch: "child \<in> S" "child \<noteq> root_node c" "rparent (heap c child) = Some node"
      "key_match (page_size cfg) (rkey (heap c child)) key = Inr k"
      "matched cfg k (token_ids (rkey (heap c child))) (token_ids key)" "page_size cfg dvd k"
      "extra_key (rkey (heap c child)) = extra_key key"
      "page_size cfg dvd key_len key \<longrightarrow> \<not> k < key_len (rkey (heap c child)) \<longrightarrow> page_size cfg dvd key_len (rkey (heap c child))"
      "page_size cfg dvd key_len key \<longrightarrow> k \<le> key_len key"
      by (rule found_child [OF ok nS pg ne d])
    define c1 where "c1 = set_access lru (tm 0) child c"
    have s1: "same_tree c c1" by (simp add: c1_def)
    note f1 = same_tree_fields [OF s1]
    have ok1: "rc_ok cfg S c1" using ok by (simp add: rc_ok_same [OF s1])
    have r1: "reaches c1 node ts vs" by (rule reaches_same [OF s1 r])
    have k: "0 < k" "page_size cfg \<le> k" using ch(5) by (simp_all add: matched_def)
    show ?thesis
    proof (cases "k < key_len (rkey (heap c child))")
      case True
      have t1: "tree_ok cfg S c1" "acct_ok S c1" using ok1 by (simp_all add: rc_ok_def)
      have c1: "child \<noteq> root_node c1" "rparent (heap c1 child) = Some node" "k < key_len (rkey (heap c1 child))"
        using ch True by (simp_all add: f1)
      obtain c2 new where sp: "split_node cfg tm child k c1 = Inr (c2, new)" "new \<notin> S"
        "tree_ok cfg (insert new S) c2" "acct_ok (insert new S) c2" "keeps S c1 c2" "split_ok cfg node child new k c1 c2"
        "new \<noteq> root_node c2" "carries cfg S c1 (insert new S) c2"
        by (rule split_step [OF t1 ch(1) c1(1,2) pg k(2) c1(3) ch(6)])
      define c3 where "c3 = add_hit lru new c2"
      have s3: "same_tree c2 c3" by (simp add: c3_def)
      have m: "match_loop cfg tm lru key node vs c = ret (c3, vs @ node_values (heap c3 new), new)"
        using ne d ch(4) True sp(1) by (subst match_loop.simps) (simp add: f1 Let_def c3_def flip: c1_def)
      have tk: "k \<le> int (length (token_ids key))" "take (nat k) (token_ids (rkey (heap c child))) = take (nat k) (token_ids key)"
        using ch(5) True by (simp_all add: matched_def key_len_def)
      have "reaches c2 new (ts @ take (nat k) (token_ids key)) (vs @ node_values (heap c2 new))"
        using split_reaches [OF sp(6,5) nS r1 sp(7)] tk(2) by (simp add: f1)
      moreover have "node_values (heap c3 new) = node_values (heap c2 new)"
        by (simp add: node_values_def same_tree_fields [OF s3])
      ultimately have r3: "reaches c3 new (ts @ take (nat k) (token_ids key)) (vs @ node_values (heap c3 new))"
        using reaches_same [OF s3] by simp
      have "root_node c3 = root_node c"
        using sp(6) by (simp add: same_tree_fields [OF s3] f1 split_ok_def)
      moreover have "keeps S c c3"
        using keeps_trans [OF keeps_trans [OF keeps_same [OF s1] sp(5)] keeps_same [OF s3]] by blast
      moreover have "carries cfg S c (insert new S) c3"
        by (rule carries_trans [OF carries_trans [OF carries_same [OF s1] sp(8) subset_refl] carries_same [OF s3] subset_insertI])
      moreover have "rc_ok cfg (insert new S) c3" using sp(3,4) by (simp add: rc_ok_def tree_ok_same [OF s3] acct_ok_same [OF s3])
      moreover have "ts @ token_ids key = (ts @ take (nat k) (token_ids key)) @ drop (nat k) (token_ids key)" by simp
      ultimately have "loop_result cfg S c (ts @ token_ids key) (insert new S) c3 new (vs @ node_values (heap c3 new))"
        unfolding loop_result_def using r3 by blast
      moreover have "follows cfg key c node ts vs c3 new (vs @ node_values (heap c3 new))"
      proof -
        have "path_ok False cfg (extra_key key) c3 new (ts @ take (nat k) (token_ids (rkey (heap c1 child)))) (vs @ node_values (heap c2 new))"
          if "path_ok False cfg (extra_key key) c node ts vs"
          by (rule path_ok_same [OF s3], rule path_ok_split_end [OF sp(8) nS sp(6,7) _ ch(6) _ _ path_ok_same [OF s1 that]])
            (use k True ch(7) in \<open>simp_all add: f1\<close>)
        then show ?thesis by (auto simp: follows_def node_values_def same_tree_fields [OF s3])
      qed
      ultimately show ?thesis using m by blast
    next
      case False
      define c2 where "c2 = add_hit lru child c1"
      have s12: "same_tree c1 c2" by (simp add: c2_def)
      have s2: "same_tree c c2" by (rule same_tree_trans [OF s1 s12])
      note f2 = same_tree_fields [OF s2]
      have m: "match_loop cfg tm lru key node vs c =
          match_loop cfg tm lru (key_drop k key) child (vs @ node_values (heap c2 child)) c2"
        using ne d ch(4) False by (subst match_loop.simps) (simp add: f1 Let_def flip: c1_def c2_def)
      have "child \<noteq> root_node c2" "rparent (heap c2 child) = Some node" using ch by (simp_all add: f2)
      from reaches_step [OF this reaches_same [OF s2 r]]
      have r2: "reaches c2 child (ts @ token_ids (rkey (heap c child))) (vs @ node_values (heap c2 child))" by (simp add: f2)
      have tk: "token_ids key = token_ids (rkey (heap c child)) @ token_ids (key_drop k key)"
        using ch(5) False by (simp add: matched_def key_len_def key_drop_def)
      have "length (token_ids (key_drop k key)) < length (token_ids key)"
        using k(1) ne by (simp add: key_drop_def)
      from less.hyps [OF this _ ch(1) r2] obtain c' S' node' vs'
        where "match_loop cfg tm lru (key_drop k key) child (vs @ node_values (heap c2 child)) c2 = ret (c', vs', node')"
          and R: "loop_result cfg S c2 ((ts @ token_ids (rkey (heap c child))) @ token_ids (key_drop k key)) S' c' node' vs'"
            "follows cfg (key_drop k key) c2 child (ts @ token_ids (rkey (heap c child))) (vs @ node_values (heap c2 child)) c' node' vs'"
        using ok by (auto simp: rc_ok_same [OF s2])
      moreover have "follows cfg key c node ts vs c' node' vs'"
        by (rule follows_step [OF R(2) _ key_drop_fields(1) path_full_child]) (use s2 pg ch False in auto)
      moreover have "loop_result cfg S c (ts @ token_ids key) S' c' node' vs'"
        by (rule loop_result_trans [OF subset_refl keeps_same [OF s2] f2(1) carries_same [OF s2]]) (use R(1) tk in simp)
      ultimately show ?thesis using m by auto
    qed
  qed
qed

section \<open>Insertion\<close>

text \<open>The counter of the walk, the rest of the key and the rest of the values go together.\<close>

definition cut_off :: "rc_config \<Rightarrow> int \<Rightarrow> radix_key \<Rightarrow> int list \<Rightarrow> int \<Rightarrow> radix_key \<Rightarrow> int list \<Rightarrow> bool" where
  "cut_off cfg tot key vals tot' key' vals' \<longleftrightarrow> tot \<le> tot' \<and> extra_key key' = extra_key key
     \<and> vals' = drop (nat (tot' - tot)) vals \<and> token_ids key' = drop (nat (tot' - tot)) (token_ids key)
     \<and> (page_size cfg dvd key_len key \<longrightarrow> tot' - tot \<le> key_len key \<and> page_size cfg dvd tot' - tot)"

lemma cut_off_step:
  assumes c: "cut_off cfg (tot + k) (key_drop k key) (drop (nat k) vals) tot' key' vals'" and k: "0 \<le> k"
    and d: "page_size cfg dvd k" "page_size cfg dvd key_len key \<longrightarrow> k \<le> key_len key"
  shows "cut_off cfg tot key vals tot' key' vals'"
proof -
  have le: "tot + k \<le> tot'" using c by (simp add: cut_off_def)
  then have n: "nat (tot' - tot) = nat (tot' - (tot + k)) + nat k" using k by linarith
  have "tot' - tot \<le> key_len key \<and> page_size cfg dvd tot' - tot" if "page_size cfg dvd key_len key"
  proof -
    have kl: "k \<le> key_len key" using d(2) that by blast
    have "page_size cfg dvd key_len (key_drop k key)" by (rule key_drop_fields(2) [OF k kl d(1) that])
    then have c2: "tot' - (tot + k) \<le> key_len key - k" "page_size cfg dvd tot' - (tot + k)"
      using c key_len_drop [OF k kl] by (simp_all add: cut_off_def)
    have "page_size cfg dvd (tot' - (tot + k)) + k" using c2(2) d(1) by (rule dvd_add)
    then show ?thesis using c2(1) by (simp add: algebra_simps)
  qed
  then show ?thesis using c le k unfolding cut_off_def n by (simp add: key_drop_def)
qed

lemma insert_loop_ok:
  assumes pg: "0 < page_size cfg"
  shows "rc_ok cfg S c \<Longrightarrow> node \<in> S \<Longrightarrow> reaches c node ts vs \<Longrightarrow> length value = length (token_ids key) \<Longrightarrow>
    \<exists>c' key' value' node' tot' S' vs'. insert_loop cfg tm pr key value node tot c = ret (c', key', value', node', tot')
      \<and> loop_result cfg S c (ts @ token_ids key) S' c' node' vs'
      \<and> (\<exists>ts'. reaches c' node' ts' vs' \<and> ts' @ token_ids key' = ts @ token_ids key)
      \<and> length value' = length (token_ids key')
      \<and> (token_ids key' \<noteq> [] \<longrightarrow> dget (rchildren (heap c' node')) (get_child_key (page_size cfg) key') = None)
      \<and> follows cfg key c node ts vs c' node' vs' \<and> cut_off cfg tot key value tot' key' value'"
proof (induction "length (token_ids key)" arbitrary: key "value" node ts vs tot c S rule: less_induct)
  case less
  note ok = less.prems(1) and nS = less.prems(2) and r = less.prems(3) and lv = less.prems(4)
  let ?d = "dget (rchildren (heap c node)) (get_child_key (page_size cfg) key)"
  show ?case
  proof (cases "token_ids key = [] \<or> ?d = None")
    case True
    then have "insert_loop cfg tm pr key value node tot c = ret (c, key, value, node, tot)"
      by (subst insert_loop.simps) auto
    moreover have "loop_result cfg S c (ts @ token_ids key) S c node vs"
      using ok nS r by (auto simp: loop_result_def keeps_def)
    moreover have "cut_off cfg tot key value tot key value" by (simp add: cut_off_def key_len_def)
    ultimately show ?thesis using r lv True follows_refl by blast
  next
    case False
    then obtain child where ne: "token_ids key \<noteq> []" and d: "?d = Some child" by blast
    obtain k where ch: "child \<in> S" "child \<noteq> root_node c" "rparent (heap c child) = Some node"
      "key_match (page_size cfg) (rkey (heap c child)) key = Inr k"
      "matched cfg k (token_ids (rkey (heap c child))) (token_ids key)" "page_size cfg dvd k"
      "extra_key (rkey (heap c child)) = extra_key key"
      "page_size cfg dvd key_len key \<longrightarrow> \<not> k < key_len (rkey (heap c child)) \<longrightarrow> page_size cfg dvd key_len (rkey (heap c child))"
      "page_size cfg dvd key_len key \<longrightarrow> k \<le> key_len key"
      by (rule found_child [OF ok nS pg ne d])
    define c1 where "c1 = upd_node child (\<lambda>x. x\<lparr>last_access_time := tm 0\<rparr>) c"
    have s1: "same_tree c c1" by (simp add: c1_def)
    note f1 = same_tree_fields [OF s1]
    have ok1: "rc_ok cfg S c1" using ok by (simp add: rc_ok_same [OF s1])
    have r1: "reaches c1 node ts vs" by (rule reaches_same [OF s1 r])
    have k: "0 < k" "page_size cfg \<le> k" using ch(5) by (simp_all add: matched_def)
    have shorter: "length (token_ids (key_drop k key)) < length (token_ids key)"
      using k(1) ne by (simp add: key_drop_def)
    have lv': "length (drop (nat k) value) = length (token_ids (key_drop k key))"
      using lv by (simp add: key_drop_def)
    show ?thesis
    proof (cases "k < key_len (rkey (heap c child))")
      case True
      have t1: "tree_ok cfg S c1" "acct_ok S c1" using ok1 by (simp_all add: rc_ok_def)
      have c1: "child \<noteq> root_node c1" "rparent (heap c1 child) = Some node" "k < key_len (rkey (heap c1 child))"
        using ch True by (simp_all add: f1)
      obtain c2 new where sp: "split_node cfg tm child k c1 = Inr (c2, new)" "new \<notin> S"
        "tree_ok cfg (insert new S) c2" "acct_ok (insert new S) c2" "keeps S c1 c2" "split_ok cfg node child new k c1 c2"
        "new \<noteq> root_node c2" "carries cfg S c1 (insert new S) c2"
        by (rule split_step [OF t1 ch(1) c1(1,2) pg k(2) c1(3) ch(6)])
      define c3 where "c3 = raise_priority pr new c2"
      have s3: "same_tree c2 c3" by (simp add: c3_def)
      have m: "insert_loop cfg tm pr key value node tot c =
          insert_loop cfg tm pr (key_drop k key) (drop (nat k) value) new (tot + k) c3"
        using ne d ch(4) True sp(1) by (subst insert_loop.simps) (simp add: f1 Let_def c3_def flip: c1_def)
      have tk: "take (nat k) (token_ids (rkey (heap c child))) = take (nat k) (token_ids key)"
        using ch(5) True by (simp add: matched_def key_len_def)
      have "reaches c2 new (ts @ take (nat k) (token_ids key)) (vs @ node_values (heap c2 new))"
        using split_reaches [OF sp(6,5) nS r1 sp(7)] tk by (simp add: f1)
      from reaches_same [OF s3 this]
      have r3: "reaches c3 new (ts @ take (nat k) (token_ids key)) (vs @ node_values (heap c2 new))" .
      have ok3: "rc_ok cfg (insert new S) c3"
        using sp(3,4) by (simp add: rc_ok_def tree_ok_same [OF s3] acct_ok_same [OF s3])
      have keep3: "keeps S c c3"
        using keeps_trans [OF keeps_trans [OF keeps_same [OF s1] sp(5)] keeps_same [OF s3]] by blast
      have rt: "root_node c3 = root_node c"
        using sp(6) by (simp add: same_tree_fields [OF s3] f1 split_ok_def)
      have e: "(ts @ take (nat k) (token_ids key)) @ token_ids (key_drop k key) = ts @ token_ids key"
        by (simp add: key_drop_def)
      have tk': "k \<le> key_len key" using ch(5) True by (simp add: matched_def key_len_def)
      have step: "page_size cfg dvd key_len (key_drop k key)
          \<and> path_ok False cfg (extra_key key) c3 new (ts @ take (nat k) (token_ids key)) (vs @ node_values (heap c2 new))"
        if "page_size cfg dvd key_len key" "path_ok False cfg (extra_key key) c node ts vs"
      proof
        show "page_size cfg dvd key_len (key_drop k key)" by (rule key_drop_fields(2)) (use k tk' ch(6) that in simp_all)
        have "path_ok False cfg (extra_key key) c3 new (ts @ take (nat k) (token_ids (rkey (heap c1 child)))) (vs @ node_values (heap c2 new))"
          by (rule path_ok_same [OF s3], rule path_ok_split_end [OF sp(8) nS sp(6,7) _ ch(6) _ _ path_ok_same [OF s1 that(2)]])
            (use k True ch(7) in \<open>simp_all add: f1\<close>)
        then show "path_ok False cfg (extra_key key) c3 new (ts @ take (nat k) (token_ids key)) (vs @ node_values (heap c2 new))"
          using tk by (simp add: f1)
      qed
      have car: "carries cfg S c (insert new S) c3"
        by (rule carries_trans [OF carries_trans [OF carries_same [OF s1] sp(8) subset_refl] carries_same [OF s3] subset_insertI])
      from less.hyps [OF shorter ok3 insertI1 r3 lv', of "tot + k", unfolded e] obtain c' key' value' node' tot' S' vs'
        where R: "insert_loop cfg tm pr (key_drop k key) (drop (nat k) value) new (tot + k) c3 = ret (c', key', value', node', tot')"
          "loop_result cfg (insert new S) c3 (ts @ token_ids key) S' c' node' vs'"
          "\<exists>ts'. reaches c' node' ts' vs' \<and> ts' @ token_ids key' = ts @ token_ids key"
          "length value' = length (token_ids key')"
          "token_ids key' \<noteq> [] \<longrightarrow> dget (rchildren (heap c' node')) (get_child_key (page_size cfg) key') = None"
          "follows cfg (key_drop k key) c3 new (ts @ take (nat k) (token_ids key)) (vs @ node_values (heap c2 new)) c' node' vs'"
          "cut_off cfg (tot + k) (key_drop k key) (drop (nat k) value) tot' key' value'"
        by blast
      have "loop_result cfg S c (ts @ token_ids key) S' c' node' vs'"
        by (rule loop_result_trans [OF subset_insertI keep3 rt car R(2)])
      moreover have "follows cfg key c node ts vs c' node' vs'"
        by (rule follows_step [OF R(6) _ key_drop_fields(1) step]) auto
      moreover have "cut_off cfg tot key value tot' key' value'" by (rule cut_off_step [OF R(7) _ ch(6,9)]) (use k in simp)
      ultimately show ?thesis unfolding m using R(1,3,4,5) by blast
    next
      case False
      define c2 where "c2 = raise_priority pr child c1"
      have s12: "same_tree c1 c2" by (simp add: c2_def)
      have s2: "same_tree c c2" by (rule same_tree_trans [OF s1 s12])
      note f2 = same_tree_fields [OF s2]
      have m: "insert_loop cfg tm pr key value node tot c =
          insert_loop cfg tm pr (key_drop k key) (drop (nat k) value) child (tot + k) c2"
        using ne d ch(4) False by (subst insert_loop.simps) (simp add: f1 Let_def flip: c1_def c2_def)
      have "child \<noteq> root_node c2" "rparent (heap c2 child) = Some node" using ch by (simp_all add: f2)
      from reaches_step [OF this reaches_same [OF s2 r]]
      have r2: "reaches c2 child (ts @ token_ids (rkey (heap c child))) (vs @ node_values (heap c2 child))" by (simp add: f2)
      have e: "(ts @ token_ids (rkey (heap c child))) @ token_ids (key_drop k key) = ts @ token_ids key"
        using ch(5) False by (simp add: matched_def key_len_def key_drop_def)
      have ok2: "rc_ok cfg S c2" using ok by (simp add: rc_ok_same [OF s2])
      from less.hyps [OF shorter ok2 ch(1) r2 lv', of "tot + k", unfolded e] obtain c' key' value' node' tot' S' vs'
        where R: "insert_loop cfg tm pr (key_drop k key) (drop (nat k) value) child (tot + k) c2 = ret (c', key', value', node', tot')"
          "loop_result cfg S c2 (ts @ token_ids key) S' c' node' vs'"
          "\<exists>ts'. reaches c' node' ts' vs' \<and> ts' @ token_ids key' = ts @ token_ids key"
          "length value' = length (token_ids key')"
          "token_ids key' \<noteq> [] \<longrightarrow> dget (rchildren (heap c' node')) (get_child_key (page_size cfg) key') = None"
          "follows cfg (key_drop k key) c2 child (ts @ token_ids (rkey (heap c child))) (vs @ node_values (heap c2 child)) c' node' vs'"
          "cut_off cfg (tot + k) (key_drop k key) (drop (nat k) value) tot' key' value'"
        by blast
      have "loop_result cfg S c (ts @ token_ids key) S' c' node' vs'"
        by (rule loop_result_trans [OF subset_refl keeps_same [OF s2] f2(1) carries_same [OF s2] R(2)])
      moreover have "follows cfg key c node ts vs c' node' vs'"
        by (rule follows_step [OF R(6) _ key_drop_fields(1) path_full_child]) (use s2 pg ch False in auto)
      moreover have "cut_off cfg tot key value tot' key' value'" by (rule cut_off_step [OF R(7) _ ch(6,9)]) (use k in simp)
      ultimately show ?thesis unfolding m using R(1,3,4,5) by blast
    qed
  qed
qed

text \<open>The heap after a leaf was added, node by node.\<close>

definition leaf_added :: "rc_config \<Rightarrow> nat \<Rightarrow> nat \<Rightarrow> radix_key \<Rightarrow> int list \<Rightarrow> radix_cache \<Rightarrow> radix_cache \<Rightarrow> bool" where
  "leaf_added cfg node new key value c c' \<longleftrightarrow>
     root_node c' = root_node c \<and> counter c' = Suc (counter c) \<and> freed c' = freed c
     \<and> evictable_size c' = evictable_size c + key_len key \<and> protected_size c' = protected_size c
     \<and> (\<forall>m. m \<noteq> new \<longrightarrow> rparent (heap c' m) = rparent (heap c m) \<and> rkey (heap c' m) = rkey (heap c m)
          \<and> rvalue (heap c' m) = rvalue (heap c m) \<and> rdepth (heap c' m) = rdepth (heap c m)
          \<and> lock_ref (heap c' m) = lock_ref (heap c m)
          \<and> rchildren (heap c' m) = (if m = node then dset (get_child_key (page_size cfg) key) new (rchildren (heap c m))
                                     else rchildren (heap c m)))
     \<and> rchildren (heap c' new) = [] \<and> rparent (heap c' new) = Some node \<and> rkey (heap c' new) = key
     \<and> rvalue (heap c' new) = Some value \<and> rdepth (heap c' new) = rdepth (heap c node) + key_len key
     \<and> lock_ref (heap c' new) = 0
     \<and> (\<forall>m. m \<in> set (evictable_leaves c') \<longleftrightarrow>
           (if m = new then leaf_status c' new else if m = node then leaf_status c' node
            else m \<in> set (evictable_leaves c)))
     \<and> (distinct (evictable_leaves c) \<longrightarrow> distinct (evictable_leaves c'))"

lemma add_leaf_added:
  assumes "node \<noteq> counter c"
  shows "leaf_added cfg node (counter c) key value c (add_leaf cfg tm pr key value node c)"
  using assms unfolding leaf_added_def add_leaf_def Let_def alloc_node_def case_prod_conv
  by (simp add: update_leaf_status_mem update_leaf_status_distinct)
    (auto simp: upd_node_def new_tree_node_def update_leaf_status_distinct)

lemma tree_ok_leaf:
  assumes t: "tree_ok cfg S c" and n: "node \<in> S" and new: "new = counter c"
    and ne: "token_ids key \<noteq> []" and lv: "length value = length (token_ids key)"
    and fresh: "dget (rchildren (heap c node)) (get_child_key (page_size cfg) key) = None"
    and la: "leaf_added cfg node new key value c c'"
  shows "tree_ok cfg (insert new S) c'"
proof -
  note sd = la [unfolded leaf_added_def]
  have nS: "new \<notin> S" using t by (auto simp: tree_ok_def new)
  have nn: "new \<noteq> node" "new \<noteq> root_node c" using nS n t by (auto simp: tree_ok_def)
  have rt: "root_node c' = root_node c" using sd by blast
  have keep: "rparent (heap c' m) = rparent (heap c m)" "rkey (heap c' m) = rkey (heap c m)"
    "rvalue (heap c' m) = rvalue (heap c m)" "rdepth (heap c' m) = rdepth (heap c m)"
    "lock_ref (heap c' m) = lock_ref (heap c m)"
    "rchildren (heap c' m) = (if m = node then dset (get_child_key (page_size cfg) key) new (rchildren (heap c m))
        else rchildren (heap c m))" if "m \<noteq> new" for m
    using sd that by blast+
  have node: "node_ok cfg (insert new S) c' m" if m: "m \<in> S" "m \<noteq> root_node c" for m
  proof -
    obtain q w where q: "rparent (heap c m) = Some q" "q \<in> S" "dget (rchildren (heap c q)) (ckey cfg c m) = Some m"
      "rdepth (heap c m) = rdepth (heap c q) + key_len (rkey (heap c m))"
      "token_ids (rkey (heap c m)) \<noteq> []" "rvalue (heap c m) = Some w" "int (length w) = key_len (rkey (heap c m))"
      by (rule tree_ok_nodeD [OF t m])
    have mn: "m \<noteq> new" "q \<noteq> new" using m q nS by auto
    have "dget (rchildren (heap c' q)) (ckey cfg c m) = Some m"
      using q(3) fresh by (auto simp: keep(6) [OF mn(2)] dict_simps)
    then show ?thesis using q by (simp add: node_ok_def keep(1-5) [OF mn(1)] keep(4) [OF mn(2)])
  qed
  have nnew: "node_ok cfg (insert new S) c' new"
    using sd n ne lv keep(4,6) [OF nn(1) [symmetric]]
    by (simp add: node_ok_def key_len_def dict_simps)
  have cnew: "child_ok cfg (insert new S) c' new" using sd by (simp add: child_ok_def)
  have cS: "child_ok cfg (insert new S) c' q" if q: "q \<in> S" for q
  proof -
    have qn: "q \<noteq> new" using q nS by auto
    have "wf_dict (rchildren (heap c q))" using t q unfolding tree_ok_def child_ok_def by blast
    then have wf: "wf_dict (rchildren (heap c' q))" by (auto simp: keep(6) [OF qn] wf_dset)
    have "m \<in> insert new S \<and> m \<noteq> root_node c' \<and> rparent (heap c' m) = Some q \<and> kk = ckey cfg c' m"
      if m: "dget (rchildren (heap c' q)) kk = Some m" for kk m
    proof (cases "q = node \<and> kk = get_child_key (page_size cfg) key")
      case True
      then have "m = new" using m keep(6) [OF qn] by (simp add: dict_simps)
      then show ?thesis using sd True nn rt by simp
    next
      case False
      then have d: "dget (rchildren (heap c q)) kk = Some m" using m by (auto simp: keep(6) [OF qn] dict_simps split: if_splits)
      note f = tree_ok_childD [OF t q d]
      have "m \<noteq> new" using f(1) nS by auto
      then show ?thesis using f rt by (simp add: keep(1-3))
    qed
    then show ?thesis using wf unfolding child_ok_def by blast
  qed
  show ?thesis
    unfolding tree_ok_def rt keep(3-5) [OF nn(2) [symmetric]]
  proof (intro conjI ballI)
    show "m < counter c'" if "m \<in> insert new S" for m
      using that t sd by (auto simp: tree_ok_def new less_Suc_eq)
    show "node_ok cfg (insert new S) c' m" if "m \<in> insert new S - {root_node c}" for m
      using that node nnew by (cases "m = new") auto
    show "child_ok cfg (insert new S) c' m" if "m \<in> insert new S" for m
      using that cnew cS by blast
  qed (use t in \<open>auto simp: tree_ok_def\<close>)
qed

lemma acct_ok_leaf:
  assumes t: "tree_ok cfg S c" and a: "acct_ok S c" and n: "node \<in> S" and new: "new = counter c"
    and t': "tree_ok cfg (insert new S) c'" and la: "leaf_added cfg node new key value c c'"
  shows "acct_ok (insert new S) c'"
proof -
  note sd = la [unfolded leaf_added_def]
  have nS: "new \<notin> S" using t by (auto simp: tree_ok_def new)
  have fin: "finite (S - {root_node c})" and rS: "root_node c \<in> S" using t by (simp_all add: tree_ok_def)
  have A: "insert new S - {root_node c} = insert new (S - {root_node c})" "new \<notin> S - {root_node c}" using nS rS by auto
  have keep: "rkey (heap c' m) = rkey (heap c m)" "lock_ref (heap c' m) = lock_ref (heap c m)"
    "m \<noteq> node \<Longrightarrow> rchildren (heap c' m) = rchildren (heap c m)" if "m \<in> S" for m
    using sd that nS by (metis)+
  have same: "ev_len (heap c' m) = ev_len (heap c m)" "pr_len (heap c' m) = pr_len (heap c m)" if "m \<in> S" for m
    by (simp_all add: ev_len_def pr_len_def keep [OF that])
  have ev: "(\<Sum>m \<in> insert new (S - {root_node c}). ev_len (heap c' m)) = key_len key + (\<Sum>m \<in> S - {root_node c}. ev_len (heap c m))"
    using fin A(2) sd same by (simp add: ev_len_def)
  have pr: "(\<Sum>m \<in> insert new (S - {root_node c}). pr_len (heap c' m)) = (\<Sum>m \<in> S - {root_node c}. pr_len (heap c m))"
    using fin A(2) sd same by (simp add: pr_len_def)
  have leaf: "m \<in> set (evictable_leaves c') \<longleftrightarrow> m \<in> insert new S \<and> leaf_status c' m" for m
  proof (cases "m = new \<or> m = node")
    case True
    then show ?thesis using sd n by auto
  next
    case False
    have "leaf_status c' m = leaf_status c m" if "m \<in> S"
      using leaf_status_tree [OF t' insertI2 [OF that]] leaf_status_tree [OF t that] keep [OF that] False by simp
    then show ?thesis using False a sd by (auto simp: acct_ok_def)
  qed
  have "0 \<le> lock_ref (heap c' m)" if "m \<in> insert new S" for m
    using that a sd keep by (cases "m = new") (auto simp: acct_ok_def)
  then show ?thesis using a sd ev pr leaf unfolding acct_ok_def by (simp add: A(1))
qed

lemma leaf_reaches:
  assumes t: "tree_ok cfg S c" and n: "node \<in> S" and new: "new = counter c"
    and la: "leaf_added cfg node new key value c c'"
  shows "keeps S c c'" and "reaches c node ts vs \<Longrightarrow> reaches c' new (ts @ token_ids key) (vs @ value)"
proof -
  note sd = la [unfolded leaf_added_def]
  have nS: "new \<notin> S" using t by (auto simp: tree_ok_def new)
  have k: "reaches c m ts vs \<Longrightarrow> m \<in> S \<Longrightarrow> reaches c' m ts vs" for m ts vs
  proof (induction rule: reaches.induct)
    case reaches_root
    then show ?case using reaches.reaches_root [of c'] sd by simp
  next
    case (reaches_step m q ts vs)
    have "m \<noteq> new" using reaches_step.prems nS by auto
    then have f: "rparent (heap c' m) = rparent (heap c m)" "rkey (heap c' m) = rkey (heap c m)"
      "rvalue (heap c' m) = rvalue (heap c m)" using sd by blast+
    have "q \<in> S" using tree_ok_nodeD [OF t reaches_step.prems reaches_step.hyps(1)] reaches_step.hyps(2) by (metis option.inject)
    then show ?case using reaches.reaches_step [of m c' q ts vs] reaches_step.IH reaches_step.hyps sd
      by (simp add: f node_values_def)
  qed
  then show "keeps S c c'" by (auto simp: keeps_def)
  assume "reaches c node ts vs"
  then have "reaches c' node ts vs" using k n by blast
  moreover have "new \<noteq> root_node c'" using sd nS t by (auto simp: tree_ok_def)
  ultimately show "reaches c' new (ts @ token_ids key) (vs @ value)"
    using reaches_step [of new c' node ts vs] sd by (simp add: node_values_def)
qed

lemma leaf_paths:
  assumes t: "tree_ok cfg S c" and n: "node \<in> S" and new: "new = counter c"
    and la: "leaf_added cfg node new key value c c'"
  shows "keeps_paths cfg S c c'" and "held (insert new S) c' = held S c + mset value"
    and "keeps_locks S c (insert new S) c'"
    and "path_ok False cfg (extra_key key) c node ts vs \<Longrightarrow> page_size cfg dvd key_len key \<Longrightarrow>
      path_ok False cfg (extra_key key) c' new (ts @ token_ids key) (vs @ value)"
proof -
  note sd = la [unfolded leaf_added_def]
  have fin: "finite S" and nS: "new \<notin> S" using t by (auto simp: tree_ok_def new)
  have f: "rparent (heap c' m) = rparent (heap c m)" "rkey (heap c' m) = rkey (heap c m)"
    "rvalue (heap c' m) = rvalue (heap c m)" "lock_ref (heap c' m) = lock_ref (heap c m)" if "m \<in> S" for m
    using sd that nS by metis+
  have rt: "root_node c' = root_node c" "new \<noteq> root_node c'" using sd nS t by (auto simp: tree_ok_def)
  have k: "path_ok lk cfg ex c m ts vs \<Longrightarrow> m \<in> S \<Longrightarrow> path_ok lk cfg ex c' m ts vs" for lk ex m ts vs
  proof (induction rule: path_ok.induct)
    case path_root
    then show ?case using path_ok.path_root [of lk cfg ex c'] rt by simp
  next
    case (path_step m q ts vs)
    have "q \<in> S" using tree_ok_nodeD [OF t path_step.prems path_step.hyps(1)] path_step.hyps(2) by (metis option.inject)
    then show ?case using path_ok.path_step [of m c' q lk cfg ex ts vs] path_step.IH path_step.hyps rt
      by (simp add: f [OF path_step.prems] node_values_def tidy_def)
  qed
  then show "keeps_paths cfg S c c'" by (auto simp: keeps_paths_def)
  show "keeps_locks S c (insert new S) c'"
    by (rule keeps_locks_leaf [OF t nS rt(1)]) (use sd f in simp_all)
  have "(\<Sum>m \<in> S. mset (node_values (heap c' m))) = (\<Sum>m \<in> S. mset (node_values (heap c m)))"
    by (intro sum.cong) (simp_all add: node_values_def f)
  then show "held (insert new S) c' = held S c + mset value"
    using sd by (simp add: held_def sum.insert [OF fin nS] node_values_def add.commute)
  assume "path_ok False cfg (extra_key key) c node ts vs" and dv: "page_size cfg dvd key_len key"
  then have "path_ok False cfg (extra_key key) c' node ts vs" using k n by blast
  moreover have "tidy False cfg (extra_key key) (heap c' new)" using sd dv by (simp add: tidy_def)
  ultimately show "path_ok False cfg (extra_key key) c' new (ts @ token_ids key) (vs @ value)"
    using path_step [OF rt(2), of node False cfg "extra_key key" ts vs] sd by (simp add: node_values_def)
qed

lemma reaches_unique: "reaches c n ts vs \<Longrightarrow> reaches c n ts' vs' \<Longrightarrow> ts' = ts \<and> vs' = vs"
proof (induction arbitrary: ts' vs' rule: reaches.induct)
  case reaches_root
  then show ?case by (auto elim: reaches.cases)
next
  case (reaches_step n p ts vs)
  from reaches_step.prems show ?case
  proof cases
    case reaches_root
    then show ?thesis using reaches_step.hyps(1) by simp
  next
    case (reaches_step q ts1 vs1)
    then have "q = p" using \<open>rparent (heap c n) = Some p\<close> by simp
    then have "ts1 = ts \<and> vs1 = vs" using reaches_step.IH [of ts1 vs1] reaches_step(5) by simp
    then show ?thesis using reaches_step by simp
  qed
qed

text \<open>What an insertion adds: the values behind the part of the key that was there.\<close>

definition insert_adds ::
  "rc_config \<Rightarrow> nat set \<Rightarrow> radix_cache \<Rightarrow> radix_key \<Rightarrow> int list \<Rightarrow> nat set \<Rightarrow> radix_cache \<Rightarrow> int \<Rightarrow> nat \<Rightarrow> int list \<Rightarrow> bool"
where
  "insert_adds cfg S c key vals S' c' tot n vs \<longleftrightarrow> root_node c' = root_node c \<and> freed c' = freed c \<and> keeps_paths cfg S c c'
     \<and> (\<forall>m \<in> S. lock_ref (heap c' m) = lock_ref (heap c m)) \<and> keeps_locks S c S' c'
     \<and> (page_size cfg dvd key_len key \<longrightarrow> 0 \<le> tot \<and> tot \<le> key_len key
          \<and> held S' c' = held S c + mset (drop (nat tot) vals) \<and> path_ok False cfg (extra_key key) c' n (token_ids key) vs)"

lemma insert_helper_ok:
  assumes pg: "0 < page_size cfg" and ok: "rc_ok cfg S c" and lv: "length value = length (token_ids key)"
  shows "\<exists>c' tot S' n vs. insert_helper cfg tm key value pr c = ret (c', tot) \<and> S \<subseteq> S' \<and> rc_ok cfg S' c'
    \<and> keeps S c c' \<and> n \<in> S' \<and> reaches c' n (token_ids key) vs \<and> insert_adds cfg S c key value S' c' tot n vs"
proof -
  let ?p = "case pr of None \<Rightarrow> 0 | Some p \<Rightarrow> p" and ?r = "root_node c"
  define c1 where "c1 = raise_priority ?p ?r (upd_node ?r (\<lambda>x. x\<lparr>last_access_time := tm 0\<rparr>) c)"
  have s1: "same_tree c c1" unfolding c1_def by (rule same_tree_trans [OF same_tree_ops(4,3)])
  have ok1: "rc_ok cfg S c1" using ok by (simp add: rc_ok_same [OF s1])
  have rS: "?r \<in> S" using ok by (simp add: rc_ok_def tree_ok_def)
  have r1: "reaches c1 ?r [] []" using reaches_same [OF s1 reaches_root] .
  have p1: "path_ok False cfg ex c1 ?r [] []" for ex using path_ok_same [OF s1 path_root] .
  show ?thesis
  proof (cases "token_ids key = []")
    case True
    then have "insert_helper cfg tm key value pr c = ret (c1, 0)"
      by (simp add: insert_helper_def Let_def c1_def)
    moreover have "insert_adds cfg S c key value S c1 0 ?r []"
      using carries_same [OF s1, of cfg S] p1 True lv same_tree_fields(1) [OF s1] by (simp add: insert_adds_def carries_def key_len_def)
    ultimately show ?thesis using ok1 keeps_same [OF s1] rS r1 True
      by (intro exI [of _ c1] exI [of _ 0] exI [of _ S] exI [of _ ?r] exI [of _ "[]"]) simp
  next
    case False
    obtain c2 key' value' node tot S' vs' where R:
      "insert_loop cfg tm ?p key value ?r 0 c1 = ret (c2, key', value', node, tot)"
      "loop_result cfg S c1 ([] @ token_ids key) S' c2 node vs'"
      "\<exists>ts'. reaches c2 node ts' vs' \<and> ts' @ token_ids key' = [] @ token_ids key"
      "length value' = length (token_ids key')"
      "token_ids key' \<noteq> [] \<longrightarrow> dget (rchildren (heap c2 node)) (get_child_key (page_size cfg) key') = None"
      "follows cfg key c1 ?r [] [] c2 node vs'" "cut_off cfg 0 key value tot key' value'"
      using insert_loop_ok [OF pg ok1 rS r1 lv, where tm = tm and pr = ?p and tot = 0] by blast
    obtain ts' where ts': "reaches c2 node ts' vs'" "ts' @ token_ids key' = token_ids key" using R(3) by auto
    have L: "S \<subseteq> S'" "rc_ok cfg S' c2" "keeps S c1 c2" "node \<in> S'" using R(2) by (simp_all add: loop_result_def)
    have car: "carries cfg S c S' c2"
      using R(2) carries_trans [OF carries_same [OF s1] _ subset_refl] by (simp add: loop_result_def)
    have rt: "root_node c2 = root_node c" using R(2) same_tree_fields(1) [OF s1] by (simp add: loop_result_def)
    have cut: "0 \<le> tot" "extra_key key' = extra_key key" "value' = drop (nat tot) value" "token_ids key' = drop (nat tot) (token_ids key)"
      "page_size cfg dvd key_len key \<Longrightarrow> tot \<le> key_len key \<and> page_size cfg dvd tot"
      using R(7) by (simp_all add: cut_off_def)
    have pth: "path_ok False cfg (extra_key key) c2 node ts' vs'" if "page_size cfg dvd key_len key"
    proof -
      have "\<exists>ts''. path_ok False cfg (extra_key key) c2 node ts'' vs'" using R(6) that p1 by (auto simp: follows_def)
      then show ?thesis using reaches_unique [OF path_ok_reaches ts'(1)] by blast
    qed
    have K: "keeps S c c2" by (rule keeps_trans [OF keeps_same [OF s1] L(3) subset_refl])
    have I: "insert_helper cfg tm key value pr c =
        ret (if token_ids key' \<noteq> [] then add_leaf cfg tm ?p key' value' node c2 else c2, tot)"
      using R(1) False by (simp add: insert_helper_def Let_def flip: c1_def)
    show ?thesis
    proof (cases "token_ids key' = []")
      case True
      then have "insert_adds cfg S c key value S' c2 tot node vs'"
        using car cut pth ts'(2) lv rt by (simp add: insert_adds_def carries_def)
      then show ?thesis using I L K ts' True
        by (intro exI [of _ c2] exI [of _ tot] exI [of _ S'] exI [of _ node] exI [of _ vs']) simp
    next
      case nonempty: False
      let ?c = "add_leaf cfg tm ?p key' value' node c2" and ?new = "counter c2"
      have t2: "tree_ok cfg S' c2" "acct_ok S' c2" using L(2) by (simp_all add: rc_ok_def)
      have "node \<noteq> ?new" using t2(1) L(4) by (auto simp: tree_ok_def)
      then have la: "leaf_added cfg node ?new key' value' c2 ?c" by (rule add_leaf_added)
      have t3: "tree_ok cfg (insert ?new S') ?c"
        by (rule tree_ok_leaf [OF t2(1) L(4) refl nonempty R(4) _ la]) (use R(5) nonempty in blast)
      have "rc_ok cfg (insert ?new S') ?c"
        using t3 acct_ok_leaf [OF t2 L(4) refl t3 la] by (simp add: rc_ok_def)
      moreover have "keeps S c ?c" by (rule keeps_trans [OF K leaf_reaches(1) [OF t2(1) L(4) refl la] L(1)])
      moreover have "reaches ?c ?new (token_ids key) (vs' @ value')"
        using leaf_reaches(2) [OF t2(1) L(4) refl la ts'(1)] ts'(2) by simp
      moreover have "insert_adds cfg S c key value (insert ?new S') ?c tot ?new (vs' @ value')"
      proof -
        note lp = leaf_paths [OF t2(1) L(4) refl la]
        have dv: "page_size cfg dvd key_len key'" if "page_size cfg dvd key_len key"
          using cut(1,4) cut(5) [OF that] that by (simp add: key_len_def of_nat_diff nat_le_iff)
        have "path_ok False cfg (extra_key key) ?c ?new (token_ids key) (vs' @ value')" if d: "page_size cfg dvd key_len key"
          using lp(4) [of ts' vs'] pth [OF d] dv [OF d] cut(2) ts'(2) by simp
        moreover have "lock_ref (heap ?c m) = lock_ref (heap c m)" if "m \<in> S" for m
        proof -
          have "m \<in> S'" using that L(1) by blast
          then have "m \<noteq> ?new" using t2(1) by (auto simp: tree_ok_def)
          then show ?thesis using la car that by (simp add: leaf_added_def carries_def)
        qed
        moreover have "keeps_locks S c (insert ?new S') ?c"
          by (rule keeps_locks_trans [OF _ lp(3)]) (use car in \<open>simp add: carries_def\<close>)
        moreover have "keeps_paths cfg S c ?c" using car lp(1) L(1) by (auto simp: carries_def keeps_paths_def)
        ultimately show ?thesis
          using car cut rt la lp(2) by (simp add: insert_adds_def carries_def leaf_added_def)
      qed
      moreover have "insert_helper cfg tm key value pr c = ret (?c, tot)" using I nonempty by simp
      moreover have "S \<subseteq> insert ?new S'" using L(1) by blast
      ultimately show ?thesis by blast
    qed
  qed
qed

end
