(* ===== verification/Radix_Props.thy ===== *)
theory Radix_Props
  imports Radix_Insert
begin

text \<open>
  What the server relies on from the radix tree: insertion and matching, the read-only match, and
  the two families of reference counts.
\<close>

section \<open>Read-only matching\<close>

lemma split_node_time:
  assumes "split_node cfg tm child k c = Inr (c', new)"
  shows "counter c' = Suc (counter c)
    \<and> (\<forall>m < counter c. last_access_time (heap c' m) = last_access_time (heap c m) \<and> hit_count (heap c' m) = hit_count (heap c m))"
  using assms
  by (auto simp: split_node_def Let_def case_prod_beta alloc_node_def upd_node_def split: option.splits)

definition times_kept :: "radix_cache \<Rightarrow> radix_cache \<Rightarrow> bool" where
  "times_kept c c' \<longleftrightarrow> counter c \<le> counter c' \<and> (\<forall>m < counter c.
      last_access_time (heap c' m) = last_access_time (heap c m) \<and> hit_count (heap c' m) = hit_count (heap c m))"

lemma times_kept_split: "split_node cfg tm child k c = Inr (c', new) \<Longrightarrow> times_kept c c'"
  by (drule split_node_time) (simp add: times_kept_def)

definition readonly_result :: "bool \<Rightarrow> radix_cache \<Rightarrow> (radix_cache \<times> int list \<times> nat) res \<Rightarrow> bool" where
  "readonly_result lru c r \<longleftrightarrow> lru \<or> (case r of Inl _ \<Rightarrow> True | Inr (c', _) \<Rightarrow> times_kept c c')"

lemma match_loop_readonly:
  assumes "match_loop cfg tm lru key node v c = Some r"
  shows "readonly_result lru c r"
proof (rule match_loop.raw_induct [OF _ assms, where P = "\<lambda>_ _ lru _ _ _ c r. readonly_result lru c r"])
  fix f cfg tm lru key node v c r
  assume IH: "\<And>cfg tm lru key node v c r. f cfg tm lru key node v c = Some r \<Longrightarrow> readonly_result lru c r"
    and body: "(if token_ids key = [] then ret (c, v, node)
      else case dget (rchildren (heap c node)) (get_child_key (page_size cfg) key) of
        None \<Rightarrow> ret (c, v, node)
      | Some child \<Rightarrow>
          let c1 = set_access lru (tm 0) child c in
          case key_match (page_size cfg) (rkey (heap c1 child)) key of
            Inl e \<Rightarrow> Some (Inl e)
          | Inr prefix_len \<Rightarrow>
              if prefix_len < key_len (rkey (heap c1 child))
              then (case split_node cfg tm child prefix_len c1 of
                      Inl e \<Rightarrow> Some (Inl e)
                    | Inr (c2, new) \<Rightarrow>
                        let c3 = add_hit lru new c2
                        in ret (c3, v @ node_values (heap c3 new), new))
              else let c2 = add_hit lru child c1
                   in f cfg tm lru (key_drop prefix_len key) child
                        (v @ node_values (heap c2 child)) c2) = Some r"
  show "readonly_result lru c r"
  proof (cases lru)
    case False
    have refl: "times_kept c c" by (simp add: times_kept_def)
    have IH': "times_kept c a" if "f cfg tm False key node v c = Some (Inr (a, w, n))" for cfg tm key node v c a w n
      using IH [OF that] by (simp add: readonly_result_def)
    show ?thesis using body False refl
      by (auto dest: IH' times_kept_split simp: readonly_result_def ret_def set_access_def add_hit_def Let_def
          split: if_splits option.splits sum.splits prod.splits)
  qed (simp add: readonly_result_def)
qed


section \<open>The public operations\<close>

lemma page_align_pages:
  assumes "0 < page_size cfg"
  shows "page_size cfg dvd key_len (page_align cfg key)" and "extra_key (page_align cfg key) = extra_key key"
  using whole_pages_le [OF assms, of "key_len key"] assms
  by (auto simp: page_align_def key_len_take key_len_def key_take_def pos_imp_zdiv_nonneg_iff)

lemma match_with_held:
  assumes pg: "0 < page_size cfg" and ok: "rc_ok cfg S c"
  shows "\<exists>c' S' r ts' rest. match_with lru cfg tm key c = ret (c', r) \<and> S \<subseteq> S' \<and> rc_ok cfg S' c'
    \<and> keeps S c c' \<and> root_node c' = root_node c \<and> last_device_node r \<in> S' \<and> last_host_node r = last_device_node r
    \<and> reaches c' (last_device_node r) ts' (device_indices r)
    \<and> token_ids (maybe_bigram_convert cfg key) = ts' @ rest
    \<and> carries cfg S c S' c' \<and> (bigram cfg = None \<longrightarrow> path_ok False cfg (extra_key key) c' (last_device_node r) ts' (device_indices r)
         \<and> (\<exists>rest. token_ids (page_align cfg key) = ts' @ rest))"
proof -
  define key1 where "key1 = maybe_bigram_convert cfg key"
  let ?empty = "\<lparr>device_indices = [], last_device_node = root_node c, last_host_node = root_node c\<rparr>"
  have rS: "root_node c \<in> S" using ok by (simp add: rc_ok_def tree_ok_def)
  show ?thesis
  proof (cases "disable cfg \<or> key_len key1 = 0 \<or> key_len (page_align cfg key1) = 0")
    case True
    then have "match_with lru cfg tm key c = ret (c, ?empty)"
      by (auto simp: match_with_def Let_def key1_def)
    moreover have "reaches c (last_device_node ?empty) [] (device_indices ?empty)"
      using reaches_root [of c] by simp
    moreover have "keeps S c c" by (simp add: keeps_def)
    moreover have "last_device_node ?empty \<in> S" "last_host_node ?empty = last_device_node ?empty" using rS by simp_all
    moreover have "path_ok False cfg (extra_key key) c (last_device_node ?empty) [] (device_indices ?empty)"
      using path_root [of False cfg "extra_key key" c] by simp
    ultimately show ?thesis using ok
      by (intro exI [of _ c] exI [of _ S] exI [of _ ?empty] exI [of _ "[]"] exI [of _ "token_ids (maybe_bigram_convert cfg key)"]) simp
  next
    case False
    define c1 where "c1 = set_access lru (tm 0) (root_node c) c"
    have s1: "same_tree c c1" by (simp add: c1_def)
    have ok1: "rc_ok cfg S c1" using ok by (simp add: rc_ok_same [OF s1])
    obtain c' S' node vs where m: "match_loop cfg tm lru (page_align cfg key1) (root_node c) [] c1 = ret (c', vs, node)"
      and R: "loop_result cfg S c1 ([] @ token_ids (page_align cfg key1)) S' c' node vs"
      and F: "follows cfg (page_align cfg key1) c1 (root_node c) [] [] c' node vs"
      using match_loop_ok [OF pg ok1 rS reaches_same [OF s1 reaches_root]] by blast
    have e: "match_with lru cfg tm key c =
        ret (c', \<lparr>device_indices = vs, last_device_node = node, last_host_node = node\<rparr>)"
      using m False by (simp add: match_with_def Let_def key1_def c1_def)
    have "token_ids key1 = token_ids (page_align cfg key1)
        @ drop (length (token_ids (page_align cfg key1))) (token_ids key1)"
      by (auto simp: page_align_def key_take_def min_def)
    moreover obtain ts' rest where a: "reaches c' node ts' vs" "token_ids (page_align cfg key1) = ts' @ rest"
      using R by (auto simp: loop_result_def)
    ultimately obtain rest' where r: "reaches c' node ts' vs" "token_ids key1 = ts' @ rest'"
      by (metis append.assoc)
    have P: "path_ok False cfg (extra_key key) c' node ts' vs" if "bigram cfg = None"
    proof -
      have k: "key1 = key" using that by (simp add: key1_def maybe_bigram_convert_def)
      have "path_ok False cfg (extra_key key) c1 (root_node c) [] []" by (rule path_ok_same [OF s1 path_root])
      then obtain ts'' where "path_ok False cfg (extra_key key) c' node ts'' vs"
        using F page_align_pages [OF pg, of key] unfolding k follows_def by auto
      then show ?thesis using reaches_unique [OF path_ok_reaches a(1)] by blast
    qed
    have car: "carries cfg S c S' c'"
      using R carries_trans [OF carries_same [OF s1] _ subset_refl] by (simp add: loop_result_def)
    have L: "S \<subseteq> S'" "rc_ok cfg S' c'" "keeps S c1 c'" "node \<in> S'" "root_node c' = root_node c"
      using R same_tree_fields(1) [OF s1] by (simp_all add: loop_result_def)
    have "keeps S c c'" by (rule keeps_trans [OF keeps_same [OF s1] L(3) subset_refl])
    moreover have "\<exists>rest. token_ids (page_align cfg key) = ts' @ rest" if "bigram cfg = None"
      using a(2) that by (simp add: key1_def maybe_bigram_convert_def)
    ultimately show ?thesis unfolding e
      by (intro exI [of _ c'] exI [of _ S'] exI [of _ "\<lparr>device_indices = vs, last_device_node = node, last_host_node = node\<rparr>"]
          exI [of _ ts'] exI [of _ rest'])
        (use L r P car in \<open>simp add: key1_def\<close>)
  qed
qed

lemma match_with_ok:
  assumes pg: "0 < page_size cfg" and ok: "rc_ok cfg S c"
  shows "\<exists>c' S' r ts' rest. match_with lru cfg tm key c = ret (c', r) \<and> S \<subseteq> S' \<and> rc_ok cfg S' c'
    \<and> keeps S c c' \<and> root_node c' = root_node c \<and> last_device_node r \<in> S' \<and> last_host_node r = last_device_node r
    \<and> reaches c' (last_device_node r) ts' (device_indices r)
    \<and> token_ids (maybe_bigram_convert cfg key) = ts' @ rest"
  using match_with_held [OF assms, of lru tm key] by blast

lemma cache_insert_inserted:
  assumes pg: "0 < page_size cfg" and ok: "rc_ok cfg S c" and "\<not> disable cfg" and "bigram cfg = None"
    and lv: "\<And>v. vals = Some v \<Longrightarrow> length v = length (token_ids key)"
  shows "\<exists>c' tot S' n vs. cache_insert cfg tm key vals pr c = ret (c', tot) \<and> S \<subseteq> S' \<and> rc_ok cfg S' c'
    \<and> keeps S c c' \<and> n \<in> S' \<and> reaches c' n (token_ids key) vs
    \<and> insert_adds cfg S c key (case vals of None \<Rightarrow> token_ids key | Some v \<Rightarrow> v) S' c' tot n vs"
proof -
  let ?v = "case vals of None \<Rightarrow> token_ids key | Some v \<Rightarrow> v"
  have "length ?v = length (token_ids key)" using lv by (cases vals) auto
  moreover have "cache_insert cfg tm key vals pr c = insert_helper cfg tm key ?v pr c"
    using assms(3,4) by (simp add: cache_insert_def maybe_bigram_convert_def Let_def)
  ultimately show ?thesis using insert_helper_ok [OF pg ok, of ?v key tm pr] by simp
qed

lemma cache_insert_ok:
  assumes "0 < page_size cfg" and "rc_ok cfg S c" and "\<not> disable cfg" and "bigram cfg = None"
    and "\<And>v. vals = Some v \<Longrightarrow> length v = length (token_ids key)"
  shows "\<exists>c' tot S' n vs. cache_insert cfg tm key vals pr c = ret (c', tot) \<and> S \<subseteq> S' \<and> rc_ok cfg S' c'
    \<and> keeps S c c' \<and> n \<in> S' \<and> reaches c' n (token_ids key) vs"
  using cache_insert_inserted [OF assms] by blast

definition sim_config :: rc_config where
  "sim_config = \<lparr>disable = False, page_size = 1, bigram = None\<rparr>"

definition sample_key :: radix_key where
  "sample_key = \<lparr>token_ids = [1, 2, 3], extra_key = None, is_bigram = False\<rparr>"

text \<open>The cached depth of a node is the length of the prefix it stands for.\<close>

lemma reaches_depth:
  assumes t: "tree_ok cfg S c" and r: "reaches c n ts vs" and n: "n \<in> S"
  shows "length ts = length vs \<and> int (length ts) = rdepth (heap c n)"
  using r n
proof induction
  case reaches_root
  then show ?case using t by (simp add: tree_ok_def)
next
  case (reaches_step n p ts vs)
  obtain v where v: "p \<in> S" "rdepth (heap c n) = rdepth (heap c p) + key_len (rkey (heap c n))"
    "rvalue (heap c n) = Some v" "int (length v) = key_len (rkey (heap c n))"
    using tree_ok_nodeD [OF t reaches_step.prems reaches_step.hyps(1)] reaches_step.hyps(2) by (metis option.inject)
  then show ?case using reaches_step.IH [OF v(1)] by (simp add: node_values_def key_len_def)
qed

text \<open>The tree that holds one key.\<close>

lemma sample_tree:
  obtains c tot S n where "cache_insert sim_config (\<lambda>_. 1) sample_key None None (cache_init (\<lambda>_. 0)) = ret (c, tot)"
    and "rc_ok sim_config S c" and "n \<in> S" and "n \<noteq> root_node c"
proof -
  obtain c tot S n vs where r: "cache_insert sim_config (\<lambda>_. 1) sample_key None None (cache_init (\<lambda>_. 0)) = ret (c, tot)"
    "rc_ok sim_config S c" "n \<in> S" "reaches c n (token_ids sample_key) vs"
    using cache_insert_ok [of sim_config, OF _ rc_ok_init [of _ "\<lambda>_. 0"], where vals = None and key = sample_key]
    by (fastforce simp: sim_config_def)
  have "n \<noteq> root_node c"
  proof
    assume "n = root_node c"
    then have "reaches c (root_node c) (token_ids sample_key) vs" using r(4) by simp
    then show False by (cases rule: reaches_rootE) (auto simp: sample_key_def)
  qed
  then show ?thesis using that r by blast
qed

lemma up_path_self: "up_path c n ns \<Longrightarrow> n \<noteq> root_node c \<Longrightarrow> n \<in> set ns"
  by (cases ns) auto

section \<open>Properties\<close>

text \<open>
  C6: Inserting a key returns on every well-formed tree and keeps it well formed (parent pointers,
  child dictionaries, cached depths across splits, value lengths, size counters, evictable leaves);
  afterwards a node spells the whole key, its cached depth is the key's length, and every node that
  was there still spells the same tokens and holds the same KV indices.
\<close>

theorem radix_insert_correct:
  assumes "0 < page_size cfg" and "rc_ok cfg S c" and "\<not> disable cfg" and "bigram cfg = None"
    and "\<And>v. vals = Some v \<Longrightarrow> length v = length (token_ids key)"
  shows "\<exists>c' tot S' n vs. cache_insert cfg tm key vals pr c = ret (c', tot) \<and> S \<subseteq> S' \<and> rc_ok cfg S' c'
    \<and> keeps S c c' \<and> n \<in> S' \<and> reaches c' n (token_ids key) vs \<and> rdepth (heap c' n) = key_len key"
proof -
  obtain c' tot S' n vs where r: "cache_insert cfg tm key vals pr c = ret (c', tot)" "S \<subseteq> S'" "rc_ok cfg S' c'"
    "keeps S c c'" "n \<in> S'" "reaches c' n (token_ids key) vs"
    using cache_insert_ok [OF assms] by blast
  have "rdepth (heap c' n) = key_len key"
    using reaches_depth [OF _ r(6,5), of cfg] r(3) by (simp add: rc_ok_def key_len_def)
  then show ?thesis using r by blast
qed

theorem radix_insert_correct_witness:
  "\<exists>c' tot n vs. cache_insert sim_config (\<lambda>k. rat_of_nat k) sample_key None None (cache_init (\<lambda>_. 0)) = ret (c', tot)
     \<and> reaches c' n [1, 2, 3] vs"
  using radix_insert_correct [of sim_config, OF _ rc_ok_init [of _ "\<lambda>_. 0"], where vals = None and key = sample_key]
  by (simp add: sim_config_def sample_key_def) blast

text \<open>
  C7: Matching returns on every well-formed tree and keeps it well formed: the node it ends at
  spells a prefix of the key, the indices it returns are exactly those stored along that path, one
  per token, and a split on the way changes nothing that was there.
\<close>

theorem radix_match_correct:
  assumes "0 < page_size cfg" and "rc_ok cfg S c"
  shows "\<exists>c' S' r ts' rest. match_with lru cfg tm key c = ret (c', r) \<and> S \<subseteq> S' \<and> rc_ok cfg S' c'
    \<and> keeps S c c' \<and> last_device_node r \<in> S'
    \<and> reaches c' (last_device_node r) ts' (device_indices r)
    \<and> token_ids (maybe_bigram_convert cfg key) = ts' @ rest
    \<and> int (length (device_indices r)) = rdepth (heap c' (last_device_node r))"
proof -
  obtain c' S' r ts' rest where m: "match_with lru cfg tm key c = ret (c', r)" "S \<subseteq> S'" "rc_ok cfg S' c'"
    "keeps S c c'" "last_device_node r \<in> S'" "reaches c' (last_device_node r) ts' (device_indices r)"
    "token_ids (maybe_bigram_convert cfg key) = ts' @ rest"
    using match_with_ok [OF assms, of lru tm key] by blast
  moreover have "int (length (device_indices r)) = rdepth (heap c' (last_device_node r))"
    using reaches_depth [OF _ m(6,5), of cfg] m(3) by (simp add: rc_ok_def)
  ultimately show ?thesis by blast
qed

theorem radix_match_correct_witness:
  "\<exists>c tot c' r. cache_insert sim_config (\<lambda>_. 1) sample_key None None (cache_init (\<lambda>_. 0)) = ret (c, tot)
     \<and> match_with True sim_config (\<lambda>_. 2) sample_key c = ret (c', r)"
proof -
  obtain c tot S n where s: "cache_insert sim_config (\<lambda>_. 1) sample_key None None (cache_init (\<lambda>_. 0)) = ret (c, tot)"
    "rc_ok sim_config S c" "n \<in> S" "n \<noteq> root_node c" by (rule sample_tree)
  have "0 < page_size sim_config" by (simp add: sim_config_def)
  from radix_match_correct [OF this s(2)] s(1) show ?thesis by metis
qed

text \<open>
  The read-only match of the scheduler does not poison the eviction order: no node that
  existed before gets a new access time or a hit (only the node a split creates has a fresh one).
\<close>

lemma readonly_match_keeps_times:
  assumes "match_prefix_readonly cfg tm key c = ret (c', r)"
  shows "\<forall>m < counter c. last_access_time (heap c' m) = last_access_time (heap c m)
    \<and> hit_count (heap c' m) = hit_count (heap c m)"
proof -
  have "times_kept c c'"
  proof (cases "c' = c")
    case True
    then show ?thesis by (simp add: times_kept_def)
  next
    case False
    define key1 where "key1 = page_align cfg (maybe_bigram_convert cfg key)"
    have "obind (match_loop cfg tm False key1 (root_node c) [] c)
        (\<lambda>(c', v, n). ret (c', \<lparr>device_indices = v, last_device_node = n, last_host_node = n\<rparr>)) = ret (c', r)"
      using assms False
      by (auto simp: match_prefix_readonly_def match_with_def Let_def key1_def set_access_def ret_def split: if_splits)
    then obtain v n where "match_loop cfg tm False key1 (root_node c) [] c = Some (Inr (c', v, n))"
      by (auto simp: obind_def ret_def split: option.splits sum.splits)
    from match_loop_readonly [OF this] show ?thesis by (simp add: readonly_result_def)
  qed
  then show ?thesis by (simp add: times_kept_def)
qed


text \<open>
  \<open>inc_queue_ref\<close> raises nothing on a tree node, adds one to exactly the nodes of its path to
  the root, and \<open>dec_queue_ref\<close> takes it back, restoring the cache.
\<close>

lemma queue_ref_walk_correct:
  assumes "rc_ok cfg S c" and "n \<in> S"
  shows "\<exists>ns c'. up_path c n ns \<and> inc_queue_ref n c = ret c'
    \<and> (\<forall>m. queue_ref_count (heap c' m) = queue_ref_count (heap c m) + (if m \<in> set ns then 1 else 0))
    \<and> ((\<forall>m \<in> set ns. 0 \<le> queue_ref_count (heap c m)) \<longrightarrow> dec_queue_ref n c' = ret c)"
proof -
  have "tree_ok cfg S c" using assms(1) by (simp add: rc_ok_def)
  from infinite_descent_depth [OF this assms(2)] obtain ns where ns: "up_path c n ns" by blast
  obtain c' where c': "inc_queue_ref n c = ret c'"
    using qref.walk [OF ns] unfolding inc_queue_ref_eq by blast
  note w = c' [unfolded inc_queue_ref_eq]
  have "queue_ref_count (heap c' m) = queue_ref_count (heap c m) + (if m \<in> set ns then 1 else 0)" for m
    using qref.walk_count [OF ns w, of m] by simp
  moreover have "dec_queue_ref n c' = ret c" if "\<forall>m \<in> set ns. 0 \<le> queue_ref_count (heap c m)"
    unfolding dec_queue_ref_eq by (rule qref.walk_undo [OF ns w]) (use that in auto)
  ultimately show ?thesis using ns c' by blast
qed


text \<open>A lock and its release, with the whole state between and after.\<close>

lemma lock_then_unlock:
  assumes "rc_ok cfg S c" and "n \<in> S" and "\<not> disable cfg"
  obtains ns c1 delta c2 delta2 where "up_path c n ns" and "set ns \<subseteq> S" and "inc_lock_ref cfg n c = ret (c1, delta)"
    and "lock_fold_spec (\<lambda>i. i + 1) ns (c, 0) (c1, delta)" and "rc_ok cfg S c1"
    and "dec_lock_ref cfg n c1 = ret (c2, delta2)" and "lock_fold_spec (\<lambda>i. i - 1) ns (c1, 0) (c2, delta2)"
    and "rc_ok cfg S c2" and "heap c2 = heap c" and "root_node c2 = root_node c"
proof -
  have ta: "tree_ok cfg S c" "acct_ok S c" using assms(1) by (simp_all add: rc_ok_def)
  obtain ns c1 delta where L: "up_path c n ns" "set ns \<subseteq> S" "inc_lock_ref cfg n c = ret (c1, delta)"
    "lock_fold_spec (\<lambda>i. i + 1) ns (c, 0) (c1, delta)" "tree_ok cfg S c1" "acct_ok S c1"
    by (rule lock_walk [OF ta assms(2,3)])
  have p1: "up_path c1 n ns" using up_path_same_shape [OF lock_spec_shape [OF L(4)]] L(1) by simp
  have pos: "0 < lock_ref (heap c1 m)" if "m \<in> set ns" for m
  proof -
    have "0 \<le> lock_ref (heap c m)" using ta(2) L(2) that unfolding acct_ok_def by blast
    then show ?thesis using that L(4) by (simp add: lock_fold_spec_def upd_lock_def)
  qed
  obtain c2 delta2 where U: "dec_lock_ref cfg n c1 = ret (c2, delta2)"
    "lock_fold_spec (\<lambda>i. i - 1) ns (c1, 0) (c2, delta2)" "tree_ok cfg S c2" "acct_ok S c2"
    by (rule unlock_walk [OF L(5,6) assms(3) p1 L(2) pos])
  have "heap c2 = heap c" by (rule ext) (use L(4) U(2) in \<open>simp add: lock_fold_spec_def upd_lock_def\<close>)
  moreover have "root_node c2 = root_node c" using L(4) U(2) by (simp add: lock_fold_spec_def)
  moreover have "rc_ok cfg S c1" "rc_ok cfg S c2" using L U by (simp_all add: rc_ok_def)
  ultimately show ?thesis using that L(1-4) U(1,2) by blast
qed

text \<open>The accounting is a function of the heap, so equal heaps have equal sizes and leaves.\<close>

lemma rc_ok_same_heap:
  assumes "rc_ok cfg S c" and "rc_ok cfg S c2" and "heap c2 = heap c" and "root_node c2 = root_node c"
  shows "evictable_size c2 = evictable_size c" and "protected_size c2 = protected_size c"
    and "set (evictable_leaves c2) = set (evictable_leaves c)"
proof -
  have ta: "acct_ok S c" "acct_ok S c2" using assms(1,2) by (simp_all add: rc_ok_def)
  show "evictable_size c2 = evictable_size c" "protected_size c2 = protected_size c"
    using ta assms(3,4) by (simp_all add: acct_ok_def)
  show "set (evictable_leaves c2) = set (evictable_leaves c)"
    using ta unfolding acct_ok_def leaf_status_def assms(3) by blast
qed

text \<open>
  Locking a node and releasing it are inverse: \<open>inc_lock_ref\<close> adds one to the path's counts,
  moves exactly the newly locked tokens from the evictable to the protected size (the returned
  delta), keeps every invariant, and \<open>dec_lock_ref\<close> gives back the same heap, sizes and set of
  evictable leaves with the opposite delta.
\<close>

lemma lock_unlock_correct:
  assumes "rc_ok cfg S c" and "n \<in> S" and "\<not> disable cfg"
  shows "\<exists>ns c1 delta c2. up_path c n ns \<and> inc_lock_ref cfg n c = ret (c1, delta) \<and> rc_ok cfg S c1
    \<and> (\<forall>m. lock_ref (heap c1 m) = lock_ref (heap c m) + (if m \<in> set ns then 1 else 0))
    \<and> evictable_size c1 = evictable_size c + delta \<and> protected_size c1 = protected_size c - delta
    \<and> dec_lock_ref cfg n c1 = ret (c2, - delta) \<and> heap c2 = heap c
    \<and> evictable_size c2 = evictable_size c \<and> protected_size c2 = protected_size c
    \<and> set (evictable_leaves c2) = set (evictable_leaves c)"
proof -
  obtain ns c1 delta c2 delta2 where L: "up_path c n ns" "inc_lock_ref cfg n c = ret (c1, delta)"
    "lock_fold_spec (\<lambda>i. i + 1) ns (c, 0) (c1, delta)" "rc_ok cfg S c1"
    "dec_lock_ref cfg n c1 = ret (c2, delta2)" "lock_fold_spec (\<lambda>i. i - 1) ns (c1, 0) (c2, delta2)"
    "rc_ok cfg S c2" "heap c2 = heap c" "root_node c2 = root_node c"
    by (rule lock_then_unlock [OF assms])
  note sizes = rc_ok_same_heap [OF assms(1) L(7-9)]
  have "lock_ref (heap c1 m) = lock_ref (heap c m) + (if m \<in> set ns then 1 else 0)" for m
    using L(3) by (simp add: lock_fold_spec_def upd_lock_def)
  moreover have "delta2 = - delta" "evictable_size c1 = evictable_size c + delta" "protected_size c1 = protected_size c - delta"
    using L(3,6) sizes by (simp_all add: lock_fold_spec_def)
  ultimately show ?thesis using L sizes by blast
qed


end
