(* ===== verification/Radix_Evict.thy ===== *)
theory Radix_Evict
  imports Radix_Insert
begin

text \<open>
  Eviction from the radix tree: the strategies of
  \<open>src/python/peek/offline/sglang_patches/patched_files/evict_policy.py\<close>, the queue-aware priority
  of \<open>src/python/peek/offline/scheduler.py\<close> that one of them delegates to, and the eviction loop of
  \<open>radix_cache.py\<close>. Priorities are lists of numbers, compared as Python compares tuples;
  \<open>math.log1p\<close> and the float power are parameters, the clock reading of \<open>LRFU\<close> is an argument.
\<close>

section \<open>Strategies\<close>

datatype strategy = LRU | LFU | FIFO | MRU | FILO | PRIORITY | QUEUE_AWARE | LRFU

definition queue_aware_eviction_priority :: "(int \<Rightarrow> pyfloat) \<Rightarrow> rnode \<Rightarrow> pyfloat list" where
  "queue_aware_eviction_priority log1p n =
     (let ref_count = queue_ref_count n;
          is_referenced = (if 0 < ref_count then 1 else 0);
          cost_score = fmul (log1p ref_count) (of_pyint (max (rdepth n) 1))
      in [is_referenced, cost_score, last_access_time n])"

definition get_priority ::
  "(int \<Rightarrow> pyfloat) \<Rightarrow> (pyfloat \<Rightarrow> pyfloat \<Rightarrow> pyfloat) \<Rightarrow> pyfloat \<Rightarrow> strategy \<Rightarrow> rnode \<Rightarrow> pyfloat list" where
  "get_priority log1p pow_of now st n =
     (case st of
        LRU \<Rightarrow> [last_access_time n]
      | LFU \<Rightarrow> [of_int (hit_count n), last_access_time n]
      | FIFO \<Rightarrow> [creation_time n]
      | MRU \<Rightarrow> [- last_access_time n]
      | FILO \<Rightarrow> [- creation_time n]
      | PRIORITY \<Rightarrow> [of_int (priority n), last_access_time n]
      | QUEUE_AWARE \<Rightarrow> queue_aware_eviction_priority log1p n
      | LRFU \<Rightarrow> [fmul (of_pyint (max (hit_count n) 1))
                  (pow_of (fl (995 / 1000)) (fsub now (last_access_time n)))])"

definition strategy_of :: "string \<Rightarrow> strategy res" where
  "strategy_of policy =
     (let s = lower policy in
      if s = ''lru'' then Inr LRU else if s = ''lfu'' then Inr LFU
      else if s = ''fifo'' then Inr FIFO else if s = ''mru'' then Inr MRU
      else if s = ''filo'' then Inr FILO else if s = ''priority'' then Inr PRIORITY
      else if s = ''queue-aware'' then Inr QUEUE_AWARE else if s = ''lrfu'' then Inr LRFU
      else Inl ValueError)"

section \<open>Popping the least entry\<close>

lemma pop_min_None [simp]: "pop_min f xs = None \<longleftrightarrow> xs = []"
  by (cases xs) (auto split: option.splits prod.splits)

lemma pop_min_Some:
  "pop_min f xs = Some (x, ys) \<Longrightarrow> mset xs = add_mset x (mset ys) \<and> (\<forall>y \<in> set xs. f x \<le> f y)"
proof (induction xs arbitrary: x ys)
  case (Cons a xs)
  show ?case
  proof (cases "pop_min f xs")
    case None
    then show ?thesis using Cons.prems by simp
  next
    case (Some r)
    obtain y zs where r: "r = (y, zs)" by (cases r)
    have IH: "mset xs = add_mset y (mset zs)" "\<forall>z \<in> set xs. f y \<le> f z" using Cons.IH Some r by auto
    show ?thesis using Cons.prems Some r IH by (auto split: if_splits)
  qed
qed simp

section \<open>Deleting a leaf\<close>

lemma delete_leaf_ok:
  assumes ok: "rc_ok cfg S c" and x: "x \<in> S" "leaf_status c x"
  obtains p c' chs where "delete_leaf cfg x c = Inr (c', p)" and "rc_ok cfg (S - {x}) c'" and "x \<noteq> root_node c"
    and "rparent (heap c x) = Some p" and "p \<in> S" and "p \<noteq> x"
    and "root_node c' = root_node c" and "freed c' = freed c"
    and "evictable_size c' = evictable_size c - int (length (node_values (heap c x)))"
    and "heap c' = (heap c)(p := (heap c p)\<lparr>rchildren := chs\<rparr>)"
    and "rchildren (heap c p) \<noteq> []"
proof -
  have t: "tree_ok cfg S c" and a: "acct_ok S c" using ok by (simp_all add: rc_ok_def)
  have lf: "lock_ref (heap c x) = 0" "rchildren (heap c x) = []"
    using leaf_status_tree [OF t x(1)] x a by (auto simp: acct_ok_def)
  have xr: "x \<noteq> root_node c" using lf(1) t by (auto simp: tree_ok_def)
  obtain p v where p: "rparent (heap c x) = Some p" "p \<in> S" "dget (rchildren (heap c p)) (ckey cfg c x) = Some x"
    "rvalue (heap c x) = Some v" "int (length v) = key_len (rkey (heap c x))"
    by (rule tree_ok_nodeD [OF t x(1) xr])
  have px: "p \<noteq> x" using depth_less_parent [OF t x(1) xr p(1)] by auto
  define c1 where "c1 = upd_node p (\<lambda>y. y\<lparr>rchildren := ddel (ckey cfg c x) (rchildren y)\<rparr>) c"
  define c2 where "c2 = c1\<lparr>evictable_size := evictable_size c1 - key_len (rkey (heap c x)),
      evictable_leaves := filter (\<lambda>m. m \<noteq> x) (evictable_leaves c1)\<rparr>"
  define c' where "c' = update_leaf_status p c2"
  have d: "delete_leaf cfg x c = Inr (c', p)"
    using p by (simp add: delete_leaf_def Let_def c'_def c2_def c1_def)
  have h: "heap c' m = (if m = p then (heap c p)\<lparr>rchildren := ddel (ckey cfg c x) (rchildren (heap c p))\<rparr> else heap c m)" for m
    by (simp add: c'_def c2_def c1_def upd_node_def)
  have keep: "rparent (heap c' m) = rparent (heap c m)" "rkey (heap c' m) = rkey (heap c m)"
    "rvalue (heap c' m) = rvalue (heap c m)" "rdepth (heap c' m) = rdepth (heap c m)"
    "lock_ref (heap c' m) = lock_ref (heap c m)" for m by (simp_all add: h)
  have ch: "rchildren (heap c' m) = (if m = p then ddel (ckey cfg c x) (rchildren (heap c p)) else rchildren (heap c m))" for m
    by (simp add: h)
  have rt: "root_node c' = root_node c" "counter c' = counter c" "freed c' = freed c"
    "evictable_size c' = evictable_size c - key_len (rkey (heap c x))" "protected_size c' = protected_size c"
    by (simp_all add: c'_def c2_def c1_def upd_node_def)
  have dg: "dget (rchildren (heap c' q)) k = (if q = p \<and> k = ckey cfg c x then None else dget (rchildren (heap c q)) k)" for q k
    by (simp add: ch dict_simps)
  have node: "node_ok cfg (S - {x}) c' n" if n: "n \<in> S - {x}" "n \<noteq> root_node c" for n
  proof -
    have nS: "n \<in> S" using n by blast
    obtain q w where q: "rparent (heap c n) = Some q" "q \<in> S" "dget (rchildren (heap c q)) (ckey cfg c n) = Some n"
      "rdepth (heap c n) = rdepth (heap c q) + key_len (rkey (heap c n))" "token_ids (rkey (heap c n)) \<noteq> []"
      "rvalue (heap c n) = Some w" "int (length w) = key_len (rkey (heap c n))"
      by (rule tree_ok_nodeD [OF t nS n(2)])
    have "q \<noteq> x" using q(3) lf(2) by auto
    moreover have "dget (rchildren (heap c' q)) (ckey cfg c n) = Some n" using q(3) p(3) n(1) by (auto simp: dg)
    ultimately show ?thesis using q by (simp add: node_ok_def keep)
  qed
  have child: "child_ok cfg (S - {x}) c' q" if q: "q \<in> S - {x}" for q
  proof -
    have qS: "q \<in> S" using q by blast
    have "wf_dict (rchildren (heap c q))" using t qS unfolding tree_ok_def child_ok_def by blast
    then have "wf_dict (rchildren (heap c' q))" by (auto simp: ch wf_ddel)
    moreover have "n \<in> S - {x} \<and> n \<noteq> root_node c' \<and> rparent (heap c' n) = Some q \<and> k = ckey cfg c' n"
      if "dget (rchildren (heap c' q)) k = Some n" for k n
    proof -
      have d: "dget (rchildren (heap c q)) k = Some n" "\<not> (q = p \<and> k = ckey cfg c x)"
        using that by (auto simp: dg split: if_splits)
      note f = tree_ok_childD [OF t qS d(1)]
      have "n \<noteq> x" using f d(2) p(1) by auto
      then show ?thesis using f by (simp add: keep rt)
    qed
    ultimately show ?thesis unfolding child_ok_def by blast
  qed
  have t': "tree_ok cfg (S - {x}) c'"
    using t xr node child unfolding tree_ok_def rt keep by blast
  have fin: "finite (S - {root_node c})" "x \<in> S - {root_node c}" using t x xr by (auto simp: tree_ok_def)
  have sums: "(\<Sum>n \<in> S - {x} - {root_node c}. F (heap c' n)) = (\<Sum>n \<in> S - {root_node c}. F (heap c n)) - F (heap c x)"
    if "\<And>m. F (heap c' m) = F (heap c m)" for F :: "rnode \<Rightarrow> int"
  proof -
    have "S - {x} - {root_node c} = S - {root_node c} - {x}" by blast
    then show ?thesis using sum.remove [OF fin, of "\<lambda>n. F (heap c n)"] that by simp
  qed
  have leaf: "m \<in> set (evictable_leaves c') \<longleftrightarrow> m \<in> S - {x} \<and> leaf_status c' m" for m
  proof (cases "m = p")
    case True
    then show ?thesis using p(2) px by (simp add: c'_def update_leaf_status_mem)
  next
    case False
    have "leaf_status c' m = leaf_status c m" if "m \<in> S - {x}"
    proof -
      have "m \<in> S" using that by blast
      then show ?thesis using leaf_status_tree [OF t' that] leaf_status_tree [OF t \<open>m \<in> S\<close>] keep ch False by simp
    qed
    moreover have "m \<in> set (evictable_leaves c') \<longleftrightarrow> m \<noteq> x \<and> m \<in> set (evictable_leaves c)"
      using False by (auto simp: c'_def update_leaf_status_mem c2_def c1_def upd_node_def)
    ultimately show ?thesis using a by (auto simp: acct_ok_def)
  qed
  have "distinct (evictable_leaves c')"
    unfolding c'_def by (rule update_leaf_status_distinct) (use a in \<open>simp add: c2_def c1_def upd_node_def acct_ok_def\<close>)
  moreover have "ev_len (heap c x) = key_len (rkey (heap c x))" "pr_len (heap c x) = 0"
    by (simp_all add: ev_len_def pr_len_def lf(1))
  moreover have "ev_len (heap c' m) = ev_len (heap c m)" "pr_len (heap c' m) = pr_len (heap c m)" for m
    by (simp_all add: ev_len_def pr_len_def keep)
  moreover have "\<forall>n \<in> S - {x}. 0 \<le> lock_ref (heap c' n)" using a by (simp add: acct_ok_def keep)
  ultimately have "acct_ok (S - {x}) c'"
    using a leaf sums [of ev_len] sums [of pr_len] unfolding acct_ok_def rt by (simp add: rt)
  then have "rc_ok cfg (S - {x}) c'" using t' by (simp add: rc_ok_def)
  moreover have "rchildren (heap c p) \<noteq> []" using p(3) by auto
  moreover have "int (length (node_values (heap c x))) = key_len (rkey (heap c x))" using p by (simp add: node_values_def)
  moreover have "heap c' = (heap c)(p := (heap c p)\<lparr>rchildren := ddel (ckey cfg c x) (rchildren (heap c p))\<rparr>)"
    by (rule ext) (simp add: h)
  ultimately show ?thesis using that [OF d _ xr p(1,2) px rt(1,3)] rt(4) by simp
qed

section \<open>The eviction loop\<close>

text \<open>
  The heap always holds exactly the evictable leaves. What a run of the loop guarantees: it
  evicts the requested amount or everything that is evictable, returns every index it counts, and
  touches no locked node.
\<close>

definition heap_ok :: "nat set \<Rightarrow> radix_cache \<Rightarrow> heap_entry list \<Rightarrow> bool" where
  "heap_ok S c hp \<longleftrightarrow> distinct (map snd hp) \<and> set (map snd hp) = {n \<in> S. leaf_status c n}"

definition same_edges :: "radix_cache \<Rightarrow> radix_cache \<Rightarrow> bool" where
  "same_edges c c' \<longleftrightarrow> same_shape c c' \<and> (\<forall>m. rkey (heap c' m) = rkey (heap c m)
     \<and> rvalue (heap c' m) = rvalue (heap c m) \<and> lock_ref (heap c' m) = lock_ref (heap c m))"

definition evict_result ::
  "rc_config \<Rightarrow> int \<Rightarrow> nat set \<Rightarrow> radix_cache \<Rightarrow> int \<Rightarrow> nat set \<Rightarrow> radix_cache \<Rightarrow> int \<Rightarrow> bool" where
  "evict_result cfg num S c e S' c' e' \<longleftrightarrow> S' \<subseteq> S \<and> rc_ok cfg S' c'
     \<and> (num \<le> e' \<or> (\<forall>n \<in> S'. \<not> leaf_status c' n))
     \<and> int (length (freed c')) = int (length (freed c)) + (e' - e)
     \<and> evictable_size c' = evictable_size c - (e' - e)
     \<and> (\<forall>n \<in> S. 0 < lock_ref (heap c n) \<longrightarrow> n \<in> S')
     \<and> (\<forall>n. queue_ref_count (heap c' n) = queue_ref_count (heap c n))
     \<and> same_edges c c' \<and> held S' c' + mset (freed c') = held S c + mset (freed c)"

text \<open>References along paths only grow towards the root.\<close>

definition refs_ok :: "nat set \<Rightarrow> radix_cache \<Rightarrow> bool" where
  "refs_ok S c \<longleftrightarrow> (\<forall>n \<in> S. \<forall>p. rparent (heap c n) = Some p \<longrightarrow> p \<noteq> root_node c \<longrightarrow>
     queue_ref_count (heap c n) \<le> queue_ref_count (heap c p))"

definition all_referenced :: "nat set \<Rightarrow> radix_cache \<Rightarrow> bool" where
  "all_referenced S c \<longleftrightarrow> (\<forall>n \<in> S. leaf_status c n \<longrightarrow> 0 < queue_ref_count (heap c n))"

text \<open>Priorities that lead with the referenced bit, as the queue-aware one does.\<close>

definition leads_with_ref :: "(rnode \<Rightarrow> pyfloat list) \<Rightarrow> bool" where
  "leads_with_ref prio \<longleftrightarrow> (\<forall>x. \<exists>rest. prio x = (if 0 < queue_ref_count x then 1 else 0) # rest)"

definition entries_ok :: "(rnode \<Rightarrow> pyfloat list) \<Rightarrow> radix_cache \<Rightarrow> heap_entry list \<Rightarrow> bool" where
  "entries_ok prio c hp \<longleftrightarrow>
     (\<forall>e \<in> set hp. \<exists>x. fst e = prio x \<and> queue_ref_count x = queue_ref_count (heap c (snd e)))"

definition partition_kept ::
  "(rnode \<Rightarrow> pyfloat list) \<Rightarrow> nat set \<Rightarrow> radix_cache \<Rightarrow> heap_entry list \<Rightarrow> nat set \<Rightarrow> radix_cache \<Rightarrow> bool" where
  "partition_kept prio S c hp S' c' \<longleftrightarrow>
     (leads_with_ref prio \<longrightarrow> entries_ok prio c hp \<longrightarrow> refs_ok S c \<longrightarrow>
       (all_referenced S c \<longrightarrow> all_referenced S' c')
       \<and> ((\<exists>n \<in> S - S'. 0 < queue_ref_count (heap c n)) \<longrightarrow> all_referenced S' c'))"

lemma least_entry_referenced:
  assumes lead: "leads_with_ref prio" and en: "entries_ok prio c hp" and e: "e \<in> set hp" "e' \<in> set hp"
    and le: "entry_key c e \<le> entry_key c e'" and r: "0 < queue_ref_count (heap c (snd e))"
  shows "0 < queue_ref_count (heap c (snd e'))"
proof (rule ccontr)
  assume n: "\<not> ?thesis"
  obtain x y where x: "fst e = prio x" "queue_ref_count x = queue_ref_count (heap c (snd e))"
    and y: "fst e' = prio y" "queue_ref_count y = queue_ref_count (heap c (snd e'))"
    using en e unfolding entries_ok_def by blast
  obtain rx ry where "prio x = 1 # rx" "prio y = 0 # ry"
    using lead r n x(2) y(2) unfolding leads_with_ref_def by metis
  then show False using le by (simp add: entry_key_def x y list_le_def)
qed

lemma rc_ok_freed: "rc_ok cfg S (c\<lparr>freed := v\<rparr>) = rc_ok cfg S c"
proof -
  have f: "heap (c\<lparr>freed := v\<rparr>) = heap c" "root_node (c\<lparr>freed := v\<rparr>) = root_node c"
    "counter (c\<lparr>freed := v\<rparr>) = counter c" "evictable_size (c\<lparr>freed := v\<rparr>) = evictable_size c"
    "protected_size (c\<lparr>freed := v\<rparr>) = protected_size c"
    "evictable_leaves (c\<lparr>freed := v\<rparr>) = evictable_leaves c" by simp_all
  show ?thesis
    unfolding rc_ok_def tree_ok_def acct_ok_def node_ok_def child_ok_def leaf_status_def f by (rule refl)
qed

lemma evict_loop_ok:
  "rc_ok cfg S c \<Longrightarrow> heap_ok S c hp \<Longrightarrow>
     \<exists>c' e' S'. evict_loop cfg prio num e hp c = ret (c', e') \<and> evict_result cfg num S c e S' c' e'
       \<and> partition_kept prio S c hp S' c'"
proof (induction "card S" arbitrary: S c hp e rule: less_induct)
  case less
  note ok = less.prems(1) and hp = less.prems(2)
  show ?case
  proof (cases "num \<le> e \<or> hp = []")
    case True
    have "evict_loop cfg prio num e hp c = ret (c, e)"
      using True by (subst evict_loop.simps) auto
    moreover have "evict_result cfg num S c e S c e"
      using True ok hp by (auto simp: evict_result_def heap_ok_def same_edges_def)
    ultimately show ?thesis by (auto simp: partition_kept_def)
  next
    case False
    then obtain en hp' where pm: "pop_min (entry_key c) hp = Some (en, hp')"
      by (metis option.exhaust pop_min_None prod.collapse)
    obtain pr x where en: "en = (pr, x)" by (cases en)
    note pms = pop_min_Some [OF pm]
    have set_hp: "set hp = insert en (set hp')" using pms by (metis set_mset_add_mset_insert set_mset_mset)
    have dis: "distinct (map snd hp')" "x \<notin> snd ` set hp'"
    proof -
      have "mset (map snd hp) = add_mset x (mset (map snd hp'))" using pms by (simp add: en)
      then have "distinct (x # map snd hp')"
        using hp by (metis distinct_count_atmost_1 heap_ok_def mset.simps(2) mset_eq_imp_distinct_iff)
      then show "distinct (map snd hp')" "x \<notin> snd ` set hp'" by simp_all
    qed
    have xS: "x \<in> S" "leaf_status c x" using hp by (auto simp: heap_ok_def set_hp en)
    define c0 where "c0 = c\<lparr>freed := freed c @ node_values (heap c x)\<rparr>"
    have f0: "heap c0 = heap c" "evictable_size c0 = evictable_size c" "root_node c0 = root_node c"
      "freed c0 = freed c @ node_values (heap c x)" by (simp_all add: c0_def)
    have ok0: "rc_ok cfg S c0"
      using ok unfolding c0_def by (simp only: rc_ok_freed)
    have ls0: "leaf_status c0 n = leaf_status c n" for n by (simp add: leaf_status_def f0)
    have lsx: "leaf_status c0 x" using xS(2) by (simp add: ls0)
    obtain p c1 chs where D: "delete_leaf cfg x c0 = Inr (c1, p)" "rc_ok cfg (S - {x}) c1" "x \<noteq> root_node c0"
      "rparent (heap c0 x) = Some p" "p \<in> S" "p \<noteq> x" "root_node c1 = root_node c0" "freed c1 = freed c0"
      "evictable_size c1 = evictable_size c0 - int (length (node_values (heap c0 x)))"
      and H: "heap c1 = (heap c0)(p := (heap c0 p)\<lparr>rchildren := chs\<rparr>)"
      and pne: "rchildren (heap c0 p) \<noteq> []"
      by (rule delete_leaf_ok [OF ok0 xS(1) lsx])
    define len where "len = int (length (node_values (heap c x)))"
    define hp1 where "hp1 = (if rchildren (heap c1 p) = [] \<and> lock_ref (heap c1 p) = 0
        then hp' @ [(prio (heap c1 p), p)] else hp')"
    have step: "evict_loop cfg prio num e hp c = evict_loop cfg prio num (e + len) hp1 c1"
      using False pm D(1) by (subst evict_loop.simps) (simp add: en Let_def len_def hp1_def flip: c0_def)
    have t: "tree_ok cfg S c" "tree_ok cfg (S - {x}) c1" and acct: "acct_ok (S - {x}) c1"
      using ok D(2) by (simp_all add: rc_ok_def)
    have lk: "lock_ref (heap c1 m) = lock_ref (heap c m)" "queue_ref_count (heap c1 m) = queue_ref_count (heap c m)"
      "rparent (heap c1 m) = rparent (heap c m)" for m
      by (simp_all add: H f0)
    have chn: "rchildren (heap c1 m) = rchildren (heap c m)" if "m \<noteq> p" for m using that by (simp add: H f0)
    have ls: "leaf_status c1 m \<longleftrightarrow> leaf_status c m" if "m \<in> S - {x}" "m \<noteq> p" for m
    proof -
      have "m \<in> S" using that by blast
      then show ?thesis
        using leaf_status_tree [OF t(2) that(1)] leaf_status_tree [OF t(1)] lk(1) chn [OF that(2)] by simp
    qed
    have lsp: "\<not> leaf_status c p" "leaf_status c1 p \<longleftrightarrow> rchildren (heap c1 p) = [] \<and> lock_ref (heap c1 p) = 0"
    proof -
      show "\<not> leaf_status c p" using leaf_status_tree [OF t(1) D(5)] pne by (simp add: f0)
      have "p \<in> S - {x}" using D(5,6) by blast
      then show "leaf_status c1 p \<longleftrightarrow> rchildren (heap c1 p) = [] \<and> lock_ref (heap c1 p) = 0"
        using leaf_status_tree [OF t(2)] acct by (force simp: acct_ok_def)
    qed
    have setS: "set (map snd hp') = {n \<in> S - {x}. leaf_status c n}"
      using hp dis(2) by (auto simp: heap_ok_def set_hp en)
    have hp1: "heap_ok (S - {x}) c1 hp1"
      using setS dis(1) ls lsp D(5,6) unfolding heap_ok_def hp1_def by auto
    have "card (S - {x}) < card S" using t(1) xS(1) by (intro psubset_card_mono) (auto simp: tree_ok_def)
    from less.hyps [OF this D(2) hp1, of "e + len"] obtain c' e' S' where
      R: "evict_loop cfg prio num (e + len) hp1 c1 = ret (c', e')"
        "evict_result cfg num (S - {x}) c1 (e + len) S' c' e'" "partition_kept prio (S - {x}) c1 hp1 S' c'" by blast
    have xl: "\<not> 0 < lock_ref (heap c x)" using xS leaf_status_tree [OF t(1)] by auto
    have edges: "same_edges c c1" by (simp add: same_edges_def same_shape_def H D(7) f0)
    then have "same_edges c c'" using R(2) by (simp add: evict_result_def same_edges_def same_shape_def)
    moreover have "held (S - {x}) c1 + mset (node_values (heap c x)) = held S c"
    proof -
      have "(\<Sum>n \<in> S - {x}. mset (node_values (heap c1 n))) = (\<Sum>n \<in> S - {x}. mset (node_values (heap c n)))"
        using edges by (simp add: same_edges_def node_values_def)
      then show ?thesis using t(1) xS(1) by (simp add: held_def sum.remove [of S x] tree_ok_def)
    qed
    then have "held S' c' + mset (freed c') = held S c + mset (freed c)"
      using R(2) by (simp add: evict_result_def D(8) f0 ac_simps)
    ultimately have E: "evict_result cfg num S c e S' c' e'"
      using R(2) D(8,9) xl unfolding evict_result_def f0 len_def lk by auto
    have "partition_kept prio S c hp S' c'"
      unfolding partition_kept_def
    proof (intro impI)
      assume lead: "leads_with_ref prio" and eok: "entries_ok prio c hp" and refs: "refs_ok S c"
      have r1: "refs_ok (S - {x}) c1" using refs by (simp add: refs_ok_def lk D(7) f0)
      have e1: "entries_ok prio c1 hp1" using eok by (auto simp: entries_ok_def hp1_def lk set_hp)
      have K: "all_referenced (S - {x}) c1 \<longrightarrow> all_referenced S' c'"
        "(\<exists>n \<in> S - {x} - S'. 0 < queue_ref_count (heap c n)) \<longrightarrow> all_referenced S' c'"
        using R(3) lead e1 r1 unfolding partition_kept_def lk by blast+
      have rp: "0 < queue_ref_count (heap c p)" if "0 < queue_ref_count (heap c x)" "leaf_status c1 p"
      proof -
        have "p \<noteq> root_node c"
          using that(2) t(2) lsp(2) D(7) by (auto simp: tree_ok_def f0)
        then show ?thesis using refs that(1) xS(1) D(4) unfolding refs_ok_def f0 by force
      qed
      have A: "all_referenced (S - {x}) c1" if "all_referenced S c"
      proof -
        have "0 < queue_ref_count (heap c n)" if "n \<in> S - {x}" "leaf_status c1 n" for n
        proof (cases "n = p")
          case True
          have "0 < queue_ref_count (heap c x)" using \<open>all_referenced S c\<close> xS by (simp add: all_referenced_def)
          then show ?thesis using rp that(2) True by simp
        next
          case False
          then show ?thesis using \<open>all_referenced S c\<close> that ls by (simp add: all_referenced_def)
        qed
        then show ?thesis by (simp add: all_referenced_def lk)
      qed
      have B: "all_referenced S c" if "0 < queue_ref_count (heap c x)"
        unfolding all_referenced_def
      proof (intro ballI impI)
        fix n assume "n \<in> S" "leaf_status c n"
        then obtain e' where e': "e' \<in> set hp" "snd e' = n" using hp by (force simp: heap_ok_def)
        have "en \<in> set hp" by (simp add: set_hp)
        moreover have "entry_key c en \<le> entry_key c e'" using pms e'(1) by blast
        ultimately have "0 < queue_ref_count (heap c (snd e'))"
          using least_entry_referenced [OF lead eok, of en e'] e'(1) that en by simp
        then show "0 < queue_ref_count (heap c n)" by (simp add: e'(2))
      qed
      show "(all_referenced S c \<longrightarrow> all_referenced S' c')
          \<and> ((\<exists>n \<in> S - S'. 0 < queue_ref_count (heap c n)) \<longrightarrow> all_referenced S' c')"
        using K A B by blast
    qed
    then show ?thesis using step R(1) E by auto
  qed
qed

section \<open>Properties\<close>

lemma evict_ok:
  assumes ok: "rc_ok cfg S c" and "\<not> disable cfg"
  shows "\<exists>c' n S'. evict cfg prio num c = ret (c', n) \<and> evict_result cfg num S c 0 S' c' n
    \<and> partition_kept prio S c (map (\<lambda>n. (prio (heap c n), n)) (evictable_leaves c)) S' c'"
proof -
  let ?hp = "map (\<lambda>n. (prio (heap c n), n)) (evictable_leaves c)"
  have "map snd ?hp = evictable_leaves c" by (simp add: comp_def)
  moreover have "distinct (evictable_leaves c)" "set (evictable_leaves c) = {n \<in> S. leaf_status c n}"
    using ok by (auto simp: rc_ok_def acct_ok_def)
  ultimately have "heap_ok S c ?hp" unfolding heap_ok_def by metis
  from evict_loop_ok [OF ok this, of prio num 0] show ?thesis using assms(2) by (simp add: evict_def)
qed

text \<open>The cache that holds the one key [1, 2, 3].\<close>

definition one_config :: rc_config where
  "one_config = \<lparr>disable = False, page_size = 1, bigram = None\<rparr>"

definition one_key :: radix_key where
  "one_key = \<lparr>token_ids = [1, 2, 3], extra_key = None, is_bigram = False\<rparr>"

definition one_cache :: radix_cache where
  "one_cache = add_leaf one_config (\<lambda>_. 1) 0 one_key [1, 2, 3] 0 (cache_init (\<lambda>_. 0))"

lemmas one_defs = one_cache_def add_leaf_def Let_def alloc_node_def cache_init_def cache_reset_def upd_node_def
  new_tree_node_def one_key_def one_config_def get_child_key_def key_len_def

lemma one_cache_ok: "rc_ok one_config {0, 1} one_cache"
proof -
  have t: "tree_ok one_config {0, 1} one_cache"
    by (simp add: tree_ok_def node_ok_def child_ok_def one_defs)
  have h: "lock_ref (heap one_cache 0) = 1" "lock_ref (heap one_cache 1) = 0"
    "root_node one_cache = 0" "key_len (rkey (heap one_cache 1)) = 3"
    "evictable_size one_cache = 3" "protected_size one_cache = 0" "rchildren (heap one_cache 1) = []"
    by (simp_all add: one_defs)
  have l: "leaf_status one_cache 1" "\<not> leaf_status one_cache 0"
    using leaf_status_tree [OF t] h by simp_all
  have e: "evictable_leaves one_cache = [1]"
    by (simp add: one_defs update_leaf_status_def evicted_def)
  have S: "{0, 1} - {0} = {1 :: nat}" by auto
  have "acct_ok {0, 1} one_cache"
    unfolding acct_ok_def h S e using h l by (auto simp: ev_len_def pr_len_def)
  then show ?thesis using t by (simp add: rc_ok_def)
qed

text \<open>
  C13: Eviction returns on every well-formed tree and keeps it well formed. It frees at least the
  number of tokens asked for unless nothing evictable is left; the reported number is exactly the
  number of KV indices given back to the allocator and taken off the evictable size; a locked node
  is never evicted.
\<close>

theorem evict_correct:
  assumes "rc_ok cfg S c" and "\<not> disable cfg"
  shows "\<exists>c' n S'. evict cfg prio num c = ret (c', n) \<and> S' \<subseteq> S \<and> rc_ok cfg S' c'
    \<and> (num \<le> n \<or> evictable_leaves c' = [])
    \<and> int (length (freed c')) = int (length (freed c)) + n
    \<and> evictable_size c' = evictable_size c - n
    \<and> (\<forall>m \<in> S. 0 < lock_ref (heap c m) \<longrightarrow> m \<in> S')"
proof -
  obtain c' n S' where r: "evict cfg prio num c = ret (c', n)" "evict_result cfg num S c 0 S' c' n"
    using evict_ok [OF assms] by blast
  have "evictable_leaves c' = []" if "\<forall>m \<in> S'. \<not> leaf_status c' m"
  proof -
    have "rc_ok cfg S' c'" using r(2) by (simp add: evict_result_def)
    then have "m \<notin> set (evictable_leaves c')" for m using that by (simp add: rc_ok_def acct_ok_def)
    then show ?thesis by (metis list.set_intros(1) neq_Nil_conv)
  qed
  note L = this
  note R = r(2) [unfolded evict_result_def]
  have "num \<le> n \<or> evictable_leaves c' = []" using R L by blast
  moreover have "int (length (freed c')) = int (length (freed c)) + n" using R by simp
  moreover have "evictable_size c' = evictable_size c - n" using R by simp
  ultimately show ?thesis using r(1) R by blast
qed

theorem evict_correct_witness:
  "\<exists>c' n. evict one_config (get_priority (\<lambda>_. 0) (\<lambda>_ _. 0) 0 LRU) 2 one_cache = ret (c', n)
     \<and> (2 \<le> n \<or> evictable_leaves c' = [])"
proof -
  have "\<not> disable one_config" by (simp add: one_config_def)
  from evict_correct [OF one_cache_ok this] show ?thesis by blast
qed

text \<open>
  C14: The hard partition of the queue-aware policy: when an eviction had to take a node that a
  waiting request references, then no unreferenced evictable node is left in the tree. The
  reference counts are assumed to grow towards the root, which every reference walk preserves (\<open>inc_queue_ref_monotone\<close>).
\<close>

theorem queue_aware_partition:
  assumes "rc_ok cfg S c" and "\<not> disable cfg" and "refs_ok S c"
  shows "\<exists>c' n S'. evict cfg (get_priority log1p pow_of now QUEUE_AWARE) num c = ret (c', n) \<and> rc_ok cfg S' c'
    \<and> ((\<exists>m \<in> S - S'. 0 < queue_ref_count (heap c m)) \<longrightarrow>
        (\<forall>m \<in> set (evictable_leaves c'). 0 < queue_ref_count (heap c' m)))"
proof -
  let ?prio = "get_priority log1p pow_of now QUEUE_AWARE"
  let ?hp = "map (\<lambda>n. (?prio (heap c n), n)) (evictable_leaves c)"
  obtain c' n S' where r: "evict cfg ?prio num c = ret (c', n)" "evict_result cfg num S c 0 S' c' n"
    "partition_kept ?prio S c ?hp S' c'"
    using evict_ok [OF assms(1,2)] by blast
  have "leads_with_ref ?prio"
    by (auto simp: leads_with_ref_def get_priority_def queue_aware_eviction_priority_def Let_def)
  moreover have "entries_ok ?prio c ?hp" by (auto simp: entries_ok_def)
  ultimately have k: "(\<exists>m \<in> S - S'. 0 < queue_ref_count (heap c m)) \<longrightarrow> all_referenced S' c'"
    using r(3) assms(3) unfolding partition_kept_def by blast
  have ok: "rc_ok cfg S' c'" using r(2) by (simp add: evict_result_def)
  then have "all_referenced S' c' \<longrightarrow> (\<forall>m \<in> set (evictable_leaves c'). 0 < queue_ref_count (heap c' m))"
    by (simp add: all_referenced_def rc_ok_def acct_ok_def)
  then show ?thesis using r(1) ok k by blast
qed

theorem queue_aware_partition_witness:
  "\<exists>c' n. evict one_config (get_priority (\<lambda>_. 0) (\<lambda>_ _. 0) 0 QUEUE_AWARE) 1 one_cache = ret (c', n)"
proof -
  have "refs_ok {0, 1} one_cache" by (simp add: refs_ok_def one_defs)
  moreover have "\<not> disable one_config" by (simp add: one_config_def)
  ultimately show ?thesis using queue_aware_partition [OF one_cache_ok] by blast
qed

lemma up_path_parent:
  "up_path c n ns \<Longrightarrow> m \<in> set ns \<Longrightarrow> rparent (heap c m) = Some p \<Longrightarrow> p \<noteq> root_node c \<Longrightarrow> p \<in> set ns"
proof (induction ns arbitrary: n)
  case (Cons a ns)
  then obtain q where q: "a = n" "rparent (heap c n) = Some q" "up_path c q ns" by (auto split: option.splits)
  show ?case
  proof (cases "m = n")
    case True
    then have "p = q" using Cons.prems(3) q(2) by simp
    then show ?thesis using q(3) Cons.prems(4) by (cases ns) auto
  next
    case False
    then show ?thesis using Cons q by auto
  qed
qed simp

text \<open>
  The premise of the partition is an invariant: a reference walk keeps the counts growing
  towards the root.
\<close>

lemma inc_queue_ref_monotone:
  assumes "rc_ok cfg S c" and "refs_ok S c" and "n \<in> S" and "inc_queue_ref n c = ret c'"
  shows "refs_ok S c'"
proof -
  have t: "tree_ok cfg S c" using assms(1) by (simp add: rc_ok_def)
  obtain ns where ns: "up_path c n ns" using infinite_descent_depth [OF t assms(3)] by blast
  note w = assms(4) [unfolded inc_queue_ref_eq]
  have e: "c' = fold (\<lambda>n. upd_node n (upd_queue (\<lambda>i. i + 1))) ns c"
    using qref.walk [OF ns] w by (simp add: ret_def)
  have h: "heap c' m = (if m \<in> set ns then upd_queue (\<lambda>i. i + 1) (heap c m) else heap c m)" for m
    unfolding e by (rule qref.heap_fold [OF up_path_distinct [OF ns]])
  have par: "rparent (heap c' m) = rparent (heap c m)" for m by (simp add: h upd_queue_def)
  have rt: "root_node c' = root_node c" unfolding e by (rule qref.fold_fields)
  have "queue_ref_count (heap c' m) \<le> queue_ref_count (heap c' p)"
    if "m \<in> S" "rparent (heap c m) = Some p" "p \<noteq> root_node c" for m p
  proof -
    have "queue_ref_count (heap c m) \<le> queue_ref_count (heap c p)" using assms(2) that by (simp add: refs_ok_def)
    moreover have "m \<in> set ns \<Longrightarrow> p \<in> set ns" using up_path_parent [OF ns _ that(2,3)] .
    ultimately show ?thesis by (auto simp: h upd_queue_def)
  qed
  then show ?thesis by (simp add: refs_ok_def par rt)
qed


end
