(* ===== verification/Sg_Matching.thy ===== *)
theory Sg_Matching
  imports Radix_Props
begin

text \<open>
  What the SGLang-side schedulers of \<open>src/python/peek/offline/scheduler.py\<close> and \<open>engine.py\<close> share:
  the request attributes they read and write, the prefix key requests are grouped by, matching one
  representative per group, resetting the previous cycle's protection and protecting the nodes of
  the best groups. SGLang's request class is not part of the repository: a request is the record of
  the attributes the code touches.
\<close>

section \<open>Requests\<close>

text \<open>\<open>None\<close> means that the attribute is missing (the default of the \<open>getattr\<close> calls).\<close>

record sg_req =
  sg_rid :: "string option"
  origin_input_ids :: "int list option"
  output_ids :: "int list"
  sg_extra_key :: "string option"
  prefix_indices :: "int list option"
  last_node :: "nat option"
  last_host :: "nat option"
  host_hit_length :: int
  peek_matched :: bool
  wait_entry :: "pyfloat option"
  sg_priority :: int
  max_new_tokens :: int
  routing_key :: "string option"

definition ids_of :: "sg_req \<Rightarrow> int list" where
  "ids_of r = (case origin_input_ids r of None \<Rightarrow> [] | Some ids \<Rightarrow> ids)"

definition indices_of :: "sg_req \<Rightarrow> int list" where
  "indices_of r = (case prefix_indices r of None \<Rightarrow> [] | Some p \<Rightarrow> p)"

text \<open>
  \<open>tuple(ids[:k])\<close> when there are at least \<open>k\<close> tokens, else \<open>tuple(ids)\<close>, else \<open>()\<close>: in every
  case the first \<open>k\<close> tokens.
\<close>

definition prefix_key :: "nat \<Rightarrow> sg_req \<Rightarrow> int list" where
  "prefix_key k r =
     (case origin_input_ids r of
        None \<Rightarrow> []
      | Some ids \<Rightarrow> if k \<le> length ids then take k ids else if 0 < length ids then ids else [])"

lemma prefix_key_eq: "prefix_key k r = take k (ids_of r)"
  by (simp add: prefix_key_def ids_of_def split: option.split)

section \<open>Matching one representative of a group\<close>

text \<open>
  The configuration of the cache and the value \<open>host_hit_length\<close> has in a match result that does
  not set it (a default of SGLang's \<open>MatchResult\<close>).
\<close>

record sched_env =
  env_cfg :: rc_config
  default_hit :: int

definition set_match :: "sched_env \<Rightarrow> match_result \<Rightarrow> sg_req \<Rightarrow> sg_req" where
  "set_match env m r =
     r\<lparr>prefix_indices := Some (device_indices m), last_node := Some (last_device_node m),
       last_host := Some (last_host_node m), host_hit_length := default_hit env, peek_matched := True\<rparr>"

text \<open>
  \<open>members[0]\<close> is matched, the result is copied to every member. The representative's tokens are
  read as an attribute, which raises when it is missing.
\<close>

definition match_group ::
  "bool \<Rightarrow> sched_env \<Rightarrow> (nat \<Rightarrow> pyfloat) \<Rightarrow> sg_req list \<Rightarrow> radix_cache \<Rightarrow>
     (radix_cache \<times> sg_req list \<times> match_result) run"
where
  "match_group lru env tm members c =
     (case members of
        [] \<Rightarrow> Some (Inl IndexError)
      | rep # _ \<Rightarrow>
          (case origin_input_ids rep of
             None \<Rightarrow> Some (Inl AttributeError)
           | Some ids \<Rightarrow>
               obind (match_with lru (env_cfg env) tm
                        \<lparr>token_ids = ids @ output_ids rep, extra_key = sg_extra_key rep, is_bigram = False\<rparr> c)
                 (\<lambda>(c', m). ret (c', map (set_match env m) members, m))))"

text \<open>How stale the matched prefix is: \<open>max(0.0, now - last_access)\<close>, 0 when nothing is cached.\<close>

definition eviction_risk :: "pyfloat \<Rightarrow> radix_cache \<Rightarrow> match_result \<Rightarrow> pyfloat" where
  "eviction_risk now c m =
     (if 0 < length (device_indices m)
      then max 0 (fsub now (last_access_time (heap c (last_device_node m)))) else 0)"

text \<open>
  The statistics of one group: its key, its matched members, how many tokens are cached and the
  risk. The clock readings of the \<open>g\<close>-th group are \<open>tm g\<close> (matching) and \<open>now g\<close> (risk).
\<close>

record 'k group_stat =
  gs_key :: 'k
  gs_members :: "sg_req list"
  gs_cached :: int
  gs_node :: nat
  gs_risk :: pyfloat

fun match_groups ::
  "bool \<Rightarrow> sched_env \<Rightarrow> (nat \<Rightarrow> nat \<Rightarrow> pyfloat) \<Rightarrow> (nat \<Rightarrow> pyfloat) \<Rightarrow> nat \<Rightarrow> ('k \<times> sg_req list) list \<Rightarrow>
     radix_cache \<Rightarrow> (radix_cache \<times> 'k group_stat list) run"
where
  "match_groups lru env tm now g [] c = ret (c, [])"
| "match_groups lru env tm now g ((k, members) # rest) c =
     obind (match_group lru env (tm g) members c) (\<lambda>(c1, members', m).
       obind (match_groups lru env tm now (g + 1) rest c1) (\<lambda>(c2, stats).
         ret (c2, \<lparr>gs_key = k, gs_members = members', gs_cached = int (length (device_indices m)),
                   gs_node = last_device_node m, gs_risk = eviction_risk (now g) c1 m\<rparr> # stats)))"

section \<open>Protection\<close>

text \<open>
  Targeted reset of the previous cycle: walk up from every protected node and clear its counter; a
  missing parent ends the walk. Without a record of the previous cycle the whole tree is reset.
\<close>

fun reset_walks :: "nat list \<Rightarrow> radix_cache \<Rightarrow> radix_cache run" where
  "reset_walks [] c = ret c"
| "reset_walks (n # ns) c = obind (up_loop None id clear_queue_ref (Some n) c) (reset_walks ns)"

definition reset_protection :: "nat list option \<Rightarrow> radix_cache \<Rightarrow> radix_cache run" where
  "reset_protection prev c =
     (case prev of
        Some ns \<Rightarrow> reset_walks ns c
      | None \<Rightarrow> (case reset_all_queue_refs c of None \<Rightarrow> None | Some c' \<Rightarrow> ret c'))"

fun protect_nodes :: "nat list \<Rightarrow> radix_cache \<Rightarrow> radix_cache run" where
  "protect_nodes [] c = ret c"
| "protect_nodes (n # ns) c = obind (inc_queue_ref n c) (protect_nodes ns)"

text \<open>
  How many groups fit in three quarters of the cache: \<open>total / max(1, avg prefix length)\<close>
  truncated, times 3 // 4, at least one, at most all of them.
\<close>

definition capacity_groups :: "int \<Rightarrow> int list \<Rightarrow> int" where
  "capacity_groups total_cached prefix_lens =
     (let n = int (length prefix_lens) in
      if 0 < n \<and> 0 < total_cached
      then py_trunc (fdiv (of_pyint total_cached) (max 1 (int_div (sum_list prefix_lens) n)))
      else n)"

definition protect_k :: "int \<Rightarrow> int list \<Rightarrow> nat" where
  "protect_k total_cached prefix_lens =
     nat (min (int (length prefix_lens)) (max 1 (capacity_groups total_cached prefix_lens * 3 div 4)))"

section \<open>Counters do not matter for the tree\<close>

definition counts_changed :: "radix_cache \<Rightarrow> radix_cache \<Rightarrow> bool" where
  "counts_changed c c' \<longleftrightarrow> root_node c' = root_node c \<and> counter c' = counter c \<and> freed c' = freed c
     \<and> evictable_size c' = evictable_size c \<and> protected_size c' = protected_size c
     \<and> evictable_leaves c' = evictable_leaves c
     \<and> (\<forall>n. \<exists>i. heap c' n = upd_queue (\<lambda>_. i) (heap c n))"

lemma counts_changed_refl: "counts_changed c c"
proof -
  have "heap c n = upd_queue (\<lambda>_. queue_ref_count (heap c n)) (heap c n)" for n by (simp add: upd_queue_def)
  then show ?thesis unfolding counts_changed_def by blast
qed

lemma counts_changed_trans:
  assumes "counts_changed c c'" and "counts_changed c' c''"
  shows "counts_changed c c''"
proof -
  have "\<exists>i. heap c'' n = upd_queue (\<lambda>_. i) (heap c n)" for n
  proof -
    obtain i j where "heap c' n = upd_queue (\<lambda>_. i) (heap c n)" "heap c'' n = upd_queue (\<lambda>_. j) (heap c' n)"
      using assms unfolding counts_changed_def by blast
    then have "heap c'' n = upd_queue (\<lambda>_. j) (heap c n)" by (simp add: upd_queue_def)
    then show ?thesis by blast
  qed
  then show ?thesis using assms by (simp add: counts_changed_def)
qed

lemma counts_changed_fields:
  assumes "counts_changed c c'"
  shows "rchildren (heap c' n) = rchildren (heap c n)" "rparent (heap c' n) = rparent (heap c n)"
    "rkey (heap c' n) = rkey (heap c n)" "rvalue (heap c' n) = rvalue (heap c n)"
    "rdepth (heap c' n) = rdepth (heap c n)" "lock_ref (heap c' n) = lock_ref (heap c n)"
    "last_access_time (heap c' n) = last_access_time (heap c n)"
    "root_node c' = root_node c" "counter c' = counter c"
proof -
  obtain i where "heap c' n = upd_queue (\<lambda>_. i) (heap c n)" using assms unfolding counts_changed_def by blast
  then show "rchildren (heap c' n) = rchildren (heap c n)" "rparent (heap c' n) = rparent (heap c n)"
    "rkey (heap c' n) = rkey (heap c n)" "rvalue (heap c' n) = rvalue (heap c n)"
    "rdepth (heap c' n) = rdepth (heap c n)" "lock_ref (heap c' n) = lock_ref (heap c n)"
    "last_access_time (heap c' n) = last_access_time (heap c n)"
    by (simp_all add: upd_queue_def)
qed (use assms in \<open>simp_all add: counts_changed_def\<close>)

lemma rc_ok_counts:
  assumes "counts_changed c c'"
  shows "rc_ok cfg S c' = rc_ok cfg S c"
proof -
  note f = counts_changed_fields [OF assms]
  have "ev_len (heap c' n) = ev_len (heap c n)" "pr_len (heap c' n) = pr_len (heap c n)"
    "leaf_status c' n = leaf_status c n" for n
    by (simp_all add: ev_len_def pr_len_def leaf_status_def evicted_def f)
  then have "acct_ok S c' = acct_ok S c" using assms by (simp add: acct_ok_def counts_changed_def f)
  moreover have "tree_ok cfg S c' = tree_ok cfg S c"
    unfolding tree_ok_def node_ok_def child_ok_def f by (rule refl)
  ultimately show ?thesis by (simp add: rc_ok_def)
qed

lemma keeps_counts:
  assumes "counts_changed c c'"
  shows "keeps S c c'"
proof -
  note f = counts_changed_fields [OF assms]
  have "reaches c n ts vs \<Longrightarrow> reaches c' n ts vs" for n ts vs
  proof (induction rule: reaches.induct)
    case reaches_root
    then show ?case using reaches.reaches_root [of c'] by (simp add: f)
  next
    case (reaches_step n p ts vs)
    then show ?case using reaches.reaches_step [of n c' p ts vs] by (simp add: f node_values_def)
  qed
  then show ?thesis by (simp add: keeps_def)
qed

lemma up_path_counts: "counts_changed c c' \<Longrightarrow> up_path c' n ns = up_path c n ns"
  by (rule up_path_same_shape) (simp add: same_shape_def counts_changed_fields)

text \<open>A walk that only changes counters, as both kinds of walk do.\<close>

lemma count_walk:
  assumes "up_path c n ns"
  shows "\<exists>c'. up_loop e id (\<lambda>n. upd_node n (upd_queue f)) (Some n) c = ret c' \<and> counts_changed c c'
    \<and> (\<forall>m. queue_ref_count (heap c' m) = (if m \<in> set ns then f (queue_ref_count (heap c m)) else queue_ref_count (heap c m)))"
proof -
  let ?c = "fold (\<lambda>n. upd_node n (upd_queue f)) ns c"
  have w: "up_loop e id (\<lambda>n. upd_node n (upd_queue f)) (Some n) c = ret ?c" by (rule qref.walk [OF assms])
  have "\<exists>i. heap ?c m = upd_queue (\<lambda>_. i) (heap c m)" for m
    unfolding qref.heap_fold [OF up_path_distinct [OF assms]]
    by (cases "m \<in> set ns") (auto simp: upd_queue_def intro: exI [of _ "f (queue_ref_count (heap c m))"]
        exI [of _ "queue_ref_count (heap c m)"])
  then have "counts_changed c ?c" by (simp add: counts_changed_def qref.fold_fields)
  then show ?thesis using w qref.walk_count [OF assms w] by blast
qed

lemma protect_nodes_ok:
  "rc_ok cfg S c \<Longrightarrow> set ns \<subseteq> S \<Longrightarrow> \<exists>c'. protect_nodes ns c = ret c' \<and> counts_changed c c'
     \<and> (\<forall>m. queue_ref_count (heap c m) \<le> queue_ref_count (heap c' m))
     \<and> (\<forall>n \<in> set ns. n \<noteq> root_node c \<longrightarrow> queue_ref_count (heap c n) < queue_ref_count (heap c' n))"
proof (induction ns arbitrary: c)
  case Nil
  then show ?case by (auto simp: counts_changed_refl)
next
  case (Cons n ns)
  have "tree_ok cfg S c" using Cons.prems(1) by (simp add: rc_ok_def)
  then obtain ms where ms: "up_path c n ms" using infinite_descent_depth Cons.prems(2) by (metis list.set_intros(1) subsetD)
  from count_walk [OF this, of "Some AttributeError" "\<lambda>i. i + 1"] obtain c1 where
    c1: "inc_queue_ref n c = ret c1" "counts_changed c c1"
    "\<And>m. queue_ref_count (heap c1 m) = (if m \<in> set ms then queue_ref_count (heap c m) + 1 else queue_ref_count (heap c m))"
    unfolding inc_queue_ref_eq by blast
  have "rc_ok cfg S c1" using Cons.prems(1) by (simp add: rc_ok_counts [OF c1(2)])
  from Cons.IH [OF this] Cons.prems(2) obtain c' where
    c': "protect_nodes ns c1 = ret c'" "counts_changed c1 c'"
    "\<And>m. queue_ref_count (heap c1 m) \<le> queue_ref_count (heap c' m)"
    "\<And>n. n \<in> set ns \<Longrightarrow> n \<noteq> root_node c1 \<Longrightarrow> queue_ref_count (heap c1 n) < queue_ref_count (heap c' n)"
    by auto
  have mono: "queue_ref_count (heap c m) \<le> queue_ref_count (heap c1 m)" for m by (simp add: c1(3))
  have rt: "root_node c1 = root_node c" using c1(2) by (simp add: counts_changed_def)
  have "protect_nodes (n # ns) c = ret c'" by (simp add: c1(1) c'(1))
  moreover have "queue_ref_count (heap c m) \<le> queue_ref_count (heap c' m)" for m using mono c'(3) order_trans by blast
  moreover have "queue_ref_count (heap c m) < queue_ref_count (heap c' m)" if "m \<in> set (n # ns)" "m \<noteq> root_node c" for m
  proof (cases "m = n")
    case True
    then have "queue_ref_count (heap c1 m) = queue_ref_count (heap c m) + 1"
      using up_path_self [OF ms] that(2) by (simp add: c1(3))
    then show ?thesis using c'(3) [of m] by linarith
  next
    case False
    then show ?thesis using that c'(4) [of m] mono [of m] rt by auto
  qed
  ultimately show ?case using counts_changed_trans [OF c1(2) c'(2)] by blast
qed

lemma reset_walks_ok:
  "(\<forall>n \<in> set ns. \<exists>ms. up_path c n ms) \<Longrightarrow> \<exists>c'. reset_walks ns c = ret c' \<and> counts_changed c c'
     \<and> (\<forall>m. queue_ref_count (heap c' m) = 0 \<or> queue_ref_count (heap c' m) = queue_ref_count (heap c m))
     \<and> (\<forall>n \<in> set ns. \<forall>ms. up_path c n ms \<longrightarrow> (\<forall>m \<in> set ms. queue_ref_count (heap c' m) = 0))"
proof (induction ns arbitrary: c)
  case Nil
  then show ?case by (auto simp: counts_changed_refl)
next
  case (Cons n ns)
  then obtain ms where ms: "up_path c n ms" by auto
  have cq: "clear_queue_ref = (\<lambda>n. upd_node n (upd_queue (\<lambda>_. 0)))"
    by (intro ext) (simp add: clear_queue_ref_def upd_queue_def [abs_def])
  from count_walk [OF ms, of None "\<lambda>_. 0"] obtain c1 where
    c1: "up_loop None id clear_queue_ref (Some n) c = ret c1" "counts_changed c c1"
    "\<And>m. queue_ref_count (heap c1 m) = (if m \<in> set ms then 0 else queue_ref_count (heap c m))"
    unfolding cq by blast
  have "\<forall>n \<in> set ns. \<exists>ms. up_path c1 n ms" using Cons.prems by (simp add: up_path_counts [OF c1(2)])
  from Cons.IH [OF this] obtain c' where c': "reset_walks ns c1 = ret c'" "counts_changed c1 c'"
    "\<And>m. queue_ref_count (heap c' m) = 0 \<or> queue_ref_count (heap c' m) = queue_ref_count (heap c1 m)"
    "\<And>n ms m. n \<in> set ns \<Longrightarrow> up_path c n ms \<Longrightarrow> m \<in> set ms \<Longrightarrow> queue_ref_count (heap c' m) = 0"
    by (auto simp: up_path_counts [OF c1(2)])
  have "queue_ref_count (heap c' m) = 0 \<or> queue_ref_count (heap c' m) = queue_ref_count (heap c m)" for m
    using c'(3) [of m] c1(3) [of m] by (auto split: if_splits)
  moreover have "queue_ref_count (heap c' m) = 0" if "k \<in> set (n # ns)" "up_path c k ks" "m \<in> set ks" for k ks m
  proof (cases "k = n")
    case True
    then have "ks = ms" using that(2) ms up_path_unique by blast
    then show ?thesis using c'(3) [of m] c1(3) [of m] that(3) by auto
  next
    case False
    then show ?thesis using that c'(4) by auto
  qed
  moreover have "reset_walks (n # ns) c = ret c'" by (simp add: c1(1) c'(1))
  ultimately show ?case using counts_changed_trans [OF c1(2) c'(2)] by blast
qed

section \<open>What matching the groups establishes\<close>

text \<open>A request without its match result.\<close>

definition bare :: "sg_req \<Rightarrow> sg_req" where
  "bare r = r\<lparr>prefix_indices := None, last_node := None, last_host := None, host_hit_length := 0,
              peek_matched := False\<rparr>"

lemma bare_set_match [simp]: "bare (set_match env m r) = bare r"
  by (simp add: bare_def set_match_def)

lemma bare_fields [simp]: "sg_rid (bare r) = sg_rid r" "origin_input_ids (bare r) = origin_input_ids r"
  "ids_of (bare r) = ids_of r" "output_ids (bare r) = output_ids r"
  by (simp_all add: bare_def ids_of_def)

lemma ids_of_bare_eq: "bare r = bare r' \<Longrightarrow> ids_of r = ids_of r' \<and> sg_rid r = sg_rid r'"
  by (metis bare_fields)

text \<open>
  Every member of the group is marked as matched, points to the group's node and carries the
  indices stored along the path to that node, which spells a prefix of the representative's tokens.
\<close>

definition stat_ok :: "nat set \<Rightarrow> radix_cache \<Rightarrow> 'k group_stat \<Rightarrow> bool" where
  "stat_ok S c st \<longleftrightarrow> gs_members st \<noteq> [] \<and> gs_node st \<in> S
     \<and> (\<exists>ts vs rest. reaches c (gs_node st) ts vs \<and> int (length vs) = gs_cached st
          \<and> ids_of (hd (gs_members st)) @ output_ids (hd (gs_members st)) = ts @ rest
          \<and> (\<forall>r \<in> set (gs_members st). peek_matched r \<and> last_node r = Some (gs_node st) \<and> prefix_indices r = Some vs))"

lemma stat_ok_keeps: "stat_ok S c st \<Longrightarrow> S \<subseteq> S' \<Longrightarrow> keeps S c c' \<Longrightarrow> stat_ok S' c' st"
  unfolding stat_ok_def keeps_def by blast

lemma match_group_ok:
  assumes pg: "0 < page_size (env_cfg env)" and bg: "bigram (env_cfg env) = None" and ok: "rc_ok (env_cfg env) S c"
    and ms: "members \<noteq> []" "origin_input_ids (hd members) \<noteq> None"
  shows "\<exists>c' S' m. match_group lru env tm members c = ret (c', map (set_match env m) members, m)
    \<and> S \<subseteq> S' \<and> rc_ok (env_cfg env) S' c' \<and> keeps S c c' \<and> root_node c' = root_node c
    \<and> (\<forall>st :: 'k group_stat. gs_members st = map (set_match env m) members \<longrightarrow>
         gs_cached st = int (length (device_indices m)) \<longrightarrow> gs_node st = last_device_node m \<longrightarrow> stat_ok S' c' st)"
proof -
  obtain rep rest where m: "members = rep # rest" using ms(1) by (cases members) auto
  obtain ids where ids: "origin_input_ids rep = Some ids" using ms(2) m by auto
  let ?key = "\<lparr>token_ids = ids @ output_ids rep, extra_key = sg_extra_key rep, is_bigram = False\<rparr>"
  obtain c' S' r ts' rs where r: "match_with lru (env_cfg env) tm ?key c = ret (c', r)" "S \<subseteq> S'"
    "rc_ok (env_cfg env) S' c'" "keeps S c c'" "root_node c' = root_node c" "last_device_node r \<in> S'"
    "reaches c' (last_device_node r) ts' (device_indices r)" "token_ids (maybe_bigram_convert (env_cfg env) ?key) = ts' @ rs"
    using match_with_ok [OF pg ok, of lru tm ?key] by blast
  have g: "match_group lru env tm members c = ret (c', map (set_match env r) members, r)"
    using r(1) ids by (simp add: match_group_def m)
  have t: "ids @ output_ids rep = ts' @ rs" using r(8) by (simp add: maybe_bigram_convert_def bg)
  have "stat_ok S' c' st" if "gs_members st = map (set_match env r) members"
    "gs_cached st = int (length (device_indices r))" "gs_node st = last_device_node r" for st :: "'k group_stat"
  proof -
    have "ids_of (hd (gs_members st)) @ output_ids (hd (gs_members st)) = ts' @ rs"
      using t ids by (simp add: that(1) m set_match_def ids_of_def)
    moreover have "\<forall>q \<in> set (gs_members st). peek_matched q \<and> last_node q = Some (gs_node st) \<and> prefix_indices q = Some (device_indices r)"
      by (auto simp: that set_match_def)
    ultimately show ?thesis unfolding stat_ok_def using that r(6,7) ms(1) by (metis list.map_disc_iff)
  qed
  then show ?thesis using g r by blast
qed

lemma match_groups_ok:
  assumes pg: "0 < page_size (env_cfg env)" and bg: "bigram (env_cfg env) = None"
  shows "rc_ok (env_cfg env) S c \<Longrightarrow> (\<forall>(k, ms) \<in> set groups. ms \<noteq> [] \<and> origin_input_ids (hd ms) \<noteq> None) \<Longrightarrow>
    \<exists>c' S' stats. match_groups lru env tm now g groups c = ret (c', stats) \<and> S \<subseteq> S'
      \<and> rc_ok (env_cfg env) S' c' \<and> keeps S c c' \<and> root_node c' = root_node c
      \<and> map gs_key stats = map fst groups
      \<and> map (\<lambda>st. map bare (gs_members st)) stats = map (\<lambda>x. map bare (snd x)) groups
      \<and> (\<forall>st \<in> set stats. stat_ok S' c' st)"
proof (induction groups arbitrary: g c S)
  case Nil
  then show ?case by (auto simp: keeps_def)
next
  case (Cons x groups)
  obtain k ms where x: "x = (k, ms)" by (cases x)
  have ms: "ms \<noteq> []" "origin_input_ids (hd ms) \<noteq> None" using Cons.prems(2) by (auto simp: x)
  from match_group_ok [OF pg bg Cons.prems(1) ms, of lru "tm g"] obtain c1 S1 m where
    m: "match_group lru env (tm g) ms c = ret (c1, map (set_match env m) ms, m)" "S \<subseteq> S1" "rc_ok (env_cfg env) S1 c1"
      "keeps S c c1" "root_node c1 = root_node c"
      "\<And>st :: 'a group_stat. gs_members st = map (set_match env m) ms \<Longrightarrow>
         gs_cached st = int (length (device_indices m)) \<Longrightarrow> gs_node st = last_device_node m \<Longrightarrow> stat_ok S1 c1 st"
    by blast
  have "\<forall>(k, ms) \<in> set groups. ms \<noteq> [] \<and> origin_input_ids (hd ms) \<noteq> None" using Cons.prems(2) by simp
  from Cons.IH [OF m(3) this, of "Suc g"] obtain c' S' stats where
    R: "match_groups lru env tm now (Suc g) groups c1 = ret (c', stats)" "S1 \<subseteq> S'" "rc_ok (env_cfg env) S' c'"
      "keeps S1 c1 c'" "root_node c' = root_node c1" "map gs_key stats = map fst groups"
      "map (\<lambda>st. map bare (gs_members st)) stats = map (\<lambda>x. map bare (snd x)) groups"
      "\<forall>st \<in> set stats. stat_ok S' c' st" by blast
  let ?st = "\<lparr>gs_key = k, gs_members = map (set_match env m) ms, gs_cached = int (length (device_indices m)),
      gs_node = last_device_node m, gs_risk = eviction_risk (now g) c1 m\<rparr>"
  have "match_groups lru env tm now g (x # groups) c = ret (c', ?st # stats)"
    by (simp add: x m(1) R(1))
  moreover have "stat_ok S' c' ?st" by (rule stat_ok_keeps [OF m(6) R(2,4)]) simp_all
  moreover have "keeps S c c'" by (rule keeps_trans [OF m(4) R(4) m(2)])
  moreover have "S \<subseteq> S'" using m(2) R(2) by blast
  moreover have "map gs_key (?st # stats) = map fst (x # groups)" using R(6) by (simp add: x)
  moreover have "map (\<lambda>st. map bare (gs_members st)) (?st # stats) = map (\<lambda>x. map bare (snd x)) (x # groups)"
    using R(7) by (simp add: x)
  moreover have "\<forall>st \<in> set (?st # stats). stat_ok S' c' st" using R(8) calculation(2) by simp
  moreover have "root_node c' = root_node c" using R(5) m(5) by simp
  ultimately show ?case using R(3) by blast
qed

lemma mset_stats_bare:
  assumes "map (\<lambda>st. map bare (gs_members st)) stats = map (\<lambda>x. map bare (snd x)) groups"
  shows "mset (map bare (concat (map gs_members stats))) = mset (map bare (concat (map snd groups)))"
proof -
  have "map bare (concat (map gs_members stats)) = concat (map (\<lambda>st. map bare (gs_members st)) stats)"
    by (simp add: map_concat comp_def)
  also have "\<dots> = map bare (concat (map snd groups))" unfolding assms by (simp add: map_concat comp_def)
  finally show ?thesis by simp
qed

section \<open>Whole-tree traversals\<close>

text \<open>Depths are bounded on a finite tree, and grow from a node to its children.\<close>

definition max_rdepth :: "nat set \<Rightarrow> radix_cache \<Rightarrow> int" where
  "max_rdepth S c = Max ((\<lambda>m. rdepth (heap c m)) ` S)"

lemma rdepth_le_max: "tree_ok cfg S c \<Longrightarrow> n \<in> S \<Longrightarrow> rdepth (heap c n) \<le> max_rdepth S c"
  unfolding max_rdepth_def by (intro Max_ge) (auto simp: tree_ok_def)

lemma child_value:
  assumes t: "tree_ok cfg S c" and n: "n \<in> S" and ch: "ch \<in> set (dvals (rchildren (heap c n)))"
  shows "ch \<in> S" and "rparent (heap c ch) = Some n" and "ch \<noteq> root_node c" and "rdepth (heap c n) < rdepth (heap c ch)"
proof -
  obtain k where k: "(k, ch) \<in> set (rchildren (heap c n))" using ch by auto
  have "wf_dict (rchildren (heap c n))" using t n unfolding tree_ok_def child_ok_def by blast
  then have "dget (rchildren (heap c n)) k = Some ch" using k by (simp add: dget_Some_iff_mem)
  note f = tree_ok_childD [OF t n this]
  show "ch \<in> S" "rparent (heap c ch) = Some n" "ch \<noteq> root_node c" by (rule f)+
  show "rdepth (heap c n) < rdepth (heap c ch)" by (rule depth_less_parent [OF t f(1,2,3)])
qed

lemma total_size_loop_ok:
  assumes t: "tree_ok cfg S c"
  shows "n \<in> S \<Longrightarrow> \<exists>acc'. total_size_loop (n # stack) acc c = total_size_loop stack acc' c"
proof (induction "nat (max_rdepth S c - rdepth (heap c n))" arbitrary: n stack acc rule: less_induct)
  case less
  have list: "\<exists>acc'. total_size_loop (xs @ stack) acc c = total_size_loop stack acc' c"
    if "set xs \<subseteq> set (dvals (rchildren (heap c n)))" for xs acc
    using that
  proof (induction xs arbitrary: acc)
    case (Cons x xs)
    have "x \<in> set (dvals (rchildren (heap c n)))" using Cons.prems by simp
    note f = child_value [OF t less.prems this]
    have "nat (max_rdepth S c - rdepth (heap c x)) < nat (max_rdepth S c - rdepth (heap c n))"
      using f(4) rdepth_le_max [OF t f(1)] by linarith
    from less.hyps [OF this f(1)] obtain acc1 where
      "total_size_loop (x # xs @ stack) acc c = total_size_loop (xs @ stack) acc1 c" by blast
    moreover obtain acc2 where "total_size_loop (xs @ stack) acc1 c = total_size_loop stack acc2 c"
      using Cons.IH Cons.prems by auto
    ultimately show ?case by auto
  qed auto
  show ?case
    by (subst total_size_loop.simps) (auto intro!: list)
qed

lemma total_size_ok:
  assumes "rc_ok cfg S c"
  shows "\<exists>n. total_size c = Some n"
proof -
  have "tree_ok cfg S c" "root_node c \<in> S" using assms by (simp_all add: rc_ok_def tree_ok_def)
  from total_size_loop_ok [OF this, of "[]" 0] show ?thesis
    by (auto simp: total_size_def total_size_loop.simps [of "[]"])
qed

text \<open>A node below \<open>n\<close>: \<open>n\<close> lies on its path, or is the root.\<close>

definition under :: "radix_cache \<Rightarrow> nat \<Rightarrow> nat \<Rightarrow> bool" where
  "under c n m \<longleftrightarrow> n = root_node c \<or> (\<exists>ns. up_path c m ns \<and> n \<in> set ns)"

lemma under_child:
  assumes t: "tree_ok cfg S c" and m: "m \<in> S" and u: "under c n m" and ne: "m \<noteq> n"
  shows "\<exists>ch \<in> set (dvals (rchildren (heap c n))). under c ch m"
proof -
  obtain ns where ns: "up_path c m ns" "set ns \<subseteq> S" using infinite_descent_depth [OF t m] by blast
  have *: "\<exists>ch. ch \<in> set ns \<and> rparent (heap c ch) = Some n"
  proof (cases "n = root_node c")
    case True
    then have "ns \<noteq> []" using ns(1) ne by (cases ns) auto
    have "rparent (heap c (last ks)) = Some (root_node c)" if "up_path c k ks" "ks \<noteq> []" for k ks
      using that
    proof (induction ks arbitrary: k)
      case (Cons a ks)
      then show ?case by (cases ks) (auto split: option.splits)
    qed simp
    then show ?thesis using ns(1) \<open>ns \<noteq> []\<close> True last_in_set by blast
  next
    case False
    then obtain ns' where "up_path c m ns'" "n \<in> set ns'" using u by (auto simp: under_def)
    then have nn: "n \<in> set ns" using ns(1) up_path_unique by blast
    have "\<exists>ch \<in> set ks. rparent (heap c ch) = Some n" if "up_path c k ks" "n \<in> set ks" "k \<noteq> n" for k ks
      using that
    proof (induction ks arbitrary: k)
      case (Cons a ks)
      then obtain p where p: "a = k" "rparent (heap c k) = Some p" "up_path c p ks" by (auto split: option.splits)
      then show ?case using Cons by (cases "p = n") auto
    qed simp
    then show ?thesis using ns(1) nn ne by blast
  qed
  then obtain ch where ch: "ch \<in> set ns" "rparent (heap c ch) = Some n" by blast
  have "ch \<in> S" "ch \<noteq> root_node c" using ch(1) ns up_path_no_root [OF ns(1)] by auto
  then have "dget (rchildren (heap c n)) (ckey cfg c ch) = Some ch"
    using tree_ok_nodeD [OF t] ch(2) by (metis option.inject)
  then have "ch \<in> set (dvals (rchildren (heap c n)))" by (metis map_of_SomeD in_set_zipE zip_map_fst_snd)
  then show ?thesis using ns(1) ch(1) by (auto simp: under_def)
qed

lemma reset_refs_loop_ok:
  "rc_ok cfg S c \<Longrightarrow> n \<in> S \<Longrightarrow> \<exists>c'. reset_refs_loop (n # stack) c = reset_refs_loop stack c' \<and> counts_changed c c'
     \<and> (\<forall>m. queue_ref_count (heap c' m) = 0 \<or> queue_ref_count (heap c' m) = queue_ref_count (heap c m))
     \<and> (\<forall>m \<in> S. under c n m \<longrightarrow> queue_ref_count (heap c' m) = 0)"
proof (induction "nat (max_rdepth S c - rdepth (heap c n))" arbitrary: n stack c rule: less_induct)
  case less
  let ?chs = "dvals (rchildren (heap c n))" and ?c1 = "clear_queue_ref n c"
  have h1: "heap ?c1 m = (if m = n then upd_queue (\<lambda>_. 0) (heap c n) else heap c m)" for m
    by (simp add: clear_queue_ref_def upd_node_def upd_queue_def)
  have cc1: "counts_changed c ?c1"
  proof -
    have "\<exists>i. heap ?c1 m = upd_queue (\<lambda>_. i) (heap c m)" for m
      by (cases "m = n") (auto simp: h1 upd_queue_def intro: exI [of _ "queue_ref_count (heap c m)"])
    then show ?thesis by (simp add: counts_changed_def clear_queue_ref_def upd_node_def)
  qed
  have list: "\<exists>c'. reset_refs_loop (xs @ stack) c0 = reset_refs_loop stack c' \<and> counts_changed c0 c'
      \<and> (\<forall>m. queue_ref_count (heap c' m) = 0 \<or> queue_ref_count (heap c' m) = queue_ref_count (heap c0 m))
      \<and> (\<forall>x \<in> set xs. \<forall>m \<in> S. under c x m \<longrightarrow> queue_ref_count (heap c' m) = 0)"
    if "set xs \<subseteq> set ?chs" "counts_changed c c0" for xs c0
    using that
  proof (induction xs arbitrary: c0)
    case Nil
    then show ?case by (auto simp: counts_changed_refl)
  next
    case (Cons x xs)
    note g = counts_changed_fields [OF Cons.prems(2)]
    have ok0: "rc_ok cfg S c0" using less.prems(1) by (simp add: rc_ok_counts [OF Cons.prems(2)])
    have t: "tree_ok cfg S c" using less.prems(1) by (simp add: rc_ok_def)
    have "x \<in> set ?chs" using Cons.prems by simp
    note f = child_value [OF t less.prems(2) this]
    have mx: "max_rdepth S c0 = max_rdepth S c" by (simp add: max_rdepth_def g)
    have "nat (max_rdepth S c0 - rdepth (heap c0 x)) < nat (max_rdepth S c - rdepth (heap c n))"
      using f(4) rdepth_le_max [OF t f(1)] by (simp add: g mx)
    from less.hyps [OF this ok0 f(1)] obtain c2 where
      c2: "reset_refs_loop (x # xs @ stack) c0 = reset_refs_loop (xs @ stack) c2" "counts_changed c0 c2"
        "\<And>m. queue_ref_count (heap c2 m) = 0 \<or> queue_ref_count (heap c2 m) = queue_ref_count (heap c0 m)"
        "\<And>m. m \<in> S \<Longrightarrow> under c0 x m \<Longrightarrow> queue_ref_count (heap c2 m) = 0" by blast
    have un: "under c0 a b = under c a b" for a b
      by (simp add: under_def up_path_counts [OF Cons.prems(2)] g)
    have cc2: "counts_changed c c2" by (rule counts_changed_trans [OF Cons.prems(2) c2(2)])
    have sub: "set xs \<subseteq> set ?chs" using Cons.prems(1) by simp
    from Cons.IH [OF sub cc2] obtain c3 where
      c3: "reset_refs_loop (xs @ stack) c2 = reset_refs_loop stack c3" "counts_changed c2 c3"
        "\<And>m. queue_ref_count (heap c3 m) = 0 \<or> queue_ref_count (heap c3 m) = queue_ref_count (heap c2 m)"
        "\<And>x m. x \<in> set xs \<Longrightarrow> m \<in> S \<Longrightarrow> under c x m \<Longrightarrow> queue_ref_count (heap c3 m) = 0"
      by blast
    have "queue_ref_count (heap c3 m) = 0 \<or> queue_ref_count (heap c3 m) = queue_ref_count (heap c0 m)" for m
      using c2(3) [of m] c3(3) [of m] by auto
    moreover have "queue_ref_count (heap c3 m) = 0" if "y \<in> set (x # xs)" "m \<in> S" "under c y m" for y m
      using that c2(4) [of m] c3(3) [of m] c3(4) [of y m] un by (cases "y = x") auto
    ultimately show ?case using c2(1) c3(1) counts_changed_trans [OF c2(2) c3(2)] by auto
  qed
  have "set (rev ?chs) \<subseteq> set ?chs" by simp
  from list [OF this cc1] obtain c' where c': "reset_refs_loop (rev ?chs @ stack) ?c1 = reset_refs_loop stack c'"
    "counts_changed ?c1 c'" "\<And>m. queue_ref_count (heap c' m) = 0 \<or> queue_ref_count (heap c' m) = queue_ref_count (heap ?c1 m)"
    "\<And>x m. x \<in> set ?chs \<Longrightarrow> m \<in> S \<Longrightarrow> under c x m \<Longrightarrow> queue_ref_count (heap c' m) = 0" by auto
  have step: "reset_refs_loop (n # stack) c = reset_refs_loop stack c'"
    using c'(1) by (subst reset_refs_loop.simps) simp
  have "queue_ref_count (heap c' m) = 0 \<or> queue_ref_count (heap c' m) = queue_ref_count (heap c m)" for m
    using c'(3) [of m] h1 [of m] by (auto simp: upd_queue_def split: if_splits)
  moreover have "queue_ref_count (heap c' m) = 0" if "m \<in> S" "under c n m" for m
  proof (cases "m = n")
    case True
    then show ?thesis using c'(3) [of n] h1 [of n] by (auto simp: upd_queue_def)
  next
    case False
    have "tree_ok cfg S c" using less.prems(1) by (simp add: rc_ok_def)
    from under_child [OF this that(1,2) False] show ?thesis using c'(4) that(1) by blast
  qed
  ultimately show ?case using step counts_changed_trans [OF cc1 c'(2)] by blast
qed

lemma reset_all_ok:
  assumes "rc_ok cfg S c"
  shows "\<exists>c'. reset_all_queue_refs c = Some c' \<and> counts_changed c c' \<and> (\<forall>m \<in> S. queue_ref_count (heap c' m) = 0)"
proof -
  have "root_node c \<in> S" using assms by (simp add: rc_ok_def tree_ok_def)
  from reset_refs_loop_ok [OF assms this, of "[]"] show ?thesis
    by (auto simp: reset_all_queue_refs_def reset_refs_loop.simps [of "[]"] under_def)
qed

lemma reset_protection_ok:
  assumes "rc_ok cfg S c" and "\<And>ns n. prev = Some ns \<Longrightarrow> n \<in> set ns \<Longrightarrow> \<exists>ms. up_path c n ms"
  shows "\<exists>c'. reset_protection prev c = ret c' \<and> counts_changed c c'"
proof (cases prev)
  case None
  then show ?thesis using reset_all_ok [OF assms(1)] by (auto simp: reset_protection_def)
next
  case (Some ns)
  then show ?thesis using reset_walks_ok [of ns c] assms(2) by (auto simp: reset_protection_def)
qed

end
