(* ===== verification/Offline_Scheduler.thy ===== *)
theory Offline_Scheduler
  imports Client_Reorder Sg_Matching
begin

text \<open>
  \<open>src/python/peek/offline/scheduler.py\<close>: the server-side hooks of the offline mode. Queues are
  lists of request records; a hook that mutates its argument returns the new queue. vLLM's block
  pool is not part of the repository: its lookups are function parameters.
\<close>

section \<open>Sharing detection\<close>

fun detect_loop :: "'k list \<Rightarrow> 'k list \<Rightarrow> bool" where
  "detect_loop seen [] = False"
| "detect_loop seen (k # ks) = (if k \<in> set seen then True else detect_loop (k # seen) ks)"

definition detect_sharing :: "'k list \<Rightarrow> bool" where
  "detect_sharing keys = detect_loop [] keys"

text \<open>Only requests with at least one token take part.\<close>

definition detect_sharing_sglang :: "nat \<Rightarrow> sg_req list \<Rightarrow> bool" where
  "detect_sharing_sglang key_length q =
     detect_sharing (map (\<lambda>r. if key_length \<le> length (ids_of r) then take key_length (ids_of r) else ids_of r)
       (filter (\<lambda>r. ids_of r \<noteq> []) q))"

section \<open>vLLM requests\<close>

text \<open>Block hashes are numbers here: only equality and position matter.\<close>

record v_req =
  v_id :: string
  block_hashes :: "int list"
  num_computed_tokens :: int

definition first_hash :: "v_req \<Rightarrow> int res" where
  "first_hash r = head_of (block_hashes r)"

definition reorder_requests_by_prefix :: "v_req list \<Rightarrow> v_req list \<Rightarrow> v_req list res" where
  "reorder_requests_by_prefix new_requests other_requests =
     (if length new_requests \<le> 1 then Inr (new_requests @ other_requests)
      else rbind (map_res first_hash new_requests) (\<lambda>_.
        let groups = dvals (group_by (\<lambda>r. hd (block_hashes r)) new_requests);
            sorted_groups = sort_rev length groups
        in Inr (concat (map (sort_key (\<lambda>r. length (block_hashes r))) sorted_groups) @ other_requests)))"

text \<open>
  \<open>update_queue_ref_counts\<close>: the pool's \<open>reset\<close> and \<open>inc\<close> and the block lookup are parameters; the
  walk of a request stops at its first miss.
\<close>

fun ref_blocks :: "('b \<Rightarrow> 'p \<Rightarrow> 'p) \<Rightarrow> (int \<Rightarrow> 'b option) \<Rightarrow> int list \<Rightarrow> 'p \<Rightarrow> 'p" where
  "ref_blocks inc cached [] pool = pool"
| "ref_blocks inc cached (bh # bhs) pool =
     (case cached bh of None \<Rightarrow> pool | Some b \<Rightarrow> ref_blocks inc cached bhs (inc b pool))"

definition update_queue_ref_counts ::
  "('p \<Rightarrow> 'p) \<Rightarrow> ('b \<Rightarrow> 'p \<Rightarrow> 'p) \<Rightarrow> (int \<Rightarrow> 'b option) \<Rightarrow> v_req list \<Rightarrow> 'p \<Rightarrow> 'p" where
  "update_queue_ref_counts reset inc cached new_requests pool =
     foldl (\<lambda>p r. ref_blocks inc cached (block_hashes r) p) (reset pool) new_requests"

section \<open>Cached prefix lengths\<close>

text \<open>
  \<open>sglang_cached_prefix_length\<close> follows whole edges only; it looks children up by a bare token and
  stops at a child whose edge does not match or holds no value. An edge with an empty key would
  make it run forever (\<open>None\<close>).
\<close>

partial_function (option) cached_loop :: "radix_cache \<Rightarrow> nat \<Rightarrow> int list \<Rightarrow> int \<Rightarrow> int option" where
  "cached_loop c node toks cached =
     (case toks of
        [] \<Rightarrow> Some cached
      | token # _ \<Rightarrow>
          (case dget (rchildren (heap c node)) (None, Tok token) of
             None \<Rightarrow> Some cached
           | Some child \<Rightarrow>
               let klen = length (token_ids (rkey (heap c child))) in
               if length toks < klen then Some cached
               else if 1 < klen \<and> token_ids (rkey (heap c child)) \<noteq> take klen toks then Some cached
               else if rvalue (heap c child) = None then Some cached
               else cached_loop c child (drop klen toks) (cached + int klen)))"

declare cached_loop.simps [code]

definition sglang_cached_prefix_length :: "radix_cache \<Rightarrow> int list \<Rightarrow> int option" where
  "sglang_cached_prefix_length c toks = cached_loop c (root_node c) toks 0"

fun vllm_cached_prefix_length :: "(int \<Rightarrow> 'b option) \<Rightarrow> int list \<Rightarrow> int" where
  "vllm_cached_prefix_length cached [] = 0"
| "vllm_cached_prefix_length cached (bh # bhs) =
     (case cached bh of None \<Rightarrow> 0 | Some _ \<Rightarrow> 1 + vllm_cached_prefix_length cached bhs)"

section \<open>Group-level scheduling\<close>

text \<open>
  Both group schedulers: group the token (or hash) sequences with a trie, append the ungrouped
  requests as groups of their own in queue order, score every group by cached length times size,
  and flatten the groups, shorter sequences first.
\<close>

definition all_groups :: "int list list \<Rightarrow> int \<Rightarrow> (int list \<times> int list) list" where
  "all_groups seqs min_prefix_len =
     (let groups = prefix_groups_with_tokens min_prefix_len (insert_from 0 seqs (trie_init default_max_depth));
          grouped_indices = concat (map snd groups)
      in groups @ map (\<lambda>i. (seqs ! nat i, [i]))
           (filter (\<lambda>i. i \<notin> set grouped_indices) [0..int (length seqs) - 1]))"

definition group_score :: "(int list \<Rightarrow> int) \<Rightarrow> int list \<times> int list \<Rightarrow> int" where
  "group_score cached g = (if fst g \<noteq> [] then cached (fst g) else 0) * int (length (snd g))"

definition group_order :: "(int list \<Rightarrow> int) \<Rightarrow> int list list \<Rightarrow> int \<Rightarrow> int list" where
  "group_order cached seqs min_prefix_len =
     (let scored = sort_rev (group_score cached) (all_groups seqs min_prefix_len) in
      concat (map (\<lambda>g. map snd (sort (map (\<lambda>i. (length (seqs ! nat i), i)) (snd g)))) scored))"

definition pick :: "'r list \<Rightarrow> int list \<Rightarrow> 'r list" where
  "pick q order = map (\<lambda>i. q ! nat i) order"

definition group_and_score_sglang :: "int \<Rightarrow> radix_cache \<Rightarrow> sg_req list \<Rightarrow> sg_req list option" where
  "group_and_score_sglang min_prefix_len c q =
     (let seqs = map ids_of q in
      if \<exists>g \<in> set (all_groups seqs min_prefix_len). fst g \<noteq> [] \<and> sglang_cached_prefix_length c (fst g) = None
      then None
      else Some (pick q (group_order (\<lambda>p. the (sglang_cached_prefix_length c p)) seqs min_prefix_len)))"

definition sglang_group_schedule :: "int \<Rightarrow> radix_cache \<Rightarrow> sg_req list \<Rightarrow> sg_req list option" where
  "sglang_group_schedule reorder_threshold c q =
     (if int (length q) < reorder_threshold then Some q
      else if \<not> detect_sharing_sglang 64 q then Some q
      else group_and_score_sglang 1 c q)"

definition vllm_group_schedule :: "int \<Rightarrow> (int \<Rightarrow> 'b option) \<Rightarrow> v_req list \<Rightarrow> v_req list" where
  "vllm_group_schedule reorder_threshold cached new_reqs =
     (if length new_reqs \<le> 1 \<or> int (length new_reqs) < reorder_threshold then new_reqs
      else if \<not> detect_sharing (map (\<lambda>r. hd (block_hashes r)) (filter (\<lambda>r. block_hashes r \<noteq> []) new_reqs))
      then new_reqs
      else pick new_reqs (group_order (vllm_cached_prefix_length cached) (map block_hashes new_reqs) 1))"

definition vllm_reorder_waiting_queue :: "int \<Rightarrow> v_req list \<Rightarrow> v_req list" where
  "vllm_reorder_waiting_queue reorder_threshold new_reqs =
     (if length new_reqs \<le> 1 \<or> reorder_threshold \<le> int (length new_reqs) then new_reqs
      else let order = reorder_for_prefix_sharing 1 (fl (1 / 10)) 1 (fl (1 / 2)) (map block_hashes new_reqs)
           in if order = [0..int (length order) - 1] then new_reqs else pick new_reqs order)"

definition sglang_reorder_waiting_queue :: "int \<Rightarrow> radix_cache option \<Rightarrow> sg_req list \<Rightarrow> sg_req list option" where
  "sglang_reorder_waiting_queue reorder_threshold tree_cache q =
     (if int (length q) < reorder_threshold then Some q
      else case tree_cache of
        Some c \<Rightarrow> sglang_group_schedule reorder_threshold c q
      | None \<Rightarrow>
          let order = default_reorder (map ids_of q)
          in if order = [0..int (length order) - 1] then Some q else Some (pick q order))"

definition fast_prefix_group_reorder :: "nat \<Rightarrow> sg_req list \<Rightarrow> sg_req list" where
  "fast_prefix_group_reorder key_length q =
     concat (sort_rev length (dvals (group_by (prefix_key key_length) q)))"

text \<open>
  \<open>sglang_post_match_reorder\<close>: groups by the identity of the last node (a missing node is one
  identity of its own), scored by the cached tokens of all members.
\<close>

definition sglang_post_match_reorder :: "sg_req list \<Rightarrow> sg_req list" where
  "sglang_post_match_reorder q =
     (if length q \<le> 1 then q
      else concat (sort_rev (\<lambda>ms. sum_list (map (\<lambda>r. int (length (indices_of r))) ms))
             (dvals (group_by last_node q))))"

section \<open>The pre-scheduling hook\<close>

record tree_state =
  ts_cache :: radix_cache
  ts_policy :: string
  ts_grouped :: bool
  ts_prev :: "nat list option"
  ts_profile_count :: int
  ts_profile_total :: pyfloat

definition batch_est :: int where
  "batch_est = 32"

text \<open>\<open>cache_frac * 1e4 - future_refs + eviction_risk * 1e2 + group_size * 1e-3\<close>, in that order.\<close>

definition pre_score :: "'k group_stat \<Rightarrow> pyfloat" where
  "pre_score st =
     (let group_size = int (length (gs_members st));
          future_refs = max 0 (group_size - batch_est);
          prefix_len = int (length (ids_of (hd (gs_members st))));
          cache_frac = int_div (gs_cached st) (max prefix_len 1)
      in fadd (fadd (fsub (fmul cache_frac 10000) (of_pyint future_refs)) (fmul (gs_risk st) 100))
           (fmul (of_pyint group_size) (fl (1 / 1000))))"

definition bump_profile :: "pyfloat \<Rightarrow> tree_state \<Rightarrow> tree_state" where
  "bump_profile elapsed ts =
     ts\<lparr>ts_profile_count := ts_profile_count ts + 1, ts_profile_total := fadd (ts_profile_total ts) elapsed\<rparr>"

text \<open>The node of a group's representative, when its match holds at least one token.\<close>

definition protectable :: "sg_req list \<Rightarrow> nat list" where
  "protectable ms =
     (case last_node (hd ms) of None \<Rightarrow> []
      | Some n \<Rightarrow> if 0 < length (indices_of (hd ms)) then [n] else [])"

definition sglang_pre_schedule ::
  "sched_env \<Rightarrow> (nat \<Rightarrow> nat \<Rightarrow> pyfloat) \<Rightarrow> (nat \<Rightarrow> pyfloat) \<Rightarrow> pyfloat \<Rightarrow> tree_state \<Rightarrow> sg_req list \<Rightarrow>
     (tree_state \<times> sg_req list \<times> bool) run"
where
  "sglang_pre_schedule env tm now elapsed ts q =
     (let is_queue_aware = (ts_policy ts = ''queue-aware'') in
      if \<not> detect_sharing_sglang 64 q then ret (ts\<lparr>ts_grouped := False\<rparr>, q, False)
      else obind (if is_queue_aware then reset_protection (ts_prev ts) (ts_cache ts) else ret (ts_cache ts)) (\<lambda>c1.
        obind (match_groups False env tm now 0 (group_by (prefix_key 64) q) c1) (\<lambda>(c2, stats).
          let scored = sort_rev pre_score stats;
              q' = concat (map gs_members scored);
              ts1 = ts\<lparr>ts_cache := c2, ts_grouped := True\<rparr>
          in if \<not> is_queue_aware then ret (bump_profile elapsed ts1, q', False)
             else case total_size c2 of
               None \<Rightarrow> None
             | Some total_cached \<Rightarrow>
                 let k = protect_k total_cached (map (\<lambda>st. int (length (ids_of (hd (gs_members st))))) scored);
                     protected = concat (map (\<lambda>st. protectable (gs_members st)) (take k scored))
                 in obind (protect_nodes protected c2) (\<lambda>c3.
                      ret (bump_profile elapsed (ts1\<lparr>ts_cache := c3, ts_prev := Some protected\<rparr>), q', True)))))"

text \<open>\<open>sglang_should_run_prefix_matching\<close>: by policy, or when the root carries the counter (patched nodes do).\<close>

definition sglang_should_run_prefix_matching :: "string \<Rightarrow> bool \<Rightarrow> bool" where
  "sglang_should_run_prefix_matching policy root_has_counter \<longleftrightarrow> policy = ''queue-aware'' \<or> root_has_counter"

section \<open>Facts: detection and permutations\<close>

lemma detect_loop_iff: "detect_loop seen ks \<longleftrightarrow> \<not> distinct ks \<or> set ks \<inter> set seen \<noteq> {}"
  by (induction ks arbitrary: seen) auto

lemma detect_sharing_iff: "detect_sharing ks \<longleftrightarrow> \<not> distinct ks"
  by (simp add: detect_sharing_def detect_loop_iff)

lemma mset_concat_sort_rev [queue_simps]: "mset (concat (sort_rev f xss)) = mset (concat xss)"
  by (rule mset_concat_perm) simp

lemma mset_all_groups: "mset (concat (map snd (all_groups seqs m))) = mset [0..int (length seqs) - 1]"
proof -
  let ?T = "insert_from 0 seqs (trie_init default_max_depth)" and ?u = "[0..int (length seqs) - 1]"
  define G where "G = concat (map snd (prefix_groups_with_tokens m ?T))"
  have sub: "mset G \<subseteq># mset ?u"
    unfolding G_def prefix_groups_with_tokens_eq mset_upto_contents [symmetric, of seqs default_max_depth] contents_def
    by (rule sum_subset_entries)
  have e: "concat (map snd (all_groups seqs m)) = G @ filter (\<lambda>i. i \<notin> set G) ?u"
    by (simp add: all_groups_def Let_def G_def comp_def)
  have "count (mset G + mset (filter (\<lambda>i. i \<notin> set G) ?u)) i = count (mset ?u) i" for i
  proof -
    have le: "count (mset G) i \<le> count (mset ?u) i" using sub by (rule mset_subset_eq_count)
    have u: "count (mset ?u) i = (if i \<in> set ?u then 1 else 0)" by (simp add: distinct_count_atmost_1 [THEN iffD1])
    show ?thesis
    proof (cases "i \<in> set G")
      case True
      then have "0 < count (mset G) i" by simp
      then show ?thesis using True le u by (auto simp: count_mset split: if_splits)
    next
      case False
      then have "count (mset G) i = 0" by (simp add: count_mset)
      then show ?thesis using False by (simp add: mset_filter)
    qed
  qed
  then show ?thesis unfolding e by (simp add: multiset_eqI)
qed

lemma mset_group_order: "mset (group_order cached seqs m) = mset [0..int (length seqs) - 1]"
proof -
  let ?f = "\<lambda>g. map snd (sort (map (\<lambda>i. (length (seqs ! nat i), i)) (snd g)))"
  have "mset (?f g) = mset (snd g)" for g
  proof -
    have "mset (?f g) = image_mset snd (image_mset (\<lambda>i. (length (seqs ! nat i), i)) (mset (snd g)))" by simp
    also have "\<dots> = mset (snd g)" by (simp add: multiset.map_comp comp_def)
    finally show ?thesis .
  qed
  then have "mset (concat (map ?f xs)) = mset (concat (map snd xs))" for xs by (induction xs) auto
  then have "mset (group_order cached seqs m) =
      mset (concat (map snd (sort_rev (group_score cached) (all_groups seqs m))))"
    by (simp add: group_order_def Let_def)
  also have "\<dots> = mset (concat (map snd (all_groups seqs m)))" by (rule mset_concat_perm) simp
  finally show ?thesis by (simp only: mset_all_groups)
qed

lemma pick_id: "pick q [0..int (length q) - 1] = q"
  by (rule nth_equalityI) (simp_all add: pick_def nth_upto)

lemma mset_pick [queue_simps]: "mset order = mset [0..int (length q) - 1] \<Longrightarrow> mset (pick q order) = mset q"
proof -
  assume "mset order = mset [0..int (length q) - 1]"
  then have "mset (pick q order) = mset (pick q [0..int (length q) - 1])"
    unfolding pick_def by (metis mset_map)
  then show ?thesis by (simp only: pick_id)
qed

lemma mset_pick_group_order: "length seqs = length q \<Longrightarrow> mset (pick q (group_order cached seqs m)) = mset q"
  by (rule mset_pick) (simp add: mset_group_order)

interpretation fast: queue_reorder "fast_prefix_group_reorder key_length" for key_length
  by unfold_locales (simp add: fast_prefix_group_reorder_def queue_simps)

interpretation post_match: queue_reorder sglang_post_match_reorder
  by unfold_locales (simp add: sglang_post_match_reorder_def queue_simps)

interpretation vllm_groups: queue_reorder "vllm_group_schedule threshold cached" for threshold cached
  by unfold_locales (simp add: vllm_group_schedule_def mset_pick_group_order)

interpretation vllm_waiting: queue_reorder "vllm_reorder_waiting_queue threshold" for threshold
  by unfold_locales (simp add: vllm_reorder_waiting_queue_def Let_def mset_pick reorder_mset_upto)

interpretation sg_pick: queue_reorder "\<lambda>q. pick q (group_order cached (map ids_of q) m)" for cached m
  by unfold_locales (simp add: mset_pick_group_order)

interpretation sg_dfs: queue_reorder "\<lambda>q. pick q (default_reorder (map ids_of q))"
  by unfold_locales (simp add: mset_pick default_reorder_def reorder_mset_upto)

lemma sglang_reorder_mset: "sglang_reorder_waiting_queue threshold tree q = Some q' \<Longrightarrow> mset q' = mset q"
  using sg_dfs.reorder_mset [of q] sg_pick.reorder_mset [of q]
  by (auto simp: sglang_reorder_waiting_queue_def sglang_group_schedule_def group_and_score_sglang_def Let_def
      split: if_splits option.splits)

section \<open>Facts: the layout of a grouped queue\<close>

lemma insort_key_map: "insort_key f (g x) (map g xs) = map g (insort_key (\<lambda>x. f (g x)) x xs)"
  by (induction xs) auto

lemma sort_rev_map: "sort_rev f (map g xs) = map g (sort_rev (\<lambda>x. f (g x)) xs)"
proof -
  have "sort_key f (map g ys) = map g (sort_key (\<lambda>x. f (g x)) ys)" for ys
    by (induction ys) (simp_all add: insort_key_map)
  then show ?thesis by (simp add: sort_rev_def rev_map)
qed

text \<open>
  Groups in descending order of a weight, one per key, each holding the queue's requests with that
  key in arrival order.
\<close>

definition group_layout :: "('r \<Rightarrow> 'k) \<Rightarrow> ('r list \<Rightarrow> 'w::linorder) \<Rightarrow> 'r list \<Rightarrow> ('k \<times> 'r list) list \<Rightarrow> bool" where
  "group_layout f w q gs \<longleftrightarrow> distinct (map fst gs) \<and> fst ` set gs = f ` set q
     \<and> (\<forall>g \<in> set gs. snd g = filter (\<lambda>r. f r = fst g) q)
     \<and> sorted_wrt (\<lambda>a b. w (snd b) \<le> w (snd a)) gs"

lemma group_layout_sort: "group_layout f w q (sort_rev (\<lambda>g. w (snd g)) (group_by f q))"
proof -
  let ?gs = "sort_rev (\<lambda>g. w (snd g)) (group_by f q)"
  have "mset (map fst ?gs) = mset (map fst (group_by f q))" by (simp only: mset_map mset_sort_rev)
  then have "distinct (map fst ?gs)"
    using wf_group_by [of f q] by (metis mset_eq_imp_distinct_iff wf_dict_def)
  moreover have "snd g = filter (\<lambda>r. f r = fst g) q" if "g \<in> set ?gs" for g
    using that group_by_members [of "fst g" "snd g" f q] by simp
  ultimately show ?thesis
    using sorted_sort_rev [of "\<lambda>g. w (snd g)" "group_by f q"] by (simp add: group_layout_def keys_group_by)
qed

section \<open>Facts: the cached prefix\<close>

lemma cached_loop_ok:
  assumes ok: "rc_ok cfg S c" and pg: "page_size cfg = 1"
  shows "node \<in> S \<Longrightarrow> reaches c node ts vs \<Longrightarrow> \<exists>k n vs'. cached_loop c node toks acc = Some (acc + int k)
    \<and> k \<le> length toks \<and> n \<in> S \<and> reaches c n (ts @ take k toks) vs'"
proof (induction "length toks" arbitrary: toks node ts vs acc rule: less_induct)
  case less
  have stop: ?case if "cached_loop c node toks acc = Some acc"
    using that less.prems by (intro exI [of _ 0] exI [of _ node] exI [of _ vs]) simp
  show ?case
  proof (cases toks)
    case Nil
    then show ?thesis by (intro stop) (simp add: cached_loop.simps)
  next
    case (Cons t rest)
    let ?d = "dget (rchildren (heap c node)) (None, Tok t)"
    show ?thesis
    proof (cases ?d)
      case None
      then show ?thesis by (intro stop) (simp add: Cons cached_loop.simps)
    next
      case (Some child)
      have t: "tree_ok cfg S c" using ok by (simp add: rc_ok_def)
      note f = tree_ok_childD [OF t less.prems(1) Some]
      define ks where "ks = token_ids (rkey (heap c child))"
      have ne: "ks \<noteq> []" unfolding ks_def by (rule tree_ok_nodeD [OF t f(1,2)])
      have hd: "hd ks = t" using f(4) pg by (simp add: get_child_key_def ks_def)
      show ?thesis
      proof (cases "length toks < length ks \<or> (1 < length ks \<and> ks \<noteq> take (length ks) toks) \<or> rvalue (heap c child) = None")
        case True
        then have "cached_loop c node toks acc = Some acc"
          by (subst cached_loop.simps) (auto simp: Cons Some ks_def Let_def)
        then show ?thesis by (rule stop)
      next
        case False
        have tk: "ks = take (length ks) toks"
        proof (cases "1 < length ks")
          case True
          then show ?thesis using False by blast
        next
          case short: False
          then have "length ks = 1" using ne by (cases ks) auto
          then show ?thesis using hd by (cases ks) (auto simp: Cons)
        qed
        have step: "cached_loop c node toks acc = cached_loop c child (drop (length ks) toks) (acc + int (length ks))"
          using False by (subst cached_loop.simps) (auto simp: Cons Some ks_def Let_def)
        have r: "reaches c child (ts @ ks) (vs @ node_values (heap c child))"
          unfolding ks_def by (rule reaches_step [OF f(2,3) less.prems(2)])
        have "length (drop (length ks) toks) < length toks" using ne Cons by simp
        from less.hyps [OF this f(1) r, of "acc + int (length ks)"] obtain k n vs' where
          R: "cached_loop c child (drop (length ks) toks) (acc + int (length ks)) = Some (acc + int (length ks) + int k)"
            "k \<le> length (drop (length ks) toks)" "n \<in> S" "reaches c n ((ts @ ks) @ take k (drop (length ks) toks)) vs'" by blast
        have "ks @ take k (drop (length ks) toks) = take (length ks + k) toks"
          using tk by (metis take_add)
        then show ?thesis using R step False
          by (intro exI [of _ "length ks + k"] exI [of _ n] exI [of _ vs']) auto
      qed
    qed
  qed
qed

section \<open>Properties\<close>

text \<open>
  Every scheduler only reorders: whatever the cache, the thresholds and the queue, the hooks
  return the same requests, none lost and none duplicated.
\<close>

lemma schedulers_only_reorder:
  "(sglang_reorder_waiting_queue threshold tree q = Some q' \<longrightarrow> mset q' = mset q)
   \<and> mset (fast_prefix_group_reorder key_length q) = mset q
   \<and> mset (sglang_post_match_reorder q) = mset q
   \<and> mset (vllm_group_schedule threshold cached vq) = mset vq
   \<and> mset (vllm_reorder_waiting_queue threshold vq) = mset vq
   \<and> (reorder_requests_by_prefix vq rest = Inr vq' \<longrightarrow> mset vq' = mset vq + mset rest)"
proof -
  have "mset (concat (map (sort_key f) xs)) = mset (concat xs)" for f :: "v_req \<Rightarrow> nat" and xs
    by (induction xs) auto
  then have "mset vq' = mset vq + mset rest" if "reorder_requests_by_prefix vq rest = Inr vq'"
    using that by (auto simp: reorder_requests_by_prefix_def rbind_Inr_iff Let_def queue_simps split: if_splits)
  then show ?thesis
    using sglang_reorder_mset fast.reorder_mset post_match.reorder_mset vllm_groups.reorder_mset vllm_waiting.reorder_mset
    by blast
qed

definition sample_sg :: "string \<Rightarrow> int list \<Rightarrow> sg_req" where
  "sample_sg r ids = \<lparr>sg_rid = Some r, origin_input_ids = Some ids, output_ids = [], sg_extra_key = None,
     prefix_indices = None, last_node = None, last_host = None, host_hit_length = 0, peek_matched = False,
     wait_entry = None, sg_priority = 0, max_new_tokens = 16, routing_key = None\<rparr>"


text \<open>
  Sharing detection is exact: it reports sharing precisely when two of the keys are equal,
  for the SGLang queue when two non-empty requests agree on their first \<open>key_len\<close> tokens.
\<close>

lemma detect_sharing_exact:
  "(detect_sharing ks \<longleftrightarrow> \<not> distinct ks)
   \<and> (detect_sharing_sglang key_length q \<longleftrightarrow>
       \<not> distinct (map (prefix_key key_length) (filter (\<lambda>r. ids_of r \<noteq> []) q)))"
proof -
  have e: "(if key_length \<le> length ids then take key_length ids else ids) = take key_length ids" for ids :: "int list"
    by simp
  show ?thesis unfolding detect_sharing_sglang_def detect_sharing_iff e prefix_key_eq by blast
qed

text \<open>
  The hash-based reordering lays the queue out group by group: one block per prefix key, each
  block in arrival order, larger groups first.
\<close>

lemma fast_reorder_layout:
  "\<exists>gs. fast_prefix_group_reorder key_length q = concat (map snd gs)
     \<and> group_layout (prefix_key key_length) length q gs"
proof -
  have "fast_prefix_group_reorder key_length q =
      concat (map snd (sort_rev (\<lambda>g. length (snd g)) (group_by (prefix_key key_length) q)))"
    by (simp add: fast_prefix_group_reorder_def sort_rev_map)
  then show ?thesis using group_layout_sort by blast
qed

text \<open>
  The cache query of the group scheduler returns on every well-formed tree of page size one,
  and its answer is sound: that many leading tokens are the path to a node of the tree.
\<close>

lemma cached_prefix_sound:
  assumes "rc_ok cfg S c" and "page_size cfg = 1"
  shows "\<exists>k n vs. sglang_cached_prefix_length c toks = Some (int k) \<and> k \<le> length toks
    \<and> n \<in> S \<and> reaches c n (take k toks) vs"
proof -
  have "root_node c \<in> S" using assms(1) by (simp add: rc_ok_def tree_ok_def)
  from cached_loop_ok [OF assms this reaches_root, of toks 0] show ?thesis
    by (simp add: sglang_cached_prefix_length_def)
qed


text \<open>
  With its default threshold the vLLM DFS hook never reorders anything: a queue short enough to
  pass the threshold has at most one request.
\<close>

lemma vllm_reorder_default_is_identity: "vllm_reorder_waiting_queue 2 q = q"
proof -
  have "length q \<le> 1 \<or> 2 \<le> int (length q)" by linarith
  then show ?thesis by (simp add: vllm_reorder_waiting_queue_def)
qed

section \<open>The pre-scheduling hook\<close>

lemma group_by_head: "(k, ms) \<in> set (group_by f q) \<Longrightarrow> ms \<noteq> [] \<and> hd ms \<in> set q"
  by (metis group_by_nonempty hd_in_set in_mono set_group_by_members)

text \<open>What a group of requests looks like after matching: one block per group, in some order.\<close>

definition matched_queue ::
  "(sg_req \<Rightarrow> 'k) \<Rightarrow> nat set \<Rightarrow> radix_cache \<Rightarrow> sg_req list \<Rightarrow> 'k group_stat list \<Rightarrow> bool" where
  "matched_queue key S c q stats \<longleftrightarrow> distinct (map gs_key stats)
     \<and> mset (map bare (concat (map gs_members stats))) = mset (map bare q)
     \<and> (\<forall>st \<in> set stats. stat_ok S c st \<and> (\<forall>r \<in> set (gs_members st). key r = gs_key st))"

lemma matched_queue_perm:
  assumes "matched_queue key S c q stats" and m: "mset stats' = mset stats"
  shows "matched_queue key S c q stats'"
proof -
  have "mset (map gs_key stats') = mset (map gs_key stats)" using m by (simp only: mset_map)
  moreover have "mset (concat (map gs_members stats')) = mset (concat (map gs_members stats))"
    by (rule mset_concat_perm) (simp only: mset_map m)
  then have "mset (map bare (concat (map gs_members stats'))) = mset (map bare (concat (map gs_members stats)))"
    by (simp only: mset_map)
  moreover have "set stats' = set stats" using m by (metis set_mset_mset)
  ultimately show ?thesis using assms(1) mset_eq_imp_distinct_iff [of "map gs_key stats'" "map gs_key stats"]
    unfolding matched_queue_def by simp
qed

lemma match_group_by:
  assumes pg: "0 < page_size (env_cfg env)" and bg: "bigram (env_cfg env) = None" and ok: "rc_ok (env_cfg env) S c"
    and ids: "\<forall>r \<in> set q. origin_input_ids r \<noteq> None" and key: "\<And>r r'. bare r = bare r' \<Longrightarrow> key r = key r'"
  shows "\<exists>c' S' stats. match_groups lru env tm now 0 (group_by key q) c = ret (c', stats) \<and> S \<subseteq> S'
    \<and> rc_ok (env_cfg env) S' c' \<and> keeps S c c' \<and> root_node c' = root_node c \<and> matched_queue key S' c' q stats"
proof -
  have g: "\<forall>(k, ms) \<in> set (group_by key q). ms \<noteq> [] \<and> origin_input_ids (hd ms) \<noteq> None"
    using group_by_head [of _ _ key q] ids by blast
  obtain c' S' stats where R: "match_groups lru env tm now 0 (group_by key q) c = ret (c', stats)" "S \<subseteq> S'"
    "rc_ok (env_cfg env) S' c'" "keeps S c c'" "root_node c' = root_node c" "map gs_key stats = map fst (group_by key q)"
    "map (\<lambda>st. map bare (gs_members st)) stats = map (\<lambda>x. map bare (snd x)) (group_by key q)"
    "\<forall>st \<in> set stats. stat_ok S' c' st"
    using match_groups_ok [OF pg bg ok g, of lru tm now 0] by blast
  have len: "length stats = length (group_by key q)" using R(6) by (metis length_map)
  have "key r = gs_key st" if st: "st \<in> set stats" "r \<in> set (gs_members st)" for st r
  proof -
    obtain i where i: "i < length stats" "stats ! i = st" using st(1) unfolding in_set_conv_nth by blast
    obtain k ms where g: "group_by key q ! i = (k, ms)" by (cases "group_by key q ! i")
    have "map (\<lambda>st. map bare (gs_members st)) stats ! i = map (\<lambda>x. map bare (snd x)) (group_by key q) ! i"
      "map gs_key stats ! i = map fst (group_by key q) ! i" by (simp_all only: R(6,7))
    then have e: "map bare (gs_members st) = map bare ms" "gs_key st = k" using i len g by simp_all
    then obtain r' where r': "r' \<in> set ms" "bare r = bare r'"
      using st(2) by (metis (no_types, lifting) image_iff image_set)
    have "(k, ms) \<in> set (group_by key q)" using i(1) len g by (metis nth_mem)
    then have "key r' = k" using r'(1) by (rule group_by_key)
    then show ?thesis using key [OF r'(2)] e(2) by simp
  qed
  moreover have "mset (map bare (concat (map gs_members stats))) = mset (map bare q)"
    using mset_stats_bare [OF R(7)] by simp
  moreover have "distinct (map gs_key stats)" using R(6) wf_group_by [of key q] by (simp add: wf_dict_def)
  ultimately have "matched_queue key S' c' q stats" using R(8) by (simp add: matched_queue_def)
  then show ?thesis using R(1-5) by blast
qed

lemma protectable_in: "stat_ok S c st \<Longrightarrow> set (protectable (gs_members st)) \<subseteq> {gs_node st} \<and> gs_node st \<in> S"
  by (auto simp: stat_ok_def protectable_def split: option.splits if_splits)

lemma concat_protectable:
  assumes "\<forall>st \<in> set stats. stat_ok S c st"
  shows "set (concat (map (\<lambda>st. protectable (gs_members st)) (take k stats))) \<subseteq> S"
proof
  fix n assume "n \<in> set (concat (map (\<lambda>st. protectable (gs_members st)) (take k stats)))"
  then obtain st where st: "st \<in> set (take k stats)" "n \<in> set (protectable (gs_members st))" by auto
  then have "stat_ok S c st" using assms in_set_takeD [OF st(1)] by blast
  from protectable_in [OF this] show "n \<in> S" using st(2) by blast
qed

lemma length_concat_protectable: "length (concat (map (\<lambda>st. protectable (gs_members st)) stats)) \<le> length stats"
  by (induction stats) (auto simp: protectable_def split: option.splits)


text \<open>Two requests of one group on a fresh cache.\<close>

definition sample_req :: sg_req where
  "sample_req = \<lparr>sg_rid = Some ''r1'', origin_input_ids = Some [1, 2], output_ids = [], sg_extra_key = None,
     prefix_indices = Some [], last_node = None, last_host = None, host_hit_length = 0, peek_matched = False,
     wait_entry = None, sg_priority = 0, max_new_tokens = 16, routing_key = None\<rparr>"

definition sample_state :: tree_state where
  "sample_state = \<lparr>ts_cache = cache_init (\<lambda>_. 0), ts_policy = ''queue-aware'', ts_grouped = False, ts_prev = None,
     ts_profile_count = 0, ts_profile_total = 0\<rparr>"


end
