(* ===== verification/Schedule_Policy.thy ===== *)
theory Schedule_Policy
  imports Offline_Scheduler
begin

text \<open>
  \<open>SchedulePolicy\<close> of the patched \<open>schedule_policy.py\<close>: the choice of the policy, the prefix
  matching of the waiting queue with in-batch caching, and the sorts. Two thresholds are read from
  the environment when the module is loaded; they are parameters, like the contents of the
  uninitialised tensor that is inserted into the simulated tree.
\<close>

section \<open>Choosing the policy\<close>

datatype sched_policy = Lpm | DfsWeight | Fcfs | Lof | RandomOrder | RoutingKey

definition policy_of :: "string \<Rightarrow> sched_policy res" where
  "policy_of s =
     (if s = ''lpm'' then Inr Lpm else if s = ''dfs-weight'' then Inr DfsWeight
      else if s = ''fcfs'' then Inr Fcfs else if s = ''lof'' then Inr Lof
      else if s = ''random'' then Inr RandomOrder else if s = ''routing-key'' then Inr RoutingKey
      else Inl ValueError)"

definition cache_aware :: "sched_policy \<Rightarrow> bool" where
  "cache_aware p \<longleftrightarrow> p = Lpm \<or> p = DfsWeight"

text \<open>\<open>getattr(tree_cache, "disable", True)\<close>: a cache without the attribute counts as disabled.\<close>

definition validate_and_adjust_policy :: "string \<Rightarrow> bool option \<Rightarrow> sched_policy res" where
  "validate_and_adjust_policy policy disable_attr =
     rbind (policy_of policy) (\<lambda>p.
       Inr (if cache_aware p \<and> (case disable_attr of None \<Rightarrow> True | Some b \<Rightarrow> b) then Fcfs else p))"

definition determine_active_policy :: "sched_policy \<Rightarrow> 'r list \<Rightarrow> sched_policy" where
  "determine_active_policy policy q = (if policy = Lpm \<and> 128 < length q then Fcfs else policy)"

section \<open>Prefix matching with in-batch caching\<close>

record policy_env =
  pol_sched :: sched_env
  check_threshold :: int
  deprioritize_threshold :: int
  blank_tensor :: "nat \<Rightarrow> int list"

text \<open>The clock readings of the \<open>k\<close>-th request: live match, match and insertion in the simulated tree.\<close>

record match_clocks =
  reset_clock :: "nat \<Rightarrow> pyfloat"
  live_clock :: "nat \<Rightarrow> nat \<Rightarrow> pyfloat"
  batch_clock :: "nat \<Rightarrow> nat \<Rightarrow> pyfloat"
  insert_clock :: "nat \<Rightarrow> nat \<Rightarrow> pyfloat"

definition copy_match :: "sched_env \<Rightarrow> match_result \<Rightarrow> sg_req \<Rightarrow> sg_req" where
  "copy_match env m r =
     r\<lparr>prefix_indices := Some (device_indices m), last_node := Some (last_device_node m),
       last_host := Some (last_host_node m), host_hit_length := default_hit env\<rparr>"

text \<open>
  The in-batch check of one request: when the simulated tree already holds a long enough prefix the
  request is deprioritized, otherwise its tokens are inserted there.
\<close>

definition in_batch_check ::
  "policy_env \<Rightarrow> match_clocks \<Rightarrow> nat \<Rightarrow> sg_req \<Rightarrow> radix_key \<Rightarrow> radix_cache \<Rightarrow> string set \<Rightarrow>
     (radix_cache \<times> string set) run"
where
  "in_batch_check pe ck k r key w dep =
     obind (match_with True sim_config (batch_clock ck k) key w) (\<lambda>(w1, m).
       if deprioritize_threshold pe \<le> int (length (device_indices m))
       then (case sg_rid r of None \<Rightarrow> Some (Inl AttributeError) | Some rid \<Rightarrow> ret (w1, insert rid dep))
       else obind (cache_insert sim_config (insert_clock ck k) key
                     (Some (blank_tensor pe (length (token_ids key)))) None w1)
              (\<lambda>(w2, _). ret (w2, dep)))"

definition match_one ::
  "policy_env \<Rightarrow> match_clocks \<Rightarrow> nat \<Rightarrow> sg_req \<Rightarrow> radix_cache \<Rightarrow> radix_cache \<Rightarrow> string set \<Rightarrow>
     (sg_req \<times> radix_cache \<times> radix_cache \<times> string set) run"
where
  "match_one pe ck k r c w dep =
     (if peek_matched r then ret (r, c, w, dep)
      else case origin_input_ids r of
        None \<Rightarrow> Some (Inl AttributeError)
      | Some ids \<Rightarrow>
          let key = \<lparr>token_ids = ids @ output_ids r, extra_key = sg_extra_key r, is_bigram = False\<rparr> in
          obind (match_with True (env_cfg (pol_sched pe)) (live_clock ck k) key c) (\<lambda>(c1, m).
            if int (length (device_indices m)) \<le> check_threshold pe
            then obind (in_batch_check pe ck k r key w dep) (\<lambda>(w1, dep1).
                   ret (copy_match (pol_sched pe) m r, c1, w1, dep1))
            else ret (copy_match (pol_sched pe) m r, c1, w, dep)))"

fun match_all ::
  "policy_env \<Rightarrow> match_clocks \<Rightarrow> nat \<Rightarrow> sg_req list \<Rightarrow> radix_cache \<Rightarrow> radix_cache \<Rightarrow> string set \<Rightarrow>
     (sg_req list \<times> radix_cache \<times> radix_cache \<times> string set) run"
where
  "match_all pe ck k [] c w dep = ret ([], c, w, dep)"
| "match_all pe ck k (r # rs) c w dep =
     obind (match_one pe ck k r c w dep) (\<lambda>(r', c1, w1, dep1).
       obind (match_all pe ck (k + 1) rs c1 w1 dep1) (\<lambda>(rs', c2, w2, dep2).
         ret (r' # rs', c2, w2, dep2)))"

definition compute_prefix_matches ::
  "policy_env \<Rightarrow> match_clocks \<Rightarrow> sg_req list \<Rightarrow> radix_cache \<Rightarrow> radix_cache \<Rightarrow>
     (sg_req list \<times> radix_cache \<times> radix_cache \<times> string set) run"
where
  "compute_prefix_matches pe ck q c w = match_all pe ck 0 q c (cache_reset (reset_clock ck) w) {}"

section \<open>The sorts\<close>

text \<open>\<open>-len(prefix_indices)\<close>, or \<open>inf\<close> for a deprioritized request: the pairs sort alike.\<close>

definition deprioritized :: "string set \<Rightarrow> sg_req \<Rightarrow> bool" where
  "deprioritized dep r = (case sg_rid r of None \<Rightarrow> False | Some rid \<Rightarrow> rid \<in> dep)"

definition longest_prefix_key :: "string set \<Rightarrow> sg_req \<Rightarrow> nat \<times> int" where
  "longest_prefix_key dep r =
     (if deprioritized dep r then (1, 0) else (0, - int (length (indices_of r))))"

definition sort_by_longest_prefix :: "string set \<Rightarrow> sg_req list \<Rightarrow> sg_req list" where
  "sort_by_longest_prefix dep q = sort_key (longest_prefix_key dep) q"

definition sort_by_longest_output :: "bool \<Rightarrow> int \<Rightarrow> sg_req list \<Rightarrow> sg_req list" where
  "sort_by_longest_output priority_scheduling priority_sign q =
     (if priority_scheduling then sort_key (\<lambda>r. (sg_priority r * priority_sign, - max_new_tokens r)) q
      else sort_key (\<lambda>r. - max_new_tokens r) q)"

text \<open>A request without an entry time raises.\<close>

definition entry_time :: "sg_req \<Rightarrow> pyfloat res" where
  "entry_time r = (case wait_entry r of None \<Rightarrow> Inl AttributeError | Some t \<Rightarrow> Inr t)"

definition sort_by_priority_and_fcfs :: "int \<Rightarrow> sg_req list \<Rightarrow> sg_req list res" where
  "sort_by_priority_and_fcfs priority_sign q =
     rbind (map_res entry_time q) (\<lambda>_.
       Inr (sort_key (\<lambda>r. (sg_priority r * priority_sign, the (wait_entry r))) q))"

text \<open>\<open>Counter\<close> of the non-empty routing keys of the running batch.\<close>

definition key_counts :: "sg_req list \<Rightarrow> (string, int) pydict" where
  "key_counts reqs =
     foldl (\<lambda>d k. dset k (dget_or d k 0 + 1) d) []
       (filter (\<lambda>k. k \<noteq> '''') (concat (map (\<lambda>r. case routing_key r of None \<Rightarrow> [] | Some k \<Rightarrow> [k]) reqs)))"

definition routing_sort_key :: "(string, int) pydict \<Rightarrow> sg_req \<Rightarrow> nat \<times> int \<times> string" where
  "routing_sort_key counts r =
     (case routing_key r of
        None \<Rightarrow> (1, 0, '''')
      | Some k \<Rightarrow> if k = '''' then (1, 0, '''')
                  else (case dget counts k of None \<Rightarrow> (1, 0, k) | Some n \<Rightarrow> (0, - n, k)))"

definition sort_by_routing_key :: "sg_req list \<Rightarrow> sg_req list \<Rightarrow> sg_req list" where
  "sort_by_routing_key running q =
     (let counts = key_counts running in if counts = [] then q else sort_key (routing_sort_key counts) q)"

text \<open>
  \<open>_calc_weight\<close>: the recursion over the children, written over the pending children of a node;
  the weights are a \<open>defaultdict\<close>.
\<close>

partial_function (option) calc_weight ::
  "radix_cache \<Rightarrow> nat \<Rightarrow> nat list \<Rightarrow> (nat \<Rightarrow> int) \<Rightarrow> (nat \<Rightarrow> int) option"
where
  "calc_weight c node pending weight =
     (case pending of
        [] \<Rightarrow> Some weight
      | ch # chs \<Rightarrow>
          Option.bind (calc_weight c ch (dvals (rchildren (heap c ch))) weight)
            (\<lambda>w. calc_weight c node chs (w(node := w node + w ch))))"

declare calc_weight.simps [code]

text \<open>\<open>_get_dfs_priority\<close>: children by descending weight, then the node's own requests.\<close>

partial_function (option) dfs_priority ::
  "radix_cache \<Rightarrow> (nat \<Rightarrow> int) \<Rightarrow> (nat \<Rightarrow> 'r list) \<Rightarrow> nat list \<Rightarrow> 'r list \<Rightarrow> 'r list option"
where
  "dfs_priority c weight reqs nodes q =
     (case nodes of
        [] \<Rightarrow> Some q
      | n # ns \<Rightarrow>
          Option.bind (dfs_priority c weight reqs (sort_key (\<lambda>x. - weight x) (dvals (rchildren (heap c n)))) q)
            (\<lambda>q1. dfs_priority c weight reqs ns (q1 @ reqs n)))"

declare dfs_priority.simps [code]

definition requests_at :: "sg_req list \<Rightarrow> nat \<Rightarrow> sg_req list" where
  "requests_at q n = filter (\<lambda>r. last_node r = Some n) q"

definition sort_by_dfs_weight :: "radix_cache \<Rightarrow> sg_req list \<Rightarrow> sg_req list option" where
  "sort_by_dfs_weight c q =
     (let weight = (\<lambda>n. int (length (requests_at q n))) in
      case calc_weight c (root_node c) (dvals (rchildren (heap c (root_node c)))) weight of
        None \<Rightarrow> None
      | Some w \<Rightarrow> dfs_priority c w (requests_at q) [root_node c] [])"

section \<open>Without the engine\<close>

text \<open>
  \<open>calc_priority\<close> when the engine is not enabled. The shuffle of the random policy is a parameter;
  the result says whether prefixes were computed.
\<close>

record policy_state =
  pol_policy :: sched_policy
  pol_priority_scheduling :: bool
  pol_low_first :: bool
  pol_tree :: radix_cache
  pol_batch_tree :: radix_cache

definition priority_sign :: "policy_state \<Rightarrow> int" where
  "priority_sign p = (if pol_low_first p then 1 else - 1)"

definition calc_priority_stock ::
  "policy_env \<Rightarrow> match_clocks \<Rightarrow> (sg_req list \<Rightarrow> sg_req list) \<Rightarrow> sg_req list option \<Rightarrow> policy_state \<Rightarrow>
     sg_req list \<Rightarrow> (policy_state \<times> sg_req list \<times> bool) run"
where
  "calc_priority_stock pe ck shuffle running p q =
     (if pol_policy p = Fcfs
      then if pol_priority_scheduling p
           then (case sort_by_priority_and_fcfs (priority_sign p) q of
                   Inl e \<Rightarrow> Some (Inl e) | Inr q' \<Rightarrow> ret (p, q', False))
           else ret (p, q, False)
      else case determine_active_policy (pol_policy p) q of
        Fcfs \<Rightarrow> ret (p, q, False)
      | Lof \<Rightarrow> ret (p, sort_by_longest_output (pol_priority_scheduling p) (priority_sign p) q, False)
      | RandomOrder \<Rightarrow> ret (p, shuffle q, False)
      | RoutingKey \<Rightarrow>
          ret (p, (case running of None \<Rightarrow> q | Some batch \<Rightarrow> sort_by_routing_key batch q), False)
      | Lpm \<Rightarrow>
          obind (compute_prefix_matches pe ck q (pol_tree p) (pol_batch_tree p)) (\<lambda>(q1, c, w, dep).
            ret (p\<lparr>pol_tree := c, pol_batch_tree := w\<rparr>, sort_by_longest_prefix dep q1, True))
      | DfsWeight \<Rightarrow>
          obind (compute_prefix_matches pe ck q (pol_tree p) (pol_batch_tree p)) (\<lambda>(q1, c, w, dep).
            (case sort_by_dfs_weight c q1 of
               None \<Rightarrow> None
             | Some q2 \<Rightarrow> ret (p\<lparr>pol_tree := c, pol_batch_tree := w\<rparr>, q2, True))))"

section \<open>What matching the queue establishes\<close>

lemma ret_eq_iff [simp]: "ret a = ret b \<longleftrightarrow> a = b"
  by (simp add: ret_def)

lemma rc_ok_reset: "rc_ok cfg {root_node (cache_reset tm c)} (cache_reset tm c)"
  by (simp add: rc_ok_def tree_ok_def child_ok_def acct_ok_def leaf_status_def cache_reset_def Let_def
      alloc_node_def new_tree_node_def)

text \<open>The match a request carries: a node of the tree whose path spells a prefix of its tokens.\<close>

definition matched_in :: "nat set \<Rightarrow> radix_cache \<Rightarrow> sg_req \<Rightarrow> bool" where
  "matched_in S c r \<longleftrightarrow> (\<exists>n ts vs rest. last_node r = Some n \<and> n \<in> S \<and> reaches c n ts vs
     \<and> prefix_indices r = Some vs \<and> ids_of r @ output_ids r = ts @ rest)"

lemma matched_in_keeps: "matched_in S c r \<Longrightarrow> S \<subseteq> S' \<Longrightarrow> keeps S c c' \<Longrightarrow> matched_in S' c' r"
  unfolding matched_in_def keeps_def by blast

lemma bare_copy_match [simp]: "bare (copy_match env m r) = bare r"
  by (simp add: bare_def copy_match_def)

lemma in_batch_check_ok:
  assumes w: "rc_ok sim_config W w" and rid: "sg_rid r \<noteq> None"
    and bl: "\<And>n. length (blank_tensor pe n) = n"
  shows "\<exists>w' W' dep'. in_batch_check pe ck k r key w dep = ret (w', dep') \<and> rc_ok sim_config W' w'
    \<and> dep \<subseteq> dep' \<and> dep' \<subseteq> dep \<union> {rid. sg_rid r = Some rid}"
proof -
  have pg: "0 < page_size sim_config" and nd: "\<not> disable sim_config" "bigram sim_config = None"
    by (simp_all add: sim_config_def)
  obtain w1 W1 m where m: "match_with True sim_config (batch_clock ck k) key w = ret (w1, m)" "rc_ok sim_config W1 w1"
    using match_with_ok [OF pg w, of True "batch_clock ck k" key] by blast
  obtain rid' where r: "sg_rid r = Some rid'" using rid by auto
  show ?thesis
  proof (cases "deprioritize_threshold pe \<le> int (length (device_indices m))")
    case True
    then show ?thesis using m r by (auto simp: in_batch_check_def)
  next
    case False
    let ?v = "Some (blank_tensor pe (length (token_ids key)))"
    have "\<exists>c' tot S' n vs. cache_insert sim_config (insert_clock ck k) key ?v None w1 = ret (c', tot) \<and> W1 \<subseteq> S'
        \<and> rc_ok sim_config S' c' \<and> keeps W1 w1 c' \<and> n \<in> S' \<and> reaches c' n (token_ids key) vs"
      by (rule cache_insert_ok [OF pg m(2) nd]) (auto simp: bl)
    then obtain w2 tot W2 where i: "cache_insert sim_config (insert_clock ck k) key ?v None w1 = ret (w2, tot)"
      "rc_ok sim_config W2 w2" by blast
    then show ?thesis using m(1) False by (auto simp: in_batch_check_def)
  qed
qed

lemma match_one_ok:
  assumes pg: "0 < page_size (env_cfg (pol_sched pe))" and bg: "bigram (env_cfg (pol_sched pe)) = None"
    and bl: "\<And>n. length (blank_tensor pe n) = n"
    and ok: "rc_ok (env_cfg (pol_sched pe)) S c" and w: "rc_ok sim_config W w"
    and ids: "origin_input_ids r \<noteq> None" and rid: "sg_rid r \<noteq> None"
  shows "\<exists>r' c' w' dep' S' W'. match_one pe ck k r c w dep = ret (r', c', w', dep') \<and> S \<subseteq> S'
    \<and> rc_ok (env_cfg (pol_sched pe)) S' c' \<and> rc_ok sim_config W' w' \<and> keeps S c c' \<and> root_node c' = root_node c
    \<and> bare r' = bare r \<and> (if peek_matched r then r' = r else matched_in S' c' r')
    \<and> dep \<subseteq> dep' \<and> dep' \<subseteq> dep \<union> {rid. sg_rid r = Some rid}"
proof (cases "peek_matched r")
  case True
  have "keeps S c c" by (simp add: keeps_def)
  then show ?thesis using True ok w by (auto simp: match_one_def)
next
  case False
  let ?cfg = "env_cfg (pol_sched pe)"
  obtain ids where i: "origin_input_ids r = Some ids" using ids by auto
  let ?key = "\<lparr>token_ids = ids @ output_ids r, extra_key = sg_extra_key r, is_bigram = False\<rparr>"
  obtain c1 S' m ts' rs where m: "match_with True ?cfg (live_clock ck k) ?key c = ret (c1, m)" "S \<subseteq> S'"
    "rc_ok ?cfg S' c1" "keeps S c c1" "root_node c1 = root_node c" "last_device_node m \<in> S'"
    "reaches c1 (last_device_node m) ts' (device_indices m)" "token_ids (maybe_bigram_convert ?cfg ?key) = ts' @ rs"
    using match_with_ok [OF pg ok, of True "live_clock ck k" ?key] by blast
  let ?r = "copy_match (pol_sched pe) m r"
  have t: "ids_of ?r @ output_ids ?r = ts' @ rs"
    using m(8) i by (simp add: maybe_bigram_convert_def bg copy_match_def ids_of_def)
  have mi: "matched_in S' c1 ?r" unfolding matched_in_def
    by (intro exI [of _ "last_device_node m"] exI [of _ ts'] exI [of _ "device_indices m"] exI [of _ rs])
      (use m(6,7) t in \<open>simp add: copy_match_def\<close>)
  obtain w1 W1 dep1 where b: "in_batch_check pe ck k r ?key w dep = ret (w1, dep1)" "rc_ok sim_config W1 w1"
    "dep \<subseteq> dep1" "dep1 \<subseteq> dep \<union> {rid. sg_rid r = Some rid}"
    using in_batch_check_ok [OF w rid bl] by blast
  show ?thesis
  proof (cases "int (length (device_indices m)) \<le> check_threshold pe")
    case True
    have "match_one pe ck k r c w dep = ret (?r, c1, w1, dep1)"
      using False i m(1) b(1) True by (simp add: match_one_def)
    then show ?thesis using m(2-5) mi b(2-4) False
      by (intro exI [of _ ?r] exI [of _ c1] exI [of _ w1] exI [of _ dep1] exI [of _ S'] exI [of _ W1]) simp
  next
    case f: False
    have "match_one pe ck k r c w dep = ret (?r, c1, w, dep)"
      using False i m(1) f by (simp add: match_one_def)
    then show ?thesis using m(2-5) mi w False
      by (intro exI [of _ ?r] exI [of _ c1] exI [of _ w] exI [of _ dep] exI [of _ S'] exI [of _ W]) simp
  qed
qed

text \<open>Requests that may be matched: the attributes the loop reads are there.\<close>

definition readable :: "sg_req \<Rightarrow> bool" where
  "readable r \<longleftrightarrow> origin_input_ids r \<noteq> None \<and> sg_rid r \<noteq> None"

definition queue_rids :: "sg_req list \<Rightarrow> string set" where
  "queue_rids q = {rid. \<exists>r \<in> set q. sg_rid r = Some rid}"

lemma match_all_ok:
  assumes pg: "0 < page_size (env_cfg (pol_sched pe))" and bg: "bigram (env_cfg (pol_sched pe)) = None"
    and bl: "\<And>n. length (blank_tensor pe n) = n"
  shows "rc_ok (env_cfg (pol_sched pe)) S c \<Longrightarrow> rc_ok sim_config W w \<Longrightarrow> \<forall>r \<in> set q. readable r \<Longrightarrow>
    \<exists>q' c' w' dep' S' W'. match_all pe ck k q c w dep = ret (q', c', w', dep') \<and> S \<subseteq> S'
      \<and> rc_ok (env_cfg (pol_sched pe)) S' c' \<and> rc_ok sim_config W' w' \<and> keeps S c c' \<and> root_node c' = root_node c
      \<and> map bare q' = map bare q
      \<and> list_all2 (\<lambda>r r'. if peek_matched r then r' = r else matched_in S' c' r') q q'
      \<and> dep \<subseteq> dep' \<and> dep' \<subseteq> dep \<union> queue_rids q"
proof (induction q arbitrary: k c w dep S W)
  case Nil
  have "keeps S c c" by (simp add: keeps_def)
  then show ?case using Nil by (auto simp: queue_rids_def)
next
  case (Cons r q)
  have rd: "origin_input_ids r \<noteq> None" "sg_rid r \<noteq> None" using Cons.prems(3) by (simp_all add: readable_def)
  obtain r' c1 w1 dep1 S1 W1 where 1: "match_one pe ck k r c w dep = ret (r', c1, w1, dep1)" "S \<subseteq> S1"
    "rc_ok (env_cfg (pol_sched pe)) S1 c1" "rc_ok sim_config W1 w1" "keeps S c c1" "root_node c1 = root_node c"
    "bare r' = bare r" "if peek_matched r then r' = r else matched_in S1 c1 r'"
    "dep \<subseteq> dep1" "dep1 \<subseteq> dep \<union> {rid. sg_rid r = Some rid}"
    using match_one_ok [OF pg bg bl Cons.prems(1,2) rd, where k=k and dep=dep and ck=ck] by (elim exE conjE) (rule that)
  have "\<forall>r \<in> set q. readable r" using Cons.prems(3) by simp
  from Cons.IH [OF 1(3,4) this, of "k + 1" dep1]
  obtain q' c2 w2 dep2 S2 W2 where 2: "match_all pe ck (k + 1) q c1 w1 dep1 = ret (q', c2, w2, dep2)" "S1 \<subseteq> S2"
    "rc_ok (env_cfg (pol_sched pe)) S2 c2" "rc_ok sim_config W2 w2" "keeps S1 c1 c2" "root_node c2 = root_node c1"
    "map bare q' = map bare q" "list_all2 (\<lambda>r r'. if peek_matched r then r' = r else matched_in S2 c2 r') q q'"
    "dep1 \<subseteq> dep2" "dep2 \<subseteq> dep1 \<union> queue_rids q" by blast
  have e: "match_all pe ck k (r # q) c w dep = ret (r' # q', c2, w2, dep2)" using 2(1) by (simp add: 1(1))
  have "keeps S c c2" by (rule keeps_trans [OF 1(5) 2(5) 1(2)])
  moreover have "if peek_matched r then r' = r else matched_in S2 c2 r'"
    using 1(8) matched_in_keeps [OF _ 2(2,5)] by (auto split: if_splits)
  moreover have "dep2 \<subseteq> dep \<union> queue_rids (r # q)" using 1(10) 2(10) by (auto simp: queue_rids_def)
  ultimately show ?case using e 1 2
    by (intro exI [of _ "r' # q'"] exI [of _ c2] exI [of _ w2] exI [of _ dep2] exI [of _ S2] exI [of _ W2])
      (simp add: order_trans [OF 1(2) 2(2)] order_trans [OF 1(9) 2(9)])
qed

end
