(* ===== verification/Policy_Props.thy ===== *)
theory Policy_Props
  imports Schedule_Policy
begin

text \<open>
  What \<open>SchedulePolicy\<close> guarantees: the DFS-weight sort visits every node of the tree exactly once,
  prefix matching returns and is sound, and every policy returns a permutation of the queue.
\<close>

section \<open>Walking down the tree\<close>

abbreviation children_of :: "radix_cache \<Rightarrow> nat \<Rightarrow> nat list" where
  "children_of c n \<equiv> dvals (rchildren (heap c n))"

lemma children_of_iff:
  assumes t: "tree_ok cfg S c" and n: "n \<in> S"
  shows "ch \<in> set (children_of c n) \<longleftrightarrow> ch \<in> S \<and> ch \<noteq> root_node c \<and> rparent (heap c ch) = Some n"
proof
  assume "ch \<in> set (children_of c n)"
  then obtain k where k: "(k, ch) \<in> set (rchildren (heap c n))" by auto
  have "wf_dict (rchildren (heap c n))" using t n by (simp add: tree_ok_def child_ok_def)
  then have "dget (rchildren (heap c n)) k = Some ch" using k by (simp add: dget_Some_iff_mem)
  from tree_ok_childD [OF t n this] show "ch \<in> S \<and> ch \<noteq> root_node c \<and> rparent (heap c ch) = Some n" by blast
next
  assume ch: "ch \<in> S \<and> ch \<noteq> root_node c \<and> rparent (heap c ch) = Some n"
  then obtain p where "rparent (heap c ch) = Some p" "dget (rchildren (heap c p)) (ckey cfg c ch) = Some ch"
    using tree_ok_nodeD [OF t] by metis
  then have "dget (rchildren (heap c n)) (ckey cfg c ch) = Some ch" using ch by simp
  then show "ch \<in> set (children_of c n)" by (metis map_of_SomeD image_eqI set_map snd_conv)
qed

lemma distinct_children:
  assumes t: "tree_ok cfg S c" and n: "n \<in> S"
  shows "distinct (children_of c n)"
proof -
  have wf: "wf_dict (rchildren (heap c n))" using t n by (simp add: tree_ok_def child_ok_def)
  have "k = ckey cfg c ch" if "(k, ch) \<in> set (rchildren (heap c n))" for k ch
    using tree_ok_childD(4) [OF t n] that by (simp add: dget_Some_iff_mem [OF wf])
  then have "x = (ckey cfg c (snd x), snd x)" if "x \<in> set (rchildren (heap c n))" for x
    using that by (cases x) simp
  then have "inj_on snd (set (rchildren (heap c n)))" by (intro inj_on_inverseI [where g = "\<lambda>m. (ckey cfg c m, m)"]) simp
  moreover have "distinct (rchildren (heap c n))" using wf by (simp add: wf_dict_def distinct_map)
  ultimately show ?thesis by (simp add: distinct_map)
qed

text \<open>Induction from the children to their parent: depths are bounded and increase downwards.\<close>

lemma tree_induct_down:
  assumes t: "tree_ok cfg S c" and step: "\<And>n. n \<in> S \<Longrightarrow> (\<And>ch. ch \<in> set (children_of c n) \<Longrightarrow> P ch) \<Longrightarrow> P n"
    and n: "n \<in> S"
  shows "P n"
proof -
  define hi where "hi = Max ((\<lambda>m. rdepth (heap c m)) ` S)"
  have fin: "finite S" using t by (simp add: tree_ok_def)
  have hi: "rdepth (heap c m) \<le> hi" if "m \<in> S" for m unfolding hi_def using fin that by (intro Max_ge) auto
  show ?thesis using n
  proof (induction "nat (hi - rdepth (heap c n))" arbitrary: n rule: less_induct)
    case less
    have "P ch" if "ch \<in> set (children_of c n)" for ch
    proof -
      have ch: "ch \<in> S" "ch \<noteq> root_node c" "rparent (heap c ch) = Some n"
        using that children_of_iff [OF t less.prems] by auto
      obtain p where "rparent (heap c ch) = Some p" "rdepth (heap c ch) = rdepth (heap c p) + key_len (rkey (heap c ch))"
        "token_ids (rkey (heap c ch)) \<noteq> []" using tree_ok_nodeD [OF t ch(1,2)] by metis
      then have "rdepth (heap c n) < rdepth (heap c ch)" using ch(3) by (auto simp: key_len_def)
      then have "nat (hi - rdepth (heap c ch)) < nat (hi - rdepth (heap c n))" using hi [OF ch(1)] by auto
      then show ?thesis using less.hyps ch(1) by blast
    qed
    then show ?case using step less.prems by blast
  qed
qed

section \<open>The nodes below a node\<close>

definition down_rel :: "radix_cache \<Rightarrow> (nat \<times> nat) set" where
  "down_rel c = {(p, ch). ch \<noteq> root_node c \<and> rparent (heap c ch) = Some p}"

definition below :: "nat set \<Rightarrow> radix_cache \<Rightarrow> nat \<Rightarrow> nat set" where
  "below S c n = {m \<in> S. (n, m) \<in> (down_rel c)\<^sup>*}"

lemma below_depth:
  assumes t: "tree_ok cfg S c" and "(n, m) \<in> (down_rel c)\<^sup>*" and "m \<in> S"
  shows "n \<in> S \<and> rdepth (heap c n) \<le> rdepth (heap c m)"
  using assms(2,3)
proof (induction rule: converse_rtrancl_induct)
  case (step y z)
  then have z: "z \<in> S" "z \<noteq> root_node c" "rparent (heap c z) = Some y" by (auto simp: down_rel_def)
  obtain p where "rparent (heap c z) = Some p" "p \<in> S" "rdepth (heap c z) = rdepth (heap c p) + key_len (rkey (heap c z))"
    using tree_ok_nodeD [OF t z(1,2)] by metis
  then show ?case using z(3) step by (auto simp: key_len_def)
qed simp

lemma below_unfold:
  assumes t: "tree_ok cfg S c" and n: "n \<in> S"
  shows "below S c n = insert n (\<Union>ch \<in> set (children_of c n). below S c ch)"
proof (intro equalityI subsetI)
  fix m assume "m \<in> below S c n"
  then have m: "m \<in> S" "(n, m) \<in> (down_rel c)\<^sup>*" by (auto simp: below_def)
  from m(2) show "m \<in> insert n (\<Union>ch \<in> set (children_of c n). below S c ch)"
  proof (cases rule: converse_rtranclE)
    case (step ch)
    have "ch \<in> S" using below_depth [OF t step(2) m(1)] by blast
    moreover have "ch \<noteq> root_node c \<and> rparent (heap c ch) = Some n" using step(1) by (simp add: down_rel_def)
    ultimately have "ch \<in> set (children_of c n)" using children_of_iff [OF t n] by blast
    moreover have "m \<in> below S c ch" using step(2) m(1) by (simp add: below_def)
    ultimately show ?thesis by blast
  qed simp
next
  fix m assume "m \<in> insert n (\<Union>ch \<in> set (children_of c n). below S c ch)"
  then show "m \<in> below S c n"
  proof (elim insertE UN_E)
    fix ch assume "ch \<in> set (children_of c n)" "m \<in> below S c ch"
    then show ?thesis using children_of_iff [OF t n]
      by (auto simp: below_def down_rel_def intro: converse_rtrancl_into_rtrancl)
  qed (use n in \<open>simp add: below_def\<close>)
qed

lemma below_self: "n \<in> S \<Longrightarrow> n \<in> below S c n"
  by (simp add: below_def)

lemma below_notin:
  assumes t: "tree_ok cfg S c" and n: "n \<in> S" and ch: "ch \<in> set (children_of c n)"
  shows "n \<notin> below S c ch"
proof
  assume "n \<in> below S c ch"
  then have d: "rdepth (heap c ch) \<le> rdepth (heap c n)" using below_depth [OF t] by (auto simp: below_def)
  have c: "ch \<in> S" "ch \<noteq> root_node c" "rparent (heap c ch) = Some n" using children_of_iff [OF t n] ch by auto
  obtain p where "rparent (heap c ch) = Some p" "rdepth (heap c ch) = rdepth (heap c p) + key_len (rkey (heap c ch))"
    "token_ids (rkey (heap c ch)) \<noteq> []" using tree_ok_nodeD [OF t c(1,2)] by metis
  then show False using c(3) d by (auto simp: key_len_def)
qed

lemma below_disjoint:
  assumes t: "tree_ok cfg S c" and n: "n \<in> S" and ch: "a \<in> set (children_of c n)" "b \<in> set (children_of c n)" "a \<noteq> b"
  shows "below S c a \<inter> below S c b = {}"
proof (rule ccontr)
  have sv: "single_valued ((down_rel c)\<inverse>)" by (auto simp: single_valued_def down_rel_def)
  have no: "(x, y) \<notin> (down_rel c)\<^sup>*" if x: "x \<in> set (children_of c n)" "y \<in> set (children_of c n)" "x \<noteq> y" for x y
  proof
    assume "(x, y) \<in> (down_rel c)\<^sup>*"
    then obtain z where z: "(x, z) \<in> (down_rel c)\<^sup>*" "(z, y) \<in> down_rel c" using x(3) by (metis rtranclE)
    have "rparent (heap c y) = Some n" using children_of_iff [OF t n] x(2) by blast
    then have "(x, n) \<in> (down_rel c)\<^sup>*" using z by (simp add: down_rel_def)
    then show False using below_notin [OF t n x(1)] n by (simp add: below_def)
  qed
  assume "below S c a \<inter> below S c b \<noteq> {}"
  then obtain m where "(m, a) \<in> ((down_rel c)\<inverse>)\<^sup>*" "(m, b) \<in> ((down_rel c)\<inverse>)\<^sup>*"
    by (auto simp: below_def rtrancl_converse)
  from single_valued_confluent [OF sv this] have "(b, a) \<in> (down_rel c)\<^sup>* \<or> (a, b) \<in> (down_rel c)\<^sup>*"
    by (auto simp: rtrancl_converse)
  then show False using no ch by blast
qed

lemma below_root:
  assumes t: "tree_ok cfg S c"
  shows "below S c (root_node c) = S"
proof -
  have "(root_node c, n) \<in> (down_rel c)\<^sup>*" if n: "n \<in> S" for n
  proof -
    obtain ns where "up_path c n ns" using infinite_descent_depth [OF t n] by blast
    then show ?thesis
    proof (induction ns arbitrary: n)
      case (Cons m ns)
      then obtain p where p: "n \<noteq> root_node c" "rparent (heap c n) = Some p" "up_path c p ns"
        by (auto split: option.splits)
      then have "(p, n) \<in> down_rel c" by (simp add: down_rel_def)
      then show ?case using Cons.IH [OF p(3)] by (rule rtrancl_into_rtrancl [rotated])
    qed simp
  qed
  then show ?thesis by (auto simp: below_def)
qed

section \<open>The DFS-weight sort\<close>

lemma calc_weight_total:
  assumes t: "tree_ok cfg S c" and n: "n \<in> S"
  shows "\<exists>w'. calc_weight c n (children_of c n) w = Some w'"
proof -
  have "\<forall>w. \<exists>w'. calc_weight c n (children_of c n) w = Some w'"
  proof (rule tree_induct_down [OF t _ n])
    fix n assume IH: "\<And>ch. ch \<in> set (children_of c n) \<Longrightarrow> \<forall>w. \<exists>w'. calc_weight c ch (children_of c ch) w = Some w'"
    have "\<exists>w'. calc_weight c n chs w = Some w'" if "set chs \<subseteq> set (children_of c n)" for chs w
      using that
    proof (induction chs arbitrary: w)
      case Nil
      then show ?case by (simp add: calc_weight.simps)
    next
      case (Cons ch chs)
      then obtain w1 where "calc_weight c ch (children_of c ch) w = Some w1" using IH by fastforce
      then show ?case using Cons by (subst calc_weight.simps) simp
    qed
    then show "\<forall>w. \<exists>w'. calc_weight c n (children_of c n) w = Some w'" by blast
  qed
  then show ?thesis by blast
qed

text \<open>Every node contributes its own requests and those of the nodes below it, each once.\<close>

definition requests_below :: "nat set \<Rightarrow> radix_cache \<Rightarrow> (nat \<Rightarrow> 'r list) \<Rightarrow> nat \<Rightarrow> 'r multiset" where
  "requests_below S c reqs n = (\<Sum>m \<in> below S c n. mset (reqs m))"

lemma requests_below_unfold:
  assumes t: "tree_ok cfg S c" and n: "n \<in> S"
  shows "requests_below S c reqs n =
    mset (reqs n) + (\<Sum>ch \<in> set (children_of c n). requests_below S c reqs ch)"
proof -
  have fin: "finite (below S c m)" for m using t by (simp add: below_def tree_ok_def)
  let ?U = "\<Union>ch \<in> set (children_of c n). below S c ch"
  have "n \<notin> ?U" using below_notin [OF t n] by blast
  moreover have "(\<Sum>m \<in> ?U. mset (reqs m)) = (\<Sum>ch \<in> set (children_of c n). requests_below S c reqs ch)"
    unfolding requests_below_def
    by (rule sum.UNION_disjoint) (use fin below_disjoint [OF t n] in \<open>auto\<close>)
  ultimately show ?thesis using fin by (simp add: requests_below_def below_unfold [OF t n])
qed

lemma dfs_priority_block:
  assumes t: "tree_ok cfg S c" and n: "n \<in> S"
  shows "\<exists>f. mset f = requests_below S c reqs n
    \<and> (\<forall>ns q. dfs_priority c w reqs (n # ns) q = dfs_priority c w reqs ns (q @ f))"
proof (rule tree_induct_down [OF t _ n])
  fix n assume n: "n \<in> S" and IH: "\<And>ch. ch \<in> set (children_of c n) \<Longrightarrow>
    \<exists>f. mset f = requests_below S c reqs ch
      \<and> (\<forall>ns q. dfs_priority c w reqs (ch # ns) q = dfs_priority c w reqs ns (q @ f))"
  have blk: "\<exists>f. mset f = (\<Sum>ch \<in> set chs. requests_below S c reqs ch) \<and> (\<forall>q. dfs_priority c w reqs chs q = Some (q @ f))"
    if "set chs \<subseteq> set (children_of c n)" "distinct chs" for chs
    using that
  proof (induction chs)
    case Nil
    then show ?case by (intro exI [of _ "[]"]) (simp add: dfs_priority.simps)
  next
    case (Cons ch chs)
    then obtain f g where f: "mset f = requests_below S c reqs ch"
        "\<And>ns q. dfs_priority c w reqs (ch # ns) q = dfs_priority c w reqs ns (q @ f)"
      and g: "mset g = (\<Sum>ch \<in> set chs. requests_below S c reqs ch)" "\<And>q. dfs_priority c w reqs chs q = Some (q @ g)"
      using IH [of ch] by auto
    have "mset (f @ g) = (\<Sum>ch \<in> set (ch # chs). requests_below S c reqs ch)" using f(1) g(1) Cons.prems by simp
    then show ?case using f(2) g(2) by (intro exI [of _ "f @ g"]) simp
  qed
  let ?chs = "sort_key (\<lambda>x. - w x) (children_of c n)"
  obtain f where f: "mset f = (\<Sum>ch \<in> set ?chs. requests_below S c reqs ch)" "\<And>q. dfs_priority c w reqs ?chs q = Some (q @ f)"
    using blk [of ?chs] distinct_children [OF t n] by auto
  have "dfs_priority c w reqs (n # ns) q = dfs_priority c w reqs ns (q @ f @ reqs n)" for ns q
    using f(2) by (subst dfs_priority.simps) simp
  moreover have "mset (f @ reqs n) = requests_below S c reqs n" using f(1) by (simp add: requests_below_unfold [OF t n])
  ultimately show "\<exists>f. mset f = requests_below S c reqs n
      \<and> (\<forall>ns q. dfs_priority c w reqs (n # ns) q = dfs_priority c w reqs ns (q @ f))" by blast
qed

lemma mset_requests_at:
  assumes "finite S" and "\<forall>r \<in> set q. \<exists>n \<in> S. last_node r = Some n"
  shows "(\<Sum>m \<in> S. mset (requests_at q m)) = mset q"
  using assms(2)
proof (induction q)
  case (Cons r q)
  then obtain n where n: "n \<in> S" "last_node r = Some n" by auto
  have "mset (requests_at (r # q) m) = (if m = n then {#r#} else {#}) + mset (requests_at q m)" for m
    using n(2) by (auto simp: requests_at_def)
  then show ?case using Cons n(1) assms(1) by (simp add: sum.distrib sum.delta)
qed (simp add: requests_at_def)

lemma sort_by_dfs_weight_perm:
  assumes t: "tree_ok cfg S c" and q: "\<forall>r \<in> set q. \<exists>n \<in> S. last_node r = Some n"
  shows "\<exists>q'. sort_by_dfs_weight c q = Some q' \<and> mset q' = mset q"
proof -
  have r: "root_node c \<in> S" and fin: "finite S" using t by (simp_all add: tree_ok_def)
  obtain w where w: "calc_weight c (root_node c) (children_of c (root_node c)) (\<lambda>n. int (length (requests_at q n))) = Some w"
    using calc_weight_total [OF t r] by blast
  obtain f where f: "mset f = requests_below S c (requests_at q) (root_node c)"
    "\<And>ns q'. dfs_priority c w (requests_at q) (root_node c # ns) q' = dfs_priority c w (requests_at q) ns (q' @ f)"
    using dfs_priority_block [OF t r, of "requests_at q" w] by blast
  have "sort_by_dfs_weight c q = Some f"
    by (simp add: sort_by_dfs_weight_def w f(2) Let_def) (simp add: dfs_priority.simps)
  moreover have "mset f = mset q" using f(1) mset_requests_at [OF fin q] by (simp add: requests_below_def below_root [OF t])
  ultimately show ?thesis by blast
qed

section \<open>The guarantees\<close>

definition stale_free :: "nat set \<Rightarrow> sg_req list \<Rightarrow> bool" where
  "stale_free S q \<longleftrightarrow> (\<forall>r \<in> set q. peek_matched r \<longrightarrow> (\<exists>n \<in> S. last_node r = Some n))"

lemma compute_matches:
  assumes pg: "0 < page_size (env_cfg (pol_sched pe))" and bg: "bigram (env_cfg (pol_sched pe)) = None"
    and bl: "\<forall>n. length (blank_tensor pe n) = n" and ok: "rc_ok (env_cfg (pol_sched pe)) S c"
    and rd: "\<forall>r \<in> set q. readable r"
  shows "\<exists>q' c' w' dep S'. compute_prefix_matches pe ck q c w = ret (q', c', w', dep) \<and> S \<subseteq> S'
    \<and> rc_ok (env_cfg (pol_sched pe)) S' c' \<and> keeps S c c' \<and> root_node c' = root_node c \<and> map bare q' = map bare q
    \<and> list_all2 (\<lambda>r r'. if peek_matched r then r' = r else matched_in S' c' r') q q' \<and> dep \<subseteq> queue_rids q"
proof -
  have bl': "length (blank_tensor pe n) = n" for n using bl by simp
  obtain q' c' w' dep S' W' where m: "match_all pe ck 0 q c (cache_reset (reset_clock ck) w) {} = ret (q', c', w', dep)"
    "S \<subseteq> S'" "rc_ok (env_cfg (pol_sched pe)) S' c'" "rc_ok sim_config W' w'" "keeps S c c'" "root_node c' = root_node c"
    "map bare q' = map bare q" "list_all2 (\<lambda>r r'. if peek_matched r then r' = r else matched_in S' c' r') q q'"
    "{} \<subseteq> dep" "dep \<subseteq> {} \<union> queue_rids q"
    using match_all_ok [OF pg bg bl' ok rc_ok_reset [of sim_config "reset_clock ck" w] rd, where ck=ck and k=0 and dep="{}"]
    by (elim exE conjE) (rule that)
  then show ?thesis unfolding compute_prefix_matches_def
    by (intro exI [of _ q'] exI [of _ c'] exI [of _ w'] exI [of _ dep] exI [of _ S']) simp
qed

lemma nodes_of_matched:
  assumes "list_all2 (\<lambda>r r'. if peek_matched r then r' = r else matched_in S' c' r') q q'"
    and "stale_free S q" and "S \<subseteq> S'"
  shows "\<forall>r \<in> set q'. \<exists>n \<in> S'. last_node r = Some n"
proof
  fix r' assume "r' \<in> set q'"
  then obtain i where i: "i < length q'" "q' ! i = r'" unfolding in_set_conv_nth by blast
  let ?r = "q ! i"
  have "?r \<in> set q" "if peek_matched ?r then r' = ?r else matched_in S' c' r'"
    using assms(1) i by (auto simp: list_all2_conv_all_nth)
  then show "\<exists>n \<in> S'. last_node r' = Some n"
    using assms(2,3) by (auto simp: matched_in_def stale_free_def split: if_splits)
qed

lemma mset_sort_by_longest_prefix [simp]: "mset (sort_by_longest_prefix dep q) = mset q"
  by (simp add: sort_by_longest_prefix_def)

lemma mset_map_eq: "mset q' = mset q \<Longrightarrow> mset (map f q') = mset (map f q)"
  by simp

text \<open>
  C19: Prefix matching of the waiting queue returns; it leaves requests that carry a group match
  alone, gives every other request a node of the live tree whose path spells a prefix of its
  tokens, keeps the tree well formed with all its contents, and only deprioritizes requests of
  the queue.
\<close>

theorem prefix_matching_correct:
  assumes "0 < page_size (env_cfg (pol_sched pe))" and "bigram (env_cfg (pol_sched pe)) = None"
    and "\<forall>n. length (blank_tensor pe n) = n" and "rc_ok (env_cfg (pol_sched pe)) S c"
    and "\<forall>r \<in> set q. readable r"
  shows "\<exists>q' c' w' dep S'. compute_prefix_matches pe ck q c w = ret (q', c', w', dep) \<and> S \<subseteq> S'
    \<and> rc_ok (env_cfg (pol_sched pe)) S' c' \<and> keeps S c c' \<and> map bare q' = map bare q
    \<and> list_all2 (\<lambda>r r'. if peek_matched r then r' = r else matched_in S' c' r') q q' \<and> dep \<subseteq> queue_rids q"
  using compute_matches [OF assms, of ck w] by blast

definition sample_env :: policy_env where
  "sample_env = \<lparr>pol_sched = \<lparr>env_cfg = sim_config, default_hit = 0\<rparr>, check_threshold = 32,
     deprioritize_threshold = 32, blank_tensor = (\<lambda>n. replicate n 0)\<rparr>"

definition sample_clocks :: match_clocks where
  "sample_clocks = \<lparr>reset_clock = (\<lambda>_. 0), live_clock = (\<lambda>_ _. 1), batch_clock = (\<lambda>_ _. 2), insert_clock = (\<lambda>_ _. 3)\<rparr>"

lemma sample_env_ok:
  "0 < page_size (env_cfg (pol_sched sample_env))" "bigram (env_cfg (pol_sched sample_env)) = None"
  "\<forall>n. length (blank_tensor sample_env n) = n"
  "rc_ok (env_cfg (pol_sched sample_env)) {root_node (cache_init (\<lambda>_. 0))} (cache_init (\<lambda>_. 0))"
  by (simp_all add: sample_env_def sim_config_def rc_ok_init)

lemma sample_queue_readable: "\<forall>r \<in> set [sample_req, sample_sg ''b'' [1]]. readable r"
  by (simp add: readable_def sample_req_def sample_sg_def)

theorem prefix_matching_correct_witness:
  "\<exists>q' c' w' dep. compute_prefix_matches sample_env sample_clocks [sample_req, sample_sg ''b'' [1]]
     (cache_init (\<lambda>_. 0)) (cache_init (\<lambda>_. 0)) = ret (q', c', w', dep) \<and> dep \<subseteq> {''r1'', ''b''}"
proof -
  have "queue_rids [sample_req, sample_sg ''b'' [1]] = {''r1'', ''b''}"
    by (auto simp: queue_rids_def sample_req_def sample_sg_def)
  with prefix_matching_correct [OF sample_env_ok sample_queue_readable, of sample_clocks "cache_init (\<lambda>_. 0)"]
  show ?thesis by (elim exE conjE) (auto simp del: list.set)
qed

text \<open>
  The longest-prefix sort keeps the requests: first those that are not deprioritized, longer
  cached prefixes first, then the deprioritized ones in queue order.
\<close>

lemma longest_prefix_layout:
  "\<exists>front. sort_by_longest_prefix dep q = front @ filter (deprioritized dep) q
     \<and> mset front = mset (filter (\<lambda>r. \<not> deprioritized dep r) q)
     \<and> sorted_wrt (\<lambda>x y. length (indices_of y) \<le> length (indices_of x)) front"
proof -
  let ?k = "longest_prefix_key dep" and ?s = "sort_by_longest_prefix dep q"
  define front where "front = filter (\<lambda>r. \<not> deprioritized dep r) ?s"
  have srt: "sorted_wrt (\<lambda>x y. ?k x \<le> ?k y) ?s"
    unfolding sort_by_longest_prefix_def by (rule sort_key_sorted_wrt)
  have split: "filter (\<lambda>r. \<not> P r) s @ filter P s = s"
    if "sorted_wrt (\<lambda>x y. P x \<longrightarrow> P y) s" for P and s :: "sg_req list"
    using that by (induction s) (auto simp: filter_empty_conv filter_id_conv)
  have "sorted_wrt (\<lambda>x y. deprioritized dep x \<longrightarrow> deprioritized dep y) ?s"
    by (rule sorted_wrt_mono_rel [OF _ srt]) (auto simp: longest_prefix_key_def split: if_splits)
  then have e: "?s = front @ filter (deprioritized dep) ?s" unfolding front_def by (simp add: split)
  have "filter (\<lambda>r. ?k r = (1, 0)) ?s = filter (\<lambda>r. ?k r = (1, 0)) q"
    unfolding sort_by_longest_prefix_def by (rule sort_key_stable)
  moreover have "(?k r = (1, 0)) = deprioritized dep r" for r by (simp add: longest_prefix_key_def)
  ultimately have "filter (deprioritized dep) ?s = filter (deprioritized dep) q" by simp
  moreover have "mset front = mset (filter (\<lambda>r. \<not> deprioritized dep r) q)" by (simp add: front_def)
  moreover have "sorted_wrt (\<lambda>x y. length (indices_of y) \<le> length (indices_of x)) front"
    unfolding front_def
    by (rule sorted_wrt_mono_rel [OF _ sorted_wrt_filter [OF srt]])
      (auto simp: longest_prefix_key_def split: if_splits)
  ultimately show ?thesis using e by metis
qed

text \<open>
  Under every policy the stock \<open>calc_priority\<close> returns, keeps exactly the waiting requests and
  the tree with its contents, and reports that prefixes were computed exactly under a cache-aware
  policy.
\<close>

lemma calc_priority_only_reorders:
  assumes pg: "0 < page_size (env_cfg (pol_sched pe))" and bg: "bigram (env_cfg (pol_sched pe)) = None"
    and bl: "\<forall>n. length (blank_tensor pe n) = n" and ok: "rc_ok (env_cfg (pol_sched pe)) S (pol_tree p)"
    and rd: "\<forall>r \<in> set q. readable r" and st: "stale_free S q" and sh: "\<forall>xs. mset (shuffle xs) = mset xs"
    and en: "\<forall>r \<in> set q. wait_entry r \<noteq> None"
  shows "\<exists>p' q' S'. calc_priority_stock pe ck shuffle running p q =
      ret (p', q', cache_aware (determine_active_policy (pol_policy p) q))
    \<and> mset (map bare q') = mset (map bare q) \<and> S \<subseteq> S' \<and> rc_ok (env_cfg (pol_sched pe)) S' (pol_tree p')
    \<and> keeps S (pol_tree p) (pol_tree p')"
proof -
  have refl: "keeps S (pol_tree p) (pol_tree p)" by (simp add: keeps_def)
  obtain q1 c w dep S' where m: "compute_prefix_matches pe ck q (pol_tree p) (pol_batch_tree p) = ret (q1, c, w, dep)"
    "S \<subseteq> S'" "rc_ok (env_cfg (pol_sched pe)) S' c" "keeps S (pol_tree p) c" "map bare q1 = map bare q"
    "list_all2 (\<lambda>r r'. if peek_matched r then r' = r else matched_in S' c r') q q1"
    using compute_matches [OF pg bg bl ok rd, of ck "pol_batch_tree p"] by blast
  have "tree_ok (env_cfg (pol_sched pe)) S' c" using m(3) by (simp add: rc_ok_def)
  from sort_by_dfs_weight_perm [OF this nodes_of_matched [OF m(6) st m(2)]]
  obtain q2 where q2: "sort_by_dfs_weight c q1 = Some q2" "mset q2 = mset q1" by blast
  have b1: "mset (map bare q2) = mset (map bare q)" using q2(2) m(5) by (metis mset_map)
  have b2: "mset (map bare (sort_by_longest_prefix dep q1)) = mset (map bare q)" using m(5) by (metis mset_map mset_sort_by_longest_prefix)
  have b3: "mset (map bare (shuffle q)) = mset (map bare q)" using sh by (simp only: mset_map)
  have b4: "mset (map bare (sort_by_routing_key batch q)) = mset (map bare q)" for batch
    by (simp add: sort_by_routing_key_def Let_def)
  have b5: "mset (map bare (sort_by_longest_output ps sign q)) = mset (map bare q)" for ps sign
    by (simp add: sort_by_longest_output_def)
  have "map_res entry_time q = Inr (map (\<lambda>r. the (wait_entry r)) q)"
    by (rule map_res_total) (use en in \<open>auto simp: entry_time_def\<close>)
  then obtain q3 where q3: "sort_by_priority_and_fcfs (priority_sign p) q = Inr q3" "mset q3 = mset q"
    by (simp add: sort_by_priority_and_fcfs_def)
  then have b6: "mset (map bare q3) = mset (map bare q)" by (simp only: mset_map)
  show ?thesis
  proof (cases "pol_policy p = Fcfs")
    case True
    then show ?thesis using refl ok q3(1) b6
      by (auto simp: calc_priority_stock_def cache_aware_def determine_active_policy_def)
  next
    case F: False
    show ?thesis
    proof (cases "determine_active_policy (pol_policy p) q")
      case Lpm
      then show ?thesis using F m(1-4) b2
        by (intro exI [of _ "p\<lparr>pol_tree := c, pol_batch_tree := w\<rparr>"] exI [of _ "sort_by_longest_prefix dep q1"] exI [of _ S'])
          (simp add: calc_priority_stock_def cache_aware_def)
    next
      case DfsWeight
      then show ?thesis using F m(1-4) b1 q2(1)
        by (intro exI [of _ "p\<lparr>pol_tree := c, pol_batch_tree := w\<rparr>"] exI [of _ q2] exI [of _ S'])
          (simp add: calc_priority_stock_def cache_aware_def)
    qed (use F refl ok b3 b4 b5 in \<open>auto simp: calc_priority_stock_def cache_aware_def split: option.splits\<close>)
  qed
qed


end
