(* ===== verification/Peek_Engine.thy ===== *)
theory Peek_Engine
  imports Policy_Props
begin

text \<open>
  \<open>PeekEngine\<close> of \<open>src/python/peek/offline/engine.py\<close>: one scheduling cycle of the SGLang side.
  The engine's state holds what it reaches by reference: the tree, the simulated tree of the
  policy, the shared store and the dispatcher (\<open>None\<close> when the client runs elsewhere).
\<close>

section \<open>State\<close>

record engine =
  eng_tree :: radix_cache
  eng_prev :: "nat list option"
  eng_batch_tree :: radix_cache
  eng_store :: cache_store
  eng_disp :: "dispatcher option"
  eng_targets :: "nat list"
  eng_profile_count :: int
  eng_profile_total :: pyfloat

definition eng_key_len :: nat where
  "eng_key_len = 64"

definition engine_init :: "radix_cache \<Rightarrow> radix_cache \<Rightarrow> cache_store \<Rightarrow> engine" where
  "engine_init tree batch_tree store =
     \<lparr>eng_tree = tree, eng_prev = None, eng_batch_tree = batch_tree, eng_store = store, eng_disp = None,
      eng_targets = [], eng_profile_count = 0, eng_profile_total = 0\<rparr>"

definition is_enabled :: "string option \<Rightarrow> string option \<Rightarrow> bool" where
  "is_enabled eviction_policy env_var \<longleftrightarrow>
     (case eviction_policy of None \<Rightarrow> False | Some p \<Rightarrow> p = ''queue-aware'' \<or> p = ''lrfu'')
     \<or> env_var = Some ''1''"

section \<open>Tags\<close>

definition tagged :: "sg_req \<Rightarrow> bool" where
  "tagged r = (case sg_rid r of None \<Rightarrow> False | Some rid \<Rightarrow> startswith rid ''peek:'')"

definition has_peek_tags :: "sg_req list \<Rightarrow> bool" where
  "has_peek_tags q = (case q of [] \<Rightarrow> False | r # _ \<Rightarrow> tagged r)"

definition parse_peek_rid :: "string \<Rightarrow> (int \<times> int \<times> string) res" where
  "parse_peek_rid rid =
     (case split_n (CHR '':'') 3 rid of
        [p0, p1, p2, p3] \<Rightarrow>
          if p0 = ''peek''
          then rbind (py_int p1) (\<lambda>a. rbind (py_int p2) (\<lambda>b. Inr (a, b, p3)))
          else Inr (0, 0, rid)
      | _ \<Rightarrow> Inr (0, 0, rid))"

definition rid_text :: "sg_req \<Rightarrow> string" where
  "rid_text r = (case sg_rid r of None \<Rightarrow> '''' | Some rid \<Rightarrow> rid)"

definition parse_tag :: "sg_req \<Rightarrow> (int \<times> int \<times> string) res" where
  "parse_tag r = parse_peek_rid (rid_text r)"

text \<open>The parts of a tag whose parsing has succeeded.\<close>

definition tag_parts :: "sg_req \<Rightarrow> int \<times> int \<times> string" where
  "tag_parts r = (case parse_tag r of Inl _ \<Rightarrow> (0, 0, rid_text r) | Inr t \<Rightarrow> t)"

definition tag_rank :: "sg_req \<Rightarrow> int" where "tag_rank r = fst (tag_parts r)"
definition tag_group :: "sg_req \<Rightarrow> int" where "tag_group r = fst (snd (tag_parts r))"
definition tag_orig :: "sg_req \<Rightarrow> string" where "tag_orig r = snd (snd (tag_parts r))"

section \<open>The tagged cycle\<close>

text \<open>Step 2: requests without a tag are not collected; a malformed tag raises.\<close>

definition group_by_tag :: "sg_req list \<Rightarrow> (int, sg_req list) pydict res" where
  "group_by_tag q =
     rbind (map_res parse_tag (filter tagged q)) (\<lambda>_. Inr (group_by tag_group (filter tagged q)))"

definition stat_prefix_len :: "'k group_stat \<Rightarrow> int" where
  "stat_prefix_len st = int (length (ids_of (hd (gs_members st))))"

definition stat_frac :: "'k group_stat \<Rightarrow> pyfloat" where
  "stat_frac st = int_div (gs_cached st) (max (stat_prefix_len st) 1)"

definition max_wait :: "pyfloat \<Rightarrow> sg_req list \<Rightarrow> pyfloat" where
  "max_wait now ms =
     foldl (\<lambda>m r. let arr = (case wait_entry r of None \<Rightarrow> 0 | Some t \<Rightarrow> t) in
              if 0 < arr then max m (fsub now arr) else m) 0 ms"

definition tag_score :: "pyfloat \<Rightarrow> (int, int) pydict \<Rightarrow> int group_stat \<Rightarrow> pyfloat" where
  "tag_score now pending st =
     (let queue_count = int (length (gs_members st));
          total_pending = dget_or pending (gs_key st) queue_count;
          future_refs = max 0 (total_pending - batch_est)
      in fadd (fadd (fadd (fsub (fmul (stat_frac st) 10000) (of_pyint future_refs)) (fmul (gs_risk st) 100))
                 (fmul (max_wait now (gs_members st)) 100))
           (fmul (of_pyint queue_count) (fl (1 / 1000))))"

definition dfs_rank_of :: "int group_stat \<Rightarrow> int" where
  "dfs_rank_of st = tag_rank (hd (gs_members st))"

text \<open>Step 7: the nodes to protect, of the first \<open>k\<close> groups whose prefix is cached.\<close>

definition cached_nodes :: "nat \<Rightarrow> int group_stat list \<Rightarrow> nat list" where
  "cached_nodes k scored = concat (map (\<lambda>st. if 0 < stat_frac st then [gs_node st] else []) (take k scored))"

text \<open>Step 9: the admitted requests leave the client's trie, in queue order.\<close>

fun remove_scheduled ::
  "sg_req list \<Rightarrow> dispatcher \<times> cache_store option \<Rightarrow> (dispatcher \<times> cache_store option) res" where
  "remove_scheduled [] ds = Inr ds"
| "remove_scheduled (r # rs) (d, store) =
     (if tagged r
      then rbind (parse_tag r) (\<lambda>(_, _, orig).
        case dget (rid_to_remove_info d) orig of
          None \<Rightarrow> remove_scheduled rs (d, store)
        | Some (toks, i) \<Rightarrow>
            rbind (disp_remove toks i (forget_rid orig d, store)) (remove_scheduled rs))
      else remove_scheduled rs (d, store))"

definition notify_dispatcher :: "sg_req list \<Rightarrow> engine \<Rightarrow> engine res" where
  "notify_dispatcher q e =
     (case eng_disp e of
        None \<Rightarrow> Inr e
      | Some d \<Rightarrow> rbind (remove_scheduled (take (nat batch_est) q) (d, Some (eng_store e)))
          (\<lambda>(d', store). Inr (e\<lparr>eng_disp := Some d', eng_store := the store\<rparr>)))"

definition run_tagged ::
  "sched_env \<Rightarrow> (nat \<Rightarrow> nat \<Rightarrow> pyfloat) \<Rightarrow> (nat \<Rightarrow> pyfloat) \<Rightarrow> pyfloat \<Rightarrow> engine \<Rightarrow> sg_req list \<Rightarrow>
     (engine \<times> sg_req list \<times> int) run"
where
  "run_tagged env tm risk_clock now e q =
     obind (reset_protection (eng_prev e) (eng_tree e)) (\<lambda>c1.
     obind (Some (group_by_tag q)) (\<lambda>tag_groups.
     obind (match_groups True env tm risk_clock 0 tag_groups c1) (\<lambda>(c2, stats).
       let pending = get_client_pending (eng_store e);
           scored = sort_key (\<lambda>st. (- tag_score now pending st, dfs_rank_of st)) stats;
           q' = concat (map gs_members scored);
           group_fracs = dict_update [] (map (\<lambda>st. (gs_key st, stat_frac st)) scored)
       in case total_size c2 of
         None \<Rightarrow> None
       | Some total_cached \<Rightarrow>
           let protected = cached_nodes (protect_k total_cached (map stat_prefix_len scored)) scored
           in obind (protect_nodes protected c2) (\<lambda>c3.
                obind (Some (notify_dispatcher q'
                         (e\<lparr>eng_tree := c3, eng_prev := Some protected,
                            eng_store := store_update group_fracs (eng_store e)\<rparr>)))
                  (\<lambda>e'. ret (e', q', int (length scored)))))))"

section \<open>The full cycle\<close>

text \<open>Groups of the requests that are not deprioritized; groups without one are left out.\<close>

record depth_stat =
  ds_key :: "int list"
  ds_members :: "sg_req list"
  ds_prefix_len :: int
  ds_frac :: pyfloat
  ds_node :: "nat option"

definition depth_stat_of :: "int list \<Rightarrow> sg_req list \<Rightarrow> depth_stat" where
  "depth_stat_of key normal =
     (let prefix_len = int (length (ids_of (hd normal)));
          total_cached = sum_list (map (\<lambda>r. int (length (indices_of r))) normal)
      in \<lparr>ds_key = key, ds_members = normal, ds_prefix_len = prefix_len,
          ds_frac = int_div total_cached (max (prefix_len * int (length normal)) 1),
          ds_node = last_node (hd normal)\<rparr>)"

definition depth_stats :: "string set \<Rightarrow> sg_req list \<Rightarrow> depth_stat list" where
  "depth_stats dep q =
     concat (map (\<lambda>(key, ms). let normal = filter (\<lambda>r. \<not> deprioritized dep r) ms in
         if normal = [] then [] else [depth_stat_of key normal])
       (group_by (prefix_key eng_key_len) q))"

definition depth_deprioritized :: "string set \<Rightarrow> sg_req list \<Rightarrow> sg_req list" where
  "depth_deprioritized dep q =
     concat (map (\<lambda>(key, ms). filter (deprioritized dep) ms) (group_by (prefix_key eng_key_len) q))"

text \<open>Step 3: keys of the groups that fit in the budget; the first group is always taken.\<close>

fun target_loop :: "int \<Rightarrow> depth_stat list \<Rightarrow> int list list \<Rightarrow> int \<Rightarrow> int list list" where
  "target_loop budget [] keys used = keys"
| "target_loop budget (g # gs) keys used =
     (if budget < used + ds_prefix_len g \<and> keys \<noteq> [] then keys
      else target_loop budget gs (keys @ [ds_key g]) (used + ds_prefix_len g))"

definition target_keys :: "int \<Rightarrow> depth_stat list \<Rightarrow> int list list" where
  "target_keys budget gs = (if 0 < budget then target_loop budget gs [] 0 else map ds_key gs)"

definition depth_score :: "int list list \<Rightarrow> depth_stat \<Rightarrow> pyfloat" where
  "depth_score targets g =
     fadd (fadd (if ds_key g \<in> set targets then 10000 else 0) (fmul (ds_frac g) 1000))
       (of_pyint (int (length (ds_members g))))"

definition depth_nodes :: "int list list \<Rightarrow> depth_stat list \<Rightarrow> nat list" where
  "depth_nodes targets gs =
     concat (map (\<lambda>g. if ds_key g \<in> set targets \<and> indices_of (hd (ds_members g)) \<noteq> []
                      then (case ds_node g of None \<Rightarrow> [] | Some n \<Rightarrow> [n]) else []) gs)"

definition queue_depth_reorder ::
  "string set \<Rightarrow> int \<Rightarrow> sg_req list \<Rightarrow> sg_req list \<times> nat list \<times> int"
where
  "queue_depth_reorder dep total_cached q =
     (let stats = sort_rev (\<lambda>g. int (length (ds_members g)) * ds_prefix_len g) (depth_stats dep q);
          budget = py_trunc (fmul (of_pyint total_cached) (3 / 4));
          targets = target_keys budget stats;
          scored = sort_rev (depth_score targets) stats
      in (concat (map ds_members scored) @ depth_deprioritized dep q, depth_nodes targets stats,
          int (length scored)))"

text \<open>Step 5: the fraction of the first request of every group, under the masked hash of its key.\<close>

definition full_frac_step ::
  "(int list \<Rightarrow> int) \<Rightarrow> (int, pyfloat) pydict \<Rightarrow> sg_req \<Rightarrow> (int, pyfloat) pydict" where
  "full_frac_step hash_of d r =
     (case origin_input_ids r of
        None \<Rightarrow> d
      | Some ids \<Rightarrow>
          let h = mask32 (hash_of (take eng_key_len ids)) in
          if dget d h = None
          then dset h (int_div (int (length (indices_of r))) (max (int (length ids)) 1)) d else d)"

definition full_fracs :: "(int list \<Rightarrow> int) \<Rightarrow> sg_req list \<Rightarrow> (int, pyfloat) pydict" where
  "full_fracs hash_of q = foldl (full_frac_step hash_of) [] q"

definition run_full ::
  "policy_env \<Rightarrow> match_clocks \<Rightarrow> (int list \<Rightarrow> int) \<Rightarrow> engine \<Rightarrow> sg_req list \<Rightarrow>
     (engine \<times> sg_req list \<times> int) run"
where
  "run_full pe ck hash_of e q =
     obind (reset_protection (eng_prev e) (eng_tree e)) (\<lambda>c1.
     obind (compute_prefix_matches pe ck q c1 (eng_batch_tree e)) (\<lambda>(q1, c2, w, dep).
       case total_size c2 of
         None \<Rightarrow> None
       | Some total_cached \<Rightarrow>
           let (q2, targets, n_groups) =
                 (if 1 < length q1 \<and> detect_sharing_sglang 64 q1
                  then queue_depth_reorder dep total_cached q1
                  else (sort_by_longest_prefix dep q1, [], int (length q1)))
           in obind (protect_nodes targets c2) (\<lambda>c3.
                ret (e\<lparr>eng_tree := c3, eng_batch_tree := w, eng_targets := targets, eng_prev := Some targets,
                       eng_store := store_update (full_fracs hash_of q2) (eng_store e)\<rparr>, q2, n_groups))))"

text \<open>\<open>run\<close> counts the cycle and always reports that prefixes were computed.\<close>

definition log_profile :: "pyfloat \<Rightarrow> engine \<Rightarrow> engine" where
  "log_profile elapsed e =
     e\<lparr>eng_profile_count := eng_profile_count e + 1, eng_profile_total := fadd (eng_profile_total e) elapsed\<rparr>"

definition engine_run ::
  "policy_env \<Rightarrow> match_clocks \<Rightarrow> (nat \<Rightarrow> nat \<Rightarrow> pyfloat) \<Rightarrow> (nat \<Rightarrow> pyfloat) \<Rightarrow> pyfloat \<Rightarrow>
     (int list \<Rightarrow> int) \<Rightarrow> pyfloat \<Rightarrow> engine \<Rightarrow> sg_req list \<Rightarrow> (engine \<times> sg_req list \<times> bool) run"
where
  "engine_run pe ck tm risk_clock now hash_of elapsed e q =
     obind (if has_peek_tags q then run_tagged (pol_sched pe) tm risk_clock now e q
            else run_full pe ck hash_of e q)
       (\<lambda>(e', q', _). ret (log_profile elapsed e', q', True))"

section \<open>Tags round trip\<close>

lemma show_int_no_colon: "CHR '':'' \<notin> set (show_int i)"
  using show_int_chars by (force simp: is_digit_def)

lemma peek_no_colon: "CHR '':'' \<notin> set ''peek''"
  by simp

lemma parse_peek_tag: "parse_peek_rid (peek_tag rank h orig) = Inr (rank, h, orig)"
proof -
  have "peek_tag rank h orig = ''peek'' @ CHR '':'' # (show_int rank @ CHR '':'' # (show_int h @ CHR '':'' # orig))"
    by (simp add: peek_tag_def)
  moreover have "split_n (CHR '':'') 3 (''peek'' @ CHR '':'' # (show_int rank @ CHR '':'' # (show_int h @ CHR '':'' # orig)))
      = [''peek'', show_int rank, show_int h, orig]"
    unfolding numeral_3_eq_3 split_n_Suc [OF peek_no_colon] split_n_Suc [OF show_int_no_colon] by simp
  ultimately show ?thesis by (simp add: parse_peek_rid_def)
qed

text \<open>
  A request submitted to the dispatcher is grouped by the engine under the hash the dispatcher
  keeps for its prefix, with the rank and the original id it was sent with, whatever characters
  the id has.
\<close>

lemma parse_tag_roundtrip:
  assumes "sg_rid r = req_rid (tag_request rank h orig req)"
  shows "tagged r \<and> parse_tag r = Inr (rank, h, orig) \<and> tag_group r = h \<and> tag_rank r = rank \<and> tag_orig r = orig"
  using assms
  by (simp add: tag_request_def tagged_def parse_tag_def rid_text_def parse_peek_tag tag_group_def tag_rank_def
      tag_orig_def tag_parts_def) (simp add: startswith_def peek_tag_def)


end
