(* ===== verification/Engine_Props.thy ===== *)
theory Engine_Props
  imports Peek_Engine
begin

text \<open>
  What one cycle of the engine guarantees: the tagged path, the full path, the choice of the target
  groups, and the exchange with the dispatcher and the store.
\<close>

section \<open>Telling the dispatcher\<close>

definition well_tagged :: "sg_req list \<Rightarrow> bool" where
  "well_tagged q \<longleftrightarrow> (\<forall>r \<in> set q. tagged r \<longrightarrow> (\<exists>t. parse_tag r = Inr t))"

lemma parse_tag_parts: "parse_tag r = Inr t \<Longrightarrow> t = (tag_rank r, tag_group r, tag_orig r)"
  by (simp add: tag_rank_def tag_group_def tag_orig_def tag_parts_def)

lemma push_keeps_fracs:
  "push_pending_to_server d (Some s) = Inr store' \<Longrightarrow> \<exists>s'. store' = Some s' \<and> group_cache_frac s' = group_cache_frac s"
  by (auto simp: push_pending_to_server_def rbind_Inr_iff update_client_pending_def)

lemma remove_recorded:
  assumes wf: "wf_disp h d" and r: "dget (rid_to_remove_info d) o' = Some (toks, i)"
  shows "\<exists>d' s'. disp_remove toks i (forget_rid o' d, Some s) = Inr (d', Some s') \<and> wf_disp h d'
    \<and> published h d' (Some s') \<and> group_cache_frac s' = group_cache_frac s
    \<and> rid_to_remove_info d' = ddel o' (rid_to_remove_info d)"
proof -
  let ?d = "forget_rid o' d"
  have wf1: "wf_disp h ?d" by (rule wf_forget_rid [OF wf])
  have "(py_prefix (disp_max_depth ?d) toks, i) \<in># contents (disp_trie ?d)"
    using info_in_trie [OF wf r] by (simp add: forget_rid_def)
  from wf_drop_request [OF wf1 this forget_rid_fresh [OF wf r]] have wf2: "wf_disp h (drop_request toks i ?d)" .
  obtain s' where s': "push_pending_to_server (drop_request toks i ?d) (Some s) = Inr s'"
    "published h (drop_request toks i ?d) s'" using push_pending_total [OF wf2] by blast
  obtain s1 where s1: "s' = Some s1" "group_cache_frac s1 = group_cache_frac s" using push_keeps_fracs [OF s'(1)] by blast
  have "rid_to_remove_info (drop_request toks i ?d) = ddel o' (rid_to_remove_info d)"
    by (simp add: drop_request_def forget_rid_def)
  then show ?thesis using disp_remove_eq [OF s'(1)] wf2 s'(2) s1 by auto
qed

lemma remove_scheduled_ok:
  assumes "wf_disp h d" and "published h d (Some s)" and "well_tagged rs"
  shows "\<exists>d' s'. remove_scheduled rs (d, Some s) = Inr (d', Some s') \<and> wf_disp h d' \<and> published h d' (Some s')
    \<and> group_cache_frac s' = group_cache_frac s
    \<and> (\<forall>k. dget (rid_to_remove_info d') k =
         (if k \<in> tag_orig ` set (filter tagged rs) then None else dget (rid_to_remove_info d) k))"
  using assms
proof (induction rs arbitrary: d s)
  case (Cons r rs)
  have wt: "well_tagged rs" using Cons.prems(3) by (simp add: well_tagged_def)
  show ?case
  proof (cases "tagged r")
    case False
    then show ?thesis using Cons.IH [OF Cons.prems(1,2) wt] by simp
  next
    case True
    then have p: "parse_tag r = Inr (tag_rank r, tag_group r, tag_orig r)"
      using Cons.prems(3) parse_tag_parts by (force simp: well_tagged_def)
    show ?thesis
    proof (cases "dget (rid_to_remove_info d) (tag_orig r)")
      case None
      from Cons.IH [OF Cons.prems(1,2) wt] obtain d' s' where
        "remove_scheduled rs (d, Some s) = Inr (d', Some s')" "wf_disp h d'" "published h d' (Some s')"
        "group_cache_frac s' = group_cache_frac s"
        "\<forall>k. dget (rid_to_remove_info d') k =
          (if k \<in> tag_orig ` set (filter tagged rs) then None else dget (rid_to_remove_info d) k)" by blast
      then show ?thesis using True p None by (intro exI [of _ d'] exI [of _ s']) auto
    next
      case (Some v)
      obtain toks i where v: "v = (toks, i)" by (cases v)
      obtain d1 s1 where 1: "disp_remove toks i (forget_rid (tag_orig r) d, Some s) = Inr (d1, Some s1)" "wf_disp h d1"
        "published h d1 (Some s1)" "group_cache_frac s1 = group_cache_frac s"
        "rid_to_remove_info d1 = ddel (tag_orig r) (rid_to_remove_info d)"
        using remove_recorded [OF Cons.prems(1) Some [unfolded v]] by blast
      from Cons.IH [OF 1(2,3) wt] obtain d' s' where
        "remove_scheduled rs (d1, Some s1) = Inr (d', Some s')" "wf_disp h d'" "published h d' (Some s')"
        "group_cache_frac s' = group_cache_frac s1"
        "\<forall>k. dget (rid_to_remove_info d') k =
          (if k \<in> tag_orig ` set (filter tagged rs) then None else dget (rid_to_remove_info d1) k)" by blast
      then show ?thesis using True p Some v 1 by (intro exI [of _ d'] exI [of _ s']) (auto simp: dict_simps)
    qed
  qed
qed simp

section \<open>The tagged cycle\<close>

lemma tag_group_bare: "bare r = bare r' \<Longrightarrow> tag_group r = tag_group r'"
  using ids_of_bare_eq by (metis parse_tag_def rid_text_def tag_group_def tag_parts_def)

lemma group_by_tag_total: "well_tagged q \<Longrightarrow> group_by_tag q = Inr (group_by tag_group (filter tagged q))"
  using map_res_total [of "filter tagged q" parse_tag "\<lambda>r. (tag_rank r, tag_group r, tag_orig r)"]
  by (force simp: group_by_tag_def well_tagged_def dest: parse_tag_parts)

lemma cached_nodes_in:
  "\<forall>st \<in> set stats. stat_ok S c st \<Longrightarrow> set (cached_nodes k stats) \<subseteq> S"
  by (auto simp: cached_nodes_def stat_ok_def dest!: in_set_takeD split: if_splits)

lemma length_cached_nodes: "length (cached_nodes k stats) \<le> min k (length stats)"
proof -
  have "length (concat (map (\<lambda>st. if 0 < stat_frac st then [gs_node st] else []) xs)) \<le> length xs" for xs
    by (induction xs) auto
  from this [of "take k stats"] show ?thesis by (simp add: cached_nodes_def min.commute)
qed

text \<open>The order of the groups: descending score, then ascending client rank.\<close>

definition tag_order :: "pyfloat \<Rightarrow> (int, int) pydict \<Rightarrow> int group_stat \<Rightarrow> int group_stat \<Rightarrow> bool" where
  "tag_order now pending x y \<longleftrightarrow> tag_score now pending y < tag_score now pending x
     \<or> (tag_score now pending y = tag_score now pending x \<and> dfs_rank_of x \<le> dfs_rank_of y)"

lemma matched_queue_keeps:
  assumes "matched_queue key S c q stats" and "S \<subseteq> S'" and "keeps S c c'"
  shows "matched_queue key S' c' q stats"
  using assms(1) stat_ok_keeps [OF _ assms(2,3)] unfolding matched_queue_def by blast

lemma paths_of:
  assumes "rc_ok cfg S c" and "set ns \<subseteq> S"
  shows "\<forall>n \<in> set ns. \<exists>ms. up_path c n ms"
proof
  fix n assume "n \<in> set ns"
  then have "tree_ok cfg S c" "n \<in> S" using assms by (auto simp: rc_ok_def)
  then show "\<exists>ms. up_path c n ms" using infinite_descent_depth by blast
qed

lemma store_update_frac:
  "wf_dict f \<Longrightarrow> dget f k = Some v \<Longrightarrow> get_cache_frac (store_update f s) k = v"
  by (simp add: get_cache_frac_def store_update_def dget_or_def dget_dict_update_wf)

lemma dget_fracs:
  assumes "distinct (map gs_key stats)" and "st \<in> set stats"
  shows "dget (dict_update [] (map (\<lambda>st. (gs_key st, stat_frac st)) stats)) (gs_key st) = Some (stat_frac st)"
proof -
  have d: "distinct (map fst (map (\<lambda>st. (gs_key st, stat_frac st)) stats))" using assms(1) by (simp add: comp_def)
  then show ?thesis using assms(2) by (simp add: dict_update_Nil_distinct map_of_eq_Some_iff)
qed

text \<open>
  What the hook leaves for the next cycle: every recorded node is in the tree and has a path.
\<close>

definition prev_ok :: "radix_cache \<Rightarrow> nat list option \<Rightarrow> bool" where
  "prev_ok c prev \<longleftrightarrow> (\<forall>ns. prev = Some ns \<longrightarrow> (\<forall>n \<in> set ns. \<exists>ms. up_path c n ms))"

definition disp_ok :: "(int list \<Rightarrow> int) \<Rightarrow> engine \<Rightarrow> bool" where
  "disp_ok h e \<longleftrightarrow> (\<forall>d. eng_disp e = Some d \<longrightarrow> wf_disp h d \<and> published h d (Some (eng_store e)))"

lemma notify_ok:
  assumes wt: "well_tagged q" and ok: "\<forall>d. eng_disp e = Some d \<longrightarrow> wf_disp h d \<and> published h d (Some (eng_store e))"
  shows "\<exists>e'. notify_dispatcher q e = Inr e' \<and> disp_ok h e' \<and> eng_tree e' = eng_tree e \<and> eng_prev e' = eng_prev e
    \<and> group_cache_frac (eng_store e') = group_cache_frac (eng_store e)
    \<and> (\<forall>d'. eng_disp e' = Some d' \<longrightarrow>
         (\<forall>r \<in> set (take 32 q). tagged r \<longrightarrow> dget (rid_to_remove_info d') (tag_orig r) = None))"
proof (cases "eng_disp e")
  case None
  then show ?thesis by (simp add: notify_dispatcher_def disp_ok_def)
next
  case (Some d)
  have w: "well_tagged (take 32 q)" using wt by (auto simp: well_tagged_def dest: in_set_takeD)
  have d: "wf_disp h d" "published h d (Some (eng_store e))" using ok Some by blast+
  from remove_scheduled_ok [OF d w] obtain d' s' where
    1: "remove_scheduled (take 32 q) (d, Some (eng_store e)) = Inr (d', Some s')" "wf_disp h d'" "published h d' (Some s')"
      "group_cache_frac s' = group_cache_frac (eng_store e)"
    and 2: "\<And>k. dget (rid_to_remove_info d') k =
        (if k \<in> tag_orig ` set (filter tagged (take 32 q)) then None else dget (rid_to_remove_info d) k)" by blast
  have "nat batch_est = 32" by (simp add: batch_est_def)
  then have "notify_dispatcher q e = Inr (e\<lparr>eng_disp := Some d', eng_store := s'\<rparr>)"
    using Some 1(1) by (simp add: notify_dispatcher_def)
  moreover have "disp_ok h (e\<lparr>eng_disp := Some d', eng_store := s'\<rparr>)" using 1 by (simp add: disp_ok_def)
  moreover have "dget (rid_to_remove_info d') (tag_orig r) = None" if "r \<in> set (take 32 q)" "tagged r" for r
    using that by (subst 2) auto
  ultimately show ?thesis using 1(4) by (intro exI [of _ "e\<lparr>eng_disp := Some d', eng_store := s'\<rparr>"]) simp
qed

lemma published_fracs:
  "published h d (Some (store_update f s)) = published h d (Some s)"
  by (simp add: published_def store_update_def get_client_pending_def)

lemma well_tagged_bare:
  assumes "mset (map bare q') = mset (map bare q)" and "well_tagged q"
  shows "well_tagged q'"
  unfolding well_tagged_def
proof (intro ballI impI)
  fix r' assume r': "r' \<in> set q'" "tagged r'"
  have "set (map bare q') = set (map bare q)" using assms(1) by (metis set_mset_mset)
  then have "bare r' \<in> bare ` set q" using r'(1) by auto
  then obtain r where r: "r \<in> set q" "bare r' = bare r" by blast
  then have e: "sg_rid r' = sg_rid r" using ids_of_bare_eq by blast
  then have "tagged r" using r'(2) by (simp add: tagged_def)
  then obtain t where "parse_tag r = Inr t" using assms(2) r(1) by (auto simp: well_tagged_def)
  then show "\<exists>t. parse_tag r' = Inr t" using e by (intro exI [of _ t]) (simp add: parse_tag_def rid_text_def)
qed


definition tagged_sample :: "sg_req list" where
  "tagged_sample = [sample_sg (peek_tag 0 7 ''a'') [1, 2], sample_sg ''plain'' [1], sample_sg (peek_tag 1 9 ''b'') [3]]"

definition sample_engine :: engine where
  "sample_engine = (engine_init (cache_init (\<lambda>_. 0)) (cache_init (\<lambda>_. 0)) store_init)\<lparr>eng_disp := Some (dispatcher_init 128)\<rparr>"

lemma tagged_peek_tag: "tagged (sample_sg (peek_tag a b o') ids)" "parse_tag (sample_sg (peek_tag a b o') ids) = Inr (a, b, o')"
  "\<not> tagged (sample_sg ''plain'' ids)"
  by (simp_all add: tagged_def parse_tag_def rid_text_def sample_sg_def parse_peek_tag)
    (simp_all add: startswith_def peek_tag_def)

lemma tagged_sample_filter: "filter tagged tagged_sample = [sample_sg (peek_tag 0 7 ''a'') [1, 2], sample_sg (peek_tag 1 9 ''b'') [3]]"
  by (simp add: tagged_sample_def tagged_peek_tag)

lemma sample_engine_ok: "prev_ok (eng_tree sample_engine) (eng_prev sample_engine)" "disp_ok h sample_engine"
  "rc_ok sim_config {root_node (cache_init (\<lambda>_. 0))} (eng_tree sample_engine)"
  by (simp_all add: sample_engine_def engine_init_def prev_ok_def disp_ok_def wf_disp_init rc_ok_init published_def
      dispatcher_init_def [of 128, THEN arg_cong, of group_count])


text \<open>In a queue that starts with a tagged request, a request without a tag is lost.\<close>

lemma mixed_queue_loses_requests:
  assumes "matched_queue tag_group S c (filter tagged q) stats" and "r \<in> set q" and "\<not> tagged r"
  shows "length (concat (map gs_members stats)) < length q"
proof -
  have "length (concat (map gs_members stats)) = length (filter tagged q)"
    using assms(1) unfolding matched_queue_def by (metis size_mset length_map)
  also have "\<dots> < length q" by (rule length_filter_less [of r q tagged, OF assms(2,3)])
  finally show ?thesis .
qed

section \<open>The full cycle\<close>

lemma interleave_sums: "(a :: 'a multiset) + b = m \<Longrightarrow> x + y = z \<Longrightarrow> (a + x) + (b + y) = m + z"
  by (auto simp: ac_simps)

lemma depth_split:
  "mset (concat (map ds_members (concat (map (\<lambda>(key, ms). let normal = filter (\<lambda>r. \<not> deprioritized dep r) ms in
         if normal = [] then [] else [depth_stat_of key normal]) gs))))
    + mset (concat (map (\<lambda>(key, ms). filter (deprioritized dep) ms) gs)) = mset (concat (dvals gs))"
proof (induction gs)
  case (Cons g gs)
  obtain k ms where g: "g = (k, ms)" by (cases g)
  have m: "mset (filter (\<lambda>r. \<not> deprioritized dep r) ms) + mset (filter (deprioritized dep) ms) = mset ms"
    by (metis mset_filter multiset_partition add.commute)
  let ?n = "filter (\<lambda>r. \<not> deprioritized dep r) ms"
  have "concat (map ds_members (let normal = ?n in if normal = [] then [] else [depth_stat_of k normal])) = ?n"
    by (simp add: depth_stat_of_def Let_def)
  then have "mset (concat (map ds_members (concat (map (\<lambda>(key, ms). let normal = filter (\<lambda>r. \<not> deprioritized dep r) ms in
         if normal = [] then [] else [depth_stat_of key normal]) (g # gs))))) = mset ?n +
      mset (concat (map ds_members (concat (map (\<lambda>(key, ms). let normal = filter (\<lambda>r. \<not> deprioritized dep r) ms in
         if normal = [] then [] else [depth_stat_of key normal]) gs))))"
    unfolding g by (simp only: list.map prod.case concat.simps map_append concat_append mset_append)
  moreover have "mset (concat (map (\<lambda>(key, ms). filter (deprioritized dep) ms) (g # gs))) =
      mset (filter (deprioritized dep) ms) + mset (concat (map (\<lambda>(key, ms). filter (deprioritized dep) ms) gs))"
    by (simp add: g)
  moreover have "mset (concat (dvals (g # gs))) = mset ms + mset (concat (dvals gs))" by (simp add: g)
  ultimately show ?case by (simp only: interleave_sums [OF m Cons.IH])
qed simp

lemma mset_queue_depth_reorder:
  "mset (fst (queue_depth_reorder dep t q)) = mset q"
proof -
  let ?s = "sort_rev (\<lambda>g. int (length (ds_members g)) * ds_prefix_len g) (depth_stats dep q)"
  have p: "mset (concat (map ds_members (sort_rev f (sort_rev g xs)))) = mset (concat (map ds_members xs))" for f :: "_ \<Rightarrow> pyfloat" and g :: "_ \<Rightarrow> int" and xs
    by (rule mset_concat_perm) simp
  show ?thesis
    using depth_split [of dep "group_by (prefix_key eng_key_len) q"]
    by (simp add: queue_depth_reorder_def Let_def p depth_stats_def depth_deprioritized_def del: mset_concat)
qed

lemma depth_nodes_in:
  assumes "set (concat (map ds_members gs)) \<subseteq> set q" and "\<forall>g \<in> set gs. ds_members g \<noteq> [] \<and> ds_node g = last_node (hd (ds_members g))"
    and "\<forall>r \<in> set q. \<exists>n \<in> S. last_node r = Some n"
  shows "set (depth_nodes targets gs) \<subseteq> S"
proof
  fix n assume "n \<in> set (depth_nodes targets gs)"
  then obtain g where g: "g \<in> set gs" "ds_node g = Some n" by (auto simp: depth_nodes_def split: if_splits option.splits)
  then have "hd (ds_members g) \<in> set q" using assms(1,2) by fastforce
  then show "n \<in> S" using assms(2,3) g by force
qed

lemma depth_stats_shape:
  "g \<in> set (depth_stats dep q) \<Longrightarrow> ds_members g \<noteq> [] \<and> ds_node g = last_node (hd (ds_members g))"
  by (auto simp: depth_stats_def depth_stat_of_def Let_def split: if_splits)

lemma depth_members_in:
  assumes "g \<in> set (depth_stats dep q)" and "r \<in> set (ds_members g)"
  shows "r \<in> set q"
proof -
  obtain k ms where k: "(k, ms) \<in> set (group_by (prefix_key eng_key_len) q)" "r \<in> set ms"
    using assms by (auto simp: depth_stats_def depth_stat_of_def Let_def split: if_splits)
  from set_group_by_members [OF k(1)] k(2) show ?thesis by blast
qed

lemma reorder_targets:
  assumes "\<forall>r \<in> set q. \<exists>n \<in> S. last_node r = Some n"
  shows "set (fst (snd (queue_depth_reorder dep t q))) \<subseteq> S"
  unfolding queue_depth_reorder_def Let_def
  by (simp, rule depth_nodes_in [OF _ _ assms]) (auto dest: depth_stats_shape depth_members_in)

text \<open>
  The target set: with a budget, an initial part of the groups in descending investment that fits
  in it (or the first group alone), and the next group would not fit.
\<close>

lemma target_loop_take:
  "\<exists>n \<le> length gs. target_loop budget gs keys used = keys @ map ds_key (take n gs)
     \<and> (0 < n \<and> keys \<noteq> [] \<or> 1 < n \<longrightarrow> used + sum_list (map ds_prefix_len (take n gs)) \<le> budget)
     \<and> (n < length gs \<longrightarrow> budget < used + sum_list (map ds_prefix_len (take (Suc n) gs)) \<and> (keys = [] \<longrightarrow> 0 < n))"
proof (induction gs arbitrary: keys used)
  case (Cons g gs)
  show ?case
  proof (cases "budget < used + ds_prefix_len g \<and> keys \<noteq> []")
    case True
    then show ?thesis by (intro exI [of _ 0]) simp
  next
    case False
    obtain n where n: "n \<le> length gs"
      "target_loop budget gs (keys @ [ds_key g]) (used + ds_prefix_len g) = (keys @ [ds_key g]) @ map ds_key (take n gs)"
      "0 < n \<longrightarrow> used + ds_prefix_len g + sum_list (map ds_prefix_len (take n gs)) \<le> budget"
      "n < length gs \<longrightarrow> budget < used + ds_prefix_len g + sum_list (map ds_prefix_len (take (Suc n) gs))"
      using Cons.IH [of "keys @ [ds_key g]" "used + ds_prefix_len g"] by auto
    show ?thesis
      by (intro exI [of _ "Suc n"]) (use False n in \<open>cases "n = 0"; auto simp: add.assoc\<close>)
  qed
qed simp

text \<open>
  The target set of the full cycle is the longest initial part of the groups, in descending
  investment, that fits into the token budget; the first group is always in it.
\<close>

lemma target_keys_maximal:
  assumes "0 < budget"
  shows "\<exists>n \<le> length gs. target_keys budget gs = map ds_key (take n gs)
    \<and> (1 < n \<longrightarrow> sum_list (map ds_prefix_len (take n gs)) \<le> budget)
    \<and> (n < length gs \<longrightarrow> 0 < n \<and> budget < sum_list (map ds_prefix_len (take (Suc n) gs)))"
  using target_loop_take [of gs budget "[]" 0] assms by (auto simp: target_keys_def)


text \<open>Which requests carry a current match: all but those marked by an earlier tagged cycle.\<close>

definition refreshed :: "nat set \<Rightarrow> radix_cache \<Rightarrow> sg_req list \<Rightarrow> sg_req list \<Rightarrow> bool" where
  "refreshed S c q q' \<longleftrightarrow> list_all2 (\<lambda>r r'. if peek_matched r then r' = r else matched_in S c r') q q'"



end
