(* ===== verification/Vllm_Engine.thy ===== *)
theory Vllm_Engine
  imports Offline_Scheduler
begin

text \<open>
  The vLLM side: \<open>VllmPeekEngine\<close> of \<open>src/python/peek/offline/engine_vllm.py\<close>, its entry point
  \<open>vllm_on_schedule\<close>, and the methods the installer adds to vLLM's block pool and free-block queue.
  vLLM's own classes are not part of the repository: the lookup of a block hash and the primitive
  operations of the free queue are parameters.
\<close>

section \<open>The block pool\<close>

text \<open>
  \<open>pool_lookup h\<close> is what \<open>get_cached_block(h, group_ids)\<close> returns, \<open>[]\<close> standing for its falsy
  results; \<open>pool_blocks\<close> is the list of all blocks.
\<close>

record block_view =
  pool_lookup :: "int \<Rightarrow> nat list"
  pool_null :: "nat \<Rightarrow> bool"
  pool_blocks :: "nat list"

type_synonym ref_counts = "nat \<Rightarrow> int"

definition reset_queue_ref_counts :: "block_view \<Rightarrow> ref_counts \<Rightarrow> ref_counts" where
  "reset_queue_ref_counts v refs = foldl (\<lambda>f b. f(b := 0)) refs (pool_blocks v)"

definition inc_queue_ref_count :: "block_view \<Rightarrow> nat list \<Rightarrow> ref_counts \<Rightarrow> ref_counts" where
  "inc_queue_ref_count v blocks refs =
     foldl (\<lambda>f b. if pool_null v b then f else f(b := f b + 1)) refs blocks"

text \<open>
  \<open>popleft_queue_aware(n)\<close>: unprotected blocks first, in queue order, then the protected ones with
  the fewest references. \<open>popleft_n\<close> and \<open>remove\<close> of vLLM's queue are the parameters \<open>pop_n\<close> and
  \<open>del\<close>.
\<close>

definition popleft_queue_aware ::
  "(nat \<Rightarrow> nat list \<Rightarrow> nat list \<times> nat list) \<Rightarrow> (nat \<Rightarrow> nat list \<Rightarrow> nat list) \<Rightarrow> ref_counts \<Rightarrow> nat \<Rightarrow>
     nat list \<Rightarrow> (nat list \<times> nat list) res"
where
  "popleft_queue_aware pop_n del refs n free =
     (if length free < n then Inl ValueError
      else let unprotected = filter (\<lambda>b. refs b = 0) free;
               protected = filter (\<lambda>b. refs b \<noteq> 0) free
           in if protected = [] then Inr (pop_n n free)
              else let sorted_protected = sort_key refs protected;
                       front = take n unprotected;
                       victims = (if length front < n then front @ take (n - length front) sorted_protected else front)
                   in Inr (victims, foldl (\<lambda>fr b. del b fr) free victims))"

section \<open>The engine\<close>

record vllm_engine =
  ve_prev :: "int list option"
  ve_first_seen :: "(int list, pyfloat) pydict"
  ve_profile_count :: int
  ve_profile_total :: pyfloat

definition vllm_engine_init :: vllm_engine where
  "vllm_engine_init = \<lparr>ve_prev = None, ve_first_seen = [], ve_profile_count = 0, ve_profile_total = 0\<rparr>"

record v_item =
  vi_score :: pyfloat
  vi_key :: "int list"
  vi_members :: "v_req list"
  vi_cached :: int

definition v_key :: "v_req \<Rightarrow> int list" where
  "v_key r = (if 8 \<le> length (block_hashes r) then take 8 (block_hashes r)
     else if 0 < length (block_hashes r) then block_hashes r else [])"

definition lookup_opt :: "block_view \<Rightarrow> int \<Rightarrow> nat list option" where
  "lookup_opt v bh = (if pool_lookup v bh = [] then None else Some (pool_lookup v bh))"

definition score_group :: "block_view \<Rightarrow> int list \<Rightarrow> v_req list \<Rightarrow> v_item" where
  "score_group v key members =
     (let hashes = block_hashes (hd members);
          cached_blocks = vllm_cached_prefix_length (lookup_opt v) hashes;
          total_blocks = int (length hashes);
          group_size = int (length members);
          cache_frac = int_div cached_blocks (max total_blocks 1);
          future_refs = max 0 (group_size - batch_est)
      in \<lparr>vi_score = fadd (fsub (fmul cache_frac 10000) (of_pyint future_refs)) (fmul (of_pyint group_size) (fl (1 / 1000))),
          vi_key = key, vi_members = members, vi_cached = cached_blocks\<rparr>)"

definition match_and_score :: "block_view \<Rightarrow> (int list, v_req list) pydict \<Rightarrow> v_item list" where
  "match_and_score v groups = map (\<lambda>(key, members). score_group v key members) groups"

text \<open>Buffering thresholds by queue depth: group size and waiting time in seconds.\<close>

definition buffering :: "int \<Rightarrow> int \<times> pyfloat" where
  "buffering queue_depth =
     (if queue_depth < 8 then (1, 0) else if queue_depth \<le> 32 then (2, fl (1 / 100)) else (4, fl (3 / 100)))"

definition update_first_seen ::
  "pyfloat \<Rightarrow> int list list \<Rightarrow> (int list, pyfloat) pydict \<Rightarrow> (int list, pyfloat) pydict" where
  "update_first_seen now active seen =
     foldl (\<lambda>d k. if dget d k = None then dset k now d else d) (filter (\<lambda>(k, t). k \<in> set active) seen) active"

definition is_ready :: "int \<Rightarrow> pyfloat \<Rightarrow> (int list, pyfloat) pydict \<Rightarrow> v_item \<Rightarrow> bool" where
  "is_ready queue_depth now seen it =
     (case buffering queue_depth of (threshold, max_wait_s) \<Rightarrow>
        threshold \<le> int (length (vi_members it)) \<or> max_wait_s \<le> fsub now (dget_or seen (vi_key it) now))"

text \<open>\<open>members.sort\<close> works in place, so the caller's items hold the sorted members afterwards.\<close>

definition sort_members :: "v_item \<Rightarrow> v_item" where
  "sort_members it = it\<lparr>vi_members := sort_key (\<lambda>r. length (block_hashes r)) (vi_members it)\<rparr>"

definition partition_ready :: "(v_item \<Rightarrow> bool) \<Rightarrow> v_item list \<Rightarrow> v_item list \<times> v_item list" where
  "partition_ready P scored =
     (let ready = filter P scored;
          waiting = filter (\<lambda>it. \<not> P it) scored
      in if ready = [] \<and> waiting \<noteq> []
         then (let w = sort_rev vi_score waiting in ([hd w], tl w))
         else (ready, waiting))"

definition reorder_by_score ::
  "pyfloat \<Rightarrow> int \<Rightarrow> v_item list \<Rightarrow> int list list \<Rightarrow> vllm_engine \<Rightarrow> vllm_engine \<times> v_req list" where
  "reorder_by_score now queue_depth scored active e =
     (let seen = update_first_seen now active (ve_first_seen e);
          (ready, waiting) = partition_ready (is_ready queue_depth now seen) scored
      in (e\<lparr>ve_first_seen := seen\<rparr>,
          concat (map (vi_members \<circ> sort_members) (sort_rev vi_score ready))
          @ concat (map (vi_members \<circ> sort_members) (sort_rev vi_score waiting))))"

definition clear_blocks :: "nat list \<Rightarrow> ref_counts \<Rightarrow> ref_counts" where
  "clear_blocks bs refs = foldl (\<lambda>f b. f(b := 0)) refs bs"

definition reset_queue_refs :: "block_view \<Rightarrow> vllm_engine \<Rightarrow> ref_counts \<Rightarrow> ref_counts" where
  "reset_queue_refs v e refs =
     (case ve_prev e of
        None \<Rightarrow> reset_queue_ref_counts v refs
      | Some hashes \<Rightarrow> foldl (\<lambda>f bh. clear_blocks (pool_lookup v bh) f) refs hashes)"

text \<open>How many groups fit in two thirds of the pool, all divisions being floor divisions.\<close>

definition vllm_protect_k :: "block_view \<Rightarrow> v_item list \<Rightarrow> nat" where
  "vllm_protect_k v scored =
     (let num_groups = int (length scored);
          total_pool_blocks = int (length (pool_blocks v));
          avg = max 1 (sum_list (map (\<lambda>it. int (length (block_hashes (hd (vi_members it))))) scored) div num_groups);
          capacity = (if 0 < num_groups \<and> 0 < total_pool_blocks then total_pool_blocks div avg else num_groups)
      in nat (min num_groups (max 1 (capacity * 2 div 3))))"

definition stale_singleton :: "pyfloat \<Rightarrow> (int list, pyfloat) pydict \<Rightarrow> v_item \<Rightarrow> bool" where
  "stale_singleton now seen it \<longleftrightarrow>
     fl (1 / 2) < fsub now (dget_or seen (vi_key it) now) \<and> length (vi_members it) \<le> 1"

text \<open>The hashes a group protects: those of its first member, up to the cached length, that are cached.\<close>

definition protected_hashes ::
  "block_view \<Rightarrow> pyfloat \<Rightarrow> (int list, pyfloat) pydict \<Rightarrow> v_item \<Rightarrow> int list" where
  "protected_hashes v now seen it =
     (if vi_cached it = 0 \<or> stale_singleton now seen it then []
      else filter (\<lambda>bh. pool_lookup v bh \<noteq> []) (take (nat (vi_cached it)) (block_hashes (hd (vi_members it)))))"

definition protect_top_groups ::
  "block_view \<Rightarrow> pyfloat \<Rightarrow> v_item list \<Rightarrow> vllm_engine \<times> ref_counts \<Rightarrow> vllm_engine \<times> ref_counts" where
  "protect_top_groups v now scored s =
     (let (e, refs) = s;
          hashes = concat (map (protected_hashes v now (ve_first_seen e)) (take (vllm_protect_k v scored) scored))
      in (e\<lparr>ve_prev := Some hashes\<rparr>,
          foldl (\<lambda>f bh. inc_queue_ref_count v (pool_lookup v bh) f) refs hashes))"

definition is_new :: "v_req \<Rightarrow> bool" where
  "is_new r \<longleftrightarrow> num_computed_tokens r = 0 \<and> block_hashes r \<noteq> []"

definition vllm_run ::
  "block_view \<Rightarrow> pyfloat \<Rightarrow> pyfloat \<Rightarrow> pyfloat \<Rightarrow> v_req list \<Rightarrow> vllm_engine \<times> ref_counts \<Rightarrow>
     (vllm_engine \<times> ref_counts) \<times> v_req list"
where
  "vllm_run v now now2 elapsed waiting s =
     (let (e, refs) = s; new_reqs = filter is_new waiting in
      if length new_reqs \<le> 1 then (s, waiting)
      else if \<not> detect_sharing (map (\<lambda>r. hd (block_hashes r)) new_reqs) then (s, waiting)
      else
        let other = filter (\<lambda>r. \<not> is_new r) waiting;
            refs1 = reset_queue_refs v e refs;
            groups = group_by v_key new_reqs;
            scored = match_and_score v groups;
            (e1, reordered) = reorder_by_score now (int (length waiting)) scored (dkeys groups) e;
            (e2, refs2) = protect_top_groups v now2 (map sort_members scored) (e1, refs1)
        in ((e2\<lparr>ve_profile_count := ve_profile_count e2 + 1,
                ve_profile_total := fadd (ve_profile_total e2) elapsed\<rparr>, refs2), reordered @ other))"

section \<open>The entry points\<close>

text \<open>
  What the hook finds on the scheduler: \<open>None\<close> where an attribute is missing; the environment
  switch; the engines it has created, by scheduler.
\<close>

record vllm_sched =
  vs_pool :: "block_view option"
  vs_queue_aware :: bool
  vs_caching :: bool
  vs_waiting :: "v_req list option"

record hook_state =
  hk_engines :: "(int, vllm_engine) pydict"
  hk_refs :: ref_counts

definition run_engine ::
  "int \<Rightarrow> block_view \<Rightarrow> pyfloat \<Rightarrow> pyfloat \<Rightarrow> pyfloat \<Rightarrow> v_req list \<Rightarrow> hook_state \<Rightarrow> hook_state \<times> v_req list" where
  "run_engine sid v now now2 elapsed waiting st =
     (let e = dget_or (hk_engines st) sid vllm_engine_init;
          ((e', refs'), w') = vllm_run v now now2 elapsed waiting (e, hk_refs st)
      in (st\<lparr>hk_engines := dset sid e' (hk_engines st), hk_refs := refs'\<rparr>, w'))"

definition vllm_on_schedule ::
  "bool \<Rightarrow> int \<Rightarrow> pyfloat \<Rightarrow> pyfloat \<Rightarrow> pyfloat \<Rightarrow> vllm_sched \<Rightarrow> hook_state \<Rightarrow> hook_state \<times> v_req list option" where
  "vllm_on_schedule server_reorder sid now now2 elapsed s st =
     (case vs_pool s of
        None \<Rightarrow> (st, vs_waiting s)
      | Some v \<Rightarrow>
          if \<not> vs_queue_aware s \<or> \<not> vs_caching s then (st, vs_waiting s)
          else (case vs_waiting s of
            None \<Rightarrow> (st, None)
          | Some waiting \<Rightarrow>
              if waiting = [] then (st, Some waiting)
              else if \<not> server_reorder
              then (let new_reqs = filter is_new waiting in
                    if 1 < length new_reqs \<and> detect_sharing (map (\<lambda>r. hd (block_hashes r)) new_reqs)
                    then (st\<lparr>hk_refs := update_queue_ref_counts (reset_queue_ref_counts v)
                             (inc_queue_ref_count v) (lookup_opt v) new_reqs (hk_refs st)\<rparr>, Some waiting)
                    else (st, Some waiting))
              else (let (st', w') = run_engine sid v now now2 elapsed waiting st in (st', Some w'))))"

definition schedule_hook_vllm ::
  "int \<Rightarrow> block_view option \<Rightarrow> pyfloat \<Rightarrow> pyfloat \<Rightarrow> pyfloat \<Rightarrow> v_req list \<Rightarrow> hook_state \<Rightarrow> hook_state \<times> v_req list" where
  "schedule_hook_vllm sid pool now now2 elapsed waiting st =
     (case pool of None \<Rightarrow> (st, waiting) | Some v \<Rightarrow> run_engine sid v now now2 elapsed waiting st)"

end
