(* ===== verification/Vllm_Props.thy ===== *)
theory Vllm_Props
  imports Vllm_Engine
begin

text \<open>
  What the vLLM side guarantees: the queue-aware eviction order, the layout of a scheduling cycle
  with its buffering rule, and how protection is undone.
\<close>

section \<open>The free queue\<close>

lemma fold_del:
  assumes "\<forall>b xs. b \<in> set xs \<longrightarrow> del b xs = filter (\<lambda>x. x \<noteq> b) xs" and "distinct vs" and "set vs \<subseteq> set fr"
  shows "foldl (\<lambda>fr b. del b fr) fr vs = filter (\<lambda>x. x \<notin> set vs) fr"
  using assms(2,3)
proof (induction vs arbitrary: fr)
  case (Cons v vs)
  have "foldl (\<lambda>fr b. del b fr) fr (v # vs) = foldl (\<lambda>fr b. del b fr) (filter (\<lambda>x. x \<noteq> v) fr) vs"
    using Cons.prems assms(1) by simp
  also have "\<dots> = filter (\<lambda>x. x \<notin> set vs) (filter (\<lambda>x. x \<noteq> v) fr)" by (rule Cons.IH) (use Cons.prems in auto)
  finally show ?case by (simp add: conj_commute)
qed simp

text \<open>The first tier in queue order, then the second tier by reference count.\<close>

definition victim_order :: "ref_counts \<Rightarrow> nat list \<Rightarrow> nat list" where
  "victim_order refs free = filter (\<lambda>b. refs b = 0) free @ sort_key refs (filter (\<lambda>b. refs b \<noteq> 0) free)"

lemma mset_victim_order: "mset (victim_order refs free) = mset free"
  by (simp add: victim_order_def)

lemma popleft_take:
  assumes pop: "\<forall>k xs. pop_n k xs = (take k xs, drop k xs)" and del: "\<forall>b xs. b \<in> set xs \<longrightarrow> del b xs = filter (\<lambda>x. x \<noteq> b) xs"
    and d: "distinct free" and n: "n \<le> length free"
  shows "popleft_queue_aware pop_n del refs n free =
    Inr (take n (victim_order refs free), filter (\<lambda>x. x \<notin> set (take n (victim_order refs free))) free)"
proof (cases "filter (\<lambda>b. refs b \<noteq> 0) free = []")
  case True
  then have f: "filter (\<lambda>b. refs b = 0) free = free" by (auto simp: filter_empty_conv filter_id_conv)
  have "filter (\<lambda>x. x \<notin> set (take n free)) free = drop n free"
  proof -
    have "set (take n free) \<inter> set (drop n free) = {}" using d by (metis append_take_drop_id distinct_append)
    then have "filter (\<lambda>x. x \<notin> set (take n free)) (take n free @ drop n free) = drop n free"
      by (auto simp: filter_empty_conv filter_id_conv simp del: append_take_drop_id)
    then show ?thesis by simp
  qed
  then show ?thesis using n pop True f by (simp add: popleft_queue_aware_def victim_order_def)
next
  case False
  let ?u = "filter (\<lambda>b. refs b = 0) free" and ?p = "sort_key refs (filter (\<lambda>b. refs b \<noteq> 0) free)"
  let ?v = "take n (victim_order refs free)"
  have v: "(if length (take n ?u) < n then take n ?u @ take (n - length (take n ?u)) ?p else take n ?u) = ?v"
    by (auto simp: victim_order_def min_def)
  have "distinct (victim_order refs free)" using d mset_victim_order by (metis mset_eq_imp_distinct_iff)
  then have dv: "distinct ?v" by simp
  have "set (victim_order refs free) = set free" using mset_victim_order by (metis set_mset_mset)
  then have sv: "set ?v \<subseteq> set free" using set_take_subset by fastforce
  have "foldl (\<lambda>fr b. del b fr) free ?v = filter (\<lambda>x. x \<notin> set ?v) free" by (rule fold_del [OF del dv sv])
  then show ?thesis using False n v by (simp add: popleft_queue_aware_def Let_def)
qed

text \<open>
  C22: Queue-aware allocation returns exactly \<open>n\<close> blocks of the free queue (and raises when there
  are not enough); the rest stays in order; a referenced block is taken only when every
  unreferenced one is, the unreferenced ones go in queue order, and no referenced block left
  behind has fewer references than one that was taken.
\<close>

theorem popleft_queue_aware_correct:
  assumes pop: "\<forall>k xs. pop_n k xs = (take k xs, drop k xs)" and del: "\<forall>b xs. b \<in> set xs \<longrightarrow> del b xs = filter (\<lambda>x. x \<noteq> b) xs"
    and d: "distinct free"
  shows "if length free < n then popleft_queue_aware pop_n del refs n free = Inl ValueError
    else \<exists>victims. popleft_queue_aware pop_n del refs n free = Inr (victims, filter (\<lambda>x. x \<notin> set victims) free)
      \<and> length victims = n \<and> distinct victims \<and> set victims \<subseteq> set free
      \<and> filter (\<lambda>b. refs b = 0) victims = take n (filter (\<lambda>b. refs b = 0) free)
      \<and> ((\<exists>b \<in> set victims. refs b \<noteq> 0) \<longrightarrow> (\<forall>b \<in> set free. refs b = 0 \<longrightarrow> b \<in> set victims))
      \<and> (\<forall>b \<in> set victims. \<forall>b' \<in> set free - set victims. refs b \<noteq> 0 \<longrightarrow> refs b \<le> refs b')"
proof (cases "length free < n")
  case True
  then show ?thesis by (simp add: popleft_queue_aware_def)
next
  case False
  let ?u = "filter (\<lambda>b. refs b = 0) free" and ?p = "sort_key refs (filter (\<lambda>b. refs b \<noteq> 0) free)"
  let ?o = "victim_order refs free" and ?v = "take n (victim_order refs free)"
  have m: "mset ?o = mset free" by (rule mset_victim_order)
  have so: "set ?o = set free" using m by (metis set_mset_mset)
  have dO: "distinct ?o" using d m by (metis mset_eq_imp_distinct_iff)
  have "length ?o = length free" using m by (metis size_mset)
  then have len: "length ?v = n" using False by simp
  have v: "?v = take n ?u @ take (n - length ?u) ?p" by (simp add: victim_order_def)
  have pnz: "refs b \<noteq> 0" if "b \<in> set ?p" for b using that by simp
  have "filter (\<lambda>b. refs b = 0) (take k ?p) = []" for k by (auto simp: filter_empty_conv dest: in_set_takeD)
  moreover have "filter (\<lambda>b. refs b = 0) (take n ?u) = take n ?u" by (auto simp: filter_id_conv dest: in_set_takeD)
  ultimately have f0: "filter (\<lambda>b. refs b = 0) ?v = take n ?u" by (simp add: v)
  have all0: "\<forall>b \<in> set free. refs b = 0 \<longrightarrow> b \<in> set ?v" if "\<exists>b \<in> set ?v. refs b \<noteq> 0"
  proof -
    have "length ?u < n"
    proof (rule ccontr)
      assume "\<not> length ?u < n"
      then have "?v = take n ?u" by (simp add: v)
      then show False using that by (auto dest: in_set_takeD)
    qed
    then show ?thesis by (auto simp: v)
  qed
  have low: "refs b \<le> refs b'" if b: "b \<in> set ?v" "b' \<in> set free - set ?v" "refs b \<noteq> 0" for b b'
  proof -
    have bp: "b \<in> set (take (n - length ?u) ?p)" using b(1,3) by (auto simp: v dest: in_set_takeD)
    have "refs b' \<noteq> 0" using all0 b by blast
    then have "b' \<in> set ?p" using b(2) by simp
    moreover have "b' \<notin> set (take (n - length ?u) ?p)" using b(2) by (auto simp: v)
    ultimately have "b' \<in> set (drop (n - length ?u) ?p)" by (metis Un_iff append_take_drop_id set_append)
    moreover have "sorted_wrt (\<lambda>x y. refs x \<le> refs y) (take (n - length ?u) ?p @ drop (n - length ?u) ?p)"
      by (simp add: sort_key_sorted_wrt)
    ultimately show ?thesis using bp unfolding sorted_wrt_append by blast
  qed
  have "popleft_queue_aware pop_n del refs n free = Inr (?v, filter (\<lambda>x. x \<notin> set ?v) free)"
    using popleft_take [OF pop del d] False by simp
  moreover have "set ?v \<subseteq> set free" using so set_take_subset by fastforce
  moreover have "distinct ?v" using dO by simp
  ultimately show ?thesis using False len f0 all0 low by (simp add: Ball_def)
qed

theorem popleft_queue_aware_correct_witness:
  "\<exists>victims. popleft_queue_aware (\<lambda>k xs. (take k xs, drop k xs)) (\<lambda>b. filter (\<lambda>x. x \<noteq> b)) (\<lambda>b. int b) 2 [3, 0, 5, 1] =
     Inr (victims, filter (\<lambda>x. x \<notin> set victims) [3, 0, 5, 1]) \<and> length victims = 2"
  using popleft_queue_aware_correct [of "\<lambda>k xs. (take k xs, drop k xs)" "\<lambda>b. filter (\<lambda>x. x \<noteq> b)" "[3, 0, 5, 1]" 2 "\<lambda>b. int b"]
  by auto

section \<open>The layout of a cycle\<close>

lemma sort_members_fields [simp]:
  "vi_score (sort_members it) = vi_score it" "vi_key (sort_members it) = vi_key it" "vi_cached (sort_members it) = vi_cached it"
  "mset (vi_members (sort_members it)) = mset (vi_members it)" "length (vi_members (sort_members it)) = length (vi_members it)"
  by (simp_all add: sort_members_def)

lemma score_group_fields [simp]: "vi_key (score_group v k ms) = k" "vi_members (score_group v k ms) = ms"
  by (simp_all add: score_group_def Let_def)

lemma partition_ready_ok:
  assumes "partition_ready P scored = (ready, waiting)"
  shows "mset (ready @ waiting) = mset scored" and "\<forall>it \<in> set waiting. \<not> P it" and "scored \<noteq> [] \<Longrightarrow> ready \<noteq> []"
proof -
  let ?w = "filter (\<lambda>it. \<not> P it) scored" and ?r = "filter P scored"
  have all: "mset ?r + mset ?w = mset scored" by simp
  show "mset (ready @ waiting) = mset scored"
  proof (cases "?r = [] \<and> ?w \<noteq> []")
    case True
    then have w: "ready = [hd (sort_rev vi_score ?w)]" "waiting = tl (sort_rev vi_score ?w)"
      using assms by (auto simp: partition_ready_def Let_def)
    have "sort_rev vi_score ?w \<noteq> []" using True by (metis length_0_conv length_sort_rev)
    then have "ready @ waiting = sort_rev vi_score ?w" by (simp add: w)
    then show ?thesis using True all by simp
  next
    case False
    then have "ready = ?r" "waiting = ?w" using assms by (auto simp: partition_ready_def Let_def split: if_splits)
    then show ?thesis using all by simp
  qed
  have "set (tl (sort_rev vi_score ?w)) \<subseteq> set ?w" by (metis list.set_sel(2) set_sort_rev subsetI tl_Nil empty_iff list.set(1))
  then show "\<forall>it \<in> set waiting. \<not> P it" using assms by (auto simp: partition_ready_def Let_def split: if_splits)
  show "scored \<noteq> [] \<Longrightarrow> ready \<noteq> []"
    using assms by (auto simp: partition_ready_def Let_def filter_empty_conv split: if_splits)
qed

text \<open>A group that stays in the queue keeps the time it was first seen.\<close>

lemma dget_filter_keys: "dget (filter (\<lambda>(k, t). k \<in> A) d) k = (if k \<in> A then dget d k else None)"
  by (induction d) auto

lemma update_first_seen_dget:
  "dget (update_first_seen now active seen) k =
     (if k \<in> set active then (case dget seen k of None \<Rightarrow> Some now | Some t \<Rightarrow> Some t) else None)"
proof -
  have "dget (foldl (\<lambda>d k. if dget d k = None then dset k now d else d) d ks) k =
      (if dget d k = None \<and> k \<in> set ks then Some now else dget d k)" for d ks
    by (induction ks arbitrary: d) (auto simp: dict_simps)
  then show ?thesis by (auto simp: update_first_seen_def dget_filter_keys split: option.splits)
qed

lemma scored_items:
  assumes "it \<in> set (match_and_score v (group_by v_key new))"
  shows "vi_members it = filter (\<lambda>r. v_key r = vi_key it) new \<and> vi_key it \<in> v_key ` set new"
proof -
  obtain k ms where k: "(k, ms) \<in> set (group_by v_key new)" "it = score_group v k ms"
    using assms by (auto simp: match_and_score_def)
  then have "dget (group_by v_key new) k = Some ms" by (simp add: dget_Some_iff_mem)
  then have "ms = filter (\<lambda>r. v_key r = k) new" by (simp add: dget_group_by split: if_splits)
  moreover have "k \<in> v_key ` set new" using k(1) keys_group_by [of v_key new] by (metis fst_conv image_eqI)
  ultimately show ?thesis using k(2) by simp
qed

lemma keys_scored: "map vi_key (match_and_score v groups) = dkeys groups"
  by (induction groups) (auto simp: match_and_score_def)

definition buffered_ok :: "pyfloat \<Rightarrow> int \<Rightarrow> (int list, pyfloat) pydict \<Rightarrow> v_item \<Rightarrow> bool" where
  "buffered_ok now depth seen it \<longleftrightarrow> (case buffering depth of (threshold, max_wait_s) \<Rightarrow>
     int (length (vi_members it)) < threshold \<and> fsub now (dget_or seen (vi_key it) now) < max_wait_s)"

lemma reorder_by_score_ok:
  assumes r: "reorder_by_score now depth scored active e = (e', out)" and act: "set (map vi_key scored) \<subseteq> set active"
  shows "\<exists>ready buf. out = concat (map vi_members (ready @ buf)) \<and> mset (ready @ buf) = mset (map sort_members scored)
    \<and> (scored \<noteq> [] \<longrightarrow> ready \<noteq> []) \<and> sorted_wrt (\<lambda>x y. vi_score y \<le> vi_score x) ready
    \<and> sorted_wrt (\<lambda>x y. vi_score y \<le> vi_score x) buf \<and> (\<forall>it \<in> set buf. buffered_ok now depth (ve_first_seen e) it)"
proof -
  let ?seen = "update_first_seen now active (ve_first_seen e)"
  obtain ready waiting where p: "partition_ready (is_ready depth now ?seen) scored = (ready, waiting)"
    by (cases "partition_ready (is_ready depth now ?seen) scored")
  let ?r = "map sort_members (sort_rev vi_score ready)" and ?b = "map sort_members (sort_rev vi_score waiting)"
  have "out = concat (map vi_members (?r @ ?b))" using r p by (auto simp: reorder_by_score_def Let_def comp_def)
  moreover have "mset (?r @ ?b) = mset (map sort_members scored)"
    using partition_ready_ok(1) [OF p] by (metis map_append mset_append mset_map mset_sort_rev)
  moreover have "scored \<noteq> [] \<longrightarrow> ?r \<noteq> []" using partition_ready_ok(3) [OF p] by (metis length_0_conv length_map length_sort_rev)
  moreover have "sorted_wrt (\<lambda>x y. vi_score y \<le> vi_score x) (map sort_members (sort_rev vi_score xs))" for xs
    by (simp add: sorted_wrt_map sorted_sort_rev)
  moreover have "buffered_ok now depth (ve_first_seen e) it" if itb: "it \<in> set ?b" for it
  proof -
    obtain x where x: "x \<in> set waiting" "it = sort_members x" using itb by auto
    then have n: "\<not> is_ready depth now ?seen x" using partition_ready_ok(2) [OF p] by blast
    have "x \<in> set scored" using x(1) partition_ready_ok(1) [OF p] by (metis Un_iff set_append set_mset_mset)
    then have "vi_key x \<in> set active" using act by auto
    then have "dget_or ?seen (vi_key x) now = dget_or (ve_first_seen e) (vi_key x) now"
      by (simp add: dget_or_def update_first_seen_dget split: option.splits)
    then show ?thesis using n x(2) by (auto simp: buffered_ok_def is_ready_def split: prod.splits)
  qed
  ultimately show ?thesis by blast
qed

text \<open>
  C23: A scheduling cycle that finds sharing puts the new requests first, as one block per prefix
  key with shorter sequences first, and the other requests last in their order. At least one
  group is ready; ready and buffered groups are each in descending score; and a group is buffered
  only while it is smaller than the threshold and has waited less than the allowed time since it
  was first seen, so no group is held back for ever.
\<close>

theorem vllm_cycle_layout:
  assumes n: "1 < length (filter is_new waiting)"
    and sharing: "detect_sharing (map (\<lambda>r. hd (block_hashes r)) (filter is_new waiting))"
  shows "\<exists>ready buf. snd (vllm_run v now now2 elapsed waiting (e, refs)) =
        concat (map vi_members (ready @ buf)) @ filter (\<lambda>r. \<not> is_new r) waiting
    \<and> ready \<noteq> [] \<and> distinct (map vi_key (ready @ buf))
    \<and> (\<forall>it \<in> set (ready @ buf). mset (vi_members it) = mset (filter (\<lambda>r. is_new r \<and> v_key r = vi_key it) waiting)
          \<and> sorted (map (\<lambda>r. length (block_hashes r)) (vi_members it)))
    \<and> sorted_wrt (\<lambda>x y. vi_score y \<le> vi_score x) ready \<and> sorted_wrt (\<lambda>x y. vi_score y \<le> vi_score x) buf
    \<and> (\<forall>it \<in> set buf. buffered_ok now (int (length waiting)) (ve_first_seen e) it)"
proof -
  let ?new = "filter is_new waiting" and ?groups = "group_by v_key (filter is_new waiting)"
  let ?scored = "match_and_score v ?groups"
  obtain e1 out where r: "reorder_by_score now (int (length waiting)) ?scored (dkeys ?groups) e = (e1, out)"
    by (cases "reorder_by_score now (int (length waiting)) ?scored (dkeys ?groups) e")
  have "set (map vi_key ?scored) \<subseteq> set (dkeys ?groups)" by (simp only: keys_scored subset_refl)
  from reorder_by_score_ok [OF r this] obtain ready buf where
    b: "out = concat (map vi_members (ready @ buf))" "mset (ready @ buf) = mset (map sort_members ?scored)"
      "?scored \<noteq> [] \<longrightarrow> ready \<noteq> []" "sorted_wrt (\<lambda>x y. vi_score y \<le> vi_score x) ready"
      "sorted_wrt (\<lambda>x y. vi_score y \<le> vi_score x) buf"
      "\<forall>it \<in> set buf. buffered_ok now (int (length waiting)) (ve_first_seen e) it" by blast
  have run: "snd (vllm_run v now now2 elapsed waiting (e, refs)) = out @ filter (\<lambda>r. \<not> is_new r) waiting"
    using n sharing r by (simp add: vllm_run_def Let_def case_prod_beta)
  have "?new \<noteq> []" using n by auto
  then have "?groups \<noteq> []" using keys_group_by [of v_key ?new] by auto
  then have "?scored \<noteq> []" by (simp add: match_and_score_def)
  then have ne: "ready \<noteq> []" using b(3) by blast
  have "mset (map vi_key (ready @ buf)) = mset (dkeys ?groups)"
    using b(2) keys_scored [of v ?groups] by (metis (no_types, lifting) list.map_comp list.map_cong0 mset_map sort_members_fields(2) comp_apply)
  then have dist: "distinct (map vi_key (ready @ buf))"
    using mset_eq_imp_distinct_iff wf_group_by [of v_key ?new] unfolding wf_dict_def by blast
  have items: "mset (vi_members it) = mset (filter (\<lambda>r. is_new r \<and> v_key r = vi_key it) waiting)
      \<and> sorted (map (\<lambda>r. length (block_hashes r)) (vi_members it))" if itr: "it \<in> set (ready @ buf)" for it
  proof -
    have "set (ready @ buf) = sort_members ` set ?scored" using b(2) by (metis set_map set_mset_mset)
    then obtain x where x: "x \<in> set ?scored" "it = sort_members x" using itr by blast
    have "vi_members x = filter (\<lambda>r. v_key r = vi_key x) ?new" using scored_items [OF x(1)] by blast
    also have "\<dots> = filter (\<lambda>r. is_new r \<and> v_key r = vi_key x) waiting" by (simp add: conj_commute)
    finally show ?thesis by (simp add: x(2)) (simp add: sort_members_def)
  qed
  have I: "\<forall>it \<in> set (ready @ buf). mset (vi_members it) = mset (filter (\<lambda>r. is_new r \<and> v_key r = vi_key it) waiting)
      \<and> sorted (map (\<lambda>r. length (block_hashes r)) (vi_members it))" using items by blast
  have R: "snd (vllm_run v now now2 elapsed waiting (e, refs)) =
      concat (map vi_members (ready @ buf)) @ filter (\<lambda>r. \<not> is_new r) waiting" by (simp only: run b(1))
  from R ne dist I b(4-6) show ?thesis
    by - (rule exI [of _ ready], rule exI [of _ buf], (rule conjI, assumption)+, assumption)
qed

definition sample_vreq :: "string \<Rightarrow> int list \<Rightarrow> v_req" where
  "sample_vreq i hs = \<lparr>v_id = i, block_hashes = hs, num_computed_tokens = 0\<rparr>"

definition sample_view :: block_view where
  "sample_view = \<lparr>pool_lookup = (\<lambda>h. if h = 1 then [4] else []), pool_null = (\<lambda>_. False), pool_blocks = [4, 5]\<rparr>"

definition sample_waiting :: "v_req list" where
  "sample_waiting = [sample_vreq ''a'' [1, 2], sample_vreq ''b'' [1, 2], sample_vreq ''c'' []]"

theorem vllm_cycle_layout_witness:
  "\<exists>ready (buf :: v_item list). snd (vllm_run sample_view 0 0 0 sample_waiting (vllm_engine_init, \<lambda>_. 0)) =
     concat (map vi_members (ready @ buf)) @ [sample_vreq ''c'' []] \<and> ready \<noteq> []"
proof -
  have n: "1 < length (filter is_new sample_waiting)" and
    d: "detect_sharing (map (\<lambda>r. hd (block_hashes r)) (filter is_new sample_waiting))" and
    o: "filter (\<lambda>r. \<not> is_new r) sample_waiting = [sample_vreq ''c'' []]"
    by (simp_all add: sample_waiting_def sample_vreq_def is_new_def detect_sharing_def)
  from vllm_cycle_layout [OF n d, of sample_view 0 0 0 vllm_engine_init "\<lambda>_. 0"] show ?thesis unfolding o by blast
qed

lemma mset_concat_sort_members:
  "mset (concat (map vi_members (map sort_members xs))) = mset (concat (map vi_members xs))"
proof (induction xs)
  case (Cons x xs)
  then show ?case using sort_members_fields(4) [of x] by (simp only: list.map concat.simps mset_append)
qed simp

lemma mset_vllm_run: "mset (snd (vllm_run v now now2 elapsed waiting s)) = mset waiting"
proof -
  obtain e refs where s: "s = (e, refs)" by (cases s)
  let ?new = "filter is_new waiting" and ?groups = "group_by v_key (filter is_new waiting)"
  let ?scored = "match_and_score v ?groups"
  obtain e1 out where r: "reorder_by_score now (int (length waiting)) ?scored (dkeys ?groups) e = (e1, out)"
    by (cases "reorder_by_score now (int (length waiting)) ?scored (dkeys ?groups) e")
  have "set (map vi_key ?scored) \<subseteq> set (dkeys ?groups)" by (simp only: keys_scored subset_refl)
  from reorder_by_score_ok [OF r this] obtain ready buf where
    b: "out = concat (map vi_members (ready @ buf))" "mset (ready @ buf) = mset (map sort_members ?scored)" by blast
  have "mset out = mset (concat (map vi_members (map sort_members ?scored)))"
    unfolding b(1) by (rule mset_concat_perm) (simp only: mset_map b(2))
  also have "\<dots> = mset (concat (map vi_members ?scored))"
    by (rule mset_concat_sort_members)
  also have "map vi_members ?scored = dvals ?groups" by (simp add: match_and_score_def case_prod_beta comp_def)
  finally have "mset out = mset ?new" by simp
  then show ?thesis using r by (auto simp: s vllm_run_def Let_def case_prod_beta)
qed

interpretation vllm_cycle: queue_reorder "\<lambda>w. snd (vllm_run v now now2 elapsed w s)"
  by unfold_locales (rule mset_vllm_run)

section \<open>Protection and its reset\<close>

lemma clear_blocks_eq: "clear_blocks bs refs b = (if b \<in> set bs then 0 else refs b)"
  unfolding clear_blocks_def by (induction bs arbitrary: refs) auto

lemma clear_all_eq:
  "foldl (\<lambda>f bh. clear_blocks (pool_lookup v bh) f) refs hs b =
     (if \<exists>h \<in> set hs. b \<in> set (pool_lookup v h) then 0 else refs b)"
  by (induction hs arbitrary: refs) (auto simp: clear_blocks_eq)

lemma inc_refs_bounds:
  "refs b \<le> inc_queue_ref_count v bs refs b
     \<and> (refs b < inc_queue_ref_count v bs refs b \<longleftrightarrow> b \<in> set bs \<and> \<not> pool_null v b)"
  unfolding inc_queue_ref_count_def
proof (induction bs arbitrary: refs)
  case (Cons x bs)
  have "refs b \<le> (if pool_null v x then refs else refs(x := refs x + 1)) b
    \<and> (refs b < (if pool_null v x then refs else refs(x := refs x + 1)) b \<longleftrightarrow> b = x \<and> \<not> pool_null v x)" by simp
  with Cons.IH [of "if pool_null v x then refs else refs(x := refs x + 1)"] show ?case by (simp only: foldl_Cons list.set) (smt (verit) insert_iff)
qed simp

lemma inc_all_bounds:
  "refs b \<le> foldl (\<lambda>f bh. inc_queue_ref_count v (pool_lookup v bh) f) refs hs b
     \<and> (refs b < foldl (\<lambda>f bh. inc_queue_ref_count v (pool_lookup v bh) f) refs hs b \<longleftrightarrow>
          (\<exists>h \<in> set hs. b \<in> set (pool_lookup v h)) \<and> \<not> pool_null v b)"
proof (induction hs arbitrary: refs)
  case (Cons h hs)
  with inc_refs_bounds [of refs b v "pool_lookup v h"] Cons.IH [of "inc_queue_ref_count v (pool_lookup v h) refs"]
  show ?case by (simp only: foldl_Cons list.set) (smt (verit) insert_iff)
qed simp

text \<open>
  After a protection pass on a pool without references, a block is referenced exactly when it
  is a real block cached under a recorded hash. The next cycle's reset clears exactly the blocks
  that are cached under the recorded hashes \<open>at that time\<close>: with unchanged contents nothing stays
  referenced, but a block whose hash has been dropped from the cache meanwhile keeps its count.
\<close>

lemma protection_reset_exact:
  "\<exists>hashes. ve_prev (fst (protect_top_groups v now scored (e, \<lambda>_. 0))) = Some hashes
    \<and> (\<forall>b. 0 < snd (protect_top_groups v now scored (e, \<lambda>_. 0)) b \<longleftrightarrow>
          (\<exists>h \<in> set hashes. b \<in> set (pool_lookup v h)) \<and> \<not> pool_null v b)
    \<and> (\<forall>b. 0 \<le> snd (protect_top_groups v now scored (e, \<lambda>_. 0)) b)
    \<and> (\<forall>v' b. reset_queue_refs v' (fst (protect_top_groups v now scored (e, \<lambda>_. 0)))
            (snd (protect_top_groups v now scored (e, \<lambda>_. 0))) b =
          (if \<exists>h \<in> set hashes. b \<in> set (pool_lookup v' h) then 0
           else snd (protect_top_groups v now scored (e, \<lambda>_. 0)) b))
    \<and> reset_queue_refs v (fst (protect_top_groups v now scored (e, \<lambda>_. 0)))
            (snd (protect_top_groups v now scored (e, \<lambda>_. 0))) = (\<lambda>_. 0)"
proof -
  let ?hs = "concat (map (protected_hashes v now (ve_first_seen e)) (take (vllm_protect_k v scored) scored))"
  let ?p = "protect_top_groups v now scored (e, \<lambda>_. 0)"
  have prev: "ve_prev (fst ?p) = Some ?hs"
    and refs: "snd ?p = foldl (\<lambda>f bh. inc_queue_ref_count v (pool_lookup v bh) f) (\<lambda>_. 0) ?hs"
    by (simp_all add: protect_top_groups_def Let_def)
  have pos: "0 \<le> snd ?p b \<and> (0 < snd ?p b \<longleftrightarrow> (\<exists>h \<in> set ?hs. b \<in> set (pool_lookup v h)) \<and> \<not> pool_null v b)" for b
    using inc_all_bounds [of "\<lambda>_. 0" b v ?hs] unfolding refs by simp
  have rs: "reset_queue_refs v' (fst ?p) (snd ?p) b = (if \<exists>h \<in> set ?hs. b \<in> set (pool_lookup v' h) then 0 else snd ?p b)" for v' b
    unfolding reset_queue_refs_def prev option.case by (rule clear_all_eq)
  have "reset_queue_refs v (fst ?p) (snd ?p) = (\<lambda>_. 0)"
  proof
    fix b show "reset_queue_refs v (fst ?p) (snd ?p) b = 0" using pos [of b] rs [of v b] by (auto split: if_splits)
  qed
  then show ?thesis using prev pos rs by blast
qed

end
