(* ===== verification/Pending_Tree.thy ===== *)
theory Pending_Tree
  imports Py_Str "HOL-Library.Sublist"
begin

text \<open>
  The compiled core: \<open>src/src/tree.rs\<close> (the radix tree of pending requests) and \<open>src/src/pending.rs\<close>
  (the class Python sees). The node arena is owned by the tree, every live node has one parent, so a
  node is modelled with its subtree inside it and keeps its arena slot as a field; the freelist and
  the length of the arena are the allocator state. Walks along parent pointers become walks back
  along the path of the descent. Hash maps and sets are dictionaries and lists without duplicates:
  their iteration order is not specified, and no theorem depends on it. Counters are natural numbers
  (the code's \<open>u32\<close> overflows only beyond 2^32 pending requests), subtraction saturates as in the code.
\<close>

section \<open>Nodes and slots\<close>

datatype pnode = PNode (pn_id: nat) (pn_edge: "int list") (pn_count: nat) (pn_terms: "int list")
  (pn_kids: "(int \<times> pnode) list")

type_synonym slots = "nat list \<times> nat"

definition palloc :: "slots \<Rightarrow> nat \<times> slots" where
  "palloc a = (case a of (i # fr, n) \<Rightarrow> (i, (fr, n)) | ([], n) \<Rightarrow> (n, ([], n + 1)))"

definition pfree :: "nat \<Rightarrow> slots \<Rightarrow> slots" where
  "pfree i a = (i # fst a, snd a)"

fun psize :: "pnode \<Rightarrow> nat" where
  "psize (PNode i e c ts ks) = Suc (sum_list (map (\<lambda>x. psize (snd x)) ks))"

lemma psize_kid: "x \<in> set ks \<Longrightarrow> psize (snd x) < Suc (sum_list (map (\<lambda>x. psize (snd x)) ks))"
  by (induction ks) auto

lemma psize_dget [termination_simp]:
  "dget ks t = Some k \<Longrightarrow> psize k < Suc (sum_list (map (\<lambda>x. psize (snd x)) ks))"
  by (drule map_of_SomeD, drule psize_kid) simp

definition match_edge_len :: "int list \<Rightarrow> int list \<Rightarrow> nat" where
  "match_edge_len edge tokens = length (takeWhile (\<lambda>(a, b). a = b) (zip edge tokens))"

section \<open>Insertion\<close>

text \<open>\<open>split_edge\<close>: the upper half keeps the slot and the count, the lower half gets everything else.\<close>

fun split_edge :: "nat \<Rightarrow> pnode \<Rightarrow> slots \<Rightarrow> pnode \<times> slots" where
  "split_edge off (PNode i e c ts ks) a =
     (let lower_edge = drop off e; (j, a') = palloc a
      in (PNode i (take off e) c [] [(hd lower_edge, PNode j lower_edge c ts ks)], a'))"

text \<open>What happens at the end of the descent: the request ends here, or a new leaf takes the tail.\<close>

fun attach :: "int \<Rightarrow> int list \<Rightarrow> pnode \<Rightarrow> slots \<Rightarrow> pnode \<times> slots" where
  "attach rid tail (PNode i e c ts ks) a =
     (if tail = [] then (PNode i e c (List.insert rid ts) ks, a)
      else let (j, a') = palloc a in (PNode i e c ts (dset (hd tail) (PNode j tail 1 [rid] []) ks), a'))"

fun bump_count :: "pnode \<Rightarrow> pnode" where
  "bump_count (PNode i e c ts ks) = PNode i e (c + 1) ts ks"

text \<open>The counts of the path are raised on the way back; the root's is not.\<close>

function pn_insert :: "int \<Rightarrow> int list \<Rightarrow> pnode \<Rightarrow> slots \<Rightarrow> pnode \<times> slots" where
  "pn_insert rid toks (PNode i e c ts ks) a =
     (if toks = [] then attach rid [] (PNode i e c ts ks) a
      else case dget ks (hd toks) of
        None \<Rightarrow> attach rid toks (PNode i e c ts ks) a
      | Some child \<Rightarrow>
          (let common = match_edge_len (pn_edge child) toks;
               (child', a') =
                 (if common < length (pn_edge child)
                  then (let (up, a1) = split_edge common child a in attach rid (drop common toks) up a1)
                  else pn_insert rid (drop common toks) child a)
           in (PNode i e c ts (dset (hd toks) (bump_count child') ks), a')))"
  by pat_completeness auto
termination by (relation "measure (\<lambda>(_, _, n, _). psize n)") (auto dest: psize_dget)

section \<open>Removal\<close>

fun drop_count :: "pnode \<Rightarrow> pnode" where
  "drop_count (PNode i e c ts ks) = PNode i e (c - 1) ts ks"

text \<open>
  One turn of \<open>gc\<close> at a node: \<open>None\<close> for a dead leaf (the caller unlinks and frees it and goes on),
  else the node, fused with its only child when it holds no request itself.
\<close>

definition gc_node :: "pnode \<Rightarrow> slots \<Rightarrow> (pnode \<times> slots) option" where
  "gc_node n a =
     (if pn_terms n = [] \<and> pn_kids n = [] then None
      else if pn_terms n = [] \<and> length (pn_kids n) = 1
      then (let k = snd (hd (pn_kids n))
            in Some (PNode (pn_id n) (pn_edge n @ pn_edge k) (pn_count n) (pn_terms k) (pn_kids k), pfree (pn_id k) a))
      else Some (n, a))"

text \<open>The flag says that \<open>gc\<close> has yet to look at the node.\<close>

function pn_remove :: "int \<Rightarrow> int list \<Rightarrow> pnode \<Rightarrow> slots \<Rightarrow> (pnode \<times> bool \<times> slots) option" where
  "pn_remove rid toks (PNode i e c ts ks) a =
     (if toks = [] then (if rid \<in> set ts then Some (PNode i e c (removeAll rid ts) ks, True, a) else None)
      else case dget ks (hd toks) of
        None \<Rightarrow> None
      | Some child \<Rightarrow>
          (let common = match_edge_len (pn_edge child) toks in
           if common < length (pn_edge child) then None
           else case pn_remove rid (drop common toks) child a of
             None \<Rightarrow> None
           | Some (child', more, a') \<Rightarrow>
               (let child'' = drop_count child' in
                if \<not> more then Some (PNode i e c ts (dset (hd toks) child'' ks), False, a')
                else case gc_node child'' a' of
                  None \<Rightarrow> Some (PNode i e c ts (ddel (hd (pn_edge child'')) ks), True, pfree (pn_id child'') a')
                | Some (m, a'') \<Rightarrow> Some (PNode i e c ts (dset (hd toks) m ks), False, a''))))"
  by pat_completeness auto
termination by (relation "measure (\<lambda>(_, _, n, _). psize n)") (auto dest: psize_dget)

section \<open>Queries\<close>

text \<open>
  \<open>descend\<close>: the node reached, the nodes entered on the way (last first, the root left out), the
  offset in the last edge and the number of tokens consumed.
\<close>

function pdescend :: "int list \<Rightarrow> pnode \<Rightarrow> pnode list \<Rightarrow> nat \<Rightarrow> pnode \<times> pnode list \<times> nat \<times> nat" where
  "pdescend toks (PNode i e c ts ks) trail consumed =
     (if toks = [] then (PNode i e c ts ks, trail, length e, consumed)
      else case dget ks (hd toks) of
        None \<Rightarrow> (PNode i e c ts ks, trail, length e, consumed)
      | Some child \<Rightarrow>
          (let common = match_edge_len (pn_edge child) toks in
           if common < length (pn_edge child) then (child, child # trail, common, consumed + common)
           else pdescend (drop common toks) child (child # trail) (consumed + common)))"
  by pat_completeness auto
termination by (relation "measure (\<lambda>(_, n, _, _). psize n)") (auto dest: psize_dget)

definition prefix_position :: "pnode \<Rightarrow> int list \<Rightarrow> nat \<times> nat" where
  "prefix_position root toks = (case pdescend toks root [] 0 of (n, _, off, _) \<Rightarrow> (pn_id n, off))"

function deepest_loop :: "nat \<Rightarrow> int list \<Rightarrow> pnode \<Rightarrow> nat \<Rightarrow> nat \<Rightarrow> nat" where
  "deepest_loop threshold toks (PNode i e c ts ks) consumed best =
     (if toks = [] then best
      else case dget ks (hd toks) of
        None \<Rightarrow> best
      | Some child \<Rightarrow>
          (let common = match_edge_len (pn_edge child) toks;
               best' = (if threshold \<le> pn_count child then consumed + common else best)
           in if common < length (pn_edge child) then best'
              else deepest_loop threshold (drop common toks) child (consumed + common) best'))"
  by pat_completeness auto
termination by (relation "measure (\<lambda>(_, _, n, _, _). psize n)") (auto dest: psize_dget)

definition deepest_with_count :: "pnode \<Rightarrow> int list \<Rightarrow> nat \<Rightarrow> nat" where
  "deepest_with_count root toks threshold = deepest_loop threshold toks root 0 0"

definition has_sharing :: "pnode \<Rightarrow> bool" where
  "has_sharing root = list_ex (\<lambda>x. 2 \<le> pn_count (snd x)) (pn_kids root)"

definition shared_rid_count :: "pnode \<Rightarrow> nat" where
  "shared_rid_count root =
     sum_list (map (\<lambda>x. if 2 \<le> pn_count (snd x) then pn_count (snd x) else 0) (pn_kids root))"

definition singleton_rid_count :: "pnode \<Rightarrow> nat" where
  "singleton_rid_count root = length (pn_terms root)
     + sum_list (map (\<lambda>x. if pn_count (snd x) < 2 then pn_count (snd x) else 0) (pn_kids root))"

definition terminators_at :: "pnode \<Rightarrow> int list \<Rightarrow> nat" where
  "terminators_at root path =
     (case pdescend path root [] 0 of (n, _, off, consumed) \<Rightarrow>
        if consumed \<noteq> length path \<or> off \<noteq> length (pn_edge n) then 0 else length (pn_terms n))"

function pn_demand :: "int list \<Rightarrow> pnode \<Rightarrow> nat" where
  "pn_demand path (PNode i e c ts ks) =
     (if path = [] then c
      else case dget ks (hd path) of
        None \<Rightarrow> 0
      | Some child \<Rightarrow>
          (let common = match_edge_len (pn_edge child) path in
           if common = length path then pn_count child
           else if common < length (pn_edge child) then 0
           else pn_demand (drop common path) child))"
  by pat_completeness auto
termination by (relation "measure (\<lambda>(_, n). psize n)") (auto dest: psize_dget)

text \<open>\<open>cluster_info\<close>: from the terminator upwards, the first node two requests pass through.\<close>

fun cluster_climb :: "pnode list \<Rightarrow> nat \<Rightarrow> (nat \<times> nat \<times> nat) option" where
  "cluster_climb [] depth = None"
| "cluster_climb (n # up) depth =
     (if 2 \<le> pn_count n then Some (pn_id n, depth, pn_count n)
      else cluster_climb up (depth - length (pn_edge n)))"

definition cluster_info_at :: "pnode \<Rightarrow> int \<Rightarrow> int list \<Rightarrow> (nat \<times> nat \<times> nat) option" where
  "cluster_info_at root rid toks =
     (case pdescend toks root [] 0 of (n, trail, off, consumed) \<Rightarrow>
        if consumed \<noteq> length toks \<or> off \<noteq> length (pn_edge n) then None
        else if rid \<notin> set (pn_terms n) then None
        else cluster_climb trail (length toks))"

section \<open>The class\<close>

record pending_tree =
  pt_root :: pnode
  pt_slots :: slots
  pt_paths :: "(int, int list) pydict"

definition pt_new :: pending_tree where
  "pt_new = \<lparr>pt_root = PNode 0 [] 0 [] [], pt_slots = ([], 1), pt_paths = []\<rparr>"

definition pt_insert :: "int \<Rightarrow> int list \<Rightarrow> pending_tree \<Rightarrow> pending_tree res" where
  "pt_insert rid toks T =
     (if dget (pt_paths T) rid \<noteq> None then Inl ValueError
      else case pn_insert rid toks (pt_root T) (pt_slots T) of
        (root, a) \<Rightarrow> Inr \<lparr>pt_root = root, pt_slots = a, pt_paths = dset rid toks (pt_paths T)\<rparr>)"

definition pt_discard :: "int \<Rightarrow> pending_tree \<Rightarrow> pending_tree \<times> bool" where
  "pt_discard rid T =
     (case dget (pt_paths T) rid of
        None \<Rightarrow> (T, False)
      | Some toks \<Rightarrow>
          (let T1 = T\<lparr>pt_paths := ddel rid (pt_paths T)\<rparr> in
           case pn_remove rid toks (pt_root T) (pt_slots T) of
             None \<Rightarrow> (T1, False)
           | Some (root, _, a) \<Rightarrow> (T1\<lparr>pt_root := root, pt_slots := a\<rparr>, True)))"

definition pt_remove :: "int \<Rightarrow> pending_tree \<Rightarrow> pending_tree res" where
  "pt_remove rid T = (case pt_discard rid T of (T', ok) \<Rightarrow> if ok then Inr T' else Inl KeyError)"

fun pt_insert_all :: "(int \<times> int list) list \<Rightarrow> pending_tree \<Rightarrow> pending_tree" where
  "pt_insert_all [] T = T"
| "pt_insert_all ((rid, toks) # items) T =
     pt_insert_all items (case pt_insert rid toks T of Inl _ \<Rightarrow> T | Inr T' \<Rightarrow> T')"

definition pt_insert_many :: "(int \<times> int list) list \<Rightarrow> pending_tree \<Rightarrow> pending_tree res" where
  "pt_insert_many items T =
     (if list_ex (\<lambda>x. dget (pt_paths T) (fst x) \<noteq> None) items then Inl ValueError
      else if \<not> distinct (map fst items) then Inl ValueError
      else Inr (pt_insert_all items T))"

definition pt_remove_many :: "int list \<Rightarrow> pending_tree \<Rightarrow> pending_tree \<times> nat" where
  "pt_remove_many rids T =
     foldl (\<lambda>(T, n) rid. case pt_discard rid T of (T', ok) \<Rightarrow> (T', if ok then n + 1 else n)) (T, 0) rids"

definition pending_demand :: "pending_tree \<Rightarrow> int list \<Rightarrow> int" where
  "pending_demand T path = int (pn_demand path (pt_root T))"

definition longest_shared_prefix :: "pending_tree \<Rightarrow> int \<Rightarrow> nat" where
  "longest_shared_prefix T rid =
     (case dget (pt_paths T) rid of None \<Rightarrow> 0 | Some toks \<Rightarrow> deepest_with_count (pt_root T) toks 2)"

definition pt_match_prefix :: "pending_tree \<Rightarrow> int list \<Rightarrow> nat" where
  "pt_match_prefix T toks = deepest_with_count (pt_root T) toks 1"

definition node_total :: "pending_tree \<Rightarrow> nat" where
  "node_total T = snd (pt_slots T) - length (fst (pt_slots T))"

definition all_cluster_info :: "pending_tree \<Rightarrow> (int, (int \<times> int \<times> int) option) pydict" where
  "all_cluster_info T =
     map (\<lambda>(rid, toks). (rid, map_option (\<lambda>(n, d, s). (int n, int d, int s)) (cluster_info_at (pt_root T) rid toks)))
       (pt_paths T)"

definition stack_psize :: "pnode list \<Rightarrow> nat" where
  "stack_psize st = sum_list (map psize st)"

lemma stack_psize_simps [simp]:
  "stack_psize [] = 0" "stack_psize (n # st) = psize n + stack_psize st"
  "stack_psize (xs @ ys) = stack_psize xs + stack_psize ys" "stack_psize (rev xs) = stack_psize xs"
  by (auto simp: stack_psize_def simp flip: rev_map)

lemma psize_kids: "psize n = Suc (stack_psize (dvals (pn_kids n)))"
  by (cases n) (simp add: stack_psize_def comp_def)

text \<open>\<open>compute_req_scores\<close>: one depth-first pass, the score of a child being the parent's plus count times edge length.\<close>

definition kid_score :: "int \<Rightarrow> pnode \<Rightarrow> int" where
  "kid_score score_here k = score_here + int (pn_count k) * int (length (pn_edge k))"

function score_walk :: "(pnode \<times> int) list \<Rightarrow> (int, int) pydict \<Rightarrow> (int, int) pydict" where
  "score_walk [] out = out"
| "score_walk ((n, s) # stack) out =
     score_walk (rev (map (\<lambda>x. (snd x, kid_score s (snd x))) (pn_kids n)) @ stack)
       (foldl (\<lambda>d r. dset r s d) out (pn_terms n))"
  by pat_completeness auto
termination
  by (relation "measure (\<lambda>(st, _). stack_psize (map fst st))") (auto simp: psize_kids comp_def rev_map simp flip: rev_map)

definition compute_req_scores :: "pending_tree \<Rightarrow> (int, int) pydict" where
  "compute_req_scores T = score_walk [(pt_root T, 0)] []"

text \<open>The dual walk. The scratch stack holds the children still to do, last pushed first.\<close>

function assign_subtree :: "pnode list \<Rightarrow> int \<Rightarrow> (int, int) pydict \<Rightarrow> (int, int) pydict" where
  "assign_subtree [] hit out = out"
| "assign_subtree (n # stack) hit out =
     assign_subtree (rev (dvals (pn_kids n)) @ stack) hit (foldl (\<lambda>d r. dset r hit d) out (pn_terms n))"
  by pat_completeness auto
termination by (relation "measure (\<lambda>(st, _, _). stack_psize st)") (auto simp: psize_kids)

function dualwalk ::
  "(int list \<Rightarrow> int) \<Rightarrow> nat \<Rightarrow> pnode list \<Rightarrow> int \<Rightarrow> bool \<Rightarrow> int list \<Rightarrow> (int, int) pydict \<Rightarrow> (int, int) pydict"
where
  "dualwalk cm min_count [] hit established path out = out"
| "dualwalk cm min_count (child # todo) hit established path out =
     dualwalk cm min_count todo hit established path
       (if established \<and> pn_count child < min_count then assign_subtree [child] hit out
        else let path' = path @ pn_edge child; match_len = cm path' in
          if int (length path') \<le> match_len
          then dualwalk cm min_count (rev (dvals (pn_kids child))) (int (length path')) True path'
                 (foldl (\<lambda>d r. dset r (int (length path')) d) out (pn_terms child))
          else assign_subtree [child] match_len out)"
  by pat_completeness auto
termination
  by (relation "measure (\<lambda>(_, _, todo, _). stack_psize todo)") (auto simp: psize_kids)

definition compute_main_hits :: "(int list \<Rightarrow> int) \<Rightarrow> nat \<Rightarrow> pending_tree \<Rightarrow> (int, int) pydict" where
  "compute_main_hits cm min_count T =
     dualwalk cm min_count (rev (dvals (pn_kids (pt_root T)))) 0 False []
       (foldl (\<lambda>d r. dset r 0 d) [] (pn_terms (pt_root T)))"

text \<open>\<open>lpm_order\<close>: cold requests claim the position of their first tokens; the rest is the stable sort.\<close>

fun lpm_claims ::
  "pending_tree \<Rightarrow> int \<Rightarrow> nat \<Rightarrow> (nat \<times> nat) list \<Rightarrow> (int \<times> int) list \<Rightarrow> (int \<times> bool) list" where
  "lpm_claims T check k seen [] = []"
| "lpm_claims T check k seen ((rid, hit) # reqs) =
     (case dget (pt_paths T) rid of
        None \<Rightarrow> (hit, False) # lpm_claims T check k seen reqs
      | Some toks \<Rightarrow>
          if hit \<le> check \<and> 0 < k \<and> k \<le> length toks
          then (let claim = prefix_position (pt_root T) (take k toks)
                in (hit, claim \<in> set seen) # lpm_claims T check k (List.insert claim seen) reqs)
          else (hit, False) # lpm_claims T check k seen reqs)"

end
