(* ===== verification/Pending_Props.thy ===== *)
theory Pending_Props
  imports Pending_Tree
begin

text \<open>
  The pending tree against its specification, the dictionary of the pending requests and their
  tokens: the tree invariant, refinement of insertion and removal, and the meaning of the queries.
\<close>

named_theorems pent_simps \<open>the requests below a node\<close>

section \<open>The requests of a subtree\<close>

declare psize.simps [simp del]

lemma psize_PNode: "psize (PNode i e c ts ks) = Suc (sum_list (map (\<lambda>x. psize (snd x)) ks))"
  by (simp add: psize.simps)

lemma psize_kid_less [termination_simp]: "x \<in> set ks \<Longrightarrow> psize (snd x) < psize (PNode i e c ts ks)"
  by (simp add: psize_PNode psize_kid)

text \<open>Pairs of a request and the tokens left below the end of the node's edge.\<close>

function pents :: "pnode \<Rightarrow> (int \<times> int list) list" where
  "pents (PNode i e c ts ks) =
     map (\<lambda>r. (r, [])) ts @ concat (map (\<lambda>x. map (\<lambda>q. (fst q, pn_edge (snd x) @ snd q)) (pents (snd x))) ks)"
  by pat_completeness auto
termination by (relation "measure psize") (auto dest: psize_kid_less)

text \<open>The same with the node's own edge in front.\<close>

definition pent_edge :: "pnode \<Rightarrow> (int \<times> int list) list" where
  "pent_edge n = map (\<lambda>q. (fst q, pn_edge n @ snd q)) (pents n)"

lemma pents_PNode: "pents (PNode i e c ts ks) = map (\<lambda>r. (r, [])) ts @ concat (map (\<lambda>x. pent_edge (snd x)) ks)"
  by (simp add: pent_edge_def)

lemma pents_def': "pents n = map (\<lambda>r. (r, [])) (pn_terms n) @ concat (map (\<lambda>x. pent_edge (snd x)) (pn_kids n))"
  by (cases n) (simp only: pents_PNode pnode.sel)

declare pents.simps [simp del]

lemma length_pent_edge [simp]: "length (pent_edge n) = length (pents n)"
  by (simp add: pent_edge_def)

lemma pent_edge_Nil_iff [simp]: "pent_edge n = [] \<longleftrightarrow> pents n = []"
  by (simp add: pent_edge_def)

lemma mset_pent_edge: "mset (pent_edge n) = image_mset (\<lambda>q. (fst q, pn_edge n @ snd q)) (mset (pents n))"
  by (simp add: pent_edge_def)

section \<open>The invariant of a node\<close>

function pn_ok :: "pnode \<Rightarrow> bool" where
  "pn_ok (PNode i e c ts ks) \<longleftrightarrow> wf_dict ks \<and> distinct ts \<and>
     (\<forall>x \<in> set ks. pn_ok (snd x) \<and> pn_edge (snd x) \<noteq> [] \<and> hd (pn_edge (snd x)) = fst x
        \<and> pn_count (snd x) = length (pents (snd x)) \<and> (pn_terms (snd x) \<noteq> [] \<or> 2 \<le> length (pn_kids (snd x))))"
  by pat_completeness auto
termination by (relation "measure psize") (auto dest: psize_kid_less)

definition kid_ok :: "int \<times> pnode \<Rightarrow> bool" where
  "kid_ok x \<longleftrightarrow> pn_ok (snd x) \<and> pn_edge (snd x) \<noteq> [] \<and> hd (pn_edge (snd x)) = fst x
     \<and> pn_count (snd x) = length (pents (snd x)) \<and> (pn_terms (snd x) \<noteq> [] \<or> 2 \<le> length (pn_kids (snd x)))"

lemma pn_ok_iff: "pn_ok n \<longleftrightarrow> wf_dict (pn_kids n) \<and> distinct (pn_terms n) \<and> (\<forall>x \<in> set (pn_kids n). kid_ok x)"
  by (cases n) (simp only: pn_ok.simps kid_ok_def pnode.sel)

declare pn_ok.simps [simp del]

lemma pents_nonempty: "pn_ok n \<Longrightarrow> pn_terms n \<noteq> [] \<or> pn_kids n \<noteq> [] \<Longrightarrow> pents n \<noteq> []"
proof (induction n rule: measure_induct_rule [of psize])
  case (less n)
  show ?case
  proof (cases "pn_terms n = []")
    case False
    then show ?thesis by (subst pents_def') simp
  next
    case True
    with less.prems(2) obtain x ks where k: "pn_kids n = x # ks" by (cases "pn_kids n") auto
    then have ok: "kid_ok x" using less.prems(1) by (simp add: pn_ok_iff)
    then have "pn_ok (snd x)" "pn_terms (snd x) \<noteq> [] \<or> pn_kids (snd x) \<noteq> []" by (auto simp: kid_ok_def)
    moreover have "psize (snd x) < psize n" using k by (cases n) (auto intro: psize_kid_less)
    ultimately have "pents (snd x) \<noteq> []" using less.IH by blast
    then show ?thesis using k by (subst pents_def') simp
  qed
qed

lemma kid_nonempty: "kid_ok x \<Longrightarrow> pents (snd x) \<noteq> []"
  by (rule pents_nonempty) (auto simp: kid_ok_def)

lemma kid_lookup: "pn_ok n \<Longrightarrow> dget (pn_kids n) t = Some k \<Longrightarrow> kid_ok (t, k)"
  by (auto simp: pn_ok_iff dest!: map_of_SomeD)

lemma kid_kids: "x \<in> set (pn_kids n) \<Longrightarrow> pn_ok n \<Longrightarrow> kid_ok x"
  by (simp add: pn_ok_iff)

text \<open>The requests below a node, split by the first token.\<close>

lemma pent_edge_hd: "kid_ok (t, k) \<Longrightarrow> q \<in> set (pent_edge k) \<Longrightarrow> snd q \<noteq> [] \<and> hd (snd q) = t"
  by (auto simp: pent_edge_def kid_ok_def)

lemma pents_at_kid:
  assumes "pn_ok n" and "p \<noteq> []" and "\<And>q. P q \<Longrightarrow> snd q \<noteq> [] \<and> hd (snd q) = hd p"
  shows "filter P (pents n) = (case dget (pn_kids n) (hd p) of None \<Rightarrow> [] | Some k \<Rightarrow> filter P (pent_edge k))"
proof -
  have "\<not> P (r, [])" for r using assms(3) [of "(r, [])"] by auto
  then have terms: "filter P (map (\<lambda>r. (r, [])) (pn_terms n)) = []" by (auto simp: filter_empty_conv)
  have off: "filter P (pent_edge (snd x)) = []" if "x \<in> set (pn_kids n)" "fst x \<noteq> hd p" for x
  proof -
    have "kid_ok (fst x, snd x)" using kid_kids [OF that(1) assms(1)] by simp
    then have "\<not> P q" if "q \<in> set (pent_edge (snd x))" for q using pent_edge_hd that assms(3) \<open>fst x \<noteq> hd p\<close> by metis
    then show ?thesis by (simp add: filter_empty_conv)
  qed
  have none: "concat (map (\<lambda>x. filter P (pent_edge (snd x))) ks) = []" if a: "set ks \<subseteq> set (pn_kids n)" and b: "hd p \<notin> fst ` set ks" for ks
  proof -
    have "filter P (pent_edge (snd x)) = []" if x: "x \<in> set ks" for x by (rule off) (use x a b in force)+
    then show ?thesis by simp
  qed
  have e: "filter P (pents n) = concat (map (\<lambda>x. filter P (pent_edge (snd x))) (pn_kids n))"
    by (subst pents_def') (simp add: terms filter_concat comp_def)
  show ?thesis
  proof (cases "dget (pn_kids n) (hd p)")
    case None
    then have "hd p \<notin> fst ` set (pn_kids n)" by (simp add: dget_None_iff)
    from none [OF order_refl this] show ?thesis unfolding e by (simp only: None option.case)
  next
    case (Some k)
    moreover have "wf_dict (pn_kids n)" using assms(1) by (simp add: pn_ok_iff)
    ultimately obtain d1 d2 where d: "pn_kids n = d1 @ (hd p, k) # d2" "hd p \<notin> fst ` set d1" "hd p \<notin> fst ` set d2"
      using dset_split by metis
    have "concat (map (\<lambda>x. filter P (pent_edge (snd x))) d1) = []" "concat (map (\<lambda>x. filter P (pent_edge (snd x))) d2) = []"
      by (rule none; use d in auto)+
    then show ?thesis using Some by (simp add: e d(1) del: concat_eq_Nil_conv)
  qed
qed

section \<open>Matching along an edge\<close>

lemma match_edge_len_Nil [simp]: "match_edge_len [] t = 0" "match_edge_len e [] = 0"
  by (simp_all add: match_edge_len_def)

lemma match_edge_len_Cons [simp]: "match_edge_len (x # e) (y # t) = (if x = y then Suc (match_edge_len e t) else 0)"
  by (simp add: match_edge_len_def)

lemma match_edge_take: "take (match_edge_len e t) e = take (match_edge_len e t) t"
proof (induction e arbitrary: t)
  case (Cons x e)
  then show ?case by (cases t) auto
qed simp

lemma match_edge_le: "match_edge_len e t \<le> length e \<and> match_edge_len e t \<le> length t"
proof (induction e arbitrary: t)
  case (Cons x e)
  then show ?case by (cases t) auto
qed simp

lemma match_edge_pos: "e \<noteq> [] \<Longrightarrow> t \<noteq> [] \<Longrightarrow> hd e = hd t \<Longrightarrow> 0 < match_edge_len e t"
  by (cases e; cases t) auto

lemma match_edge_full: "match_edge_len e t = length e \<longleftrightarrow> prefix e t"
proof (induction e arbitrary: t)
  case (Cons x e)
  then show ?case by (cases t) auto
qed simp

lemma match_edge_stop:
  "match_edge_len e t < length e \<Longrightarrow> match_edge_len e t < length t \<Longrightarrow> e ! match_edge_len e t \<noteq> t ! match_edge_len e t"
proof (induction e arbitrary: t)
  case (Cons x e)
  then show ?case by (cases t) (auto split: if_splits)
qed simp

section \<open>Updating one child\<close>

lemma concat_dset_some:
  assumes "wf_dict ks" and "dget ks t = Some k"
  shows "mset (concat (map (\<lambda>x. f (snd x)) (dset t m ks))) + mset (f k) = mset (concat (map (\<lambda>x. f (snd x)) ks)) + mset (f m)"
proof -
  from assms obtain d1 d2 where "ks = d1 @ (t, k) # d2" "\<And>w. dset t w ks = d1 @ (t, w) # d2" using dset_split by metis
  then show ?thesis by simp
qed

lemma concat_dset_none:
  "dget ks t = None \<Longrightarrow> mset (concat (map (\<lambda>x. f (snd x)) (dset t m ks))) = mset (concat (map (\<lambda>x. f (snd x)) ks)) + mset (f m)"
  by (simp add: dget_None_iff dset_append)

lemma concat_ddel_some:
  assumes "wf_dict ks" and "dget ks t = Some k"
  shows "mset (concat (map (\<lambda>x. f (snd x)) (ddel t ks))) + mset (f k) = mset (concat (map (\<lambda>x. f (snd x)) ks))"
proof -
  from assms obtain d1 d2 where "ks = d1 @ (t, k) # d2" "ddel t ks = d1 @ d2" using dset_split by metis
  then show ?thesis by simp
qed

lemma length_dset_some: "wf_dict ks \<Longrightarrow> dget ks t = Some k \<Longrightarrow> length (dset t m ks) = length ks"
proof -
  assume "wf_dict ks" "dget ks t = Some k"
  then obtain d1 d2 where "ks = d1 @ (t, k) # d2" "\<And>w. dset t w ks = d1 @ (t, w) # d2" using dset_split by metis
  then show ?thesis by simp
qed

function pids :: "pnode \<Rightarrow> nat list" where
  "pids (PNode i e c ts ks) = i # concat (map (\<lambda>x. pids (snd x)) ks)"
  by pat_completeness auto
termination by (relation "measure psize") (auto dest: psize_kid_less)

lemma pids_unfold: "pids n = pn_id n # concat (map (\<lambda>x. pids (snd x)) (pn_kids n))"
  by (cases n) simp

declare mset_upt [simp del]

text \<open>The balance of slots: used, free, allocated.\<close>

definition slots_kept :: "pnode \<Rightarrow> slots \<Rightarrow> pnode \<Rightarrow> slots \<Rightarrow> bool" where
  "slots_kept n a n' a' \<longleftrightarrow> mset (pids n') + mset (fst a') + mset [0..<snd a] = mset (pids n) + mset (fst a) + mset [0..<snd a']"

lemma palloc_kept: "palloc a = (j, a') \<Longrightarrow> mset (fst a') + add_mset j (mset [0..<snd a]) = mset (fst a) + mset [0..<snd a']"
  by (cases a) (auto simp: palloc_def split: list.splits)

lemma slots_kept_refl: "slots_kept n a n a"
  by (simp add: slots_kept_def)

lemma slots_kept_trans:
  assumes "slots_kept n a m b" and "slots_kept m b k c"
  shows "slots_kept n a k c"
proof -
  have "count (mset (pids k)) x + count (mset (fst c)) x + count (mset [0..<snd a]) x
      = count (mset (pids n)) x + count (mset (fst a)) x + count (mset [0..<snd c]) x" for x
    using assms [unfolded slots_kept_def multiset_eq_iff, THEN spec [of _ x]] by simp
  then show ?thesis by (simp add: slots_kept_def multiset_eq_iff)
qed

section \<open>Insertion\<close>

declare attach.simps [simp del] pn_insert.simps [simp del] pn_remove.simps [simp del]

abbreviation branching :: "pnode \<Rightarrow> bool" where
  "branching n \<equiv> pn_terms n \<noteq> [] \<or> 2 \<le> length (pn_kids n)"

lemma split_edge_props:
  assumes "kid_ok (t, k)" and "0 < off" and "off < length (pn_edge k)" and "split_edge off k a = (up, a')"
  shows "pn_ok up" "pent_edge up = pent_edge k" "pn_edge up = take off (pn_edge k)" "pn_count up = pn_count k"
    "pn_id up = pn_id k" "pn_terms up = []" "length (pn_kids up) = 1" "slots_kept k a up a'"
    "dget (pn_kids up) y = (if y = pn_edge k ! off then Some (PNode (fst (palloc a)) (drop off (pn_edge k)) (pn_count k) (pn_terms k) (pn_kids k)) else None)"
proof -
  obtain i e c ts ks where k: "k = PNode i e c ts ks" by (cases k)
  obtain j b where p: "palloc a = (j, b)" by (cases "palloc a")
  let ?low = "PNode j (drop off e) c ts ks"
  have up: "up = PNode i (take off e) c [] [(hd (drop off e), ?low)]" and b: "a' = b" using assms(4) by (auto simp: k p Let_def)
  have ks: "pents ?low = pents k" by (simp add: k pents_PNode)
  have "pn_ok k" using assms(1) by (simp add: kid_ok_def)
  then have low: "pn_ok ?low" by (simp add: k pn_ok_iff)
  have "kid_ok (hd (drop off e), ?low)" using assms(1,3) low ks by (auto simp: kid_ok_def k)
  then show "pn_ok up" by (simp add: up pn_ok_iff)
  show "pent_edge up = pent_edge k"
    by (simp add: up pent_edge_def pents_PNode ks [unfolded k] k)
  show "pn_edge up = take off (pn_edge k)" "pn_count up = pn_count k" "pn_id up = pn_id k" "pn_terms up = []" "length (pn_kids up) = 1"
    by (simp_all add: up k)
  show "slots_kept k a up a'" using palloc_kept [OF p] by (simp add: slots_kept_def up b k ac_simps)
  show "dget (pn_kids up) y = (if y = pn_edge k ! off then Some (PNode (fst (palloc a)) (drop off (pn_edge k)) (pn_count k) (pn_terms k) (pn_kids k)) else None)"
    using assms(3) by (simp add: up k p hd_drop_conv_nth)
qed

lemma bump_simps [simp]: "pn_edge (bump_count n) = pn_edge n" "pents (bump_count n) = pents n" "pent_edge (bump_count n) = pent_edge n"
  "pids (bump_count n) = pids n" "pn_terms (bump_count n) = pn_terms n" "pn_kids (bump_count n) = pn_kids n"
  "pn_count (bump_count n) = Suc (pn_count n)"
  by (cases n; simp add: pents_PNode pent_edge_def)+

lemma pn_ok_bump [simp]: "pn_ok (bump_count n) = pn_ok n"
  unfolding pn_ok_iff bump_simps ..

lemma good_bump:
  assumes "pn_ok n" and "branching n" and "pn_edge n \<noteq> []" and "hd (pn_edge n) = t" and "Suc (pn_count n) = length (pents n)"
  shows "kid_ok (t, bump_count n)"
  using assms by (simp add: kid_ok_def)

text \<open>What an insertion below a node leaves alone, and what it adds.\<close>

definition inserted :: "int \<Rightarrow> int list \<Rightarrow> pnode \<Rightarrow> slots \<Rightarrow> pnode \<Rightarrow> slots \<Rightarrow> bool" where
  "inserted rid toks n a n' a' \<longleftrightarrow> pn_ok n' \<and> mset (pents n') = add_mset (rid, toks) (mset (pents n))
     \<and> pn_edge n' = pn_edge n \<and> pn_count n' = pn_count n \<and> (branching n \<longrightarrow> branching n') \<and> slots_kept n a n' a'"

lemma pn_ok_dset:
  assumes "pn_ok (PNode i e c ts ks)" and "kid_ok (t, m)"
  shows "pn_ok (PNode i' e' c' ts (dset t m ks))"
  using assms set_dset_subset [of t m ks] wf_dset [of ks t m] unfolding pn_ok_iff pnode.sel by blast

lemma attach_inserted:
  assumes ok: "pn_ok n" and r: "attach rid tail n a = (n', a')" and fresh: "tail = [] \<longrightarrow> rid \<notin> set (pn_terms n)"
    and free: "tail \<noteq> [] \<longrightarrow> dget (pn_kids n) (hd tail) = None"
  shows "inserted rid tail n a n' a' \<and> (pn_kids n \<noteq> [] \<longrightarrow> branching n')"
proof (cases "tail = []")
  case True
  obtain i e c ts ks where n: "n = PNode i e c ts ks" by (cases n)
  have n': "n' = PNode i e c (rid # ts) ks" "a' = a" using r True fresh by (auto simp: n attach.simps)
  then show ?thesis using ok fresh True by (simp add: inserted_def n pn_ok_iff pents_PNode slots_kept_def)
next
  case False
  obtain i e c ts ks where n: "n = PNode i e c ts ks" by (cases n)
  obtain j b where p: "palloc a = (j, b)" by (cases "palloc a")
  let ?new = "PNode j tail 1 [rid] []"
  have n': "n' = PNode i e c ts (dset (hd tail) ?new ks)" "a' = b" using r False by (auto simp: n p attach.simps)
  have none: "dget ks (hd tail) = None" using free False by (simp add: n)
  have "pn_ok ?new" by (simp add: pn_ok_iff)
  then have new: "kid_ok (hd tail, ?new)" using False by (simp add: kid_ok_def pents_PNode)
  have "pn_ok n'" unfolding n' using ok new unfolding n by (rule pn_ok_dset)
  moreover have "mset (pents n') = add_mset (rid, tail) (mset (pents n))"
    using concat_dset_none [OF none, of pent_edge ?new] by (simp add: n' n pents_PNode pent_edge_def)
  moreover have "slots_kept n a n' a'"
    using concat_dset_none [OF none, of pids ?new] palloc_kept [OF p] by (simp add: slots_kept_def n n' ac_simps)
  moreover have "length (dset (hd tail) ?new ks) = Suc (length ks)" using none by (simp add: dget_None_iff dset_append)
  moreover have "ks \<noteq> [] \<longrightarrow> Suc 0 \<le> length ks" by (cases ks) auto
  ultimately show ?thesis by (auto simp: inserted_def n n')
qed

lemma slots_dset:
  assumes wd: "wf_dict ks" and k: "dget ks t = Some k" and sl: "slots_kept k a m a'"
  shows "slots_kept (PNode i e c ts ks) a (PNode i e c ts (dset t m ks)) a'"
  unfolding slots_kept_def multiset_eq_iff
proof
  fix x
  show "count (mset (pids (PNode i e c ts (dset t m ks))) + mset (fst a') + mset [0..<snd a]) x =
    count (mset (pids (PNode i e c ts ks)) + mset (fst a) + mset [0..<snd a']) x"
    using concat_dset_some [OF wd k, of pids m, THEN arg_cong, of "\<lambda>M. count M x"] sl [unfolded slots_kept_def multiset_eq_iff, THEN spec, of x]
    by simp
qed

lemma kid_update:
  assumes ok: "pn_ok (PNode i e c ts ks)" and k: "dget ks t = Some k" and m: "kid_ok (t, m)"
    and e: "mset (pent_edge m) = mset (pent_edge k) + d" and sl: "slots_kept k a m a'"
  shows "pn_ok (PNode i e c ts (dset t m ks)) \<and> mset (pents (PNode i e c ts (dset t m ks))) = mset (pents (PNode i e c ts ks)) + d
    \<and> (branching (PNode i e c ts ks) \<longrightarrow> branching (PNode i e c ts (dset t m ks)))
    \<and> slots_kept (PNode i e c ts ks) a (PNode i e c ts (dset t m ks)) a'"
proof -
  have wd: "wf_dict ks" using ok by (simp add: pn_ok_iff)
  have "pn_ok (PNode i e c ts (dset t m ks))"
    using ok m by (rule pn_ok_dset)
  moreover have "mset (pents (PNode i e c ts (dset t m ks))) = mset (pents (PNode i e c ts ks)) + d"
    using concat_dset_some [OF wd k, of pent_edge m] e by (simp add: pents_PNode ac_simps)
  moreover have "slots_kept (PNode i e c ts ks) a (PNode i e c ts (dset t m ks)) a'"
    using slots_dset [OF wd k sl] .
  ultimately show ?thesis using length_dset_some [OF wd k] by simp
qed

lemma insert_kid:
  assumes ok: "pn_ok (PNode i e c ts ks)" and k: "dget ks (hd toks) = Some k"
    and u: "pn_edge u = take off (pn_edge k)" "0 < off" "pent_edge u = pent_edge k" "pn_count u = pn_count k"
    and toks: "take off (pn_edge k) @ tail = toks" and su: "slots_kept k a u a1"
    and ins: "inserted rid tail u a1 m a'" and br: "branching m"
  shows "inserted rid toks (PNode i e c ts ks) a (PNode i e c ts (dset (hd toks) (bump_count m) ks)) a'"
proof -
  have kok: "kid_ok (hd toks, k)" using kid_lookup [OF ok] k by simp
  have "pn_edge m \<noteq> []" "hd (pn_edge m) = hd toks"
    using ins u(1,2) kok by (auto simp: inserted_def kid_ok_def)
  moreover have "length (pents m) = Suc (length (pents u))" using ins [unfolded inserted_def] by (metis size_add_mset size_mset)
  moreover have "length (pents u) = length (pents k)" using arg_cong [OF u(3), of length] by simp
  ultimately have m: "kid_ok (hd toks, bump_count m)"
    using ins br u(4) kok by (intro good_bump) (auto simp: inserted_def kid_ok_def)
  have "mset (pent_edge m) = add_mset (rid, toks) (mset (pent_edge u))"
    using ins toks u(1) by (simp add: inserted_def mset_pent_edge)
  then have "mset (pent_edge (bump_count m)) = mset (pent_edge k) + {#(rid, toks)#}" by (simp add: u(3))
  moreover have "slots_kept k a (bump_count m) a'"
    using slots_kept_trans [OF su] ins by (simp add: inserted_def slots_kept_def)
  ultimately show ?thesis using kid_update [OF ok k m] by (simp add: inserted_def)
qed

lemma kid_entries: "dget ks t = Some k \<Longrightarrow> set (pent_edge k) \<subseteq> set (pents (PNode i e c ts ks))"
  by (auto simp: pents_PNode dest!: map_of_SomeD)

lemma pn_insert_inserted:
  "pn_ok n \<Longrightarrow> (rid, toks) \<notin> set (pents n) \<Longrightarrow> pn_insert rid toks n a = (n', a') \<Longrightarrow> inserted rid toks n a n' a'"
proof (induction rid toks n a arbitrary: n' a' rule: pn_insert.induct)
  case (1 rid toks i e c ts ks a)
  let ?n = "PNode i e c ts ks"
  show ?case
  proof (cases "toks = [] \<or> dget ks (hd toks) = None")
    case True
    then have "attach rid toks ?n a = (n', a')" using "1.prems"(3) pn_insert.simps [of rid toks i e c ts ks a] by (auto split: if_splits)
    moreover have "toks = [] \<longrightarrow> rid \<notin> set ts" using "1.prems"(2) by (auto simp: pents_PNode)
    ultimately show ?thesis using attach_inserted [OF "1.prems"(1)] True by (metis pnode.sel(4,5))
  next
    case False
    then obtain k where ne: "toks \<noteq> []" and k: "dget ks (hd toks) = Some k" by auto
    let ?co = "match_edge_len (pn_edge k) toks"
    have kok: "kid_ok (hd toks, k)" using kid_lookup [OF "1.prems"(1)] k by simp
    then have pos: "0 < ?co" using ne by (auto intro!: match_edge_pos simp: kid_ok_def)
    have toks: "take ?co (pn_edge k) @ drop ?co toks = toks" by (simp add: match_edge_take)
    show ?thesis
    proof (cases "?co < length (pn_edge k)")
      case lt: True
      obtain u a1 where u: "split_edge ?co k a = (u, a1)" by (cases "split_edge ?co k a")
      obtain m b where m: "attach rid (drop ?co toks) u a1 = (m, b)" by (cases "attach rid (drop ?co toks) u a1")
      have r: "n' = PNode i e c ts (dset (hd toks) (bump_count m) ks)" "a' = b"
        using "1.prems"(3) ne k lt u m by (auto simp: pn_insert.simps Let_def)
      note up = split_edge_props [OF kok pos lt u]
      have "dget (pn_kids u) (hd (drop ?co toks)) = None" if "drop ?co toks \<noteq> []"
        using match_edge_stop [OF lt] that by (simp add: up(9) hd_drop_conv_nth)
      moreover have "pn_kids u \<noteq> []" using up(7) by auto
      ultimately have "inserted rid (drop ?co toks) u a1 m b" "branching m"
        using attach_inserted [OF up(1) m] up(6) by auto
      then show ?thesis unfolding r by (intro insert_kid [OF "1.prems"(1) k up(3) pos up(2,4) toks up(8)])
    next
      case False
      then have full: "?co = length (pn_edge k)" using match_edge_le [of "pn_edge k" toks] by simp
      obtain m b where m: "pn_insert rid (drop ?co toks) k a = (m, b)" by (cases "pn_insert rid (drop ?co toks) k a")
      have r: "n' = PNode i e c ts (dset (hd toks) (bump_count m) ks)" "a' = b"
        using "1.prems"(3) ne k False m by (auto simp: pn_insert.simps Let_def)
      have "(rid, toks) \<notin> set (pent_edge k)" using "1.prems"(2) kid_entries [OF k] by blast
      then have "(rid, drop ?co toks) \<notin> set (pents k)" using toks full by (force simp: pent_edge_def)
      moreover have "pn_ok k" "branching k" using kok by (auto simp: kid_ok_def)
      ultimately have ins: "inserted rid (drop ?co toks) k a m b" using "1.IH" [OF ne k refl False _ _ m] by blast
      then have "branching m" using \<open>branching k\<close> by (simp add: inserted_def)
      then show ?thesis unfolding r
        using insert_kid [OF "1.prems"(1) k _ pos refl refl toks slots_kept_refl ins] full by simp
    qed
  qed
qed

section \<open>Removal\<close>

definition removed :: "int \<Rightarrow> int list \<Rightarrow> pnode \<Rightarrow> slots \<Rightarrow> pnode \<Rightarrow> bool \<Rightarrow> slots \<Rightarrow> bool" where
  "removed rid toks n a n' go a' \<longleftrightarrow> pn_ok n' \<and> mset (pents n) = add_mset (rid, toks) (mset (pents n'))
     \<and> pn_edge n' = pn_edge n \<and> pn_count n' = pn_count n \<and> (branching n \<and> \<not> go \<longrightarrow> branching n') \<and> slots_kept n a n' a'"

lemma drop_simps [simp]: "pn_edge (drop_count n) = pn_edge n" "pents (drop_count n) = pents n" "pent_edge (drop_count n) = pent_edge n"
  "pids (drop_count n) = pids n" "pn_terms (drop_count n) = pn_terms n" "pn_kids (drop_count n) = pn_kids n"
  "pn_count (drop_count n) = pn_count n - 1" "pn_id (drop_count n) = pn_id n"
  by (cases n; simp add: pents_PNode pent_edge_def)+

lemma pn_ok_drop [simp]: "pn_ok (drop_count n) = pn_ok n"
  unfolding pn_ok_iff drop_simps ..

lemma gc_node_dead: "gc_node n a = None \<Longrightarrow> pents n = [] \<and> pids n = [pn_id n]"
  by (cases n) (auto simp: gc_node_def pents_PNode Let_def split: if_splits)

lemma gc_node_kept:
  assumes ok: "pn_ok n" and r: "gc_node n a = Some (m, a')" and e: "pn_edge n \<noteq> []"
  shows "pn_ok m \<and> pent_edge m = pent_edge n \<and> pn_edge m \<noteq> [] \<and> hd (pn_edge m) = hd (pn_edge n) \<and> pn_count m = pn_count n
    \<and> branching m \<and> slots_kept n a m a'"
proof (cases "pn_terms n = [] \<and> length (pn_kids n) = 1")
  case True
  then obtain t k where ks: "pn_kids n = [(t, k)]" by (cases "pn_kids n") auto
  then have m: "m = PNode (pn_id n) (pn_edge n @ pn_edge k) (pn_count n) (pn_terms k) (pn_kids k)" and a': "a' = pfree (pn_id k) a"
    using r True by (auto simp: gc_node_def)
  have k: "kid_ok (t, k)" using kid_kids [of _ n] ok ks by simp
  then have "pn_ok k" "branching k" by (auto simp: kid_ok_def)
  then have "pn_ok m" "branching m" unfolding m by (simp_all add: pn_ok_iff)
  moreover have "pents m = pents k" unfolding m pents_PNode using pents_def' [of k] by simp
  moreover have "pents n = pent_edge k" using True ks by (subst pents_def') simp
  ultimately show ?thesis using e ks True
    by (auto simp: m a' pent_edge_def slots_kept_def pids_unfold [of n] pids_unfold [of k] pfree_def ac_simps)
next
  case False
  then have mn: "m = n" "a' = a" and ne: "pn_terms n \<noteq> [] \<or> pn_kids n \<noteq> []"
    using r by (auto simp: gc_node_def split: if_splits)
  have "branching n" using ne False by (cases "pn_kids n") (auto simp: Suc_le_eq)
  then show ?thesis using ok e mn by (simp add: slots_kept_refl)
qed

lemma kid_shrink:
  assumes ok: "pn_ok (PNode i e c ts ks)" and k: "dget ks t = Some k" and m: "kid_ok (t, m)"
    and e: "mset (pent_edge k) = add_mset q (mset (pent_edge m))" and sl: "slots_kept k a m a'"
  shows "pn_ok (PNode i e c ts (dset t m ks)) \<and> mset (pents (PNode i e c ts ks)) = add_mset q (mset (pents (PNode i e c ts (dset t m ks))))
    \<and> (branching (PNode i e c ts ks) \<longrightarrow> branching (PNode i e c ts (dset t m ks)))
    \<and> slots_kept (PNode i e c ts ks) a (PNode i e c ts (dset t m ks)) a'"
proof -
  have wd: "wf_dict ks" using ok by (simp add: pn_ok_iff)
  have "mset (pents (PNode i e c ts ks)) = add_mset q (mset (pents (PNode i e c ts (dset t m ks))))"
    using concat_dset_some [OF wd k, of pent_edge m] e by (simp add: pents_PNode ac_simps)
  moreover have "slots_kept (PNode i e c ts ks) a (PNode i e c ts (dset t m ks)) a'"
    using slots_dset [OF wd k sl] .
  ultimately show ?thesis using pn_ok_dset [OF ok m] length_dset_some [OF wd k] by simp
qed

lemma kid_gone:
  assumes ok: "pn_ok (PNode i e c ts ks)" and k: "dget ks t = Some k" and e: "mset (pent_edge k) = {#q#}"
    and sl: "slots_kept k a m a'" and m: "pids m = [j]"
  shows "pn_ok (PNode i e c ts (ddel t ks)) \<and> mset (pents (PNode i e c ts ks)) = add_mset q (mset (pents (PNode i e c ts (ddel t ks))))
    \<and> slots_kept (PNode i e c ts ks) a (PNode i e c ts (ddel t ks)) (pfree j a')"
proof -
  have wd: "wf_dict ks" using ok by (simp add: pn_ok_iff)
  have "pn_ok (PNode i e c ts (ddel t ks))"
    using ok set_ddel_subset [of t ks] wf_ddel [of ks t] unfolding pn_ok_iff pnode.sel by blast
  moreover have "mset (pents (PNode i e c ts ks)) = add_mset q (mset (pents (PNode i e c ts (ddel t ks))))"
    using concat_ddel_some [OF wd k, of pent_edge] e by (simp add: pents_PNode ac_simps)
  moreover have "slots_kept (PNode i e c ts ks) a (PNode i e c ts (ddel t ks)) (pfree j a')"
    unfolding slots_kept_def multiset_eq_iff
  proof
    fix x
    show "count (mset (pids (PNode i e c ts (ddel t ks))) + mset (fst (pfree j a')) + mset [0..<snd a]) x =
      count (mset (pids (PNode i e c ts ks)) + mset (fst a) + mset [0..<snd (pfree j a')]) x"
      using concat_ddel_some [OF wd k, of pids, THEN arg_cong, of "\<lambda>M. count M x"] sl [unfolded slots_kept_def multiset_eq_iff, THEN spec, of x] m
      by (cases "j = x") (simp_all add: pfree_def)
  qed
  ultimately show ?thesis by blast
qed

lemma pn_remove_removed:
  "pn_ok n \<Longrightarrow> pn_remove rid toks n a = Some (n', go, a') \<Longrightarrow> removed rid toks n a n' go a'"
proof (induction rid toks n a arbitrary: n' go a' rule: pn_remove.induct)
  case (1 rid toks i e c ts ks a)
  let ?n = "PNode i e c ts ks"
  show ?case
  proof (cases "toks = []")
    case True
    then have r: "rid \<in> set ts" "n' = PNode i e c (removeAll rid ts) ks" "go" "a' = a"
      using "1.prems"(2) by (auto simp: pn_remove.simps split: if_splits)
    have "distinct ts" using "1.prems"(1) by (simp add: pn_ok_iff)
    then have "mset ts = add_mset rid (mset (removeAll rid ts))" using r(1) by (simp add: distinct_remove1_removeAll [symmetric])
    then have "mset (pents ?n) = add_mset (rid, toks) (mset (pents n'))"
      using True by (simp add: r pents_PNode flip: image_mset_add_mset) (metis image_mset_add_mset)
    then show ?thesis using "1.prems"(1) r by (simp add: removed_def pn_ok_iff distinct_removeAll slots_kept_def)
  next
    case ne: False
    obtain k where k: "dget ks (hd toks) = Some k" using "1.prems"(2) ne by (auto simp: pn_remove.simps split: option.splits)
    let ?co = "match_edge_len (pn_edge k) toks"
    have kok: "kid_ok (hd toks, k)" using kid_lookup [OF "1.prems"(1)] k by simp
    have full: "\<not> ?co < length (pn_edge k)" using "1.prems"(2) ne k by (auto simp: pn_remove.simps split: if_splits)
    then have co: "?co = length (pn_edge k)" using match_edge_le [of "pn_edge k" toks] by simp
    have toks: "pn_edge k @ drop ?co toks = toks" using match_edge_take [of "pn_edge k" toks] co by (metis append_take_drop_id order_refl take_all)
    obtain m mo b where m: "pn_remove rid (drop ?co toks) k a = Some (m, mo, b)"
      using "1.prems"(2) ne k full by (auto simp: pn_remove.simps Let_def split: option.splits)
    have "pn_ok k" "branching k" using kok by (auto simp: kid_ok_def)
    then have rm: "removed rid (drop ?co toks) k a m mo b" using "1.IH" [OF ne k refl full] m by blast
    then have e: "mset (pent_edge k) = add_mset (rid, toks) (mset (pent_edge (drop_count m)))"
      using toks by (simp add: removed_def mset_pent_edge)
    have cnt: "pn_count (drop_count m) = length (pents m)"
    proof -
      have "length (pents k) = Suc (length (pents m))" using rm [unfolded removed_def] by (metis size_add_mset size_mset)
      then show ?thesis using rm kok by (simp add: removed_def kid_ok_def)
    qed
    have sl: "slots_kept k a (drop_count m) b" using rm by (simp add: removed_def slots_kept_def)
    have okm: "pn_ok (drop_count m)" "pn_edge (drop_count m) \<noteq> []" "hd (pn_edge (drop_count m)) = hd toks"
      using rm kok by (auto simp: removed_def kid_ok_def)
    show ?thesis
    proof (cases mo)
      case False
      then have "kid_ok (hd toks, drop_count m)" using okm cnt rm \<open>branching k\<close> by (simp add: kid_ok_def removed_def)
      moreover have "n' = PNode i e c ts (dset (hd toks) (drop_count m) ks)" "a' = b" "\<not> go"
        using "1.prems"(2) ne k full m False by (auto simp: pn_remove.simps Let_def)
      ultimately show ?thesis using kid_shrink [OF "1.prems"(1) k _ e sl] by (simp add: removed_def)
    next
      case mo: True
      show ?thesis
      proof (cases "gc_node (drop_count m) b")
        case None
        have "n' = PNode i e c ts (ddel (hd toks) ks)" "a' = pfree (pn_id (drop_count m)) b" "go"
          using "1.prems"(2) ne k full m mo None okm(3) by (auto simp: pn_remove.simps Let_def)
        then show ?thesis using kid_gone [OF "1.prems"(1) k _ sl] gc_node_dead [OF None] e by (simp add: removed_def mset_pent_edge)
      next
        case (Some r)
        obtain g d where r: "r = (g, d)" by (cases r)
        have "n' = PNode i e c ts (dset (hd toks) g ks)" "a' = d" "\<not> go"
          using "1.prems"(2) ne k full m mo Some r by (auto simp: pn_remove.simps Let_def)
        moreover note g = gc_node_kept [OF okm(1) Some [unfolded r] okm(2)]
        have "length (pents g) = length (pents m)" using g by (metis length_pent_edge drop_simps(2))
        then have "kid_ok (hd toks, g)" using g okm cnt by (simp add: kid_ok_def)
        moreover have "slots_kept k a g d" using slots_kept_trans [OF sl] g by blast
        moreover have "mset (pent_edge k) = add_mset (rid, toks) (mset (pent_edge g))" using e g by simp
        ultimately show ?thesis using kid_shrink [OF "1.prems"(1) k] by (simp add: removed_def)
      qed
    qed
  qed
qed

lemma pn_remove_present:
  "pn_ok n \<Longrightarrow> (rid, toks) \<in> set (pents n) \<Longrightarrow> \<exists>n' go a'. pn_remove rid toks n a = Some (n', go, a')"
proof (induction rid toks n a rule: pn_remove.induct)
  case (1 rid toks i e c ts ks a)
  show ?case
  proof (cases "toks = []")
    case True
    have "(rid, []) \<notin> set (pent_edge (snd x))" if "x \<in> set ks" for x
      using kid_kids [of x "PNode i e c ts ks"] "1.prems"(1) that by (auto simp: pent_edge_def kid_ok_def)
    then have "rid \<in> set ts" using "1.prems"(2) True by (auto simp: pents_PNode)
    then show ?thesis using True by (auto simp: pn_remove.simps)
  next
    case ne: False
    let ?P = "\<lambda>q. q = (rid, toks)"
    have "filter ?P (pents (PNode i e c ts ks)) \<noteq> []" using "1.prems"(2) by (auto simp: filter_empty_conv)
    then obtain k where k: "dget ks (hd toks) = Some k" and m: "(rid, toks) \<in> set (pent_edge k)"
      using pents_at_kid [OF "1.prems"(1) ne, of ?P] ne by (auto split: option.splits simp: filter_empty_conv)
    then obtain q where q: "toks = pn_edge k @ q" "(rid, q) \<in> set (pents k)" by (auto simp: pent_edge_def)
    then have co: "match_edge_len (pn_edge k) toks = length (pn_edge k)" by (simp add: match_edge_full)
    have "pn_ok k" using kid_lookup [OF "1.prems"(1)] k by (simp add: kid_ok_def)
    then obtain n' go a' where "pn_remove rid (drop (length (pn_edge k)) toks) k a = Some (n', go, a')"
      using "1.IH" [OF ne k refl] co q by auto
    then show ?thesis using ne k co by (auto simp: pn_remove.simps Let_def split: option.splits)
  qed
qed

section \<open>Queries\<close>

declare pn_demand.simps [simp del] pdescend.simps [simp del] deepest_loop.simps [simp del]

definition sharing :: "int list \<Rightarrow> pnode \<Rightarrow> nat" where
  "sharing p n = length (filter (\<lambda>q. prefix p (snd q)) (pents n))"

lemma sharing_kid:
  assumes "pn_ok n" and "p \<noteq> []"
  shows "sharing p n = (case dget (pn_kids n) (hd p) of None \<Rightarrow> 0 | Some k \<Rightarrow>
     length (filter (\<lambda>q. prefix p (pn_edge k @ snd q)) (pents k)))"
proof -
  have "snd q \<noteq> [] \<and> hd (snd q) = hd p" if "prefix p (snd q)" for q :: "int \<times> int list"
    using that assms(2) by (auto simp: prefix_def)
  from pents_at_kid [OF assms, of "\<lambda>q. prefix p (snd q)", OF this] show ?thesis
    by (auto simp: sharing_def pent_edge_def filter_map comp_def split: option.splits)
qed

text \<open>A path against an edge: it ends inside, leaves the edge, or goes on below.\<close>

lemma sharing_step:
  assumes ok: "pn_ok n" and ne: "p \<noteq> []" and k: "dget (pn_kids n) (hd p) = Some k"
  shows "match_edge_len (pn_edge k) p = length p \<Longrightarrow> sharing p n = length (pents k)"
    and "match_edge_len (pn_edge k) p < length p \<Longrightarrow> match_edge_len (pn_edge k) p < length (pn_edge k) \<Longrightarrow> sharing p n = 0"
    and "match_edge_len (pn_edge k) p = length (pn_edge k) \<Longrightarrow> sharing p n = sharing (drop (length (pn_edge k)) p) k"
proof -
  let ?co = "match_edge_len (pn_edge k) p"
  have eq: "sharing p n = length (filter (\<lambda>q. prefix p (pn_edge k @ snd q)) (pents k))" using sharing_kid [OF ok ne] k by simp
  show "sharing p n = length (pents k)" if "?co = length p"
  proof -
    have "prefix p (pn_edge k)" using match_edge_take [of "pn_edge k" p] that by (metis order_refl take_all take_is_prefix)
    then have "prefix p (pn_edge k @ q)" for q by (meson prefix_prefix)
    then show ?thesis unfolding eq by simp
  qed
  show "sharing p n = 0" if "?co < length p" "?co < length (pn_edge k)"
  proof -
    have "pn_edge k ! ?co \<noteq> p ! ?co" using match_edge_stop that by blast
    then have "\<not> prefix p (pn_edge k @ q)" for q using that by (metis append_take_drop_id nth_append prefix_def)
    then show ?thesis unfolding eq by simp
  qed
  show "sharing p n = sharing (drop (length (pn_edge k)) p) k" if "?co = length (pn_edge k)"
  proof -
    have "pn_edge k @ drop (length (pn_edge k)) p = p" using match_edge_full that by (metis append_eq_conv_conj prefix_def)
    then have "prefix p (pn_edge k @ q) = prefix (drop (length (pn_edge k)) p) q" for q by (metis same_prefix_prefix)
    then show ?thesis unfolding eq by (simp add: sharing_def)
  qed
qed

lemma sharing_none: "pn_ok n \<Longrightarrow> p \<noteq> [] \<Longrightarrow> dget (pn_kids n) (hd p) = None \<Longrightarrow> sharing p n = 0"
  using sharing_kid by simp

lemma sharing_Nil: "sharing [] n = length (pents n)"
  by (simp add: sharing_def)

lemma pn_demand_sharing: "pn_ok n \<Longrightarrow> path \<noteq> [] \<Longrightarrow> pn_demand path n = sharing path n"
proof (induction path n rule: pn_demand.induct)
  case (1 path i e c ts ks)
  let ?n = "PNode i e c ts ks"
  show ?case
  proof (cases "dget ks (hd path)")
    case None
    then show ?thesis using "1.prems" sharing_none [OF "1.prems"] by (simp add: pn_demand.simps)
  next
    case (Some k)
    note st = sharing_step [OF "1.prems", of k]
    have kok: "pn_ok k" "pn_count k = length (pents k)" using kid_lookup [OF "1.prems"(1)] Some by (simp_all add: kid_ok_def)
    have le: "match_edge_len (pn_edge k) path \<le> length (pn_edge k)" "match_edge_len (pn_edge k) path \<le> length path"
      using match_edge_le by blast+
    show ?thesis
    proof (cases "match_edge_len (pn_edge k) path = length path \<or> match_edge_len (pn_edge k) path < length (pn_edge k)")
      case True
      then show ?thesis using "1.prems" Some st(1,2) kok le by (auto simp: pn_demand.simps Let_def)
    next
      case False
      then have co: "match_edge_len (pn_edge k) path = length (pn_edge k)" "match_edge_len (pn_edge k) path \<noteq> length path" using le by auto
      then have "pn_demand (drop (length (pn_edge k)) path) k = sharing (drop (length (pn_edge k)) path) k"
        using "1.IH" [OF "1.prems"(2) Some refl] kok le by auto
      then show ?thesis using "1.prems" Some st(3) co by (simp add: pn_demand.simps)
    qed
  qed
qed

text \<open>Where the descent for a stored sequence ends.\<close>

definition ends_at :: "pnode \<Rightarrow> nat \<Rightarrow> nat \<Rightarrow> int list \<Rightarrow> bool" where
  "ends_at n off consumed toks \<longleftrightarrow> consumed = length toks \<and> off = length (pn_edge n)"

lemma pents_here: "pn_ok n \<Longrightarrow> filter (\<lambda>q. snd q = []) (pents n) = map (\<lambda>r. (r, [])) (pn_terms n)"
proof -
  assume ok: "pn_ok n"
  have "filter (\<lambda>q. snd q = []) (pent_edge (snd x)) = []" if "x \<in> set (pn_kids n)" for x
    using kid_kids [OF that ok] by (auto simp: pent_edge_def kid_ok_def filter_empty_conv)
  then have "concat (map (\<lambda>x. filter (\<lambda>q. snd q = []) (pent_edge (snd x))) (pn_kids n)) = []" by simp
  then show ?thesis by (subst pents_def') (simp add: filter_concat comp_def filter_map del: concat_eq_Nil_conv)
qed

lemma stored_at_kid:
  assumes ok: "pn_ok n" and ne: "toks \<noteq> []" and k: "dget (pn_kids n) (hd toks) = Some k"
  shows "match_edge_len (pn_edge k) toks < length (pn_edge k) \<Longrightarrow> filter (\<lambda>q. snd q = toks) (pents n) = []"
    and "match_edge_len (pn_edge k) toks = length (pn_edge k) \<Longrightarrow>
      filter (\<lambda>q. snd q = toks) (pents n) = map (\<lambda>q. (fst q, pn_edge k @ snd q)) (filter (\<lambda>q. snd q = drop (length (pn_edge k)) toks) (pents k))"
proof -
  have eq: "filter (\<lambda>q. snd q = toks) (pents n) = map (\<lambda>q. (fst q, pn_edge k @ snd q)) (filter (\<lambda>q. pn_edge k @ snd q = toks) (pents k))"
    using pents_at_kid [OF ok ne, of "\<lambda>q. snd q = toks"] ne k by (simp add: pent_edge_def filter_map comp_def)
  show "filter (\<lambda>q. snd q = toks) (pents n) = []" if "match_edge_len (pn_edge k) toks < length (pn_edge k)"
  proof -
    have "\<not> prefix (pn_edge k) toks" using match_edge_full [of "pn_edge k" toks] that by simp
    then show ?thesis unfolding eq by (auto simp: filter_empty_conv)
  qed
  show "filter (\<lambda>q. snd q = toks) (pents n) = map (\<lambda>q. (fst q, pn_edge k @ snd q)) (filter (\<lambda>q. snd q = drop (length (pn_edge k)) toks) (pents k))"
    if "match_edge_len (pn_edge k) toks = length (pn_edge k)"
  proof -
    have "prefix (pn_edge k) toks" using match_edge_full that by blast
    then have "pn_edge k @ q = toks \<longleftrightarrow> q = drop (length (pn_edge k)) toks" for q by (auto simp: prefix_def)
    then show ?thesis unfolding eq by simp
  qed
qed

lemma pdescend_ends:
  "pn_ok n \<Longrightarrow> pdescend toks n tr c0 = (m, tr', off, cn) \<Longrightarrow>
     filter (\<lambda>q. snd q = toks) (pents n) = (if cn = c0 + length toks \<and> off = length (pn_edge m) then map (\<lambda>r. (r, toks)) (pn_terms m) else [])
     \<and> c0 \<le> cn \<and> cn \<le> c0 + length toks"
proof (induction toks n tr c0 rule: pdescend.induct)
  case (1 toks i e c ts ks tr c0)
  let ?n = "PNode i e c ts ks"
  show ?case
  proof (cases "toks = []")
    case True
    then have "m = ?n" "off = length e" "cn = c0" using "1.prems"(2) by (auto simp: pdescend.simps)
    then show ?thesis using pents_here [OF "1.prems"(1)] True by simp
  next
    case ne: False
    show ?thesis
    proof (cases "dget ks (hd toks)")
      case None
      then have "cn = c0" using "1.prems"(2) ne by (auto simp: pdescend.simps)
      moreover have "filter (\<lambda>q. snd q = toks) (pents ?n) = []"
        using pents_at_kid [OF "1.prems"(1) ne, of "\<lambda>q. snd q = toks"] ne None by simp
      ultimately show ?thesis using ne by simp
    next
      case (Some k)
      let ?co = "match_edge_len (pn_edge k) toks"
      note st = stored_at_kid [OF "1.prems"(1) ne, of k]
      have kok: "pn_ok k" using kid_lookup [OF "1.prems"(1)] Some by (simp add: kid_ok_def)
      have le: "?co \<le> length (pn_edge k)" "?co \<le> length toks" using match_edge_le by blast+
      show ?thesis
      proof (cases "?co < length (pn_edge k)")
        case True
        then have "m = k" "off = ?co" "cn = c0 + ?co" using "1.prems"(2) ne Some by (auto simp: pdescend.simps Let_def)
        then show ?thesis using st(1) Some True le by simp
      next
        case False
        then have co: "?co = length (pn_edge k)" using le by simp
        have "pdescend (drop ?co toks) k (k # tr) (c0 + ?co) = (m, tr', off, cn)"
          using "1.prems"(2) ne Some False by (auto simp: pdescend.simps Let_def)
        from "1.IH" [OF ne Some refl False kok this]
        have ih: "filter (\<lambda>q. snd q = drop ?co toks) (pents k) =
            (if cn = c0 + ?co + (length toks - ?co) \<and> off = length (pn_edge m) then map (\<lambda>r. (r, drop ?co toks)) (pn_terms m) else [])
            \<and> c0 + ?co \<le> cn \<and> cn \<le> c0 + ?co + (length toks - ?co)" by simp
        have "pn_edge k @ drop ?co toks = toks" using match_edge_take [of "pn_edge k" toks] co by (metis append_take_drop_id order_refl take_all)
        then show ?thesis using st(2) Some co ih le by (auto simp: comp_def)
      qed
    qed
  qed
qed

lemma terminators_at_exact: "pn_ok n \<Longrightarrow> terminators_at n path = length (filter (\<lambda>q. snd q = path) (pents n))"
proof -
  assume ok: "pn_ok n"
  obtain m tr off c where d: "pdescend path n [] 0 = (m, tr, off, c)" by (cases "pdescend path n [] 0")
  show ?thesis using pdescend_ends [OF ok d] by (auto simp: terminators_at_def d)
qed

section \<open>The deepest shared position\<close>

lemma match_edge_len_take: "match_edge_len e (take l t) = min l (match_edge_len e t)"
proof (induction e arbitrary: l t)
  case (Cons x e)
  then show ?case by (cases t; cases l) auto
qed simp

text \<open>\<open>R\<close> is \<open>f\<close> of the largest length with \<open>P\<close>, and \<open>R0\<close> if there is none.\<close>

definition at_deepest :: "(nat \<Rightarrow> bool) \<Rightarrow> 'r \<Rightarrow> (nat \<Rightarrow> 'r \<Rightarrow> bool) \<Rightarrow> nat \<Rightarrow> 'r \<Rightarrow> bool" where
  "at_deepest P R0 f len R \<longleftrightarrow> (R = R0 \<and> (\<forall>l. 0 < l \<and> l \<le> len \<longrightarrow> \<not> P l))
     \<or> (\<exists>l. 0 < l \<and> l \<le> len \<and> P l \<and> f l R \<and> (\<forall>l'. l < l' \<and> l' \<le> len \<longrightarrow> \<not> P l'))"

lemma at_deepest_edge:
  assumes edge: "\<And>l. 0 < l \<Longrightarrow> l \<le> e \<Longrightarrow> P l \<longleftrightarrow> b" and beyond: "\<And>l. 0 < l \<Longrightarrow> l \<le> len - e \<Longrightarrow> P (e + l) \<longleftrightarrow> Q l"
    and below: "at_deepest Q R1 g (len - e) R" and R1: "if b then f e R1 else R1 = R0"
    and g: "\<And>l R. 0 < l \<Longrightarrow> l \<le> len - e \<Longrightarrow> g l R \<Longrightarrow> f (e + l) R" and e: "0 < e" "e \<le> len"
  shows "at_deepest P R0 f len R"
proof -
  have top: "P l \<longleftrightarrow> Q (l - e)" if "e < l" "l \<le> len" for l using beyond [of "l - e"] that by simp
  from below consider (none) "R = R1" "\<forall>l. 0 < l \<and> l \<le> len - e \<longrightarrow> \<not> Q l"
    | (some) l where "0 < l" "l \<le> len - e" "Q l" "g l R" "\<forall>l'. l < l' \<and> l' \<le> len - e \<longrightarrow> \<not> Q l'"
    unfolding at_deepest_def by blast
  then show ?thesis
  proof cases
    case none
    then have above: "\<not> P l" if "e < l" "l \<le> len" for l using top that by auto
    show ?thesis
    proof (cases b)
      case True
      then show ?thesis using none(1) R1 above edge [of e] e unfolding at_deepest_def by (intro disjI2 exI [of _ e]) auto
    next
      case False
      then have "\<not> P l" if "0 < l" "l \<le> len" for l using that edge above by (cases "l \<le> e") auto
      then show ?thesis using none(1) R1 False unfolding at_deepest_def by auto
    qed
  next
    case some
    have "\<not> P l'" if a: "e + l < l'" "l' \<le> len" for l'
    proof -
      have "l < l' - e" "l' - e \<le> len - e" using a by linarith+
      then show ?thesis using top [of l'] some(5) a by auto
    qed
    moreover have "P (e + l)" "f (e + l) R" using beyond [of l] g [of l] some by auto
    ultimately show ?thesis using some(1,2) e unfolding at_deepest_def by (intro disjI2 exI [of _ "e + l"]) auto
  qed
qed

lemma sharing_take:
  assumes ok: "pn_ok n" and k: "dget (pn_kids n) (hd toks) = Some k" and l: "0 < l" and ne: "toks \<noteq> []"
  shows "l \<le> match_edge_len (pn_edge k) toks \<Longrightarrow> sharing (take l toks) n = length (pents k)"
    and "match_edge_len (pn_edge k) toks < length (pn_edge k) \<Longrightarrow> match_edge_len (pn_edge k) toks < l \<Longrightarrow> l \<le> length toks \<Longrightarrow>
      sharing (take l toks) n = 0"
    and "match_edge_len (pn_edge k) toks = length (pn_edge k) \<Longrightarrow>
      sharing (take (length (pn_edge k) + l) toks) n = sharing (take l (drop (length (pn_edge k)) toks)) k"
proof -
  have hd: "hd (take m toks) = hd toks" "take m toks \<noteq> []" if "0 < m" for m using that ne by (auto simp: hd_take)
  note st = sharing_step [OF ok hd(2) , unfolded match_edge_len_take]
  show "sharing (take l toks) n = length (pents k)" if "l \<le> match_edge_len (pn_edge k) toks"
    using st(1) [OF l, of k] that k hd(1) [OF l] match_edge_le [of "pn_edge k" toks] by simp
  show "sharing (take l toks) n = 0" if "match_edge_len (pn_edge k) toks < length (pn_edge k)" "match_edge_len (pn_edge k) toks < l" "l \<le> length toks"
    using st(2) [OF l, of k] that k hd(1) [OF l] by simp
  show "sharing (take (length (pn_edge k) + l) toks) n = sharing (take l (drop (length (pn_edge k)) toks)) k"
    if "match_edge_len (pn_edge k) toks = length (pn_edge k)"
    using st(3) [of "length (pn_edge k) + l" k] that k hd(1) l by (simp add: take_drop add.commute)
qed

lemma deepest_loop_spec:
  "pn_ok n \<Longrightarrow> 0 < thr \<Longrightarrow> at_deepest (\<lambda>l. thr \<le> sharing (take l toks) n) best (\<lambda>l R. R = c0 + l) (length toks) (deepest_loop thr toks n c0 best)"
proof (induction thr toks n c0 best rule: deepest_loop.induct)
  case (1 thr toks i e c ts ks c0 best)
  let ?n = "PNode i e c ts ks"
  show ?case
  proof (cases "toks = []")
    case True
    then show ?thesis by (auto simp: deepest_loop.simps at_deepest_def)
  next
    case ne: False
    show ?thesis
    proof (cases "dget ks (hd toks)")
      case None
      have "sharing (take l toks) ?n = 0" if "0 < l" for l
        using sharing_none [OF "1.prems"(1), of "take l toks"] that ne None by (simp add: hd_take)
      then show ?thesis using "1.prems"(2) ne None by (simp add: deepest_loop.simps at_deepest_def)
    next
      case (Some k)
      let ?co = "match_edge_len (pn_edge k) toks"
      have kok: "kid_ok (hd toks, k)" using kid_lookup [OF "1.prems"(1)] Some by simp
      then have pos: "0 < ?co" and cnt: "pn_count k = length (pents k)" and okk: "pn_ok k"
        using ne by (auto intro!: match_edge_pos simp: kid_ok_def)
      have le: "?co \<le> length (pn_edge k)" "?co \<le> length toks" using match_edge_le by blast+
      let ?best = "if thr \<le> pn_count k then c0 + ?co else best"
      note sh = sharing_take [OF "1.prems"(1), of toks k, OF _ _ ne]
      show ?thesis
      proof (cases "?co < length (pn_edge k)")
        case True
        have "at_deepest (\<lambda>l. thr \<le> sharing (take l toks) ?n) best (\<lambda>l R. R = c0 + l) (length toks) ?best"
        proof (rule at_deepest_edge [where b = "thr \<le> pn_count k" and e = ?co and Q = "\<lambda>_. False" and g = "\<lambda>_ _. False"])
          show "(thr \<le> sharing (take l toks) ?n) = (thr \<le> pn_count k)" if "0 < l" "l \<le> ?co" for l
            using sh(1) that Some cnt by simp
          show "(thr \<le> sharing (take (?co + l) toks) ?n) = False" if "0 < l" "l \<le> length toks - ?co" for l
            using sh(2) [of "?co + l"] that Some True "1.prems"(2) by simp
        qed (use pos le in \<open>auto simp: at_deepest_def\<close>)
        then show ?thesis using ne Some True by (simp add: deepest_loop.simps Let_def)
      next
        case False
        then have co: "?co = length (pn_edge k)" using le by simp
        from "1.IH" [OF ne Some refl refl False okk "1.prems"(2)]
        have ih: "at_deepest (\<lambda>l. thr \<le> sharing (take l (drop ?co toks)) k) ?best (\<lambda>l R. R = c0 + ?co + l) (length toks - ?co)
            (deepest_loop thr (drop ?co toks) k (c0 + ?co) ?best)" by simp
        have "at_deepest (\<lambda>l. thr \<le> sharing (take l toks) ?n) best (\<lambda>l R. R = c0 + l) (length toks)
            (deepest_loop thr (drop ?co toks) k (c0 + ?co) ?best)"
        proof (rule at_deepest_edge [where b = "thr \<le> pn_count k" and e = ?co, OF _ _ ih])
          show "(thr \<le> sharing (take l toks) ?n) = (thr \<le> pn_count k)" if "0 < l" "l \<le> ?co" for l
            using sh(1) that Some cnt by simp
          show "(thr \<le> sharing (take (?co + l) toks) ?n) = (thr \<le> sharing (take l (drop ?co toks)) k)" if "0 < l" "l \<le> length toks - ?co" for l
            using sh(3) that Some co by simp
        qed (use pos le in auto)
        then show ?thesis using ne Some False by (simp add: deepest_loop.simps Let_def)
      qed
    qed
  qed
qed

text \<open>The longest shared prefix of a sequence with the pending requests, computed and specified.\<close>

definition longest_shared :: "nat \<Rightarrow> int list \<Rightarrow> pnode \<Rightarrow> nat" where
  "longest_shared thr toks n = Max {l. l \<le> length toks \<and> (l = 0 \<or> thr \<le> sharing (take l toks) n)}"

lemma deepest_with_count_exact:
  assumes "pn_ok n" and "0 < thr"
  shows "deepest_with_count n toks thr = longest_shared thr toks n"
proof -
  let ?S = "{l. l \<le> length toks \<and> (l = 0 \<or> thr \<le> sharing (take l toks) n)}"
  let ?d = "deepest_with_count n toks thr"
  have sp: "at_deepest (\<lambda>l. thr \<le> sharing (take l toks) n) 0 (\<lambda>l R. R = 0 + l) (length toks) ?d"
    unfolding deepest_with_count_def by (rule deepest_loop_spec [OF assms])
  have "?d \<in> ?S" "\<forall>l \<in> ?S. l \<le> ?d"
    using sp unfolding at_deepest_def by  (auto simp: not_less [symmetric] dest: leD)
  moreover have "finite ?S" by (rule finite_subset [of _ "{..length toks}"]) auto
  ultimately show ?thesis unfolding longest_shared_def by (metis (no_types, lifting) Max_eqI)
qed

section \<open>Clusters\<close>

function npos :: "pnode \<Rightarrow> (nat \<times> int list) list" where
  "npos (PNode i e c ts ks) = (i, []) # concat (map (\<lambda>x. map (\<lambda>q. (fst q, pn_edge (snd x) @ snd q)) (npos (snd x))) ks)"
  by pat_completeness auto
termination by (relation "measure psize") (auto dest: psize_kid_less)

lemma npos_ids: "map fst (npos n) = pids n"
proof (induction n rule: npos.induct)
  case (1 i e c ts ks)
  have "map (\<lambda>x. map fst (npos (snd x))) ks = map (\<lambda>x. pids (snd x)) ks" using "1.IH" by (intro map_cong refl)
  then show ?case by (simp add: map_concat comp_def cong: map_cong)
qed

declare npos.simps [simp del] pids.simps [simp del]

lemma npos_here: "(pn_id n, []) \<in> set (npos n)"
  by (cases n) (simp add: npos.simps)

lemma npos_kid: "dget (pn_kids n) t = Some k \<Longrightarrow> (i, p) \<in> set (npos k) \<Longrightarrow> (i, pn_edge k @ p) \<in> set (npos n)"
  by (cases n) (force simp: npos.simps dest!: map_of_SomeD)

text \<open>What the climb from the end of a stored sequence finds.\<close>

lemma cluster_climb_spec:
  "pn_ok n \<Longrightarrow> (rid, toks) \<in> set (pents n) \<Longrightarrow> pdescend toks n tr c0 = (m, tr', off, cn) \<Longrightarrow>
     at_deepest (\<lambda>l. 2 \<le> sharing (take l toks) n) (cluster_climb tr D)
       (\<lambda>l R. \<exists>i. R = Some (i, D + l, sharing (take l toks) n) \<and> (i, take l toks) \<in> set (npos n)) (length toks)
       (cluster_climb tr' (D + length toks))"
proof (induction toks n tr c0 arbitrary: D rule: pdescend.induct)
  case (1 toks i e c ts ks tr c0)
  let ?n = "PNode i e c ts ks"
  show ?case
  proof (cases "toks = []")
    case True
    then have "tr' = tr" using "1.prems"(3) by (auto simp: pdescend.simps)
    then show ?thesis using True by (auto simp: at_deepest_def)
  next
    case ne: False
    let ?P = "\<lambda>q. q = (rid, toks)"
    have "filter ?P (pents ?n) \<noteq> []" using "1.prems"(2) by (auto simp: filter_empty_conv)
    then obtain k where Some: "dget ks (hd toks) = Some k" and mem: "(rid, toks) \<in> set (pent_edge k)"
      using pents_at_kid [OF "1.prems"(1) ne, of ?P] ne by (auto split: option.splits simp: filter_empty_conv)
    let ?co = "match_edge_len (pn_edge k) toks"
    obtain q where q: "toks = pn_edge k @ q" "(rid, q) \<in> set (pents k)" using mem by (auto simp: pent_edge_def)
    then have co: "?co = length (pn_edge k)" by (simp add: match_edge_full)
    have kok: "kid_ok (hd toks, k)" using kid_lookup [OF "1.prems"(1)] Some by simp
    then have pos: "0 < ?co" and cnt: "pn_count k = length (pents k)" and okk: "pn_ok k"
      using ne by (auto intro!: match_edge_pos simp: kid_ok_def)
    have le: "?co \<le> length toks" using match_edge_le by blast
    have full: "\<not> ?co < length (pn_edge k)" using co by simp
    have d: "pdescend (drop ?co toks) k (k # tr) (c0 + ?co) = (m, tr', off, cn)"
      using "1.prems"(3) ne Some full by (auto simp: pdescend.simps Let_def)
    have st: "(rid, drop ?co toks) \<in> set (pents k)" using q co by simp
    note sh = sharing_take [OF "1.prems"(1), of toks k, OF _ _ ne]
    show ?thesis
    proof (rule at_deepest_edge [where b = "2 \<le> pn_count k" and e = ?co])
      show "at_deepest (\<lambda>l. 2 \<le> sharing (take l (drop ?co toks)) k) (cluster_climb (k # tr) (D + ?co))
         (\<lambda>l R. \<exists>i. R = option.Some (i, (D + ?co) + l, sharing (take l (drop ?co toks)) k) \<and> (i, take l (drop ?co toks)) \<in> set (npos k)) (length toks - ?co)
         (cluster_climb tr' (D + length toks))"
        using "1.IH" [OF ne Some refl full okk st d, of "D + ?co"] le by simp
      show "(2 \<le> sharing (take l toks) ?n) = (2 \<le> pn_count k)" if "0 < l" "l \<le> ?co" for l
        using sh(1) that Some cnt by simp
      show "(2 \<le> sharing (take (?co + l) toks) ?n) = (2 \<le> sharing (take l (drop ?co toks)) k)" if "0 < l" "l \<le> length toks - ?co" for l
        using sh(3) that Some co by simp
      have "(pn_id k, take ?co toks) \<in> set (npos ?n)" using npos_kid [of ?n "hd toks" k "pn_id k" "[]"] npos_here Some q(1) co by simp
      then show "if 2 \<le> pn_count k then \<exists>i. cluster_climb (k # tr) (D + ?co) = option.Some (i, D + ?co, sharing (take ?co toks) ?n)
            \<and> (i, take ?co toks) \<in> set (npos ?n) else cluster_climb (k # tr) (D + ?co) = cluster_climb tr D"
        using sh(1) [of ?co] pos Some cnt co by simp
      show "\<exists>i. R = option.Some (i, D + (?co + l), sharing (take (?co + l) toks) ?n) \<and> (i, take (?co + l) toks) \<in> set (npos ?n)"
        if "0 < l" "l \<le> length toks - ?co"
          "\<exists>i. R = option.Some (i, (D + ?co) + l, sharing (take l (drop ?co toks)) k) \<and> (i, take l (drop ?co toks)) \<in> set (npos k)" for l R
        using that sh(3) [of l] Some co npos_kid [of ?n "hd toks" k] q(1) by (auto simp: add.assoc)
    qed (use pos le in auto)
  qed
qed

end
