(* ===== verification/Pending_Spec.thy ===== *)
theory Pending_Spec
  imports Pending_Props
begin

text \<open>
  The properties of the pending tree, stated over the dictionary of the pending requests: insertion,
  removal and their errors, the demand queries, the cluster of a request, its score, and the dual walk
  against an external cache, whose contract is the locale \<open>prefix_cache\<close>.
\<close>

section \<open>The tree and its dictionary\<close>

definition pt_ok :: "pending_tree \<Rightarrow> bool" where
  "pt_ok T \<longleftrightarrow> pn_ok (pt_root T) \<and> pn_edge (pt_root T) = [] \<and> pn_count (pt_root T) = 0 \<and> wf_dict (pt_paths T)
     \<and> mset (pents (pt_root T)) = mset (pt_paths T)
     \<and> mset (pids (pt_root T)) + mset (fst (pt_slots T)) = mset [0..<snd (pt_slots T)]"

lemma pt_ok_new [simp]: "pt_ok pt_new"
  by (simp add: pt_ok_def pt_new_def pn_ok_iff pents_PNode pids.simps)

lemma slots_keptD:
  "slots_kept n a n' a' \<Longrightarrow> mset (pids n) + mset (fst a) = mset [0..<snd a] \<Longrightarrow> mset (pids n') + mset (fst a') = mset [0..<snd a']"
  unfolding slots_kept_def by (metis add.commute add_left_cancel)

lemma stored_iff: "pt_ok T \<Longrightarrow> (r, toks) \<in> set (pents (pt_root T)) \<longleftrightarrow> dget (pt_paths T) r = Some toks"
proof -
  assume ok: "pt_ok T"
  then have "set (pents (pt_root T)) = set (pt_paths T)" unfolding pt_ok_def by (metis set_mset_mset)
  then show ?thesis using ok by (simp add: pt_ok_def dget_Some_iff_mem)
qed

lemma pt_insert_ok:
  assumes ok: "pt_ok T" and new: "dget (pt_paths T) rid = None"
  shows "\<exists>T'. pt_insert rid toks T = Inr T' \<and> pt_ok T' \<and> pt_paths T' = dset rid toks (pt_paths T)"
proof -
  obtain n a where r: "pn_insert rid toks (pt_root T) (pt_slots T) = (n, a)" by (cases "pn_insert rid toks (pt_root T) (pt_slots T)")
  have "(rid, toks) \<notin> set (pents (pt_root T))" using stored_iff [OF ok] new by simp
  then have ins: "inserted rid toks (pt_root T) (pt_slots T) n a"
    using pn_insert_inserted [OF _ _ r] ok by (simp add: pt_ok_def)
  have "dset rid toks (pt_paths T) = pt_paths T @ [(rid, toks)]" using new by (simp add: dget_None_iff dset_append)
  then have "pt_ok \<lparr>pt_root = n, pt_slots = a, pt_paths = dset rid toks (pt_paths T)\<rparr>"
    using ok ins slots_keptD [of "pt_root T" "pt_slots T" n a] wf_dset [of "pt_paths T" rid toks] by (simp add: pt_ok_def inserted_def)
  then show ?thesis using new r by (simp add: pt_insert_def)
qed

lemma pt_discard_ok:
  assumes ok: "pt_ok T"
  shows "pt_ok (fst (pt_discard rid T)) \<and> snd (pt_discard rid T) = (dget (pt_paths T) rid \<noteq> None)
    \<and> pt_paths (fst (pt_discard rid T)) = ddel rid (pt_paths T)"
proof (cases "dget (pt_paths T) rid")
  case None
  then have "ddel rid (pt_paths T) = pt_paths T" by (simp add: dget_None_iff delete_id)
  then show ?thesis using ok None by (simp add: pt_discard_def)
next
  case (Some toks)
  then have "(rid, toks) \<in> set (pents (pt_root T))" using stored_iff [OF ok] by simp
  then obtain n go a where r: "pn_remove rid toks (pt_root T) (pt_slots T) = Some (n, go, a)"
    using pn_remove_present ok unfolding pt_ok_def by blast
  have rm: "removed rid toks (pt_root T) (pt_slots T) n go a" using pn_remove_removed [OF _ r] ok by (simp add: pt_ok_def)
  have wd: "wf_dict (pt_paths T)" using ok by (simp add: pt_ok_def)
  obtain d1 d2 where d: "pt_paths T = d1 @ (rid, toks) # d2" "ddel rid (pt_paths T) = d1 @ d2" using dset_split [OF wd Some] by metis
  have "mset (pents n) = mset (ddel rid (pt_paths T))" using rm ok d by (simp add: removed_def pt_ok_def)
  then have "pt_ok (T\<lparr>pt_paths := ddel rid (pt_paths T), pt_root := n, pt_slots := a\<rparr>)"
    using ok rm wf_ddel [OF wd] slots_keptD [of "pt_root T" "pt_slots T" n a] by (simp add: pt_ok_def removed_def)
  then show ?thesis using Some r by (simp add: pt_discard_def)
qed

text \<open>Radix compression bounds the number of nodes by the number of requests.\<close>

lemma kid_nodes: "kid_ok x \<Longrightarrow> Suc (length (pids (snd x))) \<le> 2 * length (pents (snd x))"
proof (induction "psize (snd x)" arbitrary: x rule: less_induct)
  case less
  obtain i e c ts ks where n: "snd x = PNode i e c ts ks" by (cases "snd x")
  have ks: "kid_ok y" if "y \<in> set ks" for y using kid_kids [of y "snd x"] less.prems that n by (simp add: kid_ok_def)
  have IH: "Suc (length (pids (snd y))) \<le> 2 * length (pents (snd y))" if "y \<in> set ks" for y
    by (rule less.hyps) (use ks that psize_kid_less [OF that] n in auto)
  have "length (concat (map (\<lambda>y. pids (snd y)) ys)) + length ys \<le> 2 * length (concat (map (\<lambda>y. pent_edge (snd y)) ys))"
    if "set ys \<subseteq> set ks" for ys
    using that
  proof (induction ys)
    case (Cons y ys)
    then show ?case using IH [of y] by simp
  qed simp
  from this [of ks] have "length (concat (map (\<lambda>y. pids (snd y)) ks)) + length ks \<le> 2 * length (concat (map (\<lambda>y. pent_edge (snd y)) ks))" by simp
  moreover have "ts \<noteq> [] \<or> 2 \<le> length ks" using less.prems n by (simp add: kid_ok_def)
  moreover have "ts \<noteq> [] \<Longrightarrow> 1 \<le> length ts" by (cases ts) auto
  ultimately show ?case by (auto simp: n pids.simps pents_PNode)
qed

lemma node_total_bound: "pt_ok T \<Longrightarrow> node_total T = length (pids (pt_root T)) \<and> node_total T \<le> 2 * length (pt_paths T) + 1"
proof -
  assume ok: "pt_ok T"
  obtain i e c ts ks where n: "pt_root T = PNode i e c ts ks" by (cases "pt_root T")
  have "length (pids (pt_root T)) + length (fst (pt_slots T)) = snd (pt_slots T)"
    using ok unfolding pt_ok_def by (metis size_mset size_union length_upt minus_nat.diff_0)
  then have e: "node_total T = length (pids (pt_root T))" by (simp add: node_total_def)
  have "\<forall>x \<in> set ks. kid_ok x" using ok n by (simp add: pt_ok_def pn_ok_iff)
  then have "length (concat (map (\<lambda>y. pids (snd y)) ks)) \<le> 2 * length (concat (map (\<lambda>y. pent_edge (snd y)) ks))"
  proof (induction ks)
    case (Cons y ks)
    then show ?case using kid_nodes [of y] by simp
  qed simp
  moreover have "length (pents (pt_root T)) = length (pt_paths T)" using ok unfolding pt_ok_def by (metis size_mset)
  ultimately show ?thesis using e by (simp add: n pids.simps pents_PNode)
qed

text \<open>
  C24: The pending tree implements the dictionary of the pending requests. Inserting a new request
  succeeds, a known one raises \<open>ValueError\<close> without change; discarding returns whether the request
  was there and removes exactly it. The tree stays well formed (counts exact, edges compressed, slots
  neither lost nor used twice), with at most two nodes per request and the root.
\<close>

theorem pending_tree_refines:
  assumes "pt_ok T"
  shows "(if dget (pt_paths T) rid = None
      then \<exists>T'. pt_insert rid toks T = Inr T' \<and> pt_ok T' \<and> pt_paths T' = dset rid toks (pt_paths T)
      else pt_insert rid toks T = Inl ValueError)
    \<and> (\<exists>T' b. pt_discard rid T = (T', b) \<and> b = (dget (pt_paths T) rid \<noteq> None) \<and> pt_ok T' \<and> pt_paths T' = ddel rid (pt_paths T)
         \<and> pt_remove rid T = (if b then Inr T' else Inl KeyError))
    \<and> node_total T \<le> 2 * length (pt_paths T) + 1"
proof -
  obtain T' b where d: "pt_discard rid T = (T', b)" by (cases "pt_discard rid T")
  show ?thesis using pt_insert_ok [OF assms, of rid toks] pt_discard_ok [OF assms, of rid] node_total_bound [OF assms] d
    by (auto simp: pt_insert_def pt_remove_def)
qed

definition sample_pending :: pending_tree where
  "sample_pending = pt_insert_all [(1, [5, 6, 7]), (2, [5, 6, 8, 9]), (3, [5, 6]), (4, [1])] pt_new"

lemma pt_insert_all_ok: "pt_ok T \<Longrightarrow> pt_ok (pt_insert_all items T)"
proof (induction items arbitrary: T)
  case (Cons x items)
  obtain rid toks where x: "x = (rid, toks)" by (cases x)
  have "pt_ok (case pt_insert rid toks T of Inl _ \<Rightarrow> T | Inr T' \<Rightarrow> T')"
    using pt_insert_ok [OF Cons.prems, of rid toks] Cons.prems
    by (cases "dget (pt_paths T) rid") (auto simp: pt_insert_def)
  then show ?case using Cons.IH by (simp add: x)
qed simp

lemma sample_pending_ok: "pt_ok sample_pending"
  unfolding sample_pending_def by (rule pt_insert_all_ok) simp

theorem pending_tree_refines_witness:
  "\<exists>T'. pt_remove 2 sample_pending = Inr T' \<and> pt_ok T' \<and> pt_paths T' = [(1, [5, 6, 7]), (3, [5, 6]), (4, [1])]"
proof -
  have p: "pt_paths sample_pending = [(1, [5, 6, 7]), (2, [5, 6, 8, 9]), (3, [5, 6]), (4, [1])]" by code_simp
  have "dget (pt_paths sample_pending) 2 \<noteq> None" "ddel 2 (pt_paths sample_pending) = [(1, [5, 6, 7]), (3, [5, 6]), (4, [1])]"
    by (simp_all add: p)
  then show ?thesis using pending_tree_refines [OF sample_pending_ok, of 2 "[]"] by auto
qed

section \<open>Demand and sharing\<close>

text \<open>The specification: how many pending requests begin with a path.\<close>

definition starting_with :: "(int, int list) pydict \<Rightarrow> int list \<Rightarrow> nat" where
  "starting_with paths p = length (filter (\<lambda>q. prefix p (snd q)) paths)"

lemma mset_filter_length: "mset xs = mset ys \<Longrightarrow> length (filter P xs) = length (filter P ys)"
  by (metis mset_filter size_mset)

lemma sharing_root: "pt_ok T \<Longrightarrow> sharing p (pt_root T) = starting_with (pt_paths T) p"
  unfolding sharing_def starting_with_def pt_ok_def by (blast intro: mset_filter_length)

lemma pending_demand_eq: "pt_ok T \<Longrightarrow> pending_demand T p = (if p = [] then 0 else int (starting_with (pt_paths T) p))"
  using pn_demand_sharing [of "pt_root T" p] sharing_root [of T p]
  by (cases "pt_root T") (auto simp: pending_demand_def pt_ok_def pn_demand.simps)

lemma starting_with_append: "starting_with ps (p @ q) \<le> starting_with ps p"
  unfolding starting_with_def
  by (induction ps) (auto dest: append_prefixD)

lemma kids_sharing: "pt_ok T \<Longrightarrow> (t, k) \<in> set (pn_kids (pt_root T)) \<Longrightarrow> pn_count k = sharing [t] (pt_root T)"
proof -
  assume ok: "pt_ok T" and m: "(t, k) \<in> set (pn_kids (pt_root T))"
  have root: "pn_ok (pt_root T)" using ok by (simp add: pt_ok_def)
  then have k: "dget (pn_kids (pt_root T)) t = Some k" using m by (simp add: dget_Some_iff_mem pn_ok_iff)
  have kok: "kid_ok (t, k)" using kid_lookup [OF root k] .
  then obtain e where "pn_edge k = t # e" by (cases "pn_edge k") (auto simp: kid_ok_def)
  then have "match_edge_len (pn_edge k) [t] = length [t]" by simp
  then show ?thesis using sharing_step(1) [OF root, of "[t]" k] k kok by (simp add: kid_ok_def)
qed

lemma shared_singleton_total: "pt_ok T \<Longrightarrow> shared_rid_count (pt_root T) + singleton_rid_count (pt_root T) = length (pt_paths T)"
proof -
  assume ok: "pt_ok T"
  have sums: "sum_list (map (\<lambda>x. if 2 \<le> pn_count (snd x) then pn_count (snd x) else 0) ks)
      + sum_list (map (\<lambda>x. if pn_count (snd x) < 2 then pn_count (snd x) else 0) ks)
      = length (concat (map (\<lambda>x. pent_edge (snd x)) ks))" if "\<forall>x \<in> set ks. kid_ok x" for ks
    using that
  proof (induction ks)
    case (Cons x ks)
    then show ?case by (simp add: kid_ok_def)
  qed simp
  have "\<forall>x \<in> set (pn_kids (pt_root T)). kid_ok x" using ok by (simp add: pt_ok_def pn_ok_iff)
  note sums [OF this]
  moreover have "length (pents (pt_root T)) = length (pt_paths T)" using ok unfolding pt_ok_def by (metis size_mset)
  moreover have "length (pents (pt_root T)) = length (pn_terms (pt_root T)) + length (concat (map (\<lambda>x. pent_edge (snd x)) (pn_kids (pt_root T))))"
    by (subst pents_def') simp
  ultimately show ?thesis by (simp add: shared_rid_count_def singleton_rid_count_def)
qed

text \<open>
  C25: The queries mean what they say. The demand of a non-empty path is the number of pending requests
  that begin with it, \<open>terminators_at\<close> counts those that are exactly the path, the two prefix lengths
  are the longest prefix shared with one or with another pending request, and every request is either
  shared or single.
\<close>

theorem pending_queries_exact:
  assumes "pt_ok T" and "path \<noteq> []"
  shows "pending_demand T path = int (starting_with (pt_paths T) path)
    \<and> terminators_at (pt_root T) path = length (filter (\<lambda>q. snd q = path) (pt_paths T))
    \<and> pt_match_prefix T path = longest_shared 1 path (pt_root T)
    \<and> longest_shared_prefix T rid = (case dget (pt_paths T) rid of None \<Rightarrow> 0 | Some toks \<Rightarrow> longest_shared 2 toks (pt_root T))
    \<and> shared_rid_count (pt_root T) + singleton_rid_count (pt_root T) = length (pt_paths T)
    \<and> (\<forall>p. sharing p (pt_root T) = starting_with (pt_paths T) p)"
proof -
  have root: "pn_ok (pt_root T)" and m: "mset (pents (pt_root T)) = mset (pt_paths T)" using assms(1) by (simp_all add: pt_ok_def)
  show ?thesis using assms pending_demand_eq sharing_root shared_singleton_total
      terminators_at_exact [OF root] deepest_with_count_exact [OF root] mset_filter_length [OF m]
    by (simp add: pt_match_prefix_def longest_shared_prefix_def split: option.split)
qed

theorem pending_queries_exact_witness: "pending_demand sample_pending [5, 6] = 3 \<and> terminators_at (pt_root sample_pending) [5, 6] = 1"
proof -
  have "pt_paths sample_pending = [(1, [5, 6, 7]), (2, [5, 6, 8, 9]), (3, [5, 6]), (4, [1])]" by code_simp
  then show ?thesis using pending_queries_exact [OF sample_pending_ok, of "[5, 6]"] by (simp add: starting_with_def)
qed

text \<open>The demand of the empty path is 0 whatever is pending.\<close>

lemma demand_of_empty_path: "pt_ok T \<Longrightarrow> pending_demand T [] = 0"
  by (simp add: pending_demand_eq)

section \<open>Clusters\<close>

lemma at_deepest_Max:
  assumes "at_deepest P R0 f len R" and "d = Max {l. l \<le> len \<and> (l = 0 \<or> P l)}"
  shows "if d = 0 then R = R0 else f d R \<and> P d \<and> d \<le> len"
proof -
  have fin: "finite {l. l \<le> len \<and> (l = 0 \<or> P l)}" by (rule finite_subset [of _ "{..len}"]) auto
  from assms(1) consider (none) "R = R0" "\<forall>l. 0 < l \<and> l \<le> len \<longrightarrow> \<not> P l"
    | (some) l where "0 < l" "l \<le> len" "P l" "f l R" "\<forall>l'. l < l' \<and> l' \<le> len \<longrightarrow> \<not> P l'"
    unfolding at_deepest_def by blast
  then show ?thesis
  proof cases
    case none
    then have "{l. l \<le> len \<and> (l = 0 \<or> P l)} = {0}" by auto
    then show ?thesis using none assms(2) by simp
  next
    case some
    have "l' \<le> l" if "l' \<le> len" "l' = 0 \<or> P l'" for l' using some(5) that by (meson le_less_linear zero_le)
    then have "d = l" unfolding assms(2) using some fin by (intro Max_eqI) auto
    then show ?thesis using some by simp
  qed
qed

lemma cluster_at:
  assumes ok: "pt_ok T" and r: "dget (pt_paths T) r = Some toks" and d: "d = longest_shared 2 toks (pt_root T)"
  shows "if d = 0 then cluster_info_at (pt_root T) r toks = None
    else \<exists>i. cluster_info_at (pt_root T) r toks = Some (i, d, starting_with (pt_paths T) (take d toks)) \<and> (i, take d toks) \<in> set (npos (pt_root T))"
proof -
  have root: "pn_ok (pt_root T)" using ok by (simp add: pt_ok_def)
  have st: "(r, toks) \<in> set (pents (pt_root T))" using stored_iff [OF ok] r by simp
  obtain m tr off c where de: "pdescend toks (pt_root T) [] 0 = (m, tr, off, c)" by (cases "pdescend toks (pt_root T) [] 0")
  have "(r, toks) \<in> set (filter (\<lambda>q. snd q = toks) (pents (pt_root T)))"
    using st by simp
  then have "c = length toks \<and> off = length (pn_edge m) \<and> r \<in> set (pn_terms m)"
    using pdescend_ends [OF root de] by (auto split: if_splits)
  then have "cluster_info_at (pt_root T) r toks = cluster_climb tr (length toks)" by (simp add: cluster_info_at_def de)
  with at_deepest_Max [OF cluster_climb_spec [OF root st de, of 0] d [unfolded longest_shared_def]]
  show ?thesis by (auto simp: sharing_root [OF ok])
qed

lemma pair_image: "(i, p) \<in> (\<lambda>q. (fst q, e @ snd q)) ` S \<longleftrightarrow> (\<exists>q. p = e @ q \<and> (i, q) \<in> S)"
  by force

lemma npos_iff:
  assumes ok: "pn_ok n"
  shows "(i, p) \<in> set (npos n) \<longleftrightarrow> p = [] \<and> i = pn_id n \<or> (\<exists>k q. dget (pn_kids n) (hd p) = Some k \<and> p = pn_edge k @ q \<and> (i, q) \<in> set (npos k))"
proof -
  obtain j e c ts ks where n: "n = PNode j e c ts ks" by (cases n)
  have ks: "wf_dict ks" "\<And>x. x \<in> set ks \<Longrightarrow> kid_ok x" using ok by (auto simp: n pn_ok_iff)
  have "(i, p) \<in> set (npos n) \<longleftrightarrow> p = [] \<and> i = j \<or> (\<exists>x \<in> set ks. \<exists>q. p = pn_edge (snd x) @ q \<and> (i, q) \<in> set (npos (snd x)))"
    by (auto simp: n npos.simps pair_image)
  also have "(\<exists>x \<in> set ks. \<exists>q. p = pn_edge (snd x) @ q \<and> (i, q) \<in> set (npos (snd x))) \<longleftrightarrow>
      (\<exists>k q. dget ks (hd p) = Some k \<and> p = pn_edge k @ q \<and> (i, q) \<in> set (npos k))"
  proof
    assume "\<exists>x \<in> set ks. \<exists>q. p = pn_edge (snd x) @ q \<and> (i, q) \<in> set (npos (snd x))"
    then obtain x q where x: "x \<in> set ks" "p = pn_edge (snd x) @ q" "(i, q) \<in> set (npos (snd x))" by blast
    then have "fst x = hd p" using ks(2) [of x] by (auto simp: kid_ok_def)
    then have "dget ks (hd p) = Some (snd x)" using x(1) ks(1) by (metis dget_Some_iff_mem prod.collapse)
    then show "\<exists>k q. dget ks (hd p) = Some k \<and> p = pn_edge k @ q \<and> (i, q) \<in> set (npos k)" using x by blast
  next
    assume "\<exists>k q. dget ks (hd p) = Some k \<and> p = pn_edge k @ q \<and> (i, q) \<in> set (npos k)"
    then obtain k q where k: "dget ks (hd p) = Some k" "p = pn_edge k @ q \<and> (i, q) \<in> set (npos k)" by blast
    from map_of_SomeD [OF k(1)] k(2) show "\<exists>x \<in> set ks. \<exists>q. p = pn_edge (snd x) @ q \<and> (i, q) \<in> set (npos (snd x))"
      by (intro bexI [of _ "(hd p, k)"] exI [of _ q]) simp_all
  qed
  finally show ?thesis by (simp add: n)
qed

lemma npos_functional: "pn_ok n \<Longrightarrow> (i, p) \<in> set (npos n) \<Longrightarrow> (j, p) \<in> set (npos n) \<Longrightarrow> i = j"
proof (induction n arbitrary: p rule: measure_induct_rule [of psize])
  case (less n)
  show ?case
  proof (cases "p = []")
    case True
    have "pn_edge k \<noteq> []" if "dget (pn_kids n) (hd p) = Some k" for k using kid_lookup [OF less.prems(1) that] by (simp add: kid_ok_def)
    then show ?thesis using True less.prems(2,3) unfolding npos_iff [OF less.prems(1)] by auto
  next
    case False
    obtain k q where k: "dget (pn_kids n) (hd p) = Some k" "p = pn_edge k @ q" "(i, q) \<in> set (npos k)"
      using less.prems(2) False unfolding npos_iff [OF less.prems(1)] by blast
    obtain k' q' where "dget (pn_kids n) (hd p) = Some k'" "p = pn_edge k' @ q'" "(j, q') \<in> set (npos k')"
      using less.prems(3) False unfolding npos_iff [OF less.prems(1)] by blast
    then have "(j, q) \<in> set (npos k)" using k by simp
    have "psize k < psize n" using k(1) by (cases n) (auto simp: psize_PNode dest: psize_dget)
    then show ?thesis using less.IH [OF _ _ k(3)] \<open>(j, q) \<in> set (npos k)\<close> kid_lookup [OF less.prems(1) k(1)] by (simp add: kid_ok_def)
  qed
qed

lemma npos_injective:
  assumes "pt_ok T" and "(i, p) \<in> set (npos (pt_root T))" and "(i, q) \<in> set (npos (pt_root T))"
  shows "p = q"
proof -
  have "mset (pids (pt_root T) @ fst (pt_slots T)) = mset [0..<snd (pt_slots T)]" using assms(1) by (simp add: pt_ok_def)
  then have "distinct (pids (pt_root T) @ fst (pt_slots T))" by (metis distinct_upt mset_eq_imp_distinct_iff)
  then have "distinct (pids (pt_root T))" by simp
  then have "distinct (map fst (npos (pt_root T)))" by (simp add: npos_ids)
  then show ?thesis using assms(2,3) by (metis eq_key_imp_eq_value)
qed

lemma dget_map_key: "dget (map (\<lambda>(k, v). (k, g k v)) d) k = map_option (g k) (dget d k)"
  by (induction d) auto

lemma dget_all_info:
  "dget (all_cluster_info T) r = map_option (\<lambda>toks. map_option (\<lambda>(n, d, s). (int n, int d, int s)) (cluster_info_at (pt_root T) r toks)) (dget (pt_paths T) r)"
  unfolding all_cluster_info_def by (rule dget_map_key)

text \<open>
  C26: The cluster of a request is the longest prefix it shares with another pending request: the depth
  is its length, the size the number of requests that begin with it, none if no token is shared; and
  two requests get the same cluster id exactly when they share that very prefix.
\<close>

theorem cluster_info_exact:
  assumes ok: "pt_ok T" and r: "dget (pt_paths T) r = Some toks"
  shows "if longest_shared 2 toks (pt_root T) = 0 then dget (all_cluster_info T) r = Some None
    else \<exists>i. dget (all_cluster_info T) r = Some (Some (i, int (longest_shared 2 toks (pt_root T)),
          int (starting_with (pt_paths T) (take (longest_shared 2 toks (pt_root T)) toks))))
      \<and> (\<forall>r' toks' i' d' s'. dget (pt_paths T) r' = Some toks' \<and> dget (all_cluster_info T) r' = Some (Some (i', d', s')) \<longrightarrow>
           (i' = i \<longleftrightarrow> take (nat d') toks' = take (longest_shared 2 toks (pt_root T)) toks))"
proof -
  let ?d = "longest_shared 2 toks (pt_root T)"
  note at = cluster_at [OF ok _ refl]
  have root: "pn_ok (pt_root T)" using ok by (simp add: pt_ok_def)
  show ?thesis
  proof (cases "?d = 0")
    case True
    then show ?thesis using at [OF r] r by (simp add: dget_all_info)
  next
    case False
    then obtain i where i: "cluster_info_at (pt_root T) r toks = Some (i, ?d, starting_with (pt_paths T) (take ?d toks))"
      "(i, take ?d toks) \<in> set (npos (pt_root T))" using at [OF r] by auto
    have main: "dget (all_cluster_info T) r = Some (Some (int i, int ?d, int (starting_with (pt_paths T) (take ?d toks))))"
      using i r by (simp add: dget_all_info)
    have same: "i' = int i \<longleftrightarrow> take (nat d') toks' = take ?d toks"
      if r': "dget (pt_paths T) r' = Some toks'" "dget (all_cluster_info T) r' = Some (Some (i', d', s'))" for r' toks' i' d' s'
    proof -
      let ?d' = "longest_shared 2 toks' (pt_root T)"
      have "?d' \<noteq> 0"
      proof
        assume "?d' = 0"
        then have "cluster_info_at (pt_root T) r' toks' = None" using at [OF r'(1)] by simp
        then show False using r' by (simp add: dget_all_info)
      qed
      then obtain j where "cluster_info_at (pt_root T) r' toks' = Some (j, ?d', starting_with (pt_paths T) (take ?d' toks'))"
        "(j, take ?d' toks') \<in> set (npos (pt_root T))" using at [OF r'(1)] by auto
      moreover from this have "i' = int j" "d' = int ?d'" using r' by (auto simp: dget_all_info)
      ultimately show ?thesis using i(2) npos_injective [OF ok] npos_functional [OF root] by auto
    qed
    show ?thesis unfolding if_not_P [OF False] by (rule exI [of _ "int i"], rule conjI [OF main]) (use same in blast)
  qed
qed

theorem cluster_info_exact_witness:
  "\<exists>i. dget (all_cluster_info sample_pending) 1 = Some (Some (i, 2, 3))"
proof -
  have p: "pt_paths sample_pending = [(1, [5, 6, 7]), (2, [5, 6, 8, 9]), (3, [5, 6]), (4, [1])]" by code_simp
  have "deepest_with_count (pt_root sample_pending) [5, 6, 7] 2 = 2" by code_simp
  then have d: "longest_shared 2 [5, 6, 7] (pt_root sample_pending) = 2"
    using deepest_with_count_exact [of "pt_root sample_pending" 2] sample_pending_ok by (simp add: pt_ok_def)
  show ?thesis using cluster_info_exact [OF sample_pending_ok, of 1 "[5, 6, 7]"] by (auto simp: p d starting_with_def)
qed

section \<open>Walks that fill a dictionary\<close>

definition dset_all :: "(int \<times> int) list \<Rightarrow> (int, int) pydict \<Rightarrow> (int, int) pydict" where
  "dset_all L out = foldl (\<lambda>d (r, v). dset r v d) out L"

lemma dset_all_simps [simp]: "dset_all [] out = out" "dset_all (x # L) out = dset_all L (dset (fst x) (snd x) out)"
  "dset_all (L @ M) out = dset_all M (dset_all L out)"
  by (simp_all add: dset_all_def case_prod_beta)

lemma foldl_dset_all: "foldl (\<lambda>d r. dset r v d) out rs = dset_all (map (\<lambda>r. (r, v)) rs) out"
  by (induction rs arbitrary: out) auto

lemma dget_dset_all: "distinct (map fst L) \<Longrightarrow> dget (dset_all L out) r = (case dget L r of None \<Rightarrow> dget out r | Some v \<Rightarrow> Some v)"
proof (induction L arbitrary: out)
  case (Cons x L)
  show ?case
  proof (cases "fst x = r")
    case True
    then have "dget L r = None" using Cons.prems by (simp add: dget_None_iff)
    then show ?thesis using Cons True by (cases x) (simp add: dict_simps)
  next
    case False
    then show ?thesis using Cons by (cases x) (simp add: dict_simps split: option.split)
  qed
qed simp

text \<open>Every walk sets each request once; in which order does not matter.\<close>

lemma walk_result:
  assumes "mset L = mset M" and "distinct (map fst M)"
  shows "dget (dset_all L []) r = dget M r"
proof -
  have "mset (map fst L) = mset (map fst M)" using assms(1) by simp
  then have dl: "distinct (map fst L)" using assms(2) by (metis mset_eq_imp_distinct_iff)
  have "map_of L = map_of M" using dl assms by (simp add: map_of_inject_set set_mset_mset [symmetric] del: set_mset_mset)
  then show ?thesis by (simp add: dget_dset_all [OF dl] split: option.split)
qed

function subtree_scores :: "pnode \<Rightarrow> int \<Rightarrow> (int \<times> int) list" where
  "subtree_scores (PNode i e c ts ks) s =
     map (\<lambda>r. (r, s)) ts @ concat (map (\<lambda>x. subtree_scores (snd x) (kid_score s (snd x))) ks)"
  by pat_completeness auto
termination by (relation "measure (\<lambda>(n, _). psize n)") (auto dest: psize_kid_less)

lemma score_walk_list:
  "\<exists>L. score_walk st out = dset_all L out \<and> mset L = mset (concat (map (\<lambda>x. subtree_scores (fst x) (snd x)) st))"
proof (induction st out rule: score_walk.induct)
  case (2 n s stack out)
  let ?kids = "rev (map (\<lambda>x. (snd x, kid_score s (snd x))) (pn_kids n))"
  obtain L where L: "score_walk (?kids @ stack) (foldl (\<lambda>d r. dset r s d) out (pn_terms n))
      = dset_all L (foldl (\<lambda>d r. dset r s d) out (pn_terms n))"
    "mset L = mset (concat (map (\<lambda>x. subtree_scores (fst x) (snd x)) (?kids @ stack)))" using 2 by blast
  have "mset (concat (map (\<lambda>x. subtree_scores (fst x) (snd x)) ?kids)) =
      mset (concat (map (\<lambda>x. subtree_scores (snd x) (kid_score s (snd x))) (pn_kids n)))"
    by (rule mset_concat_perm) (simp add: rev_map [symmetric] comp_def)
  then have "mset (map (\<lambda>r. (r, s)) (pn_terms n) @ L) = mset (concat (map (\<lambda>x. subtree_scores (fst x) (snd x)) ((n, s) # stack)))"
    using L(2) by (cases n) simp
  then show ?case using L(1) by (intro exI [of _ "map (\<lambda>r. (r, s)) (pn_terms n) @ L"]) (simp add: foldl_dset_all)
qed simp

text \<open>The specification of a score: how many requests share each token of the sequence, summed up.\<close>

definition shared_tokens :: "pnode \<Rightarrow> int list \<Rightarrow> int" where
  "shared_tokens n toks = (\<Sum>l = 1..length toks. int (sharing (take l toks) n))"

lemma shared_tokens_kid:
  assumes ok: "pn_ok n" and k: "dget (pn_kids n) t = Some k"
  shows "shared_tokens n (pn_edge k @ q) = int (pn_count k) * int (length (pn_edge k)) + shared_tokens k q"
proof -
  let ?e = "length (pn_edge k)" and ?f = "\<lambda>l. int (sharing (take l (pn_edge k @ q)) n)"
  have kok: "kid_ok (t, k)" using kid_lookup [OF ok k] .
  then have ne: "pn_edge k @ q \<noteq> []" "hd (pn_edge k @ q) = t" and cnt: "pn_count k = length (pents k)" by (auto simp: kid_ok_def)
  have co: "match_edge_len (pn_edge k) (pn_edge k @ q) = ?e" by (simp add: match_edge_full)
  note sh = sharing_take [OF ok, of "pn_edge k @ q" k, OF _ _ ne(1)]
  have "?f l = int (pn_count k)" if "l \<in> {1..?e}" for l using sh(1) [of l] that k ne(2) co cnt by simp
  then have "sum ?f {1..?e} = int (pn_count k) * int ?e" by simp
  moreover have "sum ?f {?e + 1..?e + length q} = shared_tokens k q"
  proof -
    have "sum ?f {?e + 1..?e + length q} = (\<Sum>l = 1..length q. ?f (?e + l))"
      using sum.shift_bounds_cl_nat_ivl [of ?f 1 ?e "length q"] by (simp add: add.commute)
    also have "\<dots> = shared_tokens k q" unfolding shared_tokens_def
    proof (rule sum.cong)
      fix l assume "l \<in> {1..length q}"
      then show "?f (?e + l) = int (sharing (take l q) k)" using sh(3) [of l] k ne(2) co by simp
    qed simp
    finally show ?thesis .
  qed
  ultimately show ?thesis using sum.ub_add_nat [of 1 ?e ?f "length q"] by (simp add: shared_tokens_def)
qed

lemma subtree_scores_eq:
  "pn_ok n \<Longrightarrow> subtree_scores n s = map (\<lambda>q. (fst q, s + shared_tokens n (snd q))) (pents n)"
proof (induction n s rule: subtree_scores.induct)
  case (1 i e c ts ks s)
  let ?n = "PNode i e c ts ks"
  have "subtree_scores (snd x) (kid_score s (snd x)) = map (\<lambda>q. (fst q, s + shared_tokens ?n (snd q))) (pent_edge (snd x))"
    if x: "x \<in> set ks" for x
  proof -
    have wd: "wf_dict ks" and kok: "kid_ok x" using "1.prems" x by (auto simp: pn_ok_iff)
    have k: "dget (pn_kids ?n) (fst x) = Some (snd x)" using x wd by (simp add: dget_Some_iff_mem)
    have "subtree_scores (snd x) (kid_score s (snd x)) = map (\<lambda>q. (fst q, kid_score s (snd x) + shared_tokens (snd x) (snd q))) (pents (snd x))"
      using "1.IH" [OF x] kok by (simp add: kid_ok_def)
    then show ?thesis using shared_tokens_kid [OF "1.prems" k] by (simp add: pent_edge_def kid_score_def comp_def add.assoc)
  qed
  then have "map (\<lambda>x. subtree_scores (snd x) (kid_score s (snd x))) ks = map (\<lambda>x. map (\<lambda>q. (fst q, s + shared_tokens ?n (snd q))) (pent_edge (snd x))) ks"
    by simp
  then show ?case by (simp add: pents_PNode map_concat comp_def shared_tokens_def del: map_eq_conv)
qed

lemma distinct_stored: "pt_ok T \<Longrightarrow> distinct (map fst (pents (pt_root T)))"
proof -
  assume ok: "pt_ok T"
  then have "mset (map fst (pents (pt_root T))) = mset (map fst (pt_paths T))" by (simp add: pt_ok_def)
  then show ?thesis using ok unfolding pt_ok_def wf_dict_def by (metis mset_eq_imp_distinct_iff)
qed

lemma dget_stored: "pt_ok T \<Longrightarrow> dget (map (\<lambda>q. (fst q, f (snd q))) (pents (pt_root T))) r = map_option f (dget (pt_paths T) r)"
proof -
  assume ok: "pt_ok T"
  have "map_of (pents (pt_root T)) = map_of (pt_paths T)"
    using distinct_stored [OF ok] ok unfolding pt_ok_def wf_dict_def
    by (subst map_of_inject_set) (auto simp: set_mset_mset [symmetric] simp del: set_mset_mset)
  then show ?thesis using dget_map_key [of "\<lambda>_. f" "pents (pt_root T)" r] by (simp add: case_prod_unfold)
qed

text \<open>
  C27: The score of a pending request is, summed over the tokens of its sequence, the number of pending
  requests that share the sequence up to that token; every pending request gets one and nothing else does.
\<close>

theorem req_scores_exact:
  assumes "pt_ok T"
  shows "dget (compute_req_scores T) r =
    map_option (\<lambda>toks. \<Sum>l = 1..length toks. int (starting_with (pt_paths T) (take l toks))) (dget (pt_paths T) r)"
proof -
  let ?M = "map (\<lambda>q. (fst q, shared_tokens (pt_root T) (snd q))) (pents (pt_root T))"
  obtain L where L: "compute_req_scores T = dset_all L []" "mset L = mset (subtree_scores (pt_root T) 0)"
    using score_walk_list [of "[(pt_root T, 0)]" "[]"] by (auto simp: compute_req_scores_def)
  moreover have "subtree_scores (pt_root T) 0 = ?M" using subtree_scores_eq [of "pt_root T" 0] assms by (simp add: pt_ok_def)
  moreover have "distinct (map fst ?M)" using distinct_stored [OF assms] by (simp add: comp_def)
  ultimately have "dget (compute_req_scores T) r = dget ?M r" using walk_result by metis
  moreover have "shared_tokens (pt_root T) = (\<lambda>toks. \<Sum>l = 1..length toks. int (starting_with (pt_paths T) (take l toks)))"
    by (rule ext) (simp only: shared_tokens_def sharing_root [OF assms])
  ultimately show ?thesis using dget_stored [OF assms, of "shared_tokens (pt_root T)"] by simp
qed

theorem req_scores_exact_witness: "dget (compute_req_scores sample_pending) 1 = Some 7"
proof -
  have p: "pt_paths sample_pending = [(1, [5, 6, 7]), (2, [5, 6, 8, 9]), (3, [5, 6]), (4, [1])]" by code_simp
  show ?thesis using req_scores_exact [OF sample_pending_ok, of 1] by (simp add: p starting_with_def numeral_eq_Suc)
qed

section \<open>The dual walk\<close>

lemma assign_subtree_list:
  "\<exists>L. assign_subtree st h out = dset_all L out \<and> mset L = mset (map (\<lambda>q. (fst q, h)) (concat (map pents st)))"
proof (induction st h out rule: assign_subtree.induct)
  case (2 n stack h out)
  let ?kids = "rev (dvals (pn_kids n))"
  obtain L where L: "assign_subtree (?kids @ stack) h (foldl (\<lambda>d r. dset r h d) out (pn_terms n)) = dset_all L (foldl (\<lambda>d r. dset r h d) out (pn_terms n))"
    "mset L = mset (map (\<lambda>q. (fst q, h)) (concat (map pents (?kids @ stack))))" using 2 by blast
  have "mset (concat (map pents ?kids)) = mset (concat (map pents (dvals (pn_kids n))))"
    by (rule mset_concat_perm) (simp add: rev_map [symmetric])
  then have "mset (map (\<lambda>q. (fst q, h)) (concat (map pents ?kids))) = mset (map (\<lambda>q. (fst q, h)) (concat (map (\<lambda>x. pents (snd x)) (pn_kids n))))"
    by (simp add: comp_def)
  moreover have "map (\<lambda>q. (fst q, h)) (concat (map (\<lambda>x. pents (snd x)) ks)) = map (\<lambda>q. (fst q, h)) (concat (map (\<lambda>x. pent_edge (snd x)) ks))" for ks :: "(int \<times> pnode) list"
    by (induction ks) (simp_all add: pent_edge_def comp_def)
  ultimately have "mset (map (\<lambda>r. (r, h)) (pn_terms n) @ L) = mset (map (\<lambda>q. (fst q, h)) (concat (map pents (n # stack))))"
    using L(2) by (simp add: pents_def' [of n] comp_def)
  then show ?case using L(1) by (intro exI [of _ "map (\<lambda>r. (r, h)) (pn_terms n) @ L"]) (simp add: foldl_dset_all)
qed simp

text \<open>
  What the walk relies on in the external cache: the match is a length of a prefix, and a match that
  stops stops there for every continuation.
\<close>

locale prefix_cache =
  fixes cm :: "int list \<Rightarrow> int"
  assumes cm_range: "0 \<le> cm p \<and> cm p \<le> int (length p)"
    and cm_stop: "cm p < int (length p) \<Longrightarrow> cm (p @ q) = cm p"
begin

lemma cm_nil: "cm [] = 0"
  using cm_range [of "[]"] by simp

lemma cm_full: "int (length p) \<le> cm p \<Longrightarrow> cm p = int (length p)"
  using cm_range [of p] by simp

lemma dualwalk_list:
  "cm' = cm \<Longrightarrow> m = 1 \<Longrightarrow> \<forall>x \<in> set todo. \<exists>t. kid_ok (t, x) \<Longrightarrow>
     \<exists>L. dualwalk cm' m todo hit est path out = dset_all L out
       \<and> mset L = mset (map (\<lambda>q. (fst q, cm (path @ snd q))) (concat (map pent_edge todo)))"
proof (induction cm' m todo hit est path out rule: dualwalk.induct)
  case (2 cm' m child todo hit est path out)
  let ?path = "path @ pn_edge child" and ?kids = "rev (dvals (pn_kids child))"
  let ?hit = "int (length ?path)"
  obtain t where t: "kid_ok (t, child)" using "2.prems"(3) by auto
  then have "pn_count child \<noteq> 0" using kid_nonempty [OF t] by (auto simp: kid_ok_def)
  then have skip: "\<not> (est \<and> pn_count child < m)" using "2.prems"(2) by simp
  let ?terms = "foldl (\<lambda>d r. dset r ?hit d) out (pn_terms child)"
  let ?out = "if ?hit \<le> cm' ?path then dualwalk cm' m ?kids ?hit True ?path ?terms else assign_subtree [child] (cm' ?path) out"
  have "\<exists>L. ?out = dset_all L out \<and> mset L = mset (map (\<lambda>q. (fst q, cm (path @ snd q))) (pent_edge child))"
  proof (cases "?hit \<le> cm' ?path")
    case True
    have kids: "\<forall>x \<in> set ?kids. \<exists>t. kid_ok (t, x)" using kid_kids [of _ child] t by (force simp: kid_ok_def)
    obtain L where L: "dualwalk cm' m ?kids ?hit True ?path ?terms = dset_all L ?terms"
      "mset L = mset (map (\<lambda>q. (fst q, cm (?path @ snd q))) (concat (map pent_edge ?kids)))"
      using "2.IH"(1) [OF skip refl refl True "2.prems"(1,2) kids] by blast
    have "mset (concat (map pent_edge ?kids)) = mset (concat (map (\<lambda>x. pent_edge (snd x)) (pn_kids child)))"
      by (rule mset_concat_perm) (simp add: rev_map [symmetric] comp_def)
    moreover have "cm ?path = ?hit" using cm_full [of ?path] True "2.prems"(1) by simp
    ultimately have "mset (map (\<lambda>r. (r, ?hit)) (pn_terms child) @ L) = mset (map (\<lambda>q. (fst q, cm (?path @ snd q))) (pents child))"
      using L(2) by (simp add: pents_def' [of child] comp_def)
    then show ?thesis using True L(1)
      by (intro exI [of _ "map (\<lambda>r. (r, ?hit)) (pn_terms child) @ L"]) (simp add: foldl_dset_all pent_edge_def comp_def)
  next
    case False
    have "cm (?path @ q) = cm ?path" for q using cm_stop [of ?path] False "2.prems"(1) by simp
    then show ?thesis using False assign_subtree_list [of "[child]" "cm ?path" out] "2.prems"(1)
      by (simp add: pent_edge_def comp_def)
  qed
  then obtain L1 where L1: "?out = dset_all L1 out" "mset L1 = mset (map (\<lambda>q. (fst q, cm (path @ snd q))) (pent_edge child))" by blast
  have e: "(if est \<and> pn_count child < m then assign_subtree [child] hit out
      else let path' = ?path; match_len = cm' path' in
        if int (length path') \<le> match_len
        then dualwalk cm' m ?kids (int (length path')) True path' (foldl (\<lambda>d r. dset r (int (length path')) d) out (pn_terms child))
        else assign_subtree [child] match_len out) = ?out" by (simp only: if_not_P [OF skip] Let_def)
  obtain L2 where L2: "dualwalk cm' m todo hit est path ?out = dset_all L2 ?out"
    "mset L2 = mset (map (\<lambda>q. (fst q, cm (path @ snd q))) (concat (map pent_edge todo)))"
    using "2.IH"(2) "2.prems" unfolding e by auto
  have "dualwalk cm' m (child # todo) hit est path out = dset_all (L1 @ L2) out"
    unfolding dualwalk.simps(2) e L2(1) by (simp add: L1(1) [symmetric])
  then show ?case using L1(2) L2(2) by (intro exI [of _ "L1 @ L2"]) simp
qed simp

lemma main_hits_eq:
  assumes ok: "pt_ok T"
  shows "dget (compute_main_hits cm 1 T) r = map_option cm (dget (pt_paths T) r)"
proof -
  let ?root = "pt_root T"
  let ?M = "map (\<lambda>q. (fst q, cm (snd q))) (pents ?root)"
  have "\<forall>x \<in> set (rev (dvals (pn_kids ?root))). \<exists>t. kid_ok (t, x)"
    using kid_kids [of _ ?root] ok by (force simp: pt_ok_def)
  then obtain L where L: "compute_main_hits cm 1 T = dset_all L (foldl (\<lambda>d r. dset r 0 d) [] (pn_terms ?root))"
    "mset L = mset (map (\<lambda>q. (fst q, cm (snd q))) (concat (map pent_edge (rev (dvals (pn_kids ?root))))))"
    using dualwalk_list [OF refl refl, where path = "[]"] unfolding compute_main_hits_def by fastforce
  have "mset (concat (map pent_edge (rev (dvals (pn_kids ?root))))) = mset (concat (map (\<lambda>x. pent_edge (snd x)) (pn_kids ?root)))"
    by (rule mset_concat_perm) (simp add: rev_map [symmetric] comp_def)
  then have "mset (map (\<lambda>r. (r, 0)) (pn_terms ?root) @ L) = mset ?M"
    using L(2) by (simp add: pents_def' [of ?root] comp_def cm_nil)
  moreover have "distinct (map fst ?M)" using distinct_stored [OF ok] by (simp add: comp_def)
  moreover have "compute_main_hits cm 1 T = dset_all (map (\<lambda>r. (r, 0)) (pn_terms ?root) @ L) []"
    using L(1) by (simp add: foldl_dset_all)
  ultimately show ?thesis using walk_result dget_stored [OF ok, of cm] by metis
qed

end

end
