(* ===== verification/Online_Eviction.thy ===== *)
theory Online_Eviction
  imports Policy_Props Radix_Evict Pending_Spec
begin

text \<open>
  \<open>src/python/peek/online/eviction.py\<close>: the demand-aware eviction priority of the online mode. The
  walk takes the demand as a function; what it relies on is that demand is a count and can only
  shrink along a path (the code's comment: deeper paths can only have fewer requests), stated as
  the locale \<open>demand_view\<close> and discharged by \<open>pending_demand\<close> of every well-formed pending tree.
  The law is for non-empty paths only: the demand of the empty path is the root's count, which is 0.
\<close>

section \<open>Modes\<close>

datatype eviction_mode = Plain | Cluster | Recency | Decay

definition mode_alias :: "string \<Rightarrow> string" where
  "mode_alias s =
     (if s = ''demand_cluster'' then ''cluster'' else if s = ''demand_recency'' then ''recency''
      else if s = ''demand_decay'' then ''decay'' else s)"

text \<open>The environment value, lower-cased; an unknown one means plain, with a warning.\<close>

definition eviction_mode_of :: "string option \<Rightarrow> eviction_mode \<times> bool" where
  "eviction_mode_of env =
     (let m = mode_alias (lower (case env of None \<Rightarrow> ''plain'' | Some v \<Rightarrow> v)) in
      if m = ''plain'' then (Plain, False) else if m = ''cluster'' then (Cluster, False)
      else if m = ''recency'' then (Recency, False) else if m = ''decay'' then (Decay, False)
      else (Plain, True))"

section \<open>Tokens at risk along the ancestors\<close>

text \<open>The edges from below the root down to the node; a node that is its own parent also ends the walk.\<close>

partial_function (option) path_segments :: "radix_cache \<Rightarrow> nat \<Rightarrow> int list list \<Rightarrow> int list list option" where
  "path_segments c n segs =
     (case rparent (heap c n) of
        None \<Rightarrow> Some segs
      | Some p \<Rightarrow> if p = n then Some segs
                   else path_segments c p (token_ids (rkey (heap c n)) # segs))"

declare path_segments.simps [code]

fun demand_loop ::
  "(int list \<Rightarrow> int) \<Rightarrow> int list list \<Rightarrow> int list \<Rightarrow> int \<Rightarrow> int \<Rightarrow> int \<Rightarrow> int \<times> int \<times> int" where
  "demand_loop demand [] ancestor max_value max_len levels = (max_value, max_len, levels)"
| "demand_loop demand (seg # segs) ancestor max_value max_len levels =
     (let ancestor' = ancestor @ seg;
          d = demand ancestor';
          len = int (length ancestor');
          (mv, ml) = (if max_value < d * len then (d * len, len) else (max_value, max_len))
      in if d = 0 \<and> 0 < mv then (mv, ml, levels + 1)
         else demand_loop demand segs ancestor' mv ml (levels + 1))"

definition max_ancestor_demand :: "(int list \<Rightarrow> int) \<Rightarrow> radix_cache \<Rightarrow> nat \<Rightarrow> (int \<times> int \<times> int) option" where
  "max_ancestor_demand demand c n =
     map_option (\<lambda>segs. if segs = [] then (0, 0, 0) else demand_loop demand segs [] 0 0 0) (path_segments c n [])"

section \<open>The priority\<close>

text \<open>
  \<open>wall\<close> is the reading of \<open>time.time()\<close>; \<open>math.exp\<close> is a parameter. The result is the pair the
  heap orders by: the priority and the last access time.
\<close>

record eviction_params =
  ep_mode :: eviction_mode
  recency_w :: pyfloat
  decay_tau :: pyfloat

definition node_age :: "pyfloat \<Rightarrow> pyfloat \<Rightarrow> pyfloat" where
  "node_age wall last_access = (if last_access \<noteq> 0 then max 0 (fsub wall last_access) else 0)"

definition mode_priority ::
  "(pyfloat \<Rightarrow> pyfloat) \<Rightarrow> eviction_params \<Rightarrow> pyfloat \<Rightarrow> pyfloat \<Rightarrow> int \<Rightarrow> int \<Rightarrow> int" where
  "mode_priority exp_of ep wall last_access demand n_levels =
     (case ep_mode ep of
        Plain \<Rightarrow> demand
      | Cluster \<Rightarrow> demand * (1 + n_levels)
      | Recency \<Rightarrow> py_trunc (fsub (of_pyint demand) (fmul (recency_w ep) (node_age wall last_access)))
      | Decay \<Rightarrow> py_trunc (fmul (of_pyint demand)
          (if 0 < decay_tau ep then exp_of (fdiv (- node_age wall last_access) (decay_tau ep)) else 1)))"

definition demand_priority ::
  "(int list \<Rightarrow> int) \<Rightarrow> (pyfloat \<Rightarrow> pyfloat) \<Rightarrow> eviction_params \<Rightarrow> pyfloat \<Rightarrow> radix_cache \<Rightarrow> nat \<Rightarrow>
     (int \<times> pyfloat) option"
where
  "demand_priority demand exp_of ep wall c n =
     map_option (\<lambda>(value', path_len, n_levels).
         (mode_priority exp_of ep wall (last_access_time (heap c n)) value' n_levels, last_access_time (heap c n)))
       (max_ancestor_demand demand c n)"

section \<open>Diagnostics\<close>

record evict_diag =
  gp_calls :: int
  gp_root :: int
  gp_zero :: int
  gp_positive :: int
  gp_buckets :: "(string, int) pydict"
  max_demand_seen :: int
  path_len_at_max :: int
  sum_demand :: int
  mean_demand :: pyfloat

definition diag_init :: evict_diag where
  "diag_init = \<lparr>gp_calls = 0, gp_root = 0, gp_zero = 0, gp_positive = 0, gp_buckets = [], max_demand_seen = 0,
     path_len_at_max = 0, sum_demand = 0, mean_demand = 0\<rparr>"

definition bucket_of :: "int \<Rightarrow> string" where
  "bucket_of v =
     (if v = 0 then ''0'' else if v < 100 then ''1-99'' else if v < 1000 then ''100-999''
      else if v < 10000 then ''1k-10k'' else if v < 100000 then ''10k-100k'' else ''100k+'')"

definition bump_bucket :: "int \<Rightarrow> evict_diag \<Rightarrow> evict_diag" where
  "bump_bucket v d = d\<lparr>gp_buckets := dset (bucket_of v) (dget_or (gp_buckets d) (bucket_of v) 0 + 1) (gp_buckets d)\<rparr>"

definition note_call :: "int \<Rightarrow> int \<Rightarrow> evict_diag \<Rightarrow> evict_diag" where
  "note_call demand path_len d0 =
     (let d = d0\<lparr>gp_calls := gp_calls d0 + 1\<rparr> in
      if path_len = 0 then d\<lparr>gp_root := gp_root d + 1\<rparr>
      else if demand = 0 then bump_bucket 0 (d\<lparr>gp_zero := gp_zero d + 1\<rparr>)
      else let d1 = bump_bucket demand (d\<lparr>gp_positive := gp_positive d + 1\<rparr>);
               d2 = d1\<lparr>sum_demand := sum_demand d1 + demand\<rparr>;
               d3 = d2\<lparr>mean_demand := int_div (sum_demand d2) (gp_positive d2)\<rparr>
           in if max_demand_seen d3 < demand then d3\<lparr>max_demand_seen := demand, path_len_at_max := path_len\<rparr> else d3)"

section \<open>The contract of the pending tree\<close>

locale demand_view =
  fixes demand :: "int list \<Rightarrow> int"
  assumes demand_nonneg: "0 \<le> demand p"
    and demand_antimono: "p \<noteq> [] \<Longrightarrow> demand (p @ q) \<le> demand p"
begin

lemma demand_zero_below: "p \<noteq> [] \<Longrightarrow> demand p = 0 \<Longrightarrow> demand (p @ q) = 0"
  using demand_nonneg [of "p @ q"] demand_antimono [of p q] by simp

lemma value_nonneg: "0 \<le> demand p * int (length p)"
  by (simp add: demand_nonneg)

end

text \<open>The tree's demand: the number of waiting requests that start with the path.\<close>

definition request_demand :: "(int, int list) pydict \<Rightarrow> int list \<Rightarrow> int" where
  "request_demand paths p = (if p = [] then 0 else int (starting_with paths p))"

interpretation pending: demand_view "request_demand paths"
  by unfold_locales (auto simp: request_demand_def intro: starting_with_append)

lemma pending_demand_view: "pt_ok T \<Longrightarrow> pending_demand T = request_demand (pt_paths T)"
  by (rule ext) (simp add: pending_demand_eq request_demand_def)

section \<open>The walk finds the maximum\<close>

text \<open>The paths of the nodes on the way down, and the tokens at risk at one of them.\<close>

fun prefix_paths :: "int list \<Rightarrow> int list list \<Rightarrow> int list list" where
  "prefix_paths ancestor [] = []"
| "prefix_paths ancestor (seg # segs) = (ancestor @ seg) # prefix_paths (ancestor @ seg) segs"

definition at_risk :: "(int list \<Rightarrow> int) \<Rightarrow> int list \<Rightarrow> int" where
  "at_risk demand p = demand p * int (length p)"

lemma prefix_paths_extend: "p \<in> set (prefix_paths anc segs) \<Longrightarrow> \<exists>q. p = anc @ q"
  by (induction segs arbitrary: anc) fastforce+

lemma prefix_paths_append:
  "prefix_paths anc (segs @ [seg]) = prefix_paths anc segs @ [anc @ concat segs @ seg]"
  by (induction segs arbitrary: anc) auto

context demand_view
begin

lemma demand_loop_max:
  assumes "0 \<le> mv" and "0 < mv \<Longrightarrow> anc \<noteq> []"
  shows "case demand_loop demand segs anc mv ml lv of (mv', ml', lv') \<Rightarrow>
    mv \<le> mv' \<and> (\<forall>p \<in> set (prefix_paths anc segs). at_risk demand p \<le> mv')
    \<and> ((mv' = mv \<and> ml' = ml) \<or> (\<exists>p \<in> set (prefix_paths anc segs). at_risk demand p = mv' \<and> ml' = int (length p) \<and> mv < mv'))
    \<and> lv \<le> lv' \<and> lv' \<le> lv + int (length segs) \<and> (segs \<noteq> [] \<longrightarrow> lv < lv')"
  using assms
proof (induction segs arbitrary: anc mv ml lv)
  case (Cons seg segs)
  let ?a = "anc @ seg"
  let ?v = "demand ?a * int (length ?a)"
  define mv1 ml1 where m1: "mv1 = (if mv < ?v then ?v else mv)" "ml1 = (if mv < ?v then int (length ?a) else ml)"
  have pos: "0 \<le> mv1" "mv \<le> mv1" "?v \<le> mv1" using Cons.prems by (auto simp: m1)
  have ne: "?a \<noteq> []" if "0 < mv1" using that Cons.prems(2) by (auto simp: m1 split: if_splits)
  have step: "(mv1 = mv \<and> ml1 = ml) \<or> (at_risk demand ?a = mv1 \<and> ml1 = int (length ?a) \<and> mv < mv1)"
    by (simp add: m1 at_risk_def)
  have e: "demand_loop demand (seg # segs) anc mv ml lv =
      (if demand ?a = 0 \<and> 0 < mv1 then (mv1, ml1, lv + 1) else demand_loop demand segs ?a mv1 ml1 (lv + 1))"
    by (cases "mv < ?v") (simp_all only: demand_loop.simps Let_def m1 if_True if_False prod.case)
  show ?case
  proof (cases "demand ?a = 0 \<and> 0 < mv1")
    case True
    have "at_risk demand p \<le> mv1" if p: "p \<in> set (prefix_paths ?a segs)" for p
    proof -
      obtain q where "p = ?a @ q" using prefix_paths_extend [OF p] by blast
      then have "demand p = 0" using demand_zero_below True ne by blast
      then show ?thesis using pos(1) by (simp add: at_risk_def)
    qed
    then show ?thesis unfolding e using True step pos by (auto simp: at_risk_def)
  next
    case False
    obtain mv' ml' lv' where r: "demand_loop demand segs ?a mv1 ml1 (lv + 1) = (mv', ml', lv')"
      by (cases "demand_loop demand segs ?a mv1 ml1 (lv + 1)")
    from Cons.IH [OF pos(1) ne, of ml1 "lv + 1"] r have
      i: "mv1 \<le> mv'" "\<forall>p \<in> set (prefix_paths ?a segs). at_risk demand p \<le> mv'"
        "(mv' = mv1 \<and> ml' = ml1) \<or> (\<exists>p \<in> set (prefix_paths ?a segs). at_risk demand p = mv' \<and> ml' = int (length p) \<and> mv1 < mv')"
        "lv + 1 \<le> lv'" "lv' \<le> lv + 1 + int (length segs)" by auto
    have "at_risk demand ?a \<le> mv'" using i(1) pos(3) by (simp add: at_risk_def)
    moreover have "(mv' = mv \<and> ml' = ml) \<or>
        (\<exists>p \<in> set (prefix_paths anc (seg # segs)). at_risk demand p = mv' \<and> ml' = int (length p) \<and> mv < mv')"
      using i(3) step pos(2) by auto
    ultimately show ?thesis unfolding e using False r i pos(2) by auto
  qed
qed simp

end

section \<open>On the tree\<close>

lemma path_segments_up:
  assumes t: "tree_ok cfg S c" and r: "rparent (heap c (root_node c)) = None"
  shows "up_path c n ns \<Longrightarrow> n \<in> S \<Longrightarrow>
    path_segments c n segs = Some (rev (map (\<lambda>m. token_ids (rkey (heap c m))) ns) @ segs)"
proof (induction ns arbitrary: n segs)
  case Nil
  then show ?case using r by (simp add: path_segments.simps)
next
  case (Cons m ns)
  then obtain p where p: "m = n" "n \<noteq> root_node c" "rparent (heap c n) = Some p" "up_path c p ns"
    by (auto split: option.splits)
  obtain p' where "rparent (heap c n) = Some p'" "p' \<in> S" "rdepth (heap c n) = rdepth (heap c p') + key_len (rkey (heap c n))"
    "token_ids (rkey (heap c n)) \<noteq> []" using tree_ok_nodeD [OF t Cons.prems(2) p(2)] by metis
  then have "p \<in> S" "p \<noteq> n" using p(3) by (auto simp: key_len_def)
  then show ?case using Cons.IH [OF p(4)] p by (subst path_segments.simps) simp
qed

lemma reaches_up_path:
  "reaches c n ts vs \<Longrightarrow> up_path c n ns \<Longrightarrow> concat (rev (map (\<lambda>m. token_ids (rkey (heap c m))) ns)) = ts"
proof (induction arbitrary: ns rule: reaches.induct)
  case reaches_root
  then show ?case by (cases ns) auto
next
  case (reaches_step n p ts vs)
  then obtain ns' where "ns = n # ns'" "up_path c p ns'" by (cases ns) auto
  then show ?case using reaches_step.IH by simp
qed

lemma demand_loop_start:
  "case demand_loop (request_demand paths) segs [] 0 0 0 of (mv', ml', lv') \<Rightarrow>
    0 \<le> mv' \<and> (\<forall>p \<in> set (prefix_paths [] segs). at_risk (request_demand paths) p \<le> mv')
    \<and> ((mv' = 0 \<and> ml' = 0)
      \<or> (\<exists>p \<in> set (prefix_paths [] segs). at_risk (request_demand paths) p = mv' \<and> ml' = int (length p) \<and> 0 < mv'))
    \<and> 0 \<le> lv' \<and> lv' \<le> 0 + int (length segs) \<and> (segs \<noteq> [] \<longrightarrow> 0 < lv')"
  by (rule pending.demand_loop_max) auto

text \<open>
  C28: With a well-formed pending tree, the walk returns on every node of a well-formed cache although it may stop early: its value is the largest number
  of tokens at risk (waiting requests times length) over all the node's ancestors and itself, taken at the length it reports; and
  a child's value is never below its parent's, so an inner node is not preferred to the leaves it
  is shared by.
\<close>

theorem ancestor_demand_correct:
  assumes ok: "pt_ok T"
    and t: "tree_ok cfg S c" and root: "rparent (heap c (root_node c)) = None" and n: "n \<in> S" "n \<noteq> root_node c"
  shows "\<exists>segs val len lv p val_p len_p lv_p.
    path_segments c n [] = Some segs \<and> max_ancestor_demand (pending_demand T) c n = Some (val, len, lv)
    \<and> (\<forall>q \<in> set (prefix_paths [] segs). int (starting_with (pt_paths T) q * length q) \<le> val)
    \<and> ((val = 0 \<and> len = 0)
      \<or> (\<exists>q \<in> set (prefix_paths [] segs). int (starting_with (pt_paths T) q * length q) = val \<and> len = int (length q) \<and> 0 < val))
    \<and> 1 \<le> lv \<and> lv \<le> int (length segs)
    \<and> rparent (heap c n) = Some p \<and> max_ancestor_demand (pending_demand T) c p = Some (val_p, len_p, lv_p) \<and> val_p \<le> val"
proof -
  let ?demand = "request_demand (pt_paths T)"
  have risk: "int (starting_with (pt_paths T) q * length q) = at_risk ?demand q" for q
    by (simp add: at_risk_def request_demand_def)
  obtain ns where ns: "up_path c n ns" using infinite_descent_depth [OF t n(1)] by blast
  then obtain p ms where p: "ns = n # ms" "rparent (heap c n) = Some p" "up_path c p ms"
    using n(2) by (cases ns) (auto split: option.splits)
  have pS: "p \<in> S" using tree_ok_nodeD [OF t n] p(2) by (metis option.inject)
  let ?segs = "rev (map (\<lambda>m. token_ids (rkey (heap c m))) ns)" and ?psegs = "rev (map (\<lambda>m. token_ids (rkey (heap c m))) ms)"
  have sn: "path_segments c n [] = Some ?segs" using path_segments_up [OF t root ns n(1), of "[]"] by simp
  have sp: "path_segments c p [] = Some ?psegs" using path_segments_up [OF t root p(3) pS, of "[]"] by simp
  have split: "?segs = ?psegs @ [token_ids (rkey (heap c n))]" by (simp add: p(1))
  obtain val len lv where v: "demand_loop ?demand ?segs [] 0 0 0 = (val, len, lv)" by (cases "demand_loop ?demand ?segs [] 0 0 0")
  obtain pval plen plv where pv: "demand_loop ?demand ?psegs [] 0 0 0 = (pval, plen, plv)" by (cases "demand_loop ?demand ?psegs [] 0 0 0")
  note L = demand_loop_start [where paths = "pt_paths T" and segs = ?segs, unfolded v prod.case]
  note PL = demand_loop_start [where paths = "pt_paths T" and segs = ?psegs, unfolded pv prod.case]
  have mn: "max_ancestor_demand ?demand c n = Some (val, len, lv)" using sn v p(1) by (simp add: max_ancestor_demand_def)
  have mp: "max_ancestor_demand ?demand c p = Some (pval, plen, plv)"
    using sp pv by (cases "ms = []") (auto simp: max_ancestor_demand_def)
  have "set (prefix_paths [] ?psegs) \<subseteq> set (prefix_paths [] ?segs)" unfolding split prefix_paths_append by auto
  then have "pval \<le> val" using L PL by auto
  moreover have "1 \<le> lv" "lv \<le> int (length ?segs)" using L by (auto simp: p(1))
  ultimately show ?thesis unfolding risk pending_demand_view [OF ok] using sn mn mp p(2) L
    by - (rule exI [of _ ?segs], rule exI [of _ val], rule exI [of _ len], rule exI [of _ lv], rule exI [of _ p],
        rule exI [of _ pval], rule exI [of _ plen], rule exI [of _ plv], blast)
qed

theorem ancestor_demand_correct_witness:
  "\<exists>val len lv. max_ancestor_demand (pending_demand (pt_insert_all [(1, [7, 8]), (2, [9])] pt_new)) one_cache 1 = Some (val, len, lv) \<and> 1 \<le> lv"
proof -
  have t: "tree_ok one_config {0, 1} one_cache" using one_cache_ok by (simp add: rc_ok_def)
  have r: "rparent (heap one_cache (root_node one_cache)) = None" and n: "(1 :: nat) \<in> {0, 1}" "1 \<noteq> root_node one_cache"
    by (simp_all add: one_defs new_tree_node_def)
  from ancestor_demand_correct [OF pt_insert_all_ok [OF pt_ok_new] t r n] show ?thesis by blast
qed

text \<open>
  Two consequences for the code's own expectations. The diagnostics' branch for a zero demand with
  a non-empty path is never taken, because the reported length is 0 whenever the value is 0. And
  once the decay factor is small enough the decay mode gives every node priority 0, which leaves
  only the last access time; the age it uses is a wall-clock reading minus a monotonic one.
\<close>

lemma zero_demand_branch_dead:
  assumes "pt_ok T" and "max_ancestor_demand (pending_demand T) c n = Some (val, len, lv)" and "val = 0"
  shows "gp_zero (note_call val len d) = gp_zero d"
proof -
  obtain segs where "segs = [] \<and> len = 0 \<or> demand_loop (request_demand (pt_paths T)) segs [] 0 0 0 = (val, len, lv)"
    using assms(2) pending_demand_view [OF assms(1)] by (auto simp: max_ancestor_demand_def split: if_splits)
  then have "len = 0" using demand_loop_start [where paths = "pt_paths T" and segs = segs] assms(3) by auto
  then show ?thesis by (simp add: note_call_def Let_def)
qed

lemma decay_mode_vanishes:
  assumes "ep_mode ep = Decay" and "0 < decay_tau ep" and "0 \<le> demand"
    and "fmul (of_pyint demand) (exp_of (fdiv (- node_age wall la) (decay_tau ep))) < 1"
    and "0 \<le> fmul (of_pyint demand) (exp_of (fdiv (- node_age wall la) (decay_tau ep)))"
  shows "mode_priority exp_of ep wall la demand lv = 0"
  using assms by (simp add: mode_priority_def py_trunc_def floor_eq_iff)

end
