(* ===== verification/Lpm_Integration.thy ===== *)
theory Lpm_Integration
  imports Policy_Props
begin

text \<open>
  \<open>src/python/peek/online/lpm_integration.py\<close>: the two sorts of the online scheduler. The pending
  tree is the compiled core's: the dictionaries its \<open>all_cluster_info\<close> and \<open>compute_req_scores\<close>
  return are arguments. \<open>lpm_sort_order\<close> is translated from \<open>src/src/pending.rs\<close>.
\<close>

section \<open>Requests and in-batch claims\<close>

text \<open>Of \<open>prefix_indices\<close> only the length is read here; \<open>None\<close> where the attribute is \<open>None\<close>. The record is extended by the hook.\<close>

record lpm_req =
  lr_rid :: string
  lr_prefix :: "int list option"
  lr_input :: "int list"
  lr_output :: "int list option"

definition lr_tokens :: "'a lpm_req_scheme \<Rightarrow> int list" where
  "lr_tokens r = lr_input r @ (case lr_output r of None \<Rightarrow> [] | Some ids \<Rightarrow> ids)"

definition prefix_hit :: "'a lpm_req_scheme \<Rightarrow> int" where
  "prefix_hit r = (case lr_prefix r of None \<Rightarrow> 0 | Some idx \<Rightarrow> int (length idx))"

text \<open>The hit of a request: from the dual walk when it knows the request, else from its own match.\<close>

definition main_hit :: "(string, int) pydict \<Rightarrow> (int, int) pydict option \<Rightarrow> 'a lpm_req_scheme \<Rightarrow> int" where
  "main_hit rid_to_int main_hits r =
     (case main_hits of
        None \<Rightarrow> prefix_hit r
      | Some hits \<Rightarrow> (case dget rid_to_int (lr_rid r) of None \<Rightarrow> prefix_hit r | Some i \<Rightarrow> dget_or hits i 0))"

text \<open>
  The loop over the queue in arrival order: a cold request claims its first \<open>k\<close> tokens, or is
  deprioritized when they are claimed already.
\<close>

fun claim_loop ::
  "('a lpm_req_scheme \<Rightarrow> int) \<Rightarrow> int \<Rightarrow> nat \<Rightarrow> int list set \<Rightarrow> string set \<Rightarrow> 'a lpm_req_scheme list \<Rightarrow> string set" where
  "claim_loop hit check k seen dep [] = dep"
| "claim_loop hit check k seen dep (r # rs) =
     (if check < hit r then claim_loop hit check k seen dep rs
      else if length (lr_tokens r) < k then claim_loop hit check k seen dep rs
      else let prefix = take k (lr_tokens r) in
        if prefix \<in> seen then claim_loop hit check k seen (insert (lr_rid r) dep) rs
        else claim_loop hit check k (insert prefix seen) dep rs)"

definition in_batch_deprioritize :: "('a lpm_req_scheme \<Rightarrow> int) \<Rightarrow> int \<Rightarrow> int \<Rightarrow> 'a lpm_req_scheme list \<Rightarrow> string set" where
  "in_batch_deprioritize hit check thr q =
     (if check < 0 \<or> thr < 0 then {} else claim_loop hit check (nat thr) {} {} q)"

definition compute_in_batch_deprioritize :: "int \<Rightarrow> int \<Rightarrow> 'a lpm_req_scheme list \<Rightarrow> string set" where
  "compute_in_batch_deprioritize = in_batch_deprioritize prefix_hit"

section \<open>The LPM-equivalent sort\<close>

text \<open>
  The comparator of the compiled sort: not deprioritized before deprioritized, larger hits first
  among the former, equal among the latter; the sort is stable.
\<close>

definition lpm_cmp_key :: "int \<times> bool \<Rightarrow> nat \<times> int" where
  "lpm_cmp_key = (\<lambda>(mh, dp). if dp then (1, 0) else (0, - mh))"

definition lpm_sort_order :: "(int \<times> bool) list \<Rightarrow> nat list" where
  "lpm_sort_order keys = sort_key (\<lambda>i. lpm_cmp_key (keys ! i)) [0..<length keys]"

type_synonym cluster_info = "(int, (int \<times> int \<times> int) option) pydict"

definition info_of :: "cluster_info \<Rightarrow> (string, int) pydict \<Rightarrow> 'a lpm_req_scheme \<Rightarrow> (int \<times> int \<times> int) option" where
  "info_of all_info rid_to_int r =
     (case dget rid_to_int (lr_rid r) of
        None \<Rightarrow> None
      | Some i \<Rightarrow> (case dget all_info i of None \<Rightarrow> None | Some info \<Rightarrow> info))"

definition singleton_node_id :: int where
  "singleton_node_id = 2147483648"

definition sort_node :: "cluster_info \<Rightarrow> (string, int) pydict \<Rightarrow> 'a lpm_req_scheme \<Rightarrow> int" where
  "sort_node all_info rid_to_int r =
     (case info_of all_info rid_to_int r of None \<Rightarrow> singleton_node_id | Some (cluster_node, _, _) \<Rightarrow> cluster_node)"

definition is_depr :: "string set \<Rightarrow> 'a lpm_req_scheme \<Rightarrow> nat" where
  "is_depr dep r = (if lr_rid r \<in> dep then 1 else 0)"

record sort_params =
  check_thr :: int
  depr_thr :: int
  by_cluster :: bool
  lpm_only :: bool

definition peek_sort ::
  "sort_params \<Rightarrow> (string, int) pydict \<Rightarrow> cluster_info \<Rightarrow> (int, int) pydict option \<Rightarrow> 'a lpm_req_scheme list \<Rightarrow>
     'a lpm_req_scheme list \<times> string set"
where
  "peek_sort sp rid_to_int all_info main_hits q =
     (let hit = main_hit rid_to_int main_hits;
          dep = in_batch_deprioritize hit (check_thr sp) (depr_thr sp) q
      in if lpm_only sp
         then (map ((!) q) (lpm_sort_order (map (\<lambda>r. (hit r, lr_rid r \<in> dep)) q)), dep)
         else if by_cluster sp
         then (sort_key (\<lambda>r. (- hit r, sort_node all_info rid_to_int r, is_depr dep r, lr_rid r)) q, dep)
         else (sort_key (\<lambda>r. (- hit r, is_depr dep r, lr_rid r)) q, dep))"

section \<open>Cluster-LPM\<close>

text \<open>Sections: 0 warm, 1 pioneer, 2 sibling. The dictionary is by id, so a repeated id overwrites.\<close>

fun section_loop ::
  "('a lpm_req_scheme \<Rightarrow> int) \<Rightarrow> int \<Rightarrow> int \<Rightarrow> int list set \<Rightarrow> (string, nat) pydict \<Rightarrow> string set \<Rightarrow> 'a lpm_req_scheme list \<Rightarrow>
     (string, nat) pydict \<times> string set"
where
  "section_loop hit check k seen sec dep [] = (sec, dep)"
| "section_loop hit check k seen sec dep (r # rs) =
     (let set_section = (\<lambda>n. dset (lr_rid r) n sec) in
      if check < hit r then section_loop hit check k seen (set_section 0) dep rs
      else if check < 0 \<or> k < 0 then section_loop hit check k seen (set_section 1) dep rs
      else if int (length (lr_tokens r)) < k then section_loop hit check k seen (set_section 1) dep rs
      else let prefix = take (nat k) (lr_tokens r) in
        if prefix \<in> seen then section_loop hit check k seen (set_section 2) (insert (lr_rid r) dep) rs
        else section_loop hit check k (insert prefix seen) (set_section 1) dep rs)"

record clpm_params =
  cl_check :: int
  cl_depr :: int
  cl_age_alpha :: pyfloat
  cl_big_share :: pyfloat
  cl_group_major :: bool
  cl_dynamic :: bool
  cl_slo :: pyfloat

text \<open>
  \<open>now\<close> is the clock when it is needed, else 0; arrival times are a dictionary (\<open>[]\<close> when absent:
  the code only tests its truth value).
\<close>

definition clpm_now :: "clpm_params \<Rightarrow> (string, pyfloat) pydict \<Rightarrow> pyfloat \<Rightarrow> pyfloat" where
  "clpm_now cp arrival clock =
     (if arrival \<noteq> [] \<and> (0 < cl_age_alpha cp \<or> cl_dynamic cp) then clock else 0)"

definition is_single :: "(int \<times> int \<times> int) option \<Rightarrow> bool" where
  "is_single info = (case info of None \<Rightarrow> True | Some (_, _, size') \<Rightarrow> size' < 2)"

definition single_age :: "pyfloat \<Rightarrow> (string, pyfloat) pydict \<Rightarrow> 'a lpm_req_scheme \<Rightarrow> pyfloat" where
  "single_age now arrival r =
     (case dget arrival (lr_rid r) of
        None \<Rightarrow> 0
      | Some t0 \<Rightarrow> if t0 \<noteq> 0 \<and> now \<noteq> 0 then fsub now t0 else 0)"

text \<open>The dynamic share of the fairness lane, clamped and smoothed against the previous one.\<close>

definition raw_share :: "pyfloat \<Rightarrow> pyfloat \<Rightarrow> pyfloat" where
  "raw_share singleton_frac age_pressure =
     max (fl (1 / 10)) (min (fl (6 / 10))
       (fadd (fadd (fl (15 / 100)) (fmul (1 / 2) singleton_frac)) (fmul (fl (3 / 10)) age_pressure)))"

definition smooth_share :: "pyfloat \<Rightarrow> pyfloat \<Rightarrow> pyfloat" where
  "smooth_share prev_b raw_b = fadd (fmul (fl (7 / 10)) prev_b) (fmul (fl (3 / 10)) raw_b)"

definition dynamic_share ::
  "clpm_params \<Rightarrow> cluster_info \<Rightarrow> (string, int) pydict \<Rightarrow> pyfloat \<Rightarrow> (string, pyfloat) pydict \<Rightarrow>
     'a lpm_req_scheme list \<Rightarrow> pyfloat \<Rightarrow> pyfloat"
where
  "dynamic_share cp all_info rid_to_int now arrival q prev_b =
     (let singles = filter (\<lambda>r. is_single (info_of all_info rid_to_int r)) q;
          oldest = foldl (\<lambda>m r. if m < single_age now arrival r then single_age now arrival r else m) 0 singles;
          singleton_frac = int_div (int (length singles)) (int (length q));
          age_pressure = (if 0 < cl_slo cp then min 1 (fdiv oldest (cl_slo cp)) else 0)
      in smooth_share prev_b (raw_share singleton_frac age_pressure))"

text \<open>What the lanes sort by.\<close>

datatype group_key = Grp int | Single string

record lane_meta =
  lm_a :: "nat \<times> int \<times> int \<times> int \<times> int"
  lm_b :: "nat \<times> int \<times> int"
  lm_section :: nat
  lm_key :: group_key
  lm_score :: int
  lm_hit :: int
  lm_arrival :: int

definition meta_of ::
  "clpm_params \<Rightarrow> (string, nat) pydict \<Rightarrow> cluster_info \<Rightarrow> (int, int) pydict \<Rightarrow> (string, int) pydict \<Rightarrow>
     ('a lpm_req_scheme \<Rightarrow> int) \<Rightarrow> pyfloat \<Rightarrow> (string, pyfloat) pydict \<Rightarrow> 'a lpm_req_scheme \<Rightarrow> lane_meta"
where
  "meta_of cp sections all_info req_scores rid_to_int hit now arrival r =
     (let mh = hit r;
          t0 = (if arrival \<noteq> [] then dget_or arrival (lr_rid r) now else 0);
          arrival_ns = (if arrival \<noteq> [] then py_trunc (fmul t0 1000000000) else 0);
          effective_mh = (if arrival \<noteq> [] \<and> 0 < cl_age_alpha cp
            then mh + py_trunc (fmul (cl_age_alpha cp) (max 0 (fsub now t0))) else mh);
          sect = dget_or sections (lr_rid r) 1;
          req_score = (case dget rid_to_int (lr_rid r) of None \<Rightarrow> 0 | Some i \<Rightarrow> dget_or req_scores i 0);
          info = info_of all_info rid_to_int r;
          cluster_size = (case info of None \<Rightarrow> 0 | Some (_, _, s) \<Rightarrow> s);
          (gkey, gscore) = (case info of
             None \<Rightarrow> (Single (lr_rid r), 0)
           | Some (cluster_node, depth, s) \<Rightarrow>
               if 2 \<le> s then (Grp cluster_node, depth * s) else (Single (lr_rid r), 0))
      in \<lparr>lm_a = (sect, - effective_mh, - req_score, - cluster_size, arrival_ns),
          lm_b = (sect, arrival_ns, - mh), lm_section = sect, lm_key = gkey, lm_score = gscore,
          lm_hit = mh, lm_arrival = arrival_ns\<rparr>)"

text \<open>Group-major order: one bucket per section and group, ranked by score, then earliest arrival.\<close>

definition bucket_rank :: "lane_meta list \<Rightarrow> (nat \<times> group_key) \<times> nat list \<Rightarrow> nat \<times> int \<times> int" where
  "bucket_rank metas b =
     (case b of ((sect, _), members) \<Rightarrow>
        (sect, - lm_score (metas ! last members), Min (set (map (\<lambda>i. lm_arrival (metas ! i)) members))))"

definition lane_a_order :: "bool \<Rightarrow> lane_meta list \<Rightarrow> nat list" where
  "lane_a_order group_major metas =
     (let idx = [0..<length metas] in
      if \<not> group_major then sort_key (\<lambda>i. lm_a (metas ! i)) idx
      else concat (map (\<lambda>b. sort_key (\<lambda>i. (- lm_hit (metas ! i), lm_arrival (metas ! i))) (snd b))
             (sort_key (bucket_rank metas) (group_by (\<lambda>i. (lm_section (metas ! i), lm_key (metas ! i))) idx))))"

definition lane_b_order :: "lane_meta list \<Rightarrow> nat list" where
  "lane_b_order metas = sort_key (\<lambda>i. lm_b (metas ! i)) [0..<length metas]"

text \<open>
  The stride interleaving. A lane is what its pointer has not passed yet; \<open>None\<close> is the infinite
  clock of an exhausted lane. \<open>None\<close> as a result would be a loop that does not end.
\<close>

definition clock_le :: "pyfloat option \<Rightarrow> pyfloat option \<Rightarrow> bool" where
  "clock_le x y = (case y of None \<Rightarrow> True | Some b \<Rightarrow> (case x of None \<Rightarrow> False | Some a \<Rightarrow> a \<le> b))"

partial_function (option) stride_loop ::
  "nat \<Rightarrow> pyfloat \<Rightarrow> pyfloat \<Rightarrow> pyfloat option \<Rightarrow> pyfloat option \<Rightarrow> nat list \<Rightarrow> nat list \<Rightarrow> nat list \<Rightarrow> nat list option"
where
  "stride_loop n a_stride b_stride a_clock b_clock a_rest b_rest order =
     (if n \<le> length order then Some order
      else if clock_le a_clock b_clock
      then (case dropWhile (\<lambda>i. i \<in> set order) a_rest of
              [] \<Rightarrow> stride_loop n a_stride b_stride None b_clock [] b_rest order
            | i # rest \<Rightarrow>
                stride_loop n a_stride b_stride (map_option (\<lambda>t. fadd t a_stride) a_clock) b_clock rest b_rest (order @ [i]))
      else (case dropWhile (\<lambda>i. i \<in> set order) b_rest of
              [] \<Rightarrow> stride_loop n a_stride b_stride a_clock None a_rest [] order
            | i # rest \<Rightarrow>
                stride_loop n a_stride b_stride a_clock (map_option (\<lambda>t. fadd t b_stride) b_clock) a_rest rest (order @ [i])))"

declare stride_loop.simps [code]

definition interleave :: "pyfloat \<Rightarrow> nat list \<Rightarrow> nat list \<Rightarrow> nat list option" where
  "interleave share a b =
     (if fsub 1 (fl (1 / 1000000000)) \<le> share then Some a
      else if share \<le> fl (1 / 1000000000) then Some b
      else let a_stride = fdiv 1 share; b_stride = fdiv 1 (fsub 1 share)
           in stride_loop (length a) a_stride b_stride (Some a_stride) (Some b_stride) a b [])"

definition peek_clpm_sort ::
  "clpm_params \<Rightarrow> int \<Rightarrow> (string, int) pydict \<Rightarrow> cluster_info \<Rightarrow> (int, int) pydict \<Rightarrow> (int, int) pydict option \<Rightarrow>
     pyfloat \<Rightarrow> (string, pyfloat) pydict \<Rightarrow> 'a lpm_req_scheme list \<Rightarrow> (int, pyfloat) pydict \<Rightarrow>
     ('a lpm_req_scheme list \<times> string set \<times> (int, pyfloat) pydict) option"
where
  "peek_clpm_sort cp tree_id rid_to_int all_info req_scores main_hits clock arrival q dyn =
     (let hit = main_hit rid_to_int main_hits;
          (sections, dep) = section_loop hit (cl_check cp) (cl_depr cp) {} [] {} q;
          now = clpm_now cp arrival clock;
          update = cl_dynamic cp \<and> q \<noteq> [];
          smoothed = dynamic_share cp all_info rid_to_int now arrival q (dget_or dyn tree_id (fl (3 / 10)));
          dyn' = (if update then dset tree_id smoothed dyn else dyn);
          share = (if update then fsub 1 smoothed else cl_big_share cp);
          metas = map (meta_of cp sections all_info req_scores rid_to_int hit now arrival) q
      in map_option (\<lambda>order. (map ((!) q) order, dep, dyn'))
           (interleave share (lane_a_order (cl_group_major cp) metas) (lane_b_order metas)))"

end
