(* ===== verification/Lpm_Props.thy ===== *)
theory Lpm_Props
  imports Lpm_Integration
begin

text \<open>
  What the online sorts guarantee: the LPM sort is the stock order with an exact description of the
  deprioritized requests, Cluster-LPM always returns a permutation of the queue, and the dynamic
  lane share stays bounded.
\<close>

section \<open>Claims\<close>

definition eligible :: "('a lpm_req_scheme \<Rightarrow> int) \<Rightarrow> int \<Rightarrow> nat \<Rightarrow> 'a lpm_req_scheme \<Rightarrow> bool" where
  "eligible hit check k r \<longleftrightarrow> hit r \<le> check \<and> k \<le> length (lr_tokens r)"

definition claim_of :: "nat \<Rightarrow> 'a lpm_req_scheme \<Rightarrow> int list" where
  "claim_of k r = take k (lr_tokens r)"

text \<open>A sibling: an eligible request whose claim an earlier eligible request has.\<close>

definition sibling_at :: "('a lpm_req_scheme \<Rightarrow> int) \<Rightarrow> int \<Rightarrow> nat \<Rightarrow> 'a lpm_req_scheme list \<Rightarrow> nat \<Rightarrow> bool" where
  "sibling_at hit check k q i \<longleftrightarrow> i < length q \<and> eligible hit check k (q ! i)
     \<and> (\<exists>j < i. eligible hit check k (q ! j) \<and> claim_of k (q ! j) = claim_of k (q ! i))"

definition siblings_from :: "('a lpm_req_scheme \<Rightarrow> int) \<Rightarrow> int \<Rightarrow> nat \<Rightarrow> int list set \<Rightarrow> 'a lpm_req_scheme list \<Rightarrow> nat \<Rightarrow> bool" where
  "siblings_from hit check k seen q i \<longleftrightarrow> i < length q \<and> eligible hit check k (q ! i)
     \<and> (claim_of k (q ! i) \<in> seen
        \<or> (\<exists>j < i. eligible hit check k (q ! j) \<and> claim_of k (q ! j) = claim_of k (q ! i)))"

lemma siblings_from_Cons:
  "{lr_rid ((r # rs) ! i) | i. siblings_from hit check k seen (r # rs) i} =
     (if eligible hit check k r \<and> claim_of k r \<in> seen then {lr_rid r} else {})
     \<union> {lr_rid (rs ! i) | i. siblings_from hit check k (if eligible hit check k r then insert (claim_of k r) seen else seen) rs i}"
  (is "?L = ?H \<union> ?R")
proof -
  have z: "siblings_from hit check k seen (r # rs) 0 \<longleftrightarrow> eligible hit check k r \<and> claim_of k r \<in> seen"
    by (simp add: siblings_from_def)
  have s: "siblings_from hit check k seen (r # rs) (Suc i) \<longleftrightarrow>
      siblings_from hit check k (if eligible hit check k r then insert (claim_of k r) seen else seen) rs i" for i
    by (auto simp: siblings_from_def less_Suc_eq_0_disj)
  show ?thesis
  proof (intro equalityI subsetI)
    fix x assume "x \<in> ?L"
    then obtain i where i: "x = lr_rid ((r # rs) ! i)" "siblings_from hit check k seen (r # rs) i" by blast
    then show "x \<in> ?H \<union> ?R" using z s by (cases i) auto
  next
    fix x assume "x \<in> ?H \<union> ?R"
    then show "x \<in> ?L"
    proof
      assume "x \<in> ?H"
      then have "x = lr_rid ((r # rs) ! 0)" "siblings_from hit check k seen (r # rs) 0" using z by (auto split: if_splits)
      then show ?thesis by blast
    next
      assume "x \<in> ?R"
      then obtain i where "x = lr_rid ((r # rs) ! Suc i)" "siblings_from hit check k seen (r # rs) (Suc i)" using s by auto
      then show ?thesis by blast
    qed
  qed
qed

lemma claim_loop_eq:
  "claim_loop hit check k seen dep q = dep \<union> {lr_rid (q ! i) | i. siblings_from hit check k seen q i}"
proof (induction q arbitrary: seen dep)
  case Nil
  then show ?case by (simp add: siblings_from_def)
next
  case (Cons r rs)
  have e: "claim_loop hit check k seen dep (r # rs) =
      (if eligible hit check k r \<and> claim_of k r \<in> seen then claim_loop hit check k seen (insert (lr_rid r) dep) rs
       else claim_loop hit check k (if eligible hit check k r then insert (claim_of k r) seen else seen) dep rs)"
    by (simp add: eligible_def claim_of_def Let_def)
  show ?case unfolding e siblings_from_Cons using Cons.IH by (auto simp: insert_absorb)
qed

lemma in_batch_deprioritize_eq:
  "in_batch_deprioritize hit check k q =
     (if check < 0 \<or> k < 0 then {} else {lr_rid (q ! i) | i. sibling_at hit check (nat k) q i})"
  by (simp add: in_batch_deprioritize_def claim_loop_eq siblings_from_def sibling_at_def)

section \<open>The LPM sort\<close>

lemma sort_key_map: "sort_key f (map g ys) = map g (sort_key (\<lambda>x. f (g x)) ys)"
  by (induction ys) (simp_all add: insort_key_map)

lemma sort_key_agree: "(\<And>x. x \<in> set xs \<Longrightarrow> f x = g x) \<Longrightarrow> sort_key f xs = sort_key g xs"
proof (induction xs)
  case (Cons x xs)
  have "insort_key f x ys = insort_key g x ys" if "set ys \<subseteq> set xs" for ys
    using that Cons.prems by (induction ys) auto
  then show ?case using Cons by simp
qed simp

lemma sort_by_index:
  "map ((!) q) (sort_key (\<lambda>i. f (q ! i)) [0..<length q]) = sort_key f q"
  using sort_key_map [of f "(!) q" "[0..<length q]"] by (simp add: map_nth)

lemma lpm_sort_order_eq:
  "map ((!) q) (lpm_sort_order (map f q)) = sort_key (\<lambda>r. lpm_cmp_key (f r)) q"
proof -
  have "sort_key (\<lambda>i. lpm_cmp_key (map f q ! i)) [0..<length q] = sort_key (\<lambda>i. lpm_cmp_key (f (q ! i))) [0..<length q]"
    by (rule sort_key_agree) simp
  then show ?thesis using sort_by_index [of q "\<lambda>r. lpm_cmp_key (f r)"] by (simp add: lpm_sort_order_def)
qed

lemma lpm_mode_order:
  "fst (peek_sort (sp\<lparr>lpm_only := True\<rparr>) ids info hits q) =
     sort_key (\<lambda>r. if lr_rid r \<in> snd (peek_sort (sp\<lparr>lpm_only := True\<rparr>) ids info hits q) then (1 :: nat, 0)
                   else (0, - main_hit ids hits r)) q
   \<and> snd (peek_sort (sp\<lparr>lpm_only := True\<rparr>) ids info hits q) =
     (if check_thr sp < 0 \<or> depr_thr sp < 0 then {}
      else {lr_rid (q ! i) | i. sibling_at (main_hit ids hits) (check_thr sp) (nat (depr_thr sp)) q i})"
  by (simp add: peek_sort_def Let_def lpm_sort_order_eq lpm_cmp_key_def in_batch_deprioritize_eq)

text \<open>
  In LPM mode the sort through the compiled order is exactly Python's stable sort by
  \<open>inf\<close> for the deprioritized requests and \<open>-hit\<close> for the others; a request id is deprioritized
  exactly when a cold request with it shares its first threshold tokens with an earlier cold one.
\<close>

lemma lpm_mode_is_stock_order:
  "fst (peek_sort (sp\<lparr>lpm_only := True\<rparr>) ids info hits q) =
     sort_key (\<lambda>r. if lr_rid r \<in> snd (peek_sort (sp\<lparr>lpm_only := True\<rparr>) ids info hits q) then (1 :: nat, 0)
                   else (0, - main_hit ids hits r)) q
   \<and> snd (peek_sort (sp\<lparr>lpm_only := True\<rparr>) ids info hits q) =
     (if check_thr sp < 0 \<or> depr_thr sp < 0 then {}
      else {lr_rid (q ! i) | i. sibling_at (main_hit ids hits) (check_thr sp) (nat (depr_thr sp)) q i})"
  by (rule lpm_mode_order)

lemma mset_peek_sort: "mset (fst (peek_sort sp ids info hits q)) = mset q"
  by (simp add: peek_sort_def Let_def lpm_sort_order_eq)

interpretation online_lpm: queue_reorder "\<lambda>q. fst (peek_sort sp ids info hits q)"
  by unfold_locales (rule mset_peek_sort)

section \<open>Stride interleaving\<close>

text \<open>What a lane has passed has been admitted.\<close>

definition lane_ok :: "nat \<Rightarrow> nat list \<Rightarrow> nat list \<Rightarrow> bool" where
  "lane_ok n rest order \<longleftrightarrow> set rest \<subseteq> {..<n} \<and> {..<n} \<subseteq> set rest \<union> set order"

lemma lane_step:
  assumes "lane_ok n rest order" and "distinct order" and "set order \<subseteq> {..<n}" and "length order < n"
  obtains i rest' where "dropWhile (\<lambda>i. i \<in> set order) rest = i # rest'" and "i \<notin> set order" and "i < n"
    and "lane_ok n rest' (order @ [i])"
proof -
  have "card (set order) < n" using assms(2,4) by (simp add: distinct_card)
  then have "\<not> {..<n} \<subseteq> set order" by (metis card_lessThan card_mono finite_set not_less)
  then obtain j where j: "j < n" "j \<notin> set order" by auto
  then have "j \<in> set rest" using assms(1) by (auto simp: lane_ok_def)
  then have "dropWhile (\<lambda>i. i \<in> set order) rest \<noteq> []" using j(2) by (auto simp: dropWhile_eq_Nil_conv)
  then obtain i rest' where d: "dropWhile (\<lambda>i. i \<in> set order) rest = i # rest'" by (meson neq_Nil_conv)
  have i: "i \<notin> set order" using d by (metis dropWhile_eq_Cons_conv)
  have split: "rest = takeWhile (\<lambda>i. i \<in> set order) rest @ i # rest'" using d by (metis takeWhile_dropWhile_id)
  have tw: "set (takeWhile (\<lambda>i. i \<in> set order) rest) \<subseteq> set order" by (auto dest: set_takeWhileD)
  have "set rest = set (takeWhile (\<lambda>i. i \<in> set order) rest) \<union> insert i (set rest')"
    by (subst split) simp
  then have "i < n" "lane_ok n rest' (order @ [i])" using assms(1) tw by (auto simp: lane_ok_def)
  then show ?thesis using that d i by blast
qed

lemma stride_loop_ok:
  assumes "lane_ok n a order" and "lane_ok n b order" and "distinct order" and "set order \<subseteq> {..<n}"
  shows "\<exists>res. stride_loop n sa sb (Some ca) (Some cb) a b order = Some res \<and> distinct res \<and> set res = {..<n}"
  using assms
proof (induction "n - length order" arbitrary: a b order ca cb rule: less_induct)
  case less
  have len: "length order \<le> n" using less.prems(3,4) by (metis card_lessThan card_mono distinct_card finite_lessThan)
  show ?case
  proof (cases "n \<le> length order")
    case True
    then have "set order = {..<n}" using len less.prems(3,4) by (metis card_lessThan card_subset_eq distinct_card finite_lessThan le_antisym)
    then show ?thesis using True less.prems(3) by (subst stride_loop.simps) simp
  next
    case False
    then have lt: "length order < n" by simp
    have dec: "n - length (order @ [i]) < n - length order" for i using lt by simp
    show ?thesis
    proof (cases "ca \<le> cb")
      case True
      obtain i rest where r: "dropWhile (\<lambda>i. i \<in> set order) a = i # rest" "i \<notin> set order" "i < n" "lane_ok n rest (order @ [i])"
        using lane_step [OF less.prems(1,3,4) lt] by blast
      have b: "lane_ok n b (order @ [i])" using less.prems(2) by (auto simp: lane_ok_def)
      have "\<exists>res. stride_loop n sa sb (Some (fadd ca sa)) (Some cb) rest b (order @ [i]) = Some res \<and> distinct res \<and> set res = {..<n}"
        by (rule less.hyps [OF dec r(4) b]) (use less.prems(3,4) r(2,3) in auto)
      then show ?thesis using False True r(1) by (subst stride_loop.simps) (simp add: clock_le_def)
    next
      case F: False
      obtain i rest where r: "dropWhile (\<lambda>i. i \<in> set order) b = i # rest" "i \<notin> set order" "i < n" "lane_ok n rest (order @ [i])"
        using lane_step [OF less.prems(2,3,4) lt] by blast
      have a: "lane_ok n a (order @ [i])" using less.prems(1) by (auto simp: lane_ok_def)
      have "\<exists>res. stride_loop n sa sb (Some ca) (Some (fadd cb sb)) a rest (order @ [i]) = Some res \<and> distinct res \<and> set res = {..<n}"
        by (rule less.hyps [OF dec a r(4)]) (use less.prems(3,4) r(2,3) in auto)
      then show ?thesis using False F r(1) by (subst stride_loop.simps) (simp add: clock_le_def)
    qed
  qed
qed

lemma mset_upt_iff: "mset xs = mset [0..<n] \<longleftrightarrow> distinct xs \<and> set xs = {..<n}"
  by (metis atLeast_upt distinct_upt mset_eq_imp_distinct_iff set_eq_iff_mset_eq_distinct set_mset_mset)

lemma interleave_ok:
  assumes "mset a = mset [0..<n]" and "mset b = mset [0..<n]"
  shows "\<exists>order. interleave share a b = Some order \<and> mset order = mset [0..<n]"
proof -
  have l: "length a = n" using assms(1) by (metis diff_zero length_upt size_mset)
  have "lane_ok n a []" "lane_ok n b []" using assms unfolding mset_upt_iff by (auto simp: lane_ok_def)
  then have s: "\<exists>order. stride_loop n sa sb (Some ca) (Some cb) a b [] = Some order \<and> mset order = mset [0..<n]" for sa sb ca cb
    unfolding mset_upt_iff by (rule stride_loop_ok) simp_all
  consider "interleave share a b = Some a" | "interleave share a b = Some b"
    | sa sb ca cb where "interleave share a b = stride_loop n sa sb (Some ca) (Some cb) a b []"
    unfolding interleave_def Let_def l by (metis (full_types))
  then show ?thesis using assms s by cases auto
qed

lemma mset_lane_a: "mset (lane_a_order gm metas) = mset [0..<length metas]"
proof (cases gm)
  case True
  have s: "mset (concat (map (\<lambda>b. sort_key g (snd b)) bs)) = mset (concat (map snd bs))" for g :: "nat \<Rightarrow> int \<times> int" and bs :: "((nat \<times> group_key) \<times> nat list) list"
    by (induction bs) auto
  let ?g = "group_by (\<lambda>i. (lm_section (metas ! i), lm_key (metas ! i))) [0..<length metas]"
  have "mset (concat (map snd (sort_key (bucket_rank metas) ?g))) = mset (concat (dvals ?g))"
    by (rule mset_concat_perm) simp
  then show ?thesis using True by (simp add: lane_a_order_def Let_def s)
qed (simp add: lane_a_order_def Let_def)

lemma map_nth_perm: "mset order = mset [0..<length q] \<Longrightarrow> mset (map ((!) q) order) = mset q"
  by (rule mset_map_nth_perm)

lemma clpm_sort_runs:
  "\<exists>q' dep dyn'. peek_clpm_sort cp tree_id ids info scores hits clock arrival q dyn = Some (q', dep, dyn')
     \<and> mset q' = mset q \<and> (dyn' = dyn \<or> (\<exists>b. cl_dynamic cp \<and> q \<noteq> [] \<and> dyn' = dset tree_id b dyn))"
proof -
  obtain sec dep where s: "section_loop (main_hit ids hits) (cl_check cp) (cl_depr cp) {} [] {} q = (sec, dep)"
    by (cases "section_loop (main_hit ids hits) (cl_check cp) (cl_depr cp) {} [] {} q")
  let ?now = "clpm_now cp arrival clock"
  let ?metas = "map (meta_of cp sec info scores ids (main_hit ids hits) ?now arrival) q"
  have a: "mset (lane_a_order (cl_group_major cp) ?metas) = mset [0..<length q]" using mset_lane_a [of _ ?metas] by simp
  have b: "mset (lane_b_order ?metas) = mset [0..<length q]" by (simp add: lane_b_order_def)
  let ?sm = "dynamic_share cp info ids ?now arrival q (dget_or dyn tree_id (fl (3 / 10)))"
  let ?share = "if cl_dynamic cp \<and> q \<noteq> [] then fsub 1 ?sm else cl_big_share cp"
  obtain order where o: "interleave ?share (lane_a_order (cl_group_major cp) ?metas) (lane_b_order ?metas) = Some order"
    "mset order = mset [0..<length q]" using interleave_ok [OF a b] by blast
  let ?dyn = "if cl_dynamic cp \<and> q \<noteq> [] then dset tree_id ?sm dyn else dyn"
  have "peek_clpm_sort cp tree_id ids info scores hits clock arrival q dyn = Some (map ((!) q) order, dep, ?dyn)"
    using o(1) by (simp add: peek_clpm_sort_def Let_def s)
  moreover have "mset (map ((!) q) order) = mset q" by (rule map_nth_perm [OF o(2)])
  moreover have "?dyn = dyn \<or> (\<exists>b. cl_dynamic cp \<and> q \<noteq> [] \<and> ?dyn = dset tree_id b dyn)" by auto
  ultimately show ?thesis by blast
qed

text \<open>
  C29: Cluster-LPM returns for every input, whatever the floats of the lane share are, and yields
  exactly the requests of the queue; the lane state changes only for this tree, in dynamic mode,
  and on a non-empty queue.
\<close>

theorem clpm_sort_total:
  "\<exists>q' dep dyn'. peek_clpm_sort cp tree_id ids info scores hits clock arrival q dyn = Some (q', dep, dyn')
     \<and> mset q' = mset q \<and> (dyn' = dyn \<or> (\<exists>b. cl_dynamic cp \<and> q \<noteq> [] \<and> dyn' = dset tree_id b dyn))"
  by (rule clpm_sort_runs)

text \<open>Without the ranking, ties go by id: not the stock order, in which arrival decides.\<close>

lemma rank_off_is_not_stock:
  "\<exists>a b :: lpm_req. fst (peek_sort \<lparr>check_thr = 32, depr_thr = 32, by_cluster = False, lpm_only = False\<rparr> [] [] None [b, a]) = [a, b]
     \<and> fst (peek_sort \<lparr>check_thr = 32, depr_thr = 32, by_cluster = False, lpm_only = True\<rparr> [] [] None [b, a]) = [b, a]"
proof -
  have "fst (peek_sort \<lparr>check_thr = 32, depr_thr = 32, by_cluster = False, lpm_only = False\<rparr> [] [] None
       [\<lparr>lr_rid = ''b'', lr_prefix = None, lr_input = [2], lr_output = None\<rparr>, \<lparr>lr_rid = ''a'', lr_prefix = None, lr_input = [1], lr_output = None\<rparr>])
     = [\<lparr>lr_rid = ''a'', lr_prefix = None, lr_input = [1], lr_output = None\<rparr>, \<lparr>lr_rid = ''b'', lr_prefix = None, lr_input = [2], lr_output = None\<rparr>]
    \<and> fst (peek_sort \<lparr>check_thr = 32, depr_thr = 32, by_cluster = False, lpm_only = True\<rparr> [] [] None
       [\<lparr>lr_rid = ''b'', lr_prefix = None, lr_input = [2], lr_output = None\<rparr>, \<lparr>lr_rid = ''a'', lr_prefix = None, lr_input = [1], lr_output = None\<rparr>])
     = [\<lparr>lr_rid = ''b'', lr_prefix = None, lr_input = [2], lr_output = None\<rparr>, \<lparr>lr_rid = ''a'', lr_prefix = None, lr_input = [1], lr_output = None\<rparr>]"
    by code_simp
  then show ?thesis by blast
qed

section \<open>The dynamic share\<close>

lemma fl_dyadic:
  assumes "0 < n" and "n < 2 ^ 53" and "m \<le> 1000"
  shows "fl (of_int n / 2 ^ m) = of_int n / 2 ^ m"
proof -
  define x :: rat where "x = of_int n / 2 ^ m"
  define u where "u = ulp_exp x"
  have pos: "0 < x" using assms(1) by (simp add: x_def)
  have "2 powi rlog2 x \<le> x" using rlog2_bounds [OF pos] by auto
  also have "x < of_int (2 ^ 53) / 2 ^ m" unfolding x_def
    by (rule divide_strict_right_mono) (use assms(2) in \<open>simp_all only: of_int_less_iff zero_less_power zero_less_numeral\<close>)
  also have "(of_int (2 ^ 53) / 2 ^ m :: rat) = 2 powi (53 - int m)" by (simp add: power_int_diff)
  finally have "rlog2 x < 53 - int m" by (rule powi_two_less_cancel)
  then have "u \<le> - int m" using assms(3) by (auto simp: u_def ulp_exp_def)
  then obtain k where k: "u = - int (m + k)" using that [of "nat (- u) - m"] by (simp add: of_nat_diff)
  have "(2 :: rat) powi u = inverse (2 ^ (m + k))" unfolding k power_int_minus power_int_of_nat ..
  then have e: "x / 2 powi u = of_int (n * 2 ^ k)"
    by (simp add: x_def power_add divide_inverse)
  have "fl_pos x = of_int (n * 2 ^ k) * 2 powi u"
    unfolding fl_pos_def u_def [symmetric] e by (simp only: round_half_even_of_int)
  also have "\<dots> = x" unfolding e [symmetric] by simp
  finally show ?thesis using pos by (simp add: fl_def x_def)
qed

text \<open>Bounds that absorb the rounding: a sixteenth and five eighths.\<close>

lemma fl_bounds:
  "11 / 16 \<le> fl (7 / 10)" "fl (7 / 10) \<le> 45 / 64" "9 / 32 \<le> fl (3 / 10)" "fl (3 / 10) \<le> 77 / 256"
  "3 / 32 \<le> fl (1 / 10)" "fl (6 / 10) \<le> 39 / 64"
proof -
  have d: "fl (11 / 16) = 11 / 16" "fl (45 / 64) = 45 / 64" "fl (9 / 32) = 9 / 32" "fl (77 / 256) = 77 / 256"
    "fl (3 / 32) = 3 / 32" "fl (39 / 64) = 39 / 64"
    using fl_dyadic [of 11 4] fl_dyadic [of 45 6] fl_dyadic [of 9 5] fl_dyadic [of 77 8] fl_dyadic [of 3 5] fl_dyadic [of 39 6]
    by simp_all
  have "fl (11 / 16) \<le> fl (7 / 10)" "fl (7 / 10) \<le> fl (45 / 64)" "fl (9 / 32) \<le> fl (3 / 10)" "fl (3 / 10) \<le> fl (77 / 256)"
    "fl (3 / 32) \<le> fl (1 / 10)" "fl (6 / 10) \<le> fl (39 / 64)" by (rule fl_mono, simp)+
  then show "11 / 16 \<le> fl (7 / 10)" "fl (7 / 10) \<le> 45 / 64" "9 / 32 \<le> fl (3 / 10)" "fl (3 / 10) \<le> 77 / 256"
    "3 / 32 \<le> fl (1 / 10)" "fl (6 / 10) \<le> 39 / 64" unfolding d by blast+
qed

lemma raw_share_bounds: "3 / 32 \<le> raw_share sf ap \<and> raw_share sf ap \<le> 39 / 64"
proof -
  have "fl (1 / 10) \<le> fl (6 / 10)" by (rule fl_mono) simp
  then show ?thesis using fl_bounds(5,6) by (auto simp: raw_share_def)
qed

lemma fmul_mono: "0 \<le> a \<Longrightarrow> a \<le> a' \<Longrightarrow> 0 \<le> b \<Longrightarrow> b \<le> b' \<Longrightarrow> fmul a b \<le> fmul a' b'"
  by (simp add: fmul_def fl_mono mult_mono)

lemma smooth_share_bounds:
  assumes "1 / 16 \<le> prev" and "prev \<le> 5 / 8"
  shows "1 / 16 \<le> smooth_share prev (raw_share sf ap) \<and> smooth_share prev (raw_share sf ap) \<le> 5 / 8"
proof -
  let ?r = "raw_share sf ap"
  have d: "fl (11 / 256) = 11 / 256" "fl (27 / 1024) = 27 / 1024" "fl (225 / 512) = 225 / 512" "fl (3003 / 16384) = 3003 / 16384"
    "fl (1 / 16) = 1 / 16" "fl (5 / 8) = 5 / 8"
    using fl_dyadic [of 11 8] fl_dyadic [of 27 10] fl_dyadic [of 225 9] fl_dyadic [of 3003 14] fl_dyadic [of 1 4] fl_dyadic [of 5 3]
    by simp_all
  note b = fl_bounds raw_share_bounds [of sf ap]
  have "fmul (11 / 16) (1 / 16) \<le> fmul (fl (7 / 10)) prev" "fmul (fl (7 / 10)) prev \<le> fmul (45 / 64) (5 / 8)"
    "fmul (9 / 32) (3 / 32) \<le> fmul (fl (3 / 10)) ?r" "fmul (fl (3 / 10)) ?r \<le> fmul (77 / 256) (39 / 64)"
    using b assms by (auto intro!: fmul_mono)
  then have m: "11 / 256 \<le> fmul (fl (7 / 10)) prev" "fmul (fl (7 / 10)) prev \<le> 225 / 512"
    "27 / 1024 \<le> fmul (fl (3 / 10)) ?r" "fmul (fl (3 / 10)) ?r \<le> 3003 / 16384"
    using d by (simp_all add: fmul_def)
  have "fl (1 / 16) \<le> fl (fmul (fl (7 / 10)) prev + fmul (fl (3 / 10)) ?r)" by (rule fl_mono) (use m in simp)
  moreover have "fl (fmul (fl (7 / 10)) prev + fmul (fl (3 / 10)) ?r) \<le> fl (5 / 8)"
    by (rule fl_mono) (use add_mono [OF m(2,4)] in simp)
  ultimately show ?thesis using d by (simp add: smooth_share_def fadd_def)
qed

definition lane_state_ok :: "(int, pyfloat) pydict \<Rightarrow> bool" where
  "lane_state_ok dyn \<longleftrightarrow> (\<forall>k b. dget dyn k = Some b \<longrightarrow> 1 / 16 \<le> b \<and> b \<le> 5 / 8)"

lemma lane_state_dset: "lane_state_ok dyn \<Longrightarrow> 1 / 16 \<le> b \<and> b \<le> 5 / 8 \<Longrightarrow> lane_state_ok (dset k b dyn)"
  by (simp add: lane_state_ok_def dict_simps)

text \<open>
  C30: The dynamic lane controller keeps every stored share between 1/16 and 5/8, rounding
  included, so neither lane is ever switched off by it and the fairness lane always has a share.
\<close>

theorem lane_state_invariant:
  assumes "lane_state_ok dyn"
    and "peek_clpm_sort cp tree_id ids info scores hits clock arrival q dyn = Some (q', dep, dyn')"
  shows "lane_state_ok dyn'"
proof -
  have "1 / 16 \<le> dget_or dyn tree_id (fl (3 / 10)) \<and> dget_or dyn tree_id (fl (3 / 10)) \<le> 5 / 8"
    using assms(1) fl_bounds(3,4) by (auto simp: lane_state_ok_def dget_or_def split: option.splits)
  then have s: "1 / 16 \<le> dynamic_share cp info ids now arrival q (dget_or dyn tree_id (fl (3 / 10)))
      \<and> dynamic_share cp info ids now arrival q (dget_or dyn tree_id (fl (3 / 10))) \<le> 5 / 8" for now
    using smooth_share_bounds by (simp add: dynamic_share_def Let_def)
  have "dyn' = dyn \<or> (\<exists>now. dyn' = dset tree_id (dynamic_share cp info ids now arrival q (dget_or dyn tree_id (fl (3 / 10)))) dyn)"
    using assms(2) by (auto simp: peek_clpm_sort_def Let_def case_prod_beta split: if_splits)
  then show ?thesis using assms(1) s lane_state_dset by metis
qed

definition sample_clpm :: clpm_params where
  "sample_clpm = \<lparr>cl_check = 32, cl_depr = 32, cl_age_alpha = 0, cl_big_share = fl (7 / 10), cl_group_major = True,
     cl_dynamic = True, cl_slo = 2\<rparr>"

definition sample_lpm :: "string \<Rightarrow> int list \<Rightarrow> lpm_req" where
  "sample_lpm r ids = \<lparr>lr_rid = r, lr_prefix = None, lr_input = ids, lr_output = None\<rparr>"

theorem lane_state_invariant_witness:
  "\<exists>q' dep dyn'. peek_clpm_sort sample_clpm 1 [(''a'', 0)] [(0, None)] [] None 5 [] [sample_lpm ''a'' [1], sample_lpm ''b'' [2]] []
     = Some (q', dep, dyn') \<and> lane_state_ok dyn'"
proof -
  let ?q = "[sample_lpm ''a'' [1], sample_lpm ''b'' [2]]"
  obtain q' dep dyn' where r: "peek_clpm_sort sample_clpm 1 [(''a'', 0)] [(0, None)] [] None 5 [] ?q [] = Some (q', dep, dyn')"
    using clpm_sort_runs by blast
  moreover have "lane_state_ok []" by (simp add: lane_state_ok_def)
  ultimately show ?thesis using lane_state_invariant by blast
qed

end
