(* ===== verification/Cache_Match.thy ===== *)
theory Cache_Match
  imports Radix_Props Pending_Spec
begin

text \<open>
  The walk of the online hook through the server's radix cache (\<open>_cache_match\<close> in
  \<open>src/python/peek/online/engines/sglang/patch_hook.py\<close>): how many tokens of a list the cache holds.
  The hook runs on SGLang's \<open>RadixCache\<close>; the copy of that class under \<open>src/\<close> is the one modelled.
  The walk agrees with the cache's own match for requests without an extra key on a cache of page
  size 1, it is not disturbed by the splits and the time stamps of other matches, and it meets the
  contract \<open>prefix_cache\<close> of the dual walk.
\<close>

section \<open>The walk\<close>

text \<open>
  \<open>toks\<close> is \<open>tokens[consumed:]\<close>. The dictionary is asked for the plain token, which is the key of a
  child without extra key on a cache of page size 1. A walk may fail to end on a heap that is no tree.
\<close>

partial_function (option) cache_match_loop :: "radix_cache \<Rightarrow> int list \<Rightarrow> nat \<Rightarrow> int \<Rightarrow> int option" where
  "cache_match_loop c toks cur consumed =
     (if toks = [] then Some consumed
      else case dget (rchildren (heap c cur)) (None, Tok (hd toks)) of
        None \<Rightarrow> Some consumed
      | Some child \<Rightarrow>
          let edge = token_ids (rkey (heap c child)); common = match_edge_len edge toks in
          if common < length edge then Some (consumed + int common)
          else cache_match_loop c (drop common toks) child (consumed + int common))"

declare cache_match_loop.simps [code]

definition cache_match :: "radix_cache \<Rightarrow> int list \<Rightarrow> int option" where
  "cache_match c toks = cache_match_loop c toks (root_node c) 0"

section \<open>How much of a list lies below a node\<close>

inductive lies_below :: "radix_cache \<Rightarrow> nat \<Rightarrow> int list \<Rightarrow> nat \<Rightarrow> bool" for c where
  below_end: "lies_below c n [] 0"
| below_none: "toks \<noteq> [] \<Longrightarrow> dget (rchildren (heap c n)) (None, Tok (hd toks)) = None \<Longrightarrow> lies_below c n toks 0"
| below_part: "toks \<noteq> [] \<Longrightarrow> dget (rchildren (heap c n)) (None, Tok (hd toks)) = Some ch \<Longrightarrow>
    edge = token_ids (rkey (heap c ch)) \<Longrightarrow> match_edge_len edge toks < length edge \<Longrightarrow>
    lies_below c n toks (match_edge_len edge toks)"
| below_full: "toks \<noteq> [] \<Longrightarrow> dget (rchildren (heap c n)) (None, Tok (hd toks)) = Some ch \<Longrightarrow>
    edge = token_ids (rkey (heap c ch)) \<Longrightarrow> match_edge_len edge toks = length edge \<Longrightarrow>
    lies_below c ch (drop (length edge) toks) m \<Longrightarrow>
    lies_below c n toks (length edge + m)"

inductive_cases lies_below_nilE: "lies_below c n [] m"
inductive_cases lies_belowE: "lies_below c n toks m"

lemma match_edge_whole: "match_edge_len edge toks = length edge \<Longrightarrow> toks = edge @ drop (length edge) toks"
  using match_edge_take [of edge toks] by (metis append_take_drop_id take_all order_refl)

lemma lies_below_walk: "lies_below c n toks m \<Longrightarrow> cache_match_loop c toks n k = Some (k + int m)"
proof (induction arbitrary: k rule: lies_below.induct)
  case (below_full toks n ch edge m)
  have "cache_match_loop c toks n k = cache_match_loop c (drop (length edge) toks) ch (k + int (length edge))"
    using below_full.hyps(1-4) by (subst cache_match_loop.simps) (simp add: Let_def)
  then show ?case using below_full.IH by simp
qed (subst cache_match_loop.simps, simp add: Let_def)+

lemma walk_lies_below: "cache_match_loop c toks n k = Some l \<Longrightarrow> \<exists>m. lies_below c n toks m \<and> l = k + int m"
proof (induction c toks n k l rule: cache_match_loop.raw_induct [rotated 1, consumes 1, case_names 1])
  case (1 loop c toks n k l)
  show ?case
  proof (cases "toks = [] \<or> dget (rchildren (heap c n)) (None, Tok (hd toks)) = None")
    case True
    then have "l = k" using "1.hyps" by (auto split: if_splits)
    moreover have "lies_below c n toks 0" using True by (cases "toks = []") (auto intro: lies_below.below_end lies_below.below_none)
    ultimately show ?thesis by auto
  next
    case False
    then obtain ch where ch: "dget (rchildren (heap c n)) (None, Tok (hd toks)) = Some ch" and ne: "toks \<noteq> []" by auto
    let ?edge = "token_ids (rkey (heap c ch))" and ?k = "match_edge_len (token_ids (rkey (heap c ch))) toks"
    show ?thesis
    proof (cases "?k < length ?edge")
      case True
      then show ?thesis using "1.hyps" ch ne below_part [OF ne ch refl True] by (auto simp: Let_def)
    next
      case f: False
      then have "loop c (drop ?k toks) ch (k + int ?k) = Some l" using "1.hyps" ch ne by (simp add: Let_def)
      then obtain m where m: "lies_below c ch (drop ?k toks) m" "l = k + int ?k + int m" using "1.IH" by blast
      have "?k = length ?edge" using f match_edge_le [of ?edge toks] by linarith
      then show ?thesis using below_full [OF ne ch refl] m by fastforce
    qed
  qed
qed

lemma cache_match_iff: "cache_match c toks = Some l \<longleftrightarrow> (\<exists>m. lies_below c (root_node c) toks m \<and> l = int m)"
  unfolding cache_match_def using walk_lies_below [of c toks "root_node c" 0 l] lies_below_walk [of c "root_node c" toks _ 0] by auto

lemma lies_below_le: "lies_below c n toks m \<Longrightarrow> m \<le> length toks"
proof (induction rule: lies_below.induct)
  case (below_full toks n ch edge m)
  then show ?case using match_edge_le [of edge toks] by simp
qed (simp_all add: match_edge_le)

lemma match_edge_stays:
  assumes "match_edge_len e p < length p" and "match_edge_len e p < length e"
  shows "match_edge_len e (p @ q) = match_edge_len e p"
  using assms by (induction e arbitrary: p) (case_tac p; auto)+

text \<open>A match that stops inside a list stops there in every longer list.\<close>

lemma lies_below_stop: "lies_below c n p m \<Longrightarrow> m < length p \<Longrightarrow> lies_below c n (p @ q) m"
proof (induction rule: lies_below.induct)
  case (below_part toks n ch edge)
  have e: "match_edge_len edge (toks @ q) = match_edge_len edge toks" by (rule match_edge_stays [OF below_part.prems below_part.hyps(4)])
  show ?case using below_part.hyps lies_below.below_part [of "toks @ q" c n ch edge] unfolding e by simp
next
  case (below_full toks n ch edge m)
  have le: "length edge \<le> length toks" using match_edge_le [of edge toks] below_full.hyps(4) by simp
  have "match_edge_len edge (toks @ q) = length edge" using below_full.hyps(4) by (simp add: match_edge_full)
  moreover have "lies_below c ch (drop (length edge) toks @ q) m" by (rule below_full.IH) (use below_full.prems le in simp)
  ultimately show ?case using below_full.hyps(1-3) le lies_below.below_full [of "toks @ q" c n ch edge m] by simp
qed (auto intro: lies_below.below_none)

lemma lies_below_shorter: "lies_below c n (p @ q) m \<Longrightarrow> \<exists>m'. lies_below c n p m'"
proof (induction "p @ q" m arbitrary: p rule: lies_below.induct)
  case (below_full n ch edge m)
  show ?case
  proof (cases "p = []")
    case False
    then have h: "hd (p @ q) = hd p" by simp
    show ?thesis
    proof (cases "length edge \<le> length p")
      case True
      then obtain m' where "lies_below c ch (drop (length edge) p) m'" using below_full.hyps(6) by force
      moreover have "match_edge_len edge p = length edge"
        using below_full.hyps(4) match_edge_len_take [of edge "length p" "p @ q"] True by simp
      ultimately show ?thesis using lies_below.below_full [OF False _ below_full.hyps(3)] below_full.hyps(2) h by auto
    next
      case f: False
      then have "match_edge_len edge p < length edge" using match_edge_le [of edge p] by linarith
      then show ?thesis using lies_below.below_part [OF False _ below_full.hyps(3)] below_full.hyps(2) h by auto
    qed
  qed (auto intro: lies_below.below_end)
next
  case (below_part n ch edge)
  show ?case
  proof (cases "p = []")
    case False
    then have h: "hd (p @ q) = hd p" by simp
    have "match_edge_len edge p < length edge"
      using below_part.hyps(4) match_edge_len_take [of edge "length p" "p @ q"] by simp
    then show ?thesis using lies_below.below_part [OF False _ below_part.hyps(3)] below_part.hyps(2) h by auto
  qed (auto intro: lies_below.below_end)
next
  case (below_none n)
  then show ?case using lies_below.below_none [of p c n] by (cases "p = []") (auto intro: lies_below.below_end)
qed (auto intro: lies_below.below_end)

section \<open>The contract of the dual walk\<close>

definition cache_hit :: "radix_cache \<Rightarrow> int list \<Rightarrow> int" where
  "cache_hit c toks = (case cache_match c toks of None \<Rightarrow> 0 | Some l \<Rightarrow> l)"

interpretation server_cache: prefix_cache "cache_hit c"
proof
  fix p q
  show "0 \<le> cache_hit c p \<and> cache_hit c p \<le> int (length p)"
    using cache_match_iff [of c p] lies_below_le by (force simp: cache_hit_def split: option.splits)
  show "cache_hit c (p @ q) = cache_hit c p" if "cache_hit c p < int (length p)"
  proof (cases "cache_match c p")
    case (Some l)
    then obtain m where "lies_below c (root_node c) p m" "l = int m" using cache_match_iff by blast
    then have "cache_match c (p @ q) = Some l"
      using that Some lies_below_stop cache_match_iff by (fastforce simp: cache_hit_def)
    then show ?thesis using Some by (simp add: cache_hit_def)
  next
    case None
    have "cache_match c (p @ q) = None"
    proof (cases "cache_match c (p @ q)")
      case (Some l)
      then obtain m where "lies_below c (root_node c) p m" using cache_match_iff lies_below_shorter by metis
      then show ?thesis using None cache_match_iff [of c p "int m"] by auto
    qed
    then show ?thesis using None by (simp add: cache_hit_def)
  qed
qed

section \<open>Matches of other requests do not disturb the walk\<close>

definition undisturbed :: "nat set \<Rightarrow> radix_cache \<Rightarrow> radix_cache \<Rightarrow> bool" where
  "undisturbed S c c' \<longleftrightarrow> (\<forall>n \<in> S. \<forall>toks m. lies_below c n toks m \<longrightarrow> lies_below c' n toks m)"

lemma undisturbed_trans: "undisturbed S c c' \<Longrightarrow> undisturbed S' c' c'' \<Longrightarrow> S \<subseteq> S' \<Longrightarrow> undisturbed S c c''"
  unfolding undisturbed_def by blast

lemma lies_below_same: "lies_below c n toks m \<Longrightarrow> same_tree c c' \<Longrightarrow> lies_below c' n toks m"
  by (induction rule: lies_below.induct) (auto simp: same_tree_fields intro: lies_below.intros)

lemma undisturbed_same: "same_tree c c' \<Longrightarrow> undisturbed S c c'"
  by (auto simp: undisturbed_def lies_below_same)

lemma match_edge_commute: "match_edge_len e t = match_edge_len t e"
proof (induction e arbitrary: t)
  case (Cons x e)
  then show ?case by (cases t) auto
qed simp

lemma match_edge_drop: "k \<le> match_edge_len e t \<Longrightarrow> match_edge_len (drop k e) (drop k t) = match_edge_len e t - k"
proof (induction e arbitrary: k t)
  case (Cons x e)
  then show ?case by (cases t; cases k) (auto split: if_splits)
qed simp

lemma match_edge_take_left: "match_edge_len (take l e) t = min l (match_edge_len e t)"
  using match_edge_len_take [of t l e] by (simp add: match_edge_commute)

text \<open>Below a node whose only child carries the rest of a split edge.\<close>

lemma below_lower:
  assumes k: "k < length e" "k \<le> match_edge_len e toks" and key: "token_ids (rkey (heap c ch)) = drop k e"
    and only: "rchildren (heap c n) = [((None, Tok (hd (drop k e))), ch)]"
  shows "match_edge_len e toks < length e \<Longrightarrow> lies_below c n (drop k toks) (match_edge_len e toks - k)"
    and "match_edge_len e toks = length e \<Longrightarrow> lies_below c ch (drop (length e) toks) m \<Longrightarrow>
      lies_below c n (drop k toks) (length e - k + m)"
proof -
  note le = match_edge_le [of e toks]
  have hd: "hd (drop k e) = e ! k" using k by (simp add: hd_drop_conv_nth)
  have len: "match_edge_len (drop k e) (drop k toks) = match_edge_len e toks - k" by (rule match_edge_drop [OF k(2)])
  show "lies_below c n (drop k toks) (match_edge_len e toks - k)" if part: "match_edge_len e toks < length e"
  proof (cases "match_edge_len e toks = k")
    case True
    show ?thesis
    proof (cases "drop k toks = []")
      case False
      then have "e ! k \<noteq> hd (drop k toks)" using match_edge_stop [OF part] True le by (simp add: hd_drop_conv_nth)
      then show ?thesis using below_none [OF False] only hd True by auto
    qed (use True in \<open>simp add: below_end\<close>)
  next
    case False
    then have lt: "k < match_edge_len e toks" using k(2) by simp
    have ne: "drop k toks \<noteq> []" using lt le by auto
    have "take (match_edge_len e toks) e ! k = take (match_edge_len e toks) toks ! k" using match_edge_take [of e toks] by simp
    then have "hd (drop k toks) = e ! k" using lt ne by (simp add: hd_drop_conv_nth)
    then have "dget (rchildren (heap c n)) (None, Tok (hd (drop k toks))) = Some ch" using only hd by simp
    from below_part [OF ne this key [symmetric]] show ?thesis using len part k by simp
  qed
  show "lies_below c n (drop k toks) (length e - k + m)" if full: "match_edge_len e toks = length e"
    and b: "lies_below c ch (drop (length e) toks) m"
  proof -
    have ne: "drop k toks \<noteq> []" using full k le by auto
    have "take (length e) e ! k = take (length e) toks ! k" using match_edge_take [of e toks] full by simp
    then have "hd (drop k toks) = e ! k" using k ne by (simp add: hd_drop_conv_nth)
    then have d: "dget (rchildren (heap c n)) (None, Tok (hd (drop k toks))) = Some ch" using only hd by simp
    have "lies_below c ch (drop (length (drop k e)) (drop k toks)) m" using b k by simp
    from below_full [OF ne d key [symmetric] _ this] show ?thesis using len full by simp
  qed
qed

lemma undisturbed_split:
  assumes pg: "page_size cfg = 1" and t: "tree_ok cfg S c" and ch: "child \<in> S" "child \<noteq> root_node c"
    and p: "rparent (heap c child) = Some p" and k: "0 < k" "k < key_len (rkey (heap c child))"
    and new: "new = counter c" and sp: "split_ok cfg p child new k c c'"
  shows "undisturbed S c c'"
proof -
  note sd = sp [unfolded split_ok_def]
  define e where "e = token_ids (rkey (heap c child))"
  define l where "l = nat k"
  have l: "0 < l" "l < length e" using k by (auto simp: l_def e_def key_len_def)
  have nS: "new \<notin> S" using t by (auto simp: tree_ok_def new)
  have pS: "p \<in> S" and pc: "dget (rchildren (heap c p)) (ckey cfg c child) = Some child"
    using tree_ok_nodeD [OF t ch] p by (metis option.inject)+
  have pch: "p \<noteq> child" using depth_less_parent [OF t ch p] by auto
  have key: "rkey (heap c' n) = rkey (heap c n)" if "n \<in> S" "n \<noteq> child" for n
    using sd that nS by (cases "n = p") auto
  have look: "dget (rchildren (heap c' n)) q = (if n = p \<and> q = ckey cfg c child then Some new else dget (rchildren (heap c n)) q)"
    if "n \<in> S" for n q
  proof (cases "n = p")
    case True
    then show ?thesis using sd by (simp add: dict_simps)
  next
    case False
    then have "rchildren (heap c' n) = rchildren (heap c n)" using sd that nS by (cases "n = child") auto
    then show ?thesis using False by simp
  qed
  have upper: "token_ids (rkey (heap c' new)) = take l e" using sd by (simp add: key_take_def e_def l_def)
  have lower: "token_ids (rkey (heap c' child)) = drop l e" using sd by (simp add: key_drop_def e_def l_def)
  have "lies_below c n toks m \<Longrightarrow> n \<in> S \<Longrightarrow> lies_below c' n toks m" for n toks m
  proof (induction rule: lies_below.induct)
    case (below_none toks n)
    then have "dget (rchildren (heap c' n)) (None, Tok (hd toks)) = None" using look pc by auto
    then show ?case by (rule lies_below.below_none [OF below_none.hyps(1)])
  next
    case (below_part toks n ch' edge)
    note f = tree_ok_childD [OF t below_part.prems below_part.hyps(2)]
    show ?case
    proof (cases "ch' = child")
      case True
      then have n: "n = p" "(None, Tok (hd toks)) = ckey cfg c child" "edge = e"
        using f p below_part.hyps(3) by (auto simp: e_def)
      have d: "dget (rchildren (heap c' n)) (None, Tok (hd toks)) = Some new" using look [OF pS] n by simp
      have only: "rchildren (heap c' new) = [((None, Tok (hd (drop l e))), child)]"
        using sd n(2) pg by (simp add: get_child_key_def key_drop_def e_def l_def)
      show ?thesis
      proof (cases "match_edge_len e toks < l")
        case True
        then have "match_edge_len (take l e) toks = match_edge_len e toks" by (simp add: match_edge_take_left)
        then show ?thesis using lies_below.below_part [OF below_part.hyps(1) d upper [symmetric]] True l n(3) by simp
      next
        case False
        then have full: "match_edge_len (take l e) toks = length (take l e)" using l by (simp add: match_edge_take_left)
        have "lies_below c' new (drop l toks) (match_edge_len e toks - l)"
          by (rule below_lower(1) [OF l(2) _ lower only]) (use False below_part.hyps(4) n(3) in auto)
        from lies_below.below_full [OF below_part.hyps(1) d upper [symmetric] full] this
        have "lies_below c' n toks (length (take l e) + (match_edge_len e toks - l))" using l by simp
        moreover have "length (take l e) + (match_edge_len e toks - l) = match_edge_len edge toks" using False l n(3) by simp
        ultimately show ?thesis by simp
      qed
    next
      case False
      have "(None, Tok (hd toks)) = ckey cfg c child \<Longrightarrow> n = p \<Longrightarrow> ch' = child" using below_part.hyps(2) pc by simp
      then have "dget (rchildren (heap c' n)) (None, Tok (hd toks)) = Some ch'"
        using look [OF below_part.prems] below_part.hyps(2) False by auto
      then show ?thesis using lies_below.below_part below_part.hyps key [OF f(1) False] by metis
    qed
  next
    case (below_full toks n ch' edge m)
    note f = tree_ok_childD [OF t below_full.prems below_full.hyps(2)]
    have IH: "lies_below c' ch' (drop (length edge) toks) m" by (rule below_full.IH [OF f(1)])
    show ?case
    proof (cases "ch' = child")
      case True
      then have n: "n = p" "(None, Tok (hd toks)) = ckey cfg c child" "edge = e"
        using f p below_full.hyps(3) by (auto simp: e_def)
      have d: "dget (rchildren (heap c' n)) (None, Tok (hd toks)) = Some new" using look [OF pS] n by simp
      have only: "rchildren (heap c' new) = [((None, Tok (hd (drop l e))), child)]"
        using sd n(2) pg by (simp add: get_child_key_def key_drop_def e_def l_def)
      have full: "match_edge_len (take l e) toks = length (take l e)"
        using l below_full.hyps(4) n(3) by (simp add: match_edge_take_left)
      have "lies_below c' new (drop l toks) (length e - l + m)"
        by (rule below_lower(2) [OF l(2) _ lower only]) (use below_full.hyps(4) n(3) l IH True in auto)
      then show ?thesis
        using lies_below.below_full [OF below_full.hyps(1) d upper [symmetric] full, of "length e - l + m"] l n(3) by simp
    next
      case False
      have "(None, Tok (hd toks)) = ckey cfg c child \<Longrightarrow> n = p \<Longrightarrow> ch' = child" using below_full.hyps(2) pc by simp
      then have "dget (rchildren (heap c' n)) (None, Tok (hd toks)) = Some ch'"
        using look [OF below_full.prems] below_full.hyps(2) False by auto
      then show ?thesis using lies_below.below_full IH below_full.hyps key [OF f(1) False] by metis
    qed
  qed (rule lies_below.below_end)
  then show ?thesis by (simp add: undisturbed_def)
qed

section \<open>The cache's own match\<close>

lemma match_tokens_edge: "match_tokens as bs = int (match_edge_len as bs)"
  by (induction as bs rule: match_tokens.induct) auto

lemma split_node_new: "split_node cfg tm child k c = Inr (c', new) \<Longrightarrow> new = counter c"
  by (cases "rparent (heap c child)") (auto simp: split_node_def Let_def alloc_node_def case_prod_beta)

lemma match_loop_hits:
  assumes pg: "page_size cfg = 1"
  shows "rc_ok cfg S c \<Longrightarrow> node \<in> S \<Longrightarrow>
    \<exists>c' S' node' vs'. match_loop cfg tm lru key node vs c = ret (c', vs', node') \<and> S \<subseteq> S' \<and> rc_ok cfg S' c'
      \<and> undisturbed S c c' \<and> root_node c' = root_node c
      \<and> (extra_key key = None \<longrightarrow> (\<exists>m. lies_below c node (token_ids key) m \<and> length vs' = length vs + m))"
proof (induction "length (token_ids key)" arbitrary: key node vs c S rule: less_induct)
  case less
  note ok = less.prems(1) and nS = less.prems(2)
  have pos: "0 < page_size cfg" using pg by simp
  let ?d = "dget (rchildren (heap c node)) (get_child_key (page_size cfg) key)"
  have ck: "extra_key key = None \<Longrightarrow> get_child_key (page_size cfg) key = (None, Tok (hd (token_ids key)))"
    using pg by (simp add: get_child_key_def)
  show ?case
  proof (cases "token_ids key = [] \<or> ?d = None")
    case True
    then have "match_loop cfg tm lru key node vs c = ret (c, vs, node)" by (subst match_loop.simps) auto
    moreover have "lies_below c node (token_ids key) 0" if "extra_key key = None"
      using True ck [OF that] by (cases "token_ids key = []") (auto intro: below_end below_none)
    moreover have "undisturbed S c c" by (simp add: undisturbed_def)
    ultimately show ?thesis using ok
      by (intro exI [of _ c] exI [of _ S] exI [of _ node] exI [of _ vs]) auto
  next
    case False
    then obtain child where ne: "token_ids key \<noteq> []" and d: "?d = Some child" by blast
    obtain k where ch: "child \<in> S" "child \<noteq> root_node c" "rparent (heap c child) = Some node"
      "key_match (page_size cfg) (rkey (heap c child)) key = Inr k"
      "matched cfg k (token_ids (rkey (heap c child))) (token_ids key)" "page_size cfg dvd k"
      by (rule found_child [OF ok nS pos ne d])
    define c1 where "c1 = set_access lru (tm 0) child c"
    have s1: "same_tree c c1" by (simp add: c1_def)
    note f1 = same_tree_fields [OF s1]
    have ok1: "rc_ok cfg S c1" using ok by (simp add: rc_ok_same [OF s1])
    have k: "0 < k" "page_size cfg \<le> k" using ch(5) by (simp_all add: matched_def)
    let ?e = "token_ids (rkey (heap c child))"
    have ke: "k = int (match_edge_len ?e (token_ids key))"
      using ch(4) pg match_tokens_edge by (auto simp: key_match_def key_match_page_size1_def check_extra_key_def rbind_def split: if_splits)
    obtain v where v: "rvalue (heap c child) = Some v" "int (length v) = key_len (rkey (heap c child))"
      using tree_ok_nodeD [of cfg S c child] ok ch(1,2) by (metis rc_ok_def)
    have look: "extra_key key = None \<Longrightarrow> dget (rchildren (heap c node)) (None, Tok (hd (token_ids key))) = Some child"
      using ck d by simp
    show ?thesis
    proof (cases "k < key_len (rkey (heap c child))")
      case True
      have t1: "tree_ok cfg S c1" "acct_ok S c1" using ok1 by (simp_all add: rc_ok_def)
      have c1: "child \<noteq> root_node c1" "rparent (heap c1 child) = Some node" "k < key_len (rkey (heap c1 child))"
        using ch True by (simp_all add: f1)
      obtain c2 new where sp: "split_node cfg tm child k c1 = Inr (c2, new)" "new \<notin> S"
        "tree_ok cfg (insert new S) c2" "acct_ok (insert new S) c2" "keeps S c1 c2" "split_ok cfg node child new k c1 c2"
        "new \<noteq> root_node c2"
        by (rule split_step [OF t1 ch(1) c1(1,2) pos k(2) c1(3) ch(6)])
      have new: "new = counter c1" by (rule split_node_new [OF sp(1)])
      define c3 where "c3 = add_hit lru new c2"
      have s3: "same_tree c2 c3" by (simp add: c3_def)
      have m: "match_loop cfg tm lru key node vs c = ret (c3, vs @ node_values (heap c3 new), new)"
        using ne d ch(4) True sp(1) by (subst match_loop.simps) (simp add: f1 Let_def c3_def flip: c1_def)
      have "undisturbed S c1 c2" by (rule undisturbed_split [OF pg t1(1) ch(1) c1(1,2) k(1) c1(3) new sp(6)])
      then have u: "undisturbed S c c3"
        using undisturbed_trans [OF undisturbed_trans [OF undisturbed_same [OF s1]] undisturbed_same [OF s3]] by blast
      have "node_values (heap c3 new) = take (nat k) v"
        using sp(6) v(1) by (simp add: node_values_def same_tree_fields [OF s3] split_ok_def f1)
      then have len: "length (node_values (heap c3 new)) = match_edge_len ?e (token_ids key)"
        using v(2) True ke by simp
      have "lies_below c node (token_ids key) (match_edge_len ?e (token_ids key))" if "extra_key key = None"
        by (rule below_part [OF ne look [OF that] refl]) (use True ke in \<open>simp add: key_len_def\<close>)
      moreover have "rc_ok cfg (insert new S) c3" using sp(3,4) by (simp add: rc_ok_def tree_ok_same [OF s3] acct_ok_same [OF s3])
      moreover have "root_node c3 = root_node c" using sp(6) by (simp add: same_tree_fields [OF s3] f1 split_ok_def)
      ultimately show ?thesis using m u len
        by (intro exI [of _ c3] exI [of _ "insert new S"] exI [of _ new] exI [of _ "vs @ node_values (heap c3 new)"]) auto
    next
      case False
      define c2 where "c2 = add_hit lru child c1"
      have s12: "same_tree c1 c2" by (simp add: c2_def)
      have s2: "same_tree c c2" by (rule same_tree_trans [OF s1 s12])
      have m: "match_loop cfg tm lru key node vs c =
          match_loop cfg tm lru (key_drop k key) child (vs @ node_values (heap c2 child)) c2"
        using ne d ch(4) False by (subst match_loop.simps) (simp add: f1 Let_def flip: c1_def c2_def)
      have whole: "match_edge_len ?e (token_ids key) = length ?e"
        using False ke match_edge_le [of ?e "token_ids key"] by (simp add: key_len_def)
      have "length (token_ids (key_drop k key)) < length (token_ids key)" using k(1) ne by (simp add: key_drop_def)
      from less.hyps [OF this _ ch(1), of c2 "vs @ node_values (heap c2 child)"] obtain c' S' node' vs'
        where r: "match_loop cfg tm lru (key_drop k key) child (vs @ node_values (heap c2 child)) c2 = ret (c', vs', node')"
          "S \<subseteq> S'" "rc_ok cfg S' c'" "undisturbed S c2 c'" "root_node c' = root_node c2"
          "extra_key key = None \<longrightarrow> (\<exists>m. lies_below c2 child (token_ids (key_drop k key)) m \<and> length vs' = length (vs @ node_values (heap c2 child)) + m)"
        using ok by (auto simp: rc_ok_same [OF s2] key_drop_def)
      have "\<exists>m. lies_below c node (token_ids key) m \<and> length vs' = length vs + m" if x: "extra_key key = None"
      proof -
        obtain m' where m': "lies_below c2 child (token_ids (key_drop k key)) m'" "length vs' = length (vs @ node_values (heap c2 child)) + m'"
          using r(6) x by blast
        have "same_tree c2 c" using s2 by (simp add: same_tree_def)
        then have "lies_below c child (drop (length ?e) (token_ids key)) m'"
          using lies_below_same [OF m'(1)] ke whole by (simp add: key_drop_def)
        then have "lies_below c node (token_ids key) (length ?e + m')" by (rule below_full [OF ne look [OF x] refl whole])
        moreover have "length (node_values (heap c2 child)) = length ?e"
          using v by (simp add: node_values_def same_tree_fields [OF s2] key_len_def)
        ultimately show ?thesis using m'(2) by auto
      qed
      moreover have "undisturbed S c c'" using undisturbed_trans [OF undisturbed_same [OF s2] r(4)] by blast
      moreover have "root_node c' = root_node c" using r(5) by (simp add: same_tree_fields [OF s2])
      ultimately show ?thesis unfolding m r(1) using r(2,3)
        by (intro exI [of _ c'] exI [of _ S'] exI [of _ node'] exI [of _ vs']) simp
    qed
  qed
qed

text \<open>A match with any key leaves the walk as it was; without an extra key it finds what the walk finds.\<close>

lemma match_with_hits:
  assumes pg: "page_size cfg = 1" and ok: "rc_ok cfg S c"
  shows "\<exists>c' S' r. match_with lru cfg tm key c = ret (c', r) \<and> S \<subseteq> S' \<and> rc_ok cfg S' c'
    \<and> undisturbed S c c' \<and> root_node c' = root_node c
    \<and> (extra_key key = None \<and> bigram cfg = None \<and> \<not> disable cfg \<longrightarrow>
         cache_match c (token_ids key) = Some (int (length (device_indices r))))"
proof -
  define key1 where "key1 = maybe_bigram_convert cfg key"
  let ?empty = "\<lparr>device_indices = [], last_device_node = root_node c, last_host_node = root_node c\<rparr>"
  have rS: "root_node c \<in> S" using ok by (simp add: rc_ok_def tree_ok_def)
  have al: "page_align cfg key1 = key1" using pg by (simp add: page_align_def)
  have k1: "bigram cfg = None \<Longrightarrow> key1 = key" by (simp add: key1_def maybe_bigram_convert_def)
  show ?thesis
  proof (cases "disable cfg \<or> key_len key1 = 0")
    case True
    then have "match_with lru cfg tm key c = ret (c, ?empty)" by (auto simp: match_with_def Let_def key1_def)
    moreover have "undisturbed S c c" by (simp add: undisturbed_def)
    moreover have "bigram cfg = None \<Longrightarrow> \<not> disable cfg \<Longrightarrow> cache_match c (token_ids key) = Some 0"
      using True k1 by (simp add: key_len_def cache_match_def cache_match_loop.simps)
    ultimately show ?thesis using ok by (intro exI [of _ c] exI [of _ S] exI [of _ ?empty]) simp
  next
    case False
    define c1 where "c1 = set_access lru (tm 0) (root_node c) c"
    have s1: "same_tree c c1" by (simp add: c1_def)
    have ok1: "rc_ok cfg S c1" using ok by (simp add: rc_ok_same [OF s1])
    obtain c' S' node vs where m: "match_loop cfg tm lru key1 (root_node c) [] c1 = ret (c', vs, node)" "S \<subseteq> S'" "rc_ok cfg S' c'"
      "undisturbed S c1 c'" "root_node c' = root_node c1"
      "extra_key key1 = None \<longrightarrow> (\<exists>m. lies_below c1 (root_node c) (token_ids key1) m \<and> length vs = length ([] :: int list) + m)"
      using match_loop_hits [OF pg ok1 rS, where tm = tm and lru = lru and key = key1 and vs = "[]"] by (elim exE conjE) (rule that)
    let ?r = "\<lparr>device_indices = vs, last_device_node = node, last_host_node = node\<rparr>"
    have e: "match_with lru cfg tm key c = ret (c', ?r)"
      using m(1) False by (simp add: match_with_def Let_def al flip: c1_def key1_def)
    have "undisturbed S c c'" using undisturbed_trans [OF undisturbed_same [OF s1] m(4)] by blast
    moreover have "cache_match c (token_ids key) = Some (int (length vs))" if x: "extra_key key = None" "bigram cfg = None"
    proof -
      have "same_tree c1 c" using s1 by (simp add: same_tree_def)
      moreover obtain l where "lies_below c1 (root_node c) (token_ids key) l" "length vs = l" using m(6) x(1) k1 [OF x(2)] by auto
      ultimately have "lies_below c (root_node c) (token_ids key) l" using lies_below_same by blast
      then show ?thesis using cache_match_iff \<open>length vs = l\<close> by blast
    qed
    moreover have "root_node c' = root_node c" using m(5) same_tree_fields(1) [OF s1] by simp
    ultimately show ?thesis using e m(2,3)
      by (intro exI [of _ c'] exI [of _ S'] exI [of _ ?r]) simp
  qed
qed

lemma cache_match_total:
  assumes "page_size cfg = 1" and "rc_ok cfg S c"
  shows "\<exists>l. cache_match c toks = Some l"
proof -
  have rS: "root_node c \<in> S" using assms(2) by (simp add: rc_ok_def tree_ok_def)
  from match_loop_hits [OF assms rS, where key = "\<lparr>token_ids = toks, extra_key = None, is_bigram = False\<rparr>" and tm = "\<lambda>_. 0" and lru = False and vs = "[]"]
  obtain m where "lies_below c (root_node c) toks m" by auto
  then show ?thesis using cache_match_iff by blast
qed

lemma cache_match_stable:
  assumes "page_size cfg = 1" and "rc_ok cfg S c" and "undisturbed S c c'" and "root_node c' = root_node c"
  shows "cache_match c' toks = cache_match c toks"
proof -
  obtain l where l: "cache_match c toks = Some l" using cache_match_total [OF assms(1,2)] by blast
  then obtain m where "lies_below c (root_node c) toks m" "l = int m" using cache_match_iff by blast
  moreover have "root_node c \<in> S" using assms(2) by (simp add: rc_ok_def tree_ok_def)
  ultimately have "cache_match c' toks = Some l" using assms(3,4) cache_match_iff by (auto simp: undisturbed_def)
  then show ?thesis using l by simp
qed

end
