(* ===== verification/Online_Config.thy ===== *)
theory Online_Config
  imports Lpm_Integration
begin

text \<open>
  How the online mode is configured: the preset bundles of \<open>src/python/peek/preset.py\<close> and the flags
  \<open>src/python/peek/online/engines/sglang/patch_hook.py\<close> reads once, when it is imported. The process
  environment is a dictionary; \<open>float\<close> of a string is a parameter, \<open>int\<close> is \<open>py_int\<close>. Output paths and
  the profiling switches are left out: they only concern files written for diagnosis.
\<close>

type_synonym environ = "(string, string) pydict"

section \<open>Presets\<close>

definition presets :: "(string, (string, string) pydict) pydict" where
  "presets =
     [(''peek-online'',
        [(''PEEK_ONLINE_SCHEDULER'', ''1''), (''PEEK_ONLINE_CLPM'', ''1''), (''PEEK_ONLINE_CLPM_GROUP_MAJOR'', ''1''),
         (''PEEK_ONLINE_CLPM_DYNAMIC_LANE'', ''1''), (''PEEK_ONLINE_EVICTION'', ''1''),
         (''PEEK_ONLINE_EVICTION_MODE'', ''cluster'')]),
      (''peek-offline'',
        [(''PEEK_OFFLINE_ENABLE'', ''1''), (''PEEK_OFFLINE_SERVER_REORDER'', ''1''), (''PEEK_QUEUE_AWARE'', ''1'')])]"

definition setdefault :: "string \<Rightarrow> string \<Rightarrow> environ \<Rightarrow> environ" where
  "setdefault k v env = (case dget env k of None \<Rightarrow> dset k v env | Some _ \<Rightarrow> env)"

text \<open>The flag of the result is the warning for an unknown preset.\<close>

definition apply_preset :: "environ \<Rightarrow> environ \<times> bool" where
  "apply_preset env =
     (let name = lower (strip (dget_or env ''PEEK_PRESET'' '''')) in
      if name = '''' then (env, False)
      else case dget presets name of
        None \<Rightarrow> (env, True)
      | Some items \<Rightarrow> (foldl (\<lambda>e (k, v). setdefault k v e) env items, False))"

section \<open>Flags\<close>

definition truthy :: "string \<Rightarrow> bool" where
  "truthy s \<longleftrightarrow> s \<in> set [''1'', ''true'', ''yes'', ''on'']"

definition flag :: "environ \<Rightarrow> string \<Rightarrow> bool" where
  "flag env name = truthy (lower (dget_or env name ''''))"

definition legacy :: "environ \<Rightarrow> string" where
  "legacy env = lower (dget_or env ''PEEK_ONLINE_ENABLED'' '''')"

definition legacy_any :: "environ \<Rightarrow> bool" where
  "legacy_any env \<longleftrightarrow> truthy (legacy env) \<or> legacy env = ''full''"

definition eviction_on :: "environ \<Rightarrow> bool" where
  "eviction_on env \<longleftrightarrow> flag env ''PEEK_ONLINE_EVICTION'' \<or> legacy_any env"

definition scheduler_on :: "environ \<Rightarrow> bool" where
  "scheduler_on env \<longleftrightarrow> flag env ''PEEK_ONLINE_SCHEDULER'' \<or> legacy env = ''full''
     \<or> flag env ''PEEK_ONLINE_LPM'' \<or> flag env ''PEEK_ONLINE_CLPM''"

definition phase_tracking_on :: "environ \<Rightarrow> bool" where
  "phase_tracking_on env \<longleftrightarrow> flag env ''PEEK_ONLINE_PHASE_TRACKING'' \<or> eviction_on env \<or> scheduler_on env"

definition rank_by_size :: "environ \<Rightarrow> bool" where
  "rank_by_size env \<longleftrightarrow> lower (dget_or env ''PEEK_ONLINE_RANK_BY_SIZE'' ''1'') \<notin> set [''0'', ''false'', ''no'', ''off'']"

definition hook_enabled :: "environ \<Rightarrow> bool" where
  "hook_enabled env \<longleftrightarrow> eviction_on env \<or> scheduler_on env \<or> phase_tracking_on env"

text \<open>Switches of removed mechanisms only cause a warning.\<close>

definition dead_flags :: "string list" where
  "dead_flags =
     [''PEEK_ONLINE_DECODE_AWARE'', ''PEEK_ONLINE_KV_BUDGET'', ''PEEK_ONLINE_KV_BUDGET_MARGIN'',
      ''PEEK_ONLINE_PREDICT_DECODE'', ''PEEK_ONLINE_PREDICT_MIN_SAMPLES'', ''PEEK_ONLINE_PREDICT_SAFETY'']"

definition dead_set :: "environ \<Rightarrow> string list" where
  "dead_set env = filter (\<lambda>name. dget_or env name '''' \<noteq> '''') dead_flags"

record hook_flags =
  hf_eviction :: bool
  hf_scheduler :: bool
  hf_phases :: bool
  hf_rank :: bool
  hf_lpm :: bool
  hf_clpm :: bool
  hf_age_alpha :: pyfloat
  hf_big_share :: pyfloat
  hf_group_major :: bool
  hf_dynamic :: bool
  hf_slo :: pyfloat
  hf_lazy :: bool
  hf_lazy_k :: int
  hf_validate :: bool
  hf_fb_threshold :: int
  hf_skip_dualwalk :: bool

text \<open>Module level, in the order of the file: a malformed number raises at import.\<close>

definition hook_flags_of :: "(string \<Rightarrow> pyfloat res) \<Rightarrow> environ \<Rightarrow> hook_flags res" where
  "hook_flags_of py_float env =
     rbind (py_float (dget_or env ''PEEK_ONLINE_CLPM_AGE_ALPHA'' ''0'')) (\<lambda>alpha.
     rbind (py_float (dget_or env ''PEEK_ONLINE_CLPM_BIGLANE_SHARE'' ''0.7'')) (\<lambda>share.
     rbind (py_float (dget_or env ''PEEK_ONLINE_CLPM_SLO_BUDGET_S'' ''2.0'')) (\<lambda>slo.
     rbind (py_int (dget_or env ''PEEK_ONLINE_LAZY_K'' ''128'')) (\<lambda>lazy_k.
     rbind (py_int (dget_or env ''PEEK_ONLINE_LPM_FALLBACK_THRESHOLD'' ''128'')) (\<lambda>fb.
       Inr \<lparr>hf_eviction = eviction_on env, hf_scheduler = scheduler_on env, hf_phases = phase_tracking_on env,
            hf_rank = rank_by_size env, hf_lpm = flag env ''PEEK_ONLINE_LPM'', hf_clpm = flag env ''PEEK_ONLINE_CLPM'',
            hf_age_alpha = alpha, hf_big_share = share, hf_group_major = flag env ''PEEK_ONLINE_CLPM_GROUP_MAJOR'',
            hf_dynamic = flag env ''PEEK_ONLINE_CLPM_DYNAMIC_LANE'', hf_slo = slo,
            hf_lazy = flag env ''PEEK_ONLINE_LAZY_MATCH_PREFIX'', hf_lazy_k = lazy_k,
            hf_validate = flag env ''PEEK_ONLINE_VALIDATE'', hf_fb_threshold = fb,
            hf_skip_dualwalk = flag env ''PEEK_ONLINE_LPM_SKIP_DUALWALK''\<rparr>)))))"

section \<open>What a preset turns on\<close>

lemma dget_setdefault: "dget (setdefault k v env) n = (if n = k \<and> dget env k = None then Some v else dget env n)"
  by (auto simp: setdefault_def dict_simps split: option.splits)

lemma dget_bundle:
  "wf_dict items \<Longrightarrow> dget (foldl (\<lambda>e (k, v). setdefault k v e) env items) n =
     (case dget env n of Some w \<Rightarrow> Some w | None \<Rightarrow> dget items n)"
proof (induction items arbitrary: env)
  case (Cons x items)
  obtain k v where x: "x = (k, v)" by (cases x)
  have "dget items k = None" using Cons.prems by (simp add: x dget_None_iff wf_dict_def)
  then show ?case using Cons by (auto simp: x dget_setdefault wf_dict_def split: option.splits)
qed (simp split: option.splits)

text \<open>
  A preset never overrides a variable that is set, adds exactly its bundle otherwise, changes
  nothing and warns when its name is unknown, and applying it twice is applying it once. With the
  online preset and nothing set against it, the scheduler, Cluster-LPM and eviction are on and the
  plain LPM mode is as the environment says.
\<close>

lemma preset_semantics:
  assumes "online = dset ''PEEK_PRESET'' ''peek-online'' env"
    and "dget env ''PEEK_ONLINE_SCHEDULER'' = None" and "dget env ''PEEK_ONLINE_EVICTION'' = None"
    and "dget env ''PEEK_ONLINE_CLPM'' = None"
  shows "dget (fst (apply_preset e)) n =
      (case dget e n of Some w \<Rightarrow> Some w
       | None \<Rightarrow> (case dget presets (lower (strip (dget_or e ''PEEK_PRESET'' ''''))) of None \<Rightarrow> None | Some items \<Rightarrow> dget items n))
    \<and> snd (apply_preset e) = (lower (strip (dget_or e ''PEEK_PRESET'' '''')) \<notin> {'''', ''peek-online'', ''peek-offline''})
    \<and> dget (fst (apply_preset (fst (apply_preset e)))) n = dget (fst (apply_preset e)) n
    \<and> scheduler_on (fst (apply_preset online)) \<and> eviction_on (fst (apply_preset online))
    \<and> flag (fst (apply_preset online)) ''PEEK_ONLINE_CLPM''
    \<and> flag (fst (apply_preset online)) ''PEEK_ONLINE_LPM'' = flag env ''PEEK_ONLINE_LPM''"
proof -
  let ?name = "\<lambda>e. lower (strip (dget_or e ''PEEK_PRESET'' ''''))"
  have wf: "dget presets nm = Some items \<Longrightarrow> wf_dict items" for nm items
    by (auto simp: presets_def wf_dict_def split: if_splits)
  have nil: "dget presets '''' = None" by (simp add: presets_def)
  have look: "dget (fst (apply_preset e)) n = (case dget e n of Some w \<Rightarrow> Some w
      | None \<Rightarrow> (case dget presets (?name e) of None \<Rightarrow> None | Some items \<Rightarrow> dget items n))" for e n
    using nil by (auto simp: apply_preset_def Let_def dget_bundle wf split: option.splits)
  have warn: "snd (apply_preset e) = (?name e \<notin> {'''', ''peek-online'', ''peek-offline''})"
    by (simp add: apply_preset_def Let_def presets_def)
  have "dget presets nm = Some items \<Longrightarrow> dget items ''PEEK_PRESET'' = None" for nm items
    by (auto simp: presets_def split: if_splits)
  then have "?name (fst (apply_preset e)) = ?name e"
    using look [of e "''PEEK_PRESET''"] by (auto simp: dget_or_def split: option.splits)
  then have twice: "dget (fst (apply_preset (fst (apply_preset e)))) n = dget (fst (apply_preset e)) n"
    using look [of "fst (apply_preset e)" n] look [of e n] by (auto split: option.splits)
  have nm: "lower (strip ''peek-online'') = ''peek-online''" by code_simp
  have on: "dget_or (fst (apply_preset online)) ''PEEK_ONLINE_SCHEDULER'' '''' = ''1''"
    "dget_or (fst (apply_preset online)) ''PEEK_ONLINE_EVICTION'' '''' = ''1''"
    "dget_or (fst (apply_preset online)) ''PEEK_ONLINE_CLPM'' '''' = ''1''"
    "dget_or (fst (apply_preset online)) ''PEEK_ONLINE_LPM'' '''' = dget_or env ''PEEK_ONLINE_LPM'' ''''"
    unfolding dget_or_def look by (simp_all add: assms nm dict_simps presets_def split: option.split)
  have one: "truthy (lower ''1'')" by code_simp
  show ?thesis using look warn twice one by (simp add: scheduler_on_def eviction_on_def flag_def on)
qed


end
