(* ===== verification/Online_Sync.thy ===== *)
theory Online_Sync
  imports Pending_Spec Lpm_Integration
begin

text \<open>
  The synchronisation of the pending tree with the scheduler's waiting queue
  (\<open>_intern\<close>, \<open>_sync\<close>, \<open>_validate_sync\<close> of \<open>src/python/peek/online/engines/sglang/patch_hook.py\<close>), for any
  sequence of queues the scheduler may show it. The state is what the closures of \<open>_install\<close> share.
  \<open>_seen_this_session\<close> is a list without duplicates, \<open>_last_rids\<close> a set; profiling is off.
\<close>

section \<open>State\<close>

text \<open>The fields of SGLang's request that the hook reads and writes, beyond those of the sorts.\<close>

record online_req = lpm_req +
  or_extra_key :: "string option"
  or_last_node :: "nat option"
  or_last_host :: "nat option"
  or_host_hit :: int

record phase =
  arrive_ts :: pyfloat
  pick_ts :: "pyfloat option"

record sync_state =
  hk_tree :: pending_tree
  hk_interner :: "(string, int) pydict"
  hk_unintern :: "(int, string) pydict"
  hk_counter :: int
  hk_seen :: "int list"
  hk_last :: "string set"
  hk_phases :: "(string, phase) pydict"

definition hook_init :: sync_state where
  "hook_init = \<lparr>hk_tree = pt_new, hk_interner = [], hk_unintern = [], hk_counter = 0, hk_seen = [], hk_last = {}, hk_phases = []\<rparr>"

definition intern :: "string \<Rightarrow> sync_state \<Rightarrow> sync_state \<times> int" where
  "intern s st =
     (case dget (hk_interner st) s of
        Some i \<Rightarrow> (st, i)
      | None \<Rightarrow>
          (let i = hk_counter st + 1
           in (st\<lparr>hk_counter := i, hk_interner := dset s i (hk_interner st), hk_unintern := dset i s (hk_unintern st)\<rparr>, i)))"

section \<open>The synchronisation\<close>

text \<open>\<open>except ValueError\<close>: a known id is discarded and inserted again.\<close>

definition insert_fresh :: "int \<Rightarrow> int list \<Rightarrow> pending_tree \<Rightarrow> pending_tree res" where
  "insert_fresh i toks T =
     (case pt_insert i toks T of
        Inl e \<Rightarrow> if e = ValueError then pt_insert i toks (fst (pt_discard i T)) else Inl e
      | Inr T' \<Rightarrow> Inr T')"

definition sync_req ::
  "bool \<Rightarrow> pyfloat \<Rightarrow> 'a lpm_req_scheme \<Rightarrow> sync_state \<times> int list \<Rightarrow> (sync_state \<times> int list) res"
where
  "sync_req phases now r acc =
     (case acc of (st, current) \<Rightarrow>
        (let (st1, i) = intern (lr_rid r) st; current' = List.insert i current in
         if i \<in> set (hk_seen st1) then Inr (st1, current')
         else rbind (insert_fresh i (lr_tokens r) (hk_tree st1)) (\<lambda>T.
                Inr (st1\<lparr>hk_tree := T, hk_seen := hk_seen st1 @ [i],
                       hk_phases := (if phases then dset (lr_rid r) \<lparr>arrive_ts = now, pick_ts = None\<rparr> (hk_phases st1)
                                     else hk_phases st1)\<rparr>, current'))))"

fun sync_reqs ::
  "bool \<Rightarrow> pyfloat \<Rightarrow> 'a lpm_req_scheme list \<Rightarrow> sync_state \<times> int list \<Rightarrow> (sync_state \<times> int list) res"
where
  "sync_reqs phases now [] acc = Inr acc"
| "sync_reqs phases now (r # rs) acc = rbind (sync_req phases now r acc) (sync_reqs phases now rs)"

definition drop_departed :: "int \<Rightarrow> sync_state \<Rightarrow> sync_state" where
  "drop_departed i st =
     (let st1 = st\<lparr>hk_tree := fst (pt_discard i (hk_tree st)), hk_seen := removeAll i (hk_seen st)\<rparr> in
      case dget (hk_unintern st1) i of
        None \<Rightarrow> st1
      | Some s \<Rightarrow> st1\<lparr>hk_unintern := ddel i (hk_unintern st1), hk_interner := ddel s (hk_interner st1)\<rparr>)"

text \<open>The loop over a set of departed ids: each entry is updated on its own.\<close>

definition mark_picked :: "pyfloat \<Rightarrow> string set \<Rightarrow> (string, phase) pydict \<Rightarrow> (string, phase) pydict" where
  "mark_picked now gone phases =
     map (\<lambda>(s, ph). (s, if s \<in> gone \<and> pick_ts ph = None then ph\<lparr>pick_ts := Some now\<rparr> else ph)) phases"

definition sync :: "bool \<Rightarrow> pyfloat \<Rightarrow> 'a lpm_req_scheme list \<Rightarrow> sync_state \<Rightarrow> sync_state res" where
  "sync phases now q st =
     (let current = lr_rid ` set q in
      if length q = card (hk_last st) \<and> current = hk_last st then Inr st
      else rbind (sync_reqs phases now q (st, [])) (\<lambda>(st1, ints).
        let st2 = foldl (\<lambda>s i. if i \<in> set ints then s else drop_departed i s) st1 (hk_seen st1)
        in Inr (st2\<lparr>hk_phases := (if phases then mark_picked now (hk_last st2 - current) (hk_phases st2) else hk_phases st2),
                  hk_last := current\<rparr>)))"

section \<open>Validation\<close>

record vstats =
  sync_checks :: int
  sync_extra :: int
  sync_missing :: int
  sync_mismatch :: int
  violation_logged :: bool

text \<open>Missing, extra and mismatched requests of one check.\<close>

definition sync_violations :: "'a lpm_req_scheme list \<Rightarrow> sync_state \<Rightarrow> nat \<times> nat \<times> nat" where
  "sync_violations q st =
     (let id_of = (\<lambda>r. dget (hk_interner st) (lr_rid r));
          stored = (\<lambda>r. case id_of r of None \<Rightarrow> None | Some i \<Rightarrow> dget (pt_paths (hk_tree st)) i)
      in (length (filter (\<lambda>r. stored r = None) q),
          length (filter (\<lambda>i. \<not> list_ex (\<lambda>r. id_of r = Some i) q) (hk_seen st)),
          length (filter (\<lambda>r. case stored r of None \<Rightarrow> False | Some toks \<Rightarrow> toks \<noteq> lr_tokens r) q)))"

definition validate_sync :: "'a lpm_req_scheme list \<Rightarrow> sync_state \<Rightarrow> vstats \<Rightarrow> vstats" where
  "validate_sync q st vs =
     (case sync_violations q st of (missing, extra, mismatches) \<Rightarrow>
        (let vs1 = vs\<lparr>sync_checks := sync_checks vs + 1\<rparr> in
         if missing = 0 \<and> extra = 0 \<and> mismatches = 0 then vs1
         else vs1\<lparr>sync_missing := sync_missing vs1 + int missing, sync_extra := sync_extra vs1 + int extra,
                sync_mismatch := sync_mismatch vs1 + int mismatches, violation_logged := True\<rparr>))"

section \<open>The invariant\<close>

definition core_ok :: "sync_state \<Rightarrow> bool" where
  "core_ok st \<longleftrightarrow> pt_ok (hk_tree st) \<and> wf_dict (hk_interner st) \<and> wf_dict (hk_unintern st)
     \<and> (\<forall>s i. dget (hk_interner st) s = Some i \<longleftrightarrow> dget (hk_unintern st) i = Some s)
     \<and> (\<forall>i s. dget (hk_unintern st) i = Some s \<longrightarrow> i \<le> hk_counter st)
     \<and> distinct (hk_seen st) \<and> (\<forall>i. i \<in> set (hk_seen st) \<longleftrightarrow> dget (pt_paths (hk_tree st)) i \<noteq> None)
     \<and> (\<forall>i \<in> set (hk_seen st). dget (hk_unintern st) i \<noteq> None)"

lemma core_okI:
  assumes "pt_ok (hk_tree st)" and "wf_dict (hk_interner st)" and "wf_dict (hk_unintern st)"
    and "\<And>s i. dget (hk_interner st) s = Some i \<longleftrightarrow> dget (hk_unintern st) i = Some s"
    and "\<And>i s. dget (hk_unintern st) i = Some s \<Longrightarrow> i \<le> hk_counter st"
    and "distinct (hk_seen st)" and "\<And>i. i \<in> set (hk_seen st) \<longleftrightarrow> dget (pt_paths (hk_tree st)) i \<noteq> None"
    and "\<And>i. i \<in> set (hk_seen st) \<Longrightarrow> \<exists>s. dget (hk_unintern st) i = Some s"
  shows "core_ok st"
  unfolding core_ok_def using assms by fastforce

lemma core_okD:
  assumes "core_ok st"
  shows "pt_ok (hk_tree st)" and "wf_dict (hk_interner st)" and "wf_dict (hk_unintern st)"
    and "dget (hk_interner st) s = Some i \<longleftrightarrow> dget (hk_unintern st) i = Some s"
    and "dget (hk_unintern st) i = Some s \<Longrightarrow> i \<le> hk_counter st"
    and "distinct (hk_seen st)" and "i \<in> set (hk_seen st) \<longleftrightarrow> dget (pt_paths (hk_tree st)) i \<noteq> None"
    and "i \<in> set (hk_seen st) \<Longrightarrow> \<exists>s. dget (hk_unintern st) i = Some s"
  using assms unfolding core_ok_def by blast+

text \<open>What the tree holds for a request, by its name.\<close>

definition tracked :: "sync_state \<Rightarrow> string \<Rightarrow> int list option" where
  "tracked st s = (case dget (hk_interner st) s of None \<Rightarrow> None | Some i \<Rightarrow> dget (pt_paths (hk_tree st)) i)"

definition hook_ok :: "sync_state \<Rightarrow> bool" where
  "hook_ok st \<longleftrightarrow> core_ok st \<and> finite (hk_last st) \<and> hk_last st = {s. tracked st s \<noteq> None}"

lemma hook_ok_init: "hook_ok hook_init"
  using pt_ok_new by (simp add: hook_ok_def core_ok_def tracked_def hook_init_def) (simp add: pt_new_def)

lemma core_id:
  "core_ok st \<Longrightarrow> dget (hk_interner st) s = Some i \<Longrightarrow> dget (hk_interner st) s' = Some i \<Longrightarrow> s = s'"
  unfolding core_ok_def by (metis option.inject)

lemma intern_ok:
  assumes ok: "core_ok st" and r: "intern s st = (st', i)"
  shows "core_ok st' \<and> dget (hk_interner st') s = Some i \<and> tracked st' = tracked st \<and> hk_last st' = hk_last st
    \<and> hk_seen st' = hk_seen st \<and> hk_phases st' = hk_phases st \<and> hk_tree st' = hk_tree st"
proof (cases "dget (hk_interner st) s")
  case (Some j)
  then show ?thesis using ok r by (simp add: intern_def)
next
  case None
  have st': "st' = st\<lparr>hk_counter := i, hk_interner := dset s i (hk_interner st), hk_unintern := dset i s (hk_unintern st)\<rparr>"
    and i: "i = hk_counter st + 1" using None r by (auto simp: intern_def Let_def)
  have fresh: "dget (hk_unintern st) i = None" using ok by (cases "dget (hk_unintern st) i") (auto simp: core_ok_def i)
  then have "i \<notin> set (hk_seen st)" using ok unfolding core_ok_def by blast
  then have np: "dget (pt_paths (hk_tree st)) i = None" using ok unfolding core_ok_def by blast
  have inv: "dget (hk_unintern st) j = Some s' \<longleftrightarrow> dget (hk_interner st) s' = Some j" for j s'
    using ok unfolding core_ok_def by blast
  have "tracked st' s' = tracked st s'" for s' using None np by (simp add: tracked_def st' dict_simps split: option.split)
  moreover have "dget (hk_interner st') s' = Some j \<longleftrightarrow> dget (hk_unintern st') j = Some s'" for s' j
    using None fresh inv by (simp add: st' dict_simps) (metis option.distinct(1))
  moreover have "j \<le> hk_counter st'" if "dget (hk_unintern st') j = Some s'" for j s'
    using that ok unfolding st' core_ok_def by (force simp: dict_simps i split: if_splits)
  ultimately have "core_ok st' \<and> tracked st' = tracked st"
    using ok unfolding st' core_ok_def by (auto simp: dict_simps)
  then show ?thesis by (simp add: st' dict_simps)
qed

text \<open>One request: it is tracked afterwards, with what was stored or with its tokens.\<close>

lemma insert_fresh_ok:
  assumes "pt_ok T" and "dget (pt_paths T) i = None"
  shows "\<exists>T'. insert_fresh i toks T = Inr T' \<and> pt_ok T' \<and> pt_paths T' = dset i toks (pt_paths T)"
  using pt_insert_ok [OF assms, of toks] by (auto simp: insert_fresh_def)

definition tracks :: "sync_state \<Rightarrow> 'a lpm_req_scheme \<Rightarrow> sync_state \<Rightarrow> bool" where
  "tracks st r st' \<longleftrightarrow> (\<forall>s. tracked st' s = (if s = lr_rid r \<and> tracked st s = None then Some (lr_tokens r) else tracked st s))"

lemma sync_req_ok:
  assumes ok: "core_ok st"
  shows "\<exists>st' i. sync_req phases now r (st, current) = Inr (st', List.insert i current) \<and> core_ok st'
    \<and> tracks st r st' \<and> dget (hk_interner st') (lr_rid r) = Some i \<and> hk_last st' = hk_last st
    \<and> (\<forall>s j. dget (hk_interner st) s = Some j \<longrightarrow> dget (hk_interner st') s = Some j)"
proof -
  obtain st1 i where n: "intern (lr_rid r) st = (st1, i)" by (cases "intern (lr_rid r) st")
  have ok1: "core_ok st1" and id1: "dget (hk_interner st1) (lr_rid r) = Some i"
    and f: "tracked st1 = tracked st" "hk_last st1 = hk_last st"
    using intern_ok [OF ok n] by blast+
  have keep: "\<forall>s j. dget (hk_interner st) s = Some j \<longrightarrow> dget (hk_interner st1) s = Some j"
    using n by (auto simp: intern_def Let_def dict_simps split: option.splits)
  have i: "tracked st1 (lr_rid r) = dget (pt_paths (hk_tree st1)) i" using id1 by (simp add: tracked_def)
  show ?thesis
  proof (cases "i \<in> set (hk_seen st1)")
    case True
    then have "tracked st (lr_rid r) \<noteq> None" using f(1) i ok1 by (metis core_ok_def)
    then have "tracks st r st1" using f by (auto simp: tracks_def)
    then show ?thesis using True f ok1 id1 keep n by (simp add: sync_req_def)
  next
    case False
    then have none: "dget (pt_paths (hk_tree st1)) i = None" using ok1 unfolding core_ok_def by blast
    have "pt_ok (hk_tree st1)" using ok1 by (simp add: core_ok_def)
    then obtain T where T: "insert_fresh i (lr_tokens r) (hk_tree st1) = Inr T" "pt_ok T"
      "pt_paths T = dset i (lr_tokens r) (pt_paths (hk_tree st1))"
      using insert_fresh_ok [OF _ none] by meson
    let ?st = "st1\<lparr>hk_tree := T, hk_seen := hk_seen st1 @ [i],
      hk_phases := (if phases then dset (lr_rid r) \<lparr>arrive_ts = now, pick_ts = None\<rparr> (hk_phases st1) else hk_phases st1)\<rparr>"
    have e: "sync_req phases now r (st, current) = Inr (?st, List.insert i current)"
      using False n T(1) by (simp add: sync_req_def rbind_def)
    have bk: "dget (hk_unintern st1) i = Some (lr_rid r)" using core_okD(4) [OF ok1] id1 by blast
    note c = core_okD [OF ok1]
    have "core_ok ?st"
    proof (rule core_okI)
      show "j \<in> set (hk_seen ?st) \<longleftrightarrow> dget (pt_paths (hk_tree ?st)) j \<noteq> None" for j
        using c(7) [of j] by (simp add: T(3) dict_simps del: not_None_eq)
      show "\<exists>s. dget (hk_unintern ?st) j = Some s" if "j \<in> set (hk_seen ?st)" for j
        using that c(8) [of j] bk by (cases "j = i") simp_all
      show "j \<le> hk_counter ?st" if "dget (hk_unintern ?st) j = Some s" for j s using c(5) [of j s] that by simp
    qed (simp_all add: c(2-4,6) T(2) False)
    moreover have "tracked ?st s = (if s = lr_rid r then Some (lr_tokens r) else tracked st1 s)" for s
    proof (cases "s = lr_rid r")
      case False
      then have "dget (hk_interner st1) s \<noteq> Some i" using core_id [OF ok1, of s i "lr_rid r"] id1 by blast
      then show ?thesis using False by (simp add: tracked_def T(3) dict_simps split: option.split)
    qed (simp add: tracked_def id1 T(3) dict_simps)
    then have "tracks st r ?st" using f(1) i none by (auto simp: tracks_def)
    ultimately show ?thesis using e f id1 keep
      by (intro exI [of _ ?st] exI [of _ i]) simp
  qed
qed

text \<open>The tokens a queue brings for a name: its first request of that name.\<close>

fun brought :: "'a lpm_req_scheme list \<Rightarrow> string \<Rightarrow> int list option" where
  "brought [] s = None"
| "brought (r # rs) s = (if s = lr_rid r then Some (lr_tokens r) else brought rs s)"

lemma sync_reqs_ok:
  "core_ok st \<Longrightarrow> \<exists>st' ints. sync_reqs phases now q (st, current) = Inr (st', ints) \<and> core_ok st' \<and> hk_last st' = hk_last st
    \<and> (\<forall>s. tracked st' s = (case tracked st s of Some t \<Rightarrow> Some t | None \<Rightarrow> brought q s))
    \<and> set ints = set current \<union> {i. \<exists>r \<in> set q. dget (hk_interner st') (lr_rid r) = Some i}
    \<and> (\<forall>s j. dget (hk_interner st) s = Some j \<longrightarrow> dget (hk_interner st') s = Some j)
    \<and> (\<forall>r \<in> set q. dget (hk_interner st') (lr_rid r) \<noteq> None)"
proof (induction q arbitrary: st current)
  case Nil
  then show ?case by (simp split: option.split)
next
  case (Cons r q)
  obtain st1 i where 1: "sync_req phases now r (st, current) = Inr (st1, List.insert i current)" "core_ok st1"
    "tracks st r st1" "dget (hk_interner st1) (lr_rid r) = Some i" "hk_last st1 = hk_last st"
    "\<forall>s j. dget (hk_interner st) s = Some j \<longrightarrow> dget (hk_interner st1) s = Some j"
    using sync_req_ok [OF Cons.prems, of phases now r current] by blast
  obtain st' ints where 2: "sync_reqs phases now q (st1, List.insert i current) = Inr (st', ints)" "core_ok st'"
    "hk_last st' = hk_last st1" "\<forall>s. tracked st' s = (case tracked st1 s of Some t \<Rightarrow> Some t | None \<Rightarrow> brought q s)"
    "set ints = set (List.insert i current) \<union> {i. \<exists>r \<in> set q. dget (hk_interner st') (lr_rid r) = Some i}"
    "\<forall>s j. dget (hk_interner st1) s = Some j \<longrightarrow> dget (hk_interner st') s = Some j"
    "\<forall>r \<in> set q. dget (hk_interner st') (lr_rid r) \<noteq> None"
    using Cons.IH [OF 1(2)] by blast
  have i: "dget (hk_interner st') (lr_rid r) = Some i" using 1(4) 2(6) by blast
  have "tracked st' s = (case tracked st s of Some t \<Rightarrow> Some t | None \<Rightarrow> brought (r # q) s)" for s
    using 2(4) 1(3) by (auto simp: tracks_def split: option.splits)
  moreover have "set ints = set current \<union> {i. \<exists>r \<in> set (r # q). dget (hk_interner st') (lr_rid r) = Some i}"
    using 2(5) i by auto
  ultimately show ?case using 1(1,5,6) 2 i by (intro exI [of _ st'] exI [of _ ints]) (simp add: rbind_def)
qed

text \<open>Departures.\<close>

lemma drop_departed_ok:
  assumes ok: "core_ok st" and i: "i \<in> set (hk_seen st)"
  shows "core_ok (drop_departed i st) \<and> hk_last (drop_departed i st) = hk_last st
    \<and> hk_phases (drop_departed i st) = hk_phases st \<and> hk_seen (drop_departed i st) = removeAll i (hk_seen st)
    \<and> pt_paths (hk_tree (drop_departed i st)) = ddel i (pt_paths (hk_tree st))
    \<and> (\<forall>s. dget (hk_interner (drop_departed i st)) s =
         (if dget (hk_interner st) s = Some i then None else dget (hk_interner st) s))"
proof -
  note c = core_okD [OF ok]
  obtain s where s: "dget (hk_unintern st) i = Some s" using c(8) [OF i] by blast
  have sid: "dget (hk_interner st) s' = Some i \<longleftrightarrow> s' = s" for s' using c(4) s by auto
  define T where "T = fst (pt_discard i (hk_tree st))"
  have T: "pt_ok T" "pt_paths T = ddel i (pt_paths (hk_tree st))"
    using pt_discard_ok [OF c(1), of i] by (simp_all add: T_def)
  have e: "drop_departed i st = st\<lparr>hk_tree := T, hk_seen := removeAll i (hk_seen st),
      hk_unintern := ddel i (hk_unintern st), hk_interner := ddel s (hk_interner st)\<rparr>"
    using s by (simp add: drop_departed_def Let_def T_def)
  have "dget (ddel s (hk_interner st)) s' = Some j \<longleftrightarrow> dget (ddel i (hk_unintern st)) j = Some s'" for s' j
    using c(4) [of s' j] c(4) [of s j] sid [of s'] sid [of s] s
    by (cases "s' = s"; cases "j = i") (auto simp: dict_simps)
  note inv = this
  let ?st = "st\<lparr>hk_tree := T, hk_seen := removeAll i (hk_seen st),
      hk_unintern := ddel i (hk_unintern st), hk_interner := ddel s (hk_interner st)\<rparr>"
  have "core_ok ?st"
  proof (rule core_okI)
    show "dget (hk_interner ?st) s' = Some j \<longleftrightarrow> dget (hk_unintern ?st) j = Some s'" for s' j using inv by simp
    show "j \<in> set (hk_seen ?st) \<longleftrightarrow> dget (pt_paths (hk_tree ?st)) j \<noteq> None" for j
      using c(7) [of j] by (simp add: T(2) dict_simps del: not_None_eq)
    show "\<exists>s'. dget (hk_unintern ?st) j = Some s'" if "j \<in> set (hk_seen ?st)" for j
      using that c(8) [of j] by (simp add: dict_simps)
    show "j \<le> hk_counter ?st" if "dget (hk_unintern ?st) j = Some s'" for j s'
      using that c(5) [of j s'] by (simp add: dict_simps split: if_splits)
  qed (simp_all add: T(1) c(2,3,6) wf_ddel distinct_removeAll)
  then have "core_ok (drop_departed i st)" unfolding e .
  moreover have "dget (ddel s (hk_interner st)) s' = (if dget (hk_interner st) s' = Some i then None else dget (hk_interner st) s')" for s'
    using sid by (simp add: dict_simps)
  ultimately show ?thesis unfolding e by (simp add: T(2))
qed

lemma departures_ok:
  fixes st :: sync_state and L ints :: "int list"
  assumes "core_ok st" and "distinct L" and "set L \<subseteq> set (hk_seen st)"
  defines "st' \<equiv> foldl (\<lambda>s i. if i \<in> set ints then s else drop_departed i s) st L"
  shows "core_ok st' \<and> hk_last st' = hk_last st \<and> hk_phases st' = hk_phases st
    \<and> (\<forall>i. dget (pt_paths (hk_tree st')) i = (if i \<in> set L - set ints then None else dget (pt_paths (hk_tree st)) i))
    \<and> (\<forall>s. dget (hk_interner st') s = (case dget (hk_interner st) s of None \<Rightarrow> None | Some i \<Rightarrow> if i \<in> set L - set ints then None else Some i))"
  using assms(1-3) unfolding st'_def
proof (induction L arbitrary: st)
  case Nil
  then show ?case by (simp split: option.split)
next
  case (Cons i L)
  show ?case
  proof (cases "i \<in> set ints")
    case True
    then show ?thesis using Cons.IH [OF Cons.prems(1)] Cons.prems by (simp split: option.split)
  next
    case False
    let ?st = "drop_departed i st"
    have iS: "i \<in> set (hk_seen st)" using Cons.prems by simp
    note d = drop_departed_ok [OF Cons.prems(1) iS]
    have "set L \<subseteq> set (hk_seen ?st)" using d Cons.prems(2,3) by auto
    note IH = Cons.IH [OF d [THEN conjunct1] _ this]
    show ?thesis using IH Cons.prems(2) d False by (auto simp: dict_simps split: option.splits)
  qed
qed

section \<open>The synchronisation is exact\<close>

lemma core_ok_last_phases [simp]: "core_ok (st\<lparr>hk_phases := ph, hk_last := l\<rparr>) = core_ok st"
  "tracked (st\<lparr>hk_phases := ph, hk_last := l\<rparr>) = tracked st"
  by (simp_all add: core_ok_def tracked_def fun_eq_iff split: option.split)

lemma brought_None: "brought q s = None \<longleftrightarrow> s \<notin> lr_rid ` set q"
  by (induction q) auto

lemma sync_slow_ok:
  assumes c: "core_ok st" and False: "\<not> (length q = card (hk_last st) \<and> lr_rid ` set q = hk_last st)"
  shows "\<exists>st'. sync phases now q st = Inr st' \<and> hook_ok st' \<and> hk_last st' = lr_rid ` set q
    \<and> (\<forall>s. tracked st' s = (if s \<in> lr_rid ` set q
         then (case tracked st s of Some t \<Rightarrow> Some t | None \<Rightarrow> brought q s) else None))"
proof -
  obtain st1 ints where 1: "sync_reqs phases now q (st, []) = Inr (st1, ints)" "core_ok st1"
    "\<forall>s. tracked st1 s = (case tracked st s of Some t \<Rightarrow> Some t | None \<Rightarrow> brought q s)"
    "set ints = {i. \<exists>r \<in> set q. dget (hk_interner st1) (lr_rid r) = Some i}"
    "\<forall>r \<in> set q. dget (hk_interner st1) (lr_rid r) \<noteq> None"
    using sync_reqs_ok [OF c, of phases now q "[]"] by auto
  define st2 where "st2 = foldl (\<lambda>s i. if i \<in> set ints then s else drop_departed i s) st1 (hk_seen st1)"
  have 2: "core_ok st2"
    "\<forall>i. dget (pt_paths (hk_tree st2)) i = (if i \<in> set (hk_seen st1) - set ints then None else dget (pt_paths (hk_tree st1)) i)"
    "\<forall>s. dget (hk_interner st2) s = (case dget (hk_interner st1) s of None \<Rightarrow> None | Some i \<Rightarrow> if i \<in> set (hk_seen st1) - set ints then None else Some i)"
    using departures_ok [OF 1(2) core_okD(6) [OF 1(2)] subset_refl, of ints] unfolding st2_def by blast+
  let ?st = "st2\<lparr>hk_phases := (if phases then mark_picked now (hk_last st2 - lr_rid ` set q) (hk_phases st2) else hk_phases st2),
    hk_last := lr_rid ` set q\<rparr>"
  have e: "sync phases now q st = Inr ?st"
    unfolding sync_def Let_def if_not_P [OF False] 1(1) rbind_def st2_def by simp
  have tr: "tracked st2 s = (if s \<in> lr_rid ` set q then tracked st1 s else None)" for s
  proof (cases "dget (hk_interner st1) s")
    case None
    then have "s \<notin> lr_rid ` set q" using 1(5) by auto
    then show ?thesis using 2(3) None by (simp add: tracked_def)
  next
    case (Some i)
    show ?thesis
    proof (cases "s \<in> lr_rid ` set q")
      case True
      then have "i \<in> set ints" using 1(4) Some by auto
      then show ?thesis using True Some 2(2,3) by (simp add: tracked_def)
    next
      case F: False
      then have "i \<notin> set ints" using 1(4) core_id [OF 1(2) Some] by auto
      then show ?thesis using F Some 2(2,3) core_okD(7) [OF 1(2), of i] by (auto simp: tracked_def)
    qed
  qed
  have "tracked st1 s \<noteq> None" if "s \<in> lr_rid ` set q" for s
    using that 1(3) brought_None [of q s] by (cases "tracked st s") (simp_all del: not_None_eq)
  then have L: "lr_rid ` set q = {s. tracked st2 s \<noteq> None}" using tr by (simp del: not_None_eq)
  have "finite {s. tracked st2 s \<noteq> None}" unfolding L [symmetric] by simp
  then have "hook_ok ?st" using 2(1) L by (simp add: hook_ok_def)
  then show ?thesis using e tr 1(3) by (intro exI [of _ ?st]) simp
qed

lemma sync_fast: "length q = card (hk_last st) \<and> lr_rid ` set q = hk_last st \<Longrightarrow> sync phases now q st = Inr st"
  by (simp add: sync_def Let_def)

lemma sync_ok:
  assumes ok: "hook_ok st"
  shows "\<exists>st'. sync phases now q st = Inr st' \<and> hook_ok st' \<and> hk_last st' = lr_rid ` set q
    \<and> (\<forall>s. tracked st' s = (if s \<in> lr_rid ` set q
         then (case tracked st s of Some t \<Rightarrow> Some t | None \<Rightarrow> brought q s) else None))"
proof (cases "length q = card (hk_last st) \<and> lr_rid ` set q = hk_last st")
  case True
  then show ?thesis using ok sync_fast [OF True, of phases now] by (auto simp: hook_ok_def split: option.splits)
next
  case False
  have "core_ok st" using ok by (simp add: hook_ok_def)
  from sync_slow_ok [OF this False] show ?thesis .
qed

text \<open>A dictionary by interned id whose keys are the tracked requests, request by request.\<close>

lemma dict_of_queue:
  fixes name :: "'r \<Rightarrow> string" and g :: "'r \<Rightarrow> 'v"
  assumes c: "core_ok st" and wf: "wf_dict D" and keys: "\<And>i. i \<in> set (hk_seen st) \<longleftrightarrow> dget D i \<noteq> None"
    and d: "distinct (map name q)" and last: "{s. tracked st s \<noteq> None} = name ` set q"
    and t: "\<And>r. r \<in> set q \<Longrightarrow> \<exists>i. dget (hk_interner st) (name r) = Some i \<and> dget D i = Some (g r)"
  shows "mset (map snd D) = mset (map g q)"
    and "set (hk_seen st) = {i. \<exists>r \<in> set q. dget (hk_interner st) (name r) = Some i}"
proof -
  define id_of where "id_of r = the (dget (hk_interner st) (name r))" for r
  have i: "dget (hk_interner st) (name r) = Some (id_of r)" "dget D (id_of r) = Some (g r)"
    if "r \<in> set q" for r using t [OF that] by (auto simp: id_of_def)
  have found: "\<exists>r \<in> set q. i = id_of r" if "i \<in> set (hk_seen st)" for i
  proof -
    have "\<exists>s. dget (hk_unintern st) i = Some s" using core_okD(8) [OF c that] .
    then obtain s where "dget (hk_unintern st) i = Some s" ..
    then have s: "dget (hk_interner st) s = Some i" using core_okD(4) [OF c, of s i] by simp
    have "dget (pt_paths (hk_tree st)) i \<noteq> None" using that core_okD(7) [OF c, of i] by simp
    then have "tracked st s \<noteq> None" using s by (simp add: tracked_def)
    then have "s \<in> name ` set q" unfolding last [symmetric] by blast
    then obtain r where r: "r \<in> set q" "s = name r" by blast
    then have "i = id_of r" using s i(1) [of r] by simp
    then show ?thesis using r by blast
  qed
  have "set D = set (map (\<lambda>r. (id_of r, g r)) q)"
  proof (intro equalityI subsetI)
    fix x assume "x \<in> set D"
    then have x: "dget D (fst x) = Some (snd x)" using wf by (simp add: dget_Some_iff_mem)
    have "fst x \<in> set (hk_seen st)" unfolding keys x by simp
    then obtain r where r: "r \<in> set q" "fst x = id_of r" using found by blast
    then have "snd x = g r" using x i(2) [of r] by simp
    then show "x \<in> set (map (\<lambda>r. (id_of r, g r)) q)" using r by (force simp: prod_eq_iff)
  next
    fix x assume "x \<in> set (map (\<lambda>r. (id_of r, g r)) q)"
    then show "x \<in> set D" using i(2) wf by (auto simp: dget_Some_iff_mem)
  qed
  moreover have "distinct (map (\<lambda>r. (id_of r, g r)) q)"
  proof -
    have "inj_on id_of (set q)"
    proof (rule inj_onI)
      fix r r' assume "r \<in> set q" "r' \<in> set q" "id_of r = id_of r'"
      then have "name r = name r'" using core_id [OF c] i(1) by metis
      then show "r = r'" using d \<open>r \<in> set q\<close> \<open>r' \<in> set q\<close> by (meson distinct_map inj_onD)
    qed
    then have "distinct (map id_of q)" using d by (simp add: distinct_map)
    then show ?thesis by (auto simp: distinct_map inj_on_def)
  qed
  moreover have "distinct D" using wf by (simp add: wf_dict_def distinct_map)
  ultimately have "mset D = mset (map (\<lambda>r. (id_of r, g r)) q)"
    using set_eq_iff_mset_eq_distinct by blast
  then have "image_mset snd (mset D) = image_mset snd (mset (map (\<lambda>r. (id_of r, g r)) q))" by simp
  then show "mset (map snd D) = mset (map g q)"
    by (simp add: image_mset.compositionality comp_def)
  show "set (hk_seen st) = {i. \<exists>r \<in> set q. dget (hk_interner st) (name r) = Some i}"
  proof (intro equalityI subsetI)
    fix j assume "j \<in> set (hk_seen st)"
    then show "j \<in> {i. \<exists>r \<in> set q. dget (hk_interner st) (name r) = Some i}" using found i(1) by blast
  next
    fix j assume "j \<in> {i. \<exists>r \<in> set q. dget (hk_interner st) (name r) = Some i}"
    then obtain r where "r \<in> set q" "j = id_of r" using i(1) by auto
    then show "j \<in> set (hk_seen st)" unfolding keys using i(2) by simp
  qed
qed

lemma paths_of_queue:
  assumes ok: "hook_ok st" and d: "distinct (map lr_rid q)" and last: "hk_last st = lr_rid ` set q"
    and t: "\<And>r. r \<in> set q \<Longrightarrow> tracked st (lr_rid r) = Some (lr_tokens r)"
  shows "mset (map snd (pt_paths (hk_tree st))) = mset (map lr_tokens q)"
    and "set (hk_seen st) = {i. \<exists>r \<in> set q. dget (hk_interner st) (lr_rid r) = Some i}"
proof -
  have c: "core_ok st" and l: "{s. tracked st s \<noteq> None} = lr_rid ` set q" using ok last by (simp_all add: hook_ok_def)
  have wd: "wf_dict (pt_paths (hk_tree st))" using core_okD(1) [OF c] by (simp add: pt_ok_def)
  have "\<exists>i. dget (hk_interner st) (lr_rid r) = Some i \<and> dget (pt_paths (hk_tree st)) i = Some (lr_tokens r)"
    if "r \<in> set q" for r using t [OF that] by (auto simp: tracked_def split: option.splits)
  note D = dict_of_queue [OF c wd core_okD(7) [OF c] d l this]
  show "mset (map snd (pt_paths (hk_tree st))) = mset (map lr_tokens q)"
    and "set (hk_seen st) = {i. \<exists>r \<in> set q. dget (hk_interner st) (lr_rid r) = Some i}" by (rule D, assumption)+
qed

section \<open>Every history of the queue\<close>

text \<open>
  What can happen to the hook's state: a synchronisation with whatever queue the scheduler shows,
  and the interning that \<open>calc_priority\<close> does for the requests it sorts.
\<close>

inductive hook_reach :: "sync_state \<Rightarrow> bool" where
  reach_init: "hook_reach hook_init"
| reach_sync: "hook_reach st \<Longrightarrow> sync phases now (q :: online_req list) st = Inr st' \<Longrightarrow> hook_reach st'"
| reach_intern: "hook_reach st \<Longrightarrow> hook_reach (fst (intern s st))"

lemma hook_ok_intern: "hook_ok st \<Longrightarrow> hook_ok (fst (intern s st))"
  unfolding hook_ok_def using intern_ok [of st s "fst (intern s st)" "snd (intern s st)"] by (metis prod.collapse)

lemma hook_reach_ok: "hook_reach st \<Longrightarrow> hook_ok st"
proof (induction rule: hook_reach.induct)
  case (reach_sync st phases now q st')
  then show ?case using sync_ok [of st phases now q] by auto
qed (simp_all add: hook_ok_init hook_ok_intern)

text \<open>
  C31: Whatever queues the scheduler has shown before, in whatever order, a synchronisation never
  raises (the \<open>ValueError\<close> of a duplicate insertion does not escape), and afterwards the pending tree
  is well formed, the two interning dictionaries are inverse to each other, and the requests tracked
  are exactly those of the queue; one that was tracked keeps the tokens it was inserted with.
\<close>

theorem sync_never_raises:
  assumes "hook_reach st"
  shows "\<exists>st'. sync phases now (q :: online_req list) st = Inr st' \<and> pt_ok (hk_tree st')
    \<and> (\<forall>s i. dget (hk_interner st') s = Some i \<longleftrightarrow> dget (hk_unintern st') i = Some s)
    \<and> {s. tracked st' s \<noteq> None} = lr_rid ` set q
    \<and> {s. tracked st' s \<noteq> tracked st s \<and> tracked st' s \<noteq> None \<and> tracked st s \<noteq> None} = {}"
proof -
  obtain st' where s: "sync phases now q st = Inr st'" "hook_ok st'" "hk_last st' = lr_rid ` set q"
    "\<forall>s. tracked st' s = (if s \<in> lr_rid ` set q then (case tracked st s of Some t \<Rightarrow> Some t | None \<Rightarrow> brought q s) else None)"
    using sync_ok [OF hook_reach_ok [OF assms]] by blast
  then have c: "core_ok st'" and l: "{s. tracked st' s \<noteq> None} = lr_rid ` set q" by (simp_all add: hook_ok_def)
  have "{s. tracked st' s \<noteq> tracked st s \<and> tracked st' s \<noteq> None \<and> tracked st s \<noteq> None} = {}" using s(4) by auto
  then show ?thesis using s(1) core_okD(1,4) [OF c] l by blast
qed

definition sample_online :: "string \<Rightarrow> int list \<Rightarrow> int list \<Rightarrow> online_req" where
  "sample_online s ids out = \<lparr>lr_rid = s, lr_prefix = None, lr_input = ids, lr_output = Some out, or_extra_key = None,
     or_last_node = None, or_last_host = None, or_host_hit = 0\<rparr>"

theorem sync_never_raises_witness:
  "\<exists>st'. sync True 1 [sample_online ''a'' [5, 6] []] hook_init = Inr st' \<and> {s. tracked st' s \<noteq> None} = {''a''}"
  using sync_never_raises [OF reach_init, of True 1 "[sample_online ''a'' [5, 6] []]"] by (auto simp: sample_online_def)

lemma synced:
  assumes "hook_reach st" and "distinct (map lr_rid q)"
    and "\<forall>r \<in> set q. tracked st (lr_rid r) \<in> {None, Some (lr_tokens r)}" and "p \<noteq> []"
  shows "\<exists>st'. sync phases now (q :: online_req list) st = Inr st' \<and> hook_ok st' \<and> hk_last st' = lr_rid ` set q
    \<and> (\<forall>r \<in> set q. tracked st' (lr_rid r) = Some (lr_tokens r))
    \<and> sync_violations q st' = (0, 0, 0) \<and> length (pt_paths (hk_tree st')) = length q
    \<and> pending_demand (hk_tree st') p = int (length (filter (\<lambda>r. prefix p (lr_tokens r)) q))"
proof -
  obtain st' where s: "sync phases now q st = Inr st'" "hook_ok st'" "hk_last st' = lr_rid ` set q"
    "\<forall>s. tracked st' s = (if s \<in> lr_rid ` set q then (case tracked st s of Some t \<Rightarrow> Some t | None \<Rightarrow> brought q s) else None)"
    using sync_ok [OF hook_reach_ok [OF assms(1)]] by blast
  have br: "brought q (lr_rid r) = Some (lr_tokens r)" if "r \<in> set q" for r
    using that assms(2) by (induction q) (auto simp: rev_image_eqI)
  have t: "tracked st' (lr_rid r) = Some (lr_tokens r)" if "r \<in> set q" for r
    using s(4) assms(3) br [OF that] that by (cases "tracked st (lr_rid r)") auto
  note P = paths_of_queue [OF s(2) assms(2) s(3) t]
  have "length (pt_paths (hk_tree st')) = length q" using arg_cong [OF P(1), of size] by simp
  moreover have "starting_with (pt_paths (hk_tree st')) p = length (filter (prefix p) (map snd (pt_paths (hk_tree st'))))"
    by (simp add: starting_with_def filter_map comp_def)
  then have "starting_with (pt_paths (hk_tree st')) p = length (filter (\<lambda>r. prefix p (lr_tokens r)) q)"
    using mset_filter_length [OF P(1), of "prefix p"] by (simp add: filter_map comp_def)
  moreover have "pt_ok (hk_tree st')" using s(2) by (simp add: hook_ok_def core_ok_def)
  moreover have "sync_violations q st' = (0, 0, 0)"
    using t P(2) by (fastforce simp: sync_violations_def Let_def tracked_def filter_empty_conv list_ex_iff split: option.splits)
  ultimately show ?thesis using s t pending_demand_eq [of "hk_tree st'" p] assms(4) by auto
qed

text \<open>
  C32: When the ids of the queue are distinct and the requests already tracked have kept their tokens,
  the tree holds exactly the queue after a synchronisation: the hook's own validation counts no
  violation, and the demand of a path is the number of waiting requests that start with it.
\<close>

theorem sync_exact:
  assumes "hook_reach st" and "distinct (map lr_rid q)"
    and "\<forall>r \<in> set q. tracked st (lr_rid r) \<in> {None, Some (lr_tokens r)}" and "p \<noteq> []"
  shows "\<exists>st'. sync phases now (q :: online_req list) st = Inr st' \<and> hook_ok st' \<and> hk_last st' = lr_rid ` set q
    \<and> (\<forall>r \<in> set q. tracked st' (lr_rid r) = Some (lr_tokens r))
    \<and> sync_violations q st' = (0, 0, 0) \<and> length (pt_paths (hk_tree st')) = length q
    \<and> pending_demand (hk_tree st') p = int (length (filter (\<lambda>r. prefix p (lr_tokens r)) q))"
  using assms by (rule synced)

theorem sync_exact_witness:
  "\<exists>st'. sync True 1 [sample_online ''a'' [5, 6] [], sample_online ''b'' [5] [7]] hook_init = Inr st'
     \<and> pending_demand (hk_tree st') [5] = 2"
proof -
  let ?q = "[sample_online ''a'' [5, 6] [], sample_online ''b'' [5] [7]]"
  have "\<forall>r \<in> set ?q. tracked hook_init (lr_rid r) \<in> {None, Some (lr_tokens r)}" by (simp add: hook_init_def tracked_def)
  from sync_exact [OF reach_init _ this, of "[5]" True 1] show ?thesis by (auto simp: sample_online_def lr_tokens_def)
qed

section \<open>Limits of the synchronisation\<close>

text \<open>
  The fast path and the slow one compare ids only: a request that was gone and is back between two
  synchronisations with longer output keeps its old tokens, and the validation then reports it.
\<close>

lemma stale_after_return:
  "\<exists>st st'. sync True 1 [sample_online ''a'' [5] []] hook_init = Inr st
     \<and> sync True 2 [sample_online ''a'' [5] [6]] st = Inr st' \<and> st' = st
     \<and> sync_violations [sample_online ''a'' [5] [6]] st' = (0, 0, 1)"
proof -
  let ?q = "[sample_online ''a'' [5] []]"
  have "\<forall>r \<in> set ?q. tracked hook_init (lr_rid r) \<in> {None, Some (lr_tokens r)}" by (simp add: hook_init_def tracked_def)
  from synced [OF reach_init _ this, of "[5]" True 1]
  obtain st where st: "sync True 1 ?q hook_init = Inr st" "hk_last st = {''a''}" "tracked st ''a'' = Some [5]"
    "sync_violations ?q st = (0, 0, 0)" by (auto simp: sample_online_def lr_tokens_def)
  have "sync True 2 [sample_online ''a'' [5] [6]] st = Inr st" using st(2) by (simp add: sync_def sample_online_def)
  moreover have "sync_violations [sample_online ''a'' [5] [6]] st = (0, 0, 1)"
    using st(3,4) by (auto simp: sync_violations_def tracked_def sample_online_def lr_tokens_def split: option.splits)
  ultimately show ?thesis using st(1) by blast
qed

text \<open>An id interned outside a synchronisation is only dropped when its request is tracked at some point.\<close>

lemma interned_only_stays:
  "sync True 1 ([] :: online_req list) (fst (intern ''a'' hook_init)) = Inr (fst (intern ''a'' hook_init))
   \<and> dget (hk_interner (fst (intern ''a'' hook_init))) ''a'' = Some 1"
  by (simp add: sync_def intern_def hook_init_def)

text \<open>The time stamps: a request that leaves the queue is marked as picked, once.\<close>

lemma dget_mark_picked:
  "dget (mark_picked now gone phases) s =
     map_option (\<lambda>ph. if s \<in> gone \<and> pick_ts ph = None then ph\<lparr>pick_ts := Some now\<rparr> else ph) (dget phases s)"
  unfolding mark_picked_def by (induction phases) auto

end
