(* ===== verification/Online_Sched.thy ===== *)
theory Online_Sched
  imports Cache_Match Online_Config Online_Sync Lpm_Props Radix_Evict
begin

text \<open>
  The scheduling hook (\<open>_patched_calc_priority\<close> of
  \<open>src/python/peek/online/engines/sglang/patch_hook.py\<close>): prefix matching of the queue, the dual walk of
  the pending tree against the server's cache, the PEEK sorts, and matching of the front of the queue
  afterwards in the lazy mode. SGLang's own \<open>calc_priority\<close>, which is installed and not under \<open>src/\<close>, is
  a parameter; profiling and the comparison that only writes a log are left out.
\<close>

section \<open>The dual walk with a callback that may raise\<close>

function dualwalk_run ::
  "(int list \<Rightarrow> int run) \<Rightarrow> nat \<Rightarrow> pnode list \<Rightarrow> int \<Rightarrow> bool \<Rightarrow> int list \<Rightarrow> (int, int) pydict \<Rightarrow> (int, int) pydict run"
where
  "dualwalk_run cb min_count [] hit established path out = ret out"
| "dualwalk_run cb min_count (child # todo) hit established path out =
     obind
       (if established \<and> pn_count child < min_count then ret (assign_subtree [child] hit out)
        else let path' = path @ pn_edge child in
          obind (cb path') (\<lambda>match_len.
            if int (length path') \<le> match_len
            then dualwalk_run cb min_count (rev (dvals (pn_kids child))) (int (length path')) True path'
                   (foldl (\<lambda>d r. dset r (int (length path')) d) out (pn_terms child))
            else ret (assign_subtree [child] match_len out)))
       (\<lambda>out'. dualwalk_run cb min_count todo hit established path out')"
  by pat_completeness auto
termination
  by (relation "measure (\<lambda>(_, _, todo, _). stack_psize todo)") (auto simp: psize_kids)

definition main_hits_run :: "(int list \<Rightarrow> int run) \<Rightarrow> nat \<Rightarrow> pending_tree \<Rightarrow> (int, int) pydict run" where
  "main_hits_run cb min_count T =
     dualwalk_run cb min_count (rev (dvals (pn_kids (pt_root T)))) 0 False []
       (foldl (\<lambda>d r. dset r 0 d) [] (pn_terms (pt_root T)))"

lemma dualwalk_run_ret:
  "dualwalk_run (\<lambda>p. ret (cm p)) m todo hit est path out = ret (dualwalk cm m todo hit est path out)"
proof (induction cm m todo hit est path out rule: dualwalk.induct)
  case (2 cm m child todo hit est path out)
  consider "est \<and> pn_count child < m" | "\<not> (est \<and> pn_count child < m)" "int (length (path @ pn_edge child)) \<le> cm (path @ pn_edge child)"
    | "\<not> (est \<and> pn_count child < m)" "\<not> int (length (path @ pn_edge child)) \<le> cm (path @ pn_edge child)" by blast
  then show ?case
    by cases (use 2 in \<open>simp_all only: dualwalk.simps dualwalk_run.simps Let_def if_True if_False obind_simps simp_thms\<close>)
qed simp

lemma main_hits_run_ret: "main_hits_run (\<lambda>p. ret (cm p)) m T = ret (compute_main_hits cm m T)"
  by (simp add: main_hits_run_def compute_main_hits_def dualwalk_run_ret)

definition cache_callback :: "radix_cache \<Rightarrow> int list \<Rightarrow> int run" where
  "cache_callback c toks = (case cache_match c toks of None \<Rightarrow> None | Some l \<Rightarrow> ret l)"

text \<open>An exception of the walk is caught: the sorts then use the lengths of the matches.\<close>

definition walk_hits :: "radix_cache \<Rightarrow> pending_tree \<Rightarrow> (int, int) pydict option run" where
  "walk_hits c T =
     (case main_hits_run (cache_callback c) 1 T of
        None \<Rightarrow> None
      | Some (Inl e) \<Rightarrow> ret None
      | Some (Inr hits) \<Rightarrow> ret (Some hits))"

section \<open>Matching\<close>

record hook_env =
  he_flags :: hook_flags
  he_cfg :: rc_config
  he_check :: int
  he_depr :: int
  he_host_hit :: int
  he_tree_id :: int

text \<open>\<open>he_host_hit\<close> is the default of \<open>host_hit_length\<close> in SGLang's match result.\<close>

definition request_key :: "online_req \<Rightarrow> radix_key" where
  "request_key r = \<lparr>token_ids = lr_tokens r, extra_key = or_extra_key r, is_bigram = False\<rparr>"

definition copy_online :: "hook_env \<Rightarrow> match_result \<Rightarrow> online_req \<Rightarrow> online_req" where
  "copy_online e m r =
     r\<lparr>lr_prefix := Some (device_indices m), or_last_node := Some (last_device_node m),
       or_last_host := Some (last_host_node m), or_host_hit := he_host_hit e\<rparr>"

fun eager_match ::
  "hook_env \<Rightarrow> (nat \<Rightarrow> nat \<Rightarrow> pyfloat) \<Rightarrow> nat \<Rightarrow> online_req list \<Rightarrow> radix_cache \<Rightarrow> (online_req list \<times> radix_cache) run"
where
  "eager_match e tm k [] c = ret ([], c)"
| "eager_match e tm k (r # rs) c =
     obind (match_with True (he_cfg e) (tm k) (request_key r) c) (\<lambda>(c1, m).
       obind (eager_match e tm (k + 1) rs c1) (\<lambda>(rs', c2). ret (copy_online e m r # rs', c2)))"

text \<open>The first \<open>n\<close> requests, those without a match only.\<close>

fun lazy_match ::
  "hook_env \<Rightarrow> (nat \<Rightarrow> nat \<Rightarrow> pyfloat) \<Rightarrow> nat \<Rightarrow> online_req list \<Rightarrow> radix_cache \<Rightarrow> (online_req list \<times> radix_cache) run"
where
  "lazy_match e tm n [] c = ret ([], c)"
| "lazy_match e tm 0 (r # rs) c = ret (r # rs, c)"
| "lazy_match e tm (Suc n) (r # rs) c =
     (if lr_prefix r \<noteq> None \<and> lr_prefix r \<noteq> Some []
      then obind (lazy_match e tm n rs c) (\<lambda>(rs', c2). ret (r # rs', c2))
      else obind (match_with True (he_cfg e) (tm n) (request_key r) c) (\<lambda>(c1, m).
             obind (lazy_match e tm n rs c1) (\<lambda>(rs', c2). ret (copy_online e m r # rs', c2))))"

section \<open>The hook\<close>

fun intern_all :: "'a lpm_req_scheme list \<Rightarrow> sync_state \<times> (string, int) pydict \<Rightarrow> sync_state \<times> (string, int) pydict" where
  "intern_all [] acc = acc"
| "intern_all (r # rs) acc = intern_all rs (case intern (lr_rid r) (fst acc) of (st, i) \<Rightarrow> (st, dset (lr_rid r) i (snd acc)))"

text \<open>The arrival times of the queued requests only.\<close>

definition arrivals :: "sync_state \<Rightarrow> 'a lpm_req_scheme list \<Rightarrow> (string, pyfloat) pydict" where
  "arrivals st q =
     foldl (\<lambda>d r. case dget (hk_phases st) (lr_rid r) of None \<Rightarrow> d | Some ph \<Rightarrow> dset (lr_rid r) (arrive_ts ph) d) [] q"

definition sort_params_of :: "hook_env \<Rightarrow> sort_params" where
  "sort_params_of e =
     \<lparr>check_thr = he_check e, depr_thr = he_depr e, by_cluster = hf_rank (he_flags e), lpm_only = hf_lpm (he_flags e)\<rparr>"

definition clpm_params_of :: "hook_env \<Rightarrow> clpm_params" where
  "clpm_params_of e =
     \<lparr>cl_check = he_check e, cl_depr = he_depr e, cl_age_alpha = hf_age_alpha (he_flags e),
      cl_big_share = hf_big_share (he_flags e), cl_group_major = hf_group_major (he_flags e),
      cl_dynamic = hf_dynamic (he_flags e), cl_slo = hf_slo (he_flags e)\<rparr>"

text \<open>Cluster-LPM when it is on, whatever the other flags say.\<close>

definition hook_sort ::
  "hook_env \<Rightarrow> pyfloat \<Rightarrow> sync_state \<Rightarrow> (string, int) pydict \<Rightarrow> (int, int) pydict option \<Rightarrow> online_req list \<Rightarrow>
     (int, pyfloat) pydict \<Rightarrow> (online_req list \<times> (int, pyfloat) pydict) run"
where
  "hook_sort e clock st ids hits q dyn =
     (let info = all_cluster_info (hk_tree st) in
      if hf_clpm (he_flags e)
      then (case peek_clpm_sort (clpm_params_of e) (he_tree_id e) ids info (compute_req_scores (hk_tree st)) hits clock
                   (if hf_phases (he_flags e) then arrivals st q else []) q dyn of
              None \<Rightarrow> None
            | Some (q', _, dyn') \<Rightarrow> ret (q', dyn'))
      else ret (fst (peek_sort (sort_params_of e) ids info hits q), dyn))"

record hook_world =
  hw_hook :: sync_state
  hw_cache :: radix_cache
  hw_dyn :: "(int, pyfloat) pydict"

text \<open>
  The third component of the result is what the method returns: \<open>None\<close> after the fallback to the
  arrival order, else \<open>True\<close>; \<open>orig\<close> is SGLang's method, for every policy but LPM.
\<close>

definition patched_calc_priority ::
  "hook_env \<Rightarrow> (nat \<Rightarrow> nat \<Rightarrow> pyfloat) \<Rightarrow> pyfloat \<Rightarrow>
     (hook_world \<Rightarrow> online_req list \<Rightarrow> (hook_world \<times> online_req list \<times> bool option) run) \<Rightarrow>
     sched_policy \<Rightarrow> hook_world \<Rightarrow> online_req list \<Rightarrow> (hook_world \<times> online_req list \<times> bool option) run"
where
  "patched_calc_priority e tm clock orig policy w q =
     (let f = he_flags e in
      if policy \<noteq> Lpm then orig w q
      else if hf_lpm f \<and> hf_fb_threshold f < int (length q) then ret (w, q, None)
      else obind (if hf_lazy f then ret (q, hw_cache w) else eager_match e tm 0 q (hw_cache w)) (\<lambda>(q1, c1).
        let (st1, ids) = intern_all q1 (hw_hook w, []) in
        obind (if hf_skip_dualwalk f then ret None else walk_hits c1 (hk_tree st1)) (\<lambda>hits.
        obind (hook_sort e clock st1 ids hits q1 (hw_dyn w)) (\<lambda>(q2, dyn').
        obind (if hf_lazy f then lazy_match e tm (nat (hf_lazy_k f)) q2 c1 else ret (q2, c1)) (\<lambda>(q3, c2).
          ret (\<lparr>hw_hook = st1, hw_cache = c2, hw_dyn = dyn'\<rparr>, q3, Some True))))))"

section \<open>The sorts only look at the hits of the queue\<close>

lemma claim_loop_cong:
  "(\<And>r. r \<in> set q \<Longrightarrow> h r = h' r) \<Longrightarrow> claim_loop h check k seen dep q = claim_loop h' check k seen dep q"
  by (induction q arbitrary: seen dep) (simp_all add: Let_def)

lemma section_loop_cong:
  "(\<And>r. r \<in> set q \<Longrightarrow> h r = h' r) \<Longrightarrow> section_loop h check k seen sec dep q = section_loop h' check k seen sec dep q"
  by (induction q arbitrary: seen sec dep) (simp_all add: Let_def)

lemma peek_sort_cong:
  assumes "\<And>r. r \<in> set q \<Longrightarrow> main_hit ids hits r = main_hit ids hits' r"
  shows "peek_sort sp ids info hits q = peek_sort sp ids info hits' q"
proof -
  have d: "in_batch_deprioritize (main_hit ids hits) check thr q = in_batch_deprioritize (main_hit ids hits') check thr q" for check thr
    unfolding in_batch_deprioritize_def by (rule if_cong [OF refl refl], rule claim_loop_cong) (rule assms)
  have m: "map (\<lambda>r. (main_hit ids hits r, lr_rid r \<in> dep)) q = map (\<lambda>r. (main_hit ids hits' r, lr_rid r \<in> dep)) q" for dep
    using assms by simp
  have s: "sort_key (\<lambda>r. (- main_hit ids hits r, f r)) q = sort_key (\<lambda>r. (- main_hit ids hits' r, f r)) q" for f :: "_ \<Rightarrow> int \<times> nat \<times> string"
    by (rule sort_key_agree) (simp add: assms)
  have s': "sort_key (\<lambda>r. (- main_hit ids hits r, f r)) q = sort_key (\<lambda>r. (- main_hit ids hits' r, f r)) q" for f :: "_ \<Rightarrow> nat \<times> string"
    by (rule sort_key_agree) (simp add: assms)
  show ?thesis unfolding peek_sort_def Let_def d m s s' ..
qed

lemma peek_clpm_sort_cong:
  assumes "\<And>r. r \<in> set q \<Longrightarrow> main_hit ids hits r = main_hit ids hits' r"
  shows "peek_clpm_sort cp tid ids info scores hits clock arr q dyn = peek_clpm_sort cp tid ids info scores hits' clock arr q dyn"
proof -
  have m: "map (meta_of cp sec info scores ids (main_hit ids hits) now arr) q = map (meta_of cp sec info scores ids (main_hit ids hits') now arr) q"
    for sec now using assms by (simp add: meta_of_def)
  have sec: "section_loop (main_hit ids hits) check k {} [] {} q = section_loop (main_hit ids hits') check k {} [] {} q" for check k
    by (rule section_loop_cong) (rule assms)
  show ?thesis unfolding peek_clpm_sort_def Let_def sec m ..
qed

section \<open>The hits of the walk are the lengths of the matches\<close>

lemma walk_hits_ok:
  assumes pg: "page_size cfg = 1" and ok: "rc_ok cfg S c"
  shows "walk_hits c T = ret (Some (compute_main_hits (cache_hit c) 1 T))"
proof -
  have "cache_callback c = (\<lambda>p. ret (cache_hit c p))"
  proof
    fix p
    obtain l where "cache_match c p = Some l" using cache_match_total [OF pg ok] by blast
    then show "cache_callback c p = ret (cache_hit c p)" by (simp add: cache_callback_def cache_hit_def)
  qed
  then show ?thesis using main_hits_run_ret [of "cache_hit c" 1 T] by (simp add: walk_hits_def ret_def)
qed

text \<open>A request after its match: the same request, carrying as many indices as the cache holds of it.\<close>

definition matched_online :: "radix_cache \<Rightarrow> online_req \<Rightarrow> online_req \<Rightarrow> bool" where
  "matched_online c r r' \<longleftrightarrow> lr_rid r' = lr_rid r \<and> lr_tokens r' = lr_tokens r \<and> or_extra_key r' = or_extra_key r
     \<and> (\<exists>idx. lr_prefix r' = Some idx \<and> (or_extra_key r = None \<longrightarrow> cache_match c (lr_tokens r) = Some (int (length idx))))"

lemma eager_match_ok:
  assumes pg: "page_size (he_cfg e) = 1" and cfg: "bigram (he_cfg e) = None" "\<not> disable (he_cfg e)"
  shows "rc_ok (he_cfg e) S c \<Longrightarrow> \<exists>q' c' S'. eager_match e tm k q c = ret (q', c') \<and> S \<subseteq> S' \<and> rc_ok (he_cfg e) S' c'
    \<and> (\<forall>toks. cache_match c' toks = cache_match c toks) \<and> list_all2 (matched_online c) q q'"
proof (induction q arbitrary: k c S)
  case Nil
  then show ?case by auto
next
  case (Cons r q)
  obtain c1 S1 m where 1: "match_with True (he_cfg e) (tm k) (request_key r) c = ret (c1, m)" "S \<subseteq> S1" "rc_ok (he_cfg e) S1 c1"
    "undisturbed S c c1" "root_node c1 = root_node c"
    "extra_key (request_key r) = None \<and> bigram (he_cfg e) = None \<and> \<not> disable (he_cfg e) \<longrightarrow>
       cache_match c (token_ids (request_key r)) = Some (int (length (device_indices m)))"
    using match_with_hits [OF pg Cons.prems, of True "tm k" "request_key r"] by (elim exE conjE) (rule that)
  have st: "cache_match c1 toks = cache_match c toks" for toks by (rule cache_match_stable [OF pg Cons.prems 1(4,5)])
  obtain q' c' S' where 2: "eager_match e tm (k + 1) q c1 = ret (q', c')" "S1 \<subseteq> S'" "rc_ok (he_cfg e) S' c'"
    "\<forall>toks. cache_match c' toks = cache_match c1 toks" "list_all2 (matched_online c1) q q'"
    using Cons.IH [OF 1(3)] by blast
  have "matched_online c r (copy_online e m r)"
    using 1(6) cfg by (simp add: matched_online_def copy_online_def request_key_def lr_tokens_def)
  moreover have c1: "matched_online c1 = matched_online c" by (intro ext) (simp add: matched_online_def st)
  moreover have "list_all2 (matched_online c) q q'" using 2(5) c1 by simp
  moreover have "eager_match e tm k (r # q) c = ret (copy_online e m r # q', c')" using 1(1) 2(1) by simp
  ultimately show ?case using 2(2-4) 1(2) st
    by (intro exI [of _ "copy_online e m r # q'"] exI [of _ c'] exI [of _ S']) auto
qed

lemma intern_all_core:
  "core_ok st \<Longrightarrow> \<exists>st' d'. intern_all q (st, d) = (st', d') \<and> core_ok st' \<and> tracked st' = tracked st \<and> hk_tree st' = hk_tree st \<and> hk_seen st' = hk_seen st
    \<and> hk_last st' = hk_last st \<and> hk_phases st' = hk_phases st
    \<and> (\<forall>s i. dget (hk_interner st) s = Some i \<longrightarrow> dget (hk_interner st') s = Some i)
    \<and> (\<forall>s. dget d' s = (if s \<in> lr_rid ` set q then dget (hk_interner st') s else dget d s))
    \<and> (\<forall>s \<in> lr_rid ` set q. dget (hk_interner st') s \<noteq> None)"
proof (induction q arbitrary: st d)
  case (Cons r q)
  obtain st1 i where n: "intern (lr_rid r) st = (st1, i)" by (cases "intern (lr_rid r) st")
  have keep: "\<forall>s j. dget (hk_interner st) s = Some j \<longrightarrow> dget (hk_interner st1) s = Some j"
    using n by (auto simp: intern_def Let_def dict_simps split: option.splits)
  have 1: "core_ok st1" "dget (hk_interner st1) (lr_rid r) = Some i" "tracked st1 = tracked st" "hk_tree st1 = hk_tree st" "hk_seen st1 = hk_seen st"
    "hk_last st1 = hk_last st" "hk_phases st1 = hk_phases st"
    using intern_ok [OF Cons.prems n] by simp_all
  obtain st' d' where 2: "intern_all q (st1, dset (lr_rid r) i d) = (st', d')" "core_ok st'" "tracked st' = tracked st1"
    "hk_tree st' = hk_tree st1" "hk_seen st' = hk_seen st1" "hk_last st' = hk_last st1" "hk_phases st' = hk_phases st1"
    "\<forall>s i. dget (hk_interner st1) s = Some i \<longrightarrow> dget (hk_interner st') s = Some i"
    "\<forall>s. dget d' s = (if s \<in> lr_rid ` set q then dget (hk_interner st') s else dget (dset (lr_rid r) i d) s)"
    "\<forall>s \<in> lr_rid ` set q. dget (hk_interner st') s \<noteq> None"
    using Cons.IH [OF 1(1), of "dset (lr_rid r) i d"] by (elim exE conjE) (rule that)
  have i: "dget (hk_interner st') (lr_rid r) = Some i" using 2(8) 1(2) by blast
  have "dget d' s = (if s \<in> lr_rid ` set (r # q) then dget (hk_interner st') s else dget d s)" for s
    using 2(9) i by (auto simp: dict_simps)
  then show ?case using 1 2 keep i n
    by (intro exI [of _ st'] exI [of _ d']) simp
qed simp

lemma intern_all_ok:
  assumes "hook_ok st"
  shows "\<exists>st' d'. intern_all q (st, d) = (st', d') \<and> hook_ok st' \<and> tracked st' = tracked st \<and> hk_tree st' = hk_tree st
    \<and> hk_last st' = hk_last st \<and> hk_phases st' = hk_phases st
    \<and> (\<forall>s i. dget (hk_interner st) s = Some i \<longrightarrow> dget (hk_interner st') s = Some i)
    \<and> (\<forall>s. dget d' s = (if s \<in> lr_rid ` set q then dget (hk_interner st') s else dget d s))
    \<and> (\<forall>s \<in> lr_rid ` set q. dget (hk_interner st') s \<noteq> None)"
proof -
  have "core_ok st" using assms by (simp add: hook_ok_def)
  from intern_all_core [OF this, of q d] obtain st' d' where i: "intern_all q (st, d) = (st', d')" "core_ok st'"
    "tracked st' = tracked st" "hk_tree st' = hk_tree st" "hk_last st' = hk_last st" "hk_phases st' = hk_phases st"
    "\<forall>s i. dget (hk_interner st) s = Some i \<longrightarrow> dget (hk_interner st') s = Some i"
    "\<forall>s. dget d' s = (if s \<in> lr_rid ` set q then dget (hk_interner st') s else dget d s)"
    "\<forall>s \<in> lr_rid ` set q. dget (hk_interner st') s \<noteq> None" by (elim exE conjE) (rule that)
  have "hook_ok st'" using assms i(2) unfolding hook_ok_def i(3,5) by blast
  then show ?thesis using i by (intro exI [of _ st'] exI [of _ d'] conjI) assumption+
qed


text \<open>With the tree in step with the queue, the hit of each request is the length of its match.\<close>

lemma hits_are_matches:
  assumes ok: "hook_ok st" and m: "list_all2 (matched_online c0) q q'" and c0: "\<And>toks. cache_match c toks = cache_match c0 toks"
    and t: "\<And>r. r \<in> set q \<Longrightarrow> tracked st (lr_rid r) = Some (lr_tokens r) \<and> or_extra_key r = None"
    and ids: "\<And>s. s \<in> lr_rid ` set q \<Longrightarrow> dget ids s = dget (hk_interner st) s" and r: "r' \<in> set q'"
  shows "main_hit ids (Some (compute_main_hits (cache_hit c) 1 (hk_tree st))) r' = main_hit ids None r'"
proof -
  obtain r where r: "r \<in> set q" "matched_online c0 r r'" using m r by (metis in_set_conv_nth list_all2_conv_all_nth)
  then obtain idx where i: "lr_rid r' = lr_rid r" "lr_prefix r' = Some idx" "cache_match c0 (lr_tokens r) = Some (int (length idx))"
    using t by (auto simp: matched_online_def)
  obtain j where j: "dget (hk_interner st) (lr_rid r) = Some j" "dget (pt_paths (hk_tree st)) j = Some (lr_tokens r)"
    using t [OF r(1)] by (auto simp: tracked_def split: option.splits)
  have "pt_ok (hk_tree st)" using ok by (simp add: hook_ok_def core_ok_def)
  then have "dget (compute_main_hits (cache_hit c) 1 (hk_tree st)) j = Some (cache_hit c (lr_tokens r))"
    using server_cache.main_hits_eq [of "hk_tree st" c j] j(2) by simp
  then show ?thesis using i j(1) ids [of "lr_rid r"] r(1) c0 by (simp add: main_hit_def prefix_hit_def dget_or_def cache_hit_def)
qed

section \<open>What the hook guarantees\<close>

text \<open>
  A queue in step with the hook: distinct ids, and each request tracked with its tokens; the state a
  synchronisation leaves (\<open>synced\<close>).
\<close>

definition in_step :: "online_req list \<Rightarrow> sync_state \<Rightarrow> bool" where
  "in_step q st \<longleftrightarrow> hook_ok st \<and> (\<forall>r \<in> set q. tracked st (lr_rid r) = Some (lr_tokens r))"

definition plain_server :: "hook_env \<Rightarrow> nat set \<Rightarrow> radix_cache \<Rightarrow> bool" where
  "plain_server e S c \<longleftrightarrow> page_size (he_cfg e) = 1 \<and> bigram (he_cfg e) = None \<and> \<not> disable (he_cfg e) \<and> rc_ok (he_cfg e) S c"

definition skipping :: "hook_env \<Rightarrow> hook_env" where
  "skipping e = e\<lparr>he_flags := (he_flags e)\<lparr>hf_skip_dualwalk := True\<rparr>\<rparr>"

lemma skipping_same [simp]:
  "he_cfg (skipping e) = he_cfg e" "sort_params_of (skipping e) = sort_params_of e" "clpm_params_of (skipping e) = clpm_params_of e"
  "he_tree_id (skipping e) = he_tree_id e" "hf_clpm (he_flags (skipping e)) = hf_clpm (he_flags e)"
  "hf_phases (he_flags (skipping e)) = hf_phases (he_flags e)" "hf_lpm (he_flags (skipping e)) = hf_lpm (he_flags e)"
  "hf_fb_threshold (he_flags (skipping e)) = hf_fb_threshold (he_flags e)" "hf_lazy (he_flags (skipping e)) = hf_lazy (he_flags e)"
  "hf_skip_dualwalk (he_flags (skipping e))" "copy_online (skipping e) = copy_online e"
  by (simp_all add: skipping_def sort_params_of_def clpm_params_of_def copy_online_def fun_eq_iff)

lemma eager_match_skipping [simp]: "eager_match (skipping e) tm k q c = eager_match e tm k q c"
  by (induction q arbitrary: k c) (simp_all add: obind_def split: option.splits sum.splits)

lemma hook_sort_skipping [simp]: "hook_sort (skipping e) clock st ids hits q dyn = hook_sort e clock st ids hits q dyn"
  by (simp add: hook_sort_def Let_def)

text \<open>One run, step by step, with the eager matching.\<close>

lemma eager_run:
  assumes srv: "plain_server e S (hw_cache w)" and st: "in_step q (hw_hook w)"
    and ex: "\<forall>r \<in> set q. or_extra_key r = None" and lazy: "\<not> hf_lazy (he_flags e)"
    and short: "\<not> (hf_lpm (he_flags e) \<and> hf_fb_threshold (he_flags e) < int (length q))"
  shows "\<exists>q1 c1 S1 st1 ids. eager_match e tm 0 q (hw_cache w) = ret (q1, c1) \<and> rc_ok (he_cfg e) S1 c1
    \<and> list_all2 (matched_online (hw_cache w)) q q1 \<and> hook_ok st1 \<and> tracked st1 = tracked (hw_hook w) \<and> hk_tree st1 = hk_tree (hw_hook w)
    \<and> intern_all q1 (hw_hook w, []) = (st1, ids)
    \<and> (\<forall>e' \<in> {e, skipping e}. patched_calc_priority e' tm clock orig Lpm w q =
         obind (hook_sort e clock st1 ids None q1 (hw_dyn w)) (\<lambda>(q2, dyn').
           ret (\<lparr>hw_hook = st1, hw_cache = c1, hw_dyn = dyn'\<rparr>, q2, Some True)))"
proof -
  have pg: "page_size (he_cfg e) = 1" and cfg: "bigram (he_cfg e) = None" "\<not> disable (he_cfg e)" and ok: "rc_ok (he_cfg e) S (hw_cache w)"
    using srv by (simp_all add: plain_server_def)
  obtain q1 c1 S1 where m: "eager_match e tm 0 q (hw_cache w) = ret (q1, c1)" "rc_ok (he_cfg e) S1 c1"
    "\<forall>toks. cache_match c1 toks = cache_match (hw_cache w) toks" "list_all2 (matched_online (hw_cache w)) q q1"
    using eager_match_ok [OF pg cfg ok] by blast
  have hok: "hook_ok (hw_hook w)" using st by (simp add: in_step_def)
  obtain st1 ids where i: "intern_all q1 (hw_hook w, []) = (st1, ids)" "hook_ok st1" "tracked st1 = tracked (hw_hook w)"
    "hk_tree st1 = hk_tree (hw_hook w)" "\<forall>s. dget ids s = (if s \<in> lr_rid ` set q1 then dget (hk_interner st1) s else dget [] s)"
    using intern_all_ok [OF hok, of q1 "[]"] by (elim exE conjE) (rule that)
  have rids: "lr_rid ` set q = lr_rid ` set q1"
  proof -
    have "map lr_rid q = map lr_rid q1" using m(4) by (induction rule: list_all2_induct) (simp_all add: matched_online_def)
    then show ?thesis by (metis list.set_map)
  qed
  have hit: "main_hit ids (Some (compute_main_hits (cache_hit c1) 1 (hk_tree st1))) r' = main_hit ids None r'" if "r' \<in> set q1" for r'
    by (rule hits_are_matches [OF i(2) m(4) m(3) [rule_format] _ _ that]) (use i(3,5) st ex rids in \<open>auto simp: in_step_def\<close>)
  let ?hits = "Some (compute_main_hits (cache_hit c1) 1 (hk_tree st1))"
  have ps: "peek_sort sp ids info ?hits q1 = peek_sort sp ids info None q1" for sp info
    by (rule peek_sort_cong) (rule hit)
  have pc: "peek_clpm_sort cp tid ids info sc ?hits cl arr q1 dyn = peek_clpm_sort cp tid ids info sc None cl arr q1 dyn"
    for cp tid info sc cl arr dyn by (rule peek_clpm_sort_cong) (rule hit)
  have hs: "hook_sort e clock st1 ids (Some (compute_main_hits (cache_hit c1) 1 (hk_tree st1))) q1 (hw_dyn w) =
      hook_sort e clock st1 ids None q1 (hw_dyn w)"
    unfolding hook_sort_def Let_def ps pc ..
  have "patched_calc_priority e' tm clock orig Lpm w q =
      obind (hook_sort e clock st1 ids None q1 (hw_dyn w)) (\<lambda>(q2, dyn').
        ret (\<lparr>hw_hook = st1, hw_cache = c1, hw_dyn = dyn'\<rparr>, q2, Some True))" if "e' \<in> {e, skipping e}" for e'
    using that m(1) i(1) lazy short walk_hits_ok [OF pg m(2), of "hk_tree st1"] hs
    by (auto simp: patched_calc_priority_def Let_def case_prod_unfold)
  then show ?thesis using m i
    by (intro exI [of _ q1] exI [of _ c1] exI [of _ S1] exI [of _ st1] exI [of _ ids]) simp
qed

text \<open>
  C33: On a cache of page size 1 and a queue in step whose requests have no extra key, the single dual
  walk gives the sorts exactly what one match per request gives them: in every mode (LPM, cluster
  groups, Cluster-LPM), with eager matching, the outcome of a scheduling round is the outcome with the
  ablation flag that skips the walk.
\<close>

theorem dual_walk_is_faithful:
  assumes "plain_server e S (hw_cache w)" and "in_step q (hw_hook w)" and "\<forall>r \<in> set q. or_extra_key r = None"
    and "\<not> hf_lazy (he_flags e)"
  shows "patched_calc_priority e tm clock orig policy w q = patched_calc_priority (skipping e) tm clock orig policy w q"
proof (cases "policy = Lpm \<and> \<not> (hf_lpm (he_flags e) \<and> hf_fb_threshold (he_flags e) < int (length q))")
  case True
  then have short: "\<not> (hf_lpm (he_flags e) \<and> hf_fb_threshold (he_flags e) < int (length q))" by blast
  obtain x where "\<forall>e' \<in> {e, skipping e}. patched_calc_priority e' tm clock orig Lpm w q = x"
    using eager_run [OF assms short, of tm clock orig] by (elim exE conjE) (rule that)
  then show ?thesis using True by simp
next
  case False
  then show ?thesis by (auto simp: patched_calc_priority_def Let_def)
qed

text \<open>
  C34: In the LPM mode a round returns \<open>True\<close> with the requests of the queue in the order of stock LPM:
  stably sorted by descending length of the match they now carry, the deprioritized ones last in
  arrival order, where an id is deprioritized exactly when a cold request with it shares its first
  threshold tokens with an earlier cold one. The cache stays well formed and the pending tree as it was.
\<close>

theorem lpm_round_is_stock:
  assumes "plain_server e S (hw_cache w)" and "in_step q (hw_hook w)" and "\<forall>r \<in> set q. or_extra_key r = None"
    and "\<not> hf_lazy (he_flags e)" and "\<not> hf_fb_threshold (he_flags e) < int (length q)"
    and "hf_lpm (he_flags e)" and "\<not> hf_clpm (he_flags e)" and "0 \<le> he_check e" and "0 \<le> he_depr e"
  shows "\<exists>w' q' q1 dep S'. patched_calc_priority e tm clock orig Lpm w q = ret (w', q', Some True)
    \<and> list_all2 (matched_online (hw_cache w)) q q1
    \<and> q' = sort_key (\<lambda>r. if lr_rid r \<in> dep then (1 :: nat, 0) else (0, - prefix_hit r)) q1
    \<and> dep = {lr_rid (q1 ! i) | i. sibling_at prefix_hit (he_check e) (nat (he_depr e)) q1 i}
    \<and> rc_ok (he_cfg e) S' (hw_cache w') \<and> hk_tree (hw_hook w') = hk_tree (hw_hook w) \<and> hook_ok (hw_hook w')"
proof -
  obtain q1 c1 S1 st1 ids where r: "rc_ok (he_cfg e) S1 c1" "list_all2 (matched_online (hw_cache w)) q q1" "hook_ok st1"
    "hk_tree st1 = hk_tree (hw_hook w)"
    "patched_calc_priority e tm clock orig Lpm w q = obind (hook_sort e clock st1 ids None q1 (hw_dyn w)) (\<lambda>(q2, dyn').
       ret (\<lparr>hw_hook = st1, hw_cache = c1, hw_dyn = dyn'\<rparr>, q2, Some True))"
    using eager_run [OF assms(1-4), of tm clock orig] assms(5) by blast
  let ?sp = "sort_params_of e"
  have sp: "?sp = ?sp\<lparr>lpm_only := True\<rparr>" using assms(6) by (simp add: sort_params_of_def)
  let ?dep = "{lr_rid (q1 ! i) | i. sibling_at prefix_hit (he_check e) (nat (he_depr e)) q1 i}"
  have mh: "main_hit ids None = (prefix_hit :: online_req \<Rightarrow> int)" by (simp add: main_hit_def fun_eq_iff)
  note L = lpm_mode_order [of ?sp ids "all_cluster_info (hk_tree st1)" None q1, folded sp, unfolded mh]
  have dep: "snd (peek_sort ?sp ids (all_cluster_info (hk_tree st1)) None q1) = ?dep"
    using L [THEN conjunct2] assms(8,9) by (simp add: sort_params_of_def)
  have q2: "fst (peek_sort ?sp ids (all_cluster_info (hk_tree st1)) None q1) =
      sort_key (\<lambda>r. if lr_rid r \<in> ?dep then (1 :: nat, 0) else (0, - prefix_hit r)) q1"
    using L [THEN conjunct1] unfolding dep .
  have "hook_sort e clock st1 ids None q1 (hw_dyn w) = ret (sort_key (\<lambda>r. if lr_rid r \<in> ?dep then (1 :: nat, 0) else (0, - prefix_hit r)) q1, hw_dyn w)"
    using assms(7) q2 by (simp add: hook_sort_def Let_def)
  then show ?thesis using r
    by (intro exI [of _ "\<lparr>hw_hook = st1, hw_cache = c1, hw_dyn = hw_dyn w\<rparr>"] exI [of _ "sort_key (\<lambda>r. if lr_rid r \<in> ?dep then (1 :: nat, 0) else (0, - prefix_hit r)) q1"]
        exI [of _ q1] exI [of _ ?dep] exI [of _ S1]) simp
qed

section \<open>A round after a synchronisation\<close>

definition sample_flags :: hook_flags where
  "sample_flags = \<lparr>hf_eviction = False, hf_scheduler = True, hf_phases = True, hf_rank = True, hf_lpm = True, hf_clpm = False,
     hf_age_alpha = 0, hf_big_share = 1, hf_group_major = False, hf_dynamic = False, hf_slo = 2, hf_lazy = False, hf_lazy_k = 128,
     hf_validate = False, hf_fb_threshold = 128, hf_skip_dualwalk = False\<rparr>"

definition sample_hook :: hook_env where
  "sample_hook = \<lparr>he_flags = sample_flags, he_cfg = one_config, he_check = 32, he_depr = 32, he_host_hit = 0, he_tree_id = 1\<rparr>"

definition sample_round_queue :: "online_req list" where
  "sample_round_queue = [sample_online ''a'' [9] [], sample_online ''b'' [1, 2] []]"

lemma sample_in_step:
  obtains st where "sync True 1 sample_round_queue hook_init = Inr st" and "in_step sample_round_queue st"
proof -
  have "\<forall>r \<in> set sample_round_queue. tracked hook_init (lr_rid r) \<in> {None, Some (lr_tokens r)}" by (simp add: hook_init_def tracked_def)
  from synced [OF reach_init _ this, of "[1]" True 1] that show ?thesis
    by (auto simp: sample_round_queue_def sample_online_def in_step_def)
qed

lemma sample_plain: "plain_server sample_hook {0, 1} one_cache"
  using one_cache_ok by (simp add: plain_server_def sample_hook_def one_config_def)

lemma sample_no_extra: "\<forall>r \<in> set sample_round_queue. or_extra_key r = None"
  by (simp add: sample_round_queue_def sample_online_def)

theorem dual_walk_is_faithful_witness:
  "\<exists>st. sync True 1 sample_round_queue hook_init = Inr st
     \<and> patched_calc_priority sample_hook (\<lambda>_ _. 1) 0 (\<lambda>_ _. None) Lpm \<lparr>hw_hook = st, hw_cache = one_cache, hw_dyn = []\<rparr> sample_round_queue
       = patched_calc_priority (skipping sample_hook) (\<lambda>_ _. 1) 0 (\<lambda>_ _. None) Lpm \<lparr>hw_hook = st, hw_cache = one_cache, hw_dyn = []\<rparr> sample_round_queue"
proof -
  obtain st where st: "sync True 1 sample_round_queue hook_init = Inr st" "in_step sample_round_queue st" by (rule sample_in_step)
  have "\<not> hf_lazy (he_flags sample_hook)" by (simp add: sample_hook_def sample_flags_def)
  then show ?thesis
    using dual_walk_is_faithful [of sample_hook "{0, 1}" "\<lparr>hw_hook = st, hw_cache = one_cache, hw_dyn = []\<rparr>" sample_round_queue]
      sample_plain st sample_no_extra by auto
qed

theorem lpm_round_is_stock_witness:
  "\<exists>st w' q'. sync True 1 sample_round_queue hook_init = Inr st
     \<and> patched_calc_priority sample_hook (\<lambda>_ _. 1) 0 (\<lambda>_ _. None) Lpm \<lparr>hw_hook = st, hw_cache = one_cache, hw_dyn = []\<rparr> sample_round_queue
       = ret (w', q', Some True) \<and> hook_ok (hw_hook w')"
proof -
  obtain st where st: "sync True 1 sample_round_queue hook_init = Inr st" "in_step sample_round_queue st" by (rule sample_in_step)
  let ?w = "\<lparr>hw_hook = st, hw_cache = one_cache, hw_dyn = []\<rparr>"
  have s: "plain_server sample_hook {0, 1} (hw_cache ?w)" "in_step sample_round_queue (hw_hook ?w)" using sample_plain st(2) by simp_all
  have f: "\<not> hf_lazy (he_flags sample_hook)" "\<not> hf_fb_threshold (he_flags sample_hook) < int (length sample_round_queue)"
    "hf_lpm (he_flags sample_hook)" "\<not> hf_clpm (he_flags sample_hook)" "0 \<le> he_check sample_hook" "0 \<le> he_depr sample_hook"
    by (simp_all add: sample_hook_def sample_flags_def sample_round_queue_def)
  from lpm_round_is_stock [OF s sample_no_extra f, of "\<lambda>_ _. 1" 0 "\<lambda>_ _. None"] st(1) show ?thesis by blast
qed

section \<open>Where the walk and the match part\<close>

text \<open>
  The walk asks the cache for the bare tokens. On a cache of a larger page size no child has such a
  key, so every hit is 0 and the sorts see a cold queue, whatever the matches found.
\<close>

lemma walk_blind_on_pages:
  assumes "page_size cfg \<noteq> 1" and "tree_ok cfg S c"
  shows "cache_match c toks = Some 0"
proof -
  have rS: "root_node c \<in> S" using assms(2) by (simp add: tree_ok_def)
  have "dget (rchildren (heap c (root_node c))) (None, Tok t) = None" for t
  proof (cases "dget (rchildren (heap c (root_node c))) (None, Tok t)")
    case (Some n)
    then show ?thesis using tree_ok_childD(4) [OF assms(2) rS Some] assms(1) by (simp add: get_child_key_def)
  qed simp
  then show ?thesis by (simp add: cache_match_def cache_match_loop.simps)
qed

text \<open>
  It also ignores the extra key that separates tenants: the match of a request with one finds
  nothing below the root, while the walk counts the tokens cached without it.
\<close>

lemma walk_ignores_extra_key:
  "cache_match one_cache [1, 2, 3] = Some 3
   \<and> match_with True one_config (\<lambda>_. 1) \<lparr>token_ids = [1, 2, 3], extra_key = Some ''x'', is_bigram = False\<rparr> one_cache
     = ret (set_access True 1 0 one_cache, \<lparr>device_indices = [], last_device_node = 0, last_host_node = 0\<rparr>)"
proof -
  have r: "root_node one_cache = 0" and ch: "rchildren (heap one_cache 0) = [((None, Tok 1), 1)]"
    and k: "token_ids (rkey (heap one_cache 1)) = [1, 2, 3]" by (simp_all add: one_defs)
  have "lies_below one_cache 0 [1, 2, 3] (length [1 :: int, 2, 3] + 0)"
    by (rule below_full [where ch = 1]) (use ch k in \<open>simp_all add: below_end\<close>)
  then have "cache_match one_cache [1, 2, 3] = Some 3" unfolding cache_match_iff r by (intro exI [of _ 3]) (simp add: numeral_3_eq_3)
  moreover have "rchildren (heap (set_access True 1 0 one_cache) 0) = [((None, Tok 1), 1)]"
    using ch by (simp add: set_access_def upd_node_def)
  then have "match_loop one_config (\<lambda>_. 1) True \<lparr>token_ids = [1, 2, 3], extra_key = Some ''x'', is_bigram = False\<rparr> 0 []
      (set_access True 1 0 one_cache) = ret (set_access True 1 0 one_cache, [], 0)"
    by (subst match_loop.simps) (simp add: get_child_key_def one_config_def)
  ultimately show ?thesis using r
    by (simp add: match_with_def Let_def one_config_def maybe_bigram_convert_def page_align_def key_len_def)
qed

section \<open>Around the scheduler's methods\<close>

text \<open>
  \<open>orig\<close> stands for SGLang's method: from the scheduler state it yields the next one and its waiting
  queue, or the batch.
\<close>

definition after_sync :: "hook_flags \<Rightarrow> pyfloat \<Rightarrow> online_req list \<Rightarrow> sync_state \<times> vstats \<Rightarrow> (sync_state \<times> vstats) res" where
  "after_sync f now q hv =
     rbind (sync (hf_phases f) now q (fst hv)) (\<lambda>st.
       Inr (st, if hf_validate f then validate_sync q st (snd hv) else snd hv))"

definition patched_process_input ::
  "hook_flags \<Rightarrow> pyfloat \<Rightarrow> ('s \<Rightarrow> 's res) \<Rightarrow> ('s \<Rightarrow> online_req list) \<Rightarrow> 's \<Rightarrow> sync_state \<times> vstats \<Rightarrow> ('s \<times> sync_state \<times> vstats) res"
where
  "patched_process_input f now orig queue_of s hv =
     rbind (orig s) (\<lambda>s'. rbind (after_sync f now (queue_of s') hv) (\<lambda>hv'. Inr (s', hv')))"

definition patched_get_next_batch ::
  "hook_flags \<Rightarrow> pyfloat \<Rightarrow> ('s \<Rightarrow> sync_state \<times> vstats \<Rightarrow> 'b res) \<Rightarrow> ('s \<Rightarrow> online_req list) \<Rightarrow> 's \<Rightarrow> sync_state \<times> vstats \<Rightarrow> 'b res"
where
  "patched_get_next_batch f now orig queue_of s hv = rbind (after_sync f now (queue_of s) hv) (orig s)"

text \<open>The hook adds no exception of its own to either method.\<close>

lemma hooks_add_no_error:
  assumes "hook_reach (fst hv)"
  shows "\<exists>hv'. patched_get_next_batch f now orig queue_of s hv = orig s hv' \<and> hook_reach (fst hv')"
    and "orig1 s = Inr s' \<Longrightarrow> \<exists>hv'. patched_process_input f now orig1 queue_of s hv = Inr (s', hv') \<and> hook_reach (fst hv')"
proof -
  have a: "\<exists>hv'. after_sync f now q hv = Inr hv' \<and> hook_reach (fst hv')" for q
    using sync_ok [OF hook_reach_ok [OF assms], of "hf_phases f" now q] reach_sync [OF assms]
    by (auto simp: after_sync_def rbind_def)
  show "\<exists>hv'. patched_get_next_batch f now orig queue_of s hv = orig s hv' \<and> hook_reach (fst hv')"
  proof -
    obtain hv' where "after_sync f now (queue_of s) hv = Inr hv'" "hook_reach (fst hv')" using a by blast
    then show ?thesis by (intro exI [of _ hv']) (simp add: patched_get_next_batch_def rbind_def)
  qed
  show "orig1 s = Inr s' \<Longrightarrow> \<exists>hv'. patched_process_input f now orig1 queue_of s hv = Inr (s', hv') \<and> hook_reach (fst hv')"
    using a [of "queue_of s'"] by (auto simp: patched_process_input_def rbind_def)
qed

end
