(* ===== verification/Vllm_Sync.thy ===== *)
theory Vllm_Sync
  imports Online_Sync
begin

text \<open>
  The state of the online vLLM hook (\<open>_intern\<close>, \<open>_forget_rid\<close>, \<open>_bump_rid\<close>, \<open>_drop_rid\<close>, \<open>_sync\<close>,
  \<open>_validate_sync\<close> and \<open>_patched_finish_requests\<close> of \<open>src/python/peek/online/engines/vllm/patch_hook.py\<close>):
  the pending tree and, with eviction on, the index from block hashes to the number of pending
  requests. The part it shares with the SGLang hook is that hook's state; a simulation carries the
  facts about its synchronisation over. Block hashes are integers; profiling is off.
\<close>

section \<open>State\<close>

text \<open>The fields of vLLM's request the hook reads. Missing and empty lists of tokens are alike to it.\<close>

record vllm_req =
  vq_id :: string
  vq_prompt :: "int list"
  vq_output :: "int list"
  vq_hashes :: "int list option"
  vq_tokens :: int
  vq_skip :: bool

definition req_tokens :: "vllm_req \<Rightarrow> int list" where
  "req_tokens r = vq_prompt r @ vq_output r"

record vllm_hook =
  vh_sync :: sync_state
  vh_demand :: "(int, int) pydict"
  vh_depth :: "(int, int) pydict"
  vh_access :: "(int, pyfloat) pydict"
  vh_hashes :: "(int, int list) pydict"

definition vllm_hook_init :: vllm_hook where
  "vllm_hook_init = \<lparr>vh_sync = hook_init, vh_demand = [], vh_depth = [], vh_access = [], vh_hashes = []\<rparr>"

text \<open>Which parts are active: eviction, its cluster mode, phase tracking.\<close>

record vllm_switches =
  sw_evict :: bool
  sw_cluster :: bool
  sw_phases :: bool

section \<open>The demand index\<close>

fun bump_hashes ::
  "bool \<Rightarrow> nat \<Rightarrow> int list \<Rightarrow> (int, int) pydict \<times> (int, int) pydict \<Rightarrow> (int, int) pydict \<times> (int, int) pydict"
where
  "bump_hashes cluster i [] acc = acc"
| "bump_hashes cluster i (h # hs) (dem, dep) =
     bump_hashes cluster (i + 1) hs
       (dset h (dget_or dem h 0 + 1) dem,
        if cluster \<and> dget_or dep h 0 < int i + 1 then dset h (int i + 1) dep else dep)"

definition req_hashes :: "vllm_req \<Rightarrow> int list" where
  "req_hashes r = (case vq_hashes r of None \<Rightarrow> [] | Some hs \<Rightarrow> hs)"

definition bump_rid :: "bool \<Rightarrow> vllm_req \<Rightarrow> int \<Rightarrow> vllm_hook \<Rightarrow> vllm_hook" where
  "bump_rid cluster r i st =
     (let snap = req_hashes r in
      if snap = [] then st\<lparr>vh_hashes := dset i [] (vh_hashes st)\<rparr>
      else let (dem, dep) = bump_hashes cluster 0 snap (vh_demand st, vh_depth st)
           in st\<lparr>vh_demand := dem, vh_depth := dep, vh_hashes := dset i snap (vh_hashes st)\<rparr>)"

fun drop_hashes ::
  "bool \<Rightarrow> int list \<Rightarrow> (int, int) pydict \<times> (int, int) pydict \<Rightarrow> (int, int) pydict \<times> (int, int) pydict"
where
  "drop_hashes cluster [] acc = acc"
| "drop_hashes cluster (h # hs) (dem, dep) =
     (let n = dget_or dem h 0 - 1 in
      drop_hashes cluster hs
        (if n \<le> 0 then (ddel h dem, if cluster then ddel h dep else dep) else (dset h n dem, dep)))"

definition drop_rid :: "bool \<Rightarrow> int \<Rightarrow> vllm_hook \<Rightarrow> vllm_hook" where
  "drop_rid cluster i st =
     (case dget (vh_hashes st) i of
        None \<Rightarrow> st
      | Some snap \<Rightarrow>
          (let (dem, dep) = drop_hashes cluster snap (vh_demand st, vh_depth st)
           in st\<lparr>vh_demand := dem, vh_depth := dep, vh_hashes := ddel i (vh_hashes st)\<rparr>))"

section \<open>The synchronisation\<close>

abbreviation vh_tree :: "vllm_hook \<Rightarrow> pending_tree" where
  "vh_tree st \<equiv> hk_tree (vh_sync st)"

definition vllm_insert :: "bool \<Rightarrow> int \<Rightarrow> int list \<Rightarrow> vllm_hook \<Rightarrow> vllm_hook res" where
  "vllm_insert cluster i toks st =
     (case pt_insert i toks (vh_tree st) of
        Inr T \<Rightarrow> Inr (st\<lparr>vh_sync := (vh_sync st)\<lparr>hk_tree := T\<rparr>\<rparr>)
      | Inl e \<Rightarrow>
          (if e = ValueError
           then rbind (pt_insert i toks (fst (pt_discard i (vh_tree st)))) (\<lambda>T.
                  Inr ((drop_rid cluster i st)\<lparr>vh_sync := (vh_sync st)\<lparr>hk_tree := T\<rparr>\<rparr>))
           else Inl e))"

definition vllm_sync_req ::
  "vllm_switches \<Rightarrow> pyfloat \<Rightarrow> vllm_req \<Rightarrow> vllm_hook \<times> int list \<Rightarrow> (vllm_hook \<times> int list) res"
where
  "vllm_sync_req sw now r acc =
     (case acc of (st, current) \<Rightarrow>
        (let (s1, i) = intern (vq_id r) (vh_sync st); st1 = st\<lparr>vh_sync := s1\<rparr>; current' = List.insert i current in
         if i \<in> set (hk_seen s1) then Inr (st1, current')
         else rbind (vllm_insert (sw_cluster sw) i (req_tokens r) st1) (\<lambda>st2.
           let s2 = vh_sync st2;
               st3 = st2\<lparr>vh_sync := s2\<lparr>hk_seen := hk_seen s2 @ [i],
                       hk_phases := (if sw_phases sw then dset (vq_id r) \<lparr>arrive_ts = now, pick_ts = None\<rparr> (hk_phases s2)
                                     else hk_phases s2)\<rparr>\<rparr>
           in Inr (if sw_evict sw then bump_rid (sw_cluster sw) r i st3 else st3, current'))))"

fun vllm_sync_reqs ::
  "vllm_switches \<Rightarrow> pyfloat \<Rightarrow> vllm_req list \<Rightarrow> vllm_hook \<times> int list \<Rightarrow> (vllm_hook \<times> int list) res"
where
  "vllm_sync_reqs sw now [] acc = Inr acc"
| "vllm_sync_reqs sw now (r # rs) acc = rbind (vllm_sync_req sw now r acc) (vllm_sync_reqs sw now rs)"

text \<open>A departure: out of the tree, the index, the set of tracked ids and the interning dictionaries.\<close>

definition depart :: "vllm_switches \<Rightarrow> int \<Rightarrow> vllm_hook \<Rightarrow> vllm_hook" where
  "depart sw i st =
     (let st1 = st\<lparr>vh_sync := drop_departed i (vh_sync st)\<rparr>
      in if sw_evict sw then drop_rid (sw_cluster sw) i st1 else st1)"

definition vllm_sync :: "vllm_switches \<Rightarrow> pyfloat \<Rightarrow> vllm_req list \<Rightarrow> vllm_hook \<Rightarrow> vllm_hook res" where
  "vllm_sync sw now q st =
     (let current = vq_id ` set q; last = hk_last (vh_sync st) in
      if length q = card last \<and> current = last then Inr st
      else rbind (vllm_sync_reqs sw now q (st, [])) (\<lambda>(st1, ints).
        let st2 = foldl (\<lambda>s i. if i \<in> set ints then s else depart sw i s) st1 (hk_seen (vh_sync st1)); s2 = vh_sync st2
        in Inr (st2\<lparr>vh_sync := s2\<lparr>
             hk_phases := (if sw_phases sw then mark_picked now (hk_last s2 - current) (hk_phases s2) else hk_phases s2),
             hk_last := current\<rparr>\<rparr>)))"

text \<open>\<open>finish_requests\<close> drops the ids it is given from everything but the set of the last ids.\<close>

definition finish_one :: "vllm_switches \<Rightarrow> string \<Rightarrow> vllm_hook \<Rightarrow> vllm_hook" where
  "finish_one sw s st =
     (case dget (hk_interner (vh_sync st)) s of
        None \<Rightarrow> st
      | Some i \<Rightarrow> if i \<in> set (hk_seen (vh_sync st)) then depart sw i st else st)"

definition vllm_finish :: "vllm_switches \<Rightarrow> string list \<Rightarrow> vllm_hook \<Rightarrow> vllm_hook" where
  "vllm_finish sw ids st = foldl (\<lambda>st s. finish_one sw s st) st ids"

section \<open>It simulates the synchronisation of the SGLang hook\<close>

text \<open>A request as the sorts see it: the adapter without a hit.\<close>

definition as_lpm :: "vllm_req \<Rightarrow> lpm_req" where
  "as_lpm r = \<lparr>lr_rid = vq_id r, lr_prefix = Some [], lr_input = vq_prompt r, lr_output = Some (vq_output r)\<rparr>"

lemma as_lpm_simps [simp]: "lr_rid (as_lpm r) = vq_id r" "lr_tokens (as_lpm r) = req_tokens r"
  by (simp_all add: as_lpm_def lr_tokens_def req_tokens_def)

lemma vh_sync_index [simp]: "vh_sync (bump_rid cluster r i st) = vh_sync st" "vh_sync (drop_rid cluster i st) = vh_sync st"
  by (auto simp: bump_rid_def drop_rid_def Let_def split: prod.splits option.splits)

lemma vh_sync_depart [simp]: "vh_sync (depart sw i st) = drop_departed i (vh_sync st)"
  by (simp add: depart_def Let_def)

lemma sync_req_sim:
  "sync_req (sw_phases sw) now (as_lpm r) (vh_sync st, current)
     = map_sum id (map_prod vh_sync id) (vllm_sync_req sw now r (st, current))"
  by (auto simp: sync_req_def vllm_sync_req_def vllm_insert_def insert_fresh_def rbind_def Let_def split: prod.split sum.split)

lemma sync_reqs_sim:
  "sync_reqs (sw_phases sw) now (map as_lpm q) (vh_sync st, current)
     = map_sum id (map_prod vh_sync id) (vllm_sync_reqs sw now q (st, current))"
proof (induction q arbitrary: st current)
  case (Cons r q)
  show ?case
  proof (cases "vllm_sync_req sw now r (st, current)")
    case (Inr x)
    then show ?thesis using Cons by (cases x) (simp add: sync_req_sim rbind_def)
  qed (simp add: sync_req_sim rbind_def)
qed simp

lemma departures_sim:
  "vh_sync (foldl (\<lambda>s i. if i \<in> set ints then s else depart sw i s) st L)
     = foldl (\<lambda>s i. if i \<in> set ints then s else drop_departed i s) (vh_sync st) L"
  by (induction L arbitrary: st) simp_all

lemma sync_sim: "sync (sw_phases sw) now (map as_lpm q) (vh_sync st) = map_sum id vh_sync (vllm_sync sw now q st)"
proof -
  have "lr_rid ` set (map as_lpm q) = vq_id ` set q" by force
  then show ?thesis
    by (cases "vllm_sync_reqs sw now q (st, [])")
      (auto simp: sync_def vllm_sync_def sync_reqs_sim departures_sim rbind_def Let_def)
qed


section \<open>The index counts the pending requests\<close>

text \<open>What the index stands for: the occurrences of a hash in the lists of the tracked requests.\<close>

definition hash_total :: "(int, int list) pydict \<Rightarrow> int \<Rightarrow> int" where
  "hash_total D h = (\<Sum>(i, hs) \<leftarrow> D. int (count_list hs h))"

definition index_ok :: "bool \<Rightarrow> (int \<Rightarrow> int) \<Rightarrow> (int, int) pydict \<Rightarrow> (int, int) pydict \<Rightarrow> bool" where
  "index_ok cluster f dem dep \<longleftrightarrow> (\<forall>h. 0 \<le> f h) \<and> (\<forall>h. dget dem h = (if f h = 0 then None else Some (f h)))
     \<and> (\<forall>h. dget dep h = None \<longleftrightarrow> \<not> cluster \<or> f h = 0)"

lemma index_okD:
  assumes "index_ok cluster f dem dep"
  shows "0 \<le> f h" and "dget dem h = (if f h = 0 then None else Some (f h))" and "dget_or dem h 0 = f h"
    and "dget dep h = None \<longleftrightarrow> \<not> cluster \<or> f h = 0"
  using assms by (simp_all add: index_ok_def dget_or_def)

lemma bump_hashes_ok:
  "index_ok cluster f dem dep \<Longrightarrow> bump_hashes cluster i hs (dem, dep) = (dem', dep') \<Longrightarrow>
     index_ok cluster (\<lambda>h. f h + int (count_list hs h)) dem' dep' \<and> (\<forall>h. dget_or dep h 0 \<le> dget_or dep' h 0)
     \<and> (cluster \<longrightarrow> (\<forall>k < length hs. int i + int k + 1 \<le> dget_or dep' (hs ! k) 0))"
proof (induction hs arbitrary: f dem dep i)
  case (Cons x hs)
  note D = index_okD [OF Cons.prems(1)]
  define dep1 where "dep1 = (if cluster \<and> dget_or dep x 0 < int i + 1 then dset x (int i + 1) dep else dep)"
  define dem1 where "dem1 = dset x (dget_or dem x 0 + 1) dem"
  define f1 where "f1 h = f h + (if h = x then 1 else 0)" for h
  have dx: "\<exists>v. dget dep x = Some v" if "cluster" "\<not> dget_or dep x 0 < int i + 1"
    using that by (cases "dget dep x") (simp_all add: dget_or_def)
  have "dget dep1 h = None \<longleftrightarrow> \<not> cluster \<or> f1 h = 0" for h
    using D(1,4) [of h] dx by (auto simp: dep1_def f1_def dict_simps)
  moreover have "dget dem1 h = (if f1 h = 0 then None else Some (f1 h))" for h
    using D(1,2,3) [of h] by (auto simp: dem1_def f1_def dict_simps)
  moreover have "0 \<le> f1 h" for h using D(1) [of h] by (simp add: f1_def)
  ultimately have ok1: "index_ok cluster f1 dem1 dep1" by (simp add: index_ok_def)
  have b: "bump_hashes cluster (i + 1) hs (dem1, dep1) = (dem', dep')"
    using Cons.prems(2) by (simp add: dem1_def dep1_def)
  note IH = Cons.IH [OF ok1 b]
  have m: "dget_or dep h 0 \<le> dget_or dep1 h 0" for h by (simp add: dep1_def dict_simps)
  have x1: "cluster \<Longrightarrow> int i + 1 \<le> dget_or dep1 x 0" by (simp add: dep1_def dict_simps)
  have "(\<lambda>h. f1 h + int (count_list hs h)) = (\<lambda>h. f h + int (count_list (x # hs) h))" by (auto simp: f1_def)
  moreover have "int i + int k + 1 \<le> dget_or dep' ((x # hs) ! k) 0" if "cluster" "k < length (x # hs)" for k
  proof (cases k)
    case 0
    then show ?thesis using x1 [OF that(1)] IH [THEN conjunct2, THEN conjunct1, rule_format, of x] by simp
  next
    case (Suc j)
    then show ?thesis using IH [THEN conjunct2, THEN conjunct2, rule_format, of j] that by simp
  qed
  ultimately show ?case using IH m order_trans by (metis (no_types, lifting))
qed simp

lemma drop_hashes_ok:
  "index_ok cluster (\<lambda>h. f h + int (count_list hs h)) dem dep \<Longrightarrow> (\<And>h. 0 \<le> f h) \<Longrightarrow>
     drop_hashes cluster hs (dem, dep) = (dem', dep') \<Longrightarrow>
     index_ok cluster f dem' dep' \<and> (\<forall>h. f h \<noteq> 0 \<longrightarrow> dget dep' h = dget dep h)"
proof (induction hs arbitrary: dem dep)
  case (Cons x hs)
  note D = index_okD [OF Cons.prems(1)]
  define n where "n = f x + int (count_list hs x)"
  define dem1 where "dem1 = (if n \<le> 0 then ddel x dem else dset x n dem)"
  define dep1 where "dep1 = (if n \<le> 0 then if cluster then ddel x dep else dep else dep)"
  have n0: "0 \<le> n" using Cons.prems(2) [of x] by (simp add: n_def)
  have "dget_or dem x 0 - 1 = n" using D(3) [of x] by (simp add: n_def)
  then have b: "drop_hashes cluster hs (dem1, dep1) = (dem', dep')"
    using Cons.prems(3) by (cases "n \<le> 0"; cases cluster) (simp_all add: dem1_def dep1_def Let_def)
  have "index_ok cluster (\<lambda>h. f h + int (count_list hs h)) dem1 dep1"
  proof -
    have "dget dem1 h = (if f h + int (count_list hs h) = 0 then None else Some (f h + int (count_list hs h)))" for h
      using D(2) [of h] n0 by (auto simp: dem1_def n_def dict_simps)
    moreover have "dget dep1 h = None \<longleftrightarrow> \<not> cluster \<or> f h + int (count_list hs h) = 0" for h
      using D(4) [of h] n0 Cons.prems(2) [of h] by (auto simp: dep1_def n_def dict_simps)
    ultimately show ?thesis using Cons.prems(2) by (simp add: index_ok_def)
  qed
  note IH = Cons.IH [OF this Cons.prems(2) b]
  have "f h \<noteq> 0 \<Longrightarrow> dget dep1 h = dget dep h" for h
    using Cons.prems(2) [of h] n0 by (auto simp: dep1_def n_def dict_simps)
  then show ?case using IH by simp
qed simp

lemma hash_total_dset: "dget D i = None \<Longrightarrow> hash_total (dset i hs D) h = hash_total D h + int (count_list hs h)"
  by (simp add: dget_None_iff dset_append hash_total_def)

lemma hash_total_ddel:
  "wf_dict D \<Longrightarrow> dget D i = Some hs \<Longrightarrow> hash_total D h = hash_total (ddel i D) h + int (count_list hs h)"
proof (induction D)
  case (Cons x D)
  obtain j l where x: "x = (j, l)" by (cases x)
  show ?case
  proof (cases "j = i")
    case True
    then have "dget D i = None" using Cons.prems by (simp add: x dget_None_iff)
    then have "ddel i D = D" by (simp add: dget_None_iff delete_id)
    then show ?thesis using True Cons.prems by (simp add: x hash_total_def)
  next
    case False
    then show ?thesis using Cons by (simp add: x hash_total_def)
  qed
qed simp

lemma hash_total_pos: "wf_dict D \<Longrightarrow> dget D i = Some hs \<Longrightarrow> h \<in> set hs \<Longrightarrow> 0 < hash_total D h"
proof -
  assume a: "wf_dict D" "dget D i = Some hs" "h \<in> set hs"
  have "0 \<le> hash_total (ddel i D) h" by (auto simp: hash_total_def intro!: sum_list_nonneg)
  moreover have "0 < count_list hs h" using a(3) by (simp add: count_list_0_iff zero_less_iff_neq_zero)
  ultimately show ?thesis using hash_total_ddel [OF a(1,2), of h] by simp
qed

text \<open>
  The index of a state: kept for the tracked requests when eviction is on; in the cluster mode the
  depth of a hash is at least its position in any of the lists.
\<close>

definition vindex_ok :: "vllm_switches \<Rightarrow> vllm_hook \<Rightarrow> bool" where
  "vindex_ok sw st \<longleftrightarrow> wf_dict (vh_hashes st)
     \<and> (\<forall>i. dget (vh_hashes st) i \<noteq> None \<longleftrightarrow> sw_evict sw \<and> i \<in> set (hk_seen (vh_sync st)))
     \<and> index_ok (sw_cluster sw) (hash_total (vh_hashes st)) (vh_demand st) (vh_depth st)
     \<and> (\<forall>i hs k. sw_cluster sw \<and> dget (vh_hashes st) i = Some hs \<and> k < length hs \<longrightarrow> int k + 1 \<le> dget_or (vh_depth st) (hs ! k) 0)"

lemma vindex_okD:
  assumes "vindex_ok sw st"
  shows "wf_dict (vh_hashes st)" and "dget (vh_hashes st) i \<noteq> None \<longleftrightarrow> sw_evict sw \<and> i \<in> set (hk_seen (vh_sync st))"
    and "index_ok (sw_cluster sw) (hash_total (vh_hashes st)) (vh_demand st) (vh_depth st)"
    and "sw_cluster sw \<Longrightarrow> dget (vh_hashes st) i = Some hs \<Longrightarrow> k < length hs \<Longrightarrow> int k + 1 \<le> dget_or (vh_depth st) (hs ! k) 0"
  using assms unfolding vindex_ok_def by blast+

lemma vindex_okI:
  assumes "wf_dict (vh_hashes st)" and "\<And>i. dget (vh_hashes st) i \<noteq> None \<longleftrightarrow> sw_evict sw \<and> i \<in> set (hk_seen (vh_sync st))"
    and "index_ok (sw_cluster sw) (hash_total (vh_hashes st)) (vh_demand st) (vh_depth st)"
    and "\<And>i hs k. sw_cluster sw \<Longrightarrow> dget (vh_hashes st) i = Some hs \<Longrightarrow> k < length hs \<Longrightarrow> int k + 1 \<le> dget_or (vh_depth st) (hs ! k) 0"
  shows "vindex_ok sw st"
  unfolding vindex_ok_def using assms by blast

lemma vindex_ok_sync: "hk_seen s = hk_seen (vh_sync st) \<Longrightarrow> vindex_ok sw (st\<lparr>vh_sync := s\<rparr>) = vindex_ok sw st"
  by (simp add: vindex_ok_def)

lemma bump_rid_ok:
  assumes ok: "vindex_ok sw st" and ev: "sw_evict sw" and i: "i \<notin> set (hk_seen (vh_sync st))"
    and s: "hk_seen s = hk_seen (vh_sync st) @ [i]"
  shows "vindex_ok sw (bump_rid (sw_cluster sw) r i (st\<lparr>vh_sync := s\<rparr>))"
    and "vh_hashes (bump_rid (sw_cluster sw) r i (st\<lparr>vh_sync := s\<rparr>)) = dset i (req_hashes r) (vh_hashes st)"
proof -
  let ?hs = "req_hashes r"
  obtain dem dep where b: "bump_hashes (sw_cluster sw) 0 ?hs (vh_demand st, vh_depth st) = (dem, dep)" by fastforce
  have e: "bump_rid (sw_cluster sw) r i (st\<lparr>vh_sync := s\<rparr>) =
      st\<lparr>vh_sync := s, vh_demand := dem, vh_depth := dep, vh_hashes := dset i ?hs (vh_hashes st)\<rparr>"
    using b by (cases "?hs = []") (simp_all add: bump_rid_def)
  have new: "dget (vh_hashes st) i = None" using vindex_okD(2) [OF ok, of i] i by blast
  note B = bump_hashes_ok [OF vindex_okD(3) [OF ok] b]
  have t: "hash_total (dset i ?hs (vh_hashes st)) = (\<lambda>h. hash_total (vh_hashes st) h + int (count_list ?hs h))"
    using hash_total_dset [OF new] by blast
  show "vindex_ok sw (bump_rid (sw_cluster sw) r i (st\<lparr>vh_sync := s\<rparr>))"
  proof (rule vindex_okI, goal_cases)
    case (2 j)
    show ?case unfolding e using vindex_okD(2) [OF ok, of j] ev s by (simp add: dict_simps)
  next
    case (4 j hs k)
    show ?case
    proof (cases "j = i")
      case True
      then show ?thesis using 4 B unfolding e by (simp add: dict_simps)
    next
      case False
      then have "int k + 1 \<le> dget_or (vh_depth st) (hs ! k) 0"
        using 4 vindex_okD(4) [OF ok 4(1), of j hs k] unfolding e by (simp add: dict_simps)
      also have "\<dots> \<le> dget_or dep (hs ! k) 0" using B by blast
      finally show ?thesis unfolding e by simp
    qed
  qed (use B vindex_okD(1) [OF ok] in \<open>simp_all add: e t\<close>)
  show "vh_hashes (bump_rid (sw_cluster sw) r i (st\<lparr>vh_sync := s\<rparr>)) = dset i ?hs (vh_hashes st)" unfolding e by simp
qed

lemma drop_rid_ok:
  assumes ok: "vindex_ok sw st" and ev: "sw_evict sw" and s: "hk_seen s = removeAll i (hk_seen (vh_sync st))"
  shows "vindex_ok sw (drop_rid (sw_cluster sw) i (st\<lparr>vh_sync := s\<rparr>))"
    and "vh_hashes (drop_rid (sw_cluster sw) i (st\<lparr>vh_sync := s\<rparr>)) = ddel i (vh_hashes st)"
proof -
  note w = vindex_okD(1) [OF ok]
  have both: "vindex_ok sw (drop_rid (sw_cluster sw) i (st\<lparr>vh_sync := s\<rparr>))
      \<and> vh_hashes (drop_rid (sw_cluster sw) i (st\<lparr>vh_sync := s\<rparr>)) = ddel i (vh_hashes st)"
  proof (cases "dget (vh_hashes st) i")
    case None
    then have "i \<notin> set (hk_seen (vh_sync st))" using vindex_okD(2) [OF ok, of i] ev by blast
    then have "hk_seen s = hk_seen (vh_sync st)" using s by simp
    then show ?thesis using None ok by (simp add: drop_rid_def vindex_ok_sync) (simp add: dget_None_iff delete_id)
  next
    case (Some hs)
    obtain dem dep where b: "drop_hashes (sw_cluster sw) hs (vh_demand st, vh_depth st) = (dem, dep)" by fastforce
    have e: "drop_rid (sw_cluster sw) i (st\<lparr>vh_sync := s\<rparr>) =
        st\<lparr>vh_sync := s, vh_demand := dem, vh_depth := dep, vh_hashes := ddel i (vh_hashes st)\<rparr>"
      using b Some by (simp add: drop_rid_def)
    let ?f = "hash_total (ddel i (vh_hashes st))"
    have t: "hash_total (vh_hashes st) = (\<lambda>h. ?f h + int (count_list hs h))"
      using hash_total_ddel [OF w Some] by blast
    have "0 \<le> ?f h" for h by (auto simp: hash_total_def intro!: sum_list_nonneg)
    note B = drop_hashes_ok [OF vindex_okD(3) [OF ok, unfolded t] this b]
    have "int k + 1 \<le> dget_or dep (l ! k) 0"
      if a: "sw_cluster sw" "dget (ddel i (vh_hashes st)) j = Some l" "k < length l" for j l k
    proof -
      have "?f (l ! k) \<noteq> 0" using hash_total_pos [OF wf_ddel [OF w] a(2), of "l ! k"] a(3) by simp
      then have "dget_or dep (l ! k) 0 = dget_or (vh_depth st) (l ! k) 0" using B by (simp add: dget_or_def)
      then show ?thesis using vindex_okD(4) [OF ok a(1), of j l k] a by (simp add: dict_simps split: if_splits)
    qed
    note depth = this
    have "vindex_ok sw (st\<lparr>vh_sync := s, vh_demand := dem, vh_depth := dep, vh_hashes := ddel i (vh_hashes st)\<rparr>)"
    proof (rule vindex_okI, goal_cases)
      case (2 j)
      show ?case using vindex_okD(2) [OF ok, of j] ev s by (simp add: dict_simps)
    next
      case (4 j l k)
      then show ?case using depth [of j l k] by simp
    qed (use B w in simp_all)
    then show ?thesis unfolding e by simp
  qed
  then show "vindex_ok sw (drop_rid (sw_cluster sw) i (st\<lparr>vh_sync := s\<rparr>))"
    and "vh_hashes (drop_rid (sw_cluster sw) i (st\<lparr>vh_sync := s\<rparr>)) = ddel i (vh_hashes st)" by blast+
qed


section \<open>The index after a synchronisation\<close>

text \<open>The hashes the index holds for a request, by its name.\<close>

definition snap_of :: "vllm_hook \<Rightarrow> string \<Rightarrow> int list option" where
  "snap_of st s = (case dget (hk_interner (vh_sync st)) s of None \<Rightarrow> None | Some i \<Rightarrow> dget (vh_hashes st) i)"

lemma snap_of_sync: "hk_interner s = hk_interner (vh_sync st) \<Longrightarrow> snap_of (st\<lparr>vh_sync := s\<rparr>) = snap_of st"
  by (simp add: snap_of_def fun_eq_iff split: option.split)

lemma unseen_snap: "vindex_ok sw st \<Longrightarrow> i \<notin> set (hk_seen (vh_sync st)) \<Longrightarrow> dget (vh_hashes st) i = None"
  using vindex_okD(2) by blast

lemma intern_seen: "hk_seen (fst (intern s st)) = hk_seen st"
  by (simp add: intern_def Let_def split: option.split)

lemma intern_fresh:
  assumes "core_ok st" and "dget (hk_interner st) s = None" and "intern s st = (st', i)"
  shows "i \<notin> set (hk_seen st)" and "hk_interner st' = dset s i (hk_interner st)"
proof -
  have i: "i = hk_counter st + 1" "hk_interner st' = dset s i (hk_interner st)" using assms(2,3) by (auto simp: intern_def Let_def)
  then show "hk_interner st' = dset s i (hk_interner st)" by blast
  show "i \<notin> set (hk_seen st)"
  proof
    assume "i \<in> set (hk_seen st)"
    then obtain s' where "dget (hk_unintern st) i = Some s'" using core_okD(8) [OF assms(1)] by blast
    then show False using core_okD(5) [OF assms(1), of i s'] i(1) by simp
  qed
qed

lemma intern_snap:
  assumes ok: "core_ok (vh_sync st)" "vindex_ok sw st" and n: "intern s (vh_sync st) = (s1, i)"
  shows "snap_of (st\<lparr>vh_sync := s1\<rparr>) = snap_of st"
proof (cases "dget (hk_interner (vh_sync st)) s")
  case None
  note f = intern_fresh [OF ok(1) None n]
  show ?thesis using None f(2) unseen_snap [OF ok(2) f(1)] by (simp add: snap_of_def dict_simps fun_eq_iff split: option.split)
next
  case (Some j)
  then show ?thesis using n by (simp add: intern_def snap_of_def fun_eq_iff split: option.split)
qed

lemma vllm_sync_req_ok:
  assumes ok: "core_ok (vh_sync st)" "vindex_ok sw st"
  shows "\<exists>st' i. vllm_sync_req sw now r (st, current) = Inr (st', List.insert i current) \<and> vindex_ok sw st'
    \<and> core_ok (vh_sync st') \<and> hk_last (vh_sync st') = hk_last (vh_sync st) \<and> vh_access st' = vh_access st
    \<and> (sw_evict sw \<longrightarrow> (\<forall>s. snap_of st' s = (if s = vq_id r \<and> snap_of st s = None then Some (req_hashes r) else snap_of st s)))"
proof -
  obtain s1 i where n: "intern (vq_id r) (vh_sync st) = (s1, i)" by (cases "intern (vq_id r) (vh_sync st)")
  let ?st1 = "st\<lparr>vh_sync := s1\<rparr>"
  note 1 = intern_ok [OF ok(1) n]
  have ok1: "core_ok s1" and id1: "dget (hk_interner s1) (vq_id r) = Some i" and seen1: "hk_seen s1 = hk_seen (vh_sync st)"
    using 1 by blast+
  have v1: "vindex_ok sw ?st1" using ok(2) seen1 by (simp add: vindex_ok_sync)
  note sn = intern_snap [OF ok n]
  show ?thesis
  proof (cases "i \<in> set (hk_seen s1)")
    case True
    have "snap_of st (vq_id r) \<noteq> None" if "sw_evict sw"
      using vindex_okD(2) [OF v1, of i] True that id1 sn [symmetric] by (simp add: snap_of_def)
    then show ?thesis using True ok1 v1 n sn 1 by (auto simp: vllm_sync_req_def)
  next
    case False
    then have none: "dget (pt_paths (hk_tree s1)) i = None" using core_okD(7) [OF ok1, of i] by blast
    obtain T where T: "pt_insert i (req_tokens r) (hk_tree s1) = Inr T" using pt_insert_ok [OF core_okD(1) [OF ok1] none] by blast
    define s2 where "s2 = s1\<lparr>hk_tree := T, hk_seen := hk_seen s1 @ [i],
      hk_phases := (if sw_phases sw then dset (vq_id r) \<lparr>arrive_ts = now, pick_ts = None\<rparr> (hk_phases s1) else hk_phases s1)\<rparr>"
    define st' where "st' = (if sw_evict sw then bump_rid (sw_cluster sw) r i (?st1\<lparr>vh_sync := s2\<rparr>) else ?st1\<lparr>vh_sync := s2\<rparr>)"
    have e: "vllm_sync_req sw now r (st, current) = Inr (st', List.insert i current)"
      using False n T by (simp add: vllm_sync_req_def vllm_insert_def st'_def s2_def rbind_def Let_def)
    have s': "vh_sync st' = s2" by (simp add: st'_def)
    have q: "sync_req (sw_phases sw) now (as_lpm r) (vh_sync st, current) = Inr (s2, List.insert i current)"
      using e s' by (simp add: sync_req_sim)
    then have c: "core_ok s2" "hk_last s2 = hk_last (vh_sync st)" using sync_req_ok [OF ok(1), of "sw_phases sw" now "as_lpm r" current] by auto
    have acc: "vh_access st' = vh_access st" by (simp add: st'_def bump_rid_def Let_def split: prod.split)
    show ?thesis
    proof (cases "sw_evict sw")
      case True
      have i1: "i \<notin> set (hk_seen (vh_sync ?st1))" using False by simp
      have s2i: "hk_seen s2 = hk_seen (vh_sync ?st1) @ [i]" by (simp add: s2_def)
      note b = bump_rid_ok [OF v1 True i1 s2i, of r]
      have H: "vh_hashes st' = dset i (req_hashes r) (vh_hashes st)" using b(2) True by (simp add: st'_def)
      have int2: "hk_interner (vh_sync st') = hk_interner s1" using s' by (simp add: s2_def)
      have "dget (vh_hashes st) i = None" using unseen_snap [OF v1 i1] by simp
      then have "snap_of st' s = (if s = vq_id r \<and> snap_of st s = None then Some (req_hashes r) else snap_of st s)" for s
      proof (cases "s = vq_id r")
        case True
        then show ?thesis using id1 \<open>dget (vh_hashes st) i = None\<close> by (simp add: sn [symmetric] snap_of_def H int2 dict_simps)
      next
        case False
        then have "dget (hk_interner s1) s \<noteq> Some i" using core_id [OF ok1 _ id1, of s] by blast
        then show ?thesis using False by (simp add: sn [symmetric] snap_of_def H int2 dict_simps split: option.split)
      qed
      then show ?thesis using e b(1) True c acc s' by (intro exI [of _ st'] exI [of _ i]) (simp add: st'_def)
    next
      case F: False
      have "vindex_ok sw st'"
      proof (rule vindex_okI)
        show "dget (vh_hashes st') j \<noteq> None \<longleftrightarrow> sw_evict sw \<and> j \<in> set (hk_seen (vh_sync st'))" for j
          using vindex_okD(2) [OF ok(2), of j] F by (simp add: st'_def)
      qed (use F vindex_okD(1,3,4) [OF ok(2)] in \<open>simp_all add: st'_def\<close>)
      then show ?thesis using e c acc s' F by blast
    qed
  qed
qed

definition first_hashes :: "vllm_req list \<Rightarrow> string \<Rightarrow> int list option" where
  "first_hashes q s = map_option req_hashes (List.find (\<lambda>r. vq_id r = s) q)"

lemma vllm_sync_reqs_ok:
  "core_ok (vh_sync st) \<Longrightarrow> vindex_ok sw st \<Longrightarrow>
     \<exists>st' ints. vllm_sync_reqs sw now q (st, current) = Inr (st', ints) \<and> vindex_ok sw st' \<and> core_ok (vh_sync st')
       \<and> hk_last (vh_sync st') = hk_last (vh_sync st) \<and> vh_access st' = vh_access st
       \<and> (sw_evict sw \<longrightarrow> (\<forall>s. snap_of st' s = (case snap_of st s of Some hs \<Rightarrow> Some hs | None \<Rightarrow> first_hashes q s)))"
proof (induction q arbitrary: st current)
  case Nil
  then show ?case by (simp add: first_hashes_def split: option.split)
next
  case (Cons r q)
  obtain st1 i where 1: "vllm_sync_req sw now r (st, current) = Inr (st1, List.insert i current)" "vindex_ok sw st1"
    "core_ok (vh_sync st1)" "hk_last (vh_sync st1) = hk_last (vh_sync st)" "vh_access st1 = vh_access st"
    "sw_evict sw \<longrightarrow> (\<forall>s. snap_of st1 s = (if s = vq_id r \<and> snap_of st s = None then Some (req_hashes r) else snap_of st s))"
    using vllm_sync_req_ok [OF Cons.prems, of now r current] by blast
  obtain st' ints where 2: "vllm_sync_reqs sw now q (st1, List.insert i current) = Inr (st', ints)" "vindex_ok sw st'"
    "core_ok (vh_sync st')" "hk_last (vh_sync st') = hk_last (vh_sync st1)" "vh_access st' = vh_access st1"
    "sw_evict sw \<longrightarrow> (\<forall>s. snap_of st' s = (case snap_of st1 s of Some hs \<Rightarrow> Some hs | None \<Rightarrow> first_hashes q s))"
    using Cons.IH [OF 1(3,2)] by blast
  have "sw_evict sw \<longrightarrow> (\<forall>s. snap_of st' s = (case snap_of st s of Some hs \<Rightarrow> Some hs | None \<Rightarrow> first_hashes (r # q) s))"
    using 1(6) 2(6) by (auto simp: first_hashes_def split: option.splits)
  then show ?case using 1 2 by (intro exI [of _ st'] exI [of _ ints]) (simp add: rbind_def)
qed

lemma depart_ok:
  assumes ok: "core_ok (vh_sync st)" "vindex_ok sw st" and i: "i \<in> set (hk_seen (vh_sync st))"
  shows "core_ok (vh_sync (depart sw i st)) \<and> vindex_ok sw (depart sw i st)
    \<and> hk_last (vh_sync (depart sw i st)) = hk_last (vh_sync st)
    \<and> hk_seen (vh_sync (depart sw i st)) = removeAll i (hk_seen (vh_sync st))
    \<and> (\<forall>s. tracked (vh_sync (depart sw i st)) s = (if dget (hk_interner (vh_sync st)) s = Some i then None else tracked (vh_sync st) s))
    \<and> (sw_evict sw \<longrightarrow> (\<forall>s. snap_of (depart sw i st) s = (if dget (hk_interner (vh_sync st)) s = Some i then None else snap_of st s)))"
proof -
  note d = drop_departed_ok [OF ok(1) i]
  have seen: "hk_seen (drop_departed i (vh_sync st)) = removeAll i (hk_seen (vh_sync st))" using d by blast
  have v: "vindex_ok sw (depart sw i st)"
  proof (cases "sw_evict sw")
    case True
    then show ?thesis using drop_rid_ok(1) [OF ok(2) True seen] by (simp add: depart_def Let_def)
  next
    case False
    show ?thesis
    proof (rule vindex_okI)
      show "dget (vh_hashes (depart sw i st)) j \<noteq> None \<longleftrightarrow> sw_evict sw \<and> j \<in> set (hk_seen (vh_sync (depart sw i st)))" for j
        using vindex_okD(2) [OF ok(2), of j] False by (simp add: depart_def Let_def)
    qed (use False vindex_okD(1,3,4) [OF ok(2)] in \<open>simp_all add: depart_def Let_def\<close>)
  qed
  have H: "vh_hashes (depart sw i st) = ddel i (vh_hashes st)" if "sw_evict sw"
    using that drop_rid_ok(2) [OF ok(2) that seen] by (simp add: depart_def Let_def)
  have "tracked (vh_sync (depart sw i st)) s = (if dget (hk_interner (vh_sync st)) s = Some i then None else tracked (vh_sync st) s)" for s
    using d by (auto simp: tracked_def dict_simps split: option.split)
  moreover have "snap_of (depart sw i st) s = (if dget (hk_interner (vh_sync st)) s = Some i then None else snap_of st s)" if "sw_evict sw" for s
    using d H [OF that] by (auto simp: snap_of_def dict_simps split: option.split)
  ultimately show ?thesis using d v by simp
qed


lemma vllm_departures_ok:
  fixes L ints :: "int list"
  assumes "core_ok (vh_sync st)" and "vindex_ok sw st" and "distinct L" and "set L \<subseteq> set (hk_seen (vh_sync st))"
  defines "st' \<equiv> foldl (\<lambda>s i. if i \<in> set ints then s else depart sw i s) st L"
  shows "vindex_ok sw st' \<and> (sw_evict sw \<longrightarrow> (\<forall>s. snap_of st' s =
      (case dget (hk_interner (vh_sync st)) s of None \<Rightarrow> None | Some i \<Rightarrow> if i \<in> set L - set ints then None else snap_of st s)))"
  using assms(1-4) unfolding st'_def
proof (induction L arbitrary: st)
  case Nil
  then show ?case by (simp add: snap_of_def split: option.split)
next
  case (Cons i L)
  show ?case
  proof (cases "i \<in> set ints")
    case True
    then show ?thesis using Cons.IH [OF Cons.prems(1,2)] Cons.prems by (auto split: option.split)
  next
    case False
    have iS: "i \<in> set (hk_seen (vh_sync st))" using Cons.prems by simp
    note d = depart_ok [OF Cons.prems(1,2) iS]
    note int' = drop_departed_ok [OF Cons.prems(1) iS]
    have "set L \<subseteq> set (hk_seen (vh_sync (depart sw i st)))" using d Cons.prems(3,4) by auto
    note IH = Cons.IH [OF _ _ _ this]
    have v: "vindex_ok sw (foldl (\<lambda>s i. if i \<in> set ints then s else depart sw i s) st (i # L))"
      using IH d Cons.prems(3) False by simp
    have "snap_of (foldl (\<lambda>s i. if i \<in> set ints then s else depart sw i s) st (i # L)) s =
        (case dget (hk_interner (vh_sync st)) s of None \<Rightarrow> None | Some j \<Rightarrow> if j \<in> set (i # L) - set ints then None else snap_of st s)"
      if "sw_evict sw" for s
    proof -
      have "snap_of (foldl (\<lambda>s i. if i \<in> set ints then s else depart sw i s) st (i # L)) s =
          (case dget (hk_interner (vh_sync (depart sw i st))) s of None \<Rightarrow> None
           | Some j \<Rightarrow> if j \<in> set L - set ints then None else snap_of (depart sw i st) s)"
        using IH d Cons.prems(3) False that by simp
      then show ?thesis using d int' False that Cons.prems(3) by (auto split: option.splits)
    qed
    then show ?thesis using v by blast
  qed
qed

lemma vllm_sync_fast:
  "length q = card (hk_last (vh_sync st)) \<and> vq_id ` set q = hk_last (vh_sync st) \<Longrightarrow> vllm_sync sw now q st = Inr st"
  by (simp add: vllm_sync_def Let_def)

lemma brought_as_lpm: "brought (map as_lpm q) s = map_option req_tokens (List.find (\<lambda>r. vq_id r = s) q)"
  by (induction q) auto

lemma lr_rid_as_lpm: "lr_rid ` set (map as_lpm q) = vq_id ` set q"
  by force

lemma vllm_sync_slow_ok:
  assumes c: "core_ok (vh_sync st)" and v: "vindex_ok sw st"
    and slow: "\<not> (length q = card (hk_last (vh_sync st)) \<and> vq_id ` set q = hk_last (vh_sync st))"
  shows "\<exists>st'. vllm_sync sw now q st = Inr st' \<and> hook_ok (vh_sync st') \<and> vindex_ok sw st' \<and> hk_last (vh_sync st') = vq_id ` set q
    \<and> (\<forall>s. tracked (vh_sync st') s = (if s \<in> vq_id ` set q then
         (case tracked (vh_sync st) s of Some t \<Rightarrow> Some t | None \<Rightarrow> map_option req_tokens (List.find (\<lambda>r. vq_id r = s) q)) else None))
    \<and> (sw_evict sw \<longrightarrow> (\<forall>s. snap_of st' s = (if s \<in> vq_id ` set q then
         (case snap_of st s of Some hs \<Rightarrow> Some hs | None \<Rightarrow> first_hashes q s) else None)))"
proof -
  obtain st1 ints where 1: "vllm_sync_reqs sw now q (st, []) = Inr (st1, ints)" "vindex_ok sw st1" "core_ok (vh_sync st1)"
    "sw_evict sw \<longrightarrow> (\<forall>s. snap_of st1 s = (case snap_of st s of Some hs \<Rightarrow> Some hs | None \<Rightarrow> first_hashes q s))"
    using vllm_sync_reqs_ok [OF c v, of now q "[]"] by blast
  have "sync_reqs (sw_phases sw) now (map as_lpm q) (vh_sync st, []) = Inr (vh_sync st1, ints)"
    using 1(1) by (simp add: sync_reqs_sim)
  then have ints: "set ints = {i. \<exists>r \<in> set q. dget (hk_interner (vh_sync st1)) (vq_id r) = Some i}"
    and known: "\<forall>r \<in> set q. dget (hk_interner (vh_sync st1)) (vq_id r) \<noteq> None"
    using sync_reqs_ok [OF c, of "sw_phases sw" now "map as_lpm q" "[]"] by auto
  define st2 where "st2 = foldl (\<lambda>s i. if i \<in> set ints then s else depart sw i s) st1 (hk_seen (vh_sync st1))"
  have 2: "vindex_ok sw st2" "sw_evict sw \<longrightarrow> (\<forall>s. snap_of st2 s =
      (case dget (hk_interner (vh_sync st1)) s of None \<Rightarrow> None | Some i \<Rightarrow> if i \<in> set (hk_seen (vh_sync st1)) - set ints then None else snap_of st1 s))"
    using vllm_departures_ok [OF 1(3,2) core_okD(6) [OF 1(3)] subset_refl, of ints] unfolding st2_def by blast+
  define st' where "st' = st2\<lparr>vh_sync := (vh_sync st2)\<lparr>
    hk_phases := (if sw_phases sw then mark_picked now (hk_last (vh_sync st2) - vq_id ` set q) (hk_phases (vh_sync st2)) else hk_phases (vh_sync st2)),
    hk_last := vq_id ` set q\<rparr>\<rparr>"
  have e: "vllm_sync sw now q st = Inr st'"
    unfolding vllm_sync_def Let_def if_not_P [OF slow] 1(1) rbind_def by (simp add: st2_def st'_def)
  have "sync (sw_phases sw) now (map as_lpm q) (vh_sync st) = Inr (vh_sync st')" by (simp add: sync_sim e)
  then have S: "hook_ok (vh_sync st')" "hk_last (vh_sync st') = vq_id ` set q"
    "\<forall>s. tracked (vh_sync st') s = (if s \<in> vq_id ` set q then
         (case tracked (vh_sync st) s of Some t \<Rightarrow> Some t | None \<Rightarrow> brought (map as_lpm q) s) else None)"
    using sync_slow_ok [OF c, of "map as_lpm q" "sw_phases sw" now] slow unfolding lr_rid_as_lpm by auto
  have "snap_of st' s = (if s \<in> vq_id ` set q then (case snap_of st s of Some hs \<Rightarrow> Some hs | None \<Rightarrow> first_hashes q s) else None)"
    if ev: "sw_evict sw" for s
  proof -
    have s2: "snap_of st' s = (case dget (hk_interner (vh_sync st1)) s of None \<Rightarrow> None
        | Some i \<Rightarrow> if i \<in> set (hk_seen (vh_sync st1)) - set ints then None else snap_of st1 s)"
      using 2(2) ev by (simp add: st'_def snap_of_sync)
    show ?thesis
    proof (cases "dget (hk_interner (vh_sync st1)) s")
      case None
      then have "s \<notin> vq_id ` set q" using known by auto
      then show ?thesis using s2 None by simp
    next
      case (Some i)
      show ?thesis
      proof (cases "s \<in> vq_id ` set q")
        case True
        then have "i \<in> set ints" using ints Some by auto
        then show ?thesis using s2 Some True 1(4) ev by simp
      next
        case False
        then have "i \<notin> set ints" using ints core_id [OF 1(3) Some] by auto
        moreover have "snap_of st1 s = None" if "i \<notin> set (hk_seen (vh_sync st1))"
          using Some unseen_snap [OF 1(2) that] by (simp add: snap_of_def)
        ultimately show ?thesis using s2 Some False by auto
      qed
    qed
  qed
  moreover have "vindex_ok sw st'" using 2(1) by (simp add: st'_def vindex_ok_sync)
  ultimately show ?thesis using e S unfolding brought_as_lpm by blast
qed


section \<open>Every history\<close>

definition vhook_ok :: "vllm_switches \<Rightarrow> vllm_hook \<Rightarrow> bool" where
  "vhook_ok sw st \<longleftrightarrow> core_ok (vh_sync st) \<and> vindex_ok sw st \<and> finite (hk_last (vh_sync st))
     \<and> {s. tracked (vh_sync st) s \<noteq> None} \<subseteq> hk_last (vh_sync st)"

text \<open>
  What can happen to the state: a synchronisation with any queue, ids that are finished, the
  interning of the reordering, and the time stamps of the block pool.
\<close>

inductive vhook_reach :: "vllm_switches \<Rightarrow> vllm_hook \<Rightarrow> bool" for sw where
  vreach_init: "vhook_reach sw vllm_hook_init"
| vreach_sync: "vhook_reach sw st \<Longrightarrow> vllm_sync sw now q st = Inr st' \<Longrightarrow> vhook_reach sw st'"
| vreach_finish: "vhook_reach sw st \<Longrightarrow> vhook_reach sw (vllm_finish sw ids st)"
| vreach_intern: "vhook_reach sw st \<Longrightarrow> vhook_reach sw (st\<lparr>vh_sync := fst (intern s (vh_sync st))\<rparr>)"
| vreach_stamp: "vhook_reach sw st \<Longrightarrow> vhook_reach sw (st\<lparr>vh_access := access\<rparr>)"

lemma vindex_ok_stamp: "vindex_ok sw (st\<lparr>vh_access := access\<rparr>) = vindex_ok sw st"
  by (simp add: vindex_ok_def)

lemma vhook_ok_init: "vhook_ok sw vllm_hook_init"
proof -
  have "core_ok hook_init" "hk_last hook_init = {}" "{s. tracked hook_init s \<noteq> None} = {}"
    using hook_ok_init by (simp_all add: hook_ok_def hook_init_def tracked_def)
  moreover have "vindex_ok sw vllm_hook_init"
    by (simp add: vindex_ok_def index_ok_def vllm_hook_init_def hash_total_def hook_init_def)
  ultimately show ?thesis by (simp add: vhook_ok_def vllm_hook_init_def)
qed

lemma vhook_ok_sync:
  assumes ok: "vhook_ok sw st"
  shows "\<exists>st'. vllm_sync sw now q st = Inr st' \<and> vhook_ok sw st' \<and> {s. tracked (vh_sync st') s \<noteq> None} \<subseteq> vq_id ` set q"
proof (cases "length q = card (hk_last (vh_sync st)) \<and> vq_id ` set q = hk_last (vh_sync st)")
  case True
  then show ?thesis using ok vllm_sync_fast [OF True] by (auto simp: vhook_ok_def)
next
  case False
  then obtain st' where s: "vllm_sync sw now q st = Inr st'" "hook_ok (vh_sync st')" "vindex_ok sw st'" "hk_last (vh_sync st') = vq_id ` set q"
    using vllm_sync_slow_ok [OF _ _ False] ok unfolding vhook_ok_def by blast
  have "finite (hk_last (vh_sync st'))" unfolding s(4) by simp
  moreover have "core_ok (vh_sync st')" "{s. tracked (vh_sync st') s \<noteq> None} = hk_last (vh_sync st')"
    using s(2) unfolding hook_ok_def by blast+
  ultimately show ?thesis using s(1,3) s(4) [symmetric] unfolding vhook_ok_def by (intro exI [of _ st']) blast
qed

lemma vhook_ok_finish_one:
  assumes ok: "vhook_ok sw st"
  shows "vhook_ok sw (finish_one sw s st)"
proof -
  have "vhook_ok sw (depart sw i st)" if "i \<in> set (hk_seen (vh_sync st))" for i
  proof -
    have o: "core_ok (vh_sync st)" "vindex_ok sw st" "finite (hk_last (vh_sync st))" "{s. tracked (vh_sync st) s \<noteq> None} \<subseteq> hk_last (vh_sync st)"
      using ok by (simp_all only: vhook_ok_def)
    note d = depart_ok [OF o(1,2) that]
    have "{s. tracked (vh_sync (depart sw i st)) s \<noteq> None} \<subseteq> hk_last (vh_sync st)"
    proof
      fix x assume "x \<in> {s. tracked (vh_sync (depart sw i st)) s \<noteq> None}"
      then have "tracked (vh_sync st) x \<noteq> None" using d by (simp del: vh_sync_depart not_None_eq split: if_splits)
      then show "x \<in> hk_last (vh_sync st)" using o(4) by blast
    qed
    then show ?thesis using d o(3) by (simp only: vhook_ok_def)
  qed
  then show ?thesis using ok by (simp add: finish_one_def split: option.split)
qed

lemma vhook_ok_finish: "vhook_ok sw st \<Longrightarrow> vhook_ok sw (vllm_finish sw ids st)"
  by (induction ids arbitrary: st) (simp_all add: vllm_finish_def vhook_ok_finish_one)

lemma vhook_ok_intern:
  assumes ok: "vhook_ok sw st"
  shows "vhook_ok sw (st\<lparr>vh_sync := fst (intern s (vh_sync st))\<rparr>)"
  using ok intern_ok [of "vh_sync st" s "fst (intern s (vh_sync st))" "snd (intern s (vh_sync st))"]
  by (simp add: vhook_ok_def vindex_ok_sync intern_seen)

lemma vhook_reach_ok: "vhook_reach sw st \<Longrightarrow> vhook_ok sw st"
proof (induction rule: vhook_reach.induct)
  case (vreach_sync st now q st')
  then show ?case using vhook_ok_sync [of sw st now q] by auto
next
  case (vreach_stamp st access)
  then show ?case by (simp add: vhook_ok_def vindex_ok_stamp)
qed (simp_all add: vhook_ok_init vhook_ok_intern vhook_ok_finish)

lemma snap_tracked:
  assumes "core_ok (vh_sync st)" and "vindex_ok sw st" and "sw_evict sw"
  shows "snap_of st s \<noteq> None \<longleftrightarrow> tracked (vh_sync st) s \<noteq> None"
proof (cases "dget (hk_interner (vh_sync st)) s")
  case (Some i)
  then show ?thesis using vindex_okD(2) [OF assms(2), of i] core_okD(7) [OF assms(1), of i] assms(3)
    by (simp add: snap_of_def tracked_def)
qed (simp add: snap_of_def tracked_def)


definition sample_vllm :: "string \<Rightarrow> int list \<Rightarrow> int list \<Rightarrow> vllm_req" where
  "sample_vllm s toks hs = \<lparr>vq_id = s, vq_prompt = toks, vq_output = [], vq_hashes = Some hs, vq_tokens = int (length toks), vq_skip = False\<rparr>"

definition cluster_switches :: vllm_switches where
  "cluster_switches = \<lparr>sw_evict = True, sw_cluster = True, sw_phases = True\<rparr>"


section \<open>Validation\<close>

definition vllm_validate :: "vllm_req list \<Rightarrow> vllm_hook \<Rightarrow> vstats \<Rightarrow> vstats" where
  "vllm_validate q st vs = validate_sync (map as_lpm q) (vh_sync st) vs"

lemma hash_total_queue:
  assumes "mset (map snd D) = mset (map req_hashes q)"
  shows "hash_total D h = (\<Sum>r \<leftarrow> q. int (count_list (req_hashes r) h))"
proof -
  have "hash_total D h = sum_mset (image_mset (\<lambda>hs. int (count_list hs h)) (mset (map snd D)))"
    by (simp add: hash_total_def sum_mset_sum_list [symmetric] image_mset.compositionality comp_def case_prod_unfold)
  also have "\<dots> = (\<Sum>r \<leftarrow> q. int (count_list (req_hashes r) h))"
    unfolding assms by (simp add: sum_mset_sum_list [symmetric] image_mset.compositionality comp_def)
  finally show ?thesis .
qed

text \<open>
  When the ids of the queue are distinct, the requests already tracked have kept tokens and hashes,
  and no finished request still counts as seen, a synchronisation leaves tree and index in step with
  the queue: the validation finds nothing, the demand of a path is the number of waiting requests that
  start with it, and the demand of a block hash the number of its occurrences in the waiting requests.
\<close>

lemma vllm_synced:
  assumes "vhook_reach sw st" and "sw_evict sw" and "distinct (map vq_id q)"
    and "\<forall>r \<in> set q. tracked (vh_sync st) (vq_id r) \<in> {None, Some (req_tokens r)}"
    and "\<forall>r \<in> set q. snap_of st (vq_id r) \<in> {None, Some (req_hashes r)}"
    and "hk_last (vh_sync st) = {s. tracked (vh_sync st) s \<noteq> None}"
  shows "\<exists>st'. vllm_sync sw now q st = Inr st' \<and> hook_ok (vh_sync st') \<and> hk_last (vh_sync st') = vq_id ` set q
    \<and> vllm_validate q st' vs = vs\<lparr>sync_checks := sync_checks vs + 1\<rparr>
    \<and> (\<forall>p. p \<noteq> [] \<longrightarrow> pending_demand (vh_tree st') p = int (length (filter (\<lambda>r. prefix p (req_tokens r)) q)))
    \<and> (\<forall>h. dget_or (vh_demand st') h 0 = (\<Sum>r \<leftarrow> q. int (count_list (req_hashes r) h)))"
proof -
  have ok: "core_ok (vh_sync st)" "vindex_ok sw st" "finite (hk_last (vh_sync st))"
    using vhook_reach_ok [OF assms(1)] by (simp_all add: vhook_ok_def)
  have find: "List.find (\<lambda>x. vq_id x = vq_id r) q = Some r" if "r \<in> set q" for r
    using that assms(3) by (induction q) (auto simp: rev_image_eqI)
  obtain st' where s: "vllm_sync sw now q st = Inr st'" "hook_ok (vh_sync st')" "vindex_ok sw st'" "hk_last (vh_sync st') = vq_id ` set q"
    "\<forall>r \<in> set q. tracked (vh_sync st') (vq_id r) = Some (req_tokens r)" "\<forall>r \<in> set q. snap_of st' (vq_id r) = Some (req_hashes r)"
  proof (cases "length q = card (hk_last (vh_sync st)) \<and> vq_id ` set q = hk_last (vh_sync st)")
    case True
    have "tracked (vh_sync st) (vq_id r) = Some (req_tokens r) \<and> snap_of st (vq_id r) = Some (req_hashes r)" if r: "r \<in> set q" for r
    proof -
      have "vq_id r \<in> {s. tracked (vh_sync st) s \<noteq> None}" using True assms(6) r by auto
      then show ?thesis using snap_tracked [OF ok(1,2) assms(2), of "vq_id r"] assms(4,5) r by auto
    qed
    then show ?thesis using that [of st] vllm_sync_fast [OF True] True ok assms(6) by (simp add: hook_ok_def)
  next
    case False
    obtain st' where "vllm_sync sw now q st = Inr st'" "hook_ok (vh_sync st')" "vindex_ok sw st'" "hk_last (vh_sync st') = vq_id ` set q"
      "\<forall>s. tracked (vh_sync st') s = (if s \<in> vq_id ` set q then
         (case tracked (vh_sync st) s of Some t \<Rightarrow> Some t | None \<Rightarrow> map_option req_tokens (List.find (\<lambda>r. vq_id r = s) q)) else None)"
      "\<forall>s. snap_of st' s = (if s \<in> vq_id ` set q then
         (case snap_of st s of Some hs \<Rightarrow> Some hs | None \<Rightarrow> first_hashes q s) else None)"
      using vllm_sync_slow_ok [OF ok(1,2) False] assms(2) by blast
    then show ?thesis using that [of st'] assms(4,5) find by (fastforce simp: first_hashes_def)
  qed
  have d: "distinct (map lr_rid (map as_lpm q))" using assms(3) by (simp add: comp_def)
  have l: "hk_last (vh_sync st') = lr_rid ` set (map as_lpm q)" unfolding lr_rid_as_lpm by (rule s(4))
  have t: "tracked (vh_sync st') (lr_rid r) = Some (lr_tokens r)" if "r \<in> set (map as_lpm q)" for r using that s(5) by auto
  note P = paths_of_queue [OF s(2) d l t]
  have c: "core_ok (vh_sync st')" using s(2) by (simp add: hook_ok_def)
  have "\<exists>i. dget (hk_interner (vh_sync st')) (vq_id r) = Some i \<and> dget (vh_hashes st') i = Some (req_hashes r)" if "r \<in> set q" for r
    using s(6) that by (auto simp: snap_of_def split: option.splits)
  moreover have "{s. tracked (vh_sync st') s \<noteq> None} = vq_id ` set q" using s(2,4) by (simp add: hook_ok_def)
  moreover have "i \<in> set (hk_seen (vh_sync st')) \<longleftrightarrow> dget (vh_hashes st') i \<noteq> None" for i
    using vindex_okD(2) [OF s(3), of i] assms(2) by simp
  ultimately have H: "mset (map snd (vh_hashes st')) = mset (map req_hashes q)"
    using dict_of_queue(1) [OF c vindex_okD(1) [OF s(3)] _ assms(3)] by blast
  have dem: "dget_or (vh_demand st') h 0 = (\<Sum>r \<leftarrow> q. int (count_list (req_hashes r) h))" for h
    using index_okD(3) [OF vindex_okD(3) [OF s(3)], of h] hash_total_queue [OF H] by simp
  have pd: "pending_demand (vh_tree st') p = int (length (filter (\<lambda>r. prefix p (req_tokens r)) q))" if "p \<noteq> []" for p
  proof -
    have "starting_with (pt_paths (vh_tree st')) p = length (filter (prefix p) (map snd (pt_paths (vh_tree st'))))"
      by (simp add: starting_with_def filter_map comp_def)
    also have "\<dots> = length (filter (\<lambda>r. prefix p (req_tokens r)) q)"
      using mset_filter_length [OF P(1), of "prefix p"] by (simp add: filter_map comp_def)
    finally show ?thesis using pending_demand_eq [OF core_okD(1) [OF c]] that by simp
  qed
  have "sync_violations (map as_lpm q) (vh_sync st') = (0, 0, 0)"
    using t P(2) by (fastforce simp: sync_violations_def Let_def tracked_def filter_empty_conv list_ex_iff split: option.splits)
  then show ?thesis using s(1,2,4) dem pd by (simp add: vllm_validate_def validate_sync_def)
qed

section \<open>A limit\<close>

text \<open>
  Finishing a request does not take its id out of the set the fast path compares with: a request
  that comes back under the same id, with no other change of the queue, is not tracked again.
\<close>

lemma finished_id_not_tracked_again:
  "\<exists>st. vllm_sync cluster_switches 1 [sample_vllm ''a'' [5] [7]] vllm_hook_init = Inr st
     \<and> vllm_sync cluster_switches 2 [sample_vllm ''a'' [5] [7]] (vllm_finish cluster_switches [''a''] st)
         = Inr (vllm_finish cluster_switches [''a''] st)
     \<and> tracked (vh_sync (vllm_finish cluster_switches [''a''] st)) ''a'' = None"
proof -
  let ?q = "[sample_vllm ''a'' [5] [7]]"
  have slow: "\<not> (length ?q = card (hk_last (vh_sync vllm_hook_init)) \<and> vq_id ` set ?q = hk_last (vh_sync vllm_hook_init))"
    by (simp add: vllm_hook_init_def hook_init_def)
  have ok: "core_ok (vh_sync vllm_hook_init)" "vindex_ok cluster_switches vllm_hook_init"
    using vhook_ok_init [of cluster_switches] by (simp_all add: vhook_ok_def)
  obtain st where st: "vllm_sync cluster_switches 1 ?q vllm_hook_init = Inr st" "hook_ok (vh_sync st)" "vindex_ok cluster_switches st"
    "hk_last (vh_sync st) = vq_id ` set ?q"
    using vllm_sync_slow_ok [OF ok slow] by blast
  then have l: "hk_last (vh_sync st) = {''a''}" "core_ok (vh_sync st)" "tracked (vh_sync st) ''a'' \<noteq> None"
    by (auto simp: sample_vllm_def hook_ok_def)
  then obtain i where i: "dget (hk_interner (vh_sync st)) ''a'' = Some i" by (auto simp: tracked_def split: option.splits)
  then have iS: "i \<in> set (hk_seen (vh_sync st))" using l(3) core_okD(7) [OF l(2), of i] by (simp add: tracked_def)
  have f: "vllm_finish cluster_switches [''a''] st = depart cluster_switches i st" using i iS by (simp add: vllm_finish_def finish_one_def)
  note d = depart_ok [OF l(2) st(3) iS]
  have "tracked (vh_sync (depart cluster_switches i st)) ''a'' = None" using d i by simp
  moreover have "vllm_sync cluster_switches 2 ?q (depart cluster_switches i st) = Inr (depart cluster_switches i st)"
    by (rule vllm_sync_fast) (use d l(1) in \<open>simp add: sample_vllm_def\<close>)
  ultimately show ?thesis using st(1) f by auto
qed

end
