(* ===== verification/Vllm_Config.thy ===== *)
theory Vllm_Config
  imports Online_Config Online_Eviction
begin

text \<open>
  The switches \<open>src/python/peek/online/engines/vllm/patch_hook.py\<close> reads once, when it is imported,
  from the environment of \<open>Online_Config\<close>. The paths of the diagnosis files and the profiling switch
  are left out; \<open>float\<close> of a string is a parameter.
\<close>

definition vllm_scheduler_on :: "environ \<Rightarrow> bool" where
  "vllm_scheduler_on env \<longleftrightarrow> flag env ''PEEK_ONLINE_SCHEDULER'' \<or> legacy_any env
     \<or> flag env ''PEEK_ONLINE_LPM'' \<or> flag env ''PEEK_ONLINE_CLPM''"

definition vllm_eviction_on :: "environ \<Rightarrow> bool" where
  "vllm_eviction_on env \<longleftrightarrow> flag env ''PEEK_ONLINE_EVICTION'' \<or> legacy_any env"

definition vllm_phases_on :: "environ \<Rightarrow> bool" where
  "vllm_phases_on env \<longleftrightarrow> flag env ''PEEK_ONLINE_PHASE_TRACKING'' \<or> vllm_scheduler_on env"

definition vllm_enabled :: "environ \<Rightarrow> bool" where
  "vllm_enabled env \<longleftrightarrow> vllm_scheduler_on env \<or> vllm_phases_on env \<or> vllm_eviction_on env"

text \<open>An unknown mode means plain, with a warning.\<close>

definition vllm_mode_of :: "environ \<Rightarrow> eviction_mode \<times> bool" where
  "vllm_mode_of env =
     (let m = lower (dget_or env ''PEEK_ONLINE_EVICTION_MODE'' ''plain'') in
      if m = ''plain'' then (Plain, False) else if m = ''cluster'' then (Cluster, False)
      else if m = ''recency'' then (Recency, False) else if m = ''decay'' then (Decay, False)
      else (Plain, True))"

definition scan_cap_of :: "environ \<Rightarrow> int res" where
  "scan_cap_of env =
     (case dget env ''PEEK_ONLINE_EVICTION_SCAN_CAP'' of
        None \<Rightarrow> Inr 0
      | Some v \<Rightarrow> if v = '''' then Inr 0 else py_int v)"

record vllm_flags =
  vf_evict :: bool
  vf_sched :: bool
  vf_phases :: bool
  vf_lpm :: bool
  vf_clpm :: bool
  vf_age_alpha :: pyfloat
  vf_big_share :: pyfloat
  vf_group_major :: bool
  vf_dynamic :: bool
  vf_slo :: pyfloat
  vf_fb_threshold :: int
  vf_check :: int
  vf_depr :: int
  vf_validate :: bool
  vf_scan_cap :: int
  vf_mode :: eviction_mode
  vf_recency :: pyfloat
  vf_tau :: pyfloat

text \<open>Module level, in the order of the file: a malformed number raises at import.\<close>

definition vllm_flags_of :: "(string \<Rightarrow> pyfloat res) \<Rightarrow> environ \<Rightarrow> vllm_flags res" where
  "vllm_flags_of py_float env =
     rbind (py_float (dget_or env ''PEEK_ONLINE_CLPM_AGE_ALPHA'' ''0'')) (\<lambda>alpha.
     rbind (py_float (dget_or env ''PEEK_ONLINE_CLPM_BIGLANE_SHARE'' ''0.7'')) (\<lambda>share.
     rbind (py_float (dget_or env ''PEEK_ONLINE_CLPM_SLO_BUDGET_S'' ''2.0'')) (\<lambda>slo.
     rbind (py_int (dget_or env ''PEEK_ONLINE_LPM_FALLBACK_THRESHOLD'' ''128'')) (\<lambda>fb.
     rbind (py_int (dget_or env ''PEEK_ONLINE_IN_BATCH_CHECK'' ''32'')) (\<lambda>check.
     rbind (py_int (dget_or env ''PEEK_ONLINE_IN_BATCH_DEPRIO'' ''32'')) (\<lambda>depr.
     rbind (scan_cap_of env) (\<lambda>cap.
     rbind (py_float (dget_or env ''PEEK_ONLINE_EVICTION_RECENCY_W'' ''100'')) (\<lambda>w.
     rbind (py_float (dget_or env ''PEEK_ONLINE_EVICTION_DECAY_TAU'' ''30'')) (\<lambda>tau.
       Inr \<lparr>vf_evict = vllm_eviction_on env, vf_sched = vllm_scheduler_on env, vf_phases = vllm_phases_on env,
            vf_lpm = flag env ''PEEK_ONLINE_LPM'', vf_clpm = flag env ''PEEK_ONLINE_CLPM'',
            vf_age_alpha = alpha, vf_big_share = share, vf_group_major = flag env ''PEEK_ONLINE_CLPM_GROUP_MAJOR'',
            vf_dynamic = flag env ''PEEK_ONLINE_CLPM_DYNAMIC_LANE'', vf_slo = slo, vf_fb_threshold = fb,
            vf_check = check, vf_depr = depr, vf_validate = flag env ''PEEK_ONLINE_VALIDATE'', vf_scan_cap = cap,
            vf_mode = fst (vllm_mode_of env), vf_recency = w, vf_tau = tau\<rparr>)))))))))"

text \<open>
  The legacy switch means less for SGLang: set to 1 it turns the scheduler on under vLLM only. The
  mode names with a prefix that the SGLang side accepts are unknown here.
\<close>

lemma legacy_switch_differs:
  "vllm_scheduler_on [(''PEEK_ONLINE_ENABLED'', ''1'')] \<and> \<not> scheduler_on [(''PEEK_ONLINE_ENABLED'', ''1'')]
   \<and> eviction_on [(''PEEK_ONLINE_ENABLED'', ''1'')] \<and> vllm_eviction_on [(''PEEK_ONLINE_ENABLED'', ''1'')]"
  by code_simp

lemma mode_alias_unknown_to_vllm:
  "vllm_mode_of [(''PEEK_ONLINE_EVICTION_MODE'', ''demand_cluster'')] = (Plain, True)
   \<and> eviction_mode_of (Some ''demand_cluster'') = (Cluster, False)"
  by code_simp

end
