(* ===== verification/Vllm_Victims.thy ===== *)
theory Vllm_Victims
  imports Vllm_Sync Vllm_Config Vllm_Props Lpm_Props
begin

text \<open>
  Demand-aware victim selection in vLLM's block pool: \<open>_peek_get_new_blocks\<close>, \<open>_peek_touch\<close> and
  \<open>_peek_cache_full\<close> of \<open>src/python/peek/online/engines/vllm/patch_hook.py\<close>. The pool is vLLM's: its
  free queue is the list of blocks along its links, and the stock \<open>get_new_blocks\<close>, the count of free
  blocks, the removal from the queue, \<open>_maybe_evict_cached_block\<close> and \<open>get_block_hash\<close> are parameters.
  \<open>time.time()\<close> is read per scanned block; \<open>math.exp\<close> is a parameter. The metrics collector of the pool
  and profiling are left out.
\<close>

section \<open>The priority of a block\<close>

record 'k block_pool =
  bp_free :: "nat list"
  bp_hash :: "nat \<Rightarrow> 'k option"
  bp_ref :: "nat \<Rightarrow> int"

record victim_env =
  vc_mode :: eviction_mode
  vc_scan_cap :: int
  vc_recency :: pyfloat
  vc_tau :: pyfloat
  vc_exp :: "pyfloat \<Rightarrow> pyfloat"
  vc_now :: "nat \<Rightarrow> pyfloat"

definition block_age :: "pyfloat \<Rightarrow> pyfloat option \<Rightarrow> pyfloat" where
  "block_age now la = (case la of None \<Rightarrow> 0 | Some t \<Rightarrow> if t = 0 then 0 else fsub now t)"

definition block_priority :: "victim_env \<Rightarrow> vllm_hook \<Rightarrow> nat \<Rightarrow> int \<Rightarrow> int \<Rightarrow> int" where
  "block_priority e st k h d =
     (let age = block_age (vc_now e k) (dget (vh_access st) h) in
      case vc_mode e of
        Plain \<Rightarrow> d
      | Cluster \<Rightarrow> d * (1 + dget_or (vh_depth st) h 1)
      | Recency \<Rightarrow> py_trunc (fsub (of_pyint d) (fmul (vc_recency e) age))
      | Decay \<Rightarrow> py_trunc (fmul (fmul (of_pyint d) (if 0 < vc_tau e then vc_exp e (fdiv (- age) (vc_tau e)) else 1)) 1000))"

text \<open>\<open>None\<close>: nobody waits for the block.\<close>

definition block_want :: "victim_env \<Rightarrow> ('k \<Rightarrow> int) \<Rightarrow> vllm_hook \<Rightarrow> 'k block_pool \<Rightarrow> nat \<Rightarrow> nat \<Rightarrow> int option" where
  "block_want e raw st pool k b =
     (case bp_hash pool b of
        None \<Rightarrow> None
      | Some key \<Rightarrow>
          (let h = raw key; d = dget_or (vh_demand st) h 0
           in if d = 0 then None else Some (block_priority e st k h d)))"

section \<open>The scan\<close>

text \<open>The scan keeps the blocks nobody waits for and defers the others with priority and position.\<close>

fun scan_free ::
  "(nat \<Rightarrow> nat \<Rightarrow> int option) \<Rightarrow> nat \<Rightarrow> nat \<Rightarrow> nat \<Rightarrow> nat list \<Rightarrow> nat list \<Rightarrow> (int \<times> nat \<times> nat) list \<Rightarrow>
     nat list \<times> (int \<times> nat \<times> nat) list"
where
  "scan_free want n cap k [] picked low = (picked, low)"
| "scan_free want n cap k (b # bs) picked low =
     (if length picked < n \<and> k < cap
      then (case want k b of
              None \<Rightarrow> scan_free want n cap (k + 1) bs (picked @ [b]) low
            | Some p \<Rightarrow> scan_free want n cap (k + 1) bs picked (low @ [(p, k, b)]))
      else (picked, low))"

definition pick_blocks :: "(nat \<Rightarrow> nat \<Rightarrow> int option) \<Rightarrow> nat \<Rightarrow> nat \<Rightarrow> nat list \<Rightarrow> nat list" where
  "pick_blocks want n cap free =
     (let (picked, low) = scan_free want n cap 0 free [] [] in
      if length picked < n
      then picked @ map (\<lambda>(p, k, b). b) (take (n - length picked) (sort_key (\<lambda>(p, k, b). (p, k)) low))
      else picked)"

definition scan_cap :: "victim_env \<Rightarrow> int \<Rightarrow> nat" where
  "scan_cap e n = nat (if 0 < vc_scan_cap e then vc_scan_cap e else max (n * 4) 256)"

section \<open>The allocation\<close>

fun claim_blocks :: "(nat \<Rightarrow> 'k block_pool \<Rightarrow> 'k block_pool) \<Rightarrow> nat list \<Rightarrow> 'k block_pool \<Rightarrow> 'k block_pool res" where
  "claim_blocks evict_cached [] pool = Inr pool"
| "claim_blocks evict_cached (b # bs) pool =
     (let p1 = evict_cached b pool in
      if bp_ref p1 b \<noteq> 0 then Inl AssertionError
      else claim_blocks evict_cached bs (p1\<lparr>bp_ref := (bp_ref p1)(b := bp_ref p1 b + 1)\<rparr>))"

definition peek_get_new_blocks ::
  "(int \<Rightarrow> 'k block_pool \<Rightarrow> ('k block_pool \<times> nat list) res) \<Rightarrow> ('k block_pool \<Rightarrow> int) \<Rightarrow> (nat \<Rightarrow> nat list \<Rightarrow> nat list) \<Rightarrow>
     (nat \<Rightarrow> 'k block_pool \<Rightarrow> 'k block_pool) \<Rightarrow> ('k \<Rightarrow> int) \<Rightarrow> victim_env \<Rightarrow> bool \<Rightarrow> vllm_hook \<Rightarrow> int \<Rightarrow> 'k block_pool \<Rightarrow>
     ('k block_pool \<times> nat list) res"
where
  "peek_get_new_blocks orig num_free del evict_cached raw e caching st n pool =
     (if n \<le> 0 \<or> \<not> caching then orig n pool
      else if num_free pool < n then orig n pool
      else if vh_demand st = [] then orig n pool
      else
        let picked = pick_blocks (block_want e raw st pool) (nat n) (scan_cap e n) (bp_free pool) in
        if length picked < nat n then orig n pool
        else rbind (claim_blocks evict_cached picked (pool\<lparr>bp_free := foldl (\<lambda>fr b. del b fr) (bp_free pool) picked\<rparr>))
               (\<lambda>pool'. Inr (pool', picked)))"

section \<open>Last-access times\<close>

definition stamp_blocks :: "('k \<Rightarrow> int) \<Rightarrow> 'k block_pool \<Rightarrow> pyfloat \<Rightarrow> nat list \<Rightarrow> vllm_hook \<Rightarrow> vllm_hook" where
  "stamp_blocks raw pool now blocks st =
     st\<lparr>vh_access := foldl (\<lambda>d b. case bp_hash pool b of None \<Rightarrow> d | Some key \<Rightarrow> dset (raw key) now d) (vh_access st) blocks\<rparr>"

definition peek_touch ::
  "(nat list \<Rightarrow> 'k block_pool \<Rightarrow> 'k block_pool res) \<Rightarrow> ('k \<Rightarrow> int) \<Rightarrow> pyfloat \<Rightarrow> nat list \<Rightarrow> vllm_hook \<Rightarrow> 'k block_pool \<Rightarrow>
     vllm_hook \<times> 'k block_pool res"
where
  "peek_touch orig raw now blocks st pool = (stamp_blocks raw pool now blocks st, orig blocks pool)"

definition peek_cache_full ::
  "('k block_pool \<Rightarrow> 'k block_pool res) \<Rightarrow> ('k \<Rightarrow> int) \<Rightarrow> pyfloat \<Rightarrow> nat list \<Rightarrow> nat \<Rightarrow> nat \<Rightarrow> vllm_hook \<Rightarrow> 'k block_pool \<Rightarrow>
     (vllm_hook \<times> 'k block_pool) res"
where
  "peek_cache_full orig raw now blocks cached full st pool =
     rbind (orig pool) (\<lambda>pool'. Inr (stamp_blocks raw pool' now (drop cached (take full blocks)) st, pool'))"

section \<open>The scan is a sort\<close>

text \<open>
  The order the selection is meant to follow: blocks nobody waits for first, in queue order, then by
  priority; positions come along because the clock is read per position.
\<close>

definition victim_key :: "(nat \<Rightarrow> nat \<Rightarrow> int option) \<Rightarrow> nat \<times> nat \<Rightarrow> nat \<times> int" where
  "victim_key want x = (case want (fst x) (snd x) of None \<Rightarrow> (0, 0) | Some p \<Rightarrow> (1, p))"

definition unwanted :: "(nat \<Rightarrow> nat \<Rightarrow> int option) \<Rightarrow> nat \<times> nat \<Rightarrow> bool" where
  "unwanted want x \<longleftrightarrow> want (fst x) (snd x) = None"

definition deferred :: "(nat \<Rightarrow> nat \<Rightarrow> int option) \<Rightarrow> nat \<times> nat \<Rightarrow> int \<times> nat \<times> nat" where
  "deferred want x = (the (want (fst x) (snd x)), x)"

lemma scan_free_ok:
  "length picked \<le> n \<Longrightarrow> scan_free want n cap k bs picked low = (picked', low') \<Longrightarrow>
     picked' = picked @ map snd (take (n - length picked) (filter (unwanted want) (enumerate k (take (cap - k) bs))))
     \<and> (length picked' < n \<longrightarrow> low' = low @ map (deferred want) (filter (\<lambda>x. \<not> unwanted want x) (enumerate k (take (cap - k) bs))))"
proof (induction bs arbitrary: k picked low)
  case (Cons b bs)
  show ?case
  proof (cases "length picked < n \<and> k < cap")
    case False
    then show ?thesis using Cons.prems by (cases "length picked < n") auto
  next
    case True
    then obtain c where c: "cap - k = Suc c" "cap - (k + 1) = c" by (cases "cap - k") auto
    show ?thesis
    proof (cases "want k b")
      case None
      then have "length (picked @ [b]) \<le> n" "scan_free want n cap (k + 1) bs (picked @ [b]) low = (picked', low')"
        using True Cons.prems(2) by simp_all
      note IH = Cons.IH [OF this]
      have n: "n - length picked = Suc (n - length (picked @ [b]))" using True by (simp add: Suc_diff_Suc)
      show ?thesis using IH None c by (simp add: n unwanted_def)
    next
      case (Some p)
      then have "scan_free want n cap (k + 1) bs picked (low @ [(p, k, b)]) = (picked', low')"
        using True Cons.prems(2) by simp
      note IH = Cons.IH [OF Cons.prems(1) this]
      then show ?thesis using Some c by (simp add: unwanted_def deferred_def)
    qed
  qed
qed simp

text \<open>Sorting by a key with a least class puts that class first, as it is.\<close>

lemma sort_key_first:
  assumes low: "\<And>x. x \<in> set xs \<Longrightarrow> P x \<Longrightarrow> f x = c" and high: "\<And>x. x \<in> set xs \<Longrightarrow> \<not> P x \<Longrightarrow> c < f x"
  shows "sort_key f xs = filter P xs @ sort_key f (filter (\<lambda>x. \<not> P x) xs)"
proof (rule properties_for_sort_key)
  show "mset (filter P xs @ sort_key f (filter (\<lambda>x. \<not> P x) xs)) = mset xs" by simp
next
  fix k assume k: "k \<in> set (filter P xs @ sort_key f (filter (\<lambda>x. \<not> P x) xs))"
  have "filter (\<lambda>x. f k = f x) (sort_key f (filter (\<lambda>x. \<not> P x) xs)) = filter (\<lambda>x. f k = f x) (filter (\<lambda>x. \<not> P x) xs)"
    using sort_key_stable [of f "f k" "filter (\<lambda>x. \<not> P x) xs"] by (simp add: eq_commute [of "f k"])
  moreover have "filter (\<lambda>x. f k = f x) (filter P xs) @ filter (\<lambda>x. f k = f x) (filter (\<lambda>x. \<not> P x) xs) = filter (\<lambda>x. f k = f x) xs"
  proof (cases "f k = c")
    case True
    then have "filter (\<lambda>x. f k = f x) (filter (\<lambda>x. \<not> P x) xs) = []" using high by (fastforce simp: filter_empty_conv)
    moreover have "filter (\<lambda>x. f k = f x) (filter P xs) = filter (\<lambda>x. f k = f x) xs"
      using True high by (auto simp: filter_filter intro!: filter_cong) fastforce
    ultimately show ?thesis by simp
  next
    case False
    then have "filter (\<lambda>x. f k = f x) (filter P xs) = []" using low by (auto simp: filter_empty_conv)
    moreover have "filter (\<lambda>x. f k = f x) (filter (\<lambda>x. \<not> P x) xs) = filter (\<lambda>x. f k = f x) xs"
      using False low by (auto simp: filter_filter intro!: filter_cong)
    ultimately show ?thesis by simp
  qed
  ultimately show "filter (\<lambda>x. f k = f x) (filter P xs @ sort_key f (filter (\<lambda>x. \<not> P x) xs)) = filter (\<lambda>x. f k = f x) xs" by simp
next
  have "map f (filter P xs) = map (\<lambda>_. c) (filter P xs)" using low by simp
  then have "sorted (map f (filter P xs))" by (simp add: map_replicate_const)
  then show "sorted (map f (filter P xs @ sort_key f (filter (\<lambda>x. \<not> P x) xs)))"
    unfolding map_append sorted_append using low high by (auto intro: less_imp_le)
qed

text \<open>The position in the key of the deferred blocks changes nothing: they are deferred in that order.\<close>

lemma sort_key_index:
  fixes f :: "'a \<Rightarrow> 'b::linorder" and g :: "'a \<Rightarrow> nat"
  assumes "sorted_wrt (<) (map g xs)"
  shows "sort_key (\<lambda>x. (f x, g x)) xs = sort_key f xs"
  using assms
proof (induction xs)
  case (Cons x xs)
  have "insort_key (\<lambda>x. (f x, g x)) x ys = insort_key f x ys" if "\<forall>y \<in> set ys. g x < g y" for ys
    using that by (induction ys) auto
  then show ?case using Cons by simp
qed simp

lemma victims_are_sorted:
  "pick_blocks want n cap free = map snd (take n (sort_key (victim_key want) (enumerate 0 (take cap free))))"
proof -
  let ?W = "enumerate 0 (take cap free)"
  let ?Z = "filter (unwanted want) ?W" and ?D = "filter (\<lambda>x. \<not> unwanted want x) ?W"
  obtain picked low where s: "scan_free want n cap 0 free [] [] = (picked, low)" by fastforce
  have p: "picked = map snd (take n ?Z)" and l: "length picked < n \<longrightarrow> low = map (deferred want) ?D"
    using scan_free_ok [OF _ s] by simp_all
  have key: "sort_key (victim_key want) ?W = ?Z @ sort_key (victim_key want) ?D"
    by (rule sort_key_first [where c = "(0, 0)"]) (auto simp: victim_key_def unwanted_def)
  show ?thesis
  proof (cases "length picked < n")
    case False
    then have "n \<le> length ?Z" using p by simp
    then show ?thesis using s p key False by (simp add: pick_blocks_def)
  next
    case True
    then have Z: "length ?Z < n" using p by (simp add: min_def split: if_splits)
    have "sorted_wrt (<) (map fst ?W)" by (simp add: enumerate_eq_zip sorted_wrt_upt)
    then have "sorted_wrt (<) (map fst ?D)" unfolding sorted_wrt_map by (rule sorted_wrt_filter)
    then have "sort_key (\<lambda>x. (the (want (fst x) (snd x)), fst x)) ?D = sort_key (\<lambda>x. the (want (fst x) (snd x))) ?D"
      by (rule sort_key_index)
    moreover have "sort_key (victim_key want) ?D = sort_key (\<lambda>x. the (want (fst x) (snd x))) ?D"
    proof -
      have "sort_key (victim_key want) ?D = sort_key (\<lambda>x. (1 :: nat, the (want (fst x) (snd x)))) ?D"
        by (rule sort_key_agree) (auto simp: victim_key_def unwanted_def)
      also have "\<dots> = sort_key (\<lambda>x. the (want (fst x) (snd x))) ?D"
      proof -
        have "insort_key (\<lambda>x. (1 :: nat, h x)) y ys = insort_key h y ys" for h :: "nat \<times> nat \<Rightarrow> int" and y ys by (induction ys) auto
        then have "sort_key (\<lambda>x. (1 :: nat, h x)) ys = sort_key h ys" for h :: "nat \<times> nat \<Rightarrow> int" and ys by (induction ys) auto
        then show ?thesis .
      qed
      finally show ?thesis .
    qed
    moreover have "sort_key (\<lambda>(p, k, b). (p, k)) low = map (deferred want) (sort_key (\<lambda>x. (the (want (fst x) (snd x)), fst x)) ?D)"
      using l True by (simp add: sort_key_map deferred_def case_prod_unfold)
    ultimately have "sort_key (\<lambda>(p, k, b). (p, k)) low = map (deferred want) (sort_key (victim_key want) ?D)" by simp
    moreover have "(\<lambda>(p, k, b). b) \<circ> deferred want = snd" by (auto simp: deferred_def fun_eq_iff)
    ultimately show ?thesis using s p key True Z by (simp add: pick_blocks_def take_map [symmetric])
  qed
qed


section \<open>What an allocation does\<close>

lemma fst_enumerate: "sorted_wrt (<) (map fst (enumerate n xs))"
  by (simp add: enumerate_eq_zip sorted_wrt_upt)

lemma in_window: "(i, b) \<in> set (enumerate 0 (take cap free)) \<longleftrightarrow> i < cap \<and> i < length free \<and> b = free ! i"
  by (auto simp: in_set_enumerate_eq)

lemma pick_blocks_ok:
  assumes "distinct free" and n: "n \<le> min cap (length free)"
  shows "length (pick_blocks want n cap free) = n" and "distinct (pick_blocks want n cap free)"
    and "set (pick_blocks want n cap free) \<subseteq> set (take cap free)"
    and "i < min cap (length free) \<Longrightarrow> j < min cap (length free) \<Longrightarrow> free ! i \<in> set (pick_blocks want n cap free) \<Longrightarrow>
      free ! j \<notin> set (pick_blocks want n cap free) \<Longrightarrow> (victim_key want (i, free ! i), i) < (victim_key want (j, free ! j), j)"
proof -
  let ?W = "enumerate 0 (take cap free)" and ?V = "pick_blocks want n cap free"
  define S where "S = sort_key (victim_key want) ?W"
  have V: "?V = map snd (take n S)" by (simp add: victims_are_sorted S_def)
  have mS: "mset S = mset ?W" and sS: "set S = set ?W" by (simp_all add: S_def)
  have dW: "distinct (map snd ?W)" using assms(1) by (simp add: enumerate_eq_zip)
  have "mset (map snd S) = mset (map snd ?W)" by (simp only: mset_map mS)
  then have dS: "distinct (map snd S)" using dW by (metis mset_eq_imp_distinct_iff)
  have len: "length S = min cap (length free)" by (simp add: S_def)
  show "length ?V = n" using n len by (simp add: V)
  show "distinct ?V" using distinct_take [OF dS, of n] by (simp add: V take_map)
  have "set (take n S) \<subseteq> set ?W" using sS set_take_subset by fastforce
  then have "snd ` set (take n S) \<subseteq> snd ` set ?W" by blast
  moreover have "snd ` set ?W = set (take cap free)" by (metis list.set_map map_snd_enumerate)
  ultimately show "set ?V \<subseteq> set (take cap free)" by (simp add: V)
  assume i: "i < min cap (length free)" and j: "j < min cap (length free)" and vi: "free ! i \<in> set ?V" and vj: "free ! j \<notin> set ?V"
  obtain i' where i': "(i', free ! i) \<in> set (take n S)" using vi by (auto simp: V)
  then have "(i', free ! i) \<in> set ?W" using sS set_take_subset by fastforce
  then have "i' = i" using i assms(1) by (auto simp: in_window nth_eq_iff_index_eq)
  then have xi: "(i, free ! i) \<in> set (take n S)" using i' by simp
  have "(j, free ! j) \<in> set S" using j by (simp add: sS in_window)
  then have "(j, free ! j) \<in> set (take n S) \<union> set (drop n S)" by (metis append_take_drop_id set_append)
  moreover have "(j, free ! j) \<notin> set (take n S)" using vj by (force simp: V)
  ultimately have xj: "(j, free ! j) \<in> set (drop n S)" by blast
  have "S = sort_key (\<lambda>x. (victim_key want x, fst x)) ?W" using sort_key_index [OF fst_enumerate] by (metis S_def)
  then have "sorted_wrt (\<lambda>x y. (victim_key want x, fst x) \<le> (victim_key want y, fst y)) (take n S @ drop n S)"
    using sort_key_sorted_wrt [of "\<lambda>x. (victim_key want x, fst x)" ?W] by simp
  then have "(victim_key want (i, free ! i), i) \<le> (victim_key want (j, free ! j), j)"
    using xi xj unfolding sorted_wrt_append by fastforce
  moreover have "i \<noteq> j" using vi vj by auto
  ultimately show "(victim_key want (i, free ! i), i) < (victim_key want (j, free ! j), j)" by (auto simp: order_le_less)
qed

lemma claim_blocks_ok:
  assumes ev: "\<And>b p. bp_free (evict_cached b p) = bp_free p \<and> bp_ref (evict_cached b p) = bp_ref p"
  shows "distinct bs \<Longrightarrow> \<forall>b \<in> set bs. bp_ref pool b = 0 \<Longrightarrow> \<exists>pool'. claim_blocks evict_cached bs pool = Inr pool'
    \<and> bp_free pool' = bp_free pool \<and> (\<forall>b. bp_ref pool' b = (if b \<in> set bs then 1 else bp_ref pool b))"
proof (induction bs arbitrary: pool)
  case (Cons b bs)
  let ?p = "(evict_cached b pool)\<lparr>bp_ref := (bp_ref pool)(b := 1)\<rparr>"
  have "claim_blocks evict_cached (b # bs) pool = claim_blocks evict_cached bs ?p" using Cons.prems ev by (simp add: Let_def)
  moreover obtain pool' where "claim_blocks evict_cached bs ?p = Inr pool'" "bp_free pool' = bp_free ?p"
    "\<forall>c. bp_ref pool' c = (if c \<in> set bs then 1 else bp_ref ?p c)"
  proof -
    have "distinct bs" "\<forall>b \<in> set bs. bp_ref ?p b = 0" using Cons.prems by auto
    from Cons.IH [OF this] that show ?thesis by blast
  qed
  ultimately show ?case using ev Cons.prems(1) by (intro exI [of _ pool']) auto
qed simp

text \<open>
  What the code relies on of vLLM's pool: the count of free blocks, the removal of one block from the
  queue, and that dropping the cache entry of a block touches neither queue nor reference counts.
\<close>

definition pool_laws ::
  "('k block_pool \<Rightarrow> int) \<Rightarrow> (nat \<Rightarrow> nat list \<Rightarrow> nat list) \<Rightarrow> (nat \<Rightarrow> 'k block_pool \<Rightarrow> 'k block_pool) \<Rightarrow> bool"
where
  "pool_laws num_free del evict_cached \<longleftrightarrow> (\<forall>p. num_free p = int (length (bp_free p)))
     \<and> (\<forall>b xs. b \<in> set xs \<longrightarrow> del b xs = filter (\<lambda>x. x \<noteq> b) xs)
     \<and> (\<forall>b p. bp_free (evict_cached b p) = bp_free p \<and> bp_ref (evict_cached b p) = bp_ref p)"

definition free_ok :: "'k block_pool \<Rightarrow> bool" where
  "free_ok pool \<longleftrightarrow> distinct (bp_free pool) \<and> (\<forall>b \<in> set (bp_free pool). bp_ref pool b = 0)"

text \<open>When the hook decides itself, rather than leaving the allocation to the stock method.\<close>

definition decides :: "victim_env \<Rightarrow> bool \<Rightarrow> vllm_hook \<Rightarrow> int \<Rightarrow> 'k block_pool \<Rightarrow> bool" where
  "decides e caching st n pool \<longleftrightarrow> 0 < n \<and> caching \<and> n \<le> int (length (bp_free pool)) \<and> vh_demand st \<noteq> [] \<and> nat n \<le> scan_cap e n"

lemma default_cap_enough: "vc_scan_cap e \<le> 0 \<Longrightarrow> nat n \<le> scan_cap e n"
  by (auto simp: scan_cap_def)

lemma peek_get_new_blocks_eq:
  fixes raw :: "'k \<Rightarrow> int" and pool :: "'k block_pool"
  assumes laws: "pool_laws num_free del evict_cached" and ok: "free_ok pool" and dec: "decides e caching st n pool"
  defines "vs \<equiv> pick_blocks (block_want e raw st pool) (nat n) (scan_cap e n) (bp_free pool)"
  shows "\<exists>pool'. peek_get_new_blocks orig num_free del evict_cached raw e caching st n pool = Inr (pool', vs)
    \<and> bp_free pool' = filter (\<lambda>b. b \<notin> set vs) (bp_free pool)
    \<and> (\<forall>b. bp_ref pool' b = (if b \<in> set vs then 1 else bp_ref pool b))"
proof -
  have nl: "nat n \<le> min (scan_cap e n) (length (bp_free pool))" using dec by (auto simp: decides_def)
  have d: "distinct (bp_free pool)" using ok by (simp add: free_ok_def)
  note P = pick_blocks_ok [OF d nl, where want = "block_want e raw st pool", folded vs_def]
  have sub: "set vs \<subseteq> set (bp_free pool)" using P(3) set_take_subset by fastforce
  define free' where "free' = foldl (\<lambda>fr b. del b fr) (bp_free pool) vs"
  have f: "free' = filter (\<lambda>b. b \<notin> set vs) (bp_free pool)"
    unfolding free'_def using fold_del [of del vs "bp_free pool"] laws P(2) sub by (simp add: pool_laws_def)
  have ev: "bp_free (evict_cached b p) = bp_free p \<and> bp_ref (evict_cached b p) = bp_ref p" for b p
    using laws by (simp add: pool_laws_def)
  have "\<forall>b \<in> set vs. bp_ref (pool\<lparr>bp_free := free'\<rparr>) b = 0" using ok sub by (auto simp: free_ok_def)
  from claim_blocks_ok [of evict_cached, OF ev P(2) this] obtain pool' where c: "claim_blocks evict_cached vs (pool\<lparr>bp_free := free'\<rparr>) = Inr pool'"
    "bp_free pool' = free'" "\<forall>b. bp_ref pool' b = (if b \<in> set vs then 1 else bp_ref pool b)" by auto
  have g: "\<not> (n \<le> 0 \<or> \<not> caching)" "\<not> num_free pool < n" "vh_demand st \<noteq> []"
    using dec laws by (auto simp: decides_def pool_laws_def)
  have "peek_get_new_blocks orig num_free del evict_cached raw e caching st n pool = Inr (pool', vs)"
    unfolding peek_get_new_blocks_def Let_def vs_def [symmetric] free'_def [symmetric] using g P(1) c(1) by simp
  then show ?thesis using c(2,3) f by blast
qed

lemma peek_get_new_blocks_stock:
  assumes laws: "pool_laws num_free del evict_cached" and dec: "\<not> decides e caching st n pool"
  shows "peek_get_new_blocks orig num_free del evict_cached raw e caching st n pool = orig n pool"
proof (cases "n \<le> 0 \<or> \<not> caching \<or> num_free pool < n \<or> vh_demand st = []")
  case False
  then have "scan_cap e n < nat n" using dec laws by (auto simp: decides_def pool_laws_def)
  moreover have "length (pick_blocks want (nat n) (scan_cap e n) free) \<le> scan_cap e n" for want free
    by (simp add: victims_are_sorted)
  ultimately have "length (pick_blocks want (nat n) (scan_cap e n) free) < nat n" for want free using le_less_trans by blast
  then show ?thesis by (simp add: peek_get_new_blocks_def Let_def)
qed (auto simp: peek_get_new_blocks_def)

text \<open>
  C36: An allocation of \<open>n\<close> blocks is the stock one when caching is off, nothing is waited for, too few
  blocks are free, or the configured scan cap is below \<open>n\<close> (with the default cap it never is). Otherwise
  it does not raise and takes exactly \<open>n\<close> distinct blocks of the scan window out of the queue, sets
  their reference count to 1 and nothing else's; the blocks taken are the least of the window by
  (wanted, priority, position); when nobody waits for any block of the window it is plain LRU.
\<close>

theorem get_new_blocks_correct:
  assumes "pool_laws num_free del evict_cached" and "free_ok pool"
  shows "if \<not> decides e caching st n pool
    then peek_get_new_blocks orig num_free del evict_cached raw e caching st n pool = orig n pool
    else \<exists>pool' vs. peek_get_new_blocks orig num_free del evict_cached raw e caching st n pool = Inr (pool', vs)
      \<and> length vs = nat n \<and> distinct vs \<and> set vs \<subseteq> set (take (scan_cap e n) (bp_free pool))
      \<and> bp_free pool' = filter (\<lambda>b. b \<notin> set vs) (bp_free pool)
      \<and> (\<forall>b. bp_ref pool' b = (if b \<in> set vs then 1 else bp_ref pool b))
      \<and> (\<forall>i < min (scan_cap e n) (length (bp_free pool)). \<forall>j < min (scan_cap e n) (length (bp_free pool)).
           bp_free pool ! i \<in> set vs \<longrightarrow> bp_free pool ! j \<notin> set vs \<longrightarrow>
           (victim_key (block_want e raw st pool) (i, bp_free pool ! i), i) < (victim_key (block_want e raw st pool) (j, bp_free pool ! j), j))
      \<and> ((\<forall>i < min (scan_cap e n) (length (bp_free pool)). block_want e raw st pool i (bp_free pool ! i) = None) \<longrightarrow>
           vs = take (nat n) (bp_free pool))"
proof (cases "decides e caching st n pool")
  case False
  then show ?thesis using peek_get_new_blocks_stock [OF assms(1) False] by simp
next
  case True
  let ?w = "block_want e raw st pool" and ?free = "bp_free pool" and ?cap = "scan_cap e n"
  let ?vs = "pick_blocks ?w (nat n) ?cap ?free"
  obtain pool' where r: "peek_get_new_blocks orig num_free del evict_cached raw e caching st n pool = Inr (pool', ?vs)"
    "bp_free pool' = filter (\<lambda>b. b \<notin> set ?vs) ?free" "\<forall>b. bp_ref pool' b = (if b \<in> set ?vs then 1 else bp_ref pool b)"
    using peek_get_new_blocks_eq [OF assms True] by blast
  have nl: "nat n \<le> min ?cap (length ?free)" using True by (auto simp: decides_def)
  have d: "distinct ?free" using assms(2) by (simp add: free_ok_def)
  note P = pick_blocks_ok [OF d nl, where want = ?w]
  have "?vs = take (nat n) ?free" if none: "\<forall>i < min ?cap (length ?free). ?w i (?free ! i) = None"
  proof -
    have "sort_key (victim_key ?w) (enumerate 0 (take ?cap ?free)) = sort_key (\<lambda>x. (0 :: nat, 0 :: int)) (enumerate 0 (take ?cap ?free))"
      by (rule sort_key_agree) (use none in \<open>auto simp: in_window victim_key_def\<close>)
    moreover have "min (nat n) ?cap = nat n" using nl by simp
    ultimately show ?thesis by (simp add: victims_are_sorted sort_key_const take_map [symmetric])
  qed
  then show ?thesis using True r P by (intro if_not_P [THEN iffD2]) (blast | simp)+
qed


definition sample_victims :: "eviction_mode \<Rightarrow> victim_env" where
  "sample_victims m = \<lparr>vc_mode = m, vc_scan_cap = 0, vc_recency = 100, vc_tau = 30, vc_exp = (\<lambda>x. 1), vc_now = (\<lambda>k. 0)\<rparr>"

text \<open>Three free blocks; block 0 holds the hash 7, block 1 the hash 9.\<close>

definition sample_pool :: "int block_pool" where
  "sample_pool = \<lparr>bp_free = [0, 1, 2], bp_hash = (\<lambda>b. if b = 0 then Some 7 else if b = 1 then Some 9 else None), bp_ref = (\<lambda>b. 0)\<rparr>"

definition forget_hash :: "nat \<Rightarrow> 'k block_pool \<Rightarrow> 'k block_pool" where
  "forget_hash b p = p\<lparr>bp_hash := (bp_hash p)(b := None)\<rparr>"

abbreviation count_free :: "'k block_pool \<Rightarrow> int" where
  "count_free p \<equiv> int (length (bp_free p))"

lemma sample_laws: "pool_laws count_free (\<lambda>b. filter (\<lambda>x. x \<noteq> b)) forget_hash"
  by (simp add: pool_laws_def forget_hash_def)

lemma sample_free: "free_ok sample_pool"
  by (simp add: free_ok_def sample_pool_def)

theorem get_new_blocks_correct_witness:
  "\<exists>pool' vs. peek_get_new_blocks (\<lambda>_ _. Inl ValueError) count_free (\<lambda>b. filter (\<lambda>x. x \<noteq> b)) forget_hash id (sample_victims Plain) True
       (vllm_hook_init\<lparr>vh_demand := [(7, 2)]\<rparr>) 2 sample_pool = Inr (pool', vs) \<and> length vs = 2"
proof -
  have "decides (sample_victims Plain) True (vllm_hook_init\<lparr>vh_demand := [(7, 2)]\<rparr>) 2 sample_pool"
    by (simp add: decides_def sample_victims_def sample_pool_def scan_cap_def)
  then show ?thesis
    using get_new_blocks_correct [OF sample_laws sample_free, where e = "sample_victims Plain" and caching = True
        and st = "vllm_hook_init\<lparr>vh_demand := [(7, 2)]\<rparr>" and n = 2 and orig = "\<lambda>_ _. Inl ValueError" and raw = id]
    by fastforce
qed

section \<open>From the queue to the pool\<close>

text \<open>A block is needed when a waiting request has its hash among those of its prefix.\<close>

definition needed :: "('k \<Rightarrow> int) \<Rightarrow> 'k block_pool \<Rightarrow> vllm_req list \<Rightarrow> nat \<Rightarrow> bool" where
  "needed raw pool q b = (case bp_hash pool b of None \<Rightarrow> False | Some key \<Rightarrow> list_ex (\<lambda>r. raw key \<in> set (req_hashes r)) q)"

lemma demand_zero:
  assumes "dget_or (vh_demand st) h 0 = (\<Sum>r \<leftarrow> q. int (count_list (req_hashes r) h))"
  shows "dget_or (vh_demand st) h 0 = 0 \<longleftrightarrow> \<not> list_ex (\<lambda>r. h \<in> set (req_hashes r)) q"
  unfolding assms by (subst sum_list_nonneg_eq_0_iff) (auto simp: count_list_0_iff list_ex_iff)

lemma block_want_None:
  assumes "\<forall>h. dget_or (vh_demand st) h 0 = (\<Sum>r \<leftarrow> q. int (count_list (req_hashes r) h))"
  shows "block_want e raw st pool k b = None \<longleftrightarrow> \<not> needed raw pool q b"
  using demand_zero [OF assms [rule_format]] by (simp add: block_want_def needed_def Let_def split: option.split)

lemma picks_unwanted:
  assumes "\<And>k b. want k b = None \<longleftrightarrow> P b" and "n \<le> length (filter P (take cap free))"
  shows "\<forall>b \<in> set (pick_blocks want n cap free). P b"
proof -
  let ?W = "enumerate 0 (take cap free)"
  have u: "unwanted want = P \<circ> snd" using assms(1) by (simp add: unwanted_def fun_eq_iff)
  have "filter P (map snd ?W) = map snd (filter (unwanted want) ?W)" by (simp only: filter_map u)
  then have len: "n \<le> length (filter (unwanted want) ?W)" using assms(2) by (metis length_map map_snd_enumerate)
  have "sort_key (victim_key want) ?W = filter (unwanted want) ?W @ sort_key (victim_key want) (filter (\<lambda>x. \<not> unwanted want x) ?W)"
    by (rule sort_key_first [where c = "(0, 0)"]) (auto simp: victim_key_def unwanted_def)
  then have "pick_blocks want n cap free = map snd (take n (filter (unwanted want) ?W))"
    using len by (simp add: victims_are_sorted)
  then show ?thesis by (auto simp: u dest: in_set_takeD)
qed



end
