(* ===== verification/Vllm_Round.thy ===== *)
theory Vllm_Round
  imports Vllm_Victims Online_Sched
begin

text \<open>
  The scheduling hook for vLLM (\<open>_compute_main_hits\<close>, \<open>_reorder_waiting\<close>, \<open>_patched_schedule\<close>,
  \<open>_patched_add_request\<close>, \<open>_patched_finish_requests\<close> and \<open>_ReqAdapter\<close> of
  \<open>src/python/peek/online/engines/vllm/patch_hook.py\<close>). The methods of vLLM that are wrapped and
  \<open>find_longest_cache_hit\<close> are parameters; profiling and the dumps of statistics are left out.
\<close>

section \<open>Hits\<close>

text \<open>\<open>None\<close> stands for a manager that is missing or does not cache; the lookup may raise.\<close>

type_synonym cache_lookup = "(int list \<Rightarrow> int \<Rightarrow> int res) option"

definition hit_entry :: "(int list \<Rightarrow> int \<Rightarrow> int res) \<Rightarrow> vllm_req \<Rightarrow> int" where
  "hit_entry longest r =
     (if vq_skip r then 0
      else if req_hashes r = [] then 0
      else case longest (req_hashes r) (max 0 (vq_tokens r - 1)) of Inl e \<Rightarrow> 0 | Inr n \<Rightarrow> n)"

definition vllm_main_hits :: "cache_lookup \<Rightarrow> vllm_req list \<Rightarrow> (string, int) pydict" where
  "vllm_main_hits kv q =
     (case kv of None \<Rightarrow> [] | Some longest \<Rightarrow> foldl (\<lambda>d r. dset (vq_id r) (hit_entry longest r) d) [] q)"

fun int_keyed :: "(string, int) pydict \<Rightarrow> (string, int) pydict \<Rightarrow> (int, int) pydict \<Rightarrow> (int, int) pydict res" where
  "int_keyed ids [] d = Inr d"
| "int_keyed ids ((s, v) # hits) d = rbind (lookup_key ids s) (\<lambda>i. int_keyed ids hits (dset i v d))"

section \<open>The adapter and the reordering\<close>

record vllm_adapter = lpm_req +
  ad_req :: vllm_req

definition adapt :: "vllm_req \<Rightarrow> int \<Rightarrow> vllm_adapter" where
  "adapt r hit =
     \<lparr>lr_rid = vq_id r, lr_prefix = Some (if 0 < hit then replicate (nat hit) 0 else []), lr_input = vq_prompt r,
      lr_output = Some (vq_output r), ad_req = r\<rparr>"

definition vllm_sort_params :: "vllm_flags \<Rightarrow> sort_params" where
  "vllm_sort_params f = \<lparr>check_thr = vf_check f, depr_thr = vf_depr f, by_cluster = False, lpm_only = vf_lpm f\<rparr>"

definition vllm_clpm_params :: "vllm_flags \<Rightarrow> clpm_params" where
  "vllm_clpm_params f =
     \<lparr>cl_check = vf_check f, cl_depr = vf_depr f, cl_age_alpha = vf_age_alpha f, cl_big_share = vf_big_share f,
      cl_group_major = vf_group_major f, cl_dynamic = vf_dynamic f, cl_slo = vf_slo f\<rparr>"

text \<open>
  \<open>fcfs\<close>: the queue is a plain deque. The state of the dynamic lane is the module's dictionary by
  tree. \<open>None\<close> would be a sort that does not return.
\<close>

definition reorder_waiting ::
  "vllm_flags \<Rightarrow> bool \<Rightarrow> int \<Rightarrow> pyfloat \<Rightarrow> cache_lookup \<Rightarrow> vllm_req list \<Rightarrow> vllm_hook \<Rightarrow> (int, pyfloat) pydict \<Rightarrow>
     (vllm_req list \<times> vllm_hook \<times> (int, pyfloat) pydict) run"
where
  "reorder_waiting f fcfs tree_id clock kv q st dyn =
     (if \<not> vf_sched f then ret (q, st, dyn)
      else if \<not> fcfs then ret (q, st, dyn)
      else if length q \<le> 1 then ret (q, st, dyn)
      else if vf_lpm f \<and> vf_fb_threshold f < int (length q) then ret (q, st, dyn)
      else
        let by_str = vllm_main_hits kv q;
            (s1, ids) = intern_all (map as_lpm q) (vh_sync st, []);
            st1 = st\<lparr>vh_sync := s1\<rparr>
        in obind (Some (int_keyed ids by_str [])) (\<lambda>by_int.
          let adapters = map (\<lambda>r. adapt r (dget_or by_str (vq_id r) 0)) q;
              info = all_cluster_info (vh_tree st1)
          in if vf_clpm f
             then (case peek_clpm_sort (vllm_clpm_params f) tree_id ids info (compute_req_scores (vh_tree st1)) (Some by_int) clock
                          (if vf_phases f then arrivals s1 adapters else []) adapters dyn of
                     None \<Rightarrow> None
                   | Some (adapters', _, dyn') \<Rightarrow> ret (map ad_req adapters', st1, dyn'))
             else ret (map ad_req (fst (peek_sort (vllm_sort_params f) ids info (Some by_int) adapters)), st1, dyn)))"

section \<open>Around the scheduler's methods\<close>

definition switches_of :: "vllm_flags \<Rightarrow> vllm_switches" where
  "switches_of f = \<lparr>sw_evict = vf_evict f, sw_cluster = (vf_mode f = Cluster), sw_phases = vf_phases f\<rparr>"

record round_env =
  rn_flags :: vllm_flags
  rn_fcfs :: bool
  rn_tree_id :: int
  rn_now :: pyfloat
  rn_clock :: pyfloat

text \<open>\<open>orig\<close> stands for the wrapped method; it sees the queue and the state the hook leaves.\<close>

definition vllm_patched_schedule ::
  "round_env \<Rightarrow> cache_lookup \<Rightarrow> (vllm_req list \<Rightarrow> vllm_hook \<times> vstats \<times> (int, pyfloat) pydict \<Rightarrow> 'b run) \<Rightarrow>
     vllm_req list \<Rightarrow> vllm_hook \<times> vstats \<times> (int, pyfloat) pydict \<Rightarrow> 'b run"
where
  "vllm_patched_schedule e kv orig q w =
     (case w of (st, vs, dyn) \<Rightarrow>
        let f = rn_flags e in
        obind (Some (vllm_sync (switches_of f) (rn_now e) q st)) (\<lambda>st1.
          let vs1 = (if vf_validate f then vllm_validate q st1 vs else vs) in
          obind (reorder_waiting f (rn_fcfs e) (rn_tree_id e) (rn_clock e) kv q st1 dyn) (\<lambda>(q', st2, dyn').
            orig q' (st2, vs1, dyn'))))"

text \<open>
  An exception of the synchronisation is caught and logged; there is none (\<open>vhook_ok_sync\<close>), so what
  it would leave behind is not modelled. The result of the wrapped method and the queue afterwards.
\<close>

definition vllm_patched_add ::
  "vllm_flags \<Rightarrow> pyfloat \<Rightarrow> ('s \<Rightarrow> ('s \<times> vllm_req list) res) \<Rightarrow> 's \<Rightarrow> vllm_hook \<Rightarrow> ('s \<times> vllm_hook) res"
where
  "vllm_patched_add f now orig s st =
     rbind (orig s) (\<lambda>(s', q). Inr (s', case vllm_sync (switches_of f) now q st of Inl e \<Rightarrow> st | Inr st' \<Rightarrow> st'))"

definition vllm_patched_finish ::
  "vllm_flags \<Rightarrow> ('s \<Rightarrow> 's res) \<Rightarrow> string list \<Rightarrow> 's \<Rightarrow> vllm_hook \<Rightarrow> ('s \<times> vllm_hook) res"
where
  "vllm_patched_finish f orig ids s st = rbind (orig s) (\<lambda>s'. Inr (s', vllm_finish (switches_of f) ids st))"

section \<open>The hits by interned id\<close>

lemma adapt_simps [simp]: "lr_rid (adapt r h) = vq_id r" "lr_tokens (adapt r h) = req_tokens r" "ad_req (adapt r h) = r"
  by (simp_all add: adapt_def lr_tokens_def req_tokens_def)

lemma main_hits_keys: "fst ` set (vllm_main_hits kv q) \<subseteq> vq_id ` set q \<and> wf_dict (vllm_main_hits kv q)"
proof (cases kv)
  case (Some longest)
  have "fst ` set (foldl (\<lambda>d r. dset (vq_id r) (hit_entry longest r) d) d0 q) \<subseteq> fst ` set d0 \<union> vq_id ` set q
      \<and> wf_dict (foldl (\<lambda>d r. dset (vq_id r) (hit_entry longest r) d) d0 q)" if "wf_dict d0" for d0
    using that
  proof (induction q arbitrary: d0)
    case (Cons r q)
    have "fst ` set (dset (vq_id r) (hit_entry longest r) d0) \<subseteq> insert (vq_id r) (fst ` set d0)"
      using set_dset_subset [of "vq_id r" "hit_entry longest r" d0] by force
    then show ?case using Cons.IH [OF wf_dset [OF Cons.prems], of "vq_id r" "hit_entry longest r"]
      by (simp only: foldl.simps list.set image_insert) blast
  qed simp
  from this [of "[]"] show ?thesis by (simp add: vllm_main_hits_def Some)
qed (simp add: vllm_main_hits_def)

lemma int_keyed_ok:
  assumes inj: "\<And>s s' i. dget ids s = Some i \<Longrightarrow> dget ids s' = Some i \<Longrightarrow> s = s'"
  shows "wf_dict hits \<Longrightarrow> \<forall>s \<in> fst ` set hits. dget ids s \<noteq> None \<Longrightarrow>
    \<exists>d'. int_keyed ids hits d = Inr d' \<and> (\<forall>s i. dget ids s = Some i \<longrightarrow> dget d' i = (case dget hits s of Some v \<Rightarrow> Some v | None \<Rightarrow> dget d i))"
proof (induction hits arbitrary: d)
  case (Cons x hits)
  obtain s v where x: "x = (s, v)" by (cases x)
  obtain i where i: "dget ids s = Some i" using Cons.prems(2) by (auto simp: x)
  obtain d' where d': "int_keyed ids hits (dset i v d) = Inr d'"
    "\<forall>s i'. dget ids s = Some i' \<longrightarrow> dget d' i' = (case dget hits s of Some v \<Rightarrow> Some v | None \<Rightarrow> dget (dset i v d) i')"
    using Cons.IH [of "dset i v d"] Cons.prems by (auto simp: x)
  have "dget d' j = (case dget (x # hits) t of Some w \<Rightarrow> Some w | None \<Rightarrow> dget d j)" if t: "dget ids t = Some j" for t j
  proof (cases "t = s")
    case True
    then have "dget hits t = None" using Cons.prems(1) by (simp add: x dget_None_iff)
    then show ?thesis using True t i d'(2) by (simp add: x dict_simps)
  next
    case False
    then have "j \<noteq> i" using inj [OF t] i by blast
    then show ?thesis using False t d'(2) by (simp add: x dict_simps split: option.split)
  qed
  then show ?case using d'(1) i by (simp add: x lookup_key_def)
qed simp


text \<open>The hit a request is sorted by.\<close>

definition vllm_hit :: "cache_lookup \<Rightarrow> vllm_req \<Rightarrow> int" where
  "vllm_hit kv r = (case kv of None \<Rightarrow> 0 | Some longest \<Rightarrow> hit_entry longest r)"

lemma main_hits_of:
  assumes "distinct (map vq_id q)" and "r \<in> set q"
  shows "dget_or (vllm_main_hits kv q) (vq_id r) 0 = vllm_hit kv r"
proof (cases kv)
  case (Some longest)
  have keep: "dget (foldl (\<lambda>d r. dset (vq_id r) (hit_entry longest r) d) d0 q) s = dget d0 s" if "s \<notin> vq_id ` set q" for d0 q s
    using that by (induction q arbitrary: d0) (auto simp: dict_simps)
  have "dget (foldl (\<lambda>d r. dset (vq_id r) (hit_entry longest r) d) d0 q) (vq_id r) = Some (hit_entry longest r)" for d0
    using assms
  proof (induction q arbitrary: d0)
    case (Cons x q)
    then show ?case using keep [of "vq_id r" q] by (auto simp: dict_simps)
  qed simp
  then show ?thesis by (simp add: vllm_main_hits_def vllm_hit_def Some dget_or_def)
qed (simp add: vllm_main_hits_def vllm_hit_def dget_or_def)

lemma vreach_intern_all:
  "vhook_reach sw st \<Longrightarrow> vhook_reach sw (st\<lparr>vh_sync := fst (intern_all rs (vh_sync st, d))\<rparr>)"
proof (induction rs arbitrary: st d)
  case (Cons r rs)
  obtain s i where n: "intern (lr_rid r) (vh_sync st) = (s, i)" by (cases "intern (lr_rid r) (vh_sync st)")
  then have "vhook_reach sw (st\<lparr>vh_sync := s\<rparr>)" using vreach_intern [OF Cons.prems, of "lr_rid r"] by simp
  from Cons.IH [OF this, of "dset (lr_rid r) i d"] show ?case using n by simp
qed simp

lemma hits_by_int:
  assumes ok: "core_ok (vh_sync st)"
  obtains s1 ids by_int where "intern_all (map as_lpm q) (vh_sync st, []) = (s1, ids)" and "hk_tree s1 = hk_tree (vh_sync st)"
    and "int_keyed ids (vllm_main_hits kv q) [] = Inr by_int"
    and "\<And>r. distinct (map vq_id q) \<Longrightarrow> r \<in> set q \<Longrightarrow> main_hit ids (Some by_int) (adapt r (g r)) = vllm_hit kv r"
proof -
  obtain s1 ids where i: "intern_all (map as_lpm q) (vh_sync st, []) = (s1, ids)" "core_ok s1" "hk_tree s1 = hk_tree (vh_sync st)"
    "\<forall>s. dget ids s = (if s \<in> lr_rid ` set (map as_lpm q) then dget (hk_interner s1) s else dget [] s)"
    "\<forall>s \<in> lr_rid ` set (map as_lpm q). dget (hk_interner s1) s \<noteq> None"
    using intern_all_core [OF ok, of "map as_lpm q" "[]"] by (elim exE conjE) (rule that)
  have ids: "dget ids s = (if s \<in> vq_id ` set q then dget (hk_interner s1) s else None)" for s
    using i(4) by (simp add: lr_rid_as_lpm [symmetric] del: set_map)
  have known: "\<exists>j. dget (hk_interner s1) (vq_id r) = Some j" if "r \<in> set q" for r
    using i(5) that by (simp add: lr_rid_as_lpm del: set_map)
  note mk = main_hits_keys [of kv q]
  have inj: "s = s'" if "dget ids s = Some j" "dget ids s' = Some j" for s s' j
    using that core_id [OF i(2), of s j s'] by (simp add: ids split: if_splits)
  have "\<forall>s \<in> fst ` set (vllm_main_hits kv q). dget ids s \<noteq> None"
  proof
    fix s assume "s \<in> fst ` set (vllm_main_hits kv q)"
    then obtain r where "r \<in> set q" "s = vq_id r" using mk by blast
    then show "dget ids s \<noteq> None" using known [of r] by (auto simp: ids)
  qed
  then obtain by_int where b: "int_keyed ids (vllm_main_hits kv q) [] = Inr by_int"
    "\<forall>s j. dget ids s = Some j \<longrightarrow> dget by_int j = (case dget (vllm_main_hits kv q) s of Some v \<Rightarrow> Some v | None \<Rightarrow> dget [] j)"
    using int_keyed_ok [where ids = ids and hits = "vllm_main_hits kv q" and d = "[]"] inj mk by blast
  have "main_hit ids (Some by_int) (adapt r (g r)) = vllm_hit kv r" if d: "distinct (map vq_id q)" and r: "r \<in> set q" for r
  proof -
    obtain j where j: "dget ids (vq_id r) = Some j" using known [OF r] r by (auto simp: ids)
    then have "dget_or by_int j 0 = dget_or (vllm_main_hits kv q) (vq_id r) 0" using b(2) by (simp add: dget_or_def split: option.split)
    then show ?thesis using j main_hits_of [OF d r, of kv] by (simp add: main_hit_def)
  qed
  then show thesis using that i(1,3) b(1) by blast
qed

section \<open>What the hook guarantees\<close>

lemma reorder_waiting_ok:
  assumes "vhook_reach sw st"
  shows "\<exists>q' st' dyn'. reorder_waiting f fcfs tree_id clock kv q st dyn = ret (q', st', dyn') \<and> mset q' = mset q
    \<and> vhook_reach sw st' \<and> vh_tree st' = vh_tree st \<and> vh_demand st' = vh_demand st \<and> vh_depth st' = vh_depth st
    \<and> vh_hashes st' = vh_hashes st \<and> hk_last (vh_sync st') = hk_last (vh_sync st)"
proof (cases "\<not> vf_sched f \<or> \<not> fcfs \<or> length q \<le> 1 \<or> (vf_lpm f \<and> vf_fb_threshold f < int (length q))")
  case True
  then show ?thesis using assms by (auto simp: reorder_waiting_def)
next
  case False
  have ok: "core_ok (vh_sync st)" using vhook_reach_ok [OF assms] by (simp add: vhook_ok_def)
  obtain s1 ids by_int where i: "intern_all (map as_lpm q) (vh_sync st, []) = (s1, ids)" "hk_tree s1 = hk_tree (vh_sync st)"
    "int_keyed ids (vllm_main_hits kv q) [] = Inr by_int" by (rule hits_by_int [OF ok, where q = q and kv = kv]) (rule that)
  let ?st1 = "st\<lparr>vh_sync := s1\<rparr>" and ?by_str = "vllm_main_hits kv q"
  let ?ad = "map (\<lambda>r. adapt r (dget_or ?by_str (vq_id r) 0)) q"
  have ad: "mset (map ad_req as) = mset q" if "mset as = mset ?ad" for as
    using arg_cong [OF that, of "image_mset ad_req"] by (simp add: image_mset.compositionality comp_def)
  have l: "hk_last s1 = hk_last (vh_sync st)" using intern_all_core [OF ok, of "map as_lpm q" "[]"] i(1) by auto
  have reach: "vhook_reach sw ?st1" using vreach_intern_all [OF assms, of "map as_lpm q" "[]"] i(1) by simp
  have g: "vf_sched f" "fcfs" "\<not> length q \<le> Suc 0" "\<not> (vf_lpm f \<and> vf_fb_threshold f < int (length q))" using False by simp_all
  have "\<exists>q' dyn'. reorder_waiting f fcfs tree_id clock kv q st dyn = ret (q', ?st1, dyn') \<and> mset q' = mset q"
  proof (cases "vf_clpm f")
    case True
    obtain as dep dyn' where "peek_clpm_sort (vllm_clpm_params f) tree_id ids (all_cluster_info (vh_tree ?st1))
        (compute_req_scores (vh_tree ?st1)) (Some by_int) clock (if vf_phases f then arrivals s1 ?ad else []) ?ad dyn = Some (as, dep, dyn')"
      "mset as = mset ?ad"
      using clpm_sort_runs by blast
    then show ?thesis using True i ad
      by (intro exI [of _ "map ad_req as"] exI [of _ dyn']) (simp add: reorder_waiting_def Let_def g if_not_P [OF g(4)])
  next
    case F: False
    let ?as = "fst (peek_sort (vllm_sort_params f) ids (all_cluster_info (vh_tree ?st1)) (Some by_int) ?ad)"
    have "mset (map ad_req ?as) = mset q" by (rule ad) (rule mset_peek_sort)
    then show ?thesis using F i
      by (intro exI [of _ "map ad_req ?as"] exI [of _ dyn]) (simp add: reorder_waiting_def Let_def g if_not_P [OF g(4)])
  qed
  then show ?thesis using reach i(2) l by fastforce
qed

text \<open>
  C38: Whatever happened before, with every combination of flags and every queue, the hook around
  \<open>schedule\<close> adds no exception and no loop of its own: it hands the wrapped method a queue with exactly
  the requests of the waiting queue, in the same order when it is not a plain deque, and a state that
  is again one of the reachable ones, with tree and index as the synchronisation left them.
\<close>

theorem vllm_schedule_safe:
  assumes "vhook_reach (switches_of (rn_flags e)) st"
  shows "\<exists>st1 q' st2 vs' dyn'. vllm_sync (switches_of (rn_flags e)) (rn_now e) q st = Inr st1
    \<and> vllm_patched_schedule e kv orig q (st, vs, dyn) = orig q' (st2, vs', dyn')
    \<and> mset q' = mset q \<and> (if rn_fcfs e then True else q' = q)
    \<and> vhook_reach (switches_of (rn_flags e)) st2
    \<and> vh_tree st2 = vh_tree st1 \<and> vh_demand st2 = vh_demand st1 \<and> vh_depth st2 = vh_depth st1 \<and> vh_hashes st2 = vh_hashes st1"
proof -
  let ?f = "rn_flags e"
  obtain st1 where s: "vllm_sync (switches_of ?f) (rn_now e) q st = Inr st1"
    using vhook_ok_sync [OF vhook_reach_ok [OF assms], of "rn_now e" q] by blast
  have r1: "vhook_reach (switches_of ?f) st1" by (rule vreach_sync [OF assms s])
  obtain q' st2 dyn' where r: "reorder_waiting ?f (rn_fcfs e) (rn_tree_id e) (rn_clock e) kv q st1 dyn = ret (q', st2, dyn')"
    "mset q' = mset q" "vhook_reach (switches_of ?f) st2" "vh_tree st2 = vh_tree st1" "vh_demand st2 = vh_demand st1"
    "vh_depth st2 = vh_depth st1" "vh_hashes st2 = vh_hashes st1"
    using reorder_waiting_ok [OF r1, of ?f "rn_fcfs e" "rn_tree_id e" "rn_clock e" kv q dyn] by blast
  have "q' = q" if "\<not> rn_fcfs e" using r(1) that by (cases "vf_sched ?f") (simp_all add: reorder_waiting_def ret_def)
  then show ?thesis using s r
    by (intro exI [of _ st1] exI [of _ q'] exI [of _ st2] exI [of _ "if vf_validate ?f then vllm_validate q st1 vs else vs"] exI [of _ dyn'])
      (simp add: vllm_patched_schedule_def Let_def)
qed

text \<open>Cold requests and siblings of vLLM's queue, as in the sorts.\<close>

definition vllm_cold :: "cache_lookup \<Rightarrow> int \<Rightarrow> nat \<Rightarrow> vllm_req \<Rightarrow> bool" where
  "vllm_cold kv check k r \<longleftrightarrow> vllm_hit kv r \<le> check \<and> k \<le> length (req_tokens r)"

definition vllm_sibling :: "cache_lookup \<Rightarrow> int \<Rightarrow> nat \<Rightarrow> vllm_req list \<Rightarrow> nat \<Rightarrow> bool" where
  "vllm_sibling kv check k q i \<longleftrightarrow> i < length q \<and> vllm_cold kv check k (q ! i)
     \<and> (\<exists>j < i. vllm_cold kv check k (q ! j) \<and> take k (req_tokens (q ! j)) = take k (req_tokens (q ! i)))"

text \<open>
  In the LPM mode the waiting queue of vLLM is put in the order of stock LPM by the hits the cache
  manager reports (0 for a request that skips the cache, has no hashes, or whose lookup raises):
  stably by descending hit, the deprioritized requests last in arrival order, where a cold request is
  deprioritized exactly when it shares its first threshold tokens with an earlier cold one.
\<close>

lemma vllm_lpm_round_is_stock:
  assumes "vhook_reach sw st" and "distinct (map vq_id q)" and "vf_sched f" and "vf_lpm f" and "\<not> vf_clpm f"
    and "int (length q) \<le> vf_fb_threshold f" and "0 \<le> vf_check f" and "0 \<le> vf_depr f"
  shows "\<exists>st' dep. reorder_waiting f True tree_id clock kv q st dyn =
      ret (sort_key (\<lambda>r. if vq_id r \<in> dep then (1 :: nat, 0) else (0, - vllm_hit kv r)) q, st', dyn)
    \<and> dep = {vq_id (q ! i) | i. vllm_sibling kv (vf_check f) (nat (vf_depr f)) q i}
    \<and> vh_tree st' = vh_tree st \<and> vhook_reach sw st'"
proof (cases "length q \<le> 1")
  case True
  then have "q = [] \<or> (\<exists>r. q = [r])" by (cases q) auto
  then have "sort_key g q = q" for g :: "vllm_req \<Rightarrow> nat \<times> int" by auto
  then show ?thesis using True assms(1) by (simp add: reorder_waiting_def)
next
  case False
  have ok: "core_ok (vh_sync st)" using vhook_reach_ok [OF assms(1)] by (simp add: vhook_ok_def)
  obtain s1 ids by_int where i: "intern_all (map as_lpm q) (vh_sync st, []) = (s1, ids)" "hk_tree s1 = hk_tree (vh_sync st)"
    "int_keyed ids (vllm_main_hits kv q) [] = Inr by_int"
    "\<And>r. distinct (map vq_id q) \<Longrightarrow> r \<in> set q \<Longrightarrow> main_hit ids (Some by_int) (adapt r (dget_or (vllm_main_hits kv q) (vq_id r) 0)) = vllm_hit kv r"
    by (rule hits_by_int [OF ok, where q = q and kv = kv and g = "\<lambda>r. dget_or (vllm_main_hits kv q) (vq_id r) 0"]) (rule that)
  let ?st1 = "st\<lparr>vh_sync := s1\<rparr>" and ?a = "\<lambda>r. adapt r (dget_or (vllm_main_hits kv q) (vq_id r) 0)"
  let ?info = "all_cluster_info (vh_tree ?st1)" and ?hit = "main_hit ids (Some by_int) :: vllm_adapter \<Rightarrow> int"
  let ?dep = "{vq_id (q ! i) | i. vllm_sibling kv (vf_check f) (nat (vf_depr f)) q i}"
  have hit: "?hit (?a r) = vllm_hit kv r" if "r \<in> set q" for r using i(4) [OF assms(2) that] .
  have sp: "vllm_sort_params f = (vllm_sort_params f)\<lparr>lpm_only := True\<rparr>" using assms(4) by (simp add: vllm_sort_params_def)
  note L = lpm_mode_order [of "vllm_sort_params f" ids ?info "Some by_int" "map ?a q", folded sp]
  have el: "eligible ?hit (vf_check f) k (map ?a q ! n) \<longleftrightarrow> vllm_cold kv (vf_check f) k (q ! n)"
    "claim_of k (map ?a q ! n) = take k (req_tokens (q ! n))" if "n < length q" for k n
    using that hit [of "q ! n"] by (simp_all add: eligible_def vllm_cold_def claim_of_def)
  have sib: "sibling_at ?hit (vf_check f) k (map ?a q) n \<longleftrightarrow> vllm_sibling kv (vf_check f) k q n" for k n
  proof (cases "n < length q")
    case True
    then have "j < length q" if "j < n" for j using that by simp
    then show ?thesis using True el by (simp add: sibling_at_def vllm_sibling_def cong: conj_cong)
  qed (simp add: sibling_at_def vllm_sibling_def)
  have dep: "snd (peek_sort (vllm_sort_params f) ids ?info (Some by_int) (map ?a q)) = ?dep"
  proof -
    have "{lr_rid (map ?a q ! i) | i. vllm_sibling kv (vf_check f) (nat (vf_depr f)) q i} = ?dep"
    proof -
      have "lr_rid (map ?a q ! n) = vq_id (q ! n)" if "vllm_sibling kv (vf_check f) (nat (vf_depr f)) q n" for n
        using that by (simp add: vllm_sibling_def)
      then show ?thesis by metis
    qed
    moreover have "check_thr (vllm_sort_params f) = vf_check f" "depr_thr (vllm_sort_params f) = vf_depr f"
      by (simp_all add: vllm_sort_params_def)
    ultimately show ?thesis using L [THEN conjunct2] assms(7,8) by (simp only: sib) simp
  qed
  have "fst (peek_sort (vllm_sort_params f) ids ?info (Some by_int) (map ?a q)) =
      map ?a (sort_key (\<lambda>r. if vq_id r \<in> ?dep then (1 :: nat, 0) else (0, - vllm_hit kv r)) q)"
    unfolding L [THEN conjunct1] dep sort_key_map
    by (rule arg_cong [where f = "map ?a"], rule sort_key_agree) (simp add: hit)
  then have o: "map ad_req (fst (peek_sort (vllm_sort_params f) ids ?info (Some by_int) (map ?a q))) =
      sort_key (\<lambda>r. if vq_id r \<in> ?dep then (1 :: nat, 0) else (0, - vllm_hit kv r)) q" by (simp add: comp_def)
  have "vhook_reach sw ?st1" using vreach_intern_all [OF assms(1), of "map as_lpm q" "[]"] i(1) by simp
  moreover have "reorder_waiting f True tree_id clock kv q st dyn =
      ret (sort_key (\<lambda>r. if vq_id r \<in> ?dep then (1 :: nat, 0) else (0, - vllm_hit kv r)) q, ?st1, dyn)"
    using False assms(3-6) i(1,3) o by (simp add: reorder_waiting_def Let_def)
  ultimately show ?thesis using i(2) by (intro exI [of _ ?st1] exI [of _ ?dep]) simp
qed


definition sample_vllm_flags :: vllm_flags where
  "sample_vllm_flags =
     \<lparr>vf_evict = True, vf_sched = True, vf_phases = True, vf_lpm = True, vf_clpm = False, vf_age_alpha = 0, vf_big_share = 1,
      vf_group_major = False, vf_dynamic = False, vf_slo = 2, vf_fb_threshold = 128, vf_check = 32, vf_depr = 32, vf_validate = True,
      vf_scan_cap = 0, vf_mode = Plain, vf_recency = 100, vf_tau = 30\<rparr>"

definition sample_round :: round_env where
  "sample_round = \<lparr>rn_flags = sample_vllm_flags, rn_fcfs = True, rn_tree_id = 1, rn_now = 1, rn_clock = 0\<rparr>"

definition sample_lookup :: cache_lookup where
  "sample_lookup = Some (\<lambda>hs n. if hs = [8] then Inr n else Inl KeyError)"

definition sample_stats :: vstats where
  "sample_stats = \<lparr>sync_checks = 0, sync_extra = 0, sync_missing = 0, sync_mismatch = 0, violation_logged = False\<rparr>"

theorem vllm_schedule_safe_witness:
  "\<exists>q'. (\<exists>w. vllm_patched_schedule sample_round sample_lookup (\<lambda>q w. ret (q, w)) [sample_vllm ''a'' [5, 6] [7], sample_vllm ''b'' [5] [8]]
        (vllm_hook_init, sample_stats, []) = ret (q', w)) \<and> length q' = 2"
proof -
  let ?q = "[sample_vllm ''a'' [5, 6] [7], sample_vllm ''b'' [5] [8]]"
  obtain q' w where "vllm_patched_schedule sample_round sample_lookup (\<lambda>q w. ret (q, w)) ?q (vllm_hook_init, sample_stats, []) = ret (q', w)"
    "mset q' = mset ?q"
    using vllm_schedule_safe [OF vreach_init, of sample_round ?q sample_lookup "\<lambda>q w. ret (q, w)" sample_stats "[]"] by blast
  moreover from this have "length q' = 2" using mset_eq_length [of q' ?q] by simp
  ultimately show ?thesis by blast
qed


end
