(* ===== verification/Prefill_Adder.thy ===== *)
theory Prefill_Adder
  imports Py_Float Py_Str Radix_Cache
begin

text \<open>
  Admission of waiting requests into a prefill batch: \<open>PrefillAdder\<close> of
  \<open>src/python/peek/offline/sglang_patches/patched_files/schedule_policy.py\<close>. The tree cache, the
  allocator and the batch are interfaces; what the class calls on them is the record \<open>pool_ops\<close>, over a
  state \<open>'w\<close> of memory. Token counts are integers; the offset that estimates the running requests is
  a float (an int until the first float is added to it; the two agree for counts below 2 to the 53).
  An int is converted when a float is added to it and compared with a float exactly.
\<close>

section \<open>State\<close>

datatype add_result = Continue | No_Token | Other

text \<open>The fields of a request the class reads and writes; \<open>ar_id\<close> is the identity of the object.\<close>

record add_req =
  ar_id :: nat
  ar_extend :: int
  ar_fill :: "int list"
  ar_prefix :: "int list"
  ar_input :: "int list"
  ar_output :: "int list"
  ar_max_new :: int
  ar_ignore_eos :: bool
  ar_node :: nat
  ar_host_node :: nat
  ar_host_hit :: int
  ar_protected :: int
  ar_uuid :: "int option"
  ar_priority :: int
  ar_entry :: pyfloat
  ar_finished :: bool

text \<open>
  The methods called on the cache, the allocator and the batch. Locking returns the id that
  sliding-window caches hand out; \<open>po_fsum\<close> is Python's \<open>sum\<close> of floats.
\<close>

record 'w pool_ops =
  po_available :: "'w \<Rightarrow> int"
  po_evictable :: "'w \<Rightarrow> int"
  po_full_available :: "'w \<Rightarrow> int"
  po_full_evictable :: "'w \<Rightarrow> int"
  po_swa_available :: "'w \<Rightarrow> int"
  po_swa_evictable :: "'w \<Rightarrow> int"
  po_inc :: "nat \<Rightarrow> 'w \<Rightarrow> ('w \<times> int option) run"
  po_dec :: "nat \<Rightarrow> int option \<Rightarrow> 'w \<Rightarrow> 'w run"
  po_load_back :: "nat \<Rightarrow> int \<Rightarrow> 'w \<Rightarrow> ('w \<times> int list \<times> nat) run"
  po_set_extend :: "int \<Rightarrow> add_req \<Rightarrow> add_req"
  po_release :: "nat \<Rightarrow> int \<Rightarrow> 'w \<Rightarrow> 'w"
  po_filter :: "nat list \<Rightarrow> add_req list \<Rightarrow> add_req list"
  po_fsum :: "pyfloat list \<Rightarrow> pyfloat"

record adder_config =
  ac_page :: int
  ac_ratio :: pyfloat
  ac_clip :: int
  ac_reserve :: int
  ac_dllm :: "(int \<times> int) option"
  ac_swa :: bool
  ac_ssm :: bool
  ac_swa_tree :: bool
  ac_disabled :: bool
  ac_threshold :: int
  ac_nsa :: bool
  ac_max_reqs :: "int option"

text \<open>\<open>ac_dllm\<close>: block size and maximal number of running requests of a diffusion model.\<close>

record adder =
  pa_total_off :: pyfloat
  pa_cur_off :: int
  pa_input :: int
  pa_chunk :: "int option"
  pa_dllm :: int
  pa_states :: "(pyfloat \<times> int) list option"
  pa_run :: "add_req list"
  pa_preempted :: "nat set"
  pa_new_chunk :: "add_req option"
  pa_log_hit :: int
  pa_log_input :: int
  pa_running :: "add_req list option"

section \<open>Budgets\<close>

definition running_offset :: "adder_config \<Rightarrow> add_req \<Rightarrow> pyfloat" where
  "running_offset cfg r = fmul (of_pyint (min (ar_max_new r - int (length (ar_output r))) (ac_clip cfg))) (ac_ratio cfg)"

definition adder_init ::
  "adder_config \<Rightarrow> (pyfloat list \<Rightarrow> pyfloat) \<Rightarrow> add_req list option \<Rightarrow> int \<Rightarrow> int option \<Rightarrow> int \<Rightarrow> adder"
where
  "adder_init cfg fsum running rem_input rem_chunk mixed =
     \<lparr>pa_total_off = (case running of None \<Rightarrow> of_pyint mixed
                      | Some rs \<Rightarrow> fadd (of_pyint mixed) (fsum (map (running_offset cfg) rs))),
      pa_cur_off = mixed, pa_input = rem_input - mixed,
      pa_chunk = map_option (\<lambda>c. c - mixed) rem_chunk,
      pa_dllm = (case ac_dllm cfg of None \<Rightarrow> 0 | Some (block, max_running) \<Rightarrow> max_running * block),
      pa_states = None, pa_run = [], pa_preempted = {}, pa_new_chunk = None, pa_log_hit = 0, pa_log_input = 0,
      pa_running = running\<rparr>"

definition available_and_evictable :: "adder_config \<Rightarrow> 'w pool_ops \<Rightarrow> 'w \<Rightarrow> int" where
  "available_and_evictable cfg ops w =
     (if ac_swa cfg
      then min (po_full_available ops w + po_full_evictable ops w) (po_swa_available ops w + po_swa_evictable ops w)
      else if ac_ssm cfg then po_available ops w + po_full_evictable ops w
      else po_available ops w + po_evictable ops w)"

definition rem_total_tokens :: "adder_config \<Rightarrow> 'w pool_ops \<Rightarrow> 'w \<Rightarrow> adder \<Rightarrow> pyfloat" where
  "rem_total_tokens cfg ops w a = fsub (of_pyint (available_and_evictable cfg ops w)) (pa_total_off a)"

definition cur_rem_tokens :: "adder_config \<Rightarrow> 'w pool_ops \<Rightarrow> 'w \<Rightarrow> adder \<Rightarrow> int" where
  "cur_rem_tokens cfg ops w a = available_and_evictable cfg ops w - pa_cur_off a"

definition ceil_paged_tokens :: "adder_config \<Rightarrow> int \<Rightarrow> int" where
  "ceil_paged_tokens cfg tokens = - (- tokens div ac_page cfg) * ac_page cfg"

definition budget_state :: "adder_config \<Rightarrow> 'w pool_ops \<Rightarrow> 'w \<Rightarrow> adder \<Rightarrow> add_result" where
  "budget_state cfg ops w a =
     (if rem_total_tokens cfg ops w a \<le> 0 \<or> cur_rem_tokens cfg ops w a \<le> 0 then No_Token
      else if pa_input a \<le> 0 then Other
      else if ac_dllm cfg \<noteq> None then (if pa_dllm a \<le> 0 then Other else Continue)
      else case pa_chunk a of None \<Rightarrow> Continue | Some c \<Rightarrow> if c \<le> 0 then Other else Continue)"

definition update_prefill_budget :: "adder_config \<Rightarrow> int \<Rightarrow> int \<Rightarrow> int \<Rightarrow> adder \<Rightarrow> adder" where
  "update_prefill_budget cfg prefix_len ext_len max_new a =
     (let ext = ceil_paged_tokens cfg ext_len in
      a\<lparr>pa_total_off := fadd (pa_total_off a) (of_pyint (ext + max_new)), pa_cur_off := pa_cur_off a + ext,
        pa_input := pa_input a - ext,
        pa_dllm := (if ac_dllm cfg \<noteq> None then pa_dllm a - ext else pa_dllm a),
        pa_chunk := (if ac_dllm cfg \<noteq> None then pa_chunk a else map_option (\<lambda>c. c - ext) (pa_chunk a)),
        pa_log_hit := pa_log_hit a + prefix_len, pa_log_input := pa_log_input a + ext\<rparr>)"

text \<open>\<open>xs[:n]\<close>, with Python's meaning of a negative bound.\<close>

definition upto :: "int \<Rightarrow> 'a list \<Rightarrow> 'a list" where
  "upto n xs = (if 0 \<le> n then take (nat n) xs else take (length xs - nat (- n)) xs)"

definition push_run :: "add_req \<Rightarrow> adder \<Rightarrow> adder" where
  "push_run r a = a\<lparr>pa_run := pa_run a @ [r]\<rparr>"

section \<open>Diffusion models\<close>

definition dllm_block :: "adder_config \<Rightarrow> int" where
  "dllm_block cfg = (case ac_dllm cfg of None \<Rightarrow> 0 | Some (block, _) \<Rightarrow> block)"

definition dllm_remain :: "adder_config \<Rightarrow> 'w pool_ops \<Rightarrow> 'w \<Rightarrow> adder \<Rightarrow> int" where
  "dllm_remain cfg ops w a =
     (let rest = min (min (pa_dllm a) (dllm_block cfg)) (py_trunc (rem_total_tokens cfg ops w a))
      in if rest \<le> 0 then pa_dllm a else rest)"

definition add_dllm_req :: "adder_config \<Rightarrow> int \<Rightarrow> add_req \<Rightarrow> adder \<Rightarrow> add_req \<times> adder" where
  "add_dllm_req cfg prefix_len r a =
     (let trunc = min (pa_dllm a) (dllm_block cfg) div ac_page cfg * ac_page cfg;
          r' = r\<lparr>ar_extend := trunc, ar_fill := upto (prefix_len + trunc) (ar_fill r)\<rparr>
      in (r', update_prefill_budget cfg prefix_len trunc 0 (push_run r' a)))"

definition clipped :: "adder_config \<Rightarrow> add_req \<Rightarrow> int" where
  "clipped cfg r = min (ar_max_new r) (ac_clip cfg)"

definition add_dllm_staging_req ::
  "adder_config \<Rightarrow> 'w pool_ops \<Rightarrow> 'w \<Rightarrow> add_req \<Rightarrow> adder \<Rightarrow> (add_req \<times> adder \<times> add_result) res"
where
  "add_dllm_staging_req cfg ops w r a =
     (if ac_dllm cfg = None then Inl AssertionError
      else let rest = dllm_remain cfg ops w a in
        if rest \<le> 0 then Inr (r, a, No_Token)
        else let truncated = rest < ar_extend r;
                 r1 = r\<lparr>ar_extend := min (ar_extend r) rest\<rparr>;
                 r' = r1\<lparr>ar_fill := upto (int (length (ar_prefix r1)) + ar_extend r1) (ar_fill r1)\<rparr>;
                 a' = update_prefill_budget cfg 0 (ar_extend r') (if truncated then 0 else clipped cfg r') (push_run r' a)
          in Inr (r', a', if dllm_remain cfg ops w a' \<le> 0 then No_Token else Continue))"

section \<open>The chunked request\<close>

text \<open>The flag of the result: chunked prefill is not finished.\<close>

definition chunk_limit :: "adder_config \<Rightarrow> 'w pool_ops \<Rightarrow> 'w \<Rightarrow> adder \<Rightarrow> int res" where
  "chunk_limit cfg ops w a =
     (if ac_dllm cfg \<noteq> None then Inr (dllm_remain cfg ops w a)
      else case pa_chunk a of
        None \<Rightarrow> Inl TypeError
      | Some c \<Rightarrow> (let rest = min c (py_trunc (rem_total_tokens cfg ops w a)) in Inr (if rest \<le> 0 then c else rest)))"

definition add_chunked_req ::
  "adder_config \<Rightarrow> 'w pool_ops \<Rightarrow> 'w \<Rightarrow> add_req \<Rightarrow> adder \<Rightarrow> (add_req \<times> adder \<times> bool) res"
where
  "add_chunked_req cfg ops w r a =
     rbind (chunk_limit cfg ops w a) (\<lambda>limit.
       let truncated = limit < ar_extend r;
           r1 = po_set_extend ops (min (ar_extend r) limit) r;
           r' = r1\<lparr>ar_fill := upto (int (length (ar_prefix r1)) + ar_extend r1) (ar_fill r1)\<rparr>;
           a' = update_prefill_budget cfg 0 (ar_extend r') (if truncated then 0 else clipped cfg r') (push_run r' a)
       in Inr (r', a', truncated))"

section \<open>Requests that ignore the end of sequence\<close>

definition state_of :: "adder_config \<Rightarrow> add_req \<Rightarrow> (pyfloat \<times> int) option" where
  "state_of cfg r =
     (let left = fsub (fmul (of_pyint (ar_max_new r)) (if ar_ignore_eos r then 1 else ac_ratio cfg)) (of_pyint (int (length (ar_output r))));
          occupied = int (length (ar_input r)) + int (length (ar_output r))
      in if left \<le> 0 then None else Some (left, occupied))"

definition push_state :: "(pyfloat \<times> int) option \<Rightarrow> (pyfloat \<times> int) list \<Rightarrow> (pyfloat \<times> int) list" where
  "push_state x states = (case x of None \<Rightarrow> states | Some p \<Rightarrow> states @ [p])"

text \<open>The value of the loop variable after the search: the break, or the last index.\<close>

fun loop_index :: "pyfloat \<Rightarrow> nat \<Rightarrow> nat \<Rightarrow> (pyfloat \<times> int) list \<Rightarrow> nat" where
  "loop_index left k i [] = i"
| "loop_index left k i (x # xs) = (if left \<le> fst x then k else loop_index left (k + 1) k xs)"

definition insert_state :: "(pyfloat \<times> int) option \<Rightarrow> (pyfloat \<times> int) list \<Rightarrow> (pyfloat \<times> int) list" where
  "insert_state x states =
     (case x of
        None \<Rightarrow> states
      | Some p \<Rightarrow> (let i = loop_index (fst p) 0 0 states in take i states @ [p] @ drop i states))"

definition states_with :: "adder_config \<Rightarrow> add_req \<Rightarrow> adder \<Rightarrow> (pyfloat \<times> int) list" where
  "states_with cfg r a =
     (case pa_states a of
        None \<Rightarrow> sort_key fst (foldl (\<lambda>s x. push_state (state_of cfg x) s) []
                  (r # (case pa_running a of None \<Rightarrow> [] | Some rs \<Rightarrow> rs) @ pa_run a))
      | Some states \<Rightarrow> insert_state (state_of cfg r) states)"

fun eos_fits :: "int \<Rightarrow> int \<Rightarrow> int \<Rightarrow> (pyfloat \<times> int) list \<Rightarrow> bool" where
  "eos_fits reserve cur gained [] = True"
| "eos_fits reserve cur gained (x # xs) =
     (let bs = int (length (x # xs));
          min_free = fsub (of_pyint (cur + gained)) (fmul (fst x) (of_pyint bs))
      in if min_free \<le> of_int (reserve * bs) then False else eos_fits reserve cur (gained + snd x) xs)"

definition add_one_req_ignore_eos ::
  "adder_config \<Rightarrow> 'w pool_ops \<Rightarrow> 'w \<Rightarrow> add_req \<Rightarrow> adder \<Rightarrow> add_req \<times> adder \<times> add_result"
where
  "add_one_req_ignore_eos cfg ops w r a =
     (if min (of_int (cur_rem_tokens cfg ops w a)) (rem_total_tokens cfg ops w a) < of_int (ceil_paged_tokens cfg (ar_extend r))
      then (r, a, No_Token)
      else let states = states_with cfg r a; a1 = a\<lparr>pa_states := Some states\<rparr> in
        if \<not> ac_swa cfg \<and> \<not> eos_fits (ac_reserve cfg) (cur_rem_tokens cfg ops w a1 - ceil_paged_tokens cfg (ar_extend r)) 0 states
        then (r, a1, No_Token)
        else if ac_dllm cfg \<noteq> None
        then (if pa_dllm a1 \<le> 0 then (r, a1, Other)
              else let (r', a') = add_dllm_req cfg 0 r a1 in (r', a', budget_state cfg ops w a'))
        else case pa_chunk a1 of
          None \<Rightarrow> (let a' = update_prefill_budget cfg 0 (ar_extend r) (clipped cfg r) (push_run r a1)
                   in (r, a', budget_state cfg ops w a'))
        | Some c \<Rightarrow>
            if ar_extend r \<le> c
            then (let a' = update_prefill_budget cfg 0 (ar_extend r) (clipped cfg r) (push_run r a1)
                  in (r, a', budget_state cfg ops w a'))
            else if c \<le> 0 then (r, a1, Other)
            else let r1 = po_set_extend ops c r; r' = r1\<lparr>ar_fill := upto c (ar_fill r1)\<rparr>;
                     a' = update_prefill_budget cfg 0 c 0 ((push_run r' a1)\<lparr>pa_new_chunk := Some r'\<rparr>)
                 in (r', a', budget_state cfg ops w a'))"

section \<open>One request\<close>

definition req_inc_lock_ref :: "adder_config \<Rightarrow> 'w pool_ops \<Rightarrow> add_req \<Rightarrow> 'w \<Rightarrow> ('w \<times> add_req) run" where
  "req_inc_lock_ref cfg ops r w =
     obind (po_inc ops (ar_node r) w) (\<lambda>(w', u). ret (w', if ac_swa cfg then r\<lparr>ar_uuid := u\<rparr> else r))"

text \<open>\<open>with self._lock_node(node)\<close>: an exception of the body passes through the release. (When the
  lock itself cannot be taken, the release is still tried; the model reports the first exception.)\<close>

definition with_lock ::
  "adder_config \<Rightarrow> 'w pool_ops \<Rightarrow> nat \<Rightarrow> ('w \<Rightarrow> ('w \<times> 'b) run) \<Rightarrow> 'w \<Rightarrow> ('w \<times> 'b) run"
where
  "with_lock cfg ops n body w =
     obind (po_inc ops n w) (\<lambda>(w1, u). obind (body w1) (\<lambda>(w2, b).
       obind (po_dec ops n (if ac_swa_tree cfg then u else None) w2) (\<lambda>w3. ret (w3, b))))"

text \<open>
  The body of \<open>add_one_req\<close> under the lock, in two parts. Its result is \<open>Some\<close> for an early return, \<open>None\<close>
  to go on to the budget state. The request is one object: what is written to it after it was put on
  the list shows in the list, so it is put there in its final state. Page and alignment size are
  positive.
\<close>

definition load_back :: "'w pool_ops \<Rightarrow> add_req \<Rightarrow> 'w \<Rightarrow> ('w \<times> add_req) run" where
  "load_back ops r w =
     (if 0 < ar_host_hit r
      then obind (po_load_back ops (ar_host_node r) (ar_host_hit r) w) (\<lambda>(w', indices, node).
             let r1 = r\<lparr>ar_node := node, ar_prefix := ar_prefix r @ indices\<rparr>;
                 r2 = po_set_extend ops (int (length (ar_fill r1)) - int (length (ar_prefix r1))) r1
             in ret (w', r2\<lparr>ar_protected := int (length (ar_prefix r2))\<rparr>))
      else ret (w, r))"

text \<open>The length of a chunk: whole pages of the rest, and whole alignment blocks when one is set.\<close>

definition chunk_length :: "adder_config \<Rightarrow> int option \<Rightarrow> int \<Rightarrow> int option" where
  "chunk_length cfg align rest =
     (let len = rest div ac_page cfg * ac_page cfg in
      if len \<le> 0 then None
      else case align of
        None \<Rightarrow> Some len
      | Some k \<Rightarrow> if len < k then None else Some (k * (len div k)))"

definition admit ::
  "adder_config \<Rightarrow> 'w pool_ops \<Rightarrow> int option \<Rightarrow> int \<Rightarrow> add_req \<Rightarrow> adder \<Rightarrow> 'w \<Rightarrow>
     ('w \<times> add_req \<times> adder \<times> add_result option) run"
where
  "admit cfg ops align input_tokens r a w =
     (let prefix_len = int (length (ar_prefix r)) in
      if ac_dllm cfg \<noteq> None
      then (if pa_dllm a \<le> 0 then ret (w, r, a, Some Other)
            else if align \<noteq> None then Some (Inl AssertionError)
            else obind (req_inc_lock_ref cfg ops r w) (\<lambda>(w', r').
                   let (r'', a') = add_dllm_req cfg prefix_len r' a in ret (w', r'', a', None)))
      else if (case pa_chunk a of None \<Rightarrow> True | Some c \<Rightarrow> input_tokens \<le> c)
      then obind (req_inc_lock_ref cfg ops r w) (\<lambda>(w', r').
             ret (w', r', update_prefill_budget cfg prefix_len input_tokens (clipped cfg r') (push_run r' a), None))
      else case chunk_length cfg align (the (pa_chunk a)) of
        None \<Rightarrow> ret (w, r, a, Some Other)
      | Some len \<Rightarrow>
          (let r1 = po_set_extend ops len r; r2 = r1\<lparr>ar_fill := upto (int (length (ar_prefix r1)) + len) (ar_fill r1)\<rparr>
           in obind (req_inc_lock_ref cfg ops r2 w) (\<lambda>(w', r').
                ret (w', r', update_prefill_budget cfg prefix_len len 0 ((push_run r' a)\<lparr>pa_new_chunk := Some r'\<rparr>), None))))"

text \<open>\<open>delay\<close>: the answer of the prefill delayer, \<open>None\<close> without one.\<close>

definition add_one_req ::
  "adder_config \<Rightarrow> 'w pool_ops \<Rightarrow> bool option \<Rightarrow> int option \<Rightarrow> add_req \<Rightarrow> adder \<Rightarrow> 'w \<Rightarrow>
     ('w \<times> add_req \<times> adder \<times> add_result) run"
where
  "add_one_req cfg ops delay align r a w =
     (if ac_nsa cfg \<and> 1 \<le> length (pa_run a) then ret (w, r, a, Other)
      else if (case ac_max_reqs cfg of None \<Rightarrow> False | Some x \<Rightarrow> x \<le> int (length (pa_run a))) then ret (w, r, a, Other)
      else if ar_ignore_eos r \<and> ac_disabled cfg
      then (let (r', a', res) = add_one_req_ignore_eos cfg ops w r a in ret (w, r', a', res))
      else
        let total_tokens = ar_extend r + min (max (ar_max_new r - int (length (ar_output r))) 0) (ac_clip cfg);
            real_input = ceil_paged_tokens cfg (ar_extend r - ar_host_hit r)
        in if rem_total_tokens cfg ops w a \<le> of_int total_tokens then ret (w, r, a, No_Token)
        else if pa_input a \<le> real_input \<and> pa_run a \<noteq> [] then ret (w, r, a, Other)
        else obind (with_lock cfg ops (ar_node r) (\<lambda>w1.
            if rem_total_tokens cfg ops w1 a \<le> of_int total_tokens then ret (w1, r, a, Some No_Token)
            else obind (load_back ops r w1) (\<lambda>(w2, r1).
              let input_tokens = ceil_paged_tokens cfg (ar_extend r1) in
              if pa_input a \<le> input_tokens \<and> pa_run a \<noteq> [] then ret (w2, r1, a, Some Other)
              else if delay = Some False then ret (w2, r1, a, Some Other)
              else admit cfg ops align input_tokens r1 a w2)) w)
          (\<lambda>(w', r', a', early). ret (w', r', a', case early of Some res \<Rightarrow> res | None \<Rightarrow> budget_state cfg ops w' a')))"

section \<open>Preemption\<close>

definition preempt_sign :: "bool \<Rightarrow> int" where
  "preempt_sign low_first = (if low_first then 1 else - 1)"

text \<open>The victims in order until enough is gained, and what is still missing.\<close>

fun pick_victims :: "adder_config \<Rightarrow> int \<Rightarrow> add_req \<Rightarrow> pyfloat \<Rightarrow> add_req list \<Rightarrow> add_req list \<Rightarrow> add_req list \<times> pyfloat" where
  "pick_victims cfg sign r need acc [] = (acc, need)"
| "pick_victims cfg sign r need acc (x # xs) =
     (if ac_threshold cfg < (ar_priority r - ar_priority x) * (- sign)
      then (let need' = fsub need (running_offset cfg x)
            in if need' \<le> 0 then (acc @ [x], need') else pick_victims cfg sign r need' (acc @ [x]) xs)
      else (acc, need))"

fun release_loop ::
  "adder_config \<Rightarrow> 'w pool_ops \<Rightarrow> nat set \<Rightarrow> int \<Rightarrow> nat \<Rightarrow> int \<Rightarrow> add_req list \<Rightarrow> pyfloat \<times> 'w \<times> nat list \<Rightarrow> pyfloat \<times> 'w \<times> nat list"
where
  "release_loop cfg ops victims n_all i cnt [] acc = acc"
| "release_loop cfg ops victims n_all i cnt (x # xs) (off, w, keep) =
     (if ar_id x \<in> victims
      then release_loop cfg ops victims n_all (i + 1) (cnt + 1) xs
             (fsub off (running_offset cfg x), po_release ops i (n_all - (cnt + 1)) w, keep)
      else release_loop cfg ops victims n_all (i + 1) cnt xs (off, w, keep @ [i]))"

definition preempt_to_schedule ::
  "adder_config \<Rightarrow> 'w pool_ops \<Rightarrow> bool \<Rightarrow> add_req \<Rightarrow> adder \<Rightarrow> 'w \<Rightarrow> ('w \<times> adder \<times> bool) res"
where
  "preempt_to_schedule cfg ops low_first r a w =
     (case pa_running a of
        None \<Rightarrow> Inl AttributeError
      | Some running \<Rightarrow>
          (let sign = preempt_sign low_first;
               valid = filter (\<lambda>x. ar_id x \<notin> pa_preempted a \<and> \<not> ar_finished x) running;
               candidates = sort_key (\<lambda>x. (ar_priority x * (- sign), - ar_entry x)) valid;
               need = fsub (of_pyint (ar_extend r + clipped cfg r)) (rem_total_tokens cfg ops w a);
               (victims, missing) = pick_victims cfg sign r need [] candidates
           in if victims = [] \<or> 0 < missing then Inr (w, a, False)
              else let ids = ar_id ` set victims;
                       (off, w', keep) = release_loop cfg ops ids (int (length running)) 0 0 running (pa_total_off a, w, [])
                   in Inr (w', a\<lparr>pa_total_off := off, pa_running := Some (po_filter ops keep running),
                                pa_preempted := pa_preempted a \<union> ids\<rparr>, True)))"

end
