(* ===== verification/Prefill_Props.thy ===== *)
theory Prefill_Props
  imports Prefill_Adder Radix_Props
begin

text \<open>
  What the admission of requests guarantees: the cache is left as it was when a request is turned away
  and with exactly one more lock when it is taken, the budgets go down by what was taken, and what is
  promised to the running requests stays within what the pool can give.
\<close>

section \<open>Rounding to pages\<close>

lemma ceil_paged_dvd: "ac_page cfg dvd ceil_paged_tokens cfg x"
  by (simp add: ceil_paged_tokens_def)

lemma ceil_paged_bounds:
  assumes "0 < ac_page cfg"
  shows "x \<le> ceil_paged_tokens cfg x" and "ceil_paged_tokens cfg x < x + ac_page cfg"
proof -
  have "- x = (- x div ac_page cfg) * ac_page cfg + - x mod ac_page cfg" by simp
  moreover have "0 \<le> - x mod ac_page cfg" "- x mod ac_page cfg < ac_page cfg" using assms by simp_all
  ultimately show "x \<le> ceil_paged_tokens cfg x" "ceil_paged_tokens cfg x < x + ac_page cfg"
    unfolding ceil_paged_tokens_def by linarith+
qed

lemma ceil_paged_least:
  assumes "0 < ac_page cfg" and "x \<le> y" and "ac_page cfg dvd y"
  shows "ceil_paged_tokens cfg x \<le> y"
proof -
  obtain k where k: "y = ac_page cfg * k" using assms(3) by blast
  have "- k \<le> - x div ac_page cfg" using zdiv_mono1 [of "ac_page cfg * (- k)" "- x" "ac_page cfg"] assms(1,2) k
    nonzero_mult_div_cancel_left [of "ac_page cfg" "- k"] by (simp del: mult_minus_right nonzero_mult_div_cancel_left)
  then have "ac_page cfg * - k \<le> ac_page cfg * (- x div ac_page cfg)" using assms(1) by (intro mult_left_mono) auto
  then show ?thesis by (simp add: ceil_paged_tokens_def k mult.commute)
qed

lemma ceil_paged_idem: "0 < ac_page cfg \<Longrightarrow> ceil_paged_tokens cfg (ceil_paged_tokens cfg x) = ceil_paged_tokens cfg x"
  using ceil_paged_least [of cfg "ceil_paged_tokens cfg x" "ceil_paged_tokens cfg x"]
    ceil_paged_bounds(1) [of cfg "ceil_paged_tokens cfg x"] ceil_paged_dvd by fastforce

lemma chunk_length_bounds:
  assumes "0 < ac_page cfg" and "chunk_length cfg align rest = Some len" and "\<forall>k. align = Some k \<longrightarrow> 0 < k"
  shows "0 < len" and "len \<le> rest" and "ceil_paged_tokens cfg len \<le> rest"
proof -
  define whole where "whole = rest div ac_page cfg * ac_page cfg"
  have w: "whole \<le> rest" "ac_page cfg dvd whole"
    using assms(1) by (simp_all add: whole_def whole_pages_le)
  have "0 < len \<and> len \<le> whole"
  proof (cases align)
    case None
    then show ?thesis using assms(2) by (auto simp: chunk_length_def Let_def whole_def split: if_splits)
  next
    case (Some k)
    then have k: "0 < k" "k \<le> whole" "len = k * (whole div k)"
      using assms(2,3) by (auto simp: chunk_length_def Let_def whole_def split: if_splits)
    then have "0 < whole div k" by (simp add: pos_imp_zdiv_pos_iff)
    moreover have "k * (whole div k) \<le> whole" using whole_pages_le [OF k(1), of whole] by (simp add: mult.commute)
    ultimately show ?thesis using k by simp
  qed
  then show "0 < len" "len \<le> rest" "ceil_paged_tokens cfg len \<le> rest"
    using w ceil_paged_least [OF assms(1) _ w(2), of len] by auto
qed

section \<open>What an admitted request costs\<close>

text \<open>The documented effect of \<open>Req.set_extend_input_len\<close>: it sets the length and leaves the rest that is read here.\<close>

definition set_extend_ok :: "'w pool_ops \<Rightarrow> bool" where
  "set_extend_ok ops \<longleftrightarrow> (\<forall>k r. ar_extend (po_set_extend ops k r) = k \<and> ar_node (po_set_extend ops k r) = ar_node r
     \<and> ar_prefix (po_set_extend ops k r) = ar_prefix r \<and> ar_fill (po_set_extend ops k r) = ar_fill r
     \<and> ar_id (po_set_extend ops k r) = ar_id r)"

definition admitted_whole :: "adder_config \<Rightarrow> add_req \<Rightarrow> adder \<Rightarrow> add_req \<Rightarrow> adder \<Rightarrow> bool" where
  "admitted_whole cfg r a r' a' \<longleftrightarrow> r' = r
     \<and> a' = update_prefill_budget cfg (int (length (ar_prefix r))) (ceil_paged_tokens cfg (ar_extend r)) (clipped cfg r) (push_run r a)"

definition admitted_chunk :: "adder_config \<Rightarrow> add_req \<Rightarrow> adder \<Rightarrow> add_req \<Rightarrow> adder \<Rightarrow> int \<Rightarrow> bool" where
  "admitted_chunk cfg r a r' a' len \<longleftrightarrow> 0 < len \<and> len < ceil_paged_tokens cfg (ar_extend r)
     \<and> ceil_paged_tokens cfg len < ceil_paged_tokens cfg (ar_extend r)
     \<and> ar_id r' = ar_id r \<and> ar_node r' = ar_node r \<and> ar_prefix r' = ar_prefix r \<and> ar_extend r' = len
     \<and> ar_fill r' = take (length (ar_prefix r) + nat len) (ar_fill r)
     \<and> a' = update_prefill_budget cfg (int (length (ar_prefix r))) len 0 ((push_run r' a)\<lparr>pa_new_chunk := Some r'\<rparr>)"

text \<open>The budgets after the request: the chunk is not overdrawn, and the input only by a first request.\<close>

definition budgets_kept :: "adder \<Rightarrow> adder \<Rightarrow> bool" where
  "budgets_kept a a' \<longleftrightarrow> (\<forall>c. pa_chunk a' = Some c \<longrightarrow> 0 \<le> c) \<and> (pa_run a \<noteq> [] \<longrightarrow> 0 < pa_input a')"

lemma admit_cases:
  assumes page: "0 < ac_page cfg" and no_dllm: "ac_dllm cfg = None" and no_swa: "\<not> ac_swa cfg"
    and align: "\<forall>k. align = Some k \<longrightarrow> 0 < k" and ext: "set_extend_ok ops"
    and input: "pa_run a \<noteq> [] \<longrightarrow> ceil_paged_tokens cfg (ar_extend r) < pa_input a"
    and inc: "po_inc ops (ar_node r) w = ret (w', u)"
  obtains "admit cfg ops align (ceil_paged_tokens cfg (ar_extend r)) r a w = ret (w, r, a, Some Other)"
  | r' a' where "admit cfg ops align (ceil_paged_tokens cfg (ar_extend r)) r a w = ret (w', r', a', None)"
    and "admitted_whole cfg r a r' a' \<or> (\<exists>len. admitted_chunk cfg r a r' a' len)" and "budgets_kept a a'"
proof (cases "case pa_chunk a of None \<Rightarrow> True | Some c \<Rightarrow> ceil_paged_tokens cfg (ar_extend r) \<le> c")
  case True
  let ?a = "update_prefill_budget cfg (int (length (ar_prefix r))) (ceil_paged_tokens cfg (ar_extend r)) (clipped cfg r) (push_run r a)"
  have "admit cfg ops align (ceil_paged_tokens cfg (ar_extend r)) r a w = ret (w', r, ?a, None)"
    using True no_dllm no_swa inc by (simp add: admit_def req_inc_lock_ref_def Let_def)
  moreover have "budgets_kept a ?a"
    using True input no_dllm ceil_paged_idem [OF page]
    by (auto simp: budgets_kept_def update_prefill_budget_def push_run_def Let_def)
  ultimately show ?thesis using that(2) by (simp add: admitted_whole_def)
next
  case False
  then obtain c where c: "pa_chunk a = Some c" "c < ceil_paged_tokens cfg (ar_extend r)"
    by (cases "pa_chunk a") auto
  show ?thesis
  proof (cases "chunk_length cfg align c")
    case None
    then show ?thesis using that(1) c no_dllm by (simp add: admit_def Let_def)
  next
    case (Some len)
    note len = chunk_length_bounds [OF page Some align]
    let ?r1 = "po_set_extend ops len r"
    let ?r = "?r1\<lparr>ar_fill := upto (int (length (ar_prefix ?r1)) + len) (ar_fill ?r1)\<rparr>"
    let ?a = "update_prefill_budget cfg (int (length (ar_prefix r))) len 0 ((push_run ?r a)\<lparr>pa_new_chunk := Some ?r\<rparr>)"
    have node: "ar_node ?r = ar_node r" using ext by (simp add: set_extend_ok_def)
    have "admit cfg ops align (ceil_paged_tokens cfg (ar_extend r)) r a w = ret (w', ?r, ?a, None)"
      using Some c no_dllm no_swa inc node by (simp add: admit_def req_inc_lock_ref_def Let_def)
    moreover have "admitted_chunk cfg r a ?r ?a len"
      using len c(2) ext by (simp add: admitted_chunk_def set_extend_ok_def upto_def nat_add_distrib)
    moreover have "budgets_kept a ?a"
      using input len(3) c no_dllm by (auto simp: budgets_kept_def update_prefill_budget_def push_run_def Let_def)
    ultimately show ?thesis using that(2) by blast
  qed
qed

section \<open>The pool as an interface\<close>

text \<open>
  What admission relies on: locking a node that is in the tree succeeds and does not make room, a
  release after a lock gives back what the lock took, and the room is a function of what is given back.
\<close>

locale prefill_pool =
  fixes ops :: "'w pool_ops" and good :: "'w \<Rightarrow> bool" and nodes :: "nat set" and view :: "'w \<Rightarrow> 'v"
  assumes inc_ok: "good w \<Longrightarrow> n \<in> nodes \<Longrightarrow> \<exists>w' u. po_inc ops n w = ret (w', u) \<and> good w'
      \<and> po_available ops w' + po_evictable ops w' \<le> po_available ops w + po_evictable ops w"
    and dec_inc: "good w \<Longrightarrow> n \<in> nodes \<Longrightarrow> po_inc ops n w = ret (w1, u) \<Longrightarrow>
      \<exists>w2. po_dec ops n u' w1 = ret w2 \<and> good w2 \<and> view w2 = view w"
    and view_room: "view w = view w' \<Longrightarrow>
      po_available ops w + po_evictable ops w = po_available ops w' + po_evictable ops w'"
begin

lemma lock_round:
  assumes "good w" and "n \<in> nodes" and "po_inc ops n w = ret (w1, u)" and "body w1 = ret (w1, b)"
  shows "\<exists>w'. with_lock cfg ops n body w = ret (w', b) \<and> good w' \<and> view w' = view w"
proof -
  obtain w' where "po_dec ops n (if ac_swa_tree cfg then u else None) w1 = ret w'" "good w'" "view w' = view w"
    using dec_inc [OF assms(1-3)] by blast
  then show ?thesis using assms(3,4) unfolding with_lock_def by (intro exI [of _ w']) (simp del: if_split)
qed

lemma lock_kept:
  assumes "good w" and "n \<in> nodes" and "po_inc ops n w = ret (w1, u)" and "po_inc ops n w1 = ret (w2, u2)"
    and "body w1 = ret (w2, b)"
  shows "\<exists>w'. with_lock cfg ops n body w = ret (w', b) \<and> good w' \<and> view w' = view w1"
proof -
  have "good w1" using inc_ok [OF assms(1,2)] assms(3) by (auto simp: ret_def)
  then obtain w' where "po_dec ops n (if ac_swa_tree cfg then u else None) w2 = ret w'" "good w'" "view w' = view w1"
    using dec_inc [OF _ assms(2,4)] by blast
  then show ?thesis using assms(3,5) unfolding with_lock_def by (intro exI [of _ w']) (simp del: if_split)
qed

lemma room_view:
  "\<not> ac_swa cfg \<Longrightarrow> \<not> ac_ssm cfg \<Longrightarrow> view w = view w' \<Longrightarrow> available_and_evictable cfg ops w = available_and_evictable cfg ops w'"
  using view_room [of w w'] by (simp add: available_and_evictable_def)

end

text \<open>The outcome of one call: nothing happened, or one lock was taken and the budgets paid for the request.\<close>

definition turned_away :: "('w \<Rightarrow> 'v) \<Rightarrow> add_req \<Rightarrow> adder \<Rightarrow> 'w \<Rightarrow> add_req \<Rightarrow> adder \<Rightarrow> add_result \<Rightarrow> 'w \<Rightarrow> bool" where
  "turned_away view r a w r' a' res w' \<longleftrightarrow> r' = r \<and> a' = a \<and> res \<noteq> Continue \<and> view w' = view w"

definition taken_in ::
  "adder_config \<Rightarrow> 'w pool_ops \<Rightarrow> ('w \<Rightarrow> 'v) \<Rightarrow> add_req \<Rightarrow> adder \<Rightarrow> 'w \<Rightarrow> add_req \<Rightarrow> adder \<Rightarrow> add_result \<Rightarrow> 'w \<Rightarrow> bool"
where
  "taken_in cfg ops view r a w r' a' res w' \<longleftrightarrow>
     (\<exists>w1 u. po_inc ops (ar_node r) w = ret (w1, u) \<and> view w' = view w1
        \<and> of_int (ar_extend r + min (max (ar_max_new r - int (length (ar_output r))) 0) (ac_clip cfg)) < rem_total_tokens cfg ops w1 a)
     \<and> (admitted_whole cfg r a r' a' \<or> (\<exists>len. admitted_chunk cfg r a r' a' len))
     \<and> budgets_kept a a' \<and> res = budget_state cfg ops w' a'"

context prefill_pool
begin

lemma add_one_req_cases:
  assumes good: "good w" and node: "ar_node r \<in> nodes"
    and page: "0 < ac_page cfg" and no_dllm: "ac_dllm cfg = None" and no_swa: "\<not> ac_swa cfg" and no_ssm: "\<not> ac_ssm cfg"
    and path: "\<not> (ar_ignore_eos r \<and> ac_disabled cfg)" and host: "ar_host_hit r = 0"
    and align: "\<forall>k. align = Some k \<longrightarrow> 0 < k" and ext: "set_extend_ok ops"
  shows "\<exists>w' r' a' res. add_one_req cfg ops delay align r a w = ret (w', r', a', res)
    \<and> (turned_away view r a w r' a' res w' \<or> good w' \<and> taken_in cfg ops view r a w r' a' res w')"
proof -
  define tot where "tot = ar_extend r + min (max (ar_max_new r - int (length (ar_output r))) 0) (ac_clip cfg)"
  define inp where "inp = ceil_paged_tokens cfg (ar_extend r)"
  define early where "early \<longleftrightarrow> ac_nsa cfg \<and> 1 \<le> length (pa_run a)
    \<or> (case ac_max_reqs cfg of None \<Rightarrow> False | Some x \<Rightarrow> x \<le> int (length (pa_run a)))
    \<or> rem_total_tokens cfg ops w a \<le> of_int tot \<or> pa_input a \<le> inp \<and> pa_run a \<noteq> []"
  define body where "body = (\<lambda>w1.
    if rem_total_tokens cfg ops w1 a \<le> of_int tot then ret (w1, r, a, Some No_Token)
    else if pa_input a \<le> inp \<and> pa_run a \<noteq> [] then ret (w1, r, a, Some Other)
    else if delay = Some False then ret (w1, r, a, Some Other)
    else admit cfg ops align inp r a w1)"
  show ?thesis
  proof (cases early)
    case True
    then show ?thesis
      using path host unfolding early_def tot_def inp_def
      by (fastforce simp: add_one_req_def turned_away_def Let_def split: if_splits)
  next
    case False
    have eq: "add_one_req cfg ops delay align r a w = obind (with_lock cfg ops (ar_node r) body w)
        (\<lambda>(w', r', a', early). ret (w', r', a', case early of Some res \<Rightarrow> res | None \<Rightarrow> budget_state cfg ops w' a'))"
    proof -
      have f: "\<not> (ac_nsa cfg \<and> 1 \<le> length (pa_run a))"
        "\<not> (case ac_max_reqs cfg of None \<Rightarrow> False | Some x \<Rightarrow> x \<le> int (length (pa_run a)))"
        "\<not> rem_total_tokens cfg ops w a \<le> of_int tot" "\<not> (pa_input a \<le> inp \<and> pa_run a \<noteq> [])"
        using False unfolding early_def by blast+
      have lb: "load_back ops r v = ret (v, r)" for v using host by (simp add: load_back_def)
      show ?thesis
        unfolding add_one_req_def Let_def host diff_0_right tot_def [symmetric] inp_def [symmetric] lb obind_simps prod.case
          if_not_P [OF f(1)] if_not_P [OF f(2)] if_not_P [OF f(3)] if_not_P [OF f(4)] if_not_P [OF path] body_def
        by (rule refl)
    qed
    obtain w1 u where w1: "po_inc ops (ar_node r) w = ret (w1, u)" "good w1" using inc_ok [OF good node] by blast
    obtain w2 u2 where w2: "po_inc ops (ar_node r) w1 = ret (w2, u2)" using inc_ok [OF w1(2) node] by blast
    have reject: ?thesis if "body w1 = ret (w1, r, a, Some res)" "res \<noteq> Continue" for res
    proof -
      have "\<exists>w'. with_lock cfg ops (ar_node r) body w = ret (w', r, a, Some res) \<and> good w' \<and> view w' = view w"
        by (rule lock_round [where body = body and b = "(r, a, Some res)", OF good node w1(1) that(1)])
      then obtain w' where "with_lock cfg ops (ar_node r) body w = ret (w', r, a, Some res)" "view w' = view w" by blast
      then show ?thesis using that(2)
        by (intro exI [of _ w'] exI [of _ r] exI [of _ a] exI [of _ res]) (simp add: eq turned_away_def)
    qed
    show ?thesis
    proof (cases "rem_total_tokens cfg ops w1 a \<le> of_int tot \<or> pa_input a \<le> inp \<and> pa_run a \<noteq> [] \<or> delay = Some False")
      case True
      then have "body w1 = ret (w1, r, a, Some No_Token) \<or> body w1 = ret (w1, r, a, Some Other)" by (auto simp: body_def)
      then show ?thesis by (elim disjE) (rule reject, assumption, simp)+
    next
      case False
      then have "\<not> rem_total_tokens cfg ops w1 a \<le> of_int tot" "\<not> (pa_input a \<le> inp \<and> pa_run a \<noteq> [])" "delay \<noteq> Some False"
        by simp_all
      then have bd: "body w1 = admit cfg ops align inp r a w1" unfolding body_def by (simp only: if_False)
      have input: "pa_run a \<noteq> [] \<longrightarrow> ceil_paged_tokens cfg (ar_extend r) < pa_input a" using False by (auto simp: inp_def)
      from admit_cases [OF page no_dllm no_swa align ext input w2] show ?thesis
      proof cases
        case 1
        then show ?thesis using reject [of Other] bd by (simp add: inp_def)
      next
        case (2 r' a')
        from lock_kept [OF good node w1(1) w2, of body "(r', a', None)" cfg] 2(1) bd
        obtain w' where w': "with_lock cfg ops (ar_node r) body w = ret (w', r', a', None)" "good w'" "view w' = view w1"
          by (auto simp: inp_def)
        have "taken_in cfg ops view r a w r' a' (budget_state cfg ops w' a') w'"
          unfolding taken_in_def using w1(1) w'(3) 2(2,3) False by (auto simp: tot_def not_le)
        then show ?thesis using w' by (auto simp: eq)
      qed
    qed
  qed
qed

end

section \<open>The budget of an admitted request\<close>

text \<open>
  The check counts the input exactly and the generation that is left; what is booked is the input in
  whole pages and the whole generation. The difference is at most a page and the generated tokens.
\<close>

lemma taken_offset:
  assumes "admitted_whole cfg r a r' a' \<or> (\<exists>len. admitted_chunk cfg r a r' a' len)" and page: "0 < ac_page cfg" and clip: "0 \<le> ac_clip cfg"
    and pos: "0 \<le> ar_extend r" "0 \<le> ar_max_new r"
  shows "\<exists>k. pa_total_off a' = fadd (pa_total_off a) (of_pyint k) \<and> 0 \<le> k
    \<and> k < ar_extend r + min (max (ar_max_new r - int (length (ar_output r))) 0) (ac_clip cfg) + int (length (ar_output r)) + ac_page cfg"
  using assms(1)
proof (elim disjE exE)
  let ?c = "ceil_paged_tokens cfg (ar_extend r)"
  assume "admitted_whole cfg r a r' a'"
  then show ?thesis
    using ceil_paged_bounds [OF page, of "ar_extend r"] clip pos ceil_paged_idem [OF page, of "ar_extend r"]
    by (intro exI [of _ "?c + clipped cfg r"])
      (auto simp: admitted_whole_def update_prefill_budget_def Let_def push_run_def clipped_def)
next
  fix len assume "admitted_chunk cfg r a r' a' len"
  then show ?thesis
    using ceil_paged_bounds [OF page, of "ar_extend r"] ceil_paged_bounds(1) [OF page, of len] clip
    by (intro exI [of _ "ceil_paged_tokens cfg len"])
      (auto simp: admitted_chunk_def update_prefill_budget_def Let_def push_run_def)
qed

lemma fl_less_int: "of_int n < fl x \<Longrightarrow> \<bar>n\<bar> < 2 ^ 53 \<Longrightarrow> of_int n < x"
  using fl_mono [of x "of_int n"] fl_of_int [of n] by linarith

lemma rem_total_after:
  assumes "of_int t < rem_total_tokens cfg ops w a" and "pa_total_off a' = fadd (pa_total_off a) (of_pyint k)"
    and "k \<le> t + e" and "\<bar>t\<bar> < 2 ^ 53" and "\<bar>k\<bar> < 2 ^ 53" and "\<bar>e\<bar> < 2 ^ 53"
    and "\<bar>available_and_evictable cfg ops w\<bar> < 2 ^ 53" and "\<bar>available_and_evictable cfg ops w + e\<bar> < 2 ^ 53"
  shows "- of_int e \<le> rem_total_tokens cfg ops w a'"
proof -
  let ?A = "available_and_evictable cfg ops w"
  have A: "of_pyint ?A = of_int ?A" "of_pyint k = of_int k" using assms(5,7) by (simp_all add: of_pyint_def fl_of_int)
  have "of_int t < of_int ?A - pa_total_off a"
    using assms(1) fl_less_int [OF _ assms(4)] A by (simp add: rem_total_tokens_def fsub_def)
  moreover have "(of_int k :: rat) \<le> of_int t + of_int e" using assms(3) by (metis of_int_add of_int_le_iff)
  ultimately have "pa_total_off a + of_int k \<le> of_int (?A + e)" by simp
  then have "pa_total_off a' \<le> of_int (?A + e)"
    using fl_mono fl_of_int [OF assms(8)] assms(2) A by (metis fadd_def)
  then have "of_int (- e) \<le> of_int ?A - pa_total_off a'" by simp
  from fl_mono [OF this] show ?thesis
    using fl_of_int [of "- e"] assms(6) A by (simp add: rem_total_tokens_def fsub_def)
qed

section \<open>The radix cache as the pool\<close>

text \<open>The methods that the plain radix cache and its allocator provide; the rest is \<open>other\<close>.\<close>

definition radix_pool :: "rc_config \<Rightarrow> (radix_cache \<times> int) pool_ops \<Rightarrow> (radix_cache \<times> int) pool_ops" where
  "radix_pool rcfg other = other\<lparr>po_available := snd, po_evictable := (\<lambda>(c, free). evictable_size c),
     po_inc := (\<lambda>n (c, free). obind (inc_lock_ref rcfg n c) (\<lambda>(c', delta). ret ((c', free), Some delta))),
     po_dec := (\<lambda>n u (c, free). obind (dec_lock_ref rcfg n c) (\<lambda>(c', delta). ret (c', free)))\<rparr>"

definition cache_view :: "radix_cache \<Rightarrow> nat \<times> (nat \<Rightarrow> rnode) \<times> int \<times> int \<times> nat set" where
  "cache_view c = (root_node c, heap c, evictable_size c, protected_size c, set (evictable_leaves c))"

definition pool_view :: "radix_cache \<times> int \<Rightarrow> (nat \<times> (nat \<Rightarrow> rnode) \<times> int \<times> int \<times> nat set) \<times> int" where
  "pool_view w = (cache_view (fst w), snd w)"

lemma evictable_nonneg: "rc_ok cfg S c \<Longrightarrow> 0 \<le> evictable_size c"
proof -
  assume "rc_ok cfg S c"
  moreover have "0 \<le> ev_len x" for x by (simp add: ev_len_def key_len_def)
  ultimately show ?thesis by (simp add: rc_ok_def acct_ok_def sum_nonneg)
qed

lemma lock_less_evictable:
  assumes "rc_ok cfg S c" and "rc_ok cfg S c1" and "lock_fold_spec (\<lambda>i. i + 1) ns (c, 0) (c1, delta)"
  shows "evictable_size c1 \<le> evictable_size c"
proof -
  have a: "acct_ok S c" "acct_ok S c1" using assms(1,2) by (simp_all add: rc_ok_def)
  have r: "root_node c1 = root_node c" using assms(3) by (simp add: lock_fold_spec_def)
  have "ev_len (heap c1 m) \<le> ev_len (heap c m)" if "m \<in> S" for m
  proof -
    have "0 \<le> lock_ref (heap c m)" using a(1) that by (simp add: acct_ok_def)
    then show ?thesis using assms(3) by (auto simp: lock_fold_spec_def upd_lock_def ev_len_def key_len_def)
  qed
  then have "(\<Sum>n \<in> S - {root_node c}. ev_len (heap c1 n)) \<le> (\<Sum>n \<in> S - {root_node c}. ev_len (heap c n))"
    by (intro sum_mono) auto
  then show ?thesis using a r by (simp add: acct_ok_def)
qed

lemma radix_inc:
  assumes "rc_ok cfg S c" and "n \<in> S"
  shows "\<exists>c1 delta. inc_lock_ref cfg n c = ret (c1, delta) \<and> rc_ok cfg S c1 \<and> evictable_size c1 \<le> evictable_size c
    \<and> (\<exists>c2 delta2. dec_lock_ref cfg n c1 = ret (c2, delta2) \<and> rc_ok cfg S c2 \<and> cache_view c2 = cache_view c)"
proof (cases "disable cfg")
  case True
  then show ?thesis using assms(1)
    by (intro exI [of _ c] exI [of _ 0] conjI) (simp_all add: inc_lock_ref_def dec_lock_ref_def)
next
  case False
  obtain ns c1 delta c2 delta2 where L: "inc_lock_ref cfg n c = ret (c1, delta)"
    "lock_fold_spec (\<lambda>i. i + 1) ns (c, 0) (c1, delta)" "rc_ok cfg S c1"
    "dec_lock_ref cfg n c1 = ret (c2, delta2)" "rc_ok cfg S c2" "heap c2 = heap c" "root_node c2 = root_node c"
    by (rule lock_then_unlock [OF assms False])
  have "cache_view c2 = cache_view c" using rc_ok_same_heap [OF assms(1) L(5-7)] L(6,7) by (simp add: cache_view_def)
  then show ?thesis using L lock_less_evictable [OF assms(1) L(3,2)] by blast
qed

interpretation rp: prefill_pool "radix_pool rcfg other" "\<lambda>w. rc_ok rcfg S (fst w)" S pool_view
proof unfold_locales
  fix w :: "radix_cache \<times> int" and n
  assume w: "rc_ok rcfg S (fst w)" "n \<in> S"
  obtain c free where c: "w = (c, free)" by (cases w)
  obtain c1 delta c2 delta2 where L: "inc_lock_ref rcfg n c = ret (c1, delta)" "rc_ok rcfg S c1"
    "evictable_size c1 \<le> evictable_size c" "dec_lock_ref rcfg n c1 = ret (c2, delta2)" "rc_ok rcfg S c2" "cache_view c2 = cache_view c"
    using radix_inc [of rcfg S c n] w by (auto simp: c)
  show "\<exists>w' u. po_inc (radix_pool rcfg other) n w = ret (w', u) \<and> rc_ok rcfg S (fst w')
      \<and> po_available (radix_pool rcfg other) w' + po_evictable (radix_pool rcfg other) w'
        \<le> po_available (radix_pool rcfg other) w + po_evictable (radix_pool rcfg other) w"
    using L by (intro exI [of _ "(c1, free)"] exI [of _ "Some delta"]) (simp add: c radix_pool_def)
  fix w1 u u'
  assume "po_inc (radix_pool rcfg other) n w = ret (w1, u)"
  then have "w1 = (c1, free)" using L by (simp add: c radix_pool_def ret_def)
  then show "\<exists>w2. po_dec (radix_pool rcfg other) n u' w1 = ret w2 \<and> rc_ok rcfg S (fst w2) \<and> pool_view w2 = pool_view w"
    using L by (intro exI [of _ "(c2, free)"]) (simp add: c radix_pool_def pool_view_def)
next
  fix w w' :: "radix_cache \<times> int"
  assume "pool_view w = pool_view w'"
  then show "po_available (radix_pool rcfg other) w + po_evictable (radix_pool rcfg other) w
      = po_available (radix_pool rcfg other) w' + po_evictable (radix_pool rcfg other) w'"
    by (cases w; cases w') (simp add: radix_pool_def pool_view_def cache_view_def)
qed

section \<open>Admission over the radix cache\<close>


definition demo_pool :: "(radix_cache \<times> int) pool_ops" where
  "demo_pool = \<lparr>po_available = snd, po_evictable = (\<lambda>_. 0), po_full_available = snd, po_full_evictable = (\<lambda>_. 0),
     po_swa_available = snd, po_swa_evictable = (\<lambda>_. 0), po_inc = (\<lambda>_ w. ret (w, None)), po_dec = (\<lambda>_ _ w. ret w),
     po_load_back = (\<lambda>n _ w. ret (w, [], n)), po_set_extend = (\<lambda>k r. r\<lparr>ar_extend := k\<rparr>),
     po_release = (\<lambda>_ _ w. w), po_filter = (\<lambda>keep rs. map (\<lambda>i. rs ! i) keep), po_fsum = sum_list\<rparr>"

definition demo_adder_config :: adder_config where
  "demo_adder_config = \<lparr>ac_page = 16, ac_ratio = 1 / 2, ac_clip = 4096, ac_reserve = 1, ac_dllm = None, ac_swa = False,
     ac_ssm = False, ac_swa_tree = False, ac_disabled = False, ac_threshold = 0, ac_nsa = False, ac_max_reqs = None\<rparr>"

definition demo_req :: "nat \<Rightarrow> nat \<Rightarrow> int \<Rightarrow> add_req" where
  "demo_req i node prio = \<lparr>ar_id = i, ar_extend = 20, ar_fill = [1..20], ar_prefix = [], ar_input = [1..20],
     ar_output = [], ar_max_new = 8, ar_ignore_eos = False, ar_node = node, ar_host_node = 0, ar_host_hit = 0,
     ar_protected = 0, ar_uuid = None, ar_priority = prio, ar_entry = 0, ar_finished = False\<rparr>"


end
