(* ===== verification/Preempt_Props.thy ===== *)
theory Preempt_Props
  imports Prefill_Props
begin

text \<open>
  What preemption does, stated without its loops: which running requests are given up, in what order
  they are considered, and when it refuses; and the chunked request, which is never turned away.
\<close>

section \<open>The victims\<close>

definition outranked :: "adder_config \<Rightarrow> bool \<Rightarrow> add_req \<Rightarrow> add_req \<Rightarrow> bool" where
  "outranked cfg low_first r x \<longleftrightarrow> ac_threshold cfg < (ar_priority r - ar_priority x) * (- preempt_sign low_first)"

definition preempt_order :: "adder_config \<Rightarrow> bool \<Rightarrow> add_req \<Rightarrow> nat set \<Rightarrow> add_req list \<Rightarrow> add_req list" where
  "preempt_order cfg low_first r gone running =
     sort_key (\<lambda>x. (ar_priority x * (- preempt_sign low_first), - ar_entry x))
       (filter (\<lambda>x. ar_id x \<notin> gone \<and> \<not> ar_finished x \<and> outranked cfg low_first r x) running)"

definition missing_after :: "adder_config \<Rightarrow> pyfloat \<Rightarrow> add_req list \<Rightarrow> pyfloat" where
  "missing_after cfg need xs = foldl (\<lambda>m x. fsub m (running_offset cfg x)) need xs"

definition enough :: "adder_config \<Rightarrow> pyfloat \<Rightarrow> add_req list \<Rightarrow> nat \<Rightarrow> bool" where
  "enough cfg need xs k \<longleftrightarrow> 0 < k \<and> k \<le> length xs \<and> missing_after cfg need (take k xs) \<le> 0"

text \<open>The sort puts the outranked requests first, so the loop's \<open>break\<close> loses none of them.\<close>

lemma takeWhile_sorted_filter:
  assumes "sorted (map f xs)" and "\<And>x y. f x \<le> f y \<Longrightarrow> P y \<Longrightarrow> P x"
  shows "takeWhile P xs = filter P xs"
  using assms(1)
proof (induction xs)
  case (Cons x xs)
  show ?case
  proof (cases "P x")
    case False
    then have "\<forall>y \<in> set xs. \<not> P y" using Cons.prems assms(2) by auto
    then show ?thesis using False by (simp add: filter_False)
  qed (use Cons in simp)
qed simp

lemma filter_sort_key: "filter P (sort_key f xs) = sort_key f (filter P xs)"
  by (simp add: filter_sort)

lemma outranked_first:
  "takeWhile (outranked cfg low_first r)
     (sort_key (\<lambda>x. (ar_priority x * (- preempt_sign low_first), - ar_entry x))
        (filter (\<lambda>x. ar_id x \<notin> gone \<and> \<not> ar_finished x) running))
   = preempt_order cfg low_first r gone running"
proof -
  let ?f = "\<lambda>x. (ar_priority x * (- preempt_sign low_first), - ar_entry x)"
  have m: "outranked cfg low_first r x" if "?f x \<le> ?f y" "outranked cfg low_first r y" for x y
    using that by (auto simp: outranked_def left_diff_distrib)
  have "takeWhile (outranked cfg low_first r) (sort_key ?f ys) = sort_key ?f (filter (outranked cfg low_first r) ys)" for ys
    unfolding filter_sort_key [symmetric] by (rule takeWhile_sorted_filter [OF sorted_sort_key m])
  then show ?thesis by (simp only: preempt_order_def filter_filter conj_ac)
qed

lemma pick_victims_Cons:
  "pick_victims cfg (preempt_sign low_first) r need acc (x # xs) =
     (if outranked cfg low_first r x
      then (let need' = fsub need (running_offset cfg x) in
            if need' \<le> 0 then (acc @ [x], need') else pick_victims cfg (preempt_sign low_first) r need' (acc @ [x]) xs)
      else (acc, need))"
  by (simp add: outranked_def)

lemma pick_victims_eq:
  "pick_victims cfg (preempt_sign low_first) r need acc xs =
     (let ys = takeWhile (outranked cfg low_first r) xs in
      if \<exists>k. enough cfg need ys k
      then (let vs = take (LEAST k. enough cfg need ys k) ys in (acc @ vs, missing_after cfg need vs))
      else (acc @ ys, missing_after cfg need ys))"
proof (induction xs arbitrary: need acc)
  case Nil
  then show ?case by (simp add: enough_def missing_after_def)
next
  case (Cons x xs)
  show ?case
  proof (cases "outranked cfg low_first r x")
    case False
    then show ?thesis by (simp add: pick_victims_Cons enough_def missing_after_def del: pick_victims.simps)
  next
    case out: True
    let ?need = "fsub need (running_offset cfg x)" and ?ys = "takeWhile (outranked cfg low_first r) xs"
    have one: "enough cfg need (x # ?ys) (Suc k) \<longleftrightarrow> (if k = 0 then ?need \<le> 0 else enough cfg ?need ?ys k)" for k
      by (cases k) (simp_all add: enough_def missing_after_def)
    have zero: "\<not> enough cfg need (x # ?ys) 0" by (simp add: enough_def)
    show ?thesis
    proof (cases "?need \<le> 0")
      case True
      then have "enough cfg need (x # ?ys) 1" using one [of 0] by simp
      moreover from this have "(LEAST k. enough cfg need (x # ?ys) k) = 1"
        using zero by (intro Least_equality) (auto simp: Suc_le_eq intro: gr0I)
      ultimately show ?thesis using out True
        by (auto simp: pick_victims_Cons missing_after_def Let_def simp del: pick_victims.simps)
    next
      case False
      have ex: "(\<exists>k. enough cfg need (x # ?ys) k) \<longleftrightarrow> (\<exists>k. enough cfg ?need ?ys k)"
      proof
        assume "\<exists>k. enough cfg need (x # ?ys) k"
        then obtain k where k: "enough cfg need (x # ?ys) k" by blast
        then obtain j where "k = Suc j" using zero by (cases k) auto
        then show "\<exists>k. enough cfg ?need ?ys k" using k one [of j] False by (auto split: if_splits)
      next
        assume "\<exists>k. enough cfg ?need ?ys k"
        then obtain k where k: "enough cfg ?need ?ys k" by blast
        then have "k \<noteq> 0" by (simp add: enough_def)
        then show "\<exists>k. enough cfg need (x # ?ys) k" using k one [of k] by auto
      qed
      have least: "(LEAST k. enough cfg need (x # ?ys) k) = Suc (LEAST k. enough cfg ?need ?ys k)"
        if k: "enough cfg ?need ?ys k" for k
      proof -
        have "k \<noteq> 0" using k by (simp add: enough_def)
        then have "(LEAST k. enough cfg need (x # ?ys) k) = Suc (LEAST k. enough cfg need (x # ?ys) (Suc k))"
          using k one [of k] zero by (intro Least_Suc [of _ "Suc k"]) auto
        also have "(\<lambda>k. enough cfg need (x # ?ys) (Suc k)) = enough cfg ?need ?ys"
          using one False by (auto simp: enough_def fun_eq_iff)
        finally show ?thesis by simp
      qed
      have step: "pick_victims cfg (preempt_sign low_first) r need acc (x # xs) =
          pick_victims cfg (preempt_sign low_first) r ?need (acc @ [x]) xs"
        using out False by (simp add: pick_victims_Cons Let_def del: pick_victims.simps)
      show ?thesis
        unfolding step Cons.IH using out ex least by (auto simp: Let_def missing_after_def)
    qed
  qed
qed

section \<open>The release\<close>

definition victim_indices :: "nat set \<Rightarrow> nat \<Rightarrow> add_req list \<Rightarrow> nat list" where
  "victim_indices ids i xs = map fst (filter (\<lambda>(k, x). ar_id x \<in> ids) (enumerate i xs))"

definition kept_indices :: "nat set \<Rightarrow> nat \<Rightarrow> add_req list \<Rightarrow> nat list" where
  "kept_indices ids i xs = map fst (filter (\<lambda>(k, x). ar_id x \<notin> ids) (enumerate i xs))"

text \<open>Each release is told how many requests stay: the j-th leaves all but j.\<close>

definition release_all :: "'w pool_ops \<Rightarrow> int \<Rightarrow> nat \<Rightarrow> nat list \<Rightarrow> 'w \<Rightarrow> 'w" where
  "release_all ops n_all j is w = fold (\<lambda>(j, i). po_release ops i (n_all - int (j + 1))) (enumerate j is) w"

lemma release_loop_eq:
  "release_loop cfg ops ids n_all i (int j) xs (off, w, keep) =
     (missing_after cfg off (filter (\<lambda>x. ar_id x \<in> ids) xs), release_all ops n_all j (victim_indices ids i xs) w,
      keep @ kept_indices ids i xs)"
proof (induction xs arbitrary: i j off w keep)
  case (Cons x xs)
  show ?case using Cons.IH [of "i + 1" "j + 1"] Cons.IH [of "i + 1" j]
    by (auto simp: missing_after_def release_all_def victim_indices_def kept_indices_def add.commute)
qed (simp add: missing_after_def release_all_def victim_indices_def kept_indices_def)

section \<open>Preemption\<close>

definition preempt_need :: "adder_config \<Rightarrow> 'w pool_ops \<Rightarrow> 'w \<Rightarrow> add_req \<Rightarrow> adder \<Rightarrow> pyfloat" where
  "preempt_need cfg ops w r a = fsub (of_pyint (ar_extend r + clipped cfg r)) (rem_total_tokens cfg ops w a)"

text \<open>
  C17: \<open>preempt_to_schedule\<close> considers exactly the running requests that are outranked by more than the
  threshold, are not finished and were not preempted before, the lowest rank first and the latest
  arrival first. If some number of them, at least one, frees what is missing, the least such number is
  given up: each is released once, told how many stay, the batch keeps exactly the others in their
  order, their promised tokens are taken off the offset, and they are remembered. Otherwise it answers
  False and nothing has changed.
\<close>

theorem preempt_correct:
  assumes "pa_running a = Some running"
  shows "preempt_to_schedule cfg ops low_first r a w =
    (let order = preempt_order cfg low_first r (pa_preempted a) running; fits = enough cfg (preempt_need cfg ops w r a) order in
     if \<exists>k. fits k
     then (let victims = take (LEAST k. fits k) order; ids = ar_id ` set victims in
           Inr (release_all ops (int (length running)) 0 (victim_indices ids 0 running) w,
                a\<lparr>pa_total_off := missing_after cfg (pa_total_off a) (filter (\<lambda>x. ar_id x \<in> ids) running),
                  pa_running := Some (po_filter ops (kept_indices ids 0 running) running),
                  pa_preempted := pa_preempted a \<union> ids\<rparr>, True))
     else Inr (w, a, False))"
proof -
  let ?order = "preempt_order cfg low_first r (pa_preempted a) running"
  let ?need = "preempt_need cfg ops w r a"
  have pick: "pick_victims cfg (preempt_sign low_first) r ?need []
      (sort_key (\<lambda>x. (ar_priority x * (- preempt_sign low_first), - ar_entry x))
        (filter (\<lambda>x. ar_id x \<notin> pa_preempted a \<and> \<not> ar_finished x) running)) =
     (if \<exists>k. enough cfg ?need ?order k
      then (let vs = take (LEAST k. enough cfg ?need ?order k) ?order in (vs, missing_after cfg ?need vs))
      else (?order, missing_after cfg ?need ?order))"
    unfolding pick_victims_eq outranked_first Let_def append_Nil ..
  have all: "enough cfg ?need ?order (length ?order)" if "?order \<noteq> []" "missing_after cfg ?need ?order \<le> 0"
    using that by (simp add: enough_def)
  show ?thesis
  proof (cases "\<exists>k. enough cfg ?need ?order k")
    case True
    then have least: "enough cfg ?need ?order (LEAST k. enough cfg ?need ?order k)" by (rule LeastI_ex)
    let ?vs = "take (LEAST k. enough cfg ?need ?order k) ?order"
    have "?vs \<noteq> []" "\<not> 0 < missing_after cfg ?need ?vs" using least by (auto simp: enough_def)
    then show ?thesis
      using True assms pick release_loop_eq [of cfg ops "ar_id ` set ?vs" "int (length running)" 0 0 running "pa_total_off a" w "[]"]
      by (simp add: preempt_to_schedule_def preempt_need_def Let_def del: release_loop.simps pick_victims.simps)
  next
    case False
    then have "?order = [] \<or> 0 < missing_after cfg ?need ?order" using all by fastforce
    then show ?thesis
      using False assms pick
      by (simp add: preempt_to_schedule_def preempt_need_def Let_def del: release_loop.simps pick_victims.simps)
  qed
qed

text \<open>One running request of priority 5, a newcomer of priority 9, and room enough: the one is given up.\<close>

definition demo_running :: adder where
  "demo_running = (adder_init demo_adder_config sum_list None 1000 None 0)\<lparr>pa_running := Some [demo_req 1 0 5]\<rparr>"

theorem preempt_correct_witness:
  "\<exists>a'. preempt_to_schedule demo_adder_config demo_pool False (demo_req 2 0 9) demo_running (cache_init (\<lambda>_. 0), 1000)
     = Inr ((cache_init (\<lambda>_. 0), 1000), a', True) \<and> pa_running a' = Some [] \<and> pa_preempted a' = {1}"
proof -
  let ?w = "(cache_init (\<lambda>_. 0), 1000::int)"
  let ?need = "preempt_need demo_adder_config demo_pool ?w (demo_req 2 0 9) demo_running"
  have run: "pa_running demo_running = Some [demo_req 1 0 5]" by (simp add: demo_running_def)
  have order: "preempt_order demo_adder_config False (demo_req 2 0 9) (pa_preempted demo_running) [demo_req 1 0 5] = [demo_req 1 0 5]"
    by (simp add: preempt_order_def outranked_def preempt_sign_def demo_req_def demo_adder_config_def demo_running_def adder_init_def)
  have "?need = - 972"
    using fl_of_int [of 28] fl_of_int [of 1000] fl_of_int [of "- 972"]
    by (simp add: preempt_need_def fsub_def of_pyint_def rem_total_tokens_def available_and_evictable_def demo_req_def
        demo_adder_config_def demo_running_def adder_init_def clipped_def demo_pool_def)
  then have "missing_after demo_adder_config ?need [demo_req 1 0 5] \<le> 0"
    using fl_of_int [of 8] fl_of_int [of 4] fl_of_int [of "- 976"]
    by (simp add: missing_after_def running_offset_def demo_req_def demo_adder_config_def fsub_def fmul_def of_pyint_def)
  then have fits: "enough demo_adder_config ?need [demo_req 1 0 5] k \<longleftrightarrow> k = 1" for k
    by (cases k) (auto simp: enough_def)
  have least: "(LEAST k::nat. k = 1) = 1" by (rule Least_equality) auto
  show ?thesis
    unfolding preempt_correct [OF run] Let_def order fits least
    by (simp add: release_all_def victim_indices_def kept_indices_def demo_pool_def demo_req_def demo_running_def adder_init_def)
qed

section \<open>The order of the pending lengths\<close>

text \<open>
  The list that is sorted at its first use is kept by insertion afterwards; a length above all others is
  put before the last one and not behind it, because the search leaves its index at the last element.
\<close>

lemma first_states_sorted: "pa_states a = None \<Longrightarrow> sorted (map fst (states_with cfg r a))"
  by (simp add: states_with_def)

lemma insert_state_misplaces: "insert_state (Some (3, 0)) [(1, 0), (2, 0)] = [(1, 0), (3, 0), (2, 0)]"
  by (simp add: insert_state_def Let_def)

end
