(* ===== verification/Radix_Request.thy ===== *)
theory Radix_Request
  imports Radix_Props
begin

text \<open>
  What the radix cache does with a request's KV memory when the request is finished or pauses between
  two chunks: \<open>cache_finished_req\<close> and \<open>cache_unfinished_req\<close> of
  \<open>src/python/peek/offline/sglang_patches/patched_files/radix_cache.py\<close>. The request owns one row of
  the request-to-token pool; the allocator is the list of indices handed back to it. Slices are only
  taken with non-negative bounds.
\<close>

section \<open>Requests and their rows\<close>

text \<open>
  \<open>kr_committed\<close> is what \<open>pop_committed_kv_cache\<close> returns; \<open>kr_priority\<close> is
  \<open>getattr(req, "priority", 0) or 0\<close>; \<open>kr_row\<close> is the request's row of \<open>req_to_token\<close>.
\<close>

record kv_req =
  kr_input :: "int list"
  kr_output :: "int list"
  kr_fill :: "int list"
  kr_row :: "int list"
  kr_extra :: "string option"
  kr_priority :: int
  kr_protected :: int
  kr_committed :: int
  kr_node :: nat
  kr_prefix :: "int list"

definition kv_slice :: "int \<Rightarrow> int \<Rightarrow> int list \<Rightarrow> int list" where
  "kv_slice i j xs = drop (nat i) (take (nat j) xs)"

definition free_kv :: "int list \<Rightarrow> radix_cache \<Rightarrow> radix_cache" where
  "free_kv xs c = c\<lparr>freed := freed c @ xs\<rparr>"

definition page_align_keys :: "rc_config \<Rightarrow> int list \<Rightarrow> int list" where
  "page_align_keys cfg key =
     (if page_size cfg = 1 then key else take (nat (int (length key) div page_size cfg * page_size cfg)) key)"

definition kv_request_key :: "rc_config \<Rightarrow> string option \<Rightarrow> int list \<Rightarrow> radix_key" where
  "kv_request_key cfg ex toks =
     \<lparr>token_ids = page_align_keys cfg (case bigram cfg of None \<Rightarrow> toks | Some conv \<Rightarrow> conv toks),
      extra_key = ex, is_bigram = (bigram cfg \<noteq> None)\<rparr>"

definition finished_tokens :: "kv_req \<Rightarrow> int list" where
  "finished_tokens r = take (nat (kr_committed r)) (kr_input r @ kr_output r)"

section \<open>The two operations\<close>

definition cache_finished_req ::
  "rc_config \<Rightarrow> bool \<Rightarrow> (nat \<Rightarrow> pyfloat) \<Rightarrow> bool \<Rightarrow> kv_req \<Rightarrow> radix_cache \<Rightarrow> radix_cache run"
where
  "cache_finished_req cfg disable_insert tm is_insert r c =
     (if disable cfg then ret (free_kv (take (nat (kr_committed r)) (kr_row r)) c)
      else
        let toks = finished_tokens r; kv = take (length toks) (kr_row r);
            key = kv_request_key cfg (kr_extra r) toks; n = length (token_ids key)
        in obind
          (if is_insert \<and> \<not> disable_insert
           then obind (cache_insert cfg tm key (Some (take n kv)) (Some (kr_priority r)) c)
                  (\<lambda>(c1, prefix_len). ret (free_kv (kv_slice (kr_protected r) prefix_len kv) c1))
           else ret (free_kv (kv_slice (kr_protected r) (int n) kv) c))
          (\<lambda>c2. obind (dec_lock_ref cfg (kr_node r) (free_kv (drop n kv) c2)) (\<lambda>(c3, delta). ret c3)))"

definition write_row :: "int \<Rightarrow> int list \<Rightarrow> int list \<Rightarrow> int list" where
  "write_row i new row = take (nat i) row @ drop (nat i) new @ drop (length new) row"

definition cache_unfinished_req ::
  "rc_config \<Rightarrow> (nat \<Rightarrow> pyfloat) \<Rightarrow> (nat \<Rightarrow> pyfloat) \<Rightarrow> kv_req \<Rightarrow> radix_cache \<Rightarrow> (radix_cache \<times> kv_req) run"
where
  "cache_unfinished_req cfg tm tm' r c =
     (if disable cfg then ret (c, r)
      else
        let kv = take (length (kr_fill r)) (kr_row r);
            key = kv_request_key cfg (kr_extra r) (kr_fill r); n = length (token_ids key)
        in obind (cache_insert cfg tm key (Some (take n kv)) (Some (kr_priority r)) c) (\<lambda>(c1, prefix_len).
           obind (match_prefix cfg tm' key (free_kv (kv_slice (kr_protected r) prefix_len kv) c1)) (\<lambda>(c2, m).
             let new = device_indices m in
             if length new \<noteq> n then Some (Inl AssertionError)
             else obind (dec_lock_ref cfg (kr_node r) c2) (\<lambda>(c3, d3).
                  obind (inc_lock_ref cfg (last_device_node m) c3) (\<lambda>(c4, d4).
                    ret (c4, r\<lparr>kr_row := write_row (kr_protected r) new (kr_row r), kr_protected := int (length new),
                               kr_prefix := (if length new < length kv then new @ drop (length new) kv else new),
                               kr_node := last_device_node m\<rparr>))))))"

section \<open>Walking along a path that is in the tree\<close>

lemma match_tokens_prefix: "match_tokens as (as @ rest) = int (length as)"
  by (induction as) auto

lemma match_pages_prefix: "0 < p \<Longrightarrow> p dvd length as \<Longrightarrow> match_pages p as (as @ rest) = int (length as)"
proof (induction "length as" arbitrary: as rule: less_induct)
  case less
  show ?case
  proof (cases "as = []")
    case False
    have le: "p \<le> length as" using less.prems False by (auto dest: dvd_imp_le)
    have "match_pages p as (as @ rest) = int p + match_pages p (drop p as) (drop p as @ rest)"
      using less.prems(1) False le by (subst match_pages.simps) simp
    also have "match_pages p (drop p as) (drop p as @ rest) = int (length (drop p as))"
      by (rule less.hyps) (use less.prems False le in auto)
    finally show ?thesis using le by (simp add: of_nat_diff)
  qed simp
qed

lemma key_match_prefix:
  assumes "0 < page_size cfg" and "extra_key k0 = extra_key k1" and "page_size cfg dvd key_len k0"
    and "token_ids k1 = token_ids k0 @ rest"
  shows "key_match (page_size cfg) k0 k1 = Inr (key_len k0)"
proof -
  have "nat (page_size cfg) dvd length (token_ids k0)"
    using assms(1,3) by (metis int_dvd_int_iff int_nat_eq key_len_def order_less_imp_le)
  then show ?thesis
    using assms match_pages_prefix [of "nat (page_size cfg)" "token_ids k0" rest]
    by (simp add: key_match_def key_match_page_size1_def key_match_paged_def check_extra_key_def key_len_def match_tokens_prefix)
qed

lemma next_on_path:
  assumes t: "tree_ok cfg S c" and n: "n \<in> S" "n \<noteq> root_node c" and p: "rparent (heap c n) = Some p"
    and td: "tidy lk cfg ex (heap c n)" and pg: "0 < page_size cfg"
    and key: "token_ids key = token_ids (rkey (heap c n)) @ rest" "extra_key key = ex"
  shows "p \<in> S" and "token_ids key \<noteq> []" and "dget (rchildren (heap c p)) (get_child_key (page_size cfg) key) = Some n"
    and "key_match (page_size cfg) (rkey (heap c n)) key = Inr (key_len (rkey (heap c n)))"
proof -
  obtain v where q: "p \<in> S" "dget (rchildren (heap c p)) (ckey cfg c n) = Some n" "token_ids (rkey (heap c n)) \<noteq> []"
    using tree_ok_nodeD [OF t n] p by (metis option.inject)
  show "p \<in> S" "token_ids key \<noteq> []" using q key by simp_all
  have dv: "page_size cfg dvd key_len (rkey (heap c n))" and ex: "extra_key (rkey (heap c n)) = ex"
    using td by (simp_all add: tidy_def)
  have "0 < key_len (rkey (heap c n))" using q(3) by (simp add: key_len_def)
  then have "page_size cfg \<le> key_len (rkey (heap c n))" using dv by (simp add: zdvd_imp_le)
  then have "nat (page_size cfg) \<le> length (token_ids (rkey (heap c n)))" by (simp add: key_len_def)
  then have "get_child_key (page_size cfg) key = ckey cfg c n"
    using key q(3) ex by (simp add: get_child_key_def)
  then show "dget (rchildren (heap c p)) (get_child_key (page_size cfg) key) = Some n" using q(2) by simp
  show "key_match (page_size cfg) (rkey (heap c n)) key = Inr (key_len (rkey (heap c n)))"
    by (rule key_match_prefix [OF pg _ dv key(1)]) (simp add: key ex)
qed

lemma match_walk:
  assumes "path_ok lk cfg ex c n ts vs" and "tree_ok cfg S c" and "n \<in> S" and "0 < page_size cfg"
    and "token_ids key = ts @ rest" and "extra_key key = ex"
  shows "\<exists>c1 key1. same_tree c c1 \<and> token_ids key1 = rest \<and> extra_key key1 = ex
    \<and> match_loop cfg tm lru key (root_node c) [] c = match_loop cfg tm lru key1 n vs c1"
  using assms
proof (induction arbitrary: rest rule: path_ok.induct)
  case path_root
  then show ?case by (intro exI [of _ c] exI [of _ key]) simp
next
  case (path_step n p ts vs)
  note t = path_step.prems(1) and pg = path_step.prems(3)
  have pS: "p \<in> S" using tree_ok_nodeD [OF t path_step.prems(2) path_step.hyps(1)] path_step.hyps(2) by (metis option.inject)
  obtain c1 key1 where w: "same_tree c c1" "token_ids key1 = token_ids (rkey (heap c n)) @ rest" "extra_key key1 = ex"
    "match_loop cfg tm lru key (root_node c) [] c = match_loop cfg tm lru key1 p vs c1"
    using path_step.IH [OF t pS pg, of "token_ids (rkey (heap c n)) @ rest"] path_step.prems(4,5) by auto
  note f = same_tree_fields [OF w(1)]
  note x = next_on_path [OF t path_step.prems(2) path_step.hyps(1,2,4) pg w(2,3)]
  define c2 where "c2 = add_hit lru n (set_access lru (tm 0) n c1)"
  have s2: "same_tree c c2" unfolding c2_def
    by (rule same_tree_trans [OF same_tree_trans [OF w(1) same_tree_ops(1)] same_tree_ops(2)])
  have "match_loop cfg tm lru key1 p vs c1 =
      match_loop cfg tm lru (key_drop (key_len (rkey (heap c n))) key1) n (vs @ node_values (heap c2 n)) c2"
    using x(2-4) by (subst match_loop.simps) (simp add: f Let_def c2_def set_access_def upd_node_def)
  moreover have "node_values (heap c2 n) = node_values (heap c n)"
    by (simp add: node_values_def same_tree_fields [OF s2])
  moreover have "token_ids (key_drop (key_len (rkey (heap c n))) key1) = rest" "extra_key (key_drop (key_len (rkey (heap c n))) key1) = ex"
    using w(2,3) by (simp_all add: key_drop_def key_len_def)
  ultimately show ?case using s2 w(4) by metis
qed

lemma insert_walk:
  assumes "path_ok lk cfg ex c n ts vs" and "tree_ok cfg S c" and "n \<in> S" and "0 < page_size cfg"
    and "token_ids key = ts @ rest" and "extra_key key = ex"
  shows "\<exists>c1 key1. same_tree c c1 \<and> token_ids key1 = rest \<and> extra_key key1 = ex
    \<and> insert_loop cfg tm pr key vals (root_node c) tot c
      = insert_loop cfg tm pr key1 (drop (length ts) vals) n (tot + int (length ts)) c1"
  using assms
proof (induction arbitrary: rest rule: path_ok.induct)
  case path_root
  then show ?case by (intro exI [of _ c] exI [of _ key]) simp
next
  case (path_step n p ts vs)
  note t = path_step.prems(1) and pg = path_step.prems(3)
  let ?e = "token_ids (rkey (heap c n))"
  have pS: "p \<in> S" using tree_ok_nodeD [OF t path_step.prems(2) path_step.hyps(1)] path_step.hyps(2) by (metis option.inject)
  obtain c1 key1 where w: "same_tree c c1" "token_ids key1 = ?e @ rest" "extra_key key1 = ex"
    "insert_loop cfg tm pr key vals (root_node c) tot c
      = insert_loop cfg tm pr key1 (drop (length ts) vals) p (tot + int (length ts)) c1"
    using path_step.IH [OF t pS pg, of "?e @ rest"] path_step.prems(4,5) by auto
  note f = same_tree_fields [OF w(1)]
  note x = next_on_path [OF t path_step.prems(2) path_step.hyps(1,2,4) pg w(2,3)]
  define c2 where "c2 = raise_priority pr n (upd_node n (\<lambda>x. x\<lparr>last_access_time := tm 0\<rparr>) c1)"
  have s2: "same_tree c c2" unfolding c2_def
    by (rule same_tree_trans [OF same_tree_trans [OF w(1) same_tree_ops(4)] same_tree_ops(3)])
  have "insert_loop cfg tm pr key1 (drop (length ts) vals) p (tot + int (length ts)) c1 =
      insert_loop cfg tm pr (key_drop (key_len (rkey (heap c n))) key1) (drop (length (ts @ ?e)) vals) n
        (tot + int (length (ts @ ?e))) c2"
    using x(2-4) by (subst insert_loop.simps) (simp add: f Let_def c2_def upd_node_def key_len_def ac_simps)
  moreover have "token_ids (key_drop (key_len (rkey (heap c n))) key1) = rest" "extra_key (key_drop (key_len (rkey (heap c n))) key1) = ex"
    using w(2,3) by (simp_all add: key_drop_def key_len_def)
  ultimately show ?case using s2 w(4) by metis
qed

text \<open>An insertion passes every node whose path the key starts with.\<close>

lemma insert_covers:
  assumes pg: "0 < page_size cfg" and ok: "rc_ok cfg S c" and en: "\<not> disable cfg" "bigram cfg = None"
    and h: "path_ok lk cfg (extra_key key) c n ts vs" "n \<in> S" and key: "token_ids key = ts @ rest"
    and lv: "length vals = length (token_ids key)" and run: "cache_insert cfg tm key (Some vals) pr c = ret (c', tot)"
  shows "int (length ts) \<le> tot"
proof (cases "token_ids key = []")
  case True
  then show ?thesis using run en key by (auto simp: cache_insert_def maybe_bigram_convert_def insert_helper_def Let_def ret_def)
next
  case False
  let ?p = "case pr of None \<Rightarrow> 0 | Some p \<Rightarrow> p" and ?r = "root_node c"
  define c1 where "c1 = raise_priority ?p ?r (upd_node ?r (\<lambda>x. x\<lparr>last_access_time := tm 0\<rparr>) c)"
  have s1: "same_tree c c1" unfolding c1_def by (rule same_tree_trans [OF same_tree_ops(4,3)])
  note f1 = same_tree_fields [OF s1]
  have ok1: "rc_ok cfg S c1" using ok by (simp add: rc_ok_same [OF s1])
  then have t1: "tree_ok cfg S c1" by (simp add: rc_ok_def)
  obtain c2 key2 where w: "same_tree c1 c2" "token_ids key2 = rest"
    "insert_loop cfg tm ?p key vals (root_node c1) 0 c1 = insert_loop cfg tm ?p key2 (drop (length ts) vals) n (int (length ts)) c2"
    using insert_walk [OF path_ok_same [OF s1 h(1)] t1 h(2) pg key refl, of tm ?p vals 0] by auto
  have ok2: "rc_ok cfg S c2" using ok1 by (simp add: rc_ok_same [OF w(1)])
  have r2: "reaches c2 n ts vs" by (rule path_ok_reaches [OF path_ok_same [OF w(1) path_ok_same [OF s1 h(1)]]])
  have "length (drop (length ts) vals) = length (token_ids key2)" using lv key w(2) by simp
  from insert_loop_ok [OF pg ok2 h(2) r2 this, of tm ?p "int (length ts)"] obtain c3 key' vals' node' tot' where
    l: "insert_loop cfg tm ?p key2 (drop (length ts) vals) n (int (length ts)) c2 = ret (c3, key', vals', node', tot')"
      "cut_off cfg (int (length ts)) key2 (drop (length ts) vals) tot' key' vals'" by blast
  have "tot' = tot"
    using run en False l(1) w(3) f1(1)
    by (simp add: cache_insert_def maybe_bigram_convert_def insert_helper_def Let_def flip: c1_def) (simp add: ret_def)
  then show ?thesis using l(2) by (simp add: cut_off_def)
qed

text \<open>Two paths of the same key, one the beginning of the other, hold the same indices.\<close>

lemma path_prefix:
  assumes pg: "0 < page_size cfg" and ok: "rc_ok cfg S c"
    and h: "path_ok lk cfg ex c n ts vs" "n \<in> S" and m: "path_ok lk' cfg ex c m (ts @ rest) vs'" "m \<in> S"
  shows "\<exists>more. vs' = vs @ more"
proof -
  define key where "key = \<lparr>token_ids = ts @ rest, extra_key = ex, is_bigram = False\<rparr>"
  have t: "tree_ok cfg S c" using ok by (simp add: rc_ok_def)
  obtain c1 key1 where w: "same_tree c c1" "token_ids key1 = []"
    "match_loop cfg (\<lambda>_. 0) False key (root_node c) [] c = match_loop cfg (\<lambda>_. 0) False key1 m vs' c1"
    using match_walk [OF m(1) t m(2) pg, of key "[]" "\<lambda>_. 0" False] by (auto simp: key_def)
  have e1: "match_loop cfg (\<lambda>_. 0) False key (root_node c) [] c = ret (c1, vs', m)"
    using w(2,3) by (simp add: match_loop.simps [of cfg "\<lambda>_. 0" False key1])
  obtain c2 key2 where v: "same_tree c c2"
    "match_loop cfg (\<lambda>_. 0) False key (root_node c) [] c = match_loop cfg (\<lambda>_. 0) False key2 n vs c2"
    using match_walk [OF h(1) t h(2) pg, of key rest "\<lambda>_. 0" False] by (auto simp: key_def)
  have "rc_ok cfg S c2" using ok by (simp add: rc_ok_same [OF v(1)])
  from match_loop_ok [OF pg this h(2) path_ok_reaches [OF path_ok_same [OF v(1) h(1)]]] obtain c3 node3 vs3
    where "match_loop cfg (\<lambda>_. 0) False key2 n vs c2 = ret (c3, vs3, node3)" "\<exists>more. vs3 = vs @ more"
    unfolding follows_def by blast
  then show ?thesis using e1 v(2) by (simp add: ret_def)
qed

text \<open>Matching a key whose whole path is there finds it and changes no tree.\<close>

lemma match_whole:
  assumes pg: "0 < page_size cfg" and ok: "rc_ok cfg S c" and en: "\<not> disable cfg" "bigram cfg = None"
    and h: "path_ok lk cfg (extra_key key) c n (token_ids key) vs" "n \<in> S" and dv: "page_size cfg dvd key_len key"
  shows "\<exists>c1. match_prefix cfg tm key c = ret (c1, \<lparr>device_indices = vs, last_device_node = n, last_host_node = n\<rparr>)
    \<and> same_tree c c1"
proof (cases "token_ids key = []")
  case True
  have t: "tree_ok cfg S c" using ok by (simp add: rc_ok_def)
  have "n = root_node c \<and> vs = []"
    using h(1)
  proof cases
    case (path_step p ts' vs')
    then show ?thesis using tree_ok_nodeD [OF t h(2) path_step(3)] True by auto
  qed simp
  then show ?thesis
    using True en by (intro exI [of _ c]) (simp add: match_prefix_def match_with_def maybe_bigram_convert_def key_len_def Let_def)
next
  case False
  have whole: "key_len key div page_size cfg * page_size cfg = key_len key" using dv by simp
  have al: "token_ids (page_align cfg key) = token_ids key" "extra_key (page_align cfg key) = extra_key key"
    unfolding page_align_def whole by (simp_all add: key_take_def key_len_def)
  define c0 where "c0 = set_access True (tm 0) (root_node c) c"
  have s0: "same_tree c c0" by (simp add: c0_def)
  have t0: "tree_ok cfg S c0" using ok by (simp add: rc_ok_def tree_ok_same [OF s0])
  obtain c1 key1 where w: "same_tree c0 c1" "token_ids key1 = []"
    "match_loop cfg tm True (page_align cfg key) (root_node c0) [] c0 = match_loop cfg tm True key1 n vs c1"
    using match_walk [OF path_ok_same [OF s0 h(1)] t0 h(2) pg, of "page_align cfg key" "[]" tm True] al by auto
  have "match_loop cfg tm True (page_align cfg key) (root_node c) [] c0 = ret (c1, vs, n)"
    using w(2,3) same_tree_fields(1) [OF s0] by (simp add: match_loop.simps [of cfg tm True key1])
  moreover have "key_len key \<noteq> 0" "key_len (page_align cfg key) \<noteq> 0" using False al(1) by (simp_all add: key_len_def)
  ultimately have "match_prefix cfg tm key c = ret (c1, \<lparr>device_indices = vs, last_device_node = n, last_host_node = n\<rparr>)"
    using en by (simp add: match_prefix_def match_with_def maybe_bigram_convert_def Let_def c0_def)
  then show ?thesis using same_tree_trans [OF s0 w(1)] by blast
qed

section \<open>Locks and the indices held\<close>

lemma path_ok_heap:
  assumes "heap c' = heap c" and "root_node c' = root_node c"
  shows "path_ok lk cfg ex c' = path_ok lk cfg ex c"
proof -
  have i: "path_ok lk cfg ex c n ts vs \<Longrightarrow> path_ok lk cfg ex c' n ts vs"
    if "heap c' = heap c" "root_node c' = root_node c" for c c' n ts vs
  proof (induction rule: path_ok.induct)
    case path_root
    then show ?case using path_ok.path_root [of lk cfg ex c'] that by simp
  next
    case (path_step n p ts vs)
    then show ?case using path_ok.path_step [of n c' p lk cfg ex ts vs] that by simp
  qed
  show ?thesis using i [OF assms] i [OF assms [symmetric]] by (intro ext) blast
qed

lemma free_kv_simps [simp]:
  "heap (free_kv xs c) = heap c" "root_node (free_kv xs c) = root_node c" "counter (free_kv xs c) = counter c"
  "freed (free_kv xs c) = freed c @ xs" "held S (free_kv xs c) = held S c"
  by (simp_all add: free_kv_def held_def)

lemma path_ok_free_kv [simp]: "path_ok lk cfg ex (free_kv xs c) = path_ok lk cfg ex c"
  by (rule path_ok_heap) simp_all

lemma rc_ok_free_kv [simp]: "rc_ok cfg S (free_kv xs c) = rc_ok cfg S c"
  by (simp add: rc_ok_def tree_ok_def acct_ok_def node_ok_def child_ok_def leaf_status_def free_kv_def cong: option.case_cong)

lemma lock_spec_paths:
  assumes "lock_fold_spec f ns (c, d) (c', d')"
  shows "held S c' = held S c" and "freed c' = freed c" and "path_ok False cfg ex c n ts vs \<Longrightarrow> path_ok False cfg ex c' n ts vs"
proof -
  have f: "rparent (heap c' m) = rparent (heap c m)" "rkey (heap c' m) = rkey (heap c m)" "node_values (heap c' m) = node_values (heap c m)"
    for m using assms by (simp_all add: lock_fold_spec_def upd_lock_def node_values_def)
  have r: "root_node c' = root_node c" using assms by (simp add: lock_fold_spec_def)
  show "held S c' = held S c" by (simp add: held_def f)
  show "freed c' = freed c" using assms by (simp add: lock_fold_spec_def)
  show "path_ok False cfg ex c n ts vs \<Longrightarrow> path_ok False cfg ex c' n ts vs"
  proof (induction rule: path_ok.induct)
    case path_root
    then show ?case using path_ok.path_root [of False cfg ex c'] by (simp add: r)
  next
    case (path_step n p ts vs)
    then show ?case using path_ok.path_step [of n c' p False cfg ex ts vs] by (simp add: f r tidy_def)
  qed
qed

lemma path_locked:
  assumes "path_ok True cfg ex c n ts vs" and "up_path c n ns" and "m \<in> set ns"
  shows "0 < lock_ref (heap c m)"
  using assms
proof (induction arbitrary: ns rule: path_ok.induct)
  case path_root
  then show ?case by (cases ns) auto
next
  case (path_step n p ts vs)
  then obtain ms where "ns = n # ms" "up_path c p ms" by (cases ns) auto
  then show ?case using path_step by (auto simp: tidy_def)
qed

lemma path_lock:
  assumes "path_ok False cfg ex c n ts vs" and "up_path c n ns" and "\<And>m. m \<in> set ns \<Longrightarrow> 0 < lock_ref (heap c m)"
  shows "path_ok True cfg ex c n ts vs"
  using assms
proof (induction arbitrary: ns rule: path_ok.induct)
  case path_root
  then show ?case using path_ok.path_root by blast
next
  case (path_step n p ts vs)
  obtain ms where ms: "ns = n # ms" "up_path c p ms" using path_step.prems(1) path_step.hyps(1,2) by (cases ns) auto
  have "path_ok True cfg ex c p ts vs" by (rule path_step.IH [OF ms(2)]) (use path_step.prems(2) ms in simp)
  moreover have "tidy True cfg ex (heap c n)" using path_step.hyps(4) path_step.prems(2) [of n] ms by (simp add: tidy_def)
  ultimately show ?case using path_ok.path_step [OF path_step.hyps(1,2)] by blast
qed

end
