(* ===== verification/Request_Props.thy ===== *)
theory Request_Props
  imports Radix_Request
begin

text \<open>
  The KV memory of a request is neither lost nor freed twice: what the tree holds, what was handed
  back and what the request still owns is the same before and after each of the two operations.
\<close>

text \<open>
  A request whose protected indices are those of a locked path of its key: the path of its node spells
  the first tokens of its page-aligned key and holds the first indices of its row.
\<close>

definition request_tokens :: "rc_config \<Rightarrow> kv_req \<Rightarrow> int list \<Rightarrow> int list" where
  "request_tokens cfg r toks = token_ids (kv_request_key cfg (kr_extra r) toks)"

definition kv_request_ok :: "rc_config \<Rightarrow> nat set \<Rightarrow> radix_cache \<Rightarrow> kv_req \<Rightarrow> int list \<Rightarrow> bool" where
  "kv_request_ok cfg S c r toks \<longleftrightarrow> kr_node r \<in> S \<and> 0 \<le> kr_protected r
     \<and> kr_protected r \<le> int (length (request_tokens cfg r toks)) \<and> length toks \<le> length (kr_row r)
     \<and> path_ok True cfg (kr_extra r) c (kr_node r) (take (nat (kr_protected r)) (request_tokens cfg r toks))
          (take (nat (kr_protected r)) (kr_row r))"

definition owned :: "kv_req \<Rightarrow> int list \<Rightarrow> int multiset" where
  "owned r toks = mset (drop (nat (kr_protected r)) (take (length toks) (kr_row r)))"

lemma kv_request_key_fields:
  assumes "bigram cfg = None" and "0 < page_size cfg"
  shows "extra_key (kv_request_key cfg ex toks) = ex" and "page_size cfg dvd key_len (kv_request_key cfg ex toks)"
    and "token_ids (kv_request_key cfg ex toks) = take (length (token_ids (kv_request_key cfg ex toks))) toks"
    and "length (token_ids (kv_request_key cfg ex toks)) \<le> length toks"
proof -
  have "nat (int (length toks) div page_size cfg * page_size cfg) \<le> length toks"
    using whole_pages_le [OF assms(2), of "int (length toks)"] by (simp add: nat_le_iff)
  moreover have "page_size cfg dvd int (nat (int (length toks) div page_size cfg * page_size cfg))"
    using assms(2) by (simp add: pos_imp_zdiv_nonneg_iff)
  ultimately show "extra_key (kv_request_key cfg ex toks) = ex" "page_size cfg dvd key_len (kv_request_key cfg ex toks)"
    "token_ids (kv_request_key cfg ex toks) = take (length (token_ids (kv_request_key cfg ex toks))) toks"
    "length (token_ids (kv_request_key cfg ex toks)) \<le> length toks"
    using assms by (simp_all add: kv_request_key_def page_align_keys_def key_len_def min_absorb2)
qed

text \<open>The three parts a row is cut into.\<close>

lemma row_parts:
  assumes "0 \<le> p" and "p \<le> tot" and "tot \<le> int n" and "n \<le> length kv"
  shows "mset (drop (nat tot) (take n kv)) + (mset (kv_slice p tot kv) + mset (drop n kv)) = mset (drop (nat p) kv)"
proof -
  have le: "nat p \<le> nat tot" "nat tot \<le> n" using assms by linarith+
  have "drop (nat p) kv = take (nat tot - nat p) (drop (nat p) kv) @ drop (nat tot) kv"
    using append_take_drop_id [of "nat tot - nat p" "drop (nat p) kv"] le by simp
  also have "drop (nat tot) kv = take (n - nat tot) (drop (nat tot) kv) @ drop n kv"
    using append_take_drop_id [of "n - nat tot" "drop (nat tot) kv"] le by simp
  finally have "drop (nat p) kv = kv_slice p tot kv @ drop (nat tot) (take n kv) @ drop n kv"
    by (simp add: kv_slice_def drop_take)
  then show ?thesis by (simp add: ac_simps)
qed

lemma lock_spec_keeps:
  assumes "lock_fold_spec f ns (c, d) (c', d')"
  shows "keeps S c c'"
proof -
  have f: "rparent (heap c' m) = rparent (heap c m)" "rkey (heap c' m) = rkey (heap c m)" "node_values (heap c' m) = node_values (heap c m)"
    for m using assms by (simp_all add: lock_fold_spec_def upd_lock_def node_values_def)
  have r: "root_node c' = root_node c" using assms by (simp add: lock_fold_spec_def)
  have "reaches c n ts vs \<Longrightarrow> reaches c' n ts vs" for n ts vs
  proof (induction rule: reaches.induct)
    case reaches_root
    then show ?case using reaches.reaches_root [of c'] by (simp add: r)
  next
    case (reaches_step n p ts vs)
    then show ?case using reaches.reaches_step [of n c' p ts vs] by (simp add: f r)
  qed
  then show ?thesis by (simp add: keeps_def)
qed

lemma keeps_heap:
  assumes "heap c' = heap c" and "root_node c' = root_node c"
  shows "keeps S c c'"
proof -
  have "reaches c n ts vs \<Longrightarrow> reaches c' n ts vs" for n ts vs
  proof (induction rule: reaches.induct)
    case reaches_root
    then show ?case using reaches.reaches_root [of c'] assms by simp
  next
    case (reaches_step n p ts vs)
    then show ?case using reaches.reaches_step [of n c' p ts vs] assms by simp
  qed
  then show ?thesis by (simp add: keeps_def)
qed

text \<open>Inserting the request's key and giving back what the tree had already.\<close>

lemma request_insert:
  fixes r :: kv_req
  assumes pg: "0 < page_size cfg" and ok: "rc_ok cfg S c" and en: "\<not> disable cfg" "bigram cfg = None"
    and r: "kv_request_ok cfg S c r toks"
  obtains c1 tot S1 n vs where
    "cache_insert cfg tm (kv_request_key cfg (kr_extra r) toks)
       (Some (take (length (request_tokens cfg r toks)) (take (length toks) (kr_row r)))) (Some pr) c = ret (c1, tot)"
    and "S \<subseteq> S1" and "rc_ok cfg S1 c1" and "keeps S c c1" and "keeps_paths cfg S c c1"
    and "\<forall>m \<in> S. lock_ref (heap c1 m) = lock_ref (heap c m)" and "n \<in> S1"
    and "path_ok False cfg (kr_extra r) c1 n (request_tokens cfg r toks) vs" and "freed c1 = freed c"
    and "kr_protected r \<le> tot" and "tot \<le> int (length (request_tokens cfg r toks))"
    and "held S1 c1 = held S c + mset (drop (nat tot) (take (length (request_tokens cfg r toks)) (take (length toks) (kr_row r))))"
    and "keeps_locks S c S1 c1"
proof -
  let ?key = "kv_request_key cfg (kr_extra r) toks" and ?keys = "request_tokens cfg r toks"
  let ?v = "take (length ?keys) (take (length toks) (kr_row r))"
  note k = kv_request_key_fields [OF en(2) pg, of "kr_extra r" toks]
  have lv: "length ?v = length (token_ids ?key)"
    using k(4) r by (simp add: kv_request_ok_def request_tokens_def)
  obtain c1 tot S1 n vs where I: "cache_insert cfg tm ?key (Some ?v) (Some pr) c = ret (c1, tot)" "S \<subseteq> S1" "rc_ok cfg S1 c1"
    "keeps S c c1" "n \<in> S1" "insert_adds cfg S c ?key ?v S1 c1 tot n vs"
    using cache_insert_inserted [OF pg ok en, of "Some ?v" ?key tm "Some pr"] lv by auto
  have h: "path_ok True cfg (extra_key ?key) c (kr_node r) (take (nat (kr_protected r)) ?keys) (take (nat (kr_protected r)) (kr_row r))"
    "kr_node r \<in> S" using r by (simp_all add: kv_request_ok_def k(1))
  have "int (length (take (nat (kr_protected r)) ?keys)) \<le> tot"
    by (rule insert_covers [OF pg ok en h, of "drop (nat (kr_protected r)) ?keys", OF _ lv I(1)]) (simp add: request_tokens_def)
  then have "kr_protected r \<le> tot" using r by (auto simp: kv_request_ok_def min_def split: if_splits)
  then show ?thesis
    using that [OF I(1-4), of n vs] I(5,6) k(1,2) by (simp add: insert_adds_def request_tokens_def key_len_def)
qed

text \<open>Paths of other requests stay, whatever becomes of the locks.\<close>

definition paths_stay :: "rc_config \<Rightarrow> nat set \<Rightarrow> radix_cache \<Rightarrow> radix_cache \<Rightarrow> bool" where
  "paths_stay cfg S c c' \<longleftrightarrow>
     (\<forall>ex. \<forall>n \<in> S. \<forall>ts vs. path_ok False cfg ex c n ts vs \<longrightarrow> path_ok False cfg ex c' n ts vs)"

lemma paths_stay_trans: "paths_stay cfg S c c1 \<Longrightarrow> paths_stay cfg S1 c1 c' \<Longrightarrow> S \<subseteq> S1 \<Longrightarrow> paths_stay cfg S c c'"
  by (auto simp: paths_stay_def)

lemma keeps_paths_stay: "keeps_paths cfg S c c' \<Longrightarrow> paths_stay cfg S c c'"
  by (simp add: keeps_paths_def paths_stay_def)

lemma lock_spec_stay: "lock_fold_spec f ns (c, d) (c', d') \<Longrightarrow> paths_stay cfg S c c'"
  using lock_spec_paths(3) by (auto simp: paths_stay_def)

lemma keeps_locks_free_kv: "keeps_locks S c S' (free_kv xs c') = keeps_locks S c S' c'"
proof -
  have "same_shape c' (free_kv xs c')" by (simp add: same_shape_def)
  then show ?thesis by (simp add: keeps_locks_def locks_ok_def holders_shape)
qed

section \<open>A request that is finished\<close>

lemma cache_finished_ok:
  assumes pg: "0 < page_size cfg" and ok: "rc_ok cfg S c" and en: "\<not> disable cfg" "bigram cfg = None"
    and r: "kv_request_ok cfg S c r (finished_tokens r)"
  shows "\<exists>c' S' ns. cache_finished_req cfg disable_insert tm is_insert r c = ret c' \<and> S \<subseteq> S' \<and> rc_ok cfg S' c' \<and> keeps S c c'
    \<and> held S' c' + mset (freed c') = held S c + mset (freed c) + owned r (finished_tokens r)
    \<and> (is_insert \<and> \<not> disable_insert \<longrightarrow> (\<exists>n \<in> S'. \<exists>vs. reaches c' n (request_tokens cfg r (finished_tokens r)) vs))
    \<and> up_path c' (kr_node r) ns \<and> (\<forall>m \<in> S. lock_ref (heap c' m) = lock_ref (heap c m) - (if m \<in> set ns then 1 else 0))
    \<and> paths_stay cfg S c c' \<and> (\<forall>A. locks_ok S c (add_mset (kr_node r) A) \<longrightarrow> locks_ok S' c' A)"
proof -
  let ?toks = "finished_tokens r"
  let ?kv = "take (length ?toks) (kr_row r)" and ?key = "kv_request_key cfg (kr_extra r) ?toks" and ?keys = "request_tokens cfg r ?toks"
  define mid where "mid = (if is_insert \<and> \<not> disable_insert
      then obind (cache_insert cfg tm ?key (Some (take (length ?keys) ?kv)) (Some (kr_priority r)) c)
        (\<lambda>(c1, prefix_len). ret (free_kv (kv_slice (kr_protected r) prefix_len ?kv) c1))
      else ret (free_kv (kv_slice (kr_protected r) (int (length ?keys)) ?kv) c))"
  have run: "cache_finished_req cfg disable_insert tm is_insert r c =
      obind mid (\<lambda>c2. obind (dec_lock_ref cfg (kr_node r) (free_kv (drop (length ?keys) ?kv) c2)) (\<lambda>(c3, delta). ret c3))"
    using en(1) by (simp add: cache_finished_req_def mid_def request_tokens_def Let_def)
  note k = kv_request_key_fields [OF en(2) pg, of "kr_extra r" ?toks]
  have h: "kr_node r \<in> S" "0 \<le> kr_protected r" "kr_protected r \<le> int (length ?keys)"
    and path: "path_ok True cfg (kr_extra r) c (kr_node r) (take (nat (kr_protected r)) ?keys) (take (nat (kr_protected r)) (kr_row r))"
    and len: "length ?keys \<le> length ?kv"
    using r k(4) by (simp_all add: kv_request_ok_def request_tokens_def)
  obtain c2 S2 where M: "mid = ret c2" "S \<subseteq> S2" "rc_ok cfg S2 c2" "keeps S c c2" "keeps_paths cfg S c c2"
    "\<forall>m \<in> S. lock_ref (heap c2 m) = lock_ref (heap c m)"
    "held S2 c2 + mset (freed c2) + mset (drop (length ?keys) ?kv) = held S c + mset (freed c) + owned r ?toks"
    "is_insert \<and> \<not> disable_insert \<longrightarrow> (\<exists>n \<in> S2. \<exists>vs. reaches c2 n ?keys vs)" "keeps_locks S c S2 c2"
  proof (cases "is_insert \<and> \<not> disable_insert")
    case True
    obtain c1 tot S1 n vs where I:
      "cache_insert cfg tm ?key (Some (take (length ?keys) ?kv)) (Some (kr_priority r)) c = ret (c1, tot)" "S \<subseteq> S1"
      "rc_ok cfg S1 c1" "keeps S c c1" "keeps_paths cfg S c c1" "\<forall>m \<in> S. lock_ref (heap c1 m) = lock_ref (heap c m)" "n \<in> S1"
      "path_ok False cfg (kr_extra r) c1 n ?keys vs" "freed c1 = freed c" "kr_protected r \<le> tot" "tot \<le> int (length ?keys)"
      "held S1 c1 = held S c + mset (drop (nat tot) (take (length ?keys) ?kv))" "keeps_locks S c S1 c1"
      by (rule request_insert [OF pg ok en r])
    let ?c = "free_kv (kv_slice (kr_protected r) tot ?kv) c1"
    have "mid = ret ?c" using True I(1) by (simp add: mid_def)
    moreover have "keeps S c ?c" by (rule keeps_trans [OF I(4) keeps_heap I(2)]) simp_all
    moreover have "keeps_paths cfg S c ?c" using I(5) by (simp add: keeps_paths_def)
    moreover have "held S1 ?c + mset (freed ?c) + mset (drop (length ?keys) ?kv) = held S c + mset (freed c) + owned r ?toks"
      using row_parts [OF h(2) I(10,11) len] by (simp add: I(9,12) owned_def ac_simps)
    moreover have "reaches ?c n ?keys vs" using path_ok_reaches [of False cfg "kr_extra r" ?c n ?keys vs] I(8) by simp
    moreover have "keeps_locks S c S1 ?c" using I(13) by (simp add: keeps_locks_free_kv)
    ultimately show ?thesis using that [of ?c S1] I(2,3,6,7) by auto
  next
    case False
    let ?c = "free_kv (kv_slice (kr_protected r) (int (length ?keys)) ?kv) c"
    have "mid = ret ?c" using False by (simp only: mid_def if_False)
    moreover have "keeps S c ?c" by (rule keeps_heap) simp_all
    moreover have "keeps_paths cfg S c ?c" by (simp add: keeps_paths_def)
    moreover have "held S ?c + mset (freed ?c) + mset (drop (length ?keys) ?kv) = held S c + mset (freed c) + owned r ?toks"
      using row_parts [OF h(2,3) order_refl len] by (simp add: owned_def ac_simps)
    moreover have "keeps_locks S c S ?c" by (simp add: keeps_locks_free_kv) (simp add: keeps_locks_def)
    ultimately show ?thesis using that [of ?c S] ok False by auto
  qed
  let ?c = "free_kv (drop (length ?keys) ?kv) c2"
  have ok2: "rc_ok cfg S2 ?c" using M(3) by simp
  then have ta: "tree_ok cfg S2 ?c" "acct_ok S2 ?c" by (simp_all add: rc_ok_def)
  have nS: "kr_node r \<in> S2" using h(1) M(2) by blast
  obtain ns where ns: "up_path ?c (kr_node r) ns" "set ns \<subseteq> S2" using infinite_descent_depth [OF ta(1) nS] by blast
  have path2: "path_ok True cfg (kr_extra r) ?c (kr_node r) (take (nat (kr_protected r)) ?keys) (take (nat (kr_protected r)) (kr_row r))"
    using path h(1) M(5) by (simp add: keeps_paths_def)
  obtain c3 delta where U: "dec_lock_ref cfg (kr_node r) ?c = ret (c3, delta)"
    "lock_fold_spec (\<lambda>i. i - 1) ns (?c, 0) (c3, delta)" "tree_ok cfg S2 c3" "acct_ok S2 c3"
    by (rule unlock_walk [OF ta en(1) ns path_locked [OF path2 ns(1)]])
  have "cache_finished_req cfg disable_insert tm is_insert r c = ret c3" by (simp add: run M(1) U(1))
  moreover have K2: "keeps S2 c2 c3"
    by (rule keeps_trans [OF keeps_heap lock_spec_keeps [OF U(2)] subset_refl]) simp_all
  moreover have "keeps S c c3" by (rule keeps_trans [OF M(4) K2 M(2)])
  moreover have "held S2 c3 + mset (freed c3) = held S c + mset (freed c) + owned r ?toks"
    using lock_spec_paths(1,2) [OF U(2)] M(7) by (simp add: ac_simps)
  moreover have "is_insert \<and> \<not> disable_insert \<longrightarrow> (\<exists>n \<in> S2. \<exists>vs. reaches c3 n ?keys vs)"
    using M(8) K2 by (auto simp: keeps_def) blast
  moreover have "up_path c3 (kr_node r) ns" using ns(1) up_path_same_shape [OF lock_spec_shape [OF U(2)]] by simp
  moreover have "lock_ref (heap c3 m) = lock_ref (heap c m) - (if m \<in> set ns then 1 else 0)" if "m \<in> S" for m
    using U(2) M(6) that by (simp add: lock_fold_spec_def upd_lock_def)
  moreover have "rc_ok cfg S2 c3" using U(3,4) by (simp add: rc_ok_def)
  moreover have "paths_stay cfg S c c3"
    by (rule paths_stay_trans [OF keeps_paths_stay lock_spec_stay [OF U(2)] subset_refl]) (use M(5) in \<open>simp add: keeps_paths_def\<close>)
  moreover have "locks_ok S2 c3 A" if "locks_ok S c (add_mset (kr_node r) A)" for A
    by (rule locks_ok_unlock [OF ta(1) _ ns(1) U(2)])
      (use M(9) that keeps_locks_free_kv [of S c S2 "drop (length ?keys) ?kv" c2] in \<open>simp add: keeps_locks_def\<close>)
  ultimately show ?thesis using M(2)
    by (intro exI [of _ c3] exI [of _ S2] exI [of _ ns]) blast
qed

text \<open>
  C8: \<open>cache_finished_req\<close> on a well-formed tree, for a request that holds the lock of its node's
  path: it raises nothing; every KV index the request owned is afterwards either in the tree or handed
  back to the allocator, exactly once, and no index of the tree is handed back; the tree keeps its
  invariants and all it held, and with insertion on it holds the request's whole page-aligned key; the
  locks of exactly the node's path go down by one, so the locks of all other requests stay exact; the
  paths of other requests stay what they were.
\<close>

theorem cache_finished_correct:
  assumes pg: "0 < page_size cfg" and ok: "rc_ok cfg S c" and en: "\<not> disable cfg" "bigram cfg = None"
    and r: "kv_request_ok cfg S c r (finished_tokens r)"
  shows "\<exists>c' S' ns. cache_finished_req cfg disable_insert tm is_insert r c = ret c' \<and> S \<subseteq> S' \<and> rc_ok cfg S' c' \<and> keeps S c c'
    \<and> held S' c' + mset (freed c') = held S c + mset (freed c) + owned r (finished_tokens r)
    \<and> (is_insert \<and> \<not> disable_insert \<longrightarrow> (\<exists>n \<in> S'. \<exists>vs. reaches c' n (request_tokens cfg r (finished_tokens r)) vs))
    \<and> up_path c' (kr_node r) ns \<and> (\<forall>m \<in> S. lock_ref (heap c' m) = lock_ref (heap c m) - (if m \<in> set ns then 1 else 0))
    \<and> paths_stay cfg S c c' \<and> (\<forall>A. locks_ok S c (add_mset (kr_node r) A) \<longrightarrow> locks_ok S' c' A)"
  by (rule cache_finished_ok [OF assms])

definition demo_kv :: kv_req where
  "demo_kv = \<lparr>kr_input = [1, 2, 3], kr_output = [4], kr_fill = [1, 2, 3, 4], kr_row = [10, 11, 12, 13, 0], kr_extra = None,
     kr_priority = 0, kr_protected = 0, kr_committed = 4, kr_node = root_node (cache_init (\<lambda>_. 0)), kr_prefix = []\<rparr>"

lemma demo_kv_ok:
  "kv_request_ok sim_config {root_node (cache_init (\<lambda>_. 0))} (cache_init (\<lambda>_. 0)) demo_kv [1, 2, 3, 4]"
  using path_root [of True sim_config None "cache_init (\<lambda>_. 0)"] by (simp add: kv_request_ok_def demo_kv_def)

lemma demo_cache_empty: "held {root_node (cache_init (\<lambda>_. 0))} (cache_init (\<lambda>_. 0)) = {#}" "freed (cache_init (\<lambda>_. 0)) = []"
  by (simp_all add: held_def cache_init_def cache_reset_def Let_def alloc_node_def new_tree_node_def node_values_def)

theorem cache_finished_correct_witness:
  "\<exists>c' S'. cache_finished_req sim_config False (\<lambda>_. 0) True demo_kv (cache_init (\<lambda>_. 0)) = ret c'
     \<and> rc_ok sim_config S' c' \<and> held S' c' + mset (freed c') = {#10, 11, 12, 13#}"
proof -
  have cfg: "0 < page_size sim_config" "\<not> disable sim_config" "bigram sim_config = None" by (simp_all add: sim_config_def)
  have t: "finished_tokens demo_kv = [1, 2, 3, 4]" by (simp add: finished_tokens_def demo_kv_def)
  have "owned demo_kv [1, 2, 3, 4] = {#10, 11, 12, 13#}" by (simp add: owned_def demo_kv_def)
  moreover obtain c' S' where
    "cache_finished_req sim_config False (\<lambda>_. 0) True demo_kv (cache_init (\<lambda>_. 0)) = ret c'" "rc_ok sim_config S' c'"
    "held S' c' + mset (freed c') = owned demo_kv [1, 2, 3, 4]"
    using cache_finished_correct [OF cfg(1) rc_ok_init cfg(2,3), of "\<lambda>_. 0" demo_kv False "\<lambda>_. 0" True] demo_kv_ok
    by (auto simp: t demo_cache_empty)
  ultimately show ?thesis by auto
qed

section \<open>A request between two chunks\<close>

lemma take_write_row:
  assumes "take (nat p) new = take (nat p) row" and "nat p \<le> length new" and "length new \<le> n" and "n \<le> length row"
  shows "take n (write_row p new row) = new @ drop (length new) (take n row)"
proof -
  have "write_row p new row = new @ drop (length new) row"
    using append_take_drop_id [of "nat p" new] assms(1) by (simp add: write_row_def flip: append_assoc)
  then show ?thesis using assms(3) by (simp add: drop_take)
qed

lemma cache_unfinished_ok:
  assumes pg: "0 < page_size cfg" and ok: "rc_ok cfg S c" and en: "\<not> disable cfg" "bigram cfg = None"
    and r: "kv_request_ok cfg S c r (kr_fill r)"
  shows "\<exists>c' S' r'. cache_unfinished_req cfg tm tm' r c = ret (c', r') \<and> S \<subseteq> S' \<and> rc_ok cfg S' c' \<and> keeps S c c'
    \<and> held S' c' + mset (freed c') + owned r' (kr_fill r') = held S c + mset (freed c) + owned r (kr_fill r)
    \<and> kv_request_ok cfg S' c' r' (kr_fill r') \<and> kr_fill r' = kr_fill r
    \<and> kr_protected r' = int (length (request_tokens cfg r (kr_fill r)))
    \<and> kr_prefix r' = take (length (kr_fill r)) (kr_row r')
    \<and> paths_stay cfg S c c' \<and> kr_input r' = kr_input r \<and> kr_output r' = kr_output r \<and> kr_committed r' = kr_committed r
    \<and> (\<forall>A. locks_ok S c (add_mset (kr_node r) A) \<longrightarrow> locks_ok S' c' (add_mset (kr_node r') A))"
proof -
  let ?toks = "kr_fill r"
  let ?kv = "take (length ?toks) (kr_row r)" and ?key = "kv_request_key cfg (kr_extra r) ?toks" and ?keys = "request_tokens cfg r ?toks"
  note k = kv_request_key_fields [OF en(2) pg, of "kr_extra r" ?toks]
  have h: "kr_node r \<in> S" "0 \<le> kr_protected r" "kr_protected r \<le> int (length ?keys)" "length ?toks \<le> length (kr_row r)"
    and path: "path_ok True cfg (kr_extra r) c (kr_node r) (take (nat (kr_protected r)) ?keys) (take (nat (kr_protected r)) (kr_row r))"
    and len: "length ?keys \<le> length ?toks"
    using r k(4) by (simp_all add: kv_request_ok_def request_tokens_def)
  obtain c1 tot S1 n vs where I:
    "cache_insert cfg tm ?key (Some (take (length ?keys) ?kv)) (Some (kr_priority r)) c = ret (c1, tot)" "S \<subseteq> S1"
    "rc_ok cfg S1 c1" "keeps S c c1" "keeps_paths cfg S c c1" "\<forall>m \<in> S. lock_ref (heap c1 m) = lock_ref (heap c m)" "n \<in> S1"
    "path_ok False cfg (kr_extra r) c1 n ?keys vs" "freed c1 = freed c" "kr_protected r \<le> tot" "tot \<le> int (length ?keys)"
    "held S1 c1 = held S c + mset (drop (nat tot) (take (length ?keys) ?kv))" "keeps_locks S c S1 c1"
    by (rule request_insert [OF pg ok en r])
  let ?c = "free_kv (kv_slice (kr_protected r) tot ?kv) c1"
  have okf: "rc_ok cfg S1 ?c" using I(3) by simp
  have pf: "path_ok False cfg (extra_key ?key) ?c n (token_ids ?key) vs" using I(8) by (simp add: k(1) request_tokens_def)
  obtain c2 where M: "match_prefix cfg tm' ?key ?c = ret (c2, \<lparr>device_indices = vs, last_device_node = n, last_host_node = n\<rparr>)"
    "same_tree ?c c2"
    using match_whole [OF pg okf en pf I(7) k(2), of tm'] by blast
  have ok2: "rc_ok cfg S1 c2" using okf by (simp add: rc_ok_same [OF M(2)])
  then have ta2: "tree_ok cfg S1 c2" "acct_ok S1 c2" by (simp_all add: rc_ok_def)
  have p2: "path_ok True cfg (kr_extra r) c2 (kr_node r) (take (nat (kr_protected r)) ?keys) (take (nat (kr_protected r)) (kr_row r))"
    by (rule path_ok_same [OF M(2)]) (use path h(1) I(5) in \<open>simp add: keeps_paths_def\<close>)
  have f2: "path_ok False cfg (kr_extra r) c2 n ?keys vs"
    using path_ok_same [OF M(2) pf] by (simp add: k(1) request_tokens_def)
  have lv: "length vs = length ?keys"
    using reaches_depth [OF ta2(1) path_ok_reaches [OF f2] I(7)] by simp
  have nS: "kr_node r \<in> S1" using h(1) I(2) by blast
  obtain more where "vs = take (nat (kr_protected r)) (kr_row r) @ more"
    using path_prefix [OF pg ok2 p2 nS, of False n "drop (nat (kr_protected r)) ?keys" vs] f2 I(7) by auto
  moreover have "nat (kr_protected r) \<le> length (kr_row r)" using h(3,4) len by linarith
  ultimately have pre: "take (nat (kr_protected r)) vs = take (nat (kr_protected r)) (kr_row r)" by simp
  obtain ns where ns: "up_path c2 (kr_node r) ns" "set ns \<subseteq> S1" using infinite_descent_depth [OF ta2(1) nS] by blast
  obtain c3 d3 where U: "dec_lock_ref cfg (kr_node r) c2 = ret (c3, d3)"
    "lock_fold_spec (\<lambda>i. i - 1) ns (c2, 0) (c3, d3)" "tree_ok cfg S1 c3" "acct_ok S1 c3"
    by (rule unlock_walk [OF ta2 en(1) ns path_locked [OF p2 ns(1)]])
  obtain ms c4 d4 where L: "up_path c3 n ms" "set ms \<subseteq> S1" "inc_lock_ref cfg n c3 = ret (c4, d4)"
    "lock_fold_spec (\<lambda>i. i + 1) ms (c3, 0) (c4, d4)" "tree_ok cfg S1 c4" "acct_ok S1 c4"
    by (rule lock_walk [OF U(3,4) I(7) en(1)])
  let ?row = "write_row (kr_protected r) vs (kr_row r)"
  let ?r = "r\<lparr>kr_row := ?row, kr_protected := int (length vs),
    kr_prefix := (if length vs < length ?kv then vs @ drop (length vs) ?kv else vs), kr_node := n\<rparr>"
  have run: "cache_unfinished_req cfg tm tm' r c = ret (c4, ?r)"
    using en(1) I(1) M(1) U(1) L(3) lv by (simp add: cache_unfinished_req_def request_tokens_def Let_def del: length_take)
  have row: "take (length ?toks) ?row = vs @ drop (length vs) ?kv"
    by (rule take_write_row [OF pre]) (use h len lv in \<open>simp_all add: nat_le_iff\<close>)
  have "path_ok False cfg (kr_extra r) c4 n ?keys vs"
    by (rule lock_spec_paths(3) [OF L(4) lock_spec_paths(3) [OF U(2) f2]])
  moreover have "up_path c4 n ms" using L(1) up_path_same_shape [OF lock_spec_shape [OF L(4)]] by simp
  moreover have "0 < lock_ref (heap c4 m)" if "m \<in> set ms" for m
  proof -
    have "0 \<le> lock_ref (heap c3 m)" using U(4) L(2) that unfolding acct_ok_def by blast
    then show ?thesis using that L(4) by (simp add: lock_fold_spec_def upd_lock_def)
  qed
  ultimately have p4: "path_ok True cfg (kr_extra r) c4 n ?keys vs" by (rule path_lock)
  have "take (length vs) ?row = vs"
  proof -
    have "take (length vs) (take (length ?toks) ?row) = vs" unfolding row by simp
    then show ?thesis using lv len by (simp add: min_def)
  qed
  moreover have "length ?toks \<le> length ?row"
    using arg_cong [OF row, of length] lv len h(4) by simp
  ultimately have "kv_request_ok cfg S1 c4 ?r (kr_fill ?r)"
    using p4 I(7) lv by (simp add: kv_request_ok_def request_tokens_def)
  moreover have "kr_prefix ?r = take (length ?toks) (kr_row ?r)" using row lv len h(4) by simp
  moreover have "owned ?r (kr_fill ?r) = mset (drop (length ?keys) ?kv)" using row lv by (simp add: owned_def)
  then have "held S1 c4 + mset (freed c4) + owned ?r (kr_fill ?r) = held S c + mset (freed c) + owned r (kr_fill r)"
    using row_parts [OF h(2) I(10,11), of ?kv] len h(4) lock_spec_paths(1,2) [OF L(4)] lock_spec_paths(1,2) [OF U(2)]
      carries_same [OF M(2), of cfg S1]
    by (simp add: carries_def I(9,12) owned_def ac_simps)
  moreover have "keeps S1 c1 c4"
    by (rule keeps_trans [OF keeps_trans [OF keeps_trans [OF keeps_heap keeps_same [OF M(2)] subset_refl]
          lock_spec_keeps [OF U(2)] subset_refl] lock_spec_keeps [OF L(4)] subset_refl]) simp_all
  then have "keeps S c c4" by (rule keeps_trans [OF I(4) _ I(2)])
  moreover have "rc_ok cfg S1 c4" using L(5,6) by (simp add: rc_ok_def)
  moreover have "kr_fill ?r = kr_fill r" "kr_protected ?r = int (length ?keys)" using lv by simp_all
  moreover have "paths_stay cfg S1 c1 c2" using carries_same [OF M(2), of cfg S1] by (simp add: carries_def keeps_paths_def paths_stay_def)
  then have "paths_stay cfg S1 c1 c4"
    by (rule paths_stay_trans [OF paths_stay_trans [OF _ lock_spec_stay [OF U(2)] subset_refl] lock_spec_stay [OF L(4)] subset_refl])
  then have "paths_stay cfg S c c4" by (rule paths_stay_trans [OF keeps_paths_stay [OF I(5)] _ I(2)])
  moreover have "locks_ok S1 c4 (add_mset n A)" if "locks_ok S c (add_mset (kr_node r) A)" for A
  proof (rule locks_ok_lock [OF U(3) locks_ok_unlock [OF ta2(1) _ ns(1) U(2)] I(7) L(1,4)])
    have "keeps_locks S c S1 ?c" using I(13) by (simp add: keeps_locks_free_kv)
    then show "locks_ok S1 c2 (add_mset (kr_node r) A)"
      using that keeps_locks_same [OF M(2)] by (simp add: keeps_locks_def)
  qed
  ultimately show ?thesis using run I(2)
    by (intro exI [of _ c4] exI [of _ S1] exI [of _ ?r]) simp
qed

text \<open>
  C9: \<open>cache_unfinished_req\<close> on a well-formed tree, for a request that holds the lock of its node's
  path: it raises nothing, its assertion included; every KV index is afterwards held by the tree,
  handed back, or still owned by the request, exactly once; and the request stands as before: its lock
  has moved to the node of its whole page-aligned key, its row begins with the indices the tree holds
  for that key, and the partial page behind them stays its own. The paths of other requests stay what
  they were, and the locks stay exactly those of the requests.
\<close>

theorem cache_unfinished_correct:
  assumes pg: "0 < page_size cfg" and ok: "rc_ok cfg S c" and en: "\<not> disable cfg" "bigram cfg = None"
    and r: "kv_request_ok cfg S c r (kr_fill r)"
  shows "\<exists>c' S' r'. cache_unfinished_req cfg tm tm' r c = ret (c', r') \<and> S \<subseteq> S' \<and> rc_ok cfg S' c' \<and> keeps S c c'
    \<and> held S' c' + mset (freed c') + owned r' (kr_fill r') = held S c + mset (freed c) + owned r (kr_fill r)
    \<and> kv_request_ok cfg S' c' r' (kr_fill r') \<and> kr_fill r' = kr_fill r
    \<and> kr_protected r' = int (length (request_tokens cfg r (kr_fill r)))
    \<and> kr_prefix r' = take (length (kr_fill r)) (kr_row r')
    \<and> paths_stay cfg S c c' \<and> kr_input r' = kr_input r \<and> kr_output r' = kr_output r \<and> kr_committed r' = kr_committed r
    \<and> (\<forall>A. locks_ok S c (add_mset (kr_node r) A) \<longrightarrow> locks_ok S' c' (add_mset (kr_node r') A))"
  by (rule cache_unfinished_ok [OF assms])

theorem cache_unfinished_correct_witness:
  "\<exists>c' S' r'. cache_unfinished_req sim_config (\<lambda>_. 0) (\<lambda>_. 0) demo_kv (cache_init (\<lambda>_. 0)) = ret (c', r')
     \<and> rc_ok sim_config S' c' \<and> held S' c' + mset (freed c') + owned r' [1, 2, 3, 4] = {#10, 11, 12, 13#} \<and> kr_protected r' = 4"
proof -
  have cfg: "0 < page_size sim_config" "\<not> disable sim_config" "bigram sim_config = None" by (simp_all add: sim_config_def)
  have t: "kr_fill demo_kv = [1, 2, 3, 4]" by (simp add: demo_kv_def)
  have o: "owned demo_kv [1, 2, 3, 4] = {#10, 11, 12, 13#}" by (simp add: owned_def demo_kv_def)
  have n: "length (request_tokens sim_config demo_kv [1, 2, 3, 4]) = 4"
    by (simp add: request_tokens_def kv_request_key_def page_align_keys_def sim_config_def)
  from cache_unfinished_correct [OF cfg(1) rc_ok_init cfg(2,3), of "\<lambda>_. 0" demo_kv "\<lambda>_. 0" "\<lambda>_. 0", unfolded t, OF demo_kv_ok]
  obtain c' S' r' where "cache_unfinished_req sim_config (\<lambda>_. 0) (\<lambda>_. 0) demo_kv (cache_init (\<lambda>_. 0)) = ret (c', r')"
    "rc_ok sim_config S' c'" "held S' c' + mset (freed c') + owned r' (kr_fill r') = {#10, 11, 12, 13#}"
    "kr_fill r' = [1, 2, 3, 4]" "kr_protected r' = 4"
    by (auto simp: demo_cache_empty o n)
  then show ?thesis by auto
qed

end
