(* ===== verification/Kv_Lifecycle.thy ===== *)
theory Kv_Lifecycle
  imports Request_Props Radix_Evict
begin

text \<open>
  The life of the KV memory under any interleaving of requests: the radix cache, the live requests and
  the allocator's free indices as one state, and a step for every operation of
  \<open>src/python/peek/offline/sglang_patches/patched_files/radix_cache.py\<close> that moves indices between
  them. What the engine does between those calls (the row of a new request starts with the matched
  indices and goes on with indices taken from the free ones) is SGLang's and is stated by the steps.
\<close>

section \<open>The state and its steps\<close>

text \<open>
  A live request's \<open>kr_fill\<close> are the tokens whose KV is in its row. The indices an operation hands back
  are free again at once.
\<close>

record kv_world =
  kw_cache :: radix_cache
  kw_live :: "kv_req list"
  kw_free :: "int multiset"

definition settle :: "kv_world \<Rightarrow> radix_cache \<Rightarrow> kv_req list \<Rightarrow> kv_world" where
  "settle w c live = \<lparr>kw_cache = c\<lparr>freed := []\<rparr>, kw_live = live, kw_free = kw_free w + mset (freed c)\<rparr>"

definition match_key :: "string option \<Rightarrow> int list \<Rightarrow> radix_key" where
  "match_key ex toks = \<lparr>token_ids = toks, extra_key = ex, is_bigram = False\<rparr>"

text \<open>A request as it is admitted: the matched indices, then its own.\<close>

definition admitted :: "kv_req \<Rightarrow> match_result \<Rightarrow> int list \<Rightarrow> kv_req" where
  "admitted r m new = r\<lparr>kr_row := device_indices m @ new, kr_protected := int (length (device_indices m)),
     kr_node := last_device_node m, kr_prefix := device_indices m\<rparr>"

definition with_tokens :: "kv_req \<Rightarrow> int list \<Rightarrow> int list \<Rightarrow> int list \<Rightarrow> kv_req" where
  "with_tokens r out toks row = r\<lparr>kr_output := out, kr_fill := toks, kr_committed := int (length toks), kr_row := row\<rparr>"

inductive kv_step :: "rc_config \<Rightarrow> kv_world \<Rightarrow> kv_world \<Rightarrow> bool" for cfg where
  kv_look: "match_with lru cfg tm key (kw_cache w) = ret (c, m) \<Longrightarrow> kv_step cfg w (settle w c (kw_live w))"
| kv_start: "match_prefix cfg tm (match_key (kr_extra r) (take k (kr_fill r))) (kw_cache w) = ret (c, m) \<Longrightarrow>
     inc_lock_ref cfg (last_device_node m) c = ret (c', delta) \<Longrightarrow> finished_tokens r = kr_fill r \<Longrightarrow>
     length (device_indices m) + length new = length (kr_fill r) \<Longrightarrow> kw_free w = free' + mset new \<Longrightarrow>
     kv_step cfg w (settle (w\<lparr>kw_free := free'\<rparr>) c' (admitted r m new # kw_live w))"
| kv_grow: "kw_live w = as @ r # bs \<Longrightarrow> finished_tokens (with_tokens r out (kr_fill r @ toks) row) = kr_fill r @ toks \<Longrightarrow>
     take (length (kr_fill r @ toks)) row = take (length (kr_fill r)) (kr_row r) @ new \<Longrightarrow> length new = length toks \<Longrightarrow>
     kw_free w = free' + mset new \<Longrightarrow>
     kv_step cfg w (w\<lparr>kw_live := as @ with_tokens r out (kr_fill r @ toks) row # bs, kw_free := free'\<rparr>)"
| kv_chunk: "kw_live w = as @ r # bs \<Longrightarrow> cache_unfinished_req cfg tm tm' r (kw_cache w) = ret (c, r') \<Longrightarrow>
     kv_step cfg w (settle w c (as @ r' # bs))"
| kv_finish: "kw_live w = as @ r # bs \<Longrightarrow> cache_finished_req cfg disable_insert tm is_insert r (kw_cache w) = ret c \<Longrightarrow>
     kv_step cfg w (settle w c (as @ bs))"
| kv_evict: "evict cfg prio num (kw_cache w) = ret (c, n) \<Longrightarrow> kv_step cfg w (settle w c (kw_live w))"

text \<open>The empty cache of \<open>reset\<close>, no request, and all indices free.\<close>

inductive kv_reach :: "rc_config \<Rightarrow> int multiset \<Rightarrow> kv_world \<Rightarrow> bool" for cfg total_kv where
  kv_init: "kv_reach cfg total_kv \<lparr>kw_cache = cache_init tm, kw_live = [], kw_free = total_kv\<rparr>"
| kv_next: "kv_reach cfg total_kv w \<Longrightarrow> kv_step cfg w w' \<Longrightarrow> kv_reach cfg total_kv w'"

section \<open>The invariant\<close>

definition owned_by :: "kv_req list \<Rightarrow> int multiset" where
  "owned_by rs = sum_list (map (\<lambda>r. owned r (kr_fill r)) rs)"

definition request_stands :: "rc_config \<Rightarrow> nat set \<Rightarrow> radix_cache \<Rightarrow> kv_req \<Rightarrow> bool" where
  "request_stands cfg S c r \<longleftrightarrow> kv_request_ok cfg S c r (kr_fill r) \<and> finished_tokens r = kr_fill r"

definition kv_inv :: "rc_config \<Rightarrow> int multiset \<Rightarrow> nat set \<Rightarrow> kv_world \<Rightarrow> bool" where
  "kv_inv cfg total_kv S w \<longleftrightarrow> rc_ok cfg S (kw_cache w) \<and> freed (kw_cache w) = []
     \<and> locks_ok S (kw_cache w) (mset (map kr_node (kw_live w))) \<and> (\<forall>r \<in> set (kw_live w). request_stands cfg S (kw_cache w) r)
     \<and> held S (kw_cache w) + kw_free w + owned_by (kw_live w) = total_kv"

lemma owned_by_simps [simp]:
  "owned_by [] = {#}" "owned_by (r # rs) = owned r (kr_fill r) + owned_by rs" "owned_by (as @ bs) = owned_by as + owned_by bs"
  by (simp_all add: owned_by_def)

text \<open>Nothing depends on the list of indices handed back.\<close>

lemma no_freed_simps [simp]:
  "heap (c\<lparr>freed := v\<rparr>) = heap c" "root_node (c\<lparr>freed := v\<rparr>) = root_node c"
  "held S (c\<lparr>freed := v\<rparr>) = held S c" "rc_ok cfg S (c\<lparr>freed := v\<rparr>) = rc_ok cfg S c"
  by (simp_all add: rc_ok_freed held_def)

lemma path_ok_no_freed [simp]: "path_ok lk cfg ex (c\<lparr>freed := v\<rparr>) = path_ok lk cfg ex c"
  by (rule path_ok_heap) simp_all

lemma no_freed_more [simp]:
  "locks_ok S (c\<lparr>freed := v\<rparr>) A = locks_ok S c A" "request_stands cfg S (c\<lparr>freed := v\<rparr>) r = request_stands cfg S c r"
proof -
  have "same_shape c (c\<lparr>freed := v\<rparr>)" by (simp add: same_shape_def)
  then show "locks_ok S (c\<lparr>freed := v\<rparr>) A = locks_ok S c A" by (simp add: locks_ok_def holders_shape)
  show "request_stands cfg S (c\<lparr>freed := v\<rparr>) r = request_stands cfg S c r" by (simp add: request_stands_def kv_request_ok_def)
qed

lemma settle_inv:
  "kv_inv cfg total_kv S (settle w c live) \<longleftrightarrow> rc_ok cfg S c \<and> locks_ok S c (mset (map kr_node live))
     \<and> (\<forall>r \<in> set live. request_stands cfg S c r) \<and> held S c + (kw_free w + mset (freed c)) + owned_by live = total_kv"
  by (simp add: kv_inv_def settle_def)

text \<open>A request stands as long as its path stays and its lock is counted.\<close>

lemma request_keeps_standing:
  assumes r: "request_stands cfg S c r" and st: "paths_stay cfg S c c'" and S: "S \<subseteq> S' \<or> kr_node r \<in> S'"
    and t: "tree_ok cfg S' c'" and l: "locks_ok S' c' A" "kr_node r \<in># A"
  shows "request_stands cfg S' c' r"
proof -
  let ?p = "nat (kr_protected r)"
  note k = r [unfolded request_stands_def kv_request_ok_def]
  have n: "kr_node r \<in> S" "kr_node r \<in> S'" using k S by auto
  have "path_ok False cfg (kr_extra r) c' (kr_node r) (take ?p (request_tokens cfg r (kr_fill r))) (take ?p (kr_row r))"
    using k n(1) path_ok_unlocked st unfolding paths_stay_def by blast
  moreover obtain ns where ns: "up_path c' (kr_node r) ns" using infinite_descent_depth [OF t n(2)] by blast
  ultimately have "path_ok True cfg (kr_extra r) c' (kr_node r) (take ?p (request_tokens cfg r (kr_fill r))) (take ?p (kr_row r))"
    by (rule path_lock) (rule held_path_locked [OF t l ns])
  then show ?thesis using k n(2) by (simp add: request_stands_def kv_request_ok_def)
qed

lemma all_keep_standing:
  assumes "\<forall>r \<in> set rs. request_stands cfg S c r" and "paths_stay cfg S c c'" and "S \<subseteq> S'" and "rc_ok cfg S' c'"
    and "locks_ok S' c' A" and "\<And>r. r \<in> set rs \<Longrightarrow> kr_node r \<in># A"
  shows "\<forall>r \<in> set rs. request_stands cfg S' c' r"
  using assms request_keeps_standing [of cfg S c _ c' S' A] by (simp add: rc_ok_def)

section \<open>Every step keeps the invariant\<close>

lemma settle_same: "freed c = [] \<Longrightarrow> paths_stay cfg S (kw_cache w) c \<Longrightarrow> S \<subseteq> S' \<Longrightarrow> rc_ok cfg S' c \<Longrightarrow>
    locks_ok S' c (mset (map kr_node (kw_live w))) \<Longrightarrow> held S' c = held S (kw_cache w) \<Longrightarrow> kv_inv cfg total_kv S w \<Longrightarrow>
    kv_inv cfg total_kv S' (settle w c (kw_live w))"
  using all_keep_standing [of "kw_live w" cfg S "kw_cache w" c S'] unfolding settle_inv by (simp add: kv_inv_def)

lemma look_inv:
  assumes pg: "0 < page_size cfg" and i: "kv_inv cfg total_kv S w"
    and run: "match_with lru cfg tm key (kw_cache w) = ret (c, m)"
  shows "\<exists>S'. kv_inv cfg total_kv S' (settle w c (kw_live w))"
proof -
  note k = i [unfolded kv_inv_def]
  obtain S' where m: "S \<subseteq> S'" "rc_ok cfg S' c" "carries cfg S (kw_cache w) S' c"
    using match_with_held [OF pg, of S "kw_cache w" lru tm key] k run by (auto simp: ret_def)
  have "kv_inv cfg total_kv S' (settle w c (kw_live w))"
    by (rule settle_same [OF _ _ m(1,2) _ _ i]) (use m(3) k in \<open>simp_all add: carries_def keeps_paths_stay keeps_locks_def\<close>)
  then show ?thesis ..
qed

text \<open>The matched part of a request's key is a beginning of its page-aligned key.\<close>

lemma take_min: "take k xs = take (min k (length xs)) xs"
  by (simp add: min_def)

lemma matched_part:
  assumes pg: "0 < page_size cfg" and "bigram cfg = None" and pre: "token_ids (page_align cfg (match_key ex (take k toks))) = ts @ rest"
  shows "take (length ts) (request_tokens cfg r toks) = ts" and "length ts \<le> length (request_tokens cfg r toks)"
proof -
  let ?p = "page_size cfg"
  have a: "token_ids (page_align cfg (match_key ex (take k toks))) = take (nat (int (min k (length toks)) div ?p * ?p)) (take k toks)"
    by (auto simp: page_align_def match_key_def key_take_def key_len_def min.commute simp flip: take_min)
  have b: "request_tokens cfg r toks = take (nat (int (length toks) div ?p * ?p)) toks"
    using assms(2) by (auto simp: request_tokens_def kv_request_key_def page_align_keys_def)
  have le: "nat (int (min k (length toks)) div ?p * ?p) \<le> nat (int (length toks) div ?p * ?p)"
    using pg by (intro nat_mono mult_right_mono zdiv_mono1) auto
  let ?a = "nat (int (min k (length toks)) div ?p * ?p)"
  have "toks = ts @ rest @ drop ?a (take k toks) @ drop k toks"
    using pre a append_take_drop_id [of ?a "take k toks"] append_take_drop_id [of k toks] by (metis append.assoc)
  then have ts: "take (length ts) toks = ts" by (metis append_eq_conv_conj)
  have "length ts \<le> ?a" using arg_cong [OF pre, of length] unfolding a by simp
  then have n: "length ts \<le> nat (int (length toks) div ?p * ?p)" using le by linarith
  then show "take (length ts) (request_tokens cfg r toks) = ts" using ts by (simp add: b min_def)
  show "length ts \<le> length (request_tokens cfg r toks)"
    using n arg_cong [OF ts, of length] by (simp add: b)
qed

lemma admitted_fields [simp]:
  "kr_row (admitted r m new) = device_indices m @ new" "kr_protected (admitted r m new) = int (length (device_indices m))"
  "kr_node (admitted r m new) = last_device_node m" "kr_fill (admitted r m new) = kr_fill r" "kr_extra (admitted r m new) = kr_extra r"
  "finished_tokens (admitted r m new) = finished_tokens r" "request_tokens cfg (admitted r m new) toks = request_tokens cfg r toks"
  by (simp_all add: admitted_def finished_tokens_def request_tokens_def)

lemma start_inv:
  assumes pg: "0 < page_size cfg" and en: "\<not> disable cfg" "bigram cfg = None" and i: "kv_inv cfg total_kv S w"
    and run: "match_prefix cfg tm (match_key (kr_extra r) (take k (kr_fill r))) (kw_cache w) = ret (c, m)"
      "inc_lock_ref cfg (last_device_node m) c = ret (c', delta)"
    and r: "finished_tokens r = kr_fill r" and len: "length (device_indices m) + length new = length (kr_fill r)"
    and free: "kw_free w = free' + mset new"
  shows "\<exists>S'. kv_inv cfg total_kv S' (settle (w\<lparr>kw_free := free'\<rparr>) c' (admitted r m new # kw_live w))"
proof -
  note k = i [unfolded kv_inv_def]
  let ?key = "match_key (kr_extra r) (take k (kr_fill r))" and ?n = "last_device_node m"
  have ex: "extra_key ?key = kr_extra r" by (simp add: match_key_def)
  obtain S1 ts rest where m: "S \<subseteq> S1" "rc_ok cfg S1 c" "carries cfg S (kw_cache w) S1 c" "?n \<in> S1"
    "path_ok False cfg (kr_extra r) c ?n ts (device_indices m)" "token_ids (page_align cfg ?key) = ts @ rest"
    using match_with_held [OF pg, of S "kw_cache w" True tm ?key] k run(1) en(2) by (auto simp: ret_def match_prefix_def ex)
  have t: "tree_ok cfg S1 c" "acct_ok S1 c" using m(2) by (simp_all add: rc_ok_def)
  obtain ns c1 d1 where L1: "up_path c ?n ns" "inc_lock_ref cfg ?n c = ret (c1, d1)"
    "lock_fold_spec (\<lambda>i. i + 1) ns (c, 0) (c1, d1)" "tree_ok cfg S1 c1" "acct_ok S1 c1"
    by (rule lock_walk [OF t m(4) en(1)])
  have "c1 = c'" "d1 = delta" using L1(2) run(2) by (simp_all add: ret_def)
  note L = L1(1) L1(3-5) [unfolded this]
  have ok: "rc_ok cfg S1 c'" using L(3,4) by (simp add: rc_ok_def)
  have l: "locks_ok S1 c' (add_mset ?n (mset (map kr_node (kw_live w))))"
    by (rule locks_ok_lock [OF t(1) _ m(4) L(1,2)]) (use m(3) k in \<open>simp add: carries_def keeps_locks_def\<close>)
  have st: "paths_stay cfg S (kw_cache w) c'"
    by (rule paths_stay_trans [OF keeps_paths_stay lock_spec_stay [OF L(2)] m(1)]) (use m(3) in \<open>simp add: carries_def\<close>)
  have old: "\<forall>r \<in> set (kw_live w). request_stands cfg S1 c' r"
    by (rule all_keep_standing [OF _ st m(1) ok l]) (use k in auto)
  have lv: "length (device_indices m) = length ts"
    using reaches_depth [OF t(1) path_ok_reaches [OF m(5)] m(4)] by simp
  have "path_ok True cfg (kr_extra r) c' ?n ts (device_indices m)"
  proof (rule path_lock [OF lock_spec_paths(3) [OF L(2) m(5)]])
    show up: "up_path c' ?n ns" using L(1) up_path_same_shape [OF lock_spec_shape [OF L(2)]] by simp
    show "0 < lock_ref (heap c' a)" if "a \<in> set ns" for a by (rule held_path_locked [OF L(3) l _ up that]) simp
  qed
  then have "request_stands cfg S1 c' (admitted r m new)"
    using matched_part [OF pg en(2) m(6), of r] m(4) r len lv by (simp add: request_stands_def kv_request_ok_def)
  moreover have "owned (admitted r m new) (kr_fill r) = mset new" using len by (simp add: owned_def)
  ultimately show ?thesis
    using ok l old k free m(3) lock_spec_paths(1,2) [OF L(2)] unfolding settle_inv
    by (intro exI [of _ S1]) (simp add: carries_def ac_simps)
qed

lemma request_tokens_more:
  assumes "0 < page_size cfg" and "bigram cfg = None"
  shows "\<exists>rest. request_tokens cfg r (toks @ new) = request_tokens cfg r toks @ rest"
proof -
  let ?p = "page_size cfg"
  have b: "request_tokens cfg r xs = take (nat (int (length xs) div ?p * ?p)) xs" for xs
    using assms(2) by (auto simp: request_tokens_def kv_request_key_def page_align_keys_def)
  define a where "a = nat (int (length toks) div ?p * ?p)"
  define d where "d = nat (int (length (toks @ new)) div ?p * ?p)"
  have "a \<le> d" unfolding a_def d_def using assms(1) by (intro nat_mono mult_right_mono zdiv_mono1) auto
  moreover have "a \<le> length toks" using whole_pages_le [OF assms(1), of "int (length toks)"] by (simp add: a_def nat_le_iff)
  ultimately have "take d (toks @ new) = take a toks @ drop a (take d (toks @ new))"
    using append_take_drop_id [of a "take d (toks @ new)"] by (simp add: min_def)
  then show ?thesis unfolding b a_def [symmetric] d_def [symmetric] by blast
qed

lemma grow_inv:
  assumes pg: "0 < page_size cfg" and en: "bigram cfg = None" and i: "kv_inv cfg total_kv S w"
    and live: "kw_live w = as @ r # bs" and fin: "finished_tokens (with_tokens r out (kr_fill r @ toks) row) = kr_fill r @ toks"
    and row: "take (length (kr_fill r @ toks)) row = take (length (kr_fill r)) (kr_row r) @ new" "length new = length toks"
    and free: "kw_free w = free' + mset new"
  shows "kv_inv cfg total_kv S (w\<lparr>kw_live := as @ with_tokens r out (kr_fill r @ toks) row # bs, kw_free := free'\<rparr>)"
proof -
  note k = i [unfolded kv_inv_def live]
  let ?r = "with_tokens r out (kr_fill r @ toks) row" and ?p = "nat (kr_protected r)"
  have r: "kv_request_ok cfg S (kw_cache w) r (kr_fill r)" using k by (simp add: request_stands_def)
  note h = r [unfolded kv_request_ok_def]
  have f: "kr_node ?r = kr_node r" "kr_extra ?r = kr_extra r" "kr_protected ?r = kr_protected r" "kr_fill ?r = kr_fill r @ toks"
    "kr_row ?r = row" "request_tokens cfg ?r xs = request_tokens cfg r xs" for xs
    by (simp_all add: with_tokens_def request_tokens_def)
  obtain rest where rest: "request_tokens cfg r (kr_fill r @ toks) = request_tokens cfg r (kr_fill r) @ rest"
    using request_tokens_more [OF pg en] by blast
  have "length (request_tokens cfg r (kr_fill r)) \<le> length (kr_fill r)"
    using kv_request_key_fields(4) [OF en pg] by (simp add: request_tokens_def)
  then have p: "?p \<le> length (request_tokens cfg r (kr_fill r))" "?p \<le> length (kr_fill r)" using h by linarith+
  have "take ?p (take (length (kr_fill r @ toks)) row) = take ?p (kr_row r)" unfolding row(1) using p h by simp
  then have "take ?p row = take ?p (kr_row r)" using p by (simp add: min_def)
  moreover have "length (kr_fill r @ toks) \<le> length row" using arg_cong [OF row(1), of length] h row(2) by simp
  ultimately have "request_stands cfg S (kw_cache w) ?r"
    using h p fin by (simp add: request_stands_def kv_request_ok_def f rest)
  moreover have "owned ?r (kr_fill ?r) = owned r (kr_fill r) + mset new"
    unfolding owned_def f row(1) using p h by simp
  ultimately show ?thesis using k free by (simp add: kv_inv_def f ac_simps)
qed

lemma chunk_inv:
  assumes pg: "0 < page_size cfg" and en: "\<not> disable cfg" "bigram cfg = None" and i: "kv_inv cfg total_kv S w"
    and live: "kw_live w = as @ r # bs" and run: "cache_unfinished_req cfg tm tm' r (kw_cache w) = ret (c, r')"
  shows "\<exists>S'. kv_inv cfg total_kv S' (settle w c (as @ r' # bs))"
proof -
  note k = i [unfolded kv_inv_def live]
  have ok: "rc_ok cfg S (kw_cache w)" and r: "kv_request_ok cfg S (kw_cache w) r (kr_fill r)" "finished_tokens r = kr_fill r"
    using k by (simp_all add: request_stands_def)
  obtain S' where u: "S \<subseteq> S'" "rc_ok cfg S' c"
    "held S' c + mset (freed c) + owned r' (kr_fill r') = held S (kw_cache w) + mset (freed (kw_cache w)) + owned r (kr_fill r)"
    "kv_request_ok cfg S' c r' (kr_fill r')" "kr_fill r' = kr_fill r" "paths_stay cfg S (kw_cache w) c"
    "kr_input r' = kr_input r" "kr_output r' = kr_output r" "kr_committed r' = kr_committed r"
    "\<forall>A. locks_ok S (kw_cache w) (add_mset (kr_node r) A) \<longrightarrow> locks_ok S' c (add_mset (kr_node r') A)"
    using cache_unfinished_ok [OF pg ok en r(1), of tm tm'] run by (auto simp: ret_def)
  have l: "locks_ok S' c (add_mset (kr_node r') (mset (map kr_node (as @ bs))))" using k u(10) by simp
  have "\<forall>r \<in> set (as @ bs). request_stands cfg S' c r"
    by (rule all_keep_standing [OF _ u(6,1,2) l]) (use k in auto)
  moreover have "request_stands cfg S' c r'" using u(4,5,7-9) r(2) by (simp add: request_stands_def finished_tokens_def)
  ultimately show ?thesis using k u(2,3) l unfolding settle_inv
    by (intro exI [of _ S']) (simp add: ac_simps)
qed

lemma finish_inv:
  assumes pg: "0 < page_size cfg" and en: "\<not> disable cfg" "bigram cfg = None" and i: "kv_inv cfg total_kv S w"
    and live: "kw_live w = as @ r # bs" and run: "cache_finished_req cfg disable_insert tm is_insert r (kw_cache w) = ret c"
  shows "\<exists>S'. kv_inv cfg total_kv S' (settle w c (as @ bs))"
proof -
  note k = i [unfolded kv_inv_def live]
  have ok: "rc_ok cfg S (kw_cache w)" and r: "finished_tokens r = kr_fill r" "kv_request_ok cfg S (kw_cache w) r (finished_tokens r)"
    using k by (simp_all add: request_stands_def)
  obtain S' where u: "S \<subseteq> S'" "rc_ok cfg S' c"
    "held S' c + mset (freed c) = held S (kw_cache w) + mset (freed (kw_cache w)) + owned r (finished_tokens r)"
    "paths_stay cfg S (kw_cache w) c" "\<forall>A. locks_ok S (kw_cache w) (add_mset (kr_node r) A) \<longrightarrow> locks_ok S' c A"
    using cache_finished_ok [OF pg ok en r(2), of disable_insert tm is_insert] run by (auto simp: ret_def)
  have l: "locks_ok S' c (mset (map kr_node (as @ bs)))" using k u(5) by simp
  have "\<forall>r \<in> set (as @ bs). request_stands cfg S' c r"
    by (rule all_keep_standing [OF _ u(4,1,2) l]) (use k in auto)
  then show ?thesis using k u(2,3) l r(1) unfolding settle_inv
    by (intro exI [of _ S']) (simp add: ac_simps)
qed

lemma path_ok_edges:
  assumes "same_edges c c'" and "path_ok lk cfg ex c n ts vs"
  shows "path_ok lk cfg ex c' n ts vs"
  using assms(2)
proof induction
  case path_root
  then show ?case using path_ok.path_root [of lk cfg ex c'] assms(1) by (simp add: same_edges_def same_shape_def)
next
  case (path_step n p ts vs)
  then show ?case using path_ok.path_step [of n c' p lk cfg ex ts vs] assms(1)
    by (simp add: same_edges_def same_shape_def node_values_def tidy_def)
qed

lemma locks_ok_evict:
  assumes t: "tree_ok cfg S c" and l: "locks_ok S c A" and ev: "evict_result cfg num S c e S' c' e'"
  shows "locks_ok S' c' A"
proof -
  have e: "S' \<subseteq> S" "tree_ok cfg S' c'" "same_shape c c'" "\<And>m. lock_ref (heap c' m) = lock_ref (heap c m)"
    "\<And>m. m \<in> S \<Longrightarrow> 0 < lock_ref (heap c m) \<Longrightarrow> m \<in> S'"
    using ev by (auto simp: evict_result_def same_edges_def rc_ok_def)
  have r: "root_node c' = root_node c" using e(3) by (simp add: same_shape_def)
  have "a \<in> S'" if a: "a \<in># A" for a
  proof (cases "a = root_node c")
    case True
    then show ?thesis using e(2) r by (simp add: tree_ok_def)
  next
    case False
    have aS: "a \<in> S" using l a by (auto simp: locks_ok_def)
    obtain ns where ns: "up_path c a ns" using infinite_descent_depth [OF t aS] by blast
    have "0 < lock_ref (heap c a)" by (rule held_path_locked [OF t l a ns up_path_self [OF ns False]])
    then show ?thesis by (rule e(5) [OF aS])
  qed
  then show ?thesis using l e(1) by (auto simp: locks_ok_def holders_shape [OF e(3)] r e(4))
qed

lemma evict_inv:
  assumes en: "\<not> disable cfg" and i: "kv_inv cfg total_kv S w" and run: "evict cfg prio num (kw_cache w) = ret (c, n)"
  shows "\<exists>S'. kv_inv cfg total_kv S' (settle w c (kw_live w)) \<and> evict_result cfg num S (kw_cache w) 0 S' c n"
proof -
  note k = i [unfolded kv_inv_def]
  have t: "tree_ok cfg S (kw_cache w)" using k by (simp add: rc_ok_def)
  obtain S' where ev: "evict_result cfg num S (kw_cache w) 0 S' c n"
    using evict_ok [of cfg S "kw_cache w" prio num] k en run by (auto simp: ret_def)
  have e: "rc_ok cfg S' c" "same_edges (kw_cache w) c" "held S' c + mset (freed c) = held S (kw_cache w)"
    using ev k by (auto simp: evict_result_def)
  have l: "locks_ok S' c (mset (map kr_node (kw_live w)))" by (rule locks_ok_evict [OF t _ ev]) (use k in simp)
  have st: "paths_stay cfg S (kw_cache w) c" using path_ok_edges [OF e(2)] by (auto simp: paths_stay_def)
  have "request_stands cfg S' c r" if "r \<in> set (kw_live w)" for r
  proof (rule request_keeps_standing [OF _ st _ _ l])
    show "kr_node r \<in># mset (map kr_node (kw_live w))" using that by simp
    then show "S \<subseteq> S' \<or> kr_node r \<in> S'" using l by (auto simp: locks_ok_def)
  qed (use k that e(1) in \<open>auto simp: rc_ok_def\<close>)
  then have "kv_inv cfg total_kv S' (settle w c (kw_live w))"
    using k e(1) l e(3) [symmetric] unfolding settle_inv by (simp add: ac_simps)
  then show ?thesis using ev by blast
qed

lemma step_inv:
  assumes "0 < page_size cfg" and "\<not> disable cfg" and "bigram cfg = None" and "kv_step cfg w w'" and "kv_inv cfg total_kv S w"
  shows "\<exists>S'. kv_inv cfg total_kv S' w'"
  using assms(4,5)
proof cases
  case kv_look
  then show ?thesis using look_inv [OF assms(1,5)] by blast
next
  case kv_start
  then show ?thesis using start_inv [OF assms(1-3,5)] by blast
next
  case kv_grow
  then show ?thesis using grow_inv [OF assms(1,3,5)] by blast
next
  case kv_chunk
  then show ?thesis using chunk_inv [OF assms(1-3,5)] by blast
next
  case kv_finish
  then show ?thesis using finish_inv [OF assms(1-3,5)] by blast
next
  case kv_evict
  then show ?thesis using evict_inv [OF assms(2,5)] by blast
qed

lemma reach_inv:
  assumes "0 < page_size cfg" and "\<not> disable cfg" and "bigram cfg = None"
  shows "kv_reach cfg total_kv w \<Longrightarrow> \<exists>S. kv_inv cfg total_kv S w"
proof (induction rule: kv_reach.induct)
  case (kv_init tm)
  let ?c = "cache_init tm"
  have e: "held {root_node ?c} ?c = {#}" "freed ?c = []"
    by (simp_all add: held_def cache_init_def cache_reset_def Let_def alloc_node_def new_tree_node_def node_values_def)
  then have "kv_inv cfg total_kv {root_node ?c} \<lparr>kw_cache = ?c, kw_live = [], kw_free = total_kv\<rparr>"
    using rc_ok_init [of cfg tm] by (simp add: kv_inv_def locks_ok_def)
  then show ?case ..
next
  case (kv_next w w')
  then show ?case using step_inv [OF assms] by blast
qed

section \<open>Properties\<close>

lemma count_owned_by: "count (owned_by rs) x = sum_list (map (\<lambda>r. count (owned r (kr_fill r)) x) rs)"
  by (induction rs) simp_all

text \<open>
  C10: The KV memory under any interleaving of admissions, chunks, decoding, completions, lookups and
  evictions. In every reachable state each of the allocator's indices is in exactly one place: held by
  one node of the tree, owned by one live request, or free. The tree is well formed; the locks of its
  nodes are exactly those of the live requests; and every live request stands on a locked path that
  spells the beginning of its key and holds the indices at the beginning of its row.
\<close>

theorem kv_in_one_place:
  assumes "0 < page_size cfg" and "\<not> disable cfg" and "bigram cfg = None" and "distinct xs" and "kv_reach cfg (mset xs) w"
  shows "\<exists>S. rc_ok cfg S (kw_cache w) \<and> locks_ok S (kw_cache w) (mset (map kr_node (kw_live w)))
    \<and> (\<forall>r \<in> set (kw_live w). kv_request_ok cfg S (kw_cache w) r (kr_fill r))
    \<and> (\<forall>x. count (held S (kw_cache w)) x + count (kw_free w) x
          + sum_list (map (\<lambda>r. count (owned r (kr_fill r)) x) (kw_live w)) = (if x \<in> set xs then 1 else 0))"
proof -
  obtain S where i: "kv_inv cfg (mset xs) S w" using reach_inv [OF assms(1-3,5)] by blast
  have "count (held S (kw_cache w)) x + count (kw_free w) x + count (owned_by (kw_live w)) x = (if x \<in> set xs then 1 else 0)" for x
  proof -
    have "count (held S (kw_cache w) + kw_free w + owned_by (kw_live w)) x = count (mset xs) x"
      using i by (simp only: kv_inv_def)
    then show ?thesis using assms(4) by (simp add: distinct_count_atmost_1 count_mset_0_iff)
  qed
  then show ?thesis using i by (intro exI [of _ S]) (auto simp: kv_inv_def request_stands_def count_owned_by)
qed

definition waiting_kv :: kv_req where
  "waiting_kv = demo_kv\<lparr>kr_row := []\<rparr>"

lemma demo_reach:
  obtains w where "kv_reach sim_config (mset [10, 11, 12, 13, 14]) w" and "kw_live w = [admitted waiting_kv
    \<lparr>device_indices = [], last_device_node = root_node (cache_init (\<lambda>_. 0)), last_host_node = root_node (cache_init (\<lambda>_. 0))\<rparr> [10, 11, 12, 13]]"
proof -
  let ?c = "cache_init (\<lambda>_. 0)" and ?r = waiting_kv
  let ?m = "\<lparr>device_indices = [], last_device_node = root_node ?c, last_host_node = root_node ?c\<rparr>"
  let ?w = "\<lparr>kw_cache = ?c, kw_live = [], kw_free = mset [10, 11, 12, 13, 14]\<rparr>"
  have m: "match_prefix sim_config (\<lambda>_. 0) (match_key (kr_extra ?r) (take 0 (kr_fill ?r))) (kw_cache ?w) = ret (?c, ?m)"
    by (simp add: match_prefix_def match_with_def maybe_bigram_convert_def sim_config_def match_key_def key_len_def Let_def)
  have t: "tree_ok sim_config {root_node ?c} ?c" "acct_ok {root_node ?c} ?c" using rc_ok_init [of sim_config] by (simp_all add: rc_ok_def)
  have en: "\<not> disable sim_config" by (simp add: sim_config_def)
  have "\<exists>c' delta. inc_lock_ref sim_config (root_node ?c) ?c = ret (c', delta)"
    by (rule lock_walk [OF t _ en, of "root_node ?c"]) auto
  then obtain c' delta where l: "inc_lock_ref sim_config (last_device_node ?m) ?c = ret (c', delta)" by auto
  have "kv_step sim_config ?w (settle (?w\<lparr>kw_free := {#14#}\<rparr>) c' (admitted ?r ?m [10, 11, 12, 13] # kw_live ?w))"
    by (rule kv_start [OF m l]) (simp_all add: finished_tokens_def waiting_kv_def demo_kv_def)
  then have "kv_reach sim_config (mset [10, 11, 12, 13, 14]) (settle (?w\<lparr>kw_free := {#14#}\<rparr>) c' (admitted ?r ?m [10, 11, 12, 13] # kw_live ?w))"
    by (rule kv_next [OF kv_init])
  then show ?thesis by (rule that) (simp add: settle_def)
qed

lemma sim_config_plain: "0 < page_size sim_config" "\<not> disable sim_config" "bigram sim_config = None"
  by (simp_all add: sim_config_def)

theorem kv_in_one_place_witness:
  "\<exists>w S. kv_reach sim_config (mset [10, 11, 12, 13, 14]) w \<and> length (kw_live w) = 1 \<and> rc_ok sim_config S (kw_cache w)
     \<and> count (held S (kw_cache w)) 12 + count (kw_free w) 12 = 0"
proof -
  obtain w where w: "kv_reach sim_config (mset [10, 11, 12, 13, 14]) w" "kw_live w = [admitted waiting_kv
    \<lparr>device_indices = [], last_device_node = root_node (cache_init (\<lambda>_. 0)), last_host_node = root_node (cache_init (\<lambda>_. 0))\<rparr> [10, 11, 12, 13]]"
    by (rule demo_reach)
  have d: "distinct [10, 11, 12, 13, 14 :: int]" by simp
  have c: "count (owned (hd (kw_live w)) (kr_fill (hd (kw_live w)))) 12 = 1"
    by (simp add: w(2) owned_def) (simp add: waiting_kv_def demo_kv_def)
  obtain S where S: "rc_ok sim_config S (kw_cache w)" "count (held S (kw_cache w)) 12 + count (kw_free w) 12
      + sum_list (map (\<lambda>r. count (owned r (kr_fill r)) 12) (kw_live w)) = (if 12 \<in> set [10, 11, 12, 13, 14 :: int] then 1 else 0)"
    using kv_in_one_place [OF sim_config_plain d w(1)] by blast
  have "sum_list (map (\<lambda>r. count (owned r (kr_fill r)) 12) (kw_live w)) = 1" using c by (simp add: w(2))
  then have "count (held S (kw_cache w)) 12 + count (kw_free w) 12 = 0" using S(2) by simp
  then show ?thesis using w S(1) by (intro exI [of _ w] exI [of _ S]) simp
qed

text \<open>
  C11: No operation fails in any reachable state: a live request can be finished or continued, and any
  lookup or eviction made, at any time; none of them raises, its assertions included, and all return.
\<close>

theorem kv_operations_return:
  assumes "0 < page_size cfg" and "\<not> disable cfg" and "bigram cfg = None" and "kv_reach cfg (mset xs) w"
  shows "(\<forall>r \<in> set (kw_live w). \<exists>c. cache_finished_req cfg disable_insert tm is_insert r (kw_cache w) = ret c)
    \<and> (\<forall>r \<in> set (kw_live w). \<exists>c r'. cache_unfinished_req cfg tm tm' r (kw_cache w) = ret (c, r'))
    \<and> (\<exists>c m. match_with lru cfg tm key (kw_cache w) = ret (c, m)) \<and> (\<exists>c n. evict cfg prio num (kw_cache w) = ret (c, n))"
proof -
  obtain S where i: "kv_inv cfg (mset xs) S w" using reach_inv [OF assms] by blast
  then have ok: "rc_ok cfg S (kw_cache w)" by (simp add: kv_inv_def)
  have st: "kv_request_ok cfg S (kw_cache w) r (kr_fill r)" "finished_tokens r = kr_fill r" if "r \<in> set (kw_live w)" for r
    using i that by (simp_all add: kv_inv_def request_stands_def)
  have "\<exists>c. cache_finished_req cfg disable_insert tm is_insert r (kw_cache w) = ret c" if "r \<in> set (kw_live w)" for r
    using cache_finished_ok [OF assms(1) ok assms(2,3), of r] st [OF that] by metis
  moreover have "\<exists>c r'. cache_unfinished_req cfg tm tm' r (kw_cache w) = ret (c, r')" if "r \<in> set (kw_live w)" for r
    using cache_unfinished_ok [OF assms(1) ok assms(2,3) st(1) [OF that]] by metis
  moreover have "\<exists>c m. match_with lru cfg tm key (kw_cache w) = ret (c, m)" using match_with_ok [OF assms(1) ok] by metis
  moreover have "\<exists>c n. evict cfg prio num (kw_cache w) = ret (c, n)" using evict_ok [OF ok assms(2)] by metis
  ultimately show ?thesis by blast
qed

theorem kv_operations_return_witness:
  "\<exists>w r c c' r'. kv_reach sim_config (mset [10, 11, 12, 13, 14]) w \<and> r \<in> set (kw_live w)
     \<and> cache_finished_req sim_config False (\<lambda>_. 0) True r (kw_cache w) = ret c
     \<and> cache_unfinished_req sim_config (\<lambda>_. 0) (\<lambda>_. 0) r (kw_cache w) = ret (c', r')"
proof -
  obtain w where w: "kv_reach sim_config (mset [10, 11, 12, 13, 14]) w" "kw_live w = [admitted waiting_kv
    \<lparr>device_indices = [], last_device_node = root_node (cache_init (\<lambda>_. 0)), last_host_node = root_node (cache_init (\<lambda>_. 0))\<rparr> [10, 11, 12, 13]]"
    by (rule demo_reach)
  define r where "r = hd (kw_live w)"
  have r: "r \<in> set (kw_live w)" by (simp add: w(2) r_def)
  obtain c c' r' where "cache_finished_req sim_config False (\<lambda>_. 0) True r (kw_cache w) = ret c"
    "cache_unfinished_req sim_config (\<lambda>_. 0) (\<lambda>_. 0) r (kw_cache w) = ret (c', r')"
    using kv_operations_return [OF sim_config_plain w(1)] r by blast
  then show ?thesis using w(1) r by blast
qed

section \<open>At rest\<close>

text \<open>Without holders the tree is as big as what can be evicted.\<close>

lemma held_size:
  assumes ok: "rc_ok cfg S c" and l: "locks_ok S c {#}"
  shows "int (size (held S c)) = evictable_size c"
proof -
  have t: "tree_ok cfg S c" and fin: "finite S" and rS: "root_node c \<in> S" using ok by (simp_all add: rc_ok_def tree_ok_def)
  have v: "int (length (node_values (heap c m))) = ev_len (heap c m)" if "m \<in> S - {root_node c}" for m
  proof -
    have m: "m \<in> S" "m \<noteq> root_node c" using that by blast+
    show ?thesis by (rule tree_ok_nodeD [OF t m]) (simp add: node_values_def ev_len_def no_holders [OF l m])
  qed
  have sz: "size (\<Sum>m \<in> A. mset (f m)) = (\<Sum>m \<in> A. length (f m))" for A and f :: "nat \<Rightarrow> int list"
    by (induction A rule: infinite_finite_induct) simp_all
  have "node_values (heap c (root_node c)) = []" using t by (simp add: tree_ok_def node_values_def)
  then have "size (held S c) = (\<Sum>m \<in> S - {root_node c}. length (node_values (heap c m)))"
    using sz [of "\<lambda>m. node_values (heap c m)" S] sum.remove [OF fin rS, of "\<lambda>m. length (node_values (heap c m))"] by (simp add: held_def)
  then show ?thesis using ok v by (simp add: rc_ok_def acct_ok_def)
qed

lemma no_leaf_no_node:
  assumes ok: "rc_ok cfg S c" and l: "locks_ok S c {#}" and n: "\<forall>m \<in> S. \<not> leaf_status c m"
  shows "S = {root_node c}"
proof (rule ccontr)
  assume ne: "S \<noteq> {root_node c}"
  have t: "tree_ok cfg S c" using ok by (simp add: rc_ok_def)
  let ?A = "S - {root_node c}"
  have A: "finite ?A" "?A \<noteq> {}" using t ne by (auto simp: tree_ok_def)
  let ?d = "\<lambda>m. rdepth (heap c m)"
  have fd: "finite (?d ` ?A)" "?d ` ?A \<noteq> {}" using A by auto
  then obtain m where m: "m \<in> ?A" "?d m = Max (?d ` ?A)" using Max_in [OF fd] by force
  have mS: "m \<in> S" using m(1) by blast
  have "rchildren (heap c m) = []"
  proof (cases "rchildren (heap c m)")
    case (Cons e es)
    obtain k ch where "e = (k, ch)" by (cases e)
    then have d: "dget (rchildren (heap c m)) k = Some ch" using Cons by simp
    note f = tree_ok_childD [OF t mS d]
    have "?d m < ?d ch" by (rule depth_less_parent [OF t f(1-3)])
    moreover have "?d ch \<le> Max (?d ` ?A)" using f(1,2) fd(1) by (intro Max_ge) auto
    ultimately show ?thesis using m(2) by simp
  qed
  then have "leaf_status c m" using leaf_status_tree [OF t mS] no_holders [OF l mS] m(1) by simp
  then show False using n mS by blast
qed

text \<open>
  C12: Nothing leaks: whenever no request is live, evicting as much as is evictable gives every index
  back to the allocator, whatever happened before.
\<close>

theorem kv_all_reclaimed:
  assumes "0 < page_size cfg" and "\<not> disable cfg" and "bigram cfg = None" and "kv_reach cfg (mset xs) w" and "kw_live w = []"
  shows "\<exists>c n. evict cfg prio (evictable_size (kw_cache w)) (kw_cache w) = ret (c, n) \<and> n = evictable_size (kw_cache w)
    \<and> kw_free (settle w c []) = mset xs"
proof -
  let ?c = "kw_cache w"
  obtain S where i: "kv_inv cfg (mset xs) S w" using reach_inv [OF assms(1-4)] by blast
  have ok: "rc_ok cfg S ?c" using i by (simp add: kv_inv_def)
  obtain c n where run: "evict cfg prio (evictable_size ?c) ?c = ret (c, n)" using evict_ok [OF ok assms(2)] by blast
  obtain S' where e: "kv_inv cfg (mset xs) S' (settle w c [])" "evict_result cfg (evictable_size ?c) S ?c 0 S' c n"
    using evict_inv [OF assms(2) i run] assms(5) by auto
  have k: "rc_ok cfg S' c" "locks_ok S' c {#}" using e(1) unfolding settle_inv by simp_all
  have sz: "int (size (held S' c)) = evictable_size ?c - n" using held_size [OF k] e(2) by (simp add: evict_result_def)
  have "held S' c = {#} \<and> n = evictable_size ?c"
  proof (cases "evictable_size ?c \<le> n")
    case True
    then have "size (held S' c) = 0" "evictable_size ?c = n" using sz by linarith+
    then show ?thesis by simp
  next
    case False
    then have "\<forall>m \<in> S'. \<not> leaf_status c m" using e(2) by (simp add: evict_result_def)
    then have S: "S' = {root_node c}" by (rule no_leaf_no_node [OF k])
    have "rvalue (heap c (root_node c)) = Some []" using k(1) by (simp add: rc_ok_def tree_ok_def)
    then have "held S' c = {#}" by (simp add: held_def S node_values_def)
    then show ?thesis using sz by simp
  qed
  then show ?thesis using run e(1) unfolding settle_inv by (intro exI [of _ c] exI [of _ n]) (simp add: settle_def)
qed

theorem kv_all_reclaimed_witness:
  "\<exists>w c n. kv_reach sim_config (mset [10, 11]) w \<and> evict sim_config (\<lambda>_. []) (evictable_size (kw_cache w)) (kw_cache w) = ret (c, n)
     \<and> kw_free (settle w c []) = mset [10, 11]"
proof -
  let ?w = "\<lparr>kw_cache = cache_init (\<lambda>_. 0), kw_live = [], kw_free = mset [10, 11]\<rparr>"
  have r: "kv_reach sim_config (mset [10, 11]) ?w" by (rule kv_init)
  have "kw_live ?w = []" by simp
  from kv_all_reclaimed [OF sim_config_plain r this] r show ?thesis by blast
qed

end
