(* ===== verification/Radix_Events.thy ===== *)
theory Radix_Events
  imports Radix_Evict
begin

text \<open>
  The KV-cache events of the radix cache (\<open>compute_node_hash_values\<close>, \<open>_record_store_event\<close>,
  \<open>_record_remove_event\<close>, \<open>take_events\<close> of
  \<open>src/python/peek/offline/sglang_patches/patched_files/radix_cache.py\<close>): every page of a node is named
  by a hash that is chained along the path, so a block keeps its name when its node is split. The hash
  (\<open>get_hash_str\<close>) and its 64-bit form (\<open>hash_str_to_int64\<close>) are functions of SGLang, here \<open>H\<close> and \<open>num\<close>.
\<close>

section \<open>Hashes of pages\<close>

type_synonym hash_fn = "int list \<Rightarrow> string option \<Rightarrow> string"

text \<open>The loop over the pages of a key, each hashed with the hash before it.\<close>

function page_hashes :: "hash_fn \<Rightarrow> nat \<Rightarrow> string option \<Rightarrow> int list \<Rightarrow> string list" where
  "page_hashes H p prior toks =
     (if p = 0 \<or> toks = [] then []
      else let h = H (take p toks) prior in h # page_hashes H p (Some h) (drop p toks))"
  by pat_completeness auto
termination
  by (relation "measure (\<lambda>(H, p, prior, toks). length toks)") auto

declare page_hashes.simps [simp del]

definition get_last_hash_value :: "rnode \<Rightarrow> string option" where
  "get_last_hash_value x = (case hash_value x of None \<Rightarrow> None | Some hs \<Rightarrow> if hs = [] then None else Some (last hs))"

definition compute_node_hash_values :: "hash_fn \<Rightarrow> rc_config \<Rightarrow> radix_cache \<Rightarrow> nat \<Rightarrow> string list" where
  "compute_node_hash_values H cfg c n =
     page_hashes H (nat (page_size cfg))
       (case rparent (heap c n) of
          None \<Rightarrow> None
        | Some p \<Rightarrow> if 0 < key_len (rkey (heap c p)) then get_last_hash_value (heap c p) else None)
       (token_ids (rkey (heap c n)))"

text \<open>The hashes of a path, from the root down to a node, as far as they are known.\<close>

partial_function (option) get_prefix_hash_values :: "radix_cache \<Rightarrow> nat option \<Rightarrow> string list run" where
  "get_prefix_hash_values c node =
     (case node of
        None \<Rightarrow> ret []
      | Some n \<Rightarrow>
          (case hash_value (heap c n) of
             None \<Rightarrow> ret []
           | Some hs \<Rightarrow> Option.bind (get_prefix_hash_values c (rparent (heap c n)))
               (\<lambda>r. Some (rbind r (\<lambda>front. Inr (front @ hs))))))"

declare get_prefix_hash_values.simps [code]

text \<open>The host copy of a node is counted like a lock; releasing one that is not held raises.\<close>

definition release_host :: "rnode \<Rightarrow> rnode res" where
  "release_host x = (if 0 < host_ref_counter x then Inr (x\<lparr>host_ref_counter := host_ref_counter x - 1\<rparr>) else Inl RuntimeError)"

lemma release_protected: "0 \<le> host_ref_counter x \<Longrightarrow> release_host (protect_host x) = Inr x"
  by (simp add: release_host_def protect_host_def)

section \<open>Events\<close>

datatype kv_event =
    BlockStored (stored_hash: int) (parent_hash: "int option") (stored_tokens: "int list")
  | BlockRemoved (removed_hash: int)
  | AllBlocksCleared

function pages :: "nat \<Rightarrow> int list \<Rightarrow> int list list" where
  "pages p toks = (if p = 0 \<or> toks = [] then [] else take p toks # pages p (drop p toks))"
  by pat_completeness auto
termination
  by (relation "measure (\<lambda>(p, toks). length toks)") auto

declare pages.simps [simp del]

text \<open>\<open>node.hash_value[page_index]\<close> raises when there are more pages than hashes.\<close>

fun stored_events :: "(string \<Rightarrow> int) \<Rightarrow> int option \<Rightarrow> int list list \<Rightarrow> string list \<Rightarrow> kv_event list res" where
  "stored_events num parent [] hs = Inr []"
| "stored_events num parent (chunk # chunks) [] = Inl IndexError"
| "stored_events num parent (chunk # chunks) (h # hs) =
     rbind (stored_events num (Some (num h)) chunks hs) (\<lambda>es. Inr (BlockStored (num h) parent chunk # es))"

fun removed_events :: "(string \<Rightarrow> int) \<Rightarrow> int list list \<Rightarrow> string list \<Rightarrow> kv_event list res" where
  "removed_events num [] hs = Inr []"
| "removed_events num (chunk # chunks) [] = Inl IndexError"
| "removed_events num (chunk # chunks) (h # hs) =
     rbind (removed_events num chunks hs) (\<lambda>es. Inr (BlockRemoved (num h) # es))"

text \<open>The hashes of a node are computed when they are first needed and stay with it.\<close>

definition ensure_hashes :: "hash_fn \<Rightarrow> rc_config \<Rightarrow> nat \<Rightarrow> radix_cache \<Rightarrow> radix_cache" where
  "ensure_hashes H cfg n c =
     (case hash_value (heap c n) of
        None \<Rightarrow> upd_node n (\<lambda>x. x\<lparr>hash_value := Some (compute_node_hash_values H cfg c n)\<rparr>) c
      | Some hs \<Rightarrow> c)"

definition node_hashes :: "radix_cache \<Rightarrow> nat \<Rightarrow> string list" where
  "node_hashes c n = (case hash_value (heap c n) of None \<Rightarrow> [] | Some hs \<Rightarrow> hs)"

definition parent_block :: "(string \<Rightarrow> int) \<Rightarrow> radix_cache \<Rightarrow> nat \<Rightarrow> int option" where
  "parent_block num c n =
     (case rparent (heap c n) of
        None \<Rightarrow> None
      | Some p \<Rightarrow> if p = root_node c then None else map_option num (get_last_hash_value (heap c p)))"

definition record_store_event ::
  "bool \<Rightarrow> hash_fn \<Rightarrow> (string \<Rightarrow> int) \<Rightarrow> rc_config \<Rightarrow> nat \<Rightarrow> radix_cache \<times> kv_event list \<Rightarrow> (radix_cache \<times> kv_event list) res"
where
  "record_store_event enabled H num cfg n s =
     (if \<not> enabled then Inr s
      else let (c, q) = s; c1 = ensure_hashes H cfg n c
           in rbind (stored_events num (parent_block num c1 n)
                      (pages (nat (page_size cfg)) (token_ids (rkey (heap c1 n)))) (node_hashes c1 n))
                (\<lambda>es. Inr (c1, q @ es)))"

definition record_remove_event ::
  "bool \<Rightarrow> hash_fn \<Rightarrow> (string \<Rightarrow> int) \<Rightarrow> rc_config \<Rightarrow> nat \<Rightarrow> radix_cache \<times> kv_event list \<Rightarrow> (radix_cache \<times> kv_event list) res"
where
  "record_remove_event enabled H num cfg n s =
     (if \<not> enabled then Inr s
      else let (c, q) = s; c1 = ensure_hashes H cfg n c
           in rbind (removed_events num (pages (nat (page_size cfg)) (token_ids (rkey (heap c1 n)))) (node_hashes c1 n))
                (\<lambda>es. Inr (c1, q @ es)))"

definition record_all_cleared_event :: "bool \<Rightarrow> kv_event list \<Rightarrow> kv_event list" where
  "record_all_cleared_event enabled q = (if enabled then q @ [AllBlocksCleared] else q)"

definition take_events :: "bool \<Rightarrow> kv_event list \<Rightarrow> kv_event list \<times> kv_event list" where
  "take_events enabled q = (if enabled then (q, []) else ([], q))"

text \<open>On a path of a tree the walk up ends.\<close>

lemma get_prefix_hash_values_returns:
  assumes "up_path c n ns" and "rparent (heap c (root_node c)) = None"
  shows "\<exists>hs. get_prefix_hash_values c (Some n) = ret hs"
  using assms(1)
proof (induction ns arbitrary: n)
  case Nil
  have "get_prefix_hash_values c None = ret []" by (simp add: get_prefix_hash_values.simps [of c None])
  then show ?case using Nil assms(2)
    by (subst get_prefix_hash_values.simps) (simp add: ret_def rbind_def split: option.split)
next
  case (Cons m ms)
  then obtain p where p: "rparent (heap c n) = Some p" "up_path c p ms" by (auto split: option.splits)
  from Cons.IH [OF p(2)] obtain hs where "get_prefix_hash_values c (Some p) = ret hs" by blast
  then show ?case
    by (subst get_prefix_hash_values.simps) (simp add: p(1) ret_def rbind_def split: option.split)
qed

section \<open>Splitting keeps the names\<close>

lemma page_hashes_length: "length (page_hashes H p prior toks) = length (pages p toks)"
proof (induction H p prior toks rule: page_hashes.induct)
  case (1 H p prior toks)
  then show ?case by (subst page_hashes.simps, subst pages.simps) (simp add: Let_def)
qed

lemma page_hashes_take:
  "0 < p \<Longrightarrow> p dvd k \<Longrightarrow> k \<le> length toks \<Longrightarrow>
     length (page_hashes H p prior (take k toks)) = k div p
     \<and> page_hashes H p prior toks = page_hashes H p prior (take k toks)
        @ page_hashes H p (if k = 0 then prior else Some (last (page_hashes H p prior (take k toks)))) (drop k toks)"
proof (induction H p prior toks arbitrary: k rule: page_hashes.induct)
  case (1 H p prior toks)
  show ?case
  proof (cases "k = 0")
    case True
    then show ?thesis by (simp add: page_hashes.simps [of H p prior "[]"])
  next
    case False
    have pk: "p \<le> k" using "1.prems"(2) False by (simp add: dvd_imp_le)
    have ne: "toks \<noteq> []" using False "1.prems"(3) by auto
    let ?h = "H (take p toks) prior"
    have tk: "take p (take k toks) = take p toks" "drop p (take k toks) = take (k - p) (drop p toks)"
      using pk by (simp_all add: min_def drop_take)
    have dv: "p dvd k - p" using "1.prems"(2) by (simp add: dvd_diff_nat)
    have e: "page_hashes H p prior toks = ?h # page_hashes H p (Some ?h) (drop p toks)"
      using "1.prems"(1) ne by (simp add: page_hashes.simps [of H p prior toks] Let_def)
    have et: "page_hashes H p prior (take k toks) = ?h # page_hashes H p (Some ?h) (take (k - p) (drop p toks))"
      using "1.prems"(1) ne False pk
      by (simp add: page_hashes.simps [of H p prior "take k toks"] Let_def tk(2) min_absorb1)
    have IH: "length (page_hashes H p (Some ?h) (take (k - p) (drop p toks))) = (k - p) div p"
      "page_hashes H p (Some ?h) (drop p toks) = page_hashes H p (Some ?h) (take (k - p) (drop p toks))
        @ page_hashes H p (if k - p = 0 then Some ?h else Some (last (page_hashes H p (Some ?h) (take (k - p) (drop p toks)))))
            (drop (k - p) (drop p toks))"
      using "1.IH" [OF _ refl, of "k - p"] "1.prems" ne dv by auto
    have dr: "drop (k - p) (drop p toks) = drop k toks" using pk by simp
    have len: "Suc ((k - p) div p) = k div p" using pk "1.prems"(1) by (simp add: le_div_geq)
    show ?thesis
    proof (cases "k = p")
      case True
      then show ?thesis using e et IH(1) len "1.prems"(1) by (simp add: page_hashes.simps [of H p _ "[]"])
    next
      case kp: False
      then have "(k - p) div p \<noteq> 0" using dv pk "1.prems"(1) by (auto simp: dvd_div_eq_0_iff)
      then have "page_hashes H p (Some ?h) (take (k - p) (drop p toks)) \<noteq> []" using IH(1) by auto
      then show ?thesis using e et IH len kp pk False by (simp add: dr)
    qed
  qed
qed

lemma removed_events_ok:
  "length hs = length chunks \<Longrightarrow> removed_events num chunks hs = Inr (map (\<lambda>h. BlockRemoved (num h)) hs)"
  by (induction num chunks hs rule: removed_events.induct) auto

lemma stored_events_ok:
  "length hs = length chunks \<Longrightarrow> \<exists>es. stored_events num parent chunks hs = Inr es
     \<and> map stored_hash es = map num hs \<and> map stored_tokens es = chunks"
proof (induction num parent chunks hs rule: stored_events.induct)
  case (3 num parent chunk chunks h hs)
  then obtain es where "stored_events num (Some (num h)) chunks hs = Inr es" "map stored_hash es = map num hs"
    "map stored_tokens es = chunks" by auto
  then show ?case by auto
qed auto

text \<open>The hash a node's first page is chained to.\<close>

definition prior_hash :: "radix_cache \<Rightarrow> nat \<Rightarrow> string option" where
  "prior_hash c n = (case rparent (heap c n) of
      None \<Rightarrow> None | Some p \<Rightarrow> if 0 < key_len (rkey (heap c p)) then get_last_hash_value (heap c p) else None)"

lemma split_node_hashes:
  assumes t: "tree_ok cfg S c" and ch: "child \<in> S" "child \<noteq> root_node c"
    and run: "split_node cfg tm child k c = Inr (c', new)"
    and k: "0 < page_size cfg" "page_size cfg dvd k" "0 < k" "k \<le> key_len (rkey (heap c child))"
    and hs: "hash_value (heap c child) = Some (compute_node_hash_values H cfg c child)"
  shows "hash_value (heap c' new) = Some (compute_node_hash_values H cfg c' new)"
    and "hash_value (heap c' child) = Some (compute_node_hash_values H cfg c' child)"
    and "node_hashes c' new @ node_hashes c' child = node_hashes c child"
    and "token_ids (rkey (heap c' new)) @ token_ids (rkey (heap c' child)) = token_ids (rkey (heap c child))"
proof -
  obtain p where p: "rparent (heap c child) = Some p" "p \<in> S" using tree_ok_nodeD [OF t ch] by metis
  have pch: "p \<noteq> child" using depth_less_parent [OF t ch p(1)] by auto
  have fresh: "p \<noteq> counter c" "child \<noteq> counter c" using t p(2) ch(1) by (auto simp: tree_ok_def)
  let ?ts = "token_ids (rkey (heap c child))" and ?pg = "nat (page_size cfg)"
  let ?whole = "page_hashes H ?pg (prior_hash c child) ?ts"
  have w: "hash_value (heap c child) = Some ?whole"
    using hs by (simp add: compute_node_hash_values_def prior_hash_def)
  have cut: "(if page_size cfg = 1 then k else k div page_size cfg) = k div page_size cfg" by simp
  have f: "new = counter c" "hash_value (heap c' new) = Some (take (nat (k div page_size cfg)) ?whole)"
    "hash_value (heap c' child) = Some (drop (nat (k div page_size cfg)) ?whole)"
    "rparent (heap c' new) = Some p" "rparent (heap c' child) = Some new"
    "token_ids (rkey (heap c' new)) = take (nat k) ?ts" "token_ids (rkey (heap c' child)) = drop (nat k) ?ts"
    "rkey (heap c' p) = rkey (heap c p)" "hash_value (heap c' p) = hash_value (heap c p)"
    using run fresh pch w cut
    by (auto simp: split_node_def split_node_hash_value_def Let_def p(1) alloc_node_def upd_node_def key_take_def key_drop_def
        split: if_splits)
  have dv: "?pg dvd nat k" using k(1-3) by (simp add: nat_dvd_iff)
  have le: "nat k \<le> length ?ts" using k(4) by (simp add: key_len_def)
  have kd: "nat (k div page_size cfg) = nat k div ?pg" using k(1,3) by (simp add: nat_div_distrib)
  note P = page_hashes_take [OF _ dv le, of H "prior_hash c child"]
  have parts: "take (nat k div ?pg) ?whole = page_hashes H ?pg (prior_hash c child) (take (nat k) ?ts)"
    "drop (nat k div ?pg) ?whole = page_hashes H ?pg (Some (last (page_hashes H ?pg (prior_hash c child) (take (nat k) ?ts)))) (drop (nat k) ?ts)"
    using P k(1,3) by auto
  have pr: "prior_hash c' new = prior_hash c child"
    using f by (simp add: prior_hash_def p(1) get_last_hash_value_def)
  have "nat k div ?pg \<noteq> 0" using dv k(1,3) by (auto simp: dvd_div_eq_0_iff)
  then have ne: "page_hashes H ?pg (prior_hash c child) (take (nat k) ?ts) \<noteq> []" using P k(1) by auto
  have kl: "0 < key_len (rkey (heap c' new))" using f(6) k(3) le by (simp add: key_len_def)
  have last: "get_last_hash_value (heap c' new) = Some (last (page_hashes H ?pg (prior_hash c child) (take (nat k) ?ts)))"
    using f(2) parts(1) ne by (simp add: get_last_hash_value_def kd)
  show "hash_value (heap c' new) = Some (compute_node_hash_values H cfg c' new)"
    using f(2) parts(1) by (simp add: compute_node_hash_values_def kd f(6) pr flip: prior_hash_def)
  have "prior_hash c' child = Some (last (page_hashes H ?pg (prior_hash c child) (take (nat k) ?ts)))"
    using last kl by (simp add: prior_hash_def f(5))
  then show "hash_value (heap c' child) = Some (compute_node_hash_values H cfg c' child)"
    using f(3) parts(2) by (simp add: compute_node_hash_values_def kd f(7) flip: prior_hash_def)
  show "node_hashes c' new @ node_hashes c' child = node_hashes c child"
    using f(2,3) w by (simp add: node_hashes_def)
  show "token_ids (rkey (heap c' new)) @ token_ids (rkey (heap c' child)) = ?ts" using f(6,7) by simp
qed

text \<open>What a node with its own hashes announces when it goes.\<close>

lemma remove_event_own:
  assumes "hash_value (heap c n) = Some (compute_node_hash_values H cfg c n)"
  shows "record_remove_event True H num cfg n (c, q) = Inr (c, q @ map (\<lambda>h. BlockRemoved (num h)) (node_hashes c n))"
proof -
  have "ensure_hashes H cfg n c = c" using assms by (simp add: ensure_hashes_def)
  moreover have "length (node_hashes c n) = length (pages (nat (page_size cfg)) (token_ids (rkey (heap c n))))"
    using assms by (simp add: node_hashes_def compute_node_hash_values_def page_hashes_length)
  ultimately show ?thesis by (simp add: record_remove_event_def removed_events_ok)
qed

text \<open>
  C15: The blocks announced for a node are the blocks announced when it goes, even when it was split in
  between: storing a node raises nothing and announces one block per page, in order, with the page's
  tokens; and after a split at a page boundary the removal events of the child and then of the new
  parent raise nothing and announce exactly the hashes that were stored, the parent's pages first when
  the two are put in path order.
\<close>

theorem block_names_survive_splits:
  assumes t: "tree_ok cfg S c" and n: "n \<in> S" "n \<noteq> root_node c" and fresh: "hash_value (heap c n) = None"
    and pg: "0 < page_size cfg"
  shows "\<exists>c1 es. record_store_event True H num cfg n (c, q) = Inr (c1, q @ es)
    \<and> map stored_tokens es = pages (nat (page_size cfg)) (token_ids (rkey (heap c n)))
    \<and> (\<forall>tm k c2 new. split_node cfg tm n k c1 = Inr (c2, new) \<and> page_size cfg dvd k \<and> 0 < k \<and> k \<le> key_len (rkey (heap c n)) \<longrightarrow>
         (\<exists>lo hi. record_remove_event True H num cfg n (c2, q) = Inr (c2, q @ lo)
            \<and> record_remove_event True H num cfg new (c2, q) = Inr (c2, q @ hi)
            \<and> map removed_hash (hi @ lo) = map stored_hash es))"
proof -
  obtain p where p: "rparent (heap c n) = Some p" using tree_ok_nodeD [OF t n] by metis
  have pn: "p \<noteq> n" using depth_less_parent [OF t n p] by auto
  define c1 where "c1 = ensure_hashes H cfg n c"
  have c1: "c1 = upd_node n (\<lambda>x. x\<lparr>hash_value := Some (compute_node_hash_values H cfg c n)\<rparr>) c"
    using fresh by (simp add: c1_def ensure_hashes_def)
  have f: "rparent (heap c1 m) = rparent (heap c m)" "rkey (heap c1 m) = rkey (heap c m)" "rvalue (heap c1 m) = rvalue (heap c m)"
    "rdepth (heap c1 m) = rdepth (heap c m)" "rchildren (heap c1 m) = rchildren (heap c m)" "lock_ref (heap c1 m) = lock_ref (heap c m)"
    "root_node c1 = root_node c" "counter c1 = counter c" for m
    by (simp_all add: c1 upd_node_def)
  have t1: "tree_ok cfg S c1" using t unfolding tree_ok_def node_ok_def child_ok_def f .
  have "compute_node_hash_values H cfg c1 n = compute_node_hash_values H cfg c n"
    using p pn by (simp add: compute_node_hash_values_def f get_last_hash_value_def) (simp add: c1 upd_node_def)
  then have own: "hash_value (heap c1 n) = Some (compute_node_hash_values H cfg c1 n)" by (simp add: c1 upd_node_def)
  have "length (node_hashes c1 n) = length (pages (nat (page_size cfg)) (token_ids (rkey (heap c1 n))))"
    using own by (simp add: node_hashes_def compute_node_hash_values_def page_hashes_length)
  then obtain es where es: "stored_events num (parent_block num c1 n) (pages (nat (page_size cfg)) (token_ids (rkey (heap c1 n)))) (node_hashes c1 n) = Inr es"
    "map stored_hash es = map num (node_hashes c1 n)" "map stored_tokens es = pages (nat (page_size cfg)) (token_ids (rkey (heap c1 n)))"
    using stored_events_ok by blast
  have st: "record_store_event True H num cfg n (c, q) = Inr (c1, q @ es)"
    using es(1) by (simp add: record_store_event_def flip: c1_def)
  have rm: "\<exists>lo hi. record_remove_event True H num cfg n (c2, q) = Inr (c2, q @ lo)
      \<and> record_remove_event True H num cfg new (c2, q) = Inr (c2, q @ hi) \<and> map removed_hash (hi @ lo) = map stored_hash es"
    if s: "split_node cfg tm n k c1 = Inr (c2, new)" "page_size cfg dvd k" "0 < k" "k \<le> key_len (rkey (heap c n))" for tm k c2 new
  proof -
    have r1: "n \<noteq> root_node c1" "k \<le> key_len (rkey (heap c1 n))" using n(2) s(4) by (simp_all add: f)
    note h = split_node_hashes [OF t1 n(1) r1(1) s(1) pg s(2,3) r1(2) own]
    show ?thesis
      using remove_event_own [OF h(1), of num q] remove_event_own [OF h(2), of num q] es(2)
      by (simp flip: h(3) add: comp_def)
  qed
  show ?thesis using st es(3) [unfolded f] rm by blast
qed

text \<open>A hash that numbers a page by its first token, on the cache with the one key [1, 2, 3].\<close>

definition demo_hash :: hash_fn where
  "demo_hash page prior = replicate (nat (hd page)) CHR ''x'' @ (case prior of None \<Rightarrow> [] | Some s \<Rightarrow> s)"

theorem block_names_survive_splits_witness:
  "\<exists>c1 es. record_store_event True demo_hash (\<lambda>s. int (length s)) one_config 1 (one_cache, []) = Inr (c1, es)
     \<and> map stored_tokens es = [[1], [2], [3]]"
proof -
  have "tree_ok one_config {0, 1} one_cache" using one_cache_ok by (simp add: rc_ok_def)
  moreover have "1 \<noteq> root_node one_cache" "hash_value (heap one_cache 1) = None" "0 < page_size one_config"
    "pages (nat (page_size one_config)) (token_ids (rkey (heap one_cache 1))) = [[1], [2], [3]]"
    by (simp_all add: one_defs pages.simps)
  ultimately show ?thesis
    using block_names_survive_splits [of one_config "{0, 1}" one_cache 1 demo_hash "\<lambda>s. int (length s)" "[]"] by auto
qed

end
