(* ===== verification/Text_Edit.thy ===== *)
theory Text_Edit
  imports Py_Str
begin

text \<open>
  Editing texts as the installers do: \<open>w in s\<close>, \<open>s.replace(old, new)\<close>, \<open>s.rstrip()\<close> and
  \<open>re.sub(pattern, repl, s, count=1)\<close>. A pattern is the sequence of its parts; the matcher lists all
  ways to match at a position in the order in which Python's backtracking tries them, so its first
  element is the match that \<open>re\<close> takes. A text is a string over the code points below 256.
\<close>

section \<open>Substrings\<close>

abbreviation nl :: char where "nl \<equiv> CHR 0x0A"

definition text_of :: "string list \<Rightarrow> string" where
  "text_of ls = concat (map (\<lambda>l. l @ [nl]) ls)"

fun contains :: "string \<Rightarrow> string \<Rightarrow> bool" where
  "contains w [] \<longleftrightarrow> w = []"
| "contains w (c # s) \<longleftrightarrow> startswith (c # s) w \<or> contains w s"

function replace_all :: "string \<Rightarrow> string \<Rightarrow> string \<Rightarrow> string" where
  "replace_all old new s =
     (if old = [] \<or> s = [] then s
      else if startswith s old then new @ replace_all old new (drop (length old) s)
      else hd s # replace_all old new (tl s))"
  by pat_completeness auto
termination by (relation "measure (\<lambda>(old, new, s). length s)") auto

declare replace_all.simps [simp del]

fun replace_once :: "string \<Rightarrow> string \<Rightarrow> string \<Rightarrow> string" where
  "replace_once old new [] = (if old = [] then new else [])"
| "replace_once old new (c # s) =
     (if startswith (c # s) old then new @ drop (length old) (c # s) else c # replace_once old new s)"

definition rstrip :: "string \<Rightarrow> string" where
  "rstrip s = rev (dropWhile is_space (rev s))"

text \<open>\<open>read_text\<close> translates the line endings \<open>\r\n\<close> and \<open>\r\<close>.\<close>

fun universal_newlines :: "string \<Rightarrow> string" where
  "universal_newlines [] = []"
| "universal_newlines [c] = [if c = CHR 0x0D then nl else c]"
| "universal_newlines (c # d # s) =
     (if c = CHR 0x0D then (if d = nl then nl # universal_newlines s else nl # universal_newlines (d # s))
      else c # universal_newlines (d # s))"

section \<open>Patterns\<close>

text \<open>
  \<open>Lit w\<close> is literal text; \<open>Rep lazy k P\<close> is \<open>[..]{k,}\<close> over a class of characters, with a question mark
  behind it when lazy; \<open>Open k\<close> and \<open>Close k\<close> are the parentheses of group \<open>k\<close>; \<open>OneOf ws\<close> is
  \<open>(?:a|b|..)\<close>; \<open>Ahead\<close> is a lookahead and \<open>Edge\<close> is \<open>\b\<close>.
\<close>

datatype rx_part =
  Lit string | Rep bool nat "char \<Rightarrow> bool" | Open nat | Close nat | OneOf "string list" | Ahead "rx_part list" | Edge

type_synonym marks = "(nat \<times> nat \<times> nat) list"

definition any_char :: "char \<Rightarrow> bool" where "any_char c = True"

definition not_newline :: "char \<Rightarrow> bool" where "not_newline c \<longleftrightarrow> c \<noteq> nl"

definition word_char :: "char \<Rightarrow> bool" where
  "word_char c \<longleftrightarrow> (let n = (of_char c :: nat) in
     (48 \<le> n \<and> n \<le> 57) \<or> (65 \<le> n \<and> n \<le> 90) \<or> n = 95 \<or> (97 \<le> n \<and> n \<le> 122)
     \<or> n \<in> {170, 178, 179, 181, 185, 186, 188, 189, 190} \<or> (192 \<le> n \<and> n \<noteq> 215 \<and> n \<noteq> 247))"

definition word_at :: "string \<Rightarrow> nat \<Rightarrow> bool" where
  "word_at s i \<longleftrightarrow> i < length s \<and> word_char (s ! i)"

definition edge_at :: "string \<Rightarrow> nat \<Rightarrow> bool" where
  "edge_at s i \<longleftrightarrow> (0 < i \<and> word_at s (i - 1)) \<noteq> word_at s i"

definition repeats :: "bool \<Rightarrow> nat \<Rightarrow> (char \<Rightarrow> bool) \<Rightarrow> string \<Rightarrow> nat list" where
  "repeats lazy k P s = (let ks = [k..<Suc (length (takeWhile P s))] in if lazy then ks else rev ks)"

fun rx_match :: "rx_part list \<Rightarrow> string \<Rightarrow> nat \<Rightarrow> marks \<Rightarrow> (nat \<times> marks) list" where
  "rx_match [] s i g = [(i, g)]"
| "rx_match (Lit w # ps) s i g = (if startswith (drop i s) w then rx_match ps s (i + length w) g else [])"
| "rx_match (Rep lazy k P # ps) s i g = concat (map (\<lambda>j. rx_match ps s (i + j) g) (repeats lazy k P (drop i s)))"
| "rx_match (Open k # ps) s i g = rx_match ps s i ((k, i, i) # g)"
| "rx_match (Close k # ps) s i g =
     rx_match ps s i (case map_of g k of None \<Rightarrow> g | Some (a, b) \<Rightarrow> (k, a, i) # g)"
| "rx_match (OneOf ws # ps) s i g =
     concat (map (\<lambda>w. if startswith (drop i s) w then rx_match ps s (i + length w) g else []) ws)"
| "rx_match (Ahead qs # ps) s i g = (if rx_match qs s i g = [] then [] else rx_match ps s i g)"
| "rx_match (Edge # ps) s i g = (if edge_at s i then rx_match ps s i g else [])"

text \<open>The leftmost position with a match, and the first match there.\<close>

definition rx_search :: "rx_part list \<Rightarrow> string \<Rightarrow> (nat \<times> nat \<times> marks) option" where
  "rx_search ps s =
     (case filter (\<lambda>i. rx_match ps s i [] \<noteq> []) [0..<Suc (length s)] of
        [] \<Rightarrow> None
      | i # _ \<Rightarrow> (case hd (rx_match ps s i []) of (j, g) \<Rightarrow> Some (i, j, g)))"

definition group_text :: "string \<Rightarrow> marks \<Rightarrow> nat \<Rightarrow> string" where
  "group_text s g k = (case map_of g k of None \<Rightarrow> [] | Some (a, b) \<Rightarrow> drop a (take b s))"

text \<open>The replacement is a function of the groups; a template is a list of texts and group numbers.\<close>

datatype tmpl = Txt string | Grp nat

definition expand :: "tmpl list \<Rightarrow> (nat \<Rightarrow> string) \<Rightarrow> string" where
  "expand t grp = concat (map (\<lambda>p. case p of Txt w \<Rightarrow> w | Grp k \<Rightarrow> grp k) t)"

definition rx_sub :: "rx_part list \<Rightarrow> ((nat \<Rightarrow> string) \<Rightarrow> string) \<Rightarrow> string \<Rightarrow> string" where
  "rx_sub ps repl s =
     (case rx_search ps s of
        None \<Rightarrow> s
      | Some (i, j, g) \<Rightarrow> take i s @ repl (group_text s g) @ drop j s)"

section \<open>Facts\<close>

lemma startswith_iff: "startswith s p \<longleftrightarrow> (\<exists>rest. s = p @ rest)"
  unfolding startswith_def by (metis append_eq_conv_conj append_take_drop_id)

lemma startswith_append [simp]: "startswith (p @ s) p"
  by (simp add: startswith_def)

lemma contains_iff: "contains w s \<longleftrightarrow> (\<exists>as bs. s = as @ w @ bs)"
proof (induction s)
  case (Cons c s)
  have "(\<exists>as bs. c # s = as @ w @ bs) \<longleftrightarrow> (\<exists>rest. c # s = w @ rest) \<or> (\<exists>as bs. s = as @ w @ bs)"
    by (metis append_Cons append_Nil list.exhaust list.inject)
  then show ?case using Cons by (simp add: startswith_iff)
qed auto

lemma contains_append: "contains w s \<Longrightarrow> contains w (as @ s @ bs)"
  unfolding contains_iff by (metis append.assoc)

lemma contains_self [simp]: "contains w (as @ w @ bs)"
  unfolding contains_iff by blast

lemma startswith_fits:
  assumes "startswith (drop i s) w" and "i \<le> length s"
  shows "i + length w \<le> length s"
proof -
  obtain rest where "drop i s = w @ rest" using assms(1) by (auto simp: startswith_iff)
  then have "length (drop i s) = length w + length rest" by simp
  then show ?thesis using assms(2) by simp
qed

text \<open>A match lies inside the text, behind its start.\<close>

lemma rx_match_bounds:
  "(j, g') \<in> set (rx_match ps s i g) \<Longrightarrow> i \<le> length s \<Longrightarrow> i \<le> j \<and> j \<le> length s"
proof (induction ps s i g arbitrary: j g' rule: rx_match.induct)
  case (2 w ps s i g)
  then have "i + length w \<le> j \<and> j \<le> length s" using startswith_fits [of i s w] by (auto split: if_splits)
  then show ?case by linarith
next
  case (3 lazy k P ps s i g)
  obtain n where n: "n \<in> set (repeats lazy k P (drop i s))" "(j, g') \<in> set (rx_match ps s (i + n) g)"
    using 3(2) by auto
  have "n \<le> length (takeWhile P (drop i s))" using n(1) by (auto simp: repeats_def Let_def split: if_splits)
  also have "\<dots> \<le> length (drop i s)" by (rule length_takeWhile_le)
  finally have "i + n \<le> length s" using 3(3) by simp
  from 3(1) [OF n(1,2) this] show ?case by simp
next
  case (6 ws ps s i g)
  obtain w where w: "w \<in> set ws" "startswith (drop i s) w" "(j, g') \<in> set (rx_match ps s (i + length w) g)"
    using 6(2) by (auto split: if_splits)
  from 6(1) [OF w(1,2,3) startswith_fits [OF w(2) 6(3)]] show ?case by simp
qed (auto split: if_splits option.splits)

text \<open>The first position that satisfies a predicate.\<close>

lemma filter_upt_Cons:
  assumes "filter P [0..<n] = i # rest"
  shows "P i" and "i < n" and "k < i \<Longrightarrow> \<not> P k"
proof -
  have "i \<in> set (filter P [0..<n])" unfolding assms by simp
  then show i: "P i" "i < n" by auto
  obtain us vs where uv: "[0..<n] = us @ i # vs" "\<forall>u \<in> set us. \<not> P u" using filter_eq_ConsD [OF assms] by blast
  have "length us < n" using arg_cong [OF uv(1), of length] by simp
  moreover have "[0..<n] ! length us = i" unfolding uv(1) by simp
  ultimately have "length us = i" by simp
  then have "us = [0..<i]" using arg_cong [OF uv(1), of "take i"] i(2) by (simp add: take_upt)
  then show "\<not> P k" if "k < i" using uv(2) that by simp
qed

lemma rx_search_Some:
  assumes "rx_search ps s = Some (i, j, g)"
  shows "i \<le> j \<and> j \<le> length s" and "(j, g) = hd (rx_match ps s i [])" and "rx_match ps s i [] \<noteq> []"
    and "k < i \<Longrightarrow> rx_match ps s k [] = []"
proof -
  obtain rest where f: "filter (\<lambda>i. rx_match ps s i [] \<noteq> []) [0..<Suc (length s)] = i # rest" and h: "hd (rx_match ps s i []) = (j, g)"
    using assms unfolding rx_search_def by (simp split: list.splits prod.splits del: upt_Suc)
  note F = filter_upt_Cons [OF f]
  show "rx_match ps s i [] \<noteq> []" "(j, g) = hd (rx_match ps s i [])" using F(1) h by simp_all
  then show "i \<le> j \<and> j \<le> length s" using rx_match_bounds [of j g ps s i "[]"] F(2) by (metis list.set_sel(1) less_Suc_eq_le)
  show "k < i \<Longrightarrow> rx_match ps s k [] = []" using F(3) by blast
qed

lemma rx_search_None: "rx_search ps s = None \<longleftrightarrow> (\<forall>i \<le> length s. rx_match ps s i [] = [])"
proof -
  have "rx_search ps s = None \<longleftrightarrow> filter (\<lambda>i. rx_match ps s i [] \<noteq> []) [0..<Suc (length s)] = []"
    unfolding rx_search_def by (simp split: list.splits prod.splits del: upt_Suc)
  then show ?thesis unfolding filter_empty_conv set_upt by (auto simp: less_Suc_eq_le)
qed

text \<open>A substitution exchanges one part of the text, or nothing.\<close>

lemma rx_sub_local:
  obtains "rx_sub ps repl s = s" | i j g where "rx_search ps s = Some (i, j, g)" "i \<le> j" "j \<le> length s"
    "s = take i s @ drop i (take j s) @ drop j s" "rx_sub ps repl s = take i s @ repl (group_text s g) @ drop j s"
proof (cases "rx_search ps s")
  case None
  then show ?thesis using that(1) by (simp add: rx_sub_def)
next
  case (Some r)
  obtain i j g where r: "r = (i, j, g)" by (cases r)
  note b = rx_search_Some(1) [OF Some [unfolded r]]
  have "s = take i s @ drop i (take j s) @ drop j s"
    using b by (metis append_take_drop_id append.assoc le_iff_add take_add min.absorb1 take_take)
  then show ?thesis using that(2) [OF Some [unfolded r]] b Some by (simp add: rx_sub_def r)
qed

end
