(* ===== verification/Patch_Files.thy ===== *)
theory Patch_Files
  imports Text_Edit
begin

text \<open>
  What the two installers share (\<open>src/python/peek/offline/sglang_patches/install.py\<close> and
  \<open>vllm_patches/install.py\<close>): the files of an installed package, the backup that is made before the
  first change, the edits guarded by a marker, and the revert. A file system maps paths to the contents
  of regular files; a path is the list of its parts. What is printed is left out, as are the errors of
  the operating system and of decoding.
\<close>

section \<open>Files\<close>

type_synonym path = "string list"
type_synonym files = "path \<Rightarrow> string option"

definition bak_path :: "path \<Rightarrow> path" where
  "bak_path p = butlast p @ [last p @ ''.peek_bak'']"

definition backup :: "path \<Rightarrow> files \<Rightarrow> files" where
  "backup p fs = (case fs (bak_path p) of None \<Rightarrow> fs(bak_path p := fs p) | Some b \<Rightarrow> fs)"

definition restore :: "path \<Rightarrow> files \<times> nat \<Rightarrow> files \<times> nat" where
  "restore p = (\<lambda>(fs, restored).
     case fs (bak_path p) of
       None \<Rightarrow> (fs, restored)
     | Some b \<Rightarrow> (fs(p \<mapsto> b, bak_path p := None), restored + 1))"

definition revert :: "path list \<Rightarrow> files \<Rightarrow> files \<times> nat" where
  "revert paths fs = foldl (\<lambda>s p. restore p s) (fs, 0) paths"

section \<open>Edits\<close>

text \<open>
  The local state of a patch function: \<open>text\<close>, \<open>changed\<close>, and the files, which only \<open>backup\<close> changes
  before the end. An edit is guarded by a condition on the text; \<open>edit_if\<close> always counts as a change,
  \<open>edit_try\<close> only when the text is another one afterwards. Both back the file up first, unless an
  earlier edit did.
\<close>

record edit =
  ed_text :: string
  ed_changed :: bool
  ed_files :: files

definition backed_up :: "path \<Rightarrow> edit \<Rightarrow> files" where
  "backed_up p e = (if ed_changed e then ed_files e else backup p (ed_files e))"

definition edit_if :: "(string \<Rightarrow> bool) \<Rightarrow> (string \<Rightarrow> string) \<Rightarrow> path \<Rightarrow> edit \<Rightarrow> edit" where
  "edit_if guard f p e =
     (if guard (ed_text e) then \<lparr>ed_text = f (ed_text e), ed_changed = True, ed_files = backed_up p e\<rparr> else e)"

definition edit_try :: "(string \<Rightarrow> bool) \<Rightarrow> (string \<Rightarrow> string) \<Rightarrow> path \<Rightarrow> edit \<Rightarrow> edit" where
  "edit_try guard f p e =
     (if guard (ed_text e)
      then let new_text = f (ed_text e)
           in \<lparr>ed_text = new_text, ed_changed = ed_changed e \<or> new_text \<noteq> ed_text e, ed_files = backed_up p e\<rparr>
      else e)"

definition lacks :: "string \<Rightarrow> string \<Rightarrow> bool" where
  "lacks marker s \<longleftrightarrow> \<not> contains marker s"

definition edit_file :: "(path \<Rightarrow> edit \<Rightarrow> edit) list \<Rightarrow> path \<Rightarrow> files \<Rightarrow> bool \<times> files" where
  "edit_file edits p fs =
     (case fs p of
        None \<Rightarrow> (False, fs)
      | Some t \<Rightarrow>
          let e = foldl (\<lambda>e ed. ed p e) \<lparr>ed_text = universal_newlines t, ed_changed = False, ed_files = fs\<rparr> edits
          in (True, if ed_changed e then (ed_files e)(p \<mapsto> ed_text e) else ed_files e))"

text \<open>\<open>if explicit_path\<close> is false for the empty string too.\<close>

datatype install_error = FileNotFoundError | ImportError

definition path_parts :: "string \<Rightarrow> path" where
  "path_parts s =
     (if startswith s ''//'' \<and> \<not> startswith s ''///'' then [''//'']
      else if startswith s ''/'' then [''/''] else [])
     @ filter (\<lambda>c. c \<noteq> [] \<and> c \<noteq> ''.'') (split_n (CHR ''/'') (length s) s)"

definition find_package_dir :: "(path \<Rightarrow> bool) \<Rightarrow> path option \<Rightarrow> string option \<Rightarrow> install_error + path" where
  "find_package_dir is_dir spec_origin explicit =
     (case explicit of
        Some (c # s) \<Rightarrow> (let p = path_parts (c # s) in if is_dir p then Inr p else Inl FileNotFoundError)
      | _ \<Rightarrow> (case spec_origin of None \<Rightarrow> Inl ImportError | Some q \<Rightarrow> Inr (butlast q)))"

text \<open>\<open>results = [(name, patch(dir)), ..]\<close>, evaluated in order.\<close>

fun run_patches :: "(files \<Rightarrow> bool \<times> files) list \<Rightarrow> files \<Rightarrow> bool list \<times> files" where
  "run_patches [] fs = ([], fs)"
| "run_patches (patch # ps) fs = (case patch fs of (ok, fs1) \<Rightarrow> case run_patches ps fs1 of (oks, fs2) \<Rightarrow> (ok # oks, fs2))"

text \<open>\<open>main\<close>: the exit code and the files. \<open>paths\<close> and \<open>patches\<close> are those of the package directory.\<close>

definition install_main ::
  "(path \<Rightarrow> path list) \<Rightarrow> (path \<Rightarrow> (files \<Rightarrow> bool \<times> files) list) \<Rightarrow> (path \<Rightarrow> bool) \<Rightarrow> path option \<Rightarrow> string list \<Rightarrow> files \<Rightarrow> int \<times> files"
where
  "install_main paths patches is_dir spec_origin args0 fs =
     (let do_revert = (''--revert'' \<in> set args0);
          args = (if do_revert then filter (\<lambda>a. a \<noteq> ''--revert'') args0 else args0);
          explicit = (case args of [] \<Rightarrow> None | a # _ \<Rightarrow> Some a)
      in case find_package_dir is_dir spec_origin explicit of
           Inl e \<Rightarrow> (1, fs)
         | Inr d \<Rightarrow>
             if do_revert then (0, fst (revert (paths d) fs))
             else case run_patches (patches d) fs of (results, fs') \<Rightarrow> (if list_all id results then 0 else 1, fs'))"

section \<open>What a revert restores\<close>

text \<open>The content that a revert would leave at a patched path.\<close>

definition origin :: "path \<Rightarrow> files \<Rightarrow> string option" where
  "origin p fs = (case fs (bak_path p) of Some b \<Rightarrow> Some b | None \<Rightarrow> fs p)"

definition apart :: "path list \<Rightarrow> bool" where
  "apart paths \<longleftrightarrow> distinct paths \<and> [] \<notin> set paths \<and> (\<forall>p \<in> set paths. \<forall>q \<in> set paths. bak_path p \<noteq> q)"

lemma bak_path_inj: "p \<noteq> [] \<Longrightarrow> q \<noteq> [] \<Longrightarrow> bak_path p = bak_path q \<longleftrightarrow> p = q"
  unfolding bak_path_def by (metis append_butlast_last_id append_same_eq butlast_snoc last_snoc)

lemma revert_other:
  "q \<notin> set paths \<Longrightarrow> q \<notin> bak_path ` set paths \<Longrightarrow> fst (foldl (\<lambda>s p. restore p s) s paths) q = fst s q"
  by (induction paths arbitrary: s) (auto simp: restore_def split: option.splits prod.splits)

lemma revert_exact:
  assumes "apart paths"
  shows "fst (revert paths fs) q =
    (if q \<in> set paths then origin q fs else if q \<in> bak_path ` set paths then None else fs q)"
proof -
  have "fst (foldl (\<lambda>s p. restore p s) (fs, k) paths) q =
      (if q \<in> set paths then origin q fs else if q \<in> bak_path ` set paths then None else fs q)" for k
    using assms
  proof (induction paths arbitrary: fs k)
    case (Cons p ps)
    let ?s = "restore p (fs, k)"
    have ap: "apart ps" "p \<notin> set ps" "p \<noteq> []" "bak_path p \<noteq> p" "p \<notin> bak_path ` set ps" "bak_path p \<notin> set ps"
      using Cons.prems by (auto simp: apart_def)
    have inj: "bak_path p \<noteq> bak_path r" if "r \<in> set ps" for r
      using bak_path_inj [of p r] that ap(2,3) Cons.prems by (auto simp: apart_def)
    have f: "fst ?s r = (if r = p then origin p fs else if r = bak_path p then None else fs r)" for r
      using ap(4) by (auto simp: restore_def origin_def split: option.splits)
    have o: "origin r (fst ?s) = origin r fs" if "r \<in> set ps" for r
      using that ap inj [OF that] by (auto simp: origin_def f split: option.splits)
    have "fst (foldl (\<lambda>s p. restore p s) (fs, k) (p # ps)) q = fst (foldl (\<lambda>s p. restore p s) (fst ?s, snd ?s) ps) q" by simp
    also have "\<dots> = (if q \<in> set ps then origin q (fst ?s) else if q \<in> bak_path ` set ps then None else fst ?s q)"
      by (rule Cons.IH [OF ap(1)])
    also have "\<dots> = (if q \<in> set (p # ps) then origin q fs else if q \<in> bak_path ` set (p # ps) then None else fs q)"
      using ap o by (auto simp: f)
    finally show ?case .
  qed simp
  then show ?thesis by (simp add: revert_def)
qed

section \<open>Patches that a revert undoes\<close>

text \<open>
  The contract of a patch function: it touches its file and the backup only, does nothing to a missing
  file, never overwrites a backup, and writes only what is backed up.
\<close>

locale guarded_patch =
  fixes target :: path and patch :: "files \<Rightarrow> bool \<times> files"
  assumes frame: "q \<noteq> target \<Longrightarrow> q \<noteq> bak_path target \<Longrightarrow> snd (patch fs) q = fs q"
    and keeps_origin: "origin target (snd (patch fs)) = origin target fs"
    and keeps_backup: "fs (bak_path target) = Some b \<Longrightarrow> snd (patch fs) (bak_path target) = Some b"
    and writes_behind_backup: "snd (patch fs) target \<noteq> fs target \<Longrightarrow> snd (patch fs) (bak_path target) \<noteq> None"
    and missing: "fs target = None \<Longrightarrow> patch fs = (False, fs)"
    and keeps_file: "fs target \<noteq> None \<Longrightarrow> snd (patch fs) target \<noteq> None"
begin

lemma origin_other:
  assumes "r \<noteq> target" and "r \<noteq> bak_path target" and "bak_path r \<noteq> target" and "bak_path r \<noteq> bak_path target"
  shows "origin r (snd (patch fs)) = origin r fs"
  using frame [OF assms(1,2)] frame [OF assms(3,4)] by (simp add: origin_def split: option.split)

end

definition patch_result :: "path \<Rightarrow> files \<Rightarrow> files \<Rightarrow> bool" where
  "patch_result p fs fs' \<longleftrightarrow> fs' = fs \<or> fs' = backup p fs \<or> (\<exists>t. fs' = (backup p fs)(p \<mapsto> t))"

lemma patch_results [simp]:
  "patch_result p fs fs" "patch_result p fs (backup p fs)" "patch_result p fs ((backup p fs)(p \<mapsto> t))"
  by (auto simp: patch_result_def)

lemma guarded_patchI:
  assumes "p \<noteq> []" and r: "\<And>fs. fs p \<noteq> None \<Longrightarrow> patch_result p fs (snd (patch fs))"
    and m: "\<And>fs. fs p = None \<Longrightarrow> patch fs = (False, fs)"
  shows "guarded_patch p patch"
proof
  have ne: "bak_path p \<noteq> p" using assms(1) by (cases p rule: rev_cases) (simp_all add: bak_path_def)
  fix q fs b
  have R: "patch_result p fs (snd (patch fs)) \<and> (fs p = None \<longrightarrow> snd (patch fs) = fs)"
    using r m by (cases "fs p") (auto simp: patch_result_def)
  show "q \<noteq> p \<Longrightarrow> q \<noteq> bak_path p \<Longrightarrow> snd (patch fs) q = fs q"
    using R by (auto simp: patch_result_def backup_def split: option.splits)
  show "origin p (snd (patch fs)) = origin p fs" "snd (patch fs) p \<noteq> fs p \<Longrightarrow> snd (patch fs) (bak_path p) \<noteq> None"
    using R ne by (cases "fs p"; auto simp: patch_result_def backup_def origin_def split: option.splits)+
  show "fs (bak_path p) = Some b \<Longrightarrow> snd (patch fs) (bak_path p) = Some b"
    using R ne by (auto simp: patch_result_def backup_def split: option.splits)
  show "fs p = None \<Longrightarrow> patch fs = (False, fs)" by (rule m)
  show "fs p \<noteq> None \<Longrightarrow> snd (patch fs) p \<noteq> None"
    using R ne by (auto simp: patch_result_def backup_def split: option.splits)
qed

text \<open>A sequence of guarded edits is such a patch.\<close>

definition edit_ok :: "(path \<Rightarrow> edit \<Rightarrow> edit) \<Rightarrow> bool" where
  "edit_ok ed \<longleftrightarrow> (\<forall>p e. (ed_files (ed p e) = ed_files e \<and> ed_changed (ed p e) = ed_changed e)
     \<or> ed_files (ed p e) = backed_up p e \<and> (ed_changed e \<longrightarrow> ed_changed (ed p e)))"

lemma edits_ok [simp]: "edit_ok (edit_if g f)" "edit_ok (edit_try g f)"
  by (auto simp: edit_ok_def edit_if_def edit_try_def Let_def)

lemma backup_twice [simp]: "backup p (backup p fs) = backup p fs"
  by (auto simp: backup_def split: option.splits)

lemma edits_files:
  "\<forall>ed \<in> set eds. edit_ok ed \<Longrightarrow> ed_files e \<in> {fs, backup p fs} \<Longrightarrow> (ed_changed e \<longrightarrow> ed_files e = backup p fs) \<Longrightarrow>
     (let e' = foldl (\<lambda>e ed. ed p e) e eds in ed_files e' \<in> {fs, backup p fs} \<and> (ed_changed e' \<longrightarrow> ed_files e' = backup p fs))"
proof (induction eds arbitrary: e)
  case (Cons ed eds)
  have "edit_ok ed" using Cons.prems(1) by simp
  then have "ed_files (ed p e) \<in> {fs, backup p fs}" "ed_changed (ed p e) \<longrightarrow> ed_files (ed p e) = backup p fs"
    using Cons.prems(2,3) unfolding edit_ok_def backed_up_def by (metis backup_twice insert_iff singletonD)+
  from Cons.IH [OF _ this] Cons.prems(1) show ?case by simp
qed simp

lemma edit_file_guarded:
  assumes "p \<noteq> []" and "\<forall>ed \<in> set eds. edit_ok ed"
  shows "guarded_patch p (edit_file eds p)"
proof (rule guarded_patchI [OF assms(1)])
  show "patch_result p fs (snd (edit_file eds p fs))" if ne: "fs p \<noteq> None" for fs
  proof -
    obtain t where t: "fs p = Some t" using ne by blast
    define e where "e = foldl (\<lambda>e ed. ed p e) \<lparr>ed_text = universal_newlines t, ed_changed = False, ed_files = fs\<rparr> eds"
    have "ed_files e \<in> {fs, backup p fs}" "ed_changed e \<longrightarrow> ed_files e = backup p fs"
      using edits_files [OF assms(2), of "\<lparr>ed_text = universal_newlines t, ed_changed = False, ed_files = fs\<rparr>" fs p]
      by (simp_all add: e_def Let_def)
    moreover have "snd (edit_file eds p fs) = (if ed_changed e then (ed_files e)(p \<mapsto> ed_text e) else ed_files e)"
      by (simp add: edit_file_def t e_def Let_def)
    ultimately show ?thesis unfolding patch_result_def by (cases "ed_changed e") auto
  qed
qed (simp add: edit_file_def)

section \<open>Installing and reverting\<close>

locale installer =
  fixes targets :: "path list" and patches :: "(files \<Rightarrow> bool \<times> files) list"
  assumes apart: "apart targets" and guarded: "list_all2 guarded_patch targets patches"
begin

lemma bak_apart: "q \<in> set targets \<Longrightarrow> r \<in> set targets \<Longrightarrow> r \<noteq> bak_path q"
  using apart by (auto simp: apart_def)

lemma run_part:
  assumes "list_all2 guarded_patch qs ps" and "set qs \<subseteq> set targets"
  shows "(\<forall>r \<in> set targets. origin r (snd (run_patches ps fs)) = origin r fs)
    \<and> (\<forall>r. r \<notin> set qs \<longrightarrow> r \<notin> bak_path ` set qs \<longrightarrow> snd (run_patches ps fs) r = fs r)"
  using assms
proof (induction qs ps arbitrary: fs rule: list_all2_induct)
  case (Cons q qs patch ps)
  let ?fs = "snd (patch fs)"
  have q: "q \<in> set targets" "q \<noteq> []" using Cons.prems apart by (auto simp: apart_def)
  have IH: "\<forall>r \<in> set targets. origin r (snd (run_patches ps ?fs)) = origin r ?fs"
    "\<forall>r. r \<notin> set qs \<longrightarrow> r \<notin> bak_path ` set qs \<longrightarrow> snd (run_patches ps ?fs) r = ?fs r"
    using Cons.IH [of ?fs] Cons.prems by simp_all
  have run: "snd (run_patches (patch # ps) fs) = snd (run_patches ps ?fs)" by (simp add: case_prod_beta)
  have "origin r ?fs = origin r fs" if "r \<in> set targets" for r
  proof (cases "r = q")
    case True
    then show ?thesis using guarded_patch.keeps_origin [OF Cons.hyps(1)] by simp
  next
    case False
    have r: "r \<noteq> []" "bak_path r \<noteq> q" "r \<noteq> bak_path q" using apart that q(1) by (auto simp: apart_def)
    then show ?thesis using guarded_patch.origin_other [OF Cons.hyps(1) False] bak_path_inj [OF r(1) q(2)] False by blast
  qed
  moreover have "?fs r = fs r" if "r \<noteq> q" "r \<noteq> bak_path q" for r by (rule guarded_patch.frame [OF Cons.hyps(1) that])
  ultimately show ?case using IH unfolding run by simp
qed simp

lemma run_origin: "r \<in> set targets \<Longrightarrow> origin r (snd (run_patches patches fs)) = origin r fs"
  using run_part [OF guarded subset_refl] by blast

lemma run_frame: "r \<notin> set targets \<Longrightarrow> r \<notin> bak_path ` set targets \<Longrightarrow> snd (run_patches patches fs) r = fs r"
  using run_part [OF guarded subset_refl] by blast

text \<open>A revert undoes any number of installations, of all or some of the files.\<close>

lemma revert_absorbs_part:
  assumes "list_all2 guarded_patch qs ps" and "set qs \<subseteq> set targets"
  shows "fst (revert targets (snd (run_patches ps fs))) = fst (revert targets fs)"
proof -
  have "snd (run_patches ps fs) r = fs r" if "r \<notin> set targets" "r \<notin> bak_path ` set targets" for r
    using run_part [OF assms, of fs] assms(2) that by (meson image_mono subsetD)
  then show ?thesis unfolding fun_eq_iff revert_exact [OF apart] using run_part [OF assms, of fs] by simp
qed

lemma revert_absorbs: "fst (revert targets (snd (run_patches patches fs))) = fst (revert targets fs)"
  by (rule revert_absorbs_part [OF guarded subset_refl])

lemma revert_clean: "(\<And>p. p \<in> set targets \<Longrightarrow> fs (bak_path p) = None) \<Longrightarrow> fst (revert targets fs) = fs"
  unfolding fun_eq_iff revert_exact [OF apart] by (auto simp: origin_def)

text \<open>Backups are made once and never overwritten; nothing is written without one.\<close>

lemma run_backups:
  assumes "list_all2 guarded_patch qs ps" and "set qs \<subseteq> set targets" and "distinct qs"
  shows "\<forall>r \<in> set targets. (fs (bak_path r) \<noteq> None \<longrightarrow> snd (run_patches ps fs) (bak_path r) = fs (bak_path r))
    \<and> (snd (run_patches ps fs) r \<noteq> fs r \<longrightarrow> snd (run_patches ps fs) (bak_path r) \<noteq> None)"
  using assms
proof (induction qs ps arbitrary: fs rule: list_all2_induct)
  case (Cons q qs patch ps)
  let ?fs = "snd (patch fs)"
  note g = Cons.hyps(1)
  have q: "q \<in> set targets" "q \<noteq> []" "q \<notin> set qs" using Cons.prems apart by (auto simp: apart_def)
  have run: "snd (run_patches (patch # ps) fs) = snd (run_patches ps ?fs)" by (simp add: case_prod_beta)
  show ?case
  proof (intro ballI)
    fix r assume r: "r \<in> set targets"
    have IH: "?fs (bak_path r) \<noteq> None \<longrightarrow> snd (run_patches ps ?fs) (bak_path r) = ?fs (bak_path r)"
      "snd (run_patches ps ?fs) r \<noteq> ?fs r \<longrightarrow> snd (run_patches ps ?fs) (bak_path r) \<noteq> None"
      using Cons.IH [of ?fs] Cons.prems r by simp_all
    have S: "(fs (bak_path r) \<noteq> None \<longrightarrow> ?fs (bak_path r) = fs (bak_path r)) \<and> (?fs r \<noteq> fs r \<longrightarrow> ?fs (bak_path r) \<noteq> None)"
    proof (cases "r = q")
      case True
      then show ?thesis using guarded_patch.keeps_backup [OF g] guarded_patch.writes_behind_backup [OF g] by (cases "fs (bak_path q)") auto
    next
      case False
      have n: "r \<noteq> []" "bak_path r \<noteq> q" "r \<noteq> bak_path q" using apart r q(1) by (auto simp: apart_def)
      then show ?thesis using guarded_patch.frame [OF g] bak_path_inj [OF n(1) q(2)] False by simp
    qed
    show "(fs (bak_path r) \<noteq> None \<longrightarrow> snd (run_patches (patch # ps) fs) (bak_path r) = fs (bak_path r))
        \<and> (snd (run_patches (patch # ps) fs) r \<noteq> fs r \<longrightarrow> snd (run_patches (patch # ps) fs) (bak_path r) \<noteq> None)"
      unfolding run using IH S by metis
  qed
qed simp

text \<open>A file that is missing stays missing, and what a successful patch leaves is there at the end.\<close>

lemma run_missing:
  assumes "list_all2 guarded_patch qs ps" and "set qs \<subseteq> set targets" and "r \<in> set targets"
  shows "snd (run_patches ps fs) r = None \<longleftrightarrow> fs r = None"
  using assms(1,2)
proof (induction qs ps arbitrary: fs rule: list_all2_induct)
  case (Cons q qs patch ps)
  note g = Cons.hyps(1)
  have q: "q \<in> set targets" using Cons.prems by simp
  have "snd (patch fs) r = None \<longleftrightarrow> fs r = None"
  proof (cases "r = q")
    case True
    then show ?thesis using guarded_patch.missing [OF g, of fs] guarded_patch.keeps_file [OF g, of fs] by (cases "fs q") auto
  next
    case False
    then show ?thesis using guarded_patch.frame [OF g False, of fs] bak_apart [OF q assms(3)] by simp
  qed
  then show ?case using Cons.IH [of "snd (patch fs)"] Cons.prems by (simp add: case_prod_beta)
qed simp

lemma run_results:
  assumes "list_all2 guarded_patch qs ps" and "set qs \<subseteq> set targets" and "distinct qs"
    and "\<forall>(q, patch) \<in> set (zip qs ps). \<forall>fs. fst (patch fs) \<longrightarrow> Q q (snd (patch fs) q)"
  shows "list_all id (fst (run_patches ps fs)) \<Longrightarrow> r \<in> set qs \<Longrightarrow> Q r (snd (run_patches ps fs) r)"
  using assms
proof (induction qs ps arbitrary: fs r rule: list_all2_induct)
  case (Cons q qs patch ps)
  let ?fs = "snd (patch fs)"
  have ok: "fst (patch fs)" "list_all id (fst (run_patches ps ?fs))" using Cons.prems(1) by (auto simp: case_prod_beta id_def)
  have run: "snd (run_patches (patch # ps) fs) = snd (run_patches ps ?fs)" by (simp add: case_prod_beta)
  show ?case
  proof (cases "r \<in> set qs")
    case True
    show ?thesis unfolding run by (rule Cons.IH [OF ok(2) True]) (use Cons.prems in auto)
  next
    case False
    then have r: "r = q" using Cons.prems(2) by simp
    have "q \<notin> set qs" "q \<notin> bak_path ` set qs" using Cons.prems(3,4) apart by (auto simp: apart_def)
    then have "snd (run_patches ps ?fs) q = ?fs q" using run_part [OF Cons.hyps(2), of ?fs] Cons.prems(3) by simp
    then show ?thesis using Cons.prems(5) ok(1) unfolding run r by auto
  qed
qed simp

lemma run_succeeds:
  assumes "list_all2 guarded_patch qs ps" and "set qs \<subseteq> set targets" and "distinct qs"
    and "\<forall>(q, patch) \<in> set (zip qs ps). \<forall>fs. fs q \<noteq> None \<longrightarrow> fst (patch fs)"
  shows "\<forall>q \<in> set qs. fs q \<noteq> None \<Longrightarrow> list_all id (fst (run_patches ps fs))"
  using assms
proof (induction qs ps arbitrary: fs rule: list_all2_induct)
  case (Cons q qs patch ps)
  let ?fs = "snd (patch fs)"
  have "?fs r \<noteq> None" if "r \<in> set qs" for r
  proof -
    have "r \<noteq> q" "r \<noteq> bak_path q" using that Cons.prems(2-4) bak_apart [of q r] by auto
    then show ?thesis using guarded_patch.frame [OF Cons.hyps(1), of r fs] Cons.prems(1) that by simp
  qed
  then have "list_all id (fst (run_patches ps ?fs))" by (intro Cons.IH) (use Cons.prems in auto)
  moreover have "fst (patch fs)" using Cons.prems(1,4) by auto
  ultimately show ?case by (simp add: case_prod_beta id_def)
qed simp

lemma backups_kept:
  assumes "r \<in> set targets"
  shows "fs (bak_path r) \<noteq> None \<Longrightarrow> snd (run_patches patches fs) (bak_path r) = fs (bak_path r)"
    and "snd (run_patches patches fs) r \<noteq> fs r \<Longrightarrow> snd (run_patches patches fs) (bak_path r) \<noteq> None"
  using run_backups [OF guarded subset_refl] assms apart by (auto simp: apart_def)

end

end
