(* ===== verification/Sglang_Install.thy ===== *)
theory Sglang_Install
  imports Patch_Files
begin

text \<open>
  \<open>src/python/peek/offline/sglang_patches/install.py\<close>: the texts it inserts and the edits of the four
  files of an installed SGLang, each guarded as in the source. What is printed is left out.
\<close>

section \<open>Patterns\<close>

abbreviation spaces0 :: rx_part where "spaces0 \<equiv> Rep False 0 is_space"
abbreviation spaces1 :: rx_part where "spaces1 \<equiv> Rep False 1 is_space"
abbreviation any_lazy :: rx_part where "any_lazy \<equiv> Rep True 0 any_char"
abbreviation line_lazy :: rx_part where "line_lazy \<equiv> Rep True 0 not_newline"
abbreviation sq :: char where "sq \<equiv> CHR 0x27"

definition sub_lines :: "rx_part list \<Rightarrow> tmpl list \<Rightarrow> string \<Rightarrow> string" where
  "sub_lines pat t = rx_sub pat (expand t)"

text \<open>A leftover of the project's old name.\<close>

definition fix_superkv :: "path \<Rightarrow> edit \<Rightarrow> edit" where
  "fix_superkv = edit_if (contains ''superkv'') (replace_all ''superkv'' ''peek'')"

section \<open>\<open>evict_policy.py\<close>\<close>

definition queue_aware_strategy_code :: string where
  "queue_aware_strategy_code = text_of [
     [],
     [],
     ''class QueueAwareStrategy(EvictionStrategy):'',
     ''    \"\"\"Queue-aware eviction: protects blocks referenced by the waiting queue.'',
     [],
     ''    Delegates scoring to ``peek.scheduler.queue_aware_eviction_priority``'',
     ''    so that the algorithm lives in peek core, not in the sglang patch.'',
     ''    \"\"\"'',
     [],
     ''    def get_priority(self, node: \"TreeNode\") -> Tuple[float, float]:'',
     ''        from peek.offline.scheduler import queue_aware_eviction_priority'',
     ''        return queue_aware_eviction_priority(node)'']"

definition add_strategy :: "path \<Rightarrow> edit \<Rightarrow> edit" where
  "add_strategy = edit_if (lacks ''QueueAwareStrategy'') (\<lambda>t. rstrip t @ [nl] @ queue_aware_strategy_code)"

definition patch_evict_policy :: "path \<Rightarrow> files \<Rightarrow> bool \<times> files" where
  "patch_evict_policy sglang_dir =
     edit_file [add_strategy, fix_superkv] (sglang_dir @ [''srt'', ''mem_cache'', ''evict_policy.py''])"

section \<open>\<open>radix_cache.py\<close>\<close>

definition match_prefix_readonly_method :: string where
  "match_prefix_readonly_method = text_of [
     [],
     ''    # ------------------------------------------------------------------'',
     ''    # Read-only prefix matching (no LRU timestamp update)'',
     ''    # ------------------------------------------------------------------'',
     [],
     ''    def match_prefix_readonly(self, params: MatchPrefixParams) -> MatchResult:'',
     ''        \"\"\"Like match_prefix but without updating LRU timestamps.'',
     [],
     ''        Used by Peek's scheduler to score cache state for all prefix'',
     ''        groups without poisoning eviction priority.  Only the groups'',
     ''        that are actually admitted should later get a real match_prefix'',
     ''        (via init_next_round_input) which refreshes their timestamps.'',
     ''        \"\"\"'',
     ''        key = params.key'',
     ''        key, _ = self.maybe_bigram_convert(key)'',
     [],
     ''        def empty_match_result():'',
     ''            return MatchResult('',
     ''                device_indices=torch.empty('',
     ''                    (0,),'',
     ''                    dtype=torch.int64,'',
     ''                    device=self.device,'',
     ''                ),'',
     ''                last_device_node=self.root_node,'',
     ''                last_host_node=self.root_node,'',
     ''            )'',
     [],
     ''        if self.disable or len(key) == 0:'',
     ''            return empty_match_result()'',
     [],
     ''        if self.page_size != 1:'',
     ''            page_aligned_len = len(key) // self.page_size * self.page_size'',
     ''            key = key[:page_aligned_len]'',
     [],
     ''        if len(key) == 0:'',
     ''            return empty_match_result()'',
     [],
     ''        value, last_node = self._match_prefix_helper(self.root_node, key, update_lru=False)'',
     ''        if value:'',
     ''            value = torch.cat(value)'',
     ''        else:'',
     ''            value = torch.empty((0,), dtype=torch.int64, device=self.device)'',
     ''        return MatchResult('',
     ''            device_indices=value,'',
     ''            last_device_node=last_node,'',
     ''            last_host_node=last_node,'',
     ''        )'']"

definition queue_ref_methods :: string where
  "queue_ref_methods = text_of [
     [],
     ''    # ------------------------------------------------------------------'',
     ''    # Queue-aware eviction: reference counting'',
     ''    # ------------------------------------------------------------------'',
     [],
     ''    def inc_queue_ref(self, node: TreeNode) -> None:'',
     ''        \"\"\"Increment queue_ref_count on *node* and all ancestors up to root.'',
     [],
     ''        Called when a waiting-queue request's prefix match lands on *node*,'',
     ''        indicating that every block on the path from root to *node* is needed'',
     ''        by at least one pending request.'',
     ''        \"\"\"'',
     ''        while node != self.root_node:'',
     ''            node.queue_ref_count += 1'',
     ''            node = node.parent'',
     [],
     ''    def dec_queue_ref(self, node: TreeNode) -> None:'',
     ''        \"\"\"Decrement queue_ref_count on *node* and all ancestors up to root.\"\"\"'',
     ''        while node != self.root_node:'',
     ''            node.queue_ref_count = max(0, node.queue_ref_count - 1)'',
     ''            node = node.parent'',
     [],
     ''    def reset_all_queue_refs(self) -> None:'',
     ''        \"\"\"Reset queue_ref_count to 0 on every node in the tree.'',
     [],
     ''        Called at the start of each scheduling cycle before recomputing'',
     ''        queue references from the current waiting queue.'',
     ''        \"\"\"'',
     ''        stack = [self.root_node]'',
     ''        while stack:'',
     ''            node = stack.pop()'',
     ''            node.queue_ref_count = 0'',
     ''            for child in node.children.values():'',
     ''                stack.append(child)'']"

text \<open>The import: behind the parenthesis of a multi-line import, or after a one-line import.\<close>

definition import_strategy :: "string \<Rightarrow> string" where
  "import_strategy t =
     (let t1 = replace_once ''from sglang.srt.mem_cache.evict_policy import (''
                 (''from sglang.srt.mem_cache.evict_policy import ('' @ [nl] @ ''    QueueAwareStrategy,'') t
      in if lacks ''QueueAwareStrategy'' t1
         then sub_lines [Open 1, Lit ''from sglang.srt.mem_cache.evict_policy import '', Rep False 1 not_newline, Close 1]
                [Grp 1, Txt ([nl] @ ''from sglang.srt.mem_cache.evict_policy import QueueAwareStrategy'')] t1
         else t1)"

definition add_import :: "path \<Rightarrow> edit \<Rightarrow> edit" where
  "add_import = edit_if (lacks ''QueueAwareStrategy'') import_strategy"

definition add_ref_count :: "path \<Rightarrow> edit \<Rightarrow> edit" where
  "add_ref_count = edit_if (lacks ''queue_ref_count'')
     (sub_lines [Open 1, Lit (text_of [''self.priority = priority'']), Close 1]
        [Grp 1, Txt (text_of [
           ''        # queue-aware eviction: number of waiting-queue requests referencing'',
           ''        # this node (or an ancestor/descendant sharing its prefix blocks)'',
           ''        self.queue_ref_count = 0''])])"

text \<open>The case of the strategy, and the error message.\<close>

definition add_case :: "string \<Rightarrow> string" where
  "add_case = sub_lines
     [Open 1, Lit ''elif self.eviction_policy == \"priority\":'', spaces0, Lit [nl], spaces0, Lit ''self.eviction_strategy'',
      line_lazy, Lit (text_of [''PriorityStrategy()'']), Close 1]
     [Grp 1, Txt (text_of [
        ''        elif self.eviction_policy == \"queue-aware\":'',
        ''            self.eviction_strategy: EvictionStrategy = QueueAwareStrategy()''])]"

definition extend_message :: "string \<Rightarrow> string" where
  "extend_message = sub_lines
     [Lit (''Supported policies: '' @ [sq]), line_lazy, Lit ([sq] @ ''.'')]
     [Txt (''Supported policies: '' @ [sq] @ ''lru', 'lfu', 'fifo', 'mru', 'filo', 'priority', 'queue-aware'' @ [sq] @ ''.'')]"

definition add_policy :: "path \<Rightarrow> edit \<Rightarrow> edit" where
  "add_policy = edit_if (lacks ''\"queue-aware\"'') (\<lambda>t. extend_message (add_case t))"

definition inherit_count :: "path \<Rightarrow> edit \<Rightarrow> edit" where
  "inherit_count = edit_if (lacks ''queue_ref_count = child.queue_ref_count'')
     (sub_lines [Open 1, Lit (text_of [''new_node.lock_ref = child.lock_ref'']), Close 1,
         Open 2, spaces0, Lit ''new_node.key = child.key[:split_len]'', Close 2]
        [Grp 1, Txt (text_of [''        new_node.queue_ref_count = child.queue_ref_count'']), Grp 2])"

definition add_ref_methods :: "path \<Rightarrow> edit \<Rightarrow> edit" where
  "add_ref_methods = edit_if (lacks ''inc_queue_ref'')
     (sub_lines [Open 1, Lit ([nl] @ ''    def evictable_size(self):''), Close 1] [Txt queue_ref_methods, Grp 1])"

definition helper_signature :: "string \<Rightarrow> string" where
  "helper_signature = sub_lines
     [Lit (text_of [''def _match_prefix_helper(self, node: TreeNode, key: RadixKey):'']), Open 1, spaces1, Close 1,
      Lit (text_of [''access_time = time.monotonic()'']), spaces1, Lit (text_of [''node.last_access_time = access_time''])]
     [Txt (text_of [''def _match_prefix_helper(self, node: TreeNode, key: RadixKey, update_lru: bool = True):'']),
      Grp 1, Txt (text_of [''if update_lru:'']),
      Grp 1, Txt (text_of [''    access_time = time.monotonic()'']),
      Grp 1, Txt (text_of [''    node.last_access_time = access_time'']),
      Grp 1, Txt (text_of [''else:'']),
      Grp 1, Txt (text_of [''    access_time = None''])]"

definition helper_loop :: "string \<Rightarrow> string" where
  "helper_loop = sub_lines
     [Open 1, spaces1, Close 1, Open 2, Lit (text_of [''child = node.children[child_key]'']), Close 2,
      spaces1, Lit (text_of [''child.last_access_time = access_time''])]
     [Grp 1, Grp 2, Grp 1, Txt (text_of [''if update_lru:'']),
      Grp 1, Txt (text_of [''    child.last_access_time = access_time''])]"

definition add_update_lru :: "path \<Rightarrow> edit \<Rightarrow> edit" where
  "add_update_lru = edit_if (lacks ''update_lru'') (\<lambda>t. helper_loop (helper_signature t))"

definition add_readonly_match :: "path \<Rightarrow> edit \<Rightarrow> edit" where
  "add_readonly_match = edit_if (lacks ''match_prefix_readonly'')
     (sub_lines [Open 1, Lit ([nl] @ ''    def insert(self, params: InsertParams)''), Close 1]
        [Txt match_prefix_readonly_method, Grp 1])"

definition patch_radix_cache :: "path \<Rightarrow> files \<Rightarrow> bool \<times> files" where
  "patch_radix_cache sglang_dir =
     edit_file [add_import, add_ref_count, add_policy, inherit_count, add_ref_methods, add_update_lru, add_readonly_match, fix_superkv]
       (sglang_dir @ [''srt'', ''mem_cache'', ''radix_cache.py''])"

section \<open>\<open>schedule_policy.py\<close> and \<open>server_args.py\<close>\<close>

definition peek_engine_hook :: string where
  "peek_engine_hook = text_of [
     ''        # --- PeekEngine: delegate when queue-aware eviction is active ---'',
     ''        if not hasattr(self, '_peek_engine'):'',
     ''            from peek.offline.engine import PeekEngine'',
     ''            self._peek_engine = ('',
     ''                PeekEngine(self.tree_cache, self)'',
     ''                if PeekEngine.is_enabled(self.tree_cache) else None'',
     ''            )'',
     ''        if self._peek_engine is not None:'',
     ''            return self._peek_engine.run(waiting_queue, running_batch)'',
     ''        # --- stock SGLang below ---'']"

definition peek_matched_skip :: string where
  "peek_matched_skip = text_of [
     ''            # PeekEngine: skip requests already matched at group level'',
     ''            if getattr(r, '_peek_matched', False):'',
     ''                continue'']"

definition add_engine_hook :: "path \<Rightarrow> edit \<Rightarrow> edit" where
  "add_engine_hook = edit_try (lacks ''PeekEngine'')
     (sub_lines [Open 1, Lit ''def calc_priority('', spaces0, Lit ''self, waiting_queue'', any_lazy, Lit ''running_batch'', any_lazy,
         Lit '')'', spaces0, Lit ''->'', spaces0, Lit (text_of [''bool:'']), Close 1]
        [Grp 1, Txt peek_engine_hook])"

definition add_matched_skip :: "path \<Rightarrow> edit \<Rightarrow> edit" where
  "add_matched_skip = edit_try (lacks ''_peek_matched'')
     (sub_lines [Open 1, Lit (text_of [''for r in waiting_queue:'']), Close 1, Open 2, spaces1, Close 2,
         Open 3, Lit ''prefix_ids = r.origin_input_ids'', Close 3]
        [Grp 1, Txt peek_matched_skip, Grp 2, Grp 3])"

definition patch_schedule_policy :: "path \<Rightarrow> files \<Rightarrow> bool \<times> files" where
  "patch_schedule_policy sglang_dir =
     edit_file [add_engine_hook, add_matched_skip, fix_superkv] (sglang_dir @ [''srt'', ''managers'', ''schedule_policy.py''])"

definition not_bracket :: "char \<Rightarrow> bool" where
  "not_bracket c \<longleftrightarrow> c \<noteq> CHR '']''"

definition add_choice :: "string \<Rightarrow> string" where
  "add_choice = rx_sub
     [Lit ''RADIX_EVICTION_POLICY_CHOICES'', spaces0, Lit ''='', spaces0, Lit ''['', Open 1, Rep False 0 not_bracket, Close 1, Lit '']'']
     (\<lambda>m. ''RADIX_EVICTION_POLICY_CHOICES = ['' @ rstrip (m 1) @ '', \"queue-aware\"]'')"

definition patch_server_args :: "path \<Rightarrow> files \<Rightarrow> bool \<times> files" where
  "patch_server_args sglang_dir fs =
     (let p = sglang_dir @ [''srt'', ''server_args.py'']
      in case fs p of
           None \<Rightarrow> (False, fs)
         | Some t \<Rightarrow>
             let txt = universal_newlines t
             in if contains ''\"queue-aware\"'' txt then (True, fs)
                else (True, (backup p fs)(p \<mapsto> add_choice txt)))"

section \<open>The installer\<close>

definition sglang_files :: "path \<Rightarrow> path list" where
  "sglang_files sglang_dir = map (\<lambda>rel. sglang_dir @ rel)
     [[''srt'', ''mem_cache'', ''evict_policy.py''], [''srt'', ''mem_cache'', ''radix_cache.py''],
      [''srt'', ''managers'', ''schedule_policy.py''], [''srt'', ''server_args.py'']]"

definition sglang_patches :: "path \<Rightarrow> (files \<Rightarrow> bool \<times> files) list" where
  "sglang_patches sglang_dir =
     [patch_evict_policy sglang_dir, patch_radix_cache sglang_dir, patch_schedule_policy sglang_dir, patch_server_args sglang_dir]"

definition sglang_main :: "(path \<Rightarrow> bool) \<Rightarrow> path option \<Rightarrow> string list \<Rightarrow> files \<Rightarrow> int \<times> files" where
  "sglang_main = install_main sglang_files sglang_patches"

lemma server_args_guarded: "guarded_patch (d @ [''srt'', ''server_args.py'']) (patch_server_args d)"
  by (rule guarded_patchI) (auto simp: patch_server_args_def Let_def)

lemmas edit_defs = fix_superkv_def add_strategy_def add_import_def add_ref_count_def add_policy_def inherit_count_def
  add_ref_methods_def add_update_lru_def add_readonly_match_def add_engine_hook_def add_matched_skip_def

interpretation sglang: installer "sglang_files d" "sglang_patches d" for d
proof unfold_locales
  show "apart (sglang_files d)" by (simp add: apart_def sglang_files_def bak_path_def)
  show "list_all2 guarded_patch (sglang_files d) (sglang_patches d)"
    by (simp add: sglang_files_def sglang_patches_def server_args_guarded patch_evict_policy_def patch_radix_cache_def
        patch_schedule_policy_def edit_file_guarded edit_defs)
qed

end
