(* ===== verification/Vllm_Install.thy ===== *)
theory Vllm_Install
  imports Sglang_Install
begin

text \<open>
  \<open>src/python/peek/offline/vllm_patches/install.py\<close>: the texts it inserts and the edits of the four files
  of an installed vLLM. Locating the package, backups, the revert and \<open>main\<close> are the same code as in the
  other installer.
\<close>

section \<open>\<open>kv_cache_utils.py\<close>\<close>

definition queue_aware_method :: string where
  "queue_aware_method = text_of [
     [],
     ''    def popleft_queue_aware(self, n: int) -> list[\"KVCacheBlock\"]:'',
     ''        \"\"\"Pop *n* blocks, preferring those with lowest queue_ref_count.'',
     [],
     ''        Two-tier eviction:'',
     ''          Tier 1: blocks with queue_ref_count == 0 (unprotected, LRU order)'',
     ''          Tier 2: blocks with queue_ref_count > 0 (protected, lowest cost first)'',
     [],
     ''        Falls back to plain LRU (popleft_n) when no blocks are protected.'',
     ''        \"\"\"'',
     ''        if n > self.num_free_blocks:'',
     ''            raise ValueError('',
     ''                f\"Cannot pop {n} blocks from the free list \"'',
     ''                f\"(only {self.num_free_blocks} free)\"'',
     ''            )'',
     [],
     ''        # Collect all free blocks with their queue_ref_count'',
     ''        unprotected: list[\"KVCacheBlock\"] = []'',
     ''        protected: list[\"KVCacheBlock\"] = []'',
     ''        curr = self.fake_free_list_head.next_free_block'',
     ''        while curr is not self.fake_free_list_tail and curr is not None:'',
     ''            if curr.queue_ref_count == 0:'',
     ''                unprotected.append(curr)'',
     ''            else:'',
     ''                protected.append(curr)'',
     ''            curr = curr.next_free_block'',
     [],
     ''        # If nothing is protected, just use fast LRU path'',
     ''        if not protected:'',
     ''            return self.popleft_n(n)'',
     [],
     ''        # Pick from unprotected first (LRU order), then protected (lowest cost)'',
     ''        # Cost = queue_ref_count (lower = cheaper to evict)'',
     ''        protected.sort(key=lambda b: b.queue_ref_count)'',
     ''        victims = unprotected[:n]'',
     ''        if len(victims) < n:'',
     ''            victims.extend(protected[: n - len(victims)])'',
     [],
     ''        for block in victims:'',
     ''            self.remove(block)'',
     [],
     ''        return victims'',
     []]"

definition add_block_field :: "path \<Rightarrow> edit \<Rightarrow> edit" where
  "add_block_field = edit_if (lacks ''queue_ref_count'')
     (sub_lines [Open 1, Lit (text_of [''    is_null: bool = False'']), Close 1]
        [Grp 1, Txt (text_of [
           [],
           ''    # Queue-aware eviction: number of waiting-queue requests'',
           ''    # whose prefix includes this block.'',
           ''    queue_ref_count: int = 0''])])"

text \<open>The method goes before \<open>get_all_free_blocks\<close>, or to the end of the file.\<close>

definition insert_popleft :: "string \<Rightarrow> string" where
  "insert_popleft t =
     (let t1 = sub_lines [Open 1, Lit ([nl] @ ''    def get_all_free_blocks''), Edge, Close 1] [Txt queue_aware_method, Grp 1] t
      in if lacks ''popleft_queue_aware'' t1 then rstrip t1 @ [nl] @ queue_aware_method else t1)"

definition add_popleft :: "path \<Rightarrow> edit \<Rightarrow> edit" where
  "add_popleft = edit_if (lacks ''popleft_queue_aware'') insert_popleft"

definition patch_kv_cache_utils :: "path \<Rightarrow> files \<Rightarrow> bool \<times> files" where
  "patch_kv_cache_utils vllm_dir =
     edit_file [add_block_field, add_popleft] (vllm_dir @ [''v1'', ''core'', ''kv_cache_utils.py''])"

section \<open>\<open>block_pool.py\<close>\<close>

definition pool_ref_methods :: string where
  "pool_ref_methods = text_of [
     [],
     ''    # ------------------------------------------------------------------'',
     ''    # Queue-aware eviction: reference counting'',
     ''    # ------------------------------------------------------------------'',
     [],
     ''    def reset_queue_ref_counts(self) -> None:'',
     ''        \"\"\"Reset queue_ref_count to 0 on all blocks.\"\"\"'',
     ''        for block in self.blocks:'',
     ''            block.queue_ref_count = 0'',
     [],
     ''    def inc_queue_ref_count(self, blocks: list[\"KVCacheBlock\"]) -> None:'',
     ''        \"\"\"Increment queue_ref_count on a list of cached blocks.\"\"\"'',
     ''        for block in blocks:'',
     ''            if not block.is_null:'',
     ''                block.queue_ref_count += 1'',
     []]"

definition add_pool_methods :: "path \<Rightarrow> edit \<Rightarrow> edit" where
  "add_pool_methods = edit_if (lacks ''reset_queue_ref_counts'')
     (sub_lines [Open 1, Lit ([nl] @ ''    def get_num_free_blocks(self)''), Close 1] [Txt pool_ref_methods, Grp 1])"

definition add_parameter :: "string \<Rightarrow> string" where
  "add_parameter = sub_lines
     [Open 1, Lit (text_of [''        metrics_collector: KVCacheMetricsCollector | None = None,''] @ ''    ):''), Close 1]
     [Txt (text_of [
        ''        metrics_collector: KVCacheMetricsCollector | None = None,'',
        ''        enable_queue_aware_eviction: bool = False,''] @ ''    ):'')]"

definition add_attribute :: "string \<Rightarrow> string" where
  "add_attribute = sub_lines
     [Open 1, Lit (text_of [''        self.metrics_collector = metrics_collector'']), Close 1]
     [Grp 1, Txt (text_of [
        ''        import os as _os'',
        ''        self.enable_queue_aware_eviction = ('',
        ''            enable_queue_aware_eviction'',
        ''            or _os.environ.get(\"PEEK_QUEUE_AWARE\") == \"1\"'',
        ''        )''])]"

definition add_flag :: "path \<Rightarrow> edit \<Rightarrow> edit" where
  "add_flag = edit_if (lacks ''enable_queue_aware_eviction'') (\<lambda>t. add_attribute (add_parameter t))"

definition use_popleft :: "path \<Rightarrow> edit \<Rightarrow> edit" where
  "use_popleft = edit_if (lacks ''popleft_queue_aware'')
     (replace_once ''        ret: list[KVCacheBlock] = self.free_block_queue.popleft_n(num_blocks)''
        (text_of [
           ''        if self.enable_queue_aware_eviction:'',
           ''            ret: list[KVCacheBlock] = self.free_block_queue.popleft_queue_aware(num_blocks)'',
           ''        else:'']
         @ ''            ret: list[KVCacheBlock] = self.free_block_queue.popleft_n(num_blocks)''))"

definition patch_block_pool :: "path \<Rightarrow> files \<Rightarrow> bool \<times> files" where
  "patch_block_pool vllm_dir =
     edit_file [add_pool_methods, add_flag, use_popleft] (vllm_dir @ [''v1'', ''core'', ''block_pool.py''])"

section \<open>\<open>scheduler.py\<close>\<close>

definition peek_scheduler_code :: string where
  "peek_scheduler_code = text_of [
     ''        # Peek: all feature gating is inside vllm_on_schedule'',
     ''        from peek.offline.scheduler import vllm_on_schedule as _peek_hook'',
     ''        _peek_hook(self)'',
     []]"

definition remove_old_hook :: "string \<Rightarrow> string" where
  "remove_old_hook = rx_sub
     [Lit ''        # '', OneOf [''Peek'', ''Queue-aware''], any_lazy, Ahead [Lit ''        # '', OneOf [''NOTE'', ''There's no'']]]
     (\<lambda>m. [])"

definition insert_hook :: "string \<Rightarrow> string" where
  "insert_hook t =
     (let t1 = sub_lines
            [Open 1, Lit (text_of [''    def schedule(self) -> SchedulerOutput:'',
               ''        # NOTE(woosuk) on the scheduling algorithm:'']), Close 1]
            [Grp 1, Txt peek_scheduler_code] t
      in if lacks ''_peek_hook'' t1
         then sub_lines [Open 1, Lit (text_of [''    def schedule(self) -> SchedulerOutput:'']), Close 1] [Grp 1, Txt peek_scheduler_code] t1
         else t1)"

definition patch_scheduler :: "path \<Rightarrow> files \<Rightarrow> bool \<times> files" where
  "patch_scheduler vllm_dir fs =
     (let p = vllm_dir @ [''v1'', ''core'', ''sched'', ''scheduler.py'']
      in case fs p of
           None \<Rightarrow> (False, fs)
         | Some t \<Rightarrow>
             let txt = universal_newlines t
             in if contains ''_peek_hook'' txt then (True, fs)
                else let fs1 = backup p fs;
                         t1 = (if contains ''_peek_enabled'' txt \<or> contains ''reset_queue_ref_counts'' txt
                               then remove_old_hook txt else txt);
                         t2 = insert_hook t1
                     in if contains ''_peek_hook'' t2 then (True, fs1(p \<mapsto> t2)) else (False, fs1))"

section \<open>\<open>cache.py\<close>\<close>

definition add_config_field :: "string \<Rightarrow> string" where
  "add_config_field = sub_lines
     [Open 1, Lit (text_of [''    enable_prefix_caching: bool = True'']), Close 1]
     [Grp 1, Txt (text_of [''    enable_queue_aware_eviction: bool = False''])]"

definition patch_cache_config :: "path \<Rightarrow> files \<Rightarrow> bool \<times> files" where
  "patch_cache_config vllm_dir fs =
     (let p = vllm_dir @ [''config'', ''cache.py'']
      in case fs p of
           None \<Rightarrow> (False, fs)
         | Some t \<Rightarrow>
             let txt = universal_newlines t
             in if contains ''enable_queue_aware_eviction'' txt then (True, fs)
                else let fs1 = backup p fs; t1 = add_config_field txt
                     in if contains ''enable_queue_aware_eviction'' t1 then (True, fs1(p \<mapsto> t1)) else (False, fs1))"

section \<open>The installer\<close>

definition vllm_files :: "path \<Rightarrow> path list" where
  "vllm_files vllm_dir = map (\<lambda>rel. vllm_dir @ rel)
     [[''v1'', ''core'', ''kv_cache_utils.py''], [''v1'', ''core'', ''block_pool.py''],
      [''v1'', ''core'', ''sched'', ''scheduler.py''], [''config'', ''cache.py'']]"

definition vllm_patches :: "path \<Rightarrow> (files \<Rightarrow> bool \<times> files) list" where
  "vllm_patches vllm_dir =
     [patch_kv_cache_utils vllm_dir, patch_block_pool vllm_dir, patch_scheduler vllm_dir, patch_cache_config vllm_dir]"

definition vllm_main :: "(path \<Rightarrow> bool) \<Rightarrow> path option \<Rightarrow> string list \<Rightarrow> files \<Rightarrow> int \<times> files" where
  "vllm_main = install_main vllm_files vllm_patches"

lemma scheduler_guarded: "guarded_patch (d @ [''v1'', ''core'', ''sched'', ''scheduler.py'']) (patch_scheduler d)"
  by (rule guarded_patchI) (auto simp: patch_scheduler_def Let_def)

lemma cache_config_guarded: "guarded_patch (d @ [''config'', ''cache.py'']) (patch_cache_config d)"
  by (rule guarded_patchI) (auto simp: patch_cache_config_def Let_def)

lemmas vllm_edit_defs = add_block_field_def add_popleft_def add_pool_methods_def add_flag_def use_popleft_def

interpretation vllm: installer "vllm_files d" "vllm_patches d" for d
proof unfold_locales
  show "apart (vllm_files d)" by (simp add: apart_def vllm_files_def bak_path_def)
  show "list_all2 guarded_patch (vllm_files d) (vllm_patches d)"
    by (simp add: vllm_files_def vllm_patches_def scheduler_guarded cache_config_guarded patch_kv_cache_utils_def
        patch_block_pool_def edit_file_guarded vllm_edit_defs)
qed

end
