(* ===== verification/Patcher.thy ===== *)
theory Patcher
  imports Vllm_Install
begin

text \<open>
  \<open>src/python/peek/offline/_patcher.py\<close> and the command line of \<open>install.py\<close>: patching and reverting the
  installed engines. The installers run in a process of their own, on the same files. What Python's import
  system does, what the imported engines look like, and where the packages and scripts are, is
  \<open>backends\<close>; output is left out.
\<close>

section \<open>The environment\<close>

record py_world =
  pw_files :: files
  pw_modules :: "string list"

text \<open>
  \<open>be_import name\<close> is \<open>importlib.import_module(name)\<close>: whether it raises no \<open>ImportError\<close>, and the modules
  that are loaded afterwards; other errors of an import are left out. The last two fields are what the
  checks see of the loaded modules: whether \<open>evict_policy\<close> has the new strategy, and the class
  \<open>KVCacheBlock\<close>, if there is one, with the names of its dataclass fields and the attributes of
  \<open>KVCacheBlock(0)\<close> (\<open>None\<close> when that raises).
\<close>

record block_class =
  bc_fields :: "string list"
  bc_instance :: "string list option"

record backends =
  be_import :: "string \<Rightarrow> files \<Rightarrow> string list \<Rightarrow> bool \<times> string list"
  be_script :: "string \<Rightarrow> bool"
  be_is_dir :: "path \<Rightarrow> bool"
  be_origin :: "string \<Rightarrow> path option"
  be_strategy :: "py_world \<Rightarrow> bool"
  be_block :: "py_world \<Rightarrow> block_class option"

definition import_module :: "backends \<Rightarrow> string \<Rightarrow> py_world \<Rightarrow> bool \<times> py_world" where
  "import_module be name w =
     (case be_import be name (pw_files w) (pw_modules w) of (ok, ms) \<Rightarrow> (ok, w\<lparr>pw_modules := ms\<rparr>))"

definition is_sglang_patched :: "backends \<Rightarrow> py_world \<Rightarrow> bool \<times> py_world" where
  "is_sglang_patched be w =
     (case import_module be ''sglang.srt.mem_cache.evict_policy'' w of (ok, w1) \<Rightarrow> (ok \<and> be_strategy be w1, w1))"

definition is_vllm_patched :: "backends \<Rightarrow> py_world \<Rightarrow> bool \<times> py_world" where
  "is_vllm_patched be w =
     (case import_module be ''vllm.v1.core.kv_cache_utils'' w of (ok, w1) \<Rightarrow>
      if \<not> ok then (False, w1)
      else case be_block be w1 of
             None \<Rightarrow> (False, w1)
           | Some block_cls \<Rightarrow>
               (''queue_ref_count'' \<in> set (bc_fields block_cls)
                \<or> (case bc_instance block_cls of None \<Rightarrow> False | Some attrs \<Rightarrow> ''queue_ref_count'' \<in> set attrs), w1))"

definition sglang_module :: "string \<Rightarrow> bool" where
  "sglang_module m \<longleftrightarrow> startswith m ''sglang.srt.mem_cache'' \<or> startswith m ''sglang.srt.managers''"

definition unload :: "py_world \<Rightarrow> py_world" where
  "unload w = w\<lparr>pw_modules := filter (\<lambda>m. \<not> sglang_module m) (pw_modules w)\<rparr>"

section \<open>The two engines\<close>

definition run_sglang_script :: "backends \<Rightarrow> string list \<Rightarrow> py_world \<Rightarrow> int \<times> py_world" where
  "run_sglang_script be args w =
     (case sglang_main (be_is_dir be) (be_origin be ''sglang'') args (pw_files w) of (code, fs) \<Rightarrow> (code, w\<lparr>pw_files := fs\<rparr>))"

definition run_vllm_script :: "backends \<Rightarrow> string list \<Rightarrow> py_world \<Rightarrow> int \<times> py_world" where
  "run_vllm_script be args w =
     (case vllm_main (be_is_dir be) (be_origin be ''vllm'') args (pw_files w) of (code, fs) \<Rightarrow> (code, w\<lparr>pw_files := fs\<rparr>))"

definition patch_sglang :: "backends \<Rightarrow> bool \<Rightarrow> py_world \<Rightarrow> bool \<times> py_world" where
  "patch_sglang be force w =
     (case import_module be ''sglang'' w of (importable, w1) \<Rightarrow>
      if \<not> importable then (False, w1)
      else case (if force then (False, w1) else is_sglang_patched be w1) of (present, w2) \<Rightarrow>
        if present then (True, w2)
        else if \<not> be_script be ''sglang'' then (False, w2)
        else case run_sglang_script be [] w2 of (code, w3) \<Rightarrow>
          if code \<noteq> 0 then (False, w3) else (True, unload w3))"

definition patch_vllm :: "backends \<Rightarrow> bool \<Rightarrow> py_world \<Rightarrow> bool \<times> py_world" where
  "patch_vllm be force w =
     (case import_module be ''vllm'' w of (importable, w1) \<Rightarrow>
      if \<not> importable then (False, w1)
      else case (if force then (False, w1) else is_vllm_patched be w1) of (present, w2) \<Rightarrow>
        if present then (True, w2)
        else if \<not> be_script be ''vllm'' then (False, w2)
        else case run_vllm_script be [] w2 of (code, w3) \<Rightarrow> (code = 0, w3))"

definition install_all :: "backends \<Rightarrow> bool \<Rightarrow> py_world \<Rightarrow> py_world" where
  "install_all be force w = snd (patch_vllm be force (snd (patch_sglang be force w)))"

definition run_installer ::
  "(string list \<Rightarrow> py_world \<Rightarrow> int \<times> py_world) \<Rightarrow> bool \<Rightarrow> string list \<Rightarrow> py_world \<Rightarrow> bool \<times> py_world"
where
  "run_installer script present extra_args w =
     (if \<not> present then (False, w) else case script extra_args w of (code, w1) \<Rightarrow> (code = 0, w1))"

definition revert_sglang :: "backends \<Rightarrow> py_world \<Rightarrow> bool \<times> py_world" where
  "revert_sglang be w =
     (case import_module be ''sglang'' w of (importable, w1) \<Rightarrow>
      if \<not> importable then (False, w1)
      else case run_installer (run_sglang_script be) (be_script be ''sglang'') [''--revert''] w1 of (ok, w2) \<Rightarrow> (ok, unload w2))"

definition revert_vllm :: "backends \<Rightarrow> py_world \<Rightarrow> bool \<times> py_world" where
  "revert_vllm be w =
     (case import_module be ''vllm'' w of (importable, w1) \<Rightarrow>
      if \<not> importable then (False, w1)
      else run_installer (run_vllm_script be) (be_script be ''vllm'') [''--revert''] w1)"

definition revert_all :: "backends \<Rightarrow> py_world \<Rightarrow> py_world" where
  "revert_all be w = snd (revert_vllm be (snd (revert_sglang be w)))"

section \<open>The command line\<close>

definition cli_target :: "backends \<Rightarrow> bool \<Rightarrow> string \<Rightarrow> py_world \<Rightarrow> py_world option" where
  "cli_target be do_revert target w =
     (if target = ''all'' then Some (if do_revert then revert_all be w else install_all be True w)
      else if target = ''sglang'' then Some (snd (if do_revert then revert_sglang be w else patch_sglang be True w))
      else if target = ''vllm'' then Some (snd (if do_revert then revert_vllm be w else patch_vllm be True w))
      else None)"

fun cli_loop :: "backends \<Rightarrow> bool \<Rightarrow> string list \<Rightarrow> py_world \<Rightarrow> int \<times> py_world" where
  "cli_loop be do_revert [] w = (0, w)"
| "cli_loop be do_revert (target # ts) w =
     (case cli_target be do_revert target w of
        None \<Rightarrow> (1, w)
      | Some w' \<Rightarrow> cli_loop be do_revert ts w')"

definition cli :: "backends \<Rightarrow> string list \<Rightarrow> py_world \<Rightarrow> int \<times> py_world" where
  "cli be args0 w =
     (let do_revert = (''--revert'' \<in> set args0);
          args = (if do_revert then filter (\<lambda>a. a \<noteq> ''--revert'') args0 else args0);
          targets = (if args = [] then [''all''] else args)
      in cli_loop be do_revert targets w)"

text \<open>
  The package patches what it finds when it is imported (\<open>offline/__init__.py\<close>), so a process that runs
  the command line, which starts with the modules \<open>ms\<close>, does this first.
\<close>

definition import_offline :: "backends \<Rightarrow> py_world \<Rightarrow> py_world" where
  "import_offline be w = install_all be False w"

definition run_module :: "backends \<Rightarrow> string list \<Rightarrow> string list \<Rightarrow> files \<Rightarrow> int \<times> files" where
  "run_module be ms args fs =
     (case cli be args (import_offline be \<lparr>pw_files = fs, pw_modules = ms\<rparr>) of (code, w) \<Rightarrow> (code, pw_files w))"

end
