(* ===== verification/Install_Props.thy ===== *)
theory Install_Props
  imports Patcher
begin

text \<open>
  What installing the patches guarantees: an installation can always be undone, whatever the texts of the
  patched files are and however often and how far it ran; nothing is written without a backup; and what
  the exit code says of the files. The edits themselves are exact on the texts they expect.
\<close>

section \<open>Both engines together\<close>

lemma apart_lastI:
  assumes "distinct (map last ps)" and "[] \<notin> set ps" and "\<And>p q. p \<in> set ps \<Longrightarrow> q \<in> set ps \<Longrightarrow> last p @ ''.peek_bak'' \<noteq> last q"
  shows "apart ps"
proof -
  have "bak_path p \<noteq> q" if "p \<in> set ps" "q \<in> set ps" for p q
    using assms(3) [OF that] by (metis bak_path_def last_snoc)
  then show ?thesis using assms(1,2) by (auto simp: apart_def distinct_map)
qed

definition engine_files :: "path \<Rightarrow> path \<Rightarrow> path list" where
  "engine_files d1 d2 = sglang_files d1 @ vllm_files d2"

interpretation engines: installer "engine_files d1 d2" "sglang_patches d1 @ vllm_patches d2" for d1 d2
proof unfold_locales
  show "apart (engine_files d1 d2)"
    by (rule apart_lastI) (auto simp: engine_files_def sglang_files_def vllm_files_def)
  show "list_all2 guarded_patch (engine_files d1 d2) (sglang_patches d1 @ vllm_patches d2)"
    unfolding engine_files_def by (rule list_all2_appendI [OF sglang.guarded vllm.guarded])
qed

text \<open>What a run of an installer does to the files, given where the package is.\<close>

lemma main_install:
  assumes "''--revert'' \<notin> set args" and "find_package_dir is_dir spec_origin (case args of [] \<Rightarrow> None | a # _ \<Rightarrow> Some a) = Inr d"
  shows "install_main paths patches is_dir spec_origin args fs =
    (if list_all id (fst (run_patches (patches d) fs)) then 0 else 1, snd (run_patches (patches d) fs))"
  using assms by (simp add: install_main_def Let_def case_prod_beta)

lemma main_nowhere:
  assumes "''--revert'' \<notin> set args" and "find_package_dir is_dir spec_origin (case args of [] \<Rightarrow> None | a # _ \<Rightarrow> Some a) = Inl e"
  shows "install_main paths patches is_dir spec_origin args fs = (1, fs)"
  using assms by (simp add: install_main_def Let_def)

lemma main_auto:
  "install_main paths patches is_dir (Some q) [] fs =
     (if list_all id (fst (run_patches (patches (butlast q)) fs)) then 0 else 1, snd (run_patches (patches (butlast q)) fs))"
  "install_main paths patches is_dir (Some q) [''--revert''] fs = (0, fst (revert (paths (butlast q)) fs))"
  by (simp_all add: install_main_def find_package_dir_def Let_def case_prod_beta)

lemma script_files:
  "pw_files (snd (run_sglang_script be args w)) = snd (sglang_main (be_is_dir be) (be_origin be ''sglang'') args (pw_files w))"
  "pw_files (snd (run_vllm_script be args w)) = snd (vllm_main (be_is_dir be) (be_origin be ''vllm'') args (pw_files w))"
  by (simp_all add: run_sglang_script_def run_vllm_script_def case_prod_beta)

lemma module_files [simp]:
  "pw_files (snd (import_module be name w)) = pw_files w" "pw_files (snd (is_sglang_patched be w)) = pw_files w"
  "pw_files (snd (is_vllm_patched be w)) = pw_files w"
  "pw_files (unload w) = pw_files w"
  by (simp_all add: import_module_def is_sglang_patched_def is_vllm_patched_def unload_def case_prod_beta split: option.split)

lemma patch_files:
  "be_origin be ''sglang'' = Some q \<Longrightarrow>
     pw_files (snd (patch_sglang be force w)) \<in> {pw_files w, snd (run_patches (sglang_patches (butlast q)) (pw_files w))}"
  "be_origin be ''vllm'' = Some q \<Longrightarrow>
     pw_files (snd (patch_vllm be force w)) \<in> {pw_files w, snd (run_patches (vllm_patches (butlast q)) (pw_files w))}"
  by (auto simp: patch_sglang_def patch_vllm_def case_prod_beta script_files sglang_main_def vllm_main_def main_auto)

text \<open>The engines can be imported, and their installers are there.\<close>

definition backends_ok :: "backends \<Rightarrow> path \<Rightarrow> path \<Rightarrow> bool" where
  "backends_ok be q1 q2 \<longleftrightarrow> (\<forall>fs ms. fst (be_import be ''sglang'' fs ms) \<and> fst (be_import be ''vllm'' fs ms))
     \<and> be_script be ''sglang'' \<and> be_script be ''vllm'' \<and> be_origin be ''sglang'' = Some q1 \<and> be_origin be ''vllm'' = Some q2"

lemma revert_files:
  assumes "backends_ok be q1 q2"
  shows "pw_files (snd (revert_sglang be w)) = fst (revert (sglang_files (butlast q1)) (pw_files w))"
    and "pw_files (snd (revert_vllm be w)) = fst (revert (vllm_files (butlast q2)) (pw_files w))"
proof -
  have i: "fst (import_module be ''sglang'' w)" "fst (import_module be ''vllm'' w)"
    using assms by (simp_all add: import_module_def backends_ok_def case_prod_beta)
  show "pw_files (snd (revert_sglang be w)) = fst (revert (sglang_files (butlast q1)) (pw_files w))"
    "pw_files (snd (revert_vllm be w)) = fst (revert (vllm_files (butlast q2)) (pw_files w))"
    using assms i by (simp_all add: revert_sglang_def revert_vllm_def run_installer_def case_prod_beta backends_ok_def script_files
        sglang_main_def vllm_main_def main_auto)
qed

lemma revert_append: "fst (revert (ps @ qs) fs) = fst (revert qs (fst (revert ps fs)))"
proof -
  have f: "fst (foldl (\<lambda>s p. restore p s) (fs, k) ps) = fst (foldl (\<lambda>s p. restore p s) (fs, l) ps)" for fs k l and ps :: "path list"
  proof (induction ps arbitrary: fs k l)
    case (Cons p ps)
    obtain k' l' fs' where "restore p (fs, k) = (fs', k')" "restore p (fs, l) = (fs', l')"
      by (cases "fs (bak_path p)") (auto simp: restore_def)
    then show ?case using Cons.IH [of fs' k' l'] by simp
  qed simp
  obtain fs1 k where "foldl (\<lambda>s p. restore p s) (fs, 0) ps = (fs1, k)" by fastforce
  then show ?thesis using f [of fs1 k qs 0] by (simp add: revert_def)
qed

section \<open>Undoing\<close>

definition pristine :: "path \<Rightarrow> path \<Rightarrow> py_world \<Rightarrow> files" where
  "pristine q1 q2 w = fst (revert (engine_files (butlast q1) (butlast q2)) (pw_files w))"

lemma pristine_patch:
  assumes "backends_ok be q1 q2"
  shows "pristine q1 q2 (snd (patch_sglang be force w)) = pristine q1 q2 w"
    and "pristine q1 q2 (snd (patch_vllm be force w)) = pristine q1 q2 w"
proof -
  have sub: "set (sglang_files d1) \<subseteq> set (engine_files d1 d2)" "set (vllm_files d2) \<subseteq> set (engine_files d1 d2)" for d1 d2
    by (simp_all add: engine_files_def)
  note s = engines.revert_absorbs_part [OF sglang.guarded sub(1)] and v = engines.revert_absorbs_part [OF vllm.guarded sub(2)]
  show "pristine q1 q2 (snd (patch_sglang be force w)) = pristine q1 q2 w"
    "pristine q1 q2 (snd (patch_vllm be force w)) = pristine q1 q2 w"
    using patch_files [of be _ force w] assms s v unfolding pristine_def backends_ok_def by force+
qed

lemma pristine_cli:
  assumes be: "backends_ok be q1 q2" and "''--revert'' \<notin> set args"
  shows "pristine q1 q2 (snd (cli be args w)) = pristine q1 q2 w"
proof -
  have t: "pristine q1 q2 w' = pristine q1 q2 w" if "cli_target be False target w = Some w'" for target w w'
    using that by (auto simp: cli_target_def install_all_def pristine_patch [OF be] split: if_splits)
  have "pristine q1 q2 (snd (cli_loop be False ts w)) = pristine q1 q2 w" for ts
    by (induction ts arbitrary: w) (auto simp: t split: option.splits)
  then show ?thesis using assms(2) by (simp add: cli_def Let_def)
qed

lemma cli_revert_files: "backends_ok be q1 q2 \<Longrightarrow> pw_files (snd (cli be [''--revert''] w)) = pristine q1 q2 w"
  by (simp add: cli_def Let_def cli_target_def revert_all_def revert_files pristine_def engine_files_def revert_append)

lemma pristine_import: "backends_ok be q1 q2 \<Longrightarrow> pristine q1 q2 (import_offline be w) = pristine q1 q2 w"
  by (simp add: import_offline_def install_all_def pristine_patch)

lemma pristine_module:
  assumes "backends_ok be q1 q2"
  shows "''--revert'' \<notin> set args \<Longrightarrow> pristine q1 q2 \<lparr>pw_files = snd (run_module be ms args fs), pw_modules = ms'\<rparr>
           = pristine q1 q2 \<lparr>pw_files = fs, pw_modules = ms'\<rparr>"
    and "snd (run_module be ms [''--revert''] fs) = pristine q1 q2 \<lparr>pw_files = fs, pw_modules = ms'\<rparr>"
proof -
  let ?w = "import_offline be \<lparr>pw_files = fs, pw_modules = ms\<rparr>"
  have m: "snd (run_module be ms args fs) = pw_files (snd (cli be args ?w))" for args
    by (simp add: run_module_def case_prod_beta)
  have i: "pristine q1 q2 ?w = pristine q1 q2 \<lparr>pw_files = fs, pw_modules = ms\<rparr>" by (rule pristine_import [OF assms])
  show "''--revert'' \<notin> set args \<Longrightarrow> pristine q1 q2 \<lparr>pw_files = snd (run_module be ms args fs), pw_modules = ms'\<rparr>
      = pristine q1 q2 \<lparr>pw_files = fs, pw_modules = ms'\<rparr>"
    using pristine_cli [OF assms, of args ?w] i unfolding m pristine_def by simp
  show "snd (run_module be ms [''--revert''] fs) = pristine q1 q2 \<lparr>pw_files = fs, pw_modules = ms'\<rparr>"
    using i unfolding m cli_revert_files [OF assms] pristine_def by simp
qed

text \<open>
  C39: An installation can be undone: after any number of processes that import the package and install,
  for any targets and with unknown ones among them, also when patches failed or one of the engines was
  skipped, a process with \<open>--revert\<close>, which imports and so patches first too, leaves exactly the files it
  would have left without them; and those are the original files when there were no backups before.
\<close>

theorem installs_can_be_undone:
  assumes be: "backends_ok be q1 q2" and runs: "\<forall>args \<in> set runs. ''--revert'' \<notin> set args"
  shows "snd (run_module be ms [''--revert''] (foldl (\<lambda>fs args. snd (run_module be ms args fs)) fs runs))
      = snd (run_module be ms [''--revert''] fs)
    \<and> ((\<forall>p \<in> set (engine_files (butlast q1) (butlast q2)). fs (bak_path p) = None) \<longrightarrow>
         snd (run_module be ms [''--revert''] (foldl (\<lambda>fs args. snd (run_module be ms args fs)) fs runs)) = fs)"
proof -
  let ?u = "\<lambda>fs. pristine q1 q2 \<lparr>pw_files = fs, pw_modules = ms\<rparr>"
  have "?u (foldl (\<lambda>fs args. snd (run_module be ms args fs)) fs runs) = ?u fs"
    using runs by (induction runs arbitrary: fs) (simp_all add: pristine_module(1) [OF be])
  moreover have "?u fs = fs" if "\<forall>p \<in> set (engine_files (butlast q1) (butlast q2)). fs (bak_path p) = None"
  proof -
    have "fst (revert (engine_files (butlast q1) (butlast q2)) fs) = fs" by (rule engines.revert_clean) (use that in blast)
    then show ?thesis by (simp add: pristine_def)
  qed
  ultimately show ?thesis unfolding pristine_module(2) [OF be, where ms' = ms] by simp
qed

definition demo_backends :: backends where
  "demo_backends = \<lparr>be_import = \<lambda>_ _ ms. (True, ms), be_script = \<lambda>_. True,
     be_is_dir = \<lambda>_. False, be_origin = \<lambda>name. Some [name, ''__init__.py''],
     be_strategy = \<lambda>_. False, be_block = \<lambda>_. None\<rparr>"

definition demo_files :: files where
  "demo_files = [[''sglang'', ''srt'', ''server_args.py''] \<mapsto> ''X = 1'']"

theorem installs_can_be_undone_witness:
  "snd (run_module demo_backends [] [''--revert''] (foldl (\<lambda>fs args. snd (run_module demo_backends [] args fs))
       demo_files [[''sglang''], [''all'', ''none'']])) = demo_files"
proof -
  let ?q1 = "[''sglang'', ''__init__.py'']" and ?q2 = "[''vllm'', ''__init__.py'']"
  have be: "backends_ok demo_backends ?q1 ?q2" by (simp add: backends_ok_def demo_backends_def)
  have runs: "\<forall>args \<in> set [[''sglang''], [''all'', ''none'']]. ''--revert'' \<notin> set args" by simp
  have clean: "\<forall>p \<in> set (engine_files (butlast ?q1) (butlast ?q2)). demo_files (bak_path p) = None"
    by (simp add: engine_files_def sglang_files_def vllm_files_def bak_path_def demo_files_def)
  show ?thesis using installs_can_be_undone [OF be runs, THEN conjunct2, THEN mp, OF clean] by simp
qed

text \<open>
  A backup that is there already is never renewed: after an upgrade of the package, which brings new
  files and leaves the old backup, installing and reverting puts the file of the old version back.
\<close>

lemma stale_backup_wins:
  assumes "p \<in> set (sglang_files d)" and "fs (bak_path p) = Some old"
  shows "fst (revert (sglang_files d) (snd (run_patches (sglang_patches d) fs))) p = Some old"
  unfolding sglang.revert_absorbs revert_exact [OF sglang.apart] using assms by (simp add: origin_def)

section \<open>What an installation changes and reports\<close>

text \<open>A text as the file has it or as it is read.\<close>

definition file_has :: "string \<Rightarrow> string option \<Rightarrow> bool" where
  "file_has w x \<longleftrightarrow> (\<exists>t. x = Some t \<and> (contains w t \<or> contains w (universal_newlines t)))"

definition careful :: "path list \<Rightarrow> files \<Rightarrow> files \<Rightarrow> bool" where
  "careful paths fs fs' \<longleftrightarrow>
     (\<forall>p. p \<notin> set paths \<longrightarrow> p \<notin> bak_path ` set paths \<longrightarrow> fs' p = fs p)
     \<and> (\<forall>p \<in> set paths. (fs' p = None \<longleftrightarrow> fs p = None)
          \<and> (fs (bak_path p) \<noteq> None \<longrightarrow> fs' (bak_path p) = fs (bak_path p))
          \<and> (fs' p \<noteq> fs p \<longrightarrow> fs' (bak_path p) = origin p fs))"

context installer
begin

lemma run_careful: "careful targets fs (snd (run_patches patches fs))"
  unfolding careful_def
proof (intro conjI allI ballI impI)
  let ?fs = "snd (run_patches patches fs)"
  show "?fs p = fs p" if "p \<notin> set targets" "p \<notin> bak_path ` set targets" for p by (rule run_frame [OF that])
  fix p assume p: "p \<in> set targets"
  show "?fs p = None \<longleftrightarrow> fs p = None" by (rule run_missing [OF guarded subset_refl p])
  show "fs (bak_path p) \<noteq> None \<Longrightarrow> ?fs (bak_path p) = fs (bak_path p)" by (rule backups_kept(1) [OF p])
  show "?fs (bak_path p) = origin p fs" if "?fs p \<noteq> fs p"
    using backups_kept(2) [OF p that] run_origin [OF p, of fs] by (auto simp: origin_def split: option.splits)
qed

end

lemma edit_file_ok: "fst (edit_file eds p fs) \<longleftrightarrow> fs p \<noteq> None"
  by (auto simp: edit_file_def Let_def split: option.splits)

lemma success_leaves_file:
  assumes "list_all2 guarded_patch qs ps" and "(q, patch) \<in> set (zip qs ps)" and "fst (patch fs)"
  shows "snd (patch fs) q \<noteq> None"
proof -
  have g: "guarded_patch q patch" using assms(1,2) by (simp add: list_all2_iff) blast
  have "fs q \<noteq> None" using guarded_patch.missing [OF g, of fs] assms(3) by (metis fst_conv)
  then show ?thesis by (rule guarded_patch.keeps_file [OF g])
qed

lemma sglang_success: "list_all id (fst (run_patches (sglang_patches d) fs)) \<longleftrightarrow> (\<forall>p \<in> set (sglang_files d). fs p \<noteq> None)"
proof
  have ds: "distinct (sglang_files d)" using sglang.apart [of d] by (simp add: apart_def)
  show "\<forall>p \<in> set (sglang_files d). fs p \<noteq> None" if "list_all id (fst (run_patches (sglang_patches d) fs))"
  proof
    fix p assume p: "p \<in> set (sglang_files d)"
    have "snd (run_patches (sglang_patches d) fs) p \<noteq> None"
      by (rule sglang.run_results [OF sglang.guarded subset_refl ds _ that p, where Q = "\<lambda>q x. x \<noteq> None"])
        (use success_leaves_file [OF sglang.guarded] in blast)
    then show "fs p \<noteq> None" using sglang.run_missing [OF sglang.guarded subset_refl p, of fs] by simp
  qed
  have z: "\<forall>(q, patch) \<in> set (zip (sglang_files d) (sglang_patches d)). \<forall>fs. fs q \<noteq> None \<longrightarrow> fst (patch fs)"
    by (auto simp: sglang_files_def sglang_patches_def patch_evict_policy_def patch_radix_cache_def patch_schedule_policy_def
        patch_server_args_def edit_file_ok Let_def)
  show "list_all id (fst (run_patches (sglang_patches d) fs))" if "\<forall>p \<in> set (sglang_files d). fs p \<noteq> None"
    by (rule sglang.run_succeeds [OF sglang.guarded subset_refl ds z that])
qed

definition vllm_done :: "path \<Rightarrow> path \<Rightarrow> string option \<Rightarrow> bool" where
  "vllm_done d q x \<longleftrightarrow> x \<noteq> None
     \<and> (q = d @ [''v1'', ''core'', ''sched'', ''scheduler.py''] \<longrightarrow> file_has ''_peek_hook'' x)
     \<and> (q = d @ [''config'', ''cache.py''] \<longrightarrow> file_has ''enable_queue_aware_eviction'' x)"

lemma vllm_success:
  assumes "list_all id (fst (run_patches (vllm_patches d) fs))" and "p \<in> set (vllm_files d)"
  shows "vllm_done d p (snd (run_patches (vllm_patches d) fs) p)"
proof (rule vllm.run_results [OF vllm.guarded subset_refl _ _ assms])
  show "distinct (vllm_files d)" using vllm.apart [of d] by (simp add: apart_def)
  have s: "file_has ''_peek_hook'' (snd (patch_scheduler d fs) (d @ [''v1'', ''core'', ''sched'', ''scheduler.py'']))"
    if "fst (patch_scheduler d fs)" for fs
    using that by (auto simp: patch_scheduler_def file_has_def Let_def split: option.splits if_splits)
  have c: "file_has ''enable_queue_aware_eviction'' (snd (patch_cache_config d fs) (d @ [''config'', ''cache.py'']))"
    if "fst (patch_cache_config d fs)" for fs
    using that by (auto simp: patch_cache_config_def file_has_def Let_def split: option.splits if_splits)
  show "\<forall>(q, patch) \<in> set (zip (vllm_files d) (vllm_patches d)). \<forall>fs. fst (patch fs) \<longrightarrow> vllm_done d q (snd (patch fs) q)"
    using success_leaves_file [OF vllm.guarded] s c
    by (auto simp: vllm_done_def vllm_files_def vllm_patches_def)
qed

text \<open>
  C40: What an installer that is not asked to revert does to the files and what its exit code means. It
  touches nothing but its four files and their backups, creates and removes no file of the package, never
  overwrites a backup, and changes a file only when its backup holds the original. For SGLang the exit code
  is 0 exactly when the package was found and has all four files; for vLLM, 0 means in addition that the
  hook is in the scheduler and the new field in the configuration.
\<close>

theorem installers_are_careful:
  assumes "''--revert'' \<notin> set args" and "find_package_dir is_dir spec_origin (case args of [] \<Rightarrow> None | a # _ \<Rightarrow> Some a) = found"
  shows "(case sglang_main is_dir spec_origin args fs of (code, fs') \<Rightarrow> (case found of
      Inl e \<Rightarrow> code = 1 \<and> fs' = fs
    | Inr d \<Rightarrow> careful (sglang_files d) fs fs' \<and> (code = 0 \<longleftrightarrow> (\<forall>p \<in> set (sglang_files d). fs p \<noteq> None))))
    \<and> (case vllm_main is_dir spec_origin args fs of (code, fs') \<Rightarrow> (case found of
      Inl e \<Rightarrow> code = 1 \<and> fs' = fs
    | Inr d \<Rightarrow> careful (vllm_files d) fs fs' \<and> (code = 0 \<longrightarrow> (\<forall>p \<in> set (vllm_files d). vllm_done d p (fs' p)))))"
proof (cases found)
  case (Inl e)
  show ?thesis unfolding sglang_main_def vllm_main_def main_nowhere [OF assms(1) assms(2) [unfolded Inl]] by (simp add: Inl)
next
  case (Inr d)
  show ?thesis unfolding sglang_main_def vllm_main_def main_install [OF assms(1) assms(2) [unfolded Inr]] sglang_success
    by (simp add: Inr sglang.run_careful vllm.run_careful vllm_success)
qed

theorem installers_are_careful_witness:
  "fst (sglang_main (\<lambda>_. False) (Some [''sglang'', ''__init__.py'']) [] demo_files) \<noteq> 0
   \<and> careful (vllm_files [''sglang'']) demo_files (snd (vllm_main (\<lambda>_. False) (Some [''sglang'', ''__init__.py'']) [] demo_files))"
proof -
  have a: "''--revert'' \<notin> set ([] :: string list)" by simp
  have f: "find_package_dir (\<lambda>_. False) (Some [''sglang'', ''__init__.py'']) (case [] of [] \<Rightarrow> None | a # _ \<Rightarrow> Some a) = Inr [''sglang'']"
    by (simp add: find_package_dir_def)
  have m: "\<not> (\<forall>p \<in> set (sglang_files [''sglang'']). demo_files p \<noteq> None)" by (simp add: sglang_files_def demo_files_def)
  show ?thesis using installers_are_careful [OF a f, of demo_files] m by (auto simp: case_prod_beta)
qed

text \<open>Whether SGLang is patched is decided by one of the four files.\<close>

lemma one_file_decides:
  assumes "\<forall>name fs ms. fst (be_import be name fs ms)" and "\<forall>w. be_strategy be w"
  shows "fst (patch_sglang be False w)" and "pw_files (snd (patch_sglang be False w)) = pw_files w"
  using assms by (simp_all add: patch_sglang_def is_sglang_patched_def import_module_def case_prod_beta)

section \<open>The edits\<close>

text \<open>A pattern that starts with a literal text finds nothing where the text is not.\<close>

lemma startswith_contains: "startswith (drop i s) w \<Longrightarrow> contains w s"
  unfolding startswith_iff contains_iff by (metis append_take_drop_id)

lemma rx_sub_absent:
  assumes "\<not> contains w s"
  shows "rx_sub (Lit w # ps) repl s = s" and "rx_sub (Open k # Lit w # ps) repl s = s"
proof -
  have n: "\<not> startswith (drop i s) w" for i using startswith_contains [of i s w] assms by blast
  then have "rx_search (Lit w # ps) s = None" "rx_search (Open k # Lit w # ps) s = None" by (simp_all add: rx_search_None)
  then show "rx_sub (Lit w # ps) repl s = s" "rx_sub (Open k # Lit w # ps) repl s = s" by (simp_all add: rx_sub_def)
qed

text \<open>
  Some patches report success when their anchor is not there: the field is not added to the block class,
  but the file counts as patched, and the exit code of \<open>installers_are_careful\<close> does not show it.
\<close>

lemma block_field_silently_missing:
  assumes "lacks ''queue_ref_count'' (ed_text e)" and "lacks (text_of [''    is_null: bool = False'']) (ed_text e)"
  shows "ed_text (add_block_field p e) = ed_text e" and "ed_changed (add_block_field p e)"
  using assms by (simp_all add: add_block_field_def edit_if_def sub_lines_def rx_sub_absent lacks_def)

text \<open>The first occurrence of a text.\<close>

lemma not_before:
  assumes "\<not> contains w (pre @ butlast w)" and "k < length pre"
  shows "\<not> startswith (drop k (pre @ w @ post)) w"
proof
  assume "startswith (drop k (pre @ w @ post)) w"
  then obtain rest where r: "drop k (pre @ w @ post) = w @ rest" by (auto simp: startswith_iff)
  let ?s = "pre @ w @ post" and ?n = "length pre + length w - 1"
  define a where "a = take k ?s"
  have a: "?s = a @ w @ rest" "length a = k" "k + length w \<le> ?n" "k \<le> ?n"
    using r assms(2) by (simp_all add: a_def flip: r)
  have "take ?n (a @ w @ rest) = a @ w @ take (?n - k - length w) rest" using a(2-4) by simp
  then have "take ?n ?s = a @ w @ take (?n - k - length w) rest" unfolding a(1) .
  moreover have "w \<noteq> []" using assms(1) contains_iff [of "[]" pre] by auto
  then have "take ?n ?s = pre @ butlast w" by (cases w rule: rev_cases) simp_all
  ultimately show False using assms(1) by (metis contains_self)
qed

lemma rx_search_eqI:
  assumes "rx_match ps s i [] = (j, g) # more_matches" and "i \<le> length s" and "\<And>k. k < i \<Longrightarrow> rx_match ps s k [] = []"
  shows "rx_search ps s = Some (i, j, g)"
proof (cases "rx_search ps s")
  case None
  then show ?thesis using assms(1,2) by (auto simp: rx_search_None)
next
  case (Some r)
  obtain i' j' g' where r: "r = (i', j', g')" by (cases r)
  note x = rx_search_Some [OF Some [unfolded r]]
  have "i' = i" using x(3) x(4) [of i] assms(1,3) by (metis linorder_neqE_nat list.distinct(1))
  then show ?thesis using x(2) assms(1) Some r by simp
qed

lemma rx_sub_first:
  assumes f: "\<not> contains w (pre @ butlast w)" and m: "rx_match (Lit w # ps) (pre @ w @ post) (length pre) [] = (j, g) # more_matches"
  shows "rx_sub (Lit w # ps) repl (pre @ w @ post) = pre @ repl (group_text (pre @ w @ post) g) @ drop j (pre @ w @ post)"
proof -
  have "rx_search (Lit w # ps) (pre @ w @ post) = Some (length pre, j, g)"
    by (rule rx_search_eqI [OF m]) (use not_before [OF f] in simp_all)
  then show ?thesis by (simp add: rx_sub_def)
qed

lemma rep_step:
  assumes "repeats lazy n P (drop i s) = k # ks" and "rx_match ps s (i + k) g = x # ms"
  shows "\<exists>ms'. rx_match (Rep lazy n P # ps) s i g = x # ms'"
  using assms by simp

lemma lit_step:
  assumes "startswith (drop i s) w" and "rx_match ps s (i + length w) g = x # ms"
  shows "rx_match (Lit w # ps) s i g = x # ms"
  using assms by simp

text \<open>
  The edit of the list of eviction policies: on a text whose first mention of the list is its definition,
  it appends the policy to the items and changes nothing else.
\<close>

lemma choice_is_added:
  assumes f: "\<not> contains ''RADIX_EVICTION_POLICY_CHOICES'' (pre @ butlast ''RADIX_EVICTION_POLICY_CHOICES'')"
    and b: "CHR '']'' \<notin> set items"
  shows "add_choice (pre @ ''RADIX_EVICTION_POLICY_CHOICES = ['' @ items @ '']'' @ post)
    = pre @ ''RADIX_EVICTION_POLICY_CHOICES = ['' @ rstrip items @ '', \"queue-aware\"]'' @ post"
proof -
  define w where "w = ''RADIX_EVICTION_POLICY_CHOICES''"
  define rest where "rest = '' = ['' @ items @ '']'' @ post"
  let ?s = "pre @ w @ rest" and ?n = "length pre + length w"
  let ?ps = "[spaces0, Lit ''='', spaces0, Lit ''['', Open 1, Rep False 0 not_bracket, Close 1, Lit '']'']"
  have d: "drop ?n ?s = '' = ['' @ items @ '']'' @ post" by (simp add: rest_def)
  have d1: "drop (?n + 1) ?s = ''= ['' @ items @ '']'' @ post" "drop (?n + 2) ?s = '' ['' @ items @ '']'' @ post"
    "drop (?n + 3) ?s = ''['' @ items @ '']'' @ post" "drop (?n + 4) ?s = items @ '']'' @ post"
    using d by (simp_all add: rest_def)
  have sp: "is_space (CHR '' '')" "\<not> is_space (CHR ''='')" "\<not> is_space (CHR ''['')" by (simp_all add: is_space_def)
  have r0: "repeats False 0 is_space (drop ?n ?s) = [1, 0]" "repeats False 0 is_space (drop (?n + 2) ?s) = [1, 0]"
    unfolding d d1 by (simp_all add: repeats_def sp)
  have "\<forall>c \<in> set items. not_bracket c" using b by (auto simp: not_bracket_def)
  then have "takeWhile not_bracket (items @ '']'' @ post) = items" by (simp add: takeWhile_append2 not_bracket_def)
  then have r1: "repeats False 0 not_bracket (drop (?n + 4) ?s) = length items # rev [0..<length items]"
    unfolding d1 by (simp add: repeats_def)
  define g where "g = [(1 :: nat, ?n + 4, ?n + 4 + length items), (1, ?n + 4, ?n + 4)]"
  let ?g0 = "[(1 :: nat, ?n + 4, ?n + 4)]" and ?e = "?n + 4 + length items"
  have d2: "drop ?e ?s = '']'' @ post" using d1(4) by (metis drop_drop add.commute append_eq_conv_conj)
  have "rx_match [Close 1, Lit '']''] ?s ?e ?g0 = [(?e + 1, g)]" using d2 by (simp add: g_def startswith_def)
  then obtain m1 where "rx_match [Rep False 0 not_bracket, Close 1, Lit '']''] ?s (?n + 4) ?g0 = (?e + 1, g) # m1"
    using rep_step [OF r1] by blast
  moreover have "?n + 3 + length ''['' = ?n + 4" by simp
  ultimately have "rx_match [Open 1, Rep False 0 not_bracket, Close 1, Lit '']''] ?s (?n + 3 + length ''['') [] = (?e + 1, g) # m1"
    unfolding rx_match.simps(4) by (simp only:)
  then have "rx_match [Lit ''['', Open 1, Rep False 0 not_bracket, Close 1, Lit '']''] ?s (?n + 3) [] = (?e + 1, g) # m1"
    by (rule lit_step [rotated]) (unfold startswith_def d1(3), simp)
  moreover have "?n + 3 = ?n + 2 + 1" by simp
  ultimately obtain m2 where "rx_match [spaces0, Lit ''['', Open 1, Rep False 0 not_bracket, Close 1, Lit '']''] ?s (?n + 2) [] = (?e + 1, g) # m2"
    using rep_step [OF r0(2)] by metis
  moreover have "?n + 2 = ?n + 1 + length ''=''" by simp
  ultimately have "rx_match [spaces0, Lit ''['', Open 1, Rep False 0 not_bracket, Close 1, Lit '']''] ?s (?n + 1 + length ''='') [] = (?e + 1, g) # m2"
    by (simp only:)
  then have "rx_match [Lit ''='', spaces0, Lit ''['', Open 1, Rep False 0 not_bracket, Close 1, Lit '']''] ?s (?n + 1) [] = (?e + 1, g) # m2"
    by (rule lit_step [rotated]) (unfold startswith_def d1(1), simp)
  then obtain m3 where "rx_match ?ps ?s ?n [] = (?e + 1, g) # m3" using rep_step [OF r0(1)] by blast
  then have m: "rx_match (Lit w # ?ps) ?s (length pre) [] = (?e + 1, g) # m3"
    by (intro lit_step) (simp_all add: startswith_def)
  have "add_choice ?s = pre @ (''RADIX_EVICTION_POLICY_CHOICES = ['' @ rstrip (group_text ?s g 1) @ '', \"queue-aware\"]'') @ drop (?e + 1) ?s"
    unfolding add_choice_def w_def [symmetric] by (rule rx_sub_first [OF f [folded w_def] m])
  moreover have "group_text ?s g 1 = items"
  proof -
    have "drop (?n + 4) (take ?e ?s) = take (length items) (drop (?n + 4) ?s)" by (simp add: drop_take)
    then show ?thesis unfolding d1(4) by (simp add: group_text_def g_def)
  qed
  moreover have "drop (?e + 1) ?s = post" using arg_cong [OF d2, of "drop 1"] by (simp del: drop_append length_append)
  ultimately show ?thesis by (simp add: w_def rest_def)
qed

text \<open>A list that ends with a comma is left with two commas in a row, which Python does not parse.\<close>

lemma trailing_comma_doubled:
  "add_choice (''RADIX_EVICTION_POLICY_CHOICES = ['' @ ''\"lru\",'' @ '']'' @ post)
    = ''RADIX_EVICTION_POLICY_CHOICES = ['' @ ''\"lru\",, \"queue-aware\"]'' @ post"
proof -
  have "\<not> contains ''RADIX_EVICTION_POLICY_CHOICES'' ([] @ butlast ''RADIX_EVICTION_POLICY_CHOICES'')"
    by (simp add: startswith_def)
  moreover have "CHR '']'' \<notin> set ''\"lru\",''" by simp
  ultimately have "add_choice ([] @ ''RADIX_EVICTION_POLICY_CHOICES = ['' @ ''\"lru\",'' @ '']'' @ post)
    = [] @ ''RADIX_EVICTION_POLICY_CHOICES = ['' @ rstrip ''\"lru\",'' @ '', \"queue-aware\"]'' @ post"
    by (rule choice_is_added)
  moreover have "rstrip ''\"lru\",'' = ''\"lru\",''" by (simp add: rstrip_def is_space_def)
  ultimately show ?thesis by simp
qed

end
