(* ===== verification/Poisson_Client.thy ===== *)
theory Poisson_Client
  imports Client_Reorder
begin

text \<open>
  \<open>src/python/peek/offline/benchmarks/poisson_client.py\<close>: the client that sends a workload to a server,
  either as it is (\<open>run_poisson\<close>) or through the dispatcher (\<open>run_poisson_peek\<close>), and the helpers of
  \<open>workloads.py\<close> that make requests of prompts. The tasks of the event loop are a step relation: any
  task may move next. What the server answers, and when, is an argument of the step that ends a task;
  JSON decoding is an argument. Waiting between two submissions, printing and the command line are left
  out.
\<close>

section \<open>One request\<close>

text \<open>What \<open>json.loads\<close> returns; \<open>d.get(k, v)\<close> raises when \<open>d\<close> is not a dictionary.\<close>

datatype json =
  JNull | JBool bool | JInt int | JFloat pyfloat | JStr string | JArr "json list" | JObj "(string \<times> json) list"

definition json_get :: "json \<Rightarrow> string \<Rightarrow> json \<Rightarrow> json res" where
  "json_get d k v = (case d of JObj kvs \<Rightarrow> Inr (dget_or kvs k v) | _ \<Rightarrow> Inl AttributeError)"

record payload =
  pl_token_ids :: "int list"
  pl_max_new_tokens :: int
  pl_rid :: "string option"
  pl_stream :: bool

definition request_label :: "disp_request \<Rightarrow> int \<Rightarrow> string" where
  "request_label req idx = (case req_id req of Some i \<Rightarrow> i | None \<Rightarrow> ''req-'' @ show_int idx)"

definition sglang_payload :: "disp_request \<Rightarrow> int \<Rightarrow> int \<Rightarrow> bool \<Rightarrow> payload" where
  "sglang_payload req idx max_new_tokens stream =
     \<lparr>pl_token_ids = req_token_ids req, pl_max_new_tokens = max_new_tokens,
      pl_rid = Some (case req_rid req of Some r \<Rightarrow> r | None \<Rightarrow> request_label req idx), pl_stream = stream\<rparr>"

definition vllm_payload :: "disp_request \<Rightarrow> int \<Rightarrow> bool \<Rightarrow> payload" where
  "vllm_payload req max_new_tokens stream =
     \<lparr>pl_token_ids = req_token_ids req, pl_max_new_tokens = max_new_tokens, pl_rid = None, pl_stream = stream\<rparr>"

record metrics =
  request_id :: string
  input_tokens :: int
  output_tokens :: json
  cached_tokens :: json
  e2e_latency_s :: pyfloat
  ttft_s :: pyfloat
  server_e2e_latency_s :: json

text \<open>
  An exchange with the server: with streaming, the lines as they are decoded, each with the clock when
  it is parsed, and the error that ends them, if one does; without, the parsed body or the error; and the
  clock at the end.
\<close>

record exchange =
  ex_lines :: "(string \<times> pyfloat) list"
  ex_error :: "py_error option"
  ex_body :: "(json \<times> pyfloat) res"
  ex_end :: pyfloat

text \<open>The local variables of \<open>_send_one_sglang\<close> and \<open>_send_one_vllm\<close>.\<close>

record progress =
  first_token_seen :: bool
  pg_ttft :: pyfloat
  pg_output :: json
  pg_cached :: json
  pg_server :: json

definition progress_init :: progress where
  "progress_init = \<lparr>first_token_seen = False, pg_ttft = 0, pg_output = JInt 0, pg_cached = JInt 0, pg_server = JFloat 0\<rparr>"

definition first_token :: "pyfloat \<Rightarrow> progress \<Rightarrow> progress" where
  "first_token t p = (if first_token_seen p then p else p\<lparr>pg_ttft := t, first_token_seen := True\<rparr>)"

definition sglang_chunk :: "bool \<Rightarrow> json \<Rightarrow> progress \<Rightarrow> progress res" where
  "sglang_chunk stream data p =
     rbind (json_get data ''meta_info'' (JObj [])) (\<lambda>meta.
     rbind (json_get meta ''cached_tokens'' (JInt 0)) (\<lambda>cached.
     rbind (json_get meta ''completion_tokens'' (if stream then pg_output p else JInt 0)) (\<lambda>output.
     rbind (json_get meta ''e2e_request_latency'' (JFloat 0)) (\<lambda>server.
       Inr (p\<lparr>pg_cached := cached, pg_output := output, pg_server := server\<rparr>)))))"

definition vllm_chunk :: "bool \<Rightarrow> json \<Rightarrow> progress \<Rightarrow> progress res" where
  "vllm_chunk stream data p =
     rbind (json_get data ''usage'' (JObj [])) (\<lambda>usage.
     rbind (json_get usage ''completion_tokens'' (if stream then pg_output p else JInt 0)) (\<lambda>output.
       Inr (p\<lparr>pg_output := output\<rparr>)))"

text \<open>The loop over the lines: other lines and what does not parse are skipped, \<open>[DONE]\<close> ends it.\<close>

fun stream_loop ::
  "(string \<Rightarrow> json option) \<Rightarrow> (json \<Rightarrow> progress \<Rightarrow> progress res) \<Rightarrow> pyfloat \<Rightarrow> (string \<times> pyfloat) list \<Rightarrow>
     py_error option \<Rightarrow> progress \<Rightarrow> progress res"
where
  "stream_loop loads chunk t_start [] err p = (case err of None \<Rightarrow> Inr p | Some e \<Rightarrow> Inl e)"
| "stream_loop loads chunk t_start ((raw, now) # ls) err p =
     (let line = strip raw
      in if line = [] \<or> \<not> startswith line ''data:'' then stream_loop loads chunk t_start ls err p
         else let data_str = strip (drop (length ''data:'') line)
              in if data_str = ''[DONE]'' then Inr p
                 else case loads data_str of
                        None \<Rightarrow> stream_loop loads chunk t_start ls err p
                      | Some data \<Rightarrow>
                          rbind (chunk data (first_token (fsub now t_start) p)) (stream_loop loads chunk t_start ls err))"

definition receive ::
  "(string \<Rightarrow> json option) \<Rightarrow> (bool \<Rightarrow> json \<Rightarrow> progress \<Rightarrow> progress res) \<Rightarrow> bool \<Rightarrow> pyfloat \<Rightarrow> exchange \<Rightarrow> progress res"
where
  "receive loads chunk stream t_start ex =
     (if stream then stream_loop loads (chunk True) t_start (ex_lines ex) (ex_error ex) progress_init
      else rbind (ex_body ex) (\<lambda>(data, now). chunk False data (first_token (fsub now t_start) progress_init)))"

text \<open>What is stored for the request; nothing (\<open>None\<close>) when an error was caught.\<close>

definition measured :: "disp_request \<Rightarrow> int \<Rightarrow> pyfloat \<Rightarrow> exchange \<Rightarrow> progress res \<Rightarrow> metrics option" where
  "measured req idx t_start ex r =
     (case r of
        Inl e \<Rightarrow> None
      | Inr p \<Rightarrow>
          let e2e = fsub (ex_end ex) t_start
          in Some \<lparr>request_id = request_label req idx, input_tokens = int (length (req_token_ids req)),
               output_tokens = pg_output p, cached_tokens = pg_cached p, e2e_latency_s = e2e,
               ttft_s = (if first_token_seen p then pg_ttft p else e2e), server_e2e_latency_s = pg_server p\<rparr>)"

definition send_one_sglang ::
  "(string \<Rightarrow> json option) \<Rightarrow> bool \<Rightarrow> disp_request \<Rightarrow> int \<Rightarrow> pyfloat \<Rightarrow> exchange \<Rightarrow> metrics option"
where
  "send_one_sglang loads stream req idx t_start ex =
     measured req idx t_start ex (receive loads sglang_chunk stream t_start ex)"

definition send_one_vllm ::
  "(string \<Rightarrow> json option) \<Rightarrow> bool \<Rightarrow> disp_request \<Rightarrow> int \<Rightarrow> pyfloat \<Rightarrow> exchange \<Rightarrow> metrics option"
where
  "send_one_vllm loads stream req idx t_start ex =
     measured req idx t_start ex (receive loads vllm_chunk stream t_start ex)"

section \<open>The two clients\<close>

text \<open>
  A task is made (\<open>Created\<close>), reads the clock and waits for the semaphore (\<open>Queued\<close>), talks to the server
  (\<open>Flying\<close>) and ends.
\<close>

datatype task_state = Created | Queued pyfloat | Flying pyfloat | Finished pyfloat exchange

record send_task =
  st_req :: disp_request
  st_idx :: int
  st_state :: task_state

record client_env =
  ce_peek :: bool
  ce_sglang :: bool
  ce_stream :: bool
  ce_max_concurrent :: nat
  ce_loads :: "string \<Rightarrow> json option"
  ce_hash :: "int list \<Rightarrow> int"

definition send_fn :: "client_env \<Rightarrow> disp_request \<Rightarrow> int \<Rightarrow> pyfloat \<Rightarrow> exchange \<Rightarrow> metrics option" where
  "send_fn env = (if ce_sglang env then send_one_sglang (ce_loads env) (ce_stream env)
                  else send_one_vllm (ce_loads env) (ce_stream env))"

text \<open>\<open>cl_posted\<close> are the coroutines \<open>_send\<close> handed to the loop and not yet run.\<close>

record client =
  cl_disp :: dispatcher
  cl_store :: "cache_store option"
  cl_next :: nat
  cl_posted :: "send_task list"
  cl_tasks :: "send_task list"
  cl_results :: "metrics option list"

definition client_init :: "disp_request list \<Rightarrow> cache_store option \<Rightarrow> client" where
  "client_init reqs store =
     \<lparr>cl_disp = dispatcher_init 128, cl_store = store, cl_next = 0, cl_posted = [], cl_tasks = [],
      cl_results = replicate (length reqs) None\<rparr>"

definition idx_map :: "disp_request list \<Rightarrow> (string, int) pydict" where
  "idx_map reqs =
     dict_update [] (map (\<lambda>i. (request_label (reqs ! nat i) i, i)) [0..int (length reqs) - 1])"

text \<open>\<open>dispatch_fn\<close> finds the slot of a request by its id.\<close>

definition dispatch_idx :: "disp_request list \<Rightarrow> disp_request \<Rightarrow> int" where
  "dispatch_idx reqs req = dget_or (idx_map reqs) (case req_id req of Some i \<Rightarrow> i | None \<Rightarrow> '''') 0"

definition new_task :: "disp_request \<Rightarrow> int \<Rightarrow> send_task" where
  "new_task req idx = \<lparr>st_req = req, st_idx = idx, st_state = Created\<rparr>"

definition dispatch_fn :: "disp_request list \<Rightarrow> disp_request \<Rightarrow> send_task" where
  "dispatch_fn reqs req = new_task req (dispatch_idx reqs req)"

text \<open>One turn of the loop over the requests; the calls of \<open>send_fn\<close> are what \<open>submit\<close> adds to \<open>sent\<close>.\<close>

definition client_submit :: "client_env \<Rightarrow> disp_request list \<Rightarrow> client \<Rightarrow> client res" where
  "client_submit env reqs c =
     (let req = reqs ! cl_next c
      in if ce_peek env
         then rbind (submit (ce_hash env) req (cl_disp c, cl_store c)) (\<lambda>(d, store).
                Inr (c\<lparr>cl_disp := d, cl_store := store, cl_next := cl_next c + 1,
                       cl_posted := cl_posted c @ map (dispatch_fn reqs) (drop (length (sent (cl_disp c))) (sent d))\<rparr>))
         else Inr (c\<lparr>cl_next := cl_next c + 1, cl_tasks := cl_tasks c @ [new_task req (int (cl_next c))]\<rparr>))"

definition set_state :: "nat \<Rightarrow> task_state \<Rightarrow> client \<Rightarrow> client" where
  "set_state k s c = c\<lparr>cl_tasks := (cl_tasks c)[k := (cl_tasks c ! k)\<lparr>st_state := s\<rparr>]\<rparr>"

definition flying :: "task_state \<Rightarrow> bool" where
  "flying s = (case s of Flying t \<Rightarrow> True | _ \<Rightarrow> False)"

definition in_flight :: "client \<Rightarrow> nat" where
  "in_flight c = length (filter (\<lambda>t. flying (st_state t)) (cl_tasks c))"

definition finish_task :: "client_env \<Rightarrow> nat \<Rightarrow> pyfloat \<Rightarrow> exchange \<Rightarrow> client \<Rightarrow> client" where
  "finish_task env k t_start ex c =
     (let t = cl_tasks c ! k;
          c1 = set_state k (Finished t_start ex) c
      in case send_fn env (st_req t) (st_idx t) t_start ex of
           None \<Rightarrow> c1
         | Some m \<Rightarrow> c1\<lparr>cl_results := (cl_results c1)[nat (st_idx t) := Some m]\<rparr>)"

inductive client_step :: "client_env \<Rightarrow> disp_request list \<Rightarrow> client \<Rightarrow> client \<Rightarrow> bool" for env reqs where
  Submit: "cl_next c < length reqs \<Longrightarrow> client_submit env reqs c = Inr c' \<Longrightarrow> client_step env reqs c c'"
| Post: "cl_posted c = t # ts \<Longrightarrow> client_step env reqs c (c\<lparr>cl_posted := ts, cl_tasks := cl_tasks c @ [t]\<rparr>)"
| Start: "k < length (cl_tasks c) \<Longrightarrow> st_state (cl_tasks c ! k) = Created \<Longrightarrow>
    client_step env reqs c (set_state k (Queued now) c)"
| Acquire: "k < length (cl_tasks c) \<Longrightarrow> st_state (cl_tasks c ! k) = Queued t \<Longrightarrow> in_flight c < ce_max_concurrent env \<Longrightarrow>
    client_step env reqs c (set_state k (Flying t) c)"
| Finish: "k < length (cl_tasks c) \<Longrightarrow> st_state (cl_tasks c ! k) = Flying t \<Longrightarrow>
    client_step env reqs c (finish_task env k t ex c)"

definition finished :: "task_state \<Rightarrow> bool" where
  "finished s = (case s of Finished t ex \<Rightarrow> True | _ \<Rightarrow> False)"

text \<open>
  The run is over when every request is submitted and every task has ended. \<open>run_poisson_peek\<close> takes the
  list of the tasks after a last pause of 0.2 s, in which the loop runs the coroutines handed to it.
\<close>

definition client_done :: "disp_request list \<Rightarrow> client \<Rightarrow> bool" where
  "client_done reqs c \<longleftrightarrow> cl_next c = length reqs \<and> cl_posted c = [] \<and> (\<forall>t \<in> set (cl_tasks c). finished (st_state t))"

definition collected :: "client \<Rightarrow> metrics list" where
  "collected c = map the (filter (\<lambda>r. r \<noteq> None) (cl_results c))"

section \<open>The percentiles of a run\<close>

definition percentile_99 :: "pyfloat list \<Rightarrow> pyfloat" where
  "percentile_99 xs =
     (if xs = [] then 0
      else fmul 1000 (sort xs ! nat (py_trunc (fmul (of_pyint (int (length xs))) (fl (99 / 100))))))"

definition p99_ttft_ms :: "metrics list \<Rightarrow> pyfloat" where
  "p99_ttft_ms ms = percentile_99 (map ttft_s ms)"

definition p99_e2e_latency_ms :: "metrics list \<Rightarrow> pyfloat" where
  "p99_e2e_latency_ms ms = percentile_99 (map e2e_latency_s ms)"

section \<open>Making requests\<close>

text \<open>\<open>_PromptFactory.make\<close> numbers the prompts; a group name is added to the metadata.\<close>

definition factory_make ::
  "int list \<Rightarrow> string \<Rightarrow> (string, string) pydict \<Rightarrow> pyfloat \<Rightarrow> int \<Rightarrow> prompt_request \<times> int"
where
  "factory_make toks grp md now counter0 =
     (let counter1 = counter0 + 1
      in (\<lparr>pr_id = ''req-'' @ show_int counter1, pr_token_ids = toks, arrival_time = now, wait_count = 0,
           metadata = (if grp \<noteq> [] then dset ''group'' grp md else md)\<rparr>, counter1))"

text \<open>\<open>{"id": p.id, "token_ids": p.token_ids, **p.metadata}\<close>: the metadata is written last.\<close>

definition to_request_dicts :: "prompt_request list \<Rightarrow> disp_request list" where
  "to_request_dicts prompts =
     map (\<lambda>p. \<lparr>req_is_dict = True, req_token_ids = pr_token_ids p,
               req_id = Some (dget_or (metadata p) ''id'' (pr_id p)), req_rid = dget (metadata p) ''rid'',
               peek_group_order = None, peek_group_key = None\<rparr>) prompts"

text \<open>The new ids of \<open>mixed_traffic\<close>; the shuffle that follows permutes the prompts.\<close>

definition renumber :: "prompt_request list \<Rightarrow> prompt_request list" where
  "renumber ps = map (\<lambda>(i, p). p\<lparr>pr_id := ''mix-'' @ show_int (int i + 1)\<rparr>) (enumerate 0 ps)"

text \<open>\<open>poisson_arrivals\<close>: the sizes of the waves are drawn; each has at least one prompt.\<close>

function arrival_waves :: "(nat \<Rightarrow> int) \<Rightarrow> nat \<Rightarrow> 'p list \<Rightarrow> 'p list list" where
  "arrival_waves draw k ps =
     (if ps = [] then []
      else let count = min (max 1 (draw k)) (int (length ps))
           in take (nat count) ps # arrival_waves draw (Suc k) (drop (nat count) ps))"
  by pat_completeness auto
termination by (relation "measure (\<lambda>(_, _, ps). length ps)") auto

declare arrival_waves.simps [simp del]

end
