(* ===== verification/Client_Props.thy ===== *)
theory Client_Props
  imports Poisson_Client
begin

text \<open>
  The clients of \<open>Poisson_Client\<close>: whatever the order of the tasks and the answers of the server, a run
  takes exactly as many steps as it has work, stays within the semaphore, and every measurement is in
  the slot of its own request. The index of the 99th percentile is in range, the waves of arrivals are
  the prompts, and the generated requests have distinct ids.
\<close>

section \<open>Lists updated in one place\<close>

lemma sum_map_update:
  fixes f :: "'a \<Rightarrow> nat"
  shows "k < length xs \<Longrightarrow> sum_list (map f (xs[k := x])) + f (xs ! k) = sum_list (map f xs) + f x"
  by (induction xs arbitrary: k) (auto split: nat.split)

lemma length_filter_sum: "length (filter P xs) = sum_list (map (\<lambda>x. if P x then 1 else 0 :: nat) xs)"
  by (induction xs) auto

lemma length_filter_update:
  "k < length xs \<Longrightarrow> length (filter P (xs[k := x])) + (if P (xs ! k) then 1 else 0)
     = length (filter P xs) + (if P x then 1 else 0)"
  unfolding length_filter_sum by (rule sum_map_update)

section \<open>The invariant\<close>

definition same_request :: "disp_request \<Rightarrow> disp_request \<Rightarrow> bool" where
  "same_request r r' \<longleftrightarrow> req_id r = req_id r' \<and> req_token_ids r = req_token_ids r'"

lemma send_fn_same: "same_request r r' \<Longrightarrow> send_fn env r i t ex = send_fn env r' i t ex"
  by (simp add: same_request_def send_fn_def send_one_sglang_def send_one_vllm_def measured_def request_label_def split: sum.split)

text \<open>What the slot of request \<open>i\<close> holds when the tasks are \<open>ts\<close>.\<close>

definition slot :: "client_env \<Rightarrow> disp_request list \<Rightarrow> send_task list \<Rightarrow> nat \<Rightarrow> metrics option" where
  "slot env reqs ts i =
     (if i < length ts then case st_state (ts ! i) of Finished t ex \<Rightarrow> send_fn env (reqs ! i) (int i) t ex | _ \<Rightarrow> None
      else None)"

definition tasks_inv :: "client_env \<Rightarrow> disp_request list \<Rightarrow> client \<Rightarrow> bool" where
  "tasks_inv env reqs c \<longleftrightarrow>
     cl_next c \<le> length reqs \<and> length (cl_tasks c @ cl_posted c) = cl_next c
     \<and> (\<forall>i < cl_next c. st_idx ((cl_tasks c @ cl_posted c) ! i) = int i
          \<and> same_request (st_req ((cl_tasks c @ cl_posted c) ! i)) (reqs ! i))
     \<and> (\<forall>t \<in> set (cl_posted c). st_state t = Created) \<and> (\<not> ce_peek env \<longrightarrow> cl_posted c = [])
     \<and> cl_results c = map (slot env reqs (cl_tasks c)) [0..<length reqs]
     \<and> in_flight c \<le> ce_max_concurrent env"

definition disp_inv :: "client_env \<Rightarrow> disp_request list \<Rightarrow> client \<Rightarrow> bool" where
  "disp_inv env reqs c \<longleftrightarrow>
     wf_disp (ce_hash env) (cl_disp c) \<and> disp_max_depth (cl_disp c) = 128
     \<and> (ce_peek env \<longrightarrow> next_idx (cl_disp c) = int (cl_next c)
          \<and> contents (disp_trie (cl_disp c)) = mset (map (\<lambda>i. (take 128 (req_token_ids (reqs ! i)), int i)) [0..<cl_next c]))"

text \<open>The work done: one step for a submission, one for the loop to take it over, three for its task.\<close>

definition task_work :: "send_task \<Rightarrow> nat" where
  "task_work t = (case st_state t of Created \<Rightarrow> 0 | Queued _ \<Rightarrow> 1 | Flying _ \<Rightarrow> 2 | Finished _ _ \<Rightarrow> 3)"

definition work :: "client_env \<Rightarrow> client \<Rightarrow> nat" where
  "work env c = cl_next c + (if ce_peek env then length (cl_tasks c) else 0) + sum_list (map task_work (cl_tasks c))"

definition work_per_request :: "client_env \<Rightarrow> nat" where
  "work_per_request env = (if ce_peek env then 5 else 4)"

section \<open>The slot of a request\<close>

lemma idx_map_distinct:
  assumes "\<forall>r \<in> set reqs. req_id r \<noteq> None" and "distinct (map req_id reqs)" and "i < length reqs"
  shows "dispatch_idx reqs (reqs ! i) = int i"
proof -
  let ?items = "map (\<lambda>i. (request_label (reqs ! nat i) i, i)) [0..int (length reqs) - 1]"
  have lab: "Some (request_label (reqs ! nat j) j) = req_id (reqs ! nat j)" if "0 \<le> j" "j < int (length reqs)" for j
    using assms(1) that by (force simp: request_label_def split: option.split)
  have "inj_on (\<lambda>j. request_label (reqs ! nat j) j) {0..int (length reqs) - 1}"
  proof (rule inj_onI)
    fix j k assume jk: "j \<in> {0..int (length reqs) - 1}" "k \<in> {0..int (length reqs) - 1}"
      and "request_label (reqs ! nat j) j = request_label (reqs ! nat k) k"
    then have "req_id (reqs ! nat j) = req_id (reqs ! nat k)" using lab [of j] lab [of k] by auto
    then have "nat j = nat k" using nth_eq_iff_index_eq [OF assms(2), of "nat j" "nat k"] jk by auto
    then show "j = k" using jk by auto
  qed
  then have "distinct (map fst ?items)" by (simp add: comp_def distinct_map)
  then have m: "idx_map reqs = ?items" unfolding idx_map_def by (rule dict_update_Nil_distinct)
  have "(request_label (reqs ! i) (int i), int i) \<in> set ?items" using assms(3) by (auto simp: image_iff intro!: bexI [of _ "int i"])
  then have "dget (idx_map reqs) (request_label (reqs ! i) (int i)) = Some (int i)"
    unfolding m using \<open>distinct (map fst ?items)\<close> by (rule map_of_is_SomeI [rotated])
  moreover have "req_id (reqs ! i) = Some (request_label (reqs ! i) (int i))" using lab [of "int i"] assms(3) by simp
  ultimately show ?thesis by (simp add: dispatch_idx_def dget_or_def)
qed

lemma dispatch_idx_same: "same_request r r' \<Longrightarrow> dispatch_idx reqs r = dispatch_idx reqs r'"
  by (simp add: dispatch_idx_def same_request_def)

section \<open>Steps keep the invariant\<close>

lemma set_state_fields [simp]:
  "cl_disp (set_state k s c) = cl_disp c" "cl_store (set_state k s c) = cl_store c" "cl_next (set_state k s c) = cl_next c"
  "cl_posted (set_state k s c) = cl_posted c" "cl_results (set_state k s c) = cl_results c"
  "cl_tasks (set_state k s c) = (cl_tasks c)[k := (cl_tasks c ! k)\<lparr>st_state := s\<rparr>]"
  by (simp_all add: set_state_def)

lemma in_flight_set_state:
  "k < length (cl_tasks c) \<Longrightarrow> in_flight (set_state k s c) + (if flying (st_state (cl_tasks c ! k)) then 1 else 0)
     = in_flight c + (if flying s then 1 else 0)"
  unfolding in_flight_def
  using length_filter_update [of k "cl_tasks c" "\<lambda>t. flying (st_state t)" "(cl_tasks c ! k)\<lparr>st_state := s\<rparr>"] by simp

lemma work_set_state:
  "k < length (cl_tasks c) \<Longrightarrow> work env (set_state k s c) + task_work (cl_tasks c ! k)
     = work env c + task_work ((cl_tasks c ! k)\<lparr>st_state := s\<rparr>)"
  using sum_map_update [of k "cl_tasks c" task_work "(cl_tasks c ! k)\<lparr>st_state := s\<rparr>"] by (simp add: work_def)

text \<open>The invariant without the slots and the semaphore does not see the states of started tasks.\<close>

lemma nth_set_state:
  "k < length (cl_tasks c) \<Longrightarrow>
     st_idx ((cl_tasks (set_state k s c) @ cl_posted c) ! i) = st_idx ((cl_tasks c @ cl_posted c) ! i)
     \<and> st_req ((cl_tasks (set_state k s c) @ cl_posted c) ! i) = st_req ((cl_tasks c @ cl_posted c) ! i)"
  by (auto simp: nth_append nth_list_update)

lemma slot_unfinished:
  assumes "k < length ts" and "\<not> finished (st_state (ts ! k))" and "\<not> finished s"
  shows "slot env reqs (ts[k := (ts ! k)\<lparr>st_state := s\<rparr>]) i = slot env reqs ts i"
  using assms by (auto simp: slot_def nth_list_update finished_def split: task_state.splits)

lemma slot_append_Created: "st_state t = Created \<Longrightarrow> slot env reqs (ts @ [t]) i = slot env reqs ts i"
  by (auto simp: slot_def nth_append less_Suc_eq)

lemma tasks_inv_set_state:
  assumes inv: "tasks_inv env reqs c" and k: "k < length (cl_tasks c)" and nf: "\<not> finished (st_state (cl_tasks c ! k))"
    and s: "\<not> finished s" and fl: "in_flight (set_state k s c) \<le> ce_max_concurrent env"
  shows "tasks_inv env reqs (set_state k s c)"
proof -
  have "slot env reqs (cl_tasks (set_state k s c)) = slot env reqs (cl_tasks c)"
    by (rule ext) (simp add: slot_unfinished [OF k nf s])
  then show ?thesis using inv fl nth_set_state [OF k, of s] unfolding tasks_inv_def by simp
qed

lemma tasks_inv_finish:
  assumes inv: "tasks_inv env reqs c" and k: "k < length (cl_tasks c)" and fl: "st_state (cl_tasks c ! k) = Flying t"
  shows "tasks_inv env reqs (finish_task env k t ex c)"
proof -
  let ?c = "set_state k (Finished t ex) c"
  let ?m = "send_fn env (reqs ! k) (int k) t ex"
  have kn: "k < cl_next c" "k < length reqs" using inv k by (auto simp: tasks_inv_def)
  have "(cl_tasks c @ cl_posted c) ! k = cl_tasks c ! k" using k by (simp add: nth_append)
  then have t: "st_idx (cl_tasks c ! k) = int k" "same_request (st_req (cl_tasks c ! k)) (reqs ! k)"
    using inv kn(1) unfolding tasks_inv_def by metis+
  have r: "cl_results (finish_task env k t ex c) = (cl_results c)[k := ?m]"
  proof (cases ?m)
    case None
    have "cl_results c ! k = None" using inv kn k fl unfolding tasks_inv_def by (simp add: slot_def)
    then have "(cl_results c)[k := None] = cl_results c" by (metis list_update_id)
    then show ?thesis using None t by (simp add: finish_task_def Let_def send_fn_same [OF t(2)])
  next
    case (Some m) then show ?thesis using t by (simp add: finish_task_def Let_def send_fn_same [OF t(2)])
  qed
  have "slot env reqs (cl_tasks ?c) i = (if i = k then ?m else slot env reqs (cl_tasks c) i)" for i
    using k by (simp add: slot_def nth_list_update)
  then have "(cl_results c)[k := ?m] = map (slot env reqs (cl_tasks ?c)) [0..<length reqs]"
    using inv kn(2) by (intro nth_equalityI) (simp_all add: tasks_inv_def nth_list_update)
  moreover have "in_flight ?c \<le> ce_max_concurrent env"
    using in_flight_set_state [OF k, of "Finished t ex"] inv fl by (simp add: flying_def tasks_inv_def)
  moreover have "cl_tasks (finish_task env k t ex c) = cl_tasks ?c" "cl_posted (finish_task env k t ex c) = cl_posted c"
    "cl_next (finish_task env k t ex c) = cl_next c"
    by (simp_all add: finish_task_def Let_def split: option.split)
  moreover have "in_flight (finish_task env k t ex c) = in_flight ?c" by (simp add: in_flight_def calculation(3))
  ultimately show ?thesis using inv r nth_set_state [OF k, of "Finished t ex"] unfolding tasks_inv_def by simp
qed

lemma tasks_inv_post:
  assumes inv: "tasks_inv env reqs c" and p: "cl_posted c = t # ts"
  shows "tasks_inv env reqs (c\<lparr>cl_posted := ts, cl_tasks := cl_tasks c @ [t]\<rparr>)"
proof -
  have "st_state t = Created" using inv p by (simp add: tasks_inv_def)
  then have "in_flight (c\<lparr>cl_posted := ts, cl_tasks := cl_tasks c @ [t]\<rparr>) = in_flight c"
    "slot env reqs (cl_tasks c @ [t]) = slot env reqs (cl_tasks c)"
    by (auto simp: in_flight_def flying_def slot_append_Created)
  then show ?thesis using inv p unfolding tasks_inv_def by simp
qed

text \<open>What a turn of the loop over the requests adds.\<close>

definition submit_adds :: "client_env \<Rightarrow> disp_request list \<Rightarrow> client \<Rightarrow> client \<Rightarrow> bool" where
  "submit_adds env reqs c c' \<longleftrightarrow>
     (\<exists>t. st_idx t = int (cl_next c) \<and> same_request (st_req t) (reqs ! cl_next c) \<and> st_state t = Created
        \<and> cl_next c' = cl_next c + 1 \<and> cl_results c' = cl_results c
        \<and> (if ce_peek env then cl_posted c' = cl_posted c @ [t] \<and> cl_tasks c' = cl_tasks c
           else cl_posted c' = cl_posted c \<and> cl_tasks c' = cl_tasks c @ [t]))"

lemma sent_submitted:
  "\<exists>out. sent (submitted h req d) = sent d @ [out] \<and> same_request out req"
  by (simp add: submitted_def Let_def submit_group_fields same_request_def tag_request_def)

lemma client_submit_total:
  assumes ids: "\<forall>r \<in> set reqs. req_id r \<noteq> None" "distinct (map req_id reqs)"
    and d: "disp_inv env reqs c" and n: "cl_next c < length reqs"
  shows "\<exists>c'. client_submit env reqs c = Inr c' \<and> submit_adds env reqs c c' \<and> disp_inv env reqs c'"
proof (cases "ce_peek env")
  case False
  then show ?thesis using d by (auto simp: client_submit_def Let_def submit_adds_def new_task_def same_request_def disp_inv_def)
next
  case True
  let ?r = "reqs ! cl_next c" and ?d = "cl_disp c" and ?h = "ce_hash env"
  have wf: "wf_disp ?h ?d" and depth: "disp_max_depth ?d = 128" and idx: "next_idx ?d = int (cl_next c)"
    and con: "contents (disp_trie ?d) = mset (map (\<lambda>i. (take 128 (req_token_ids (reqs ! i)), int i)) [0..<cl_next c])"
    using d True by (simp_all add: disp_inv_def)
  obtain store' where s: "submit ?h ?r (?d, cl_store c) = Inr (submitted ?h ?r ?d, store')" using submit_total [OF wf] by blast
  obtain out where out: "sent (submitted ?h ?r ?d) = sent ?d @ [out]" "same_request out ?r" using sent_submitted by blast
  have i: "dispatch_idx reqs out = int (cl_next c)"
    using dispatch_idx_same [OF out(2)] idx_map_distinct [OF ids n] by simp
  have "contents (disp_trie (submitted ?h ?r ?d)) = add_mset (py_prefix 128 (req_token_ids ?r), int (cl_next c)) (contents (disp_trie ?d))"
    using contents_submit_group [OF wf, of "req_token_ids ?r"] depth idx by (simp add: submitted_def Let_def)
  moreover have "next_idx (submitted ?h ?r ?d) = int (cl_next c) + 1" "disp_max_depth (submitted ?h ?r ?d) = 128"
    using depth idx by (simp_all add: submitted_def Let_def submit_group_fields)
  ultimately show ?thesis
    using True s out i wf_submitted [OF wf, of ?r] con
    by (simp add: client_submit_def Let_def submit_adds_def dispatch_fn_def new_task_def disp_inv_def py_prefix_nonneg
        del: mset_map mset_upt)
qed

lemma tasks_inv_submit:
  assumes inv: "tasks_inv env reqs c" and n: "cl_next c < length reqs" and a: "submit_adds env reqs c c'"
  shows "tasks_inv env reqs c'"
proof -
  obtain t where t: "st_idx t = int (cl_next c)" "same_request (st_req t) (reqs ! cl_next c)" "st_state t = Created"
    and c': "cl_next c' = cl_next c + 1" "cl_results c' = cl_results c"
    and p: "if ce_peek env then cl_posted c' = cl_posted c @ [t] \<and> cl_tasks c' = cl_tasks c
           else cl_posted c' = cl_posted c \<and> cl_tasks c' = cl_tasks c @ [t]"
    using a unfolding submit_adds_def by blast
  have len: "length (cl_tasks c @ cl_posted c) = cl_next c" using inv by (simp add: tasks_inv_def)
  have all: "cl_tasks c' @ cl_posted c' = (cl_tasks c @ cl_posted c) @ [t]"
    using p inv by (cases "ce_peek env") (auto simp: tasks_inv_def)
  have "st_idx ((cl_tasks c' @ cl_posted c') ! i) = int i \<and> same_request (st_req ((cl_tasks c' @ cl_posted c') ! i)) (reqs ! i)"
    if "i < cl_next c'" for i
  proof (cases "i = cl_next c")
    case True
    then show ?thesis unfolding all using t len by (metis nth_append_length)
  next
    case False
    then have "i < cl_next c" using that c'(1) by simp
    then show ?thesis unfolding all using inv len by (simp add: nth_append [of "cl_tasks c @ cl_posted c"] tasks_inv_def del: append_assoc)
  qed
  moreover have "slot env reqs (cl_tasks c') = slot env reqs (cl_tasks c)" "in_flight c' = in_flight c"
    using p t(3) by (auto simp: slot_append_Created in_flight_def flying_def split: if_splits)
  moreover have "length (cl_tasks c' @ cl_posted c') = cl_next c'" unfolding all using len c'(1) by simp
  moreover have "(\<forall>t \<in> set (cl_posted c'). st_state t = Created) \<and> (\<not> ce_peek env \<longrightarrow> cl_posted c' = [])"
    using p inv t(3) by (auto simp: tasks_inv_def split: if_splits)
  ultimately show ?thesis using inv n c' unfolding tasks_inv_def by simp
qed

section \<open>Work and progress\<close>

lemma work_submit: "submit_adds env reqs c c' \<Longrightarrow> work env c' = work env c + 1"
  by (auto simp: submit_adds_def work_def task_work_def split: if_splits)

lemma step_preserves:
  assumes ids: "\<forall>r \<in> set reqs. req_id r \<noteq> None" "distinct (map req_id reqs)"
    and st: "client_step env reqs c c'" and inv: "tasks_inv env reqs c" "disp_inv env reqs c"
  shows "tasks_inv env reqs c' \<and> disp_inv env reqs c' \<and> work env c' = work env c + 1"
  using st
proof cases
  case Submit
  then show ?thesis
    using client_submit_total [OF ids inv(2) Submit(1)] tasks_inv_submit [OF inv(1) Submit(1)] work_submit by auto
next
  case (Post t ts)
  then have "ce_peek env" "st_state t = Created" using inv(1) by (auto simp: tasks_inv_def)
  then show ?thesis using Post tasks_inv_post [OF inv(1) Post(2)] inv(2) by (simp add: disp_inv_def work_def task_work_def)
next
  case (Start k now)
  have "in_flight c' = in_flight c" using in_flight_set_state [OF Start(2)] Start by (simp add: flying_def)
  then have "tasks_inv env reqs c'"
    using tasks_inv_set_state [OF inv(1) Start(2)] Start inv(1) by (simp add: finished_def tasks_inv_def)
  then show ?thesis using Start inv(2) work_set_state [OF Start(2), of env "Queued now"] by (simp add: disp_inv_def task_work_def)
next
  case (Acquire k t)
  have "in_flight c' = in_flight c + 1" using in_flight_set_state [OF Acquire(2)] Acquire by (simp add: flying_def)
  then have "tasks_inv env reqs c'"
    using tasks_inv_set_state [OF inv(1) Acquire(2)] Acquire by (simp add: finished_def)
  then show ?thesis using Acquire inv(2) work_set_state [OF Acquire(2), of env "Flying t"] by (simp add: disp_inv_def task_work_def)
next
  case (Finish k t ex)
  have "work env c' = work env (set_state k (Finished t ex) c)" "disp_inv env reqs c'"
    using Finish(1) inv(2) by (simp_all add: finish_task_def Let_def work_def disp_inv_def split: option.split)
  then show ?thesis
    using Finish tasks_inv_finish [OF inv(1) Finish(2,3)] work_set_state [OF Finish(2), of env "Finished t ex"]
    by (simp add: task_work_def)
qed

lemma in_flight_pos: "in_flight c \<noteq> 0 \<Longrightarrow> \<exists>k t. k < length (cl_tasks c) \<and> st_state (cl_tasks c ! k) = Flying t"
proof -
  assume "in_flight c \<noteq> 0"
  then obtain x where "x \<in> set (cl_tasks c)" "flying (st_state x)" by (auto simp: in_flight_def filter_empty_conv)
  then show ?thesis by (auto simp: in_set_conv_nth flying_def split: task_state.splits)
qed

lemma step_exists:
  assumes ids: "\<forall>r \<in> set reqs. req_id r \<noteq> None" "distinct (map req_id reqs)" and m: "0 < ce_max_concurrent env"
    and inv: "tasks_inv env reqs c" "disp_inv env reqs c" and nd: "\<not> client_done reqs c"
  shows "\<exists>c'. client_step env reqs c c'"
proof -
  consider "cl_next c < length reqs" | "cl_posted c \<noteq> []" | t where "t \<in> set (cl_tasks c)" "\<not> finished (st_state t)"
    using nd inv(1) by (auto simp: client_done_def tasks_inv_def)
  then show ?thesis
  proof cases
    case 1
    then show ?thesis using client_submit_total [OF ids inv(2) 1] client_step.Submit by blast
  next
    case 2
    then show ?thesis using client_step.Post by (metis list.exhaust)
  next
    case 3
    then obtain k where k: "k < length (cl_tasks c)" "\<not> finished (st_state (cl_tasks c ! k))" by (metis in_set_conv_nth)
    show ?thesis
    proof (cases "st_state (cl_tasks c ! k)")
      case Created then show ?thesis using client_step.Start k(1) by blast
    next
      case (Queued t)
      show ?thesis
      proof (cases "in_flight c < ce_max_concurrent env")
        case True then show ?thesis using client_step.Acquire [OF k(1) Queued] by blast
      next
        case False then show ?thesis using m in_flight_pos [of c] client_step.Finish by fastforce
      qed
    next
      case (Flying t) then show ?thesis using client_step.Finish k(1) by blast
    next
      case (Finished t ex) then show ?thesis using k(2) by (simp add: finished_def)
    qed
  qed
qed

lemma task_work_le: "task_work t \<le> 3" "task_work t = 3 \<longleftrightarrow> finished (st_state t)"
  by (simp_all add: task_work_def finished_def split: task_state.splits)

lemma sum_bounded_eq:
  fixes f :: "'a \<Rightarrow> nat"
  assumes "\<And>x. f x \<le> b"
  shows "sum_list (map f xs) \<le> b * length xs \<and> (sum_list (map f xs) = b * length xs \<longleftrightarrow> (\<forall>x \<in> set xs. f x = b))"
proof (induction xs)
  case (Cons x xs) then show ?case using assms [of x] by auto
qed simp

lemma work_done:
  assumes inv: "tasks_inv env reqs c"
  shows "if client_done reqs c then work env c = work_per_request env * length reqs
    else work env c < work_per_request env * length reqs"
proof -
  let ?s = "sum_list (map task_work (cl_tasks c))" and ?l = "length (cl_tasks c)" and ?n = "length reqs"
  have len: "?l + length (cl_posted c) = cl_next c" "cl_next c \<le> ?n" "\<not> ce_peek env \<longrightarrow> cl_posted c = []"
    using inv by (simp_all add: tasks_inv_def)
  have s: "?s \<le> 3 * ?l" "?s = 3 * ?l \<longleftrightarrow> (\<forall>t \<in> set (cl_tasks c). finished (st_state t))"
    using sum_bounded_eq [of task_work 3 "cl_tasks c"] task_work_le by auto
  have d: "client_done reqs c \<longleftrightarrow> cl_next c = ?n \<and> ?l = cl_next c \<and> ?s = 3 * ?l"
    using len s(2) by (auto simp: client_done_def)
  show ?thesis using len s(1) unfolding d work_def work_per_request_def by auto
qed

lemma slot_Nil: "slot env reqs [] = (\<lambda>i. None)"
  by (rule ext) (simp add: slot_def)

lemma init_inv:
  "tasks_inv env reqs (client_init reqs store)" "disp_inv env reqs (client_init reqs store)" "work env (client_init reqs store) = 0"
  using wf_disp_init [of 128 "ce_hash env"]
  by (simp_all add: tasks_inv_def disp_inv_def client_init_def work_def in_flight_def slot_Nil map_replicate_const)
    (simp add: dispatcher_init_def)

lemma run_inv:
  assumes ids: "\<forall>r \<in> set reqs. req_id r \<noteq> None" "distinct (map req_id reqs)"
    and run: "(client_step env reqs ^^ k) (client_init reqs store) c"
  shows "tasks_inv env reqs c \<and> disp_inv env reqs c \<and> work env c = k"
  using run
proof (induction k arbitrary: c)
  case 0
  then have "c = client_init reqs store" by simp
  then show ?case by (simp add: init_inv)
next
  case (Suc k)
  then obtain c0 where "(client_step env reqs ^^ k) (client_init reqs store) c0" "client_step env reqs c0 c" by auto
  then show ?case using Suc.IH step_preserves [OF ids] by fastforce
qed

section \<open>A run of the client\<close>


definition demo_client :: client_env where
  "demo_client = \<lparr>ce_peek = True, ce_sglang = True, ce_stream = True, ce_max_concurrent = 1,
     ce_loads = \<lambda>s. Some (JObj []), ce_hash = \<lambda>key. sum_list key\<rparr>"

definition demo_requests :: "disp_request list" where
  "demo_requests = [sample_request, sample_request\<lparr>req_id := Some ''b''\<rparr>]"


text \<open>
  Requests without an id: the fallback names of the index are never asked for, so all their results
  end in the slot of the first request.
\<close>

lemma missing_ids_share_slot:
  assumes "req_id r = None" and "\<forall>r \<in> set reqs. req_id r \<noteq> Some ''''"
  shows "dispatch_idx reqs r = 0"
proof -
  let ?items = "map (\<lambda>i. (request_label (reqs ! nat i) i, i)) [0..int (length reqs) - 1]"
  have "'''' \<notin> fst ` set ?items"
  proof
    assume "'''' \<in> fst ` set ?items"
    then obtain i where "0 \<le> i" "i < int (length reqs)" "request_label (reqs ! nat i) i = ''''" by force
    then have "nat i < length reqs" "request_label (reqs ! nat i) i = ''''" by auto
    then show False using assms(2) by (force simp: request_label_def split: option.splits)
  qed
  then have "dget (idx_map reqs) '''' = None" unfolding idx_map_def dget_None_iff keys_dict_update by simp
  then show ?thesis using assms(1) by (simp add: dispatch_idx_def dget_or_def)
qed

text \<open>
  A chunk of a vLLM stream whose \<open>usage\<close> is there but null loses the request: the default of \<open>get\<close> is
  for missing keys only.
\<close>

lemma null_usage_loses_request:
  assumes "loads d = Some (JObj [(''usage'', JNull)])" and "strip (''data:'' @ d) = ''data:'' @ d" and "strip d = d"
    and "d \<noteq> ''[DONE]''" and "ex_lines ex = (''data:'' @ d, now) # ls"
  shows "send_one_vllm loads True req idx t ex = None"
  using assms
  by (simp add: send_one_vllm_def receive_def measured_def Let_def startswith_def vllm_chunk_def json_get_def dget_or_def)

section \<open>Percentiles, waves and ids\<close>

text \<open>\<open>int(len(xs) * 0.99)\<close> is an index of \<open>xs\<close>: rounding never carries the product up to the length.\<close>

lemma percentile_index:
  assumes "0 < n" and "n < 2 ^ 45"
  shows "0 \<le> py_trunc (fmul (of_pyint n) (fl (99 / 100))) \<and> py_trunc (fmul (of_pyint n) (fl (99 / 100))) < n"
proof -
  have "(\<bar>n\<bar> :: int) < 2 ^ 53" using assms by (simp add: abs_if)
  then have n: "of_pyint n = of_int n" by (simp add: of_pyint_def fl_of_int)
  have "fl (99 / 100) \<le> fl (127 / 128)" by (rule fl_mono) simp
  also have "fl (127 / 128) = 127 / 128" using fl_pos_dyadic [of 127 7] by (simp add: fl_def)
  finally have "of_int n * fl (99 / 100) \<le> of_int n * (127 / 128)" using assms(1) by (intro mult_left_mono) simp_all
  also have "\<dots> \<le> of_int (128 * n - 1) / 2 ^ 7" using assms(1) by simp
  finally have "fmul (of_pyint n) (fl (99 / 100)) \<le> fl (of_int (128 * n - 1) / 2 ^ 7)" unfolding fmul_def n by (rule fl_mono)
  also have "\<dots> = of_int (128 * n - 1) / 2 ^ 7"
    using fl_pos_dyadic [of "128 * n - 1" 7] assms by (simp add: fl_def)
  finally have "py_trunc (fmul (of_pyint n) (fl (99 / 100))) \<le> py_trunc (of_int (128 * n - 1) / 2 ^ 7)" by (rule py_trunc_mono)
  also have "\<dots> < n" using assms(1) by (simp add: py_trunc_def floor_less_iff)
  finally have "py_trunc (fmul (of_pyint n) (fl (99 / 100))) < n" .
  moreover have "0 \<le> fmul (of_pyint n) (fl (99 / 100))"
    unfolding fmul_def n using assms(1) by (intro fl_nonneg mult_nonneg_nonneg) (simp_all add: fl_nonneg)
  ultimately show ?thesis by (simp add: py_trunc_def)
qed

text \<open>The waves are the prompts in order, and none is empty.\<close>

lemma arrival_waves_partition: "concat (arrival_waves draw k ps) = ps \<and> [] \<notin> set (arrival_waves draw k ps)"
proof (induction draw k ps rule: arrival_waves.induct)
  case (1 draw k ps)
  let ?n = "nat (min (max 1 (draw k)) (int (length ps)))"
  show ?case
  proof (cases "ps = []")
    case False
    then have "\<not> min (max 1 (draw k)) (int (length ps)) \<le> 0" by (cases ps) auto
    then show ?thesis using 1 False by (simp add: arrival_waves.simps [of draw k ps] Let_def)
  qed (simp add: arrival_waves.simps)
qed

lemma show_int_inject: "show_int i = show_int j \<longleftrightarrow> i = j"
  by (metis py_int_show sum.inject(2))

lemma factory_ids: "pr_id (fst (factory_make toks grp md now c)) = pr_id (fst (factory_make toks' grp' md' now' c')) \<longleftrightarrow> c = c'"
  by (simp add: factory_make_def Let_def show_int_inject)

text \<open>The requests of one factory, or renumbered, meet the hypotheses of a run when no metadata overrides the id.\<close>

lemma generated_ids:
  assumes "\<forall>p \<in> set ps. dget (metadata p) ''id'' = None" and "distinct (map pr_id ps)"
  shows "(\<forall>r \<in> set (to_request_dicts ps). req_id r \<noteq> None) \<and> distinct (map req_id (to_request_dicts ps))"
proof -
  have "map req_id (to_request_dicts ps) = map Some (map pr_id ps)"
    using assms(1) by (simp add: to_request_dicts_def dget_or_def)
  moreover have "distinct (map Some (map pr_id ps))" using assms(2) by (simp only: distinct_map inj_Some simp_thms)
  ultimately show ?thesis by (simp only:) (simp add: to_request_dicts_def)
qed

lemma renumbered_ids: "distinct (map pr_id (renumber ps))"
proof -
  have "map pr_id (renumber ps) = map (\<lambda>i. ''mix-'' @ show_int (int i + 1)) [0..<length ps]"
    by (rule nth_equalityI) (simp_all add: renumber_def case_prod_beta nth_enumerate_eq)
  then show ?thesis by (simp add: distinct_map inj_on_def show_int_inject)
qed

end
