(* ===== verification/Spec2Isabelle.thy ===== *)
theory Spec2Isabelle
  imports Client_Reorder Radix_Props Radix_Evict Engine_Props Vllm_Props Online_Eviction Lpm_Props Pending_Spec Online_Sched Vllm_Round Preempt_Props Kv_Lifecycle Radix_Events Install_Props Client_Props
begin

text \<open>
  A verification library for PEEK, a scheduler and cache manager for LLM servers: requests whose
  prompts share prefixes are brought together in the waiting queue, and the KV cache keeps what
  waiting requests will need. All paths are below \<open>src/\<close>; theorems that are properties of the
  program carry a claim number in the text before them.

  The program and its parts.
  \<^item> Offline mode, client side: \<open>python/peek/offline/trie.py\<close> (theory \<open>Prefix_Trie\<close>) is a trie of
    tokenized prompts; \<open>reorder.py\<close> and \<open>prompt.py\<close> (\<open>Client_Reorder\<close>) order a batch by it and run
    the dispatcher that tags requests with group, rank and hash; the tags travel to the server, and
    \<open>CacheStateStore\<close> of \<open>engine.py\<close> (\<open>Cache_Store\<close>) carries cached fractions back.
    \<open>benchmarks/poisson_client.py\<close> (\<open>Poisson_Client\<close>) is the client that drives the dispatcher.
  \<^item> Offline mode, SGLang: the patched \<open>radix_cache.py\<close> and \<open>evict_policy.py\<close> (\<open>Radix_Cache\<close> to
    \<open>Radix_Events\<close>) hold the KV cache. \<open>Sg_Matching\<close> and \<open>Offline_Scheduler\<close> are
    \<open>offline/scheduler.py\<close>: grouping, reordering, protection of nodes. \<open>Schedule_Policy\<close> and
    \<open>Prefill_Adder\<close> are the patched \<open>schedule_policy.py\<close>: the order of the queue and the admission of
    requests into a batch. \<open>Peek_Engine\<close> is the engine that runs one cycle over the queue, the tree,
    the store and the dispatcher.
  \<^item> Offline mode, vLLM: \<open>engine_vllm.py\<close> and the three methods added to vLLM's block pool
    (\<open>Vllm_Engine\<close>).
  \<^item> Online mode: \<open>src/tree.rs\<close> and \<open>src/pending.rs\<close> (\<open>Pending_Tree\<close>) are the compiled tree of pending
    requests. \<open>online/lpm_integration.py\<close> (\<open>Lpm_Integration\<close>) sorts the queue from what that tree
    reports, \<open>online/eviction.py\<close> (\<open>Online_Eviction\<close>) ranks cache nodes by the demand it reports. The
    hooks \<open>online/engines/sglang/patch_hook.py\<close> (\<open>Online_Config\<close>, \<open>Online_Sync\<close>, \<open>Cache_Match\<close>,
    \<open>Online_Sched\<close>) and \<open>online/engines/vllm/patch_hook.py\<close> (\<open>Vllm_Config\<close>, \<open>Vllm_Sync\<close>,
    \<open>Vllm_Victims\<close>, \<open>Vllm_Round\<close>) keep the tree in step with the engine's queue and call the two.
  \<^item> Installation: \<open>offline/_patcher.py\<close>, \<open>offline/install.py\<close> and the \<open>install.py\<close> of the two
    \<open>*_patches\<close> (\<open>Text_Edit\<close>, \<open>Patch_Files\<close>, \<open>Sglang_Install\<close>, \<open>Vllm_Install\<close>, \<open>Patcher\<close>) edit the
    files of the installed engines, keep backups and restore them, from the command line and whenever
    the package is imported.

  Conventions.
  \<^item> A Python object with identity that is shared and mutated is a record in a heap (the radix tree: a
    total function from node ids, since a Python reference never dangles), any other object a record
    or datatype that is passed and returned. Insertion-ordered dictionaries are association lists
    with distinct keys (\<open>Peek_Prelude\<close>); tensors of KV indices are integer lists; Python's integers
    are \<open>int\<close>, the words of the compiled core are natural numbers.
  \<^item> Errors are values: \<open>py_error + 'a\<close> in \<open>Py_Str\<close>, a Rust \<open>Result\<close> likewise. \<open>'a run\<close> is an option of
    such a sum: \<open>None\<close> is a run that does not return. A loop whose end is not evident is a
    \<open>partial_function (option)\<close> and its return is a theorem, on every well-formed input; no fuel is
    used anywhere. The other loops are structural or come with a termination proof.
  \<^item> Floats are the rationals that binary64 numbers stand for, and each operation is rounded by \<open>fl\<close>
    (\<open>Py_Float\<close>). Infinities, NaN and magnitudes beyond \<open>2^1024\<close> are outside the model.
  \<^item> Clock readings, \<open>hash\<close>, the logarithm and exponential of \<open>math\<close>, float parsing, and the methods of
    SGLang and vLLM that are called but not in the repository, are arguments. Where a theorem relies
    on what such a method does, the law is a hypothesis and its witness instantiates it.
  \<^item> Profiling, logging and the dumps of statistics only write for diagnosis and are left out.

  The lemmas, component by component.
  \<^item> \<open>Prefix_Trie\<close>: the stack loops equal recursive traversals; the operations implement a multiset of
    entries; the order puts sharing prompts together; groups and the sharing score.
  \<^item> \<open>Client_Reorder\<close>, \<open>Cache_Store\<close>: the well-formedness of the dispatcher (every count is the number of
    pending requests of its group) is kept by every operation, and removal undoes submission.
    \<open>Client_Props\<close>: a run of the client, for any interleaving of its tasks and any answers, ends and puts
    every measurement in its place.
  \<^item> \<open>Radix_Tree\<close>: the shape invariant (parents, children, depths, lengths) and the accounting
    invariant \<open>rc_ok\<close>. \<open>Radix_Insert\<close>: matching, splitting and inserting keep it and disturb nothing;
    \<open>path_ok\<close> says what a path spells, \<open>held\<close> what the tree holds. \<open>Radix_Props\<close>: insertion, matching and
    locking as properties. \<open>Radix_Evict\<close>: eviction returns, frees enough or all there is, spares locked
    nodes, and queue-aware eviction spares referenced ones. \<open>Radix_Request\<close>, \<open>Request_Props\<close>: the KV
    indices of a finished or paused request are conserved. \<open>Kv_Lifecycle\<close>: under any
    interleaving of requests every index is in one place (tree, request or free list), nothing fails,
    and nothing leaks; \<open>Radix_Locks\<close> says who holds the locks. \<open>Radix_Events\<close>: a block keeps its name
    when its node is split.
  \<^item> \<open>Policy_Props\<close>, \<open>Prefill_Props\<close>, \<open>Preempt_Props\<close>: prefix matching, budgets and locks of an admission,
    the choice of the preempted requests without the loops. \<open>Engine_Props\<close>: the tagged and the full
    cycle, end to end. \<open>Vllm_Props\<close>: the victims of the queue-aware pop and the layout of a cycle.
  \<^item> \<open>Pending_Props\<close>, \<open>Pending_Spec\<close>: the compiled tree refines the dictionary of pending requests;
    demand, clusters and scores are exactly what the dictionary gives.
  \<^item> \<open>Lpm_Props\<close>, \<open>Online_Eviction\<close>: permutation, termination and bounds of the sorts, exactness of the
    walk over the ancestors. \<open>Online_Sync\<close>, \<open>Vllm_Sync\<close>: reachable states of the hooks under any
    history of queues, their invariant by rule induction; no history raises. \<open>Cache_Match\<close>,
    \<open>Online_Sched\<close>: the dual walk gives the sorts what one match per request gives. \<open>Vllm_Victims\<close>: no
    block a waiting request needs is evicted while there are others. \<open>Vllm_Round\<close>: the hook adds no
    exception and returns a permutation.
  \<^item> \<open>Install_Props\<close>: an installation can be undone, nothing is written without a backup, what the exit
    code says; \<open>choice_is_added\<close> shows one of the regular-expression edits exact.

  Interfaces are locales, each interpreted on the model: \<open>queue_reorder\<close> (a permutation of the queue;
  the schedulers of both modes), \<open>node_counter\<close> (the two reference counts of a node), \<open>prefill_pool\<close>
  (the cache as the admission sees it; the radix cache), \<open>prefix_cache\<close> (the cache as the dual walk sees
  it; the radix cache under the hook's walk), \<open>guarded_patch\<close> and \<open>installer\<close> (an edit that backs up
  first, and a list of them; both engines' installers, apart and together) and \<open>demand_view\<close> (demand shrinks along a path; the
  pending tree).

  Not modelled: the patched \<open>server_args.py\<close> (a copy of SGLang's declarative argument tables), the
  benchmark scripts (workload generation, plots, the statistics of a run), \<open>online/policy.py\<close> (one
  delegation to the compiled core) and the package files that only re-export. The conversion of
  Python values to \<open>u32\<close> and \<open>u64\<close> is PyO3's. Of the installers, what is printed, the errors of
  the operating system and of decoding, and Python's import system are left out. Within modelled components the diagnostics named in the
  opening text of the theories are left out.
\<close>

end
